(* ===== verification/Prelude.thy ===== *)
theory Prelude
  imports Complex_Main "HOL-Library.Multiset" "HOL-Library.AList"
begin

text \<open>
  Shared vocabulary of the development.

  \<^item> Instants (\<open>DateTime<Utc>\<close>, \<open>Instant\<close>) are integers counting nanoseconds, the
    resolution of chrono; \<open>seconds\<close> is \<open>Duration::seconds\<close>.
  \<^item> Paths are lists of components, which is how \<open>std::path::Path\<close> compares, joins and
    strips them.
  \<^item> Strings are lists of characters; \<open>trim\<close> is \<open>str::trim\<close> on ASCII white space.
  \<^item> \<open>f32\<close> values that the code only compares (scores, thresholds) are exact rationals;
    NaN is outside the model.
  \<^item> \<open>run_machine\<close> drives a step function over a list of events and collects the outputs.
    The locale \<open>conserving_machine\<close> states the contract "whatever enters is held, kept or
    dropped, exactly once" for one step and lifts it to runs; \<open>guarded_machine\<close> does the
    same for an invariant.
\<close>

type_synonym instant = int
type_synonym uuid = nat
type_synonym path = "string list"
type_synonym f32 = rat

definition seconds :: "int \<Rightarrow> int" where
  "seconds n = n * 1000000000"

definition hours :: "int \<Rightarrow> int" where
  "hours n = seconds (n * 3600)"

lemma seconds_mono [simp]: "seconds a \<le> seconds b \<longleftrightarrow> a \<le> b"
  by (simp add: seconds_def)

lemma seconds_strict_mono [simp]: "seconds a < seconds b \<longleftrightarrow> a < b"
  by (simp add: seconds_def)

lemma seconds_add: "seconds (a + b) = seconds a + seconds b"
  by (simp add: seconds_def algebra_simps)

lemma seconds_nonneg [simp]: "0 \<le> seconds a \<longleftrightarrow> 0 \<le> a"
  by (simp add: seconds_def)

lemma hours_mono [simp]: "hours a \<le> hours b \<longleftrightarrow> a \<le> b"
  by (simp add: hours_def)

definition u32_max :: nat where "u32_max = 4294967295"

definition u64_max :: nat where
  "u64_max = 18446744073709551615"

definition sat_mul_u64 :: "nat \<Rightarrow> nat \<Rightarrow> nat" where
  "sat_mul_u64 a b = min u64_max (a * b)"

definition is_space :: "char \<Rightarrow> bool" where
  "is_space c = ((of_char c :: nat) \<in> {9, 10, 11, 12, 13, 32})"

definition trim :: "string \<Rightarrow> string" where
  "trim s = rev (dropWhile is_space (rev (dropWhile is_space s)))"

subsection \<open>Lists\<close>

lemma mset_filter_split: "mset (filter P xs) + mset (filter (\<lambda>x. \<not> P x) xs) = mset xs"
  by (induction xs) auto

lemma mset_takeWhile_dropWhile: "mset (takeWhile P xs) + mset (dropWhile P xs) = mset xs"
  by (metis mset_append takeWhile_dropWhile_id)

lemma takeWhile_append_dropWhile_set: "set xs = set (takeWhile P xs) \<union> set (dropWhile P xs)"
  by (metis set_append takeWhile_dropWhile_id)

lemma sorted_wrt_dropWhile_sorted:
  "sorted (map f xs) \<Longrightarrow> x \<in> set (dropWhile (\<lambda>x. f x < c) xs) \<Longrightarrow> c \<le> f x"
proof (induction xs)
  case Nil
  then show ?case by simp
next
  case (Cons a xs)
  then show ?case by (auto split: if_splits)
qed

subsection \<open>Machines\<close>

primrec run_machine :: "('s \<Rightarrow> 'e \<Rightarrow> 'o \<times> 's) \<Rightarrow> 's \<Rightarrow> 'e list \<Rightarrow> 'o list \<times> 's" where
  "run_machine step s [] = ([], s)"
| "run_machine step s (e # es) =
     (let (out, s') = step s e; (outs, s'') = run_machine step s' es in (out # outs, s''))"

lemma run_machine_snd:
  "snd (run_machine step s (e # es)) = snd (run_machine step (snd (step s e)) es)"
  by (simp split: prod.splits)

lemma run_machine_fst:
  "fst (run_machine step s (e # es)) = fst (step s e) # fst (run_machine step (snd (step s e)) es)"
  by (simp split: prod.splits)

lemma run_machine_append:
  "run_machine step s (xs @ ys) =
     (let (o1, s1) = run_machine step s xs; (o2, s2) = run_machine step s1 ys in (o1 @ o2, s2))"
  by (induction xs arbitrary: s) (auto split: prod.splits)

lemma run_machine_length: "length (fst (run_machine step s es)) = length es"
proof (induction es arbitrary: s)
  case Nil
  then show ?case by simp
next
  case (Cons e es)
  obtain out s1 where st: "step s e = (out, s1)" by force
  obtain outs s2 where rn: "run_machine step s1 es = (outs, s2)" by force
  show ?case using Cons.IH [of s1] st rn by simp
qed

text \<open>Induction over a run together with the outputs it has produced so far.\<close>

lemma run_machine_history:
  assumes "run_machine step s0 es = (outs, s)"
    and "P [] s0"
    and "\<And>hist s1 e out s2. P hist s1 \<Longrightarrow> step s1 e = (out, s2) \<Longrightarrow> P (hist @ [out]) s2"
  shows "P outs s"
  using assms(1)
proof (induction es arbitrary: outs s rule: rev_induct)
  case Nil
  then show ?case using assms(2) by simp
next
  case (snoc e es)
  obtain o1 s1 where r: "run_machine step s0 es = (o1, s1)" by force
  obtain out s2 where st: "step s1 e = (out, s2)" by force
  have "outs = o1 @ [out]" "s = s2" using snoc.prems r st by (simp_all add: run_machine_append)
  then show ?case using assms(3) [OF snoc.IH [OF r] st] by simp
qed

text \<open>The contract of a component that takes items in and disposes of each exactly once.\<close>

locale conserving_machine =
  fixes step :: "'s \<Rightarrow> 'e \<Rightarrow> 'o \<times> 's"
    and ok :: "'s \<Rightarrow> bool"
    and held :: "'s \<Rightarrow> 'x multiset"
    and taken :: "'e \<Rightarrow> 'x multiset"
    and given :: "'o \<Rightarrow> 'x multiset"
  assumes step_ok: "ok s \<Longrightarrow> step s e = (out, s') \<Longrightarrow> ok s'"
    and step_conserves:
      "ok s \<Longrightarrow> step s e = (out, s') \<Longrightarrow> held s' + given out = held s + taken e"
begin

lemma run_ok: "ok s \<Longrightarrow> run_machine step s es = (outs, s') \<Longrightarrow> ok s'"
proof (induction es arbitrary: s outs)
  case Nil
  then show ?case by simp
next
  case (Cons e es)
  then show ?case by (auto split: prod.splits dest: step_ok)
qed

lemma run_conserves:
  "ok s \<Longrightarrow> run_machine step s es = (outs, s') \<Longrightarrow>
   held s' + (\<Sum>out\<leftarrow>outs. given out) = held s + (\<Sum>e\<leftarrow>es. taken e)"
proof (induction es arbitrary: s outs)
  case Nil
  then show ?case by simp
next
  case (Cons e es)
  obtain out s1 where st: "step s e = (out, s1)" by force
  obtain outs1 s2 where rn: "run_machine step s1 es = (outs1, s2)" by force
  have eq: "outs = out # outs1" "s' = s2" using Cons.prems st rn by auto
  have "held s' + (\<Sum>out\<leftarrow>outs1. given out) = held s1 + (\<Sum>e\<leftarrow>es. taken e)"
    using Cons.IH [OF step_ok [OF Cons.prems(1) st]] rn eq by simp
  moreover have "held s1 + given out = held s + taken e"
    using step_conserves [OF Cons.prems(1) st] .
  ultimately show ?case
    by (simp add: eq) (metis (no_types, lifting) union_assoc union_commute)
qed

lemma run_nothing_lost:
  assumes "ok s" and "run_machine step s es = (outs, s')" and "x \<in># (\<Sum>e\<leftarrow>es. taken e)"
  shows "x \<in># held s' \<or> (\<exists>out \<in> set outs. x \<in># given out)"
proof -
  have "x \<in># held s' + (\<Sum>out\<leftarrow>outs. given out)"
    using run_conserves [OF assms(1,2)] assms(3) by simp
  then consider "x \<in># held s'" | "x \<in># (\<Sum>out\<leftarrow>outs. given out)" by auto
  then show ?thesis
  proof cases
    case 2
    then show ?thesis by auto
  qed simp
qed

end

text \<open>A component with an invariant, and the lifting of the invariant to runs.\<close>

locale guarded_machine =
  fixes step :: "'s \<Rightarrow> 'e \<Rightarrow> 'o \<times> 's"
    and inv :: "'s \<Rightarrow> bool"
    and allowed :: "'e \<Rightarrow> bool"
  assumes step_inv: "inv s \<Longrightarrow> allowed e \<Longrightarrow> step s e = (out, s') \<Longrightarrow> inv s'"
begin

lemma run_inv:
  "inv s \<Longrightarrow> list_all allowed es \<Longrightarrow> run_machine step s es = (outs, s') \<Longrightarrow> inv s'"
proof (induction es arbitrary: s outs)
  case Nil
  then show ?case by simp
next
  case (Cons e es)
  then show ?case by (auto split: prod.splits dest: step_inv)
qed

end

end
