(* ===== verification/Signals.thy ===== *)
theory Signals
  imports Prelude
begin

text \<open>
  Motion signals and segment windows (\<open>services/common/src/types.rs\<close>,
  \<open>services/recorder/src/recording.rs\<close>): the signal record, the overlap test, the
  pruning of accumulated signals at a segment boundary, the motion stamp of an indexed
  segment and the clamp of a recovered end time.

  A segment covers \<open>[start, end)\<close>. A motion event reaches the recorder as an open START
  signal (no stop time) followed by a closed signal with the same \<open>started_at\<close>.
\<close>

type_synonym bbox = "f32 \<times> f32 \<times> f32 \<times> f32"

record motion_signal =
  sig_camera :: uuid
  started_at :: instant
  stopped_at :: "instant option"
  peak_score :: f32
  sig_bbox :: "bbox option"

record pending_segment =
  ps_path :: path
  ps_start :: instant
  ps_end :: instant
  ps_size :: int

definition overlaps_motion :: "instant \<Rightarrow> instant \<Rightarrow> motion_signal \<Rightarrow> bool" where
  "overlaps_motion seg_start seg_end s =
     (case stopped_at s of
        None \<Rightarrow> started_at s < seg_end
      | Some motion_stop \<Rightarrow> started_at s < seg_end \<and> seg_start < motion_stop)"

definition max_open_signal_secs :: int where
  "max_open_signal_secs = 1800"

text \<open>A closed signal stays until its stop is behind the boundary. An open START goes as soon
  as a closed signal with the same start is present, or when it is older than the cap.\<close>

definition superseded :: "motion_signal list \<Rightarrow> instant list" where
  "superseded sigs = map started_at (filter (\<lambda>s. stopped_at s \<noteq> None) sigs)"

definition prune_pending_signals :: "motion_signal list \<Rightarrow> instant \<Rightarrow> motion_signal list" where
  "prune_pending_signals sigs boundary =
     (let sup = superseded sigs in
      filter (\<lambda>s. case stopped_at s of
                Some stopped \<Rightarrow> boundary < stopped
              | None \<Rightarrow> started_at s \<notin> set sup
                  \<and> boundary - started_at s < seconds max_open_signal_secs) sigs)"

text \<open>The stamp \<open>index_segment\<close> computes: any overlap, and the best score among the
  overlapping signals with a bounding box carried along the fold.\<close>

definition has_motion :: "motion_signal list \<Rightarrow> instant \<Rightarrow> instant \<Rightarrow> bool" where
  "has_motion sigs a e = list_ex (overlaps_motion a e) sigs"

fun stamp_step :: "f32 \<times> bbox option \<Rightarrow> motion_signal \<Rightarrow> f32 \<times> bbox option" where
  "stamp_step (best, bb) s =
     (if best \<le> peak_score s
      then (peak_score s, (case sig_bbox s of None \<Rightarrow> bb | Some b \<Rightarrow> Some b))
      else (best, bb))"

definition motion_stamp :: "motion_signal list \<Rightarrow> instant \<Rightarrow> instant \<Rightarrow> f32 \<times> bbox option" where
  "motion_stamp sigs a e = foldl stamp_step (0, None) (filter (overlaps_motion a e) sigs)"

text \<open>A recovered end time (file mtime) is kept only when it is after the start and at most two
  segment lengths later.\<close>

definition clamp_recovered_end_ts :: "instant \<Rightarrow> instant \<Rightarrow> nat \<Rightarrow> instant" where
  "clamp_recovered_end_ts start_ts mtime segment_seconds =
     (let segment_len = seconds (int segment_seconds);
          max_plausible = seconds (int segment_seconds * 2)
      in if mtime \<le> start_ts \<or> max_plausible < mtime - start_ts
         then start_ts + segment_len else mtime)"

subsection \<open>Lemmas\<close>

lemma superseded_iff:
  "t \<in> set (superseded sigs) \<longleftrightarrow> (\<exists>s \<in> set sigs. started_at s = t \<and> stopped_at s \<noteq> None)"
  by (auto simp: superseded_def)

lemma prune_subset: "set (prune_pending_signals sigs b) \<subseteq> set sigs"
  by (auto simp: prune_pending_signals_def Let_def)

lemma closed_behind_never_overlaps:
  "stopped_at s = Some t \<Longrightarrow> t \<le> b \<Longrightarrow> b \<le> a \<Longrightarrow> \<not> overlaps_motion a e s"
  by (simp add: overlaps_motion_def)

lemma prune_closed_iff:
  "stopped_at s = Some t \<Longrightarrow>
   s \<in> set (prune_pending_signals sigs b) \<longleftrightarrow> s \<in> set sigs \<and> b < t"
  by (auto simp: prune_pending_signals_def Let_def)

lemma prune_open_iff:
  "stopped_at s = None \<Longrightarrow>
   s \<in> set (prune_pending_signals sigs b) \<longleftrightarrow>
     s \<in> set sigs \<and> started_at s \<notin> set (superseded sigs)
     \<and> b - started_at s < seconds max_open_signal_secs"
  by (auto simp: prune_pending_signals_def Let_def)

lemma prune_keeps_closed_overlap:
  assumes "s \<in> set sigs" "stopped_at s = Some t" "overlaps_motion a e s" "b \<le> a"
  shows "s \<in> set (prune_pending_signals sigs b)"
proof -
  have "a < t" using assms(2,3) by (simp add: overlaps_motion_def)
  then show ?thesis using assms prune_closed_iff [OF assms(2)] by simp
qed

lemma foldl_stamp_score:
  "fst (foldl stamp_step (m, bb) ss) = foldl max m (map peak_score ss)"
proof (induction ss arbitrary: m bb)
  case Nil
  then show ?case by simp
next
  case (Cons s ss)
  then show ?case by (simp add: max_def)
qed

lemma foldl_max_ge: "(m::'a::linorder) \<le> foldl max m xs"
proof (induction xs arbitrary: m)
  case Nil
  then show ?case by simp
next
  case (Cons x xs)
  have "m \<le> max m x" by simp
  also have "\<dots> \<le> foldl max (max m x) xs" by (rule Cons.IH)
  finally show ?case by simp
qed

lemma foldl_max_upper: "x \<in> set xs \<Longrightarrow> (x::'a::linorder) \<le> foldl max m xs"
proof (induction xs arbitrary: m)
  case Nil
  then show ?case by simp
next
  case (Cons y ys)
  show ?case
  proof (cases "x = y")
    case True
    have "y \<le> max m y" by simp
    also have "\<dots> \<le> foldl max (max m y) ys" by (rule foldl_max_ge)
    finally show ?thesis using True by simp
  next
    case False
    then show ?thesis using Cons by simp
  qed
qed

lemma foldl_max_mem: "foldl max (m::'a::linorder) xs = m \<or> foldl max m xs \<in> set xs"
proof (induction xs arbitrary: m)
  case Nil
  then show ?case by simp
next
  case (Cons x xs)
  then show ?case using Cons.IH [of "max m x"] by (auto simp: max_def split: if_splits)
qed

subsection \<open>Properties\<close>

text \<open>C37. Pruning at a segment boundary loses no mark. For every later segment, the pruned
  list marks it exactly when some closed event overlaps it, or some START whose stop has not
  arrived and that is younger than the thirty-minute cap began before its end. So a dropped
  closed signal never mattered, and an open START stops marking once its stop is known.\<close>

theorem prune_marks_exactly:
  assumes "b \<le> a"
  shows "has_motion (prune_pending_signals sigs b) a e \<longleftrightarrow>
     (\<exists>s \<in> set sigs. stopped_at s \<noteq> None \<and> overlaps_motion a e s) \<or>
     (\<exists>s \<in> set sigs. stopped_at s = None \<and> started_at s \<notin> set (superseded sigs)
        \<and> b - started_at s < seconds max_open_signal_secs \<and> started_at s < e)"
    (is "?L \<longleftrightarrow> ?C \<or> ?O")
proof
  assume ?L
  then obtain s where s: "s \<in> set (prune_pending_signals sigs b)" "overlaps_motion a e s"
    by (auto simp: has_motion_def list_ex_iff)
  show "?C \<or> ?O"
  proof (cases "stopped_at s")
    case None
    then show ?thesis using s prune_open_iff [OF None] by (auto simp: overlaps_motion_def)
  next
    case (Some t)
    then show ?thesis using s prune_subset by blast
  qed
next
  assume "?C \<or> ?O"
  then show ?L
  proof
    assume ?C
    then obtain s t where "s \<in> set sigs" "stopped_at s = Some t" "overlaps_motion a e s" by auto
    then show ?L using prune_keeps_closed_overlap [OF _ _ _ assms]
      by (auto simp: has_motion_def list_ex_iff)
  next
    assume ?O
    then obtain s where s: "s \<in> set sigs" "stopped_at s = None"
      "started_at s \<notin> set (superseded sigs)"
      "b - started_at s < seconds max_open_signal_secs" "started_at s < e" by auto
    then have "s \<in> set (prune_pending_signals sigs b)" using prune_open_iff [OF s(2)] by simp
    then show ?L using s
      by (auto simp: has_motion_def list_ex_iff overlaps_motion_def intro!: bexI [of _ s])
  qed
qed

theorem prune_marks_exactly_witness:
  "let sigs = [\<lparr>sig_camera = 1, started_at = seconds 10, stopped_at = None, peak_score = 1, sig_bbox = None\<rparr>,
               \<lparr>sig_camera = 1, started_at = seconds 2, stopped_at = Some (seconds 4), peak_score = 1, sig_bbox = None\<rparr>]
   in has_motion (prune_pending_signals sigs (seconds 20)) (seconds 20) (seconds 28)"
proof -
  let ?sigs = "[\<lparr>sig_camera = 1, started_at = seconds 10, stopped_at = None, peak_score = 1, sig_bbox = None\<rparr>,
               \<lparr>sig_camera = 1, started_at = seconds 2, stopped_at = Some (seconds 4), peak_score = 1, sig_bbox = None\<rparr>]"
  show ?thesis
    using prune_marks_exactly [of "seconds 20" "seconds 20" ?sigs "seconds 28"]
    by (simp add: superseded_def seconds_def max_open_signal_secs_def)
qed

end
