(* ===== verification/FileStore.thy ===== *)
theory FileStore
  imports Signals
begin

text \<open>
  The outside world of the recorder's file and index operations: files by absolute path, which of
  them are durable, the rows of the \<open>segments\<close> table, and the process-wide state the code keeps in
  statics (retry queue, refused markers, alert throttle).

  Every operation that can fail draws one outcome from the fault oracle \<open>nat \<Rightarrow> fault\<close>,
  indexed by the operation counter \<open>ticks\<close>. A theorem for all oracles covers every pattern of
  I/O errors, full disks and database outages; an oracle that fails everything from some point on
  leaves files and rows as a crash at that point does.
\<close>

type_synonym bytes = "nat list"

datatype fault = Fine | Fail "nat option"

datatype segment_stream = MainStream | SubStream

datatype segment_stage = LiveStage | ArchiveStage

record seg_row =
  r_camera :: uuid
  r_storage :: uuid
  r_stage :: segment_stage
  r_path :: path
  r_stream :: segment_stream
  r_start :: instant
  r_end :: instant
  r_duration_ms :: int
  r_has_motion :: bool
  r_score :: f32
  r_size :: int
  r_bbox :: "bbox option"
  r_shadow_keep :: "bool option"

record unpersisted =
  un_seg :: pending_segment
  un_signals :: "motion_signal list"
  un_attempts :: nat
  un_next :: instant

record store =
  files :: "path \<Rightarrow> bytes option"
  durable :: "path set"
  rows :: "seg_row list"
  queue :: "uuid \<Rightarrow> unpersisted list"
  refused_at :: "path \<Rightarrow> instant option"
  last_alert :: int
  alerts :: "(string \<times> uuid) list"
  ticks :: nat

record store_env =
  se_fault :: "nat \<Rightarrow> fault"
  se_camera :: uuid
  se_stream :: segment_stream
  se_storage :: uuid
  se_root :: path
  se_camera_dir :: path
  se_now :: instant
  se_process_start :: instant

subsection \<open>Primitive operations\<close>

definition io :: "store_env \<Rightarrow> store \<Rightarrow> fault \<times> store" where
  "io e w = (se_fault e (ticks w), w\<lparr>ticks := ticks w + 1\<rparr>)"

text \<open>\<open>try_exists\<close>: \<open>None\<close> is an error of the call.\<close>

definition try_exists :: "store_env \<Rightarrow> path \<Rightarrow> store \<Rightarrow> bool option \<times> store" where
  "try_exists e p w =
     (let (f, w1) = io e w in
      case f of Fine \<Rightarrow> (Some (files w p \<noteq> None), w1) | Fail _ \<Rightarrow> (None, w1))"

text \<open>\<open>fs::copy\<close> truncates the destination; when it fails part-way it leaves a prefix.\<close>

definition copy_file :: "store_env \<Rightarrow> path \<Rightarrow> path \<Rightarrow> store \<Rightarrow> bool \<times> store" where
  "copy_file e src dst w =
     (let (f, w1) = io e w in
      case files w src of
        None \<Rightarrow> (False, w1)
      | Some b \<Rightarrow>
          (case f of
             Fine \<Rightarrow> (True, w1\<lparr>files := (files w)(dst \<mapsto> b), durable := durable w - {dst}\<rparr>)
           | Fail None \<Rightarrow> (False, w1)
           | Fail (Some k) \<Rightarrow>
               (False, w1\<lparr>files := (files w)(dst \<mapsto> take k b), durable := durable w - {dst}\<rparr>)))"

definition remove_file :: "store_env \<Rightarrow> path \<Rightarrow> store \<Rightarrow> bool \<times> store" where
  "remove_file e p w =
     (let (f, w1) = io e w in
      case files w p of
        None \<Rightarrow> (False, w1)
      | Some _ \<Rightarrow>
          (case f of
             Fine \<Rightarrow> (True, w1\<lparr>files := (files w)(p := None), durable := durable w - {p}\<rparr>)
           | Fail _ \<Rightarrow> (False, w1)))"

text \<open>\<open>fsync_segment_and_dir\<close>: the file, then its parent directory.\<close>

definition fsync_segment_and_dir :: "store_env \<Rightarrow> path \<Rightarrow> store \<Rightarrow> bool \<times> store" where
  "fsync_segment_and_dir e p w =
     (let (f, w1) = io e w in
      if files w p = None \<or> f \<noteq> Fine then (False, w1)
      else (let (g, w2) = io e w1 in
            if g \<noteq> Fine then (False, w2) else (True, w2\<lparr>durable := insert p (durable w)\<rparr>)))"

definition same_key :: "seg_row \<Rightarrow> seg_row \<Rightarrow> bool" where
  "same_key a b \<longleftrightarrow> r_camera a = r_camera b \<and> r_stream a = r_stream b \<and> r_start a = r_start b"

text \<open>The merge of \<open>INSERT ... ON CONFLICT (camera_id, stream, start_ts) DO UPDATE\<close>.\<close>

definition merge_row :: "seg_row \<Rightarrow> seg_row \<Rightarrow> seg_row" where
  "merge_row old new =
     old\<lparr>r_size := max (r_size old) (r_size new), r_end := max (r_end old) (r_end new),
         r_path := r_path new, r_storage := r_storage new, r_stage := r_stage new,
         r_duration_ms := r_duration_ms new, r_score := max (r_score old) (r_score new),
         r_has_motion := (r_has_motion new \<or> r_has_motion old),
         r_bbox := (if r_score old \<le> r_score new then r_bbox new else r_bbox old)\<rparr>"

definition upsert_rows :: "seg_row \<Rightarrow> seg_row list \<Rightarrow> seg_row list" where
  "upsert_rows r rs =
     (if list_ex (same_key r) rs then map (\<lambda>o'. if same_key r o' then merge_row o' r else o') rs
      else rs @ [r])"

definition insert_segment :: "store_env \<Rightarrow> seg_row \<Rightarrow> store \<Rightarrow> bool \<times> store" where
  "insert_segment e r w =
     (let (f, w1) = io e w in
      case f of Fine \<Rightarrow> (True, w1\<lparr>rows := upsert_rows r (rows w)\<rparr>) | Fail _ \<Rightarrow> (False, w1))"

text \<open>\<open>ON CONFLICT DO NOTHING\<close>: \<open>Some True\<close> inserted, \<open>Some False\<close> a row exists, \<open>None\<close> an error.\<close>

definition insert_segment_if_absent :: "store_env \<Rightarrow> seg_row \<Rightarrow> store \<Rightarrow> bool option \<times> store" where
  "insert_segment_if_absent e r w =
     (let (f, w1) = io e w in
      case f of
        Fine \<Rightarrow> (if list_ex (same_key r) (rows w) then (Some False, w1)
                 else (Some True, w1\<lparr>rows := rows w @ [r]\<rparr>))
      | Fail _ \<Rightarrow> (None, w1))"

definition set_segment_motion_shadow_keep ::
  "store_env \<Rightarrow> uuid \<Rightarrow> path \<Rightarrow> bool \<Rightarrow> store \<Rightarrow> store" where
  "set_segment_motion_shadow_keep e cam p keep w =
     (let (f, w1) = io e w in
      case f of
        Fine \<Rightarrow> w1\<lparr>rows := map (\<lambda>r. if r_camera r = cam \<and> r_path r = p
                                      then r\<lparr>r_shadow_keep := Some keep\<rparr> else r) (rows w)\<rparr>
      | Fail _ \<Rightarrow> w1)"

definition insert_system_event :: "store_env \<Rightarrow> string \<Rightarrow> store \<Rightarrow> store" where
  "insert_system_event e kind w =
     (let (f, w1) = io e w in
      case f of Fine \<Rightarrow> w1\<lparr>alerts := alerts w @ [(kind, se_camera e)]\<rparr> | Fail _ \<Rightarrow> w1)"

definition store_empty :: store where
  "store_empty = \<lparr>files = (\<lambda>_. None), durable = {}, rows = [], queue = (\<lambda>_. []),
     refused_at = (\<lambda>_. None), last_alert = 0, alerts = [], ticks = 0\<rparr>"

lemmas prim_defs = io_def try_exists_def copy_file_def remove_file_def fsync_segment_and_dir_def
  insert_segment_def insert_segment_if_absent_def set_segment_motion_shadow_keep_def
  insert_system_event_def Let_def

subsection \<open>Frames\<close>

text \<open>What each primitive leaves alone.\<close>

lemma io_frame [simp]:
  "files (snd (io e w)) = files w" "rows (snd (io e w)) = rows w"
  "queue (snd (io e w)) = queue w" "durable (snd (io e w)) = durable w"
  by (simp_all add: io_def)

lemma try_exists_frame [simp]:
  "files (snd (try_exists e p w)) = files w" "rows (snd (try_exists e p w)) = rows w"
  "queue (snd (try_exists e p w)) = queue w" "durable (snd (try_exists e p w)) = durable w"
  by (simp_all add: prim_defs split: fault.split)

lemma copy_file_frame [simp]:
  "rows (snd (copy_file e s d w)) = rows w" "queue (snd (copy_file e s d w)) = queue w"
  by (simp_all add: prim_defs split: fault.split option.split)

lemma remove_file_frame [simp]:
  "rows (snd (remove_file e p w)) = rows w" "queue (snd (remove_file e p w)) = queue w"
  by (simp_all add: prim_defs split: fault.split option.split)

lemma fsync_frame [simp]:
  "files (snd (fsync_segment_and_dir e p w)) = files w"
  "rows (snd (fsync_segment_and_dir e p w)) = rows w"
  "queue (snd (fsync_segment_and_dir e p w)) = queue w"
  by (simp_all add: prim_defs split: fault.split)

lemma insert_segment_frame [simp]:
  "files (snd (insert_segment e r w)) = files w" "queue (snd (insert_segment e r w)) = queue w"
  "durable (snd (insert_segment e r w)) = durable w"
  by (simp_all add: prim_defs split: fault.split)

lemma insert_if_absent_frame [simp]:
  "files (snd (insert_segment_if_absent e r w)) = files w"
  "queue (snd (insert_segment_if_absent e r w)) = queue w"
  "durable (snd (insert_segment_if_absent e r w)) = durable w"
  by (simp_all add: prim_defs split: fault.split)

lemma shadow_keep_frame [simp]:
  "files (set_segment_motion_shadow_keep e c p k w) = files w"
  "queue (set_segment_motion_shadow_keep e c p k w) = queue w"
  "durable (set_segment_motion_shadow_keep e c p k w) = durable w"
  by (simp_all add: prim_defs split: fault.split)

lemma system_event_frame [simp]:
  "files (insert_system_event e k w) = files w" "rows (insert_system_event e k w) = rows w"
  "queue (insert_system_event e k w) = queue w" "durable (insert_system_event e k w) = durable w"
  by (simp_all add: prim_defs split: fault.split)

lemma try_exists_sound:
  "try_exists e p w = (Some True, w') \<Longrightarrow> files w p \<noteq> None"
  "try_exists e p w = (Some False, w') \<Longrightarrow> files w p = None"
  by (auto simp: prim_defs split: fault.splits)

lemma copy_file_ok:
  "copy_file e s d w = (True, w') \<Longrightarrow> \<exists>b. files w s = Some b \<and> files w' = (files w)(d \<mapsto> b)"
  by (auto simp: prim_defs split: fault.splits option.splits)

lemma copy_file_other: "p \<noteq> d \<Longrightarrow> files (snd (copy_file e s d w)) p = files w p"
  by (auto simp: prim_defs split: fault.splits option.splits)

lemma copy_file_no_source:
  "files w s = None \<Longrightarrow> files (snd (copy_file e s d w)) = files w"
  by (auto simp: prim_defs)

lemma remove_file_other: "p \<noteq> q \<Longrightarrow> files (snd (remove_file e q w)) p = files w p"
  by (auto simp: prim_defs split: fault.splits option.splits)

lemma remove_file_cases:
  "files (snd (remove_file e q w)) = files w \<or> files (snd (remove_file e q w)) = (files w)(q := None)"
  by (auto simp: prim_defs split: fault.splits option.splits)

lemma fsync_ok:
  "fsync_segment_and_dir e p w = (True, w') \<Longrightarrow> files w' p \<noteq> None \<and> p \<in> durable w'"
  by (auto simp: prim_defs split: fault.splits if_splits)

lemma fsync_durable: "durable w \<subseteq> durable (snd (fsync_segment_and_dir e p w))"
  by (auto simp: prim_defs split: fault.splits)

end
