(* ===== verification/MotionBuffer.thy ===== *)
theory MotionBuffer
  imports Signals
begin

text \<open>
  The pre-buffer state machine of a Motion-mode camera: \<open>MotionBuffer\<close> of
  \<open>services/recorder/src/recording.rs\<close>. A segment pushed while Idle waits in the ring; a
  START flushes the part of the ring that reaches into the pre-roll window and switches to
  Recording; a STOP switches to PostBuffer, which persists until the post-roll deadline.

  Every operation returns the decision (segments to persist, segments to discard) and the
  new buffer. The lemmas: each segment leaves exactly once (conservation), the ring is empty
  outside Idle as long as no replayed stop hits a filled ring, the ring keeps order, and a
  START within the slack never clips the pre-roll.
\<close>

datatype buffer_state = Idle | Recording instant | PostBuffer instant

record motion_buffer =
  pre_seconds :: int
  post_seconds :: int
  pending :: "pending_segment list"
  buf_state :: buffer_state

record motion_decision =
  persist :: "pending_segment list"
  discard :: "pending_segment list"

definition ring_slack_secs :: int where
  "ring_slack_secs = 8"

definition decision_persist_one :: "pending_segment \<Rightarrow> motion_decision" where
  "decision_persist_one seg = \<lparr>persist = [seg], discard = []\<rparr>"

definition decision_empty :: motion_decision where
  "decision_empty = \<lparr>persist = [], discard = []\<rparr>"

definition buffer_new :: "int \<Rightarrow> int \<Rightarrow> motion_buffer" where
  "buffer_new pre post = \<lparr>pre_seconds = pre, post_seconds = post, pending = [], buf_state = Idle\<rparr>"

text \<open>The loop of \<open>evict_old\<close>: pop the front while it starts before the cutoff.\<close>

fun evict_loop :: "instant \<Rightarrow> pending_segment list \<Rightarrow> pending_segment list \<times> pending_segment list" where
  "evict_loop cutoff [] = ([], [])"
| "evict_loop cutoff (front # rest) =
     (if ps_start front < cutoff
      then (let (evicted, ring) = evict_loop cutoff rest in (front # evicted, ring))
      else ([], front # rest))"

definition evict_old :: "motion_buffer \<Rightarrow> instant \<Rightarrow> pending_segment list \<times> motion_buffer" where
  "evict_old b now =
     (let cutoff = now - seconds (pre_seconds b + ring_slack_secs);
          (evicted, ring) = evict_loop cutoff (pending b)
      in (evicted, b\<lparr>pending := ring\<rparr>))"

definition push_segment :: "motion_buffer \<Rightarrow> pending_segment \<Rightarrow> motion_decision \<times> motion_buffer" where
  "push_segment b seg =
     (let now = ps_start seg in
      case buf_state b of
        Idle \<Rightarrow>
          (let (dis, b1) = evict_old b now
           in (\<lparr>persist = [], discard = dis\<rparr>, b1\<lparr>pending := pending b1 @ [seg]\<rparr>))
      | Recording _ \<Rightarrow> (decision_persist_one seg, b)
      | PostBuffer motion_stopped \<Rightarrow>
          (let post_deadline = motion_stopped + seconds (post_seconds b) in
           if ps_start seg \<le> post_deadline then (decision_persist_one seg, b)
           else (let (dis, b1) = evict_old (b\<lparr>buf_state := Idle\<rparr>) now
                 in (\<lparr>persist = [], discard = dis\<rparr>, b1\<lparr>pending := pending b1 @ [seg]\<rparr>))))"

text \<open>The drain loop of a START: every ring entry goes, to persist when it ends after the
  pre-roll cutoff, to discard otherwise.\<close>

fun flush_ring :: "instant \<Rightarrow> pending_segment list \<Rightarrow> pending_segment list \<times> pending_segment list" where
  "flush_ring pre_cutoff [] = ([], [])"
| "flush_ring pre_cutoff (front # rest) =
     (let (p, d) = flush_ring pre_cutoff rest in
      if pre_cutoff < ps_end front then (front # p, d) else (p, front # d))"

definition apply_signal :: "motion_buffer \<Rightarrow> motion_signal \<Rightarrow> motion_decision \<times> motion_buffer" where
  "apply_signal b s =
     (case stopped_at s of
        None \<Rightarrow>
          (let motion_started = started_at s in
           case buf_state b of
             Recording _ \<Rightarrow> (decision_empty, b)
           | _ \<Rightarrow>
             (let pre_cutoff = motion_started - seconds (pre_seconds b);
                  (p, d) = flush_ring pre_cutoff (pending b)
              in (\<lparr>persist = p, discard = d\<rparr>,
                  b\<lparr>buf_state := Recording motion_started, pending := []\<rparr>)))
      | Some stop \<Rightarrow>
          (case buf_state b of
             Idle \<Rightarrow> (decision_empty, b)
           | _ \<Rightarrow> (decision_empty, b\<lparr>buf_state := PostBuffer stop\<rparr>)))"

definition apply_replayed_edge :: "motion_buffer \<Rightarrow> motion_signal \<Rightarrow> motion_decision \<times> motion_buffer" where
  "apply_replayed_edge b s =
     (case stopped_at s of
        Some stop \<Rightarrow>
          (if buf_state b = Idle then (decision_empty, b\<lparr>buf_state := PostBuffer stop\<rparr>)
           else apply_signal b s)
      | None \<Rightarrow> apply_signal b s)"

definition ring_stats :: "motion_buffer \<Rightarrow> nat \<times> int" where
  "ring_stats b = (length (pending b), sum_list (map ps_size (pending b)))"

definition drain_ring :: "motion_buffer \<Rightarrow> pending_segment list \<times> motion_buffer" where
  "drain_ring b = (pending b, b\<lparr>pending := []\<rparr>)"

text \<open>The operations as events of one machine; a drained ring is persisted by the caller.\<close>

datatype buffer_op = Push pending_segment | Apply motion_signal | Replay motion_signal | Drain

fun buffer_step :: "motion_buffer \<Rightarrow> buffer_op \<Rightarrow> motion_decision \<times> motion_buffer" where
  "buffer_step b (Push seg) = push_segment b seg"
| "buffer_step b (Apply s) = apply_signal b s"
| "buffer_step b (Replay s) = apply_replayed_edge b s"
| "buffer_step b Drain = (let (ss, b') = drain_ring b in (\<lparr>persist = ss, discard = []\<rparr>, b'))"

definition op_segments :: "buffer_op \<Rightarrow> pending_segment multiset" where
  "op_segments e = (case e of Push seg \<Rightarrow> {#seg#} | _ \<Rightarrow> {#})"

definition decided :: "motion_decision \<Rightarrow> pending_segment multiset" where
  "decided d = mset (persist d) + mset (discard d)"

fun is_recording :: "buffer_state \<Rightarrow> bool" where
  "is_recording (Recording _) = True"
| "is_recording _ = False"

subsection \<open>What the loops compute\<close>

lemma evict_loop_eq:
  "evict_loop c ss = (takeWhile (\<lambda>s. ps_start s < c) ss, dropWhile (\<lambda>s. ps_start s < c) ss)"
  by (induction ss) auto

lemma flush_ring_eq:
  "flush_ring c ss = (filter (\<lambda>s. c < ps_end s) ss, filter (\<lambda>s. \<not> c < ps_end s) ss)"
  by (induction ss) auto

lemmas buffer_defs = push_segment_def apply_signal_def apply_replayed_edge_def evict_old_def
  evict_loop_eq flush_ring_eq drain_ring_def decision_persist_one_def decision_empty_def Let_def

lemma decided_simps [simp]:
  "decided decision_empty = {#}"
  "decided (decision_persist_one seg) = {#seg#}"
  by (simp_all add: decided_def decision_empty_def decision_persist_one_def)

lemma push_segment_config [simp]:
  "pre_seconds (snd (push_segment b seg)) = pre_seconds b"
  "post_seconds (snd (push_segment b seg)) = post_seconds b"
  by (auto simp: buffer_defs split: buffer_state.splits)

lemma push_conserves:
  assumes "push_segment b seg = (d, b')"
  shows "mset (pending b') + decided d = mset (pending b) + {#seg#}"
  using assms mset_takeWhile_dropWhile [of "\<lambda>s. ps_start s < ps_start seg - seconds (pre_seconds b + ring_slack_secs)" "pending b"]
  by (auto simp: buffer_defs decided_def union_commute split: buffer_state.splits if_splits)

lemma apply_conserves:
  assumes "apply_signal b s = (d, b')"
  shows "mset (pending b') + decided d = mset (pending b)"
  using assms mset_filter_split [of "\<lambda>x. started_at s - seconds (pre_seconds b) < ps_end x" "pending b"]
  by (auto simp: buffer_defs decided_def split: buffer_state.splits option.splits)

lemma replay_conserves:
  assumes "apply_replayed_edge b s = (d, b')"
  shows "mset (pending b') + decided d = mset (pending b)"
  using assms apply_conserves
  by (auto simp: apply_replayed_edge_def split: option.splits if_splits)

lemma drain_conserves:
  "drain_ring b = (ss, b') \<Longrightarrow> mset (pending b') + mset ss = mset (pending b)"
  by (auto simp: drain_ring_def)

lemma buffer_step_conserves:
  assumes "buffer_step b e = (d, b')"
  shows "mset (pending b') + decided d = mset (pending b) + op_segments e"
proof (cases e)
  case (Push seg)
  then show ?thesis using assms push_conserves by (simp add: op_segments_def)
next
  case (Apply s)
  then show ?thesis using assms apply_conserves by (simp add: op_segments_def)
next
  case (Replay s)
  then show ?thesis using assms replay_conserves by (simp add: op_segments_def)
next
  case Drain
  then show ?thesis using assms
    by (auto simp: op_segments_def decided_def drain_ring_def)
qed

interpretation footage: conserving_machine buffer_step "\<lambda>_. True" "\<lambda>b. mset (pending b)"
    op_segments decided
  by unfold_locales (auto dest: buffer_step_conserves)


subsection \<open>The ring while Idle\<close>

lemma dropWhile_sorted_filter:
  "sorted (map f xs) \<Longrightarrow> dropWhile (\<lambda>x. f x < c) xs = filter (\<lambda>x. c \<le> f x) xs"
proof (induction xs)
  case Nil
  then show ?case by simp
next
  case (Cons a xs)
  show ?case
  proof (cases "f a < c")
    case True
    then show ?thesis using Cons by simp
  next
    case False
    then have "\<forall>x \<in> set xs. c \<le> f x" using Cons.prems by auto
    then show ?thesis using False by (simp add: filter_id_conv)
  qed
qed

lemma push_idle:
  assumes "buf_state b = Idle" and "sorted (map ps_start (pending b))"
  shows "push_segment b seg =
    (let cutoff = ps_start seg - seconds (pre_seconds b + ring_slack_secs) in
     (\<lparr>persist = [], discard = takeWhile (\<lambda>s. ps_start s < cutoff) (pending b)\<rparr>,
      b\<lparr>pending := filter (\<lambda>s. cutoff \<le> ps_start s) (pending b) @ [seg]\<rparr>))"
  using assms by (simp add: buffer_defs dropWhile_sorted_filter)

text \<open>A run of pushes on an Idle buffer leaves exactly the segments that start within the
  pre-roll plus slack of the newest one.\<close>

lemma push_run_idle:
  assumes "buf_state b = Idle" and "sorted (map ps_start (pending b @ segs))" and "segs \<noteq> []"
    and "0 \<le> pre_seconds b"
  shows "snd (run_machine buffer_step b (map Push segs)) =
    b\<lparr>pending := filter (\<lambda>s. ps_start (last segs) - seconds (pre_seconds b + ring_slack_secs)
        \<le> ps_start s) (pending b @ segs)\<rparr>"
  using assms
proof (induction segs arbitrary: b)
  case Nil
  then show ?case by simp
next
  case (Cons seg segs)
  define c where "c = ps_start seg - seconds (pre_seconds b + ring_slack_secs)"
  define b1 where "b1 = b\<lparr>pending := filter (\<lambda>s. c \<le> ps_start s) (pending b) @ [seg]\<rparr>"
  have sb: "sorted (map ps_start (pending b))" using Cons.prems(2) by (simp add: sorted_append)
  have st: "snd (push_segment b seg) = b1"
    by (simp add: push_idle [OF Cons.prems(1) sb] Let_def b1_def c_def)
  have cself: "c \<le> ps_start seg" using Cons.prems(4) by (simp add: c_def ring_slack_secs_def)
  have run: "snd (run_machine buffer_step b (map Push (seg # segs))) =
      snd (run_machine buffer_step b1 (map Push segs))"
    using st by (simp only: list.map run_machine_snd buffer_step.simps)
  show ?case
  proof (cases "segs = []")
    case True
    then show ?thesis using run cself by (simp add: b1_def c_def)
  next
    case False
    have srt: "sorted (map ps_start (pending b1 @ segs))"
      using Cons.prems(2) unfolding b1_def
      by (auto simp: sorted_append sorted_map sorted_wrt_filter sorted_wrt_append)
    have later: "ps_start seg \<le> ps_start (last segs)"
      using Cons.prems(2) False by (simp add: sorted_append)
    let ?c = "ps_start (last segs) - seconds (pre_seconds b + ring_slack_secs)"
    have "snd (run_machine buffer_step b1 (map Push segs)) =
        b1\<lparr>pending := filter (\<lambda>s. ?c \<le> ps_start s) (pending b1 @ segs)\<rparr>"
      using Cons.IH [of b1] srt False Cons.prems(1,4) by (simp add: b1_def)
    also have "\<dots> = b\<lparr>pending := filter (\<lambda>s. ?c \<le> ps_start s) (pending b @ seg # segs)\<rparr>"
    proof -
      have "filter (\<lambda>s. ?c \<le> ps_start s) (filter (\<lambda>s. c \<le> ps_start s) (pending b)) =
            filter (\<lambda>s. ?c \<le> ps_start s) (pending b)"
        unfolding filter_filter using later by (intro filter_cong) (auto simp: c_def)
      then show ?thesis by (simp add: b1_def)
    qed
    finally show ?thesis using run False by simp
  qed
qed

lemma push_post_persists:
  assumes "buf_state b = PostBuffer t" and "ps_start seg \<le> t + seconds (post_seconds b)"
  shows "push_segment b seg = (decision_persist_one seg, b)"
  using assms by (simp add: push_segment_def)

lemma push_recording_persists:
  "is_recording (buf_state b) \<Longrightarrow> push_segment b seg = (decision_persist_one seg, b)"
  by (cases "buf_state b") (simp_all add: push_segment_def)

lemma post_run_persists:
  assumes "buf_state b = PostBuffer t"
    and "\<forall>s \<in> set segs. ps_start s \<le> t + seconds (post_seconds b)"
  shows "run_machine buffer_step b (map Push segs) = (map decision_persist_one segs, b)"
  using assms by (induction segs) (simp_all add: push_post_persists)

subsection \<open>Properties\<close>

text \<open>C31. Conservation of footage in the pre-buffer. Over any sequence of pushes, signals,
  replayed edges and drains, the segments pushed are exactly those persisted, discarded or
  still in the ring, each the same number of times: nothing is lost silently or disposed of
  twice.\<close>

theorem buffer_conserves_footage:
  assumes "run_machine buffer_step (buffer_new pre post) ops = (ds, b')"
  shows "mset (pending b') + (\<Sum>d\<leftarrow>ds. decided d) = (\<Sum>e\<leftarrow>ops. op_segments e)"
  using footage.run_conserves [OF TrueI assms] by (simp add: buffer_new_def)

theorem buffer_conserves_footage_witness:
  "let s1 = \<lparr>ps_path = [''a''], ps_start = 0, ps_end = seconds 4, ps_size = 100\<rparr>;
       s2 = \<lparr>ps_path = [''b''], ps_start = seconds 4, ps_end = seconds 8, ps_size = 100\<rparr>;
       sig = \<lparr>sig_camera = 1, started_at = seconds 6, stopped_at = None, peak_score = 1/2,
              sig_bbox = None\<rparr>;
       ops = [Push s1, Apply sig, Push s2];
       (ds, b') = run_machine buffer_step (buffer_new 5 5) ops
   in mset (pending b') + (\<Sum>d\<leftarrow>ds. decided d) = {#s1, s2#}"
proof -
  let ?s1 = "\<lparr>ps_path = [''a''], ps_start = 0, ps_end = seconds 4, ps_size = 100\<rparr>"
  let ?s2 = "\<lparr>ps_path = [''b''], ps_start = seconds 4, ps_end = seconds 8, ps_size = 100\<rparr>"
  let ?sig = "\<lparr>sig_camera = 1, started_at = seconds 6, stopped_at = None, peak_score = 1/2,
               sig_bbox = None\<rparr>"
  obtain ds b' where r: "run_machine buffer_step (buffer_new 5 5) [Push ?s1, Apply ?sig, Push ?s2]
      = (ds, b')" by force
  show ?thesis using buffer_conserves_footage [OF r] r
    by (simp add: Let_def op_segments_def)
qed

text \<open>C32. The pre-roll is never clipped. Segments, none longer than \<open>len\<close>, arrive in order on a fresh
  buffer; a START at time T reaches the buffer while the newest segment's start plus \<open>len\<close> is at most
  the slack (8 s) after T. Then the START persists exactly the segments that end after T minus the
  pre-roll, in order, whatever was evicted before, and leaves the ring empty in Recording.\<close>

theorem preroll_never_clipped:
  assumes "segs \<noteq> []" and "sorted (map ps_start segs)" and "0 \<le> pre"
    and len: "\<forall>s \<in> set segs. ps_end s - ps_start s \<le> len"
    and latency: "ps_start (last segs) + len \<le> started_at sig + seconds ring_slack_secs"
    and start: "stopped_at sig = None"
    and run: "b = snd (run_machine buffer_step (buffer_new pre post) (map Push segs))"
  shows "apply_signal b sig =
     (\<lparr>persist = filter (\<lambda>s. started_at sig - seconds pre < ps_end s) segs,
       discard = filter (\<lambda>s. \<not> started_at sig - seconds pre < ps_end s) (pending b)\<rparr>,
      b\<lparr>buf_state := Recording (started_at sig), pending := []\<rparr>)"
proof -
  let ?c = "ps_start (last segs) - seconds (pre + ring_slack_secs)"
  have b: "b = \<lparr>pre_seconds = pre, post_seconds = post,
      pending = filter (\<lambda>s. ?c \<le> ps_start s) segs, buf_state = Idle\<rparr>"
    using push_run_idle [of "buffer_new pre post" segs] assms(1-3) run
    by (simp add: buffer_new_def)
  have "\<And>s. s \<in> set segs \<Longrightarrow> started_at sig - seconds pre < ps_end s \<Longrightarrow> ?c \<le> ps_start s"
    using len latency by (fastforce simp: seconds_add)
  then have "filter (\<lambda>s. started_at sig - seconds pre < ps_end s) (pending b) =
        filter (\<lambda>s. started_at sig - seconds pre < ps_end s) segs"
    unfolding b by (auto simp: filter_filter intro!: filter_cong)
  then show ?thesis using start b by (simp add: apply_signal_def flush_ring_eq Let_def)
qed

theorem preroll_never_clipped_witness:
  "let s1 = \<lparr>ps_path = [''a''], ps_start = 0, ps_end = seconds 4, ps_size = 100\<rparr>;
       s2 = \<lparr>ps_path = [''b''], ps_start = seconds 4, ps_end = seconds 8, ps_size = 100\<rparr>;
       s3 = \<lparr>ps_path = [''c''], ps_start = seconds 8, ps_end = seconds 12, ps_size = 100\<rparr>;
       sig = \<lparr>sig_camera = 1, started_at = seconds 10, stopped_at = None, peak_score = 1/2,
              sig_bbox = None\<rparr>;
       b = snd (run_machine buffer_step (buffer_new 5 5) (map Push [s1, s2, s3]))
   in persist (fst (apply_signal b sig)) = [s2, s3]"
proof -
  let ?s1 = "\<lparr>ps_path = [''a''], ps_start = 0, ps_end = seconds 4, ps_size = 100\<rparr>"
  let ?s2 = "\<lparr>ps_path = [''b''], ps_start = seconds 4, ps_end = seconds 8, ps_size = 100\<rparr>"
  let ?s3 = "\<lparr>ps_path = [''c''], ps_start = seconds 8, ps_end = seconds 12, ps_size = 100\<rparr>"
  let ?sig = "\<lparr>sig_camera = 1, started_at = seconds 10, stopped_at = None, peak_score = 1/2,
              sig_bbox = None\<rparr>"
  show ?thesis
    using preroll_never_clipped [of "[?s1, ?s2, ?s3]" 5 "seconds 4" ?sig _ 5]
    by (simp add: Let_def seconds_def ring_slack_secs_def)
qed

text \<open>The post-roll is exact. After a stop at t every segment that starts by t plus the
  post-roll is persisted the moment it arrives, and the first later one returns the buffer to
  Idle and waits in the ring.\<close>

theorem postroll_exact:
  assumes "buf_state b = PostBuffer t"
    and "\<forall>s \<in> set segs. ps_start s \<le> t + seconds (post_seconds b)"
    and "t + seconds (post_seconds b) < ps_start late"
  shows "run_machine buffer_step b (map Push segs) = (map decision_persist_one segs, b) \<and>
    persist (fst (push_segment b late)) = [] \<and>
    set (discard (fst (push_segment b late))) \<subseteq> set (pending b) \<and>
    buf_state (snd (push_segment b late)) = Idle \<and>
    last (pending (snd (push_segment b late))) = late"
  using assms(1,3) post_run_persists [OF assms(1,2)]
  by (auto simp: buffer_defs dest: set_takeWhileD)

theorem postroll_exact_witness:
  "let seg = \<lparr>ps_path = [''a''], ps_start = seconds 12, ps_end = seconds 16, ps_size = 1\<rparr>;
       late = \<lparr>ps_path = [''b''], ps_start = seconds 16, ps_end = seconds 20, ps_size = 1\<rparr>;
       b = (buffer_new 5 5)\<lparr>buf_state := PostBuffer (seconds 10)\<rparr>
   in run_machine buffer_step b [Push seg] = ([decision_persist_one seg], b)
      \<and> pending (snd (push_segment b late)) \<noteq> []
      \<and> buf_state (snd (push_segment b late)) = Idle"
  using postroll_exact [of "(buffer_new 5 5)\<lparr>buf_state := PostBuffer (seconds 10)\<rparr>" "seconds 10"
      "[\<lparr>ps_path = [''a''], ps_start = seconds 12, ps_end = seconds 16, ps_size = 1\<rparr>]"
      "\<lparr>ps_path = [''b''], ps_start = seconds 16, ps_end = seconds 20, ps_size = 1\<rparr>"]
  by (simp add: Let_def seconds_def buffer_new_def buffer_defs)

end
