(* ===== verification/MotionUnion.thy ===== *)
theory MotionUnion
  imports MotionBuffer
begin

text \<open>
  The union of additive motion sources and the drain that feeds it
  (\<open>MotionUnion\<close> and \<open>drain_and_persist_motion\<close> of
  \<open>services/recorder/src/recording.rs\<close>). The union turns the START/STOP edges of all
  sources into one stream: a rising edge when the first source opens, a falling edge when the
  last one closes. While the buffer is frozen (detector unhealthy with an active cache) the
  newest edge is stashed and replayed at the thaw.

  \<open>open_events\<close> is the abstract view: the START keys whose STOP has not arrived. The lemmas
  show that \<open>u_open\<close> is exactly that set whatever mixture of healthy and frozen drains
  happened, and that buffer and union agree on whether an event is running.
\<close>

record motion_union =
  u_open :: "instant set"
  union_started_at :: "instant option"
  pending_replay :: "motion_signal option"

definition union_new :: motion_union where
  "union_new = \<lparr>u_open = {}, union_started_at = None, pending_replay = None\<rparr>"

definition union_edge :: "motion_signal \<Rightarrow> instant \<Rightarrow> instant option \<Rightarrow> motion_signal" where
  "union_edge sig start stop =
     \<lparr>sig_camera = sig_camera sig, started_at = start, stopped_at = stop,
      peak_score = peak_score sig, sig_bbox = None\<rparr>"

definition union_fold :: "motion_union \<Rightarrow> motion_signal \<Rightarrow> motion_signal option \<times> motion_union" where
  "union_fold u sig =
     (case stopped_at sig of
        None \<Rightarrow>
          (let was_empty = (u_open u = {});
               u1 = u\<lparr>u_open := insert (started_at sig) (u_open u)\<rparr>
           in if was_empty
              then (Some (union_edge sig (started_at sig) None),
                    u1\<lparr>union_started_at := Some (started_at sig)\<rparr>)
              else (None, u1))
      | Some stop \<Rightarrow>
          (let removed = (started_at sig \<in> u_open u);
               u1 = u\<lparr>u_open := u_open u - {started_at sig}\<rparr>
           in if removed \<and> u_open u1 = {}
              then (let start = (case union_started_at u1 of None \<Rightarrow> started_at sig | Some s \<Rightarrow> s)
                    in (Some (union_edge sig start (Some stop)), u1\<lparr>union_started_at := None\<rparr>))
              else (None, u1)))"

definition stash_replay :: "motion_union \<Rightarrow> motion_signal \<Rightarrow> motion_union" where
  "stash_replay u edge = u\<lparr>pending_replay := Some edge\<rparr>"

definition take_pending_replay :: "motion_union \<Rightarrow> motion_signal option \<times> motion_union" where
  "take_pending_replay u = (pending_replay u, u\<lparr>pending_replay := None\<rparr>)"

definition extend_decision :: "motion_decision \<Rightarrow> motion_decision \<Rightarrow> motion_decision" where
  "extend_decision acc d = \<lparr>persist = persist acc @ persist d, discard = discard acc @ discard d\<rparr>"

definition drain_motion_channel :: "motion_signal list \<Rightarrow> motion_signal list \<Rightarrow> motion_signal list" where
  "drain_motion_channel rx out = out @ rx"

text \<open>One newly drained signal while the buffer is driven.\<close>

definition drive_signal ::
  "motion_buffer \<times> motion_union \<times> motion_decision \<Rightarrow> motion_signal \<Rightarrow>
   motion_buffer \<times> motion_union \<times> motion_decision" where
  "drive_signal st sig =
     (let (buf, u, acc) = st; (edge, u1) = union_fold u sig in
      case edge of
        Some union_sig \<Rightarrow>
          (let (d, buf1) = apply_signal buf union_sig in (buf1, u1, extend_decision acc d))
      | None \<Rightarrow>
          (if stopped_at sig \<noteq> None \<and> u_open u1 = {} \<and> buf_state buf = Idle
           then (let (d, buf1) = apply_replayed_edge buf sig in (buf1, u1, extend_decision acc d))
           else (buf, u1, acc)))"

text \<open>One newly drained signal while the buffer is frozen or absent.\<close>

definition frozen_signal :: "motion_union \<Rightarrow> motion_signal \<Rightarrow> motion_union" where
  "frozen_signal u sig =
     (let (edge, u1) = union_fold u sig in
      case edge of
        Some union_sig \<Rightarrow> stash_replay u1 union_sig
      | None \<Rightarrow> (if stopped_at sig \<noteq> None \<and> u_open u1 = {} then stash_replay u1 sig else u1))"

definition replay_pending ::
  "motion_buffer \<times> motion_union \<times> motion_decision \<Rightarrow>
   motion_buffer \<times> motion_union \<times> motion_decision" where
  "replay_pending st =
     (let (buf, u, acc) = st; (r, u1) = take_pending_replay u in
      case r of
        None \<Rightarrow> (buf, u1, acc)
      | Some replay \<Rightarrow>
          (let (d, buf1) = apply_replayed_edge buf replay in (buf1, u1, extend_decision acc d)))"

definition drain_and_persist_motion ::
  "motion_signal list \<Rightarrow> motion_signal list \<Rightarrow> bool \<Rightarrow> motion_buffer \<Rightarrow> motion_union \<Rightarrow>
   motion_decision \<Rightarrow> motion_signal list \<times> motion_buffer \<times> motion_union \<times> motion_decision" where
  "drain_and_persist_motion rx out driven buf u acc =
     (let out' = drain_motion_channel rx out in
      if driven then (out', foldl drive_signal (replay_pending (buf, u, acc)) rx)
      else (out', buf, foldl frozen_signal u rx, acc))"

subsection \<open>Abstract view\<close>

fun open_after :: "instant set \<Rightarrow> motion_signal \<Rightarrow> instant set" where
  "open_after S sig =
     (case stopped_at sig of None \<Rightarrow> insert (started_at sig) S | Some _ \<Rightarrow> S - {started_at sig})"

definition open_events :: "motion_signal list \<Rightarrow> instant set" where
  "open_events sigs = foldl open_after {} sigs"

text \<open>Buffer and union agree: with nothing stashed the buffer is in Recording exactly while an
  event is open; with a stashed edge that edge is a START exactly while an event is open.\<close>

definition union_agrees :: "motion_union \<Rightarrow> buffer_state \<Rightarrow> bool" where
  "union_agrees u st =
     (case pending_replay u of
        None \<Rightarrow> is_recording st \<longleftrightarrow> u_open u \<noteq> {}
      | Some e \<Rightarrow> stopped_at e = None \<longleftrightarrow> u_open u \<noteq> {})"

definition union_wf :: "motion_union \<Rightarrow> bool" where
  "union_wf u \<longleftrightarrow> (u_open u = {} \<longleftrightarrow> union_started_at u = None)"

lemmas union_defs = union_fold_def stash_replay_def take_pending_replay_def union_edge_def Let_def

lemma union_fold_open [simp]: "u_open (snd (union_fold u sig)) = open_after (u_open u) sig"
  by (auto simp: union_defs split: option.splits)

lemma union_fold_replay [simp]: "pending_replay (snd (union_fold u sig)) = pending_replay u"
  by (auto simp: union_defs split: option.splits)

lemma union_fold_wf: "union_wf u \<Longrightarrow> union_wf (snd (union_fold u sig))"
  by (auto simp: union_wf_def union_defs split: option.splits)

lemma union_fold_edge_start:
  "fst (union_fold u sig) = Some e \<Longrightarrow> stopped_at e = None \<longleftrightarrow> stopped_at sig = None"
  by (auto simp: union_defs split: option.splits if_splits)

lemma union_fold_edge_open:
  "fst (union_fold u sig) = Some e \<Longrightarrow> stopped_at e = None \<longleftrightarrow> open_after (u_open u) sig \<noteq> {}"
  by (auto simp: union_defs split: option.splits if_splits)

lemma union_fold_no_edge_open:
  "fst (union_fold u sig) = None \<Longrightarrow> open_after (u_open u) sig = {} \<longleftrightarrow> u_open u = {}"
  by (auto simp: union_defs split: option.splits if_splits)

text \<open>Rising and falling edges alternate: an edge changes whether an event is open.\<close>

lemma union_fold_edge_toggles:
  "fst (union_fold u sig) = Some e \<Longrightarrow> (u_open u = {}) \<noteq> (open_after (u_open u) sig = {})"
  by (auto simp: union_defs split: option.splits if_splits)

declare open_after.simps [simp del]

lemma apply_signal_recording:
  "is_recording (buf_state (snd (apply_signal buf e))) \<longleftrightarrow> stopped_at e = None"
  by (auto simp: buffer_defs split: option.splits buffer_state.splits)

lemma replayed_recording:
  "is_recording (buf_state (snd (apply_replayed_edge buf e))) \<longleftrightarrow> stopped_at e = None"
  by (auto simp: buffer_defs split: option.splits buffer_state.splits)

lemma apply_signal_keeps_config [simp]:
  "pre_seconds (snd (apply_signal b s)) = pre_seconds b"
  "post_seconds (snd (apply_signal b s)) = post_seconds b"
  by (auto simp: buffer_defs split: option.splits buffer_state.splits)

subsection \<open>One drained signal\<close>

lemma drive_signal_edge:
  "union_fold u sig = (Some e, u1) \<Longrightarrow> apply_signal buf e = (d, buf1) \<Longrightarrow>
   drive_signal (buf, u, acc) sig = (buf1, u1, extend_decision acc d)"
  by (simp add: drive_signal_def)

lemma drive_signal_no_edge:
  "union_fold u sig = (None, u1) \<Longrightarrow> apply_replayed_edge buf sig = (d, buf1) \<Longrightarrow>
   drive_signal (buf, u, acc) sig =
     (if stopped_at sig \<noteq> None \<and> u_open u1 = {} \<and> buf_state buf = Idle
      then (buf1, u1, extend_decision acc d) else (buf, u1, acc))"
  by (auto simp: drive_signal_def)

lemma drive_signal_union: "fst (snd (drive_signal (buf, u, acc) sig)) = snd (union_fold u sig)"
  by (simp add: drive_signal_def split: prod.split option.split)

lemma drive_signal_open:
  "drive_signal (buf, u, acc) sig = (buf', u', acc') \<Longrightarrow> u_open u' = open_after (u_open u) sig"
  using drive_signal_union [of buf u acc sig] by simp

lemma drive_signal_agrees:
  assumes "drive_signal (buf, u, acc) sig = (buf', u', acc')"
    and "pending_replay u = None" and "union_agrees u (buf_state buf)"
  shows "pending_replay u' = None \<and> union_agrees u' (buf_state buf')"
proof -
  obtain edge u1 where f: "union_fold u sig = (edge, u1)" by force
  have o1: "u_open u1 = open_after (u_open u) sig" and r1: "pending_replay u1 = None"
    using union_fold_open [of u sig] union_fold_replay [of u sig] f assms(2) by simp_all
  show ?thesis
  proof (cases edge)
    case (Some e)
    obtain d b1 where "apply_signal buf e = (d, b1)" by force
    then have "u' = u1" "buf' = snd (apply_signal buf e)"
      using assms(1) drive_signal_edge [of u sig e u1 buf d b1 acc] f Some by simp_all
    then show ?thesis
      using apply_signal_recording [of buf e] union_fold_edge_open [of u sig e] f Some o1 r1
      by (simp add: union_agrees_def)
  next
    case None
    have same: "u_open u1 = {} \<longleftrightarrow> u_open u = {}"
      using union_fold_no_edge_open [of u sig] f None o1 by simp
    obtain d b1 where ar: "apply_replayed_edge buf sig = (d, b1)" by force
    note d = drive_signal_no_edge [OF f [unfolded None] ar, of acc]
    have "u' = u1" using assms(1) d by (simp split: if_splits)
    moreover have "is_recording (buf_state buf') \<longleftrightarrow> is_recording (buf_state buf)"
      using assms(1) d replayed_recording [of buf sig] ar by (auto split: if_splits)
    ultimately show ?thesis using assms(2,3) r1 same by (simp add: union_agrees_def)
  qed
qed

lemma drive_signal_conserves:
  "drive_signal (buf, u, acc) sig = (buf', u', acc') \<Longrightarrow>
   mset (pending buf') + decided acc' = mset (pending buf) + decided acc"
proof -
  assume a: "drive_signal (buf, u, acc) sig = (buf', u', acc')"
  have ext: "\<And>d. decided (extend_decision acc d) = decided acc + decided d"
    by (simp add: decided_def extend_decision_def)
  obtain edge u1 where f: "union_fold u sig = (edge, u1)" by force
  show ?thesis
  proof (cases edge)
    case (Some e)
    obtain d b1 where r: "apply_signal buf e = (d, b1)" by force
    have "buf' = b1" "acc' = extend_decision acc d"
      using a drive_signal_edge [OF f [unfolded Some] r, of acc] by simp_all
    then show ?thesis using apply_conserves [OF r] by (simp add: ext ac_simps)
  next
    case None
    obtain d b1 where r: "apply_replayed_edge buf sig = (d, b1)" by force
    show ?thesis
    proof (cases "stopped_at sig \<noteq> None \<and> u_open u1 = {} \<and> buf_state buf = Idle")
      case True
      then have "buf' = b1" "acc' = extend_decision acc d"
        using a drive_signal_no_edge [OF f [unfolded None] r, of acc] by simp_all
      then show ?thesis using replay_conserves [OF r] by (simp add: ext ac_simps)
    next
      case False
      then have "drive_signal (buf, u, acc) sig = (buf, u1, acc)"
        using drive_signal_no_edge [OF f [unfolded None] r, of acc] by (simp only: if_False)
      then show ?thesis using a by simp
    qed
  qed
qed

lemma frozen_signal_open: "u_open (frozen_signal u sig) = open_after (u_open u) sig"
proof -
  obtain edge u1 where f: "union_fold u sig = (edge, u1)" by force
  then have "u_open (frozen_signal u sig) = u_open u1"
    by (cases edge) (auto simp: frozen_signal_def stash_replay_def)
  then show ?thesis using f union_fold_open [of u sig] by simp
qed

lemma frozen_signal_agrees:
  assumes "union_agrees u st"
  shows "union_agrees (frozen_signal u sig) st"
proof -
  obtain edge u1 where f: "union_fold u sig = (edge, u1)" by force
  have o1: "u_open u1 = open_after (u_open u) sig" and r1: "pending_replay u1 = pending_replay u"
    using union_fold_open [of u sig] union_fold_replay [of u sig] f by simp_all
  show ?thesis
  proof (cases edge)
    case (Some e)
    then show ?thesis using f o1 union_fold_edge_open [of u sig e]
      by (simp add: frozen_signal_def stash_replay_def union_agrees_def)
  next
    case None
    then have "u_open u1 = {} \<longleftrightarrow> u_open u = {}"
      using union_fold_no_edge_open [of u sig] f o1 by simp
    then show ?thesis using f None assms r1
      by (auto simp: frozen_signal_def stash_replay_def union_agrees_def split: option.splits)
  qed
qed

lemma replay_pending_agrees:
  assumes "replay_pending (buf, u, acc) = (buf', u', acc')" and "union_agrees u (buf_state buf)"
  shows "pending_replay u' = None \<and> u_open u' = u_open u \<and> union_agrees u' (buf_state buf')"
proof (cases "pending_replay u")
  case None
  then show ?thesis using assms
    by (auto simp: replay_pending_def take_pending_replay_def union_agrees_def)
next
  case (Some e)
  then have "buf' = snd (apply_replayed_edge buf e)" "u' = u\<lparr>pending_replay := None\<rparr>"
    using assms(1) by (auto simp: replay_pending_def take_pending_replay_def split: prod.splits)
  then show ?thesis using assms(2) Some replayed_recording [of buf e]
    by (simp add: union_agrees_def)
qed

lemma replay_pending_conserves:
  assumes "replay_pending (buf, u, acc) = (buf', u', acc')"
  shows "mset (pending buf') + decided acc' = mset (pending buf) + decided acc"
proof (cases "pending_replay u")
  case None
  then show ?thesis using assms by (simp add: replay_pending_def take_pending_replay_def)
next
  case (Some e)
  obtain d b1 where r: "apply_replayed_edge buf e = (d, b1)" by force
  then show ?thesis using assms Some replay_conserves [OF r]
    by (auto simp: replay_pending_def take_pending_replay_def decided_def extend_decision_def)
qed

subsection \<open>A whole drain\<close>

lemma foldl_drive_signal_all:
  "foldl drive_signal (buf, u, acc) rx = (buf', u', acc') \<Longrightarrow>
   u_open u' = foldl open_after (u_open u) rx \<and>
   mset (pending buf') + decided acc' = mset (pending buf) + decided acc \<and>
   (pending_replay u = None \<longrightarrow> union_agrees u (buf_state buf) \<longrightarrow>
      pending_replay u' = None \<and> union_agrees u' (buf_state buf'))"
proof (induction rx arbitrary: buf u acc)
  case Nil
  then show ?case by simp
next
  case (Cons sig rx)
  obtain b1 u1 a1 where d: "drive_signal (buf, u, acc) sig = (b1, u1, a1)"
    by (metis prod_cases3)
  have "foldl drive_signal (b1, u1, a1) rx = (buf', u', acc')" using Cons.prems by (simp add: d)
  from Cons.IH [OF this] show ?case
    using drive_signal_open [OF d] drive_signal_conserves [OF d] drive_signal_agrees [OF d]
    by auto
qed

lemma foldl_drive_signal:
  assumes "foldl drive_signal (buf, u, acc) rx = (buf', u', acc')"
  shows "u_open u' = foldl open_after (u_open u) rx"
    and "mset (pending buf') + decided acc' = mset (pending buf) + decided acc"
    and "pending_replay u = None \<Longrightarrow> union_agrees u (buf_state buf) \<Longrightarrow>
         pending_replay u' = None \<and> union_agrees u' (buf_state buf')"
  using foldl_drive_signal_all [OF assms] by auto

lemma foldl_frozen_signal:
  "u_open (foldl frozen_signal u rx) = foldl open_after (u_open u) rx"
  "union_agrees u st \<Longrightarrow> union_agrees (foldl frozen_signal u rx) st"
  by (induction rx arbitrary: u) (simp_all add: frozen_signal_open frozen_signal_agrees)

lemma drain_open:
  assumes "drain_and_persist_motion rx out driven buf u acc = (out', buf', u', acc')"
  shows "u_open u' = foldl open_after (u_open u) rx"
proof (cases driven)
  case True
  obtain b1 u1 a1 where r: "replay_pending (buf, u, acc) = (b1, u1, a1)" by (metis prod_cases3)
  have "u_open u1 = u_open u"
    using r by (auto simp: replay_pending_def take_pending_replay_def split: option.splits prod.splits)
  moreover have "foldl drive_signal (b1, u1, a1) rx = (buf', u', acc')"
    using assms True by (simp add: drain_and_persist_motion_def Let_def r)
  ultimately show ?thesis using foldl_drive_signal(1) by metis
next
  case False
  then show ?thesis using assms
    by (auto simp: drain_and_persist_motion_def Let_def foldl_frozen_signal)
qed

lemma drain_agrees:
  assumes "drain_and_persist_motion rx out driven buf u acc = (out', buf', u', acc')"
    and "union_agrees u (buf_state buf)"
  shows "union_agrees u' (buf_state buf')"
proof (cases driven)
  case True
  obtain b1 u1 a1 where r: "replay_pending (buf, u, acc) = (b1, u1, a1)" by (metis prod_cases3)
  then show ?thesis using assms True replay_pending_agrees [OF r assms(2)] foldl_drive_signal(3)
    by (auto simp: drain_and_persist_motion_def Let_def)
next
  case False
  then show ?thesis using assms
    by (auto simp: drain_and_persist_motion_def Let_def foldl_frozen_signal)
qed

lemma drain_driven_clears:
  assumes "drain_and_persist_motion rx out True buf u acc = (out', buf', u', acc')"
    and "union_agrees u (buf_state buf)"
  shows "pending_replay u' = None"
proof -
  obtain b1 u1 a1 where r: "replay_pending (buf, u, acc) = (b1, u1, a1)" by (metis prod_cases3)
  then show ?thesis using assms replay_pending_agrees [OF r assms(2)] foldl_drive_signal(3)
    by (auto simp: drain_and_persist_motion_def Let_def)
qed

lemma drain_frozen_buffer:
  "drain_and_persist_motion rx out False buf u acc = (out', buf', u', acc') \<Longrightarrow>
   buf' = buf \<and> acc' = acc"
  by (auto simp: drain_and_persist_motion_def Let_def)

lemma drain_conserves_ring:
  assumes "drain_and_persist_motion rx out driven buf u acc = (out', buf', u', acc')"
  shows "mset (pending buf') + decided acc' = mset (pending buf) + decided acc"
proof (cases driven)
  case True
  obtain b1 u1 a1 where r: "replay_pending (buf, u, acc) = (b1, u1, a1)" by (metis prod_cases3)
  then show ?thesis using assms True replay_pending_conserves [OF r] foldl_drive_signal(2)
    by (auto simp: drain_and_persist_motion_def Let_def)
next
  case False
  then show ?thesis using assms by (auto simp: drain_and_persist_motion_def Let_def)
qed

lemma drain_out:
  "drain_and_persist_motion rx out driven buf u acc = (out', buf', u', acc') \<Longrightarrow> out' = out @ rx"
  by (auto simp: drain_and_persist_motion_def drain_motion_channel_def Let_def split: if_splits)

end
