(* ===== verification/F64.thy ===== *)
theory F64
  imports Prelude "HOL-Library.Signed_Division"
begin

text \<open>
  The machine arithmetic of the space checks. An \<open>f64\<close> is the rational it denotes;
  \<open>round_f64\<close> rounds an exact rational to the nearest double, ties to even, with the
  exponent clamped at the subnormal range. Values beyond the largest double do not occur: every operand
  here is an \<open>i64\<close> or a fraction below 1. An \<open>i64\<close> is an integer; \<open>sat_i64\<close> saturates and
  \<open>as_i64\<close> is Rust's \<open>as i64\<close> (truncate towards zero, then saturate).
\<close>

type_synonym f64 = rat
type_synonym i64 = int

definition i64_max :: int where
  "i64_max = 9223372036854775807"

definition i64_min :: int where
  "i64_min = - 9223372036854775808"

definition sat_i64 :: "int \<Rightarrow> i64" where
  "sat_i64 x = (if i64_max < x then i64_max else if x < i64_min then i64_min else x)"

text \<open>Number of binary digits of a positive integer.\<close>

function bit_count :: "int \<Rightarrow> int" where
  "bit_count n = (if n \<le> 0 then 0 else 1 + bit_count (n div 2))"
  by pat_completeness auto
termination by (relation "measure nat") auto

declare bit_count.simps [simp del]

definition pow2 :: "int \<Rightarrow> rat" where
  "pow2 e = (if 0 \<le> e then 2 ^ nat e else 1 / 2 ^ nat (- e))"

definition round_half_even :: "rat \<Rightarrow> int" where
  "round_half_even x =
     (let f = \<lfloor>x\<rfloor>; d = x - of_int f in
      if d < 1 / 2 then f else if 1 / 2 < d then f + 1 else if even f then f else f + 1)"

text \<open>The exponent of a positive rational: the largest \<open>e\<close> with \<open>2 ^ e \<le> x\<close>.\<close>

definition exponent_of :: "rat \<Rightarrow> int" where
  "exponent_of x =
     (let (a, b) = quotient_of x;
          e = bit_count a - bit_count b
      in if pow2 e \<le> x then e else e - 1)"

definition round_f64 :: "rat \<Rightarrow> f64" where
  "round_f64 x =
     (if x = 0 then 0
      else let u = max (exponent_of \<bar>x\<bar> - 52) (- 1074)
           in of_int (round_half_even (x / pow2 u)) * pow2 u)"

definition trunc_rat :: "rat \<Rightarrow> int" where
  "trunc_rat x = (if 0 \<le> x then \<lfloor>x\<rfloor> else \<lceil>x\<rceil>)"

definition as_i64 :: "f64 \<Rightarrow> i64" where
  "as_i64 x = sat_i64 (trunc_rat x)"

definition f64_mul :: "f64 \<Rightarrow> f64 \<Rightarrow> f64" where
  "f64_mul a b = round_f64 (a * b)"

definition f64_of_int :: "int \<Rightarrow> f64" where
  "f64_of_int n = round_f64 (of_int n)"

lemma pow2_pos [simp]: "0 < pow2 e"
  by (simp add: pow2_def)

lemma round_half_even_of_int [simp]: "round_half_even (of_int n) = n"
  by (simp add: round_half_even_def Let_def)

lemma round_half_even_error: "\<bar>of_int (round_half_even x) - x\<bar> \<le> 1 / 2"
proof -
  have "of_int \<lfloor>x\<rfloor> \<le> x" "x < of_int \<lfloor>x\<rfloor> + 1" by linarith+
  then show ?thesis by (auto simp: round_half_even_def Let_def abs_le_iff)
qed

lemma round_half_even_nonneg: "0 \<le> x \<Longrightarrow> 0 \<le> round_half_even x"
proof -
  assume "0 \<le> x"
  then have "0 \<le> \<lfloor>x\<rfloor>" by simp
  then show ?thesis by (auto simp: round_half_even_def Let_def)
qed

lemma round_f64_nonneg: "0 \<le> x \<Longrightarrow> 0 \<le> round_f64 x"
  by (auto simp: round_f64_def Let_def less_imp_le intro!: mult_nonneg_nonneg round_half_even_nonneg divide_nonneg_nonneg)

lemma f64_mul_nonneg: "0 \<le> a \<Longrightarrow> 0 \<le> b \<Longrightarrow> 0 \<le> f64_mul a b"
  by (simp add: f64_mul_def round_f64_nonneg)

lemma f64_of_int_nonneg: "0 \<le> n \<Longrightarrow> 0 \<le> f64_of_int n"
  by (simp add: f64_of_int_def round_f64_nonneg)

lemma round_f64_zero [simp]: "round_f64 0 = 0"
  by (simp add: round_f64_def)

lemma sat_i64_bounds: "i64_min \<le> sat_i64 x \<and> sat_i64 x \<le> i64_max"
  by (simp add: sat_i64_def i64_min_def i64_max_def)

lemma sat_i64_id: "i64_min \<le> x \<Longrightarrow> x \<le> i64_max \<Longrightarrow> sat_i64 x = x"
  by (simp add: sat_i64_def)

lemma sat_i64_ge: "x \<le> i64_max \<Longrightarrow> x \<le> sat_i64 x"
  by (simp add: sat_i64_def)

lemma as_i64_nonneg: "0 \<le> x \<Longrightarrow> 0 \<le> as_i64 x"
  by (simp add: as_i64_def trunc_rat_def sat_i64_def i64_min_def i64_max_def)

end
