(* ===== verification/SegmentDecision.thy ===== *)
theory SegmentDecision
  imports MotionUnion F64
begin

text \<open>
  What happens to a completed segment (\<open>services/recorder/src/recording.rs\<close>): the persist or
  discard verdict (\<open>decide_persist_for_segment\<close>), the cache-pressure spill, and the decision
  steps 1 to 3 and the pruning of \<open>finish_completed_segment\<close> as one step \<open>finish_decide\<close> of a
  machine whose state survives reconnects. \<open>flip_guard\<close> is the settling of carried ring
  entries at the start of an ffmpeg run.

  \<open>statvfs\<close> readings are inputs of a step. The file operations that execute a decision are in
  the theory of the cache store.
\<close>

datatype recording_mode = Continuous | Motion

record segment_decision =
  sd_actual :: motion_decision
  sd_shadow :: "motion_decision option"

definition decide_persist_for_segment ::
  "recording_mode \<Rightarrow> bool \<Rightarrow> bool \<Rightarrow> motion_buffer \<Rightarrow> pending_segment \<Rightarrow>
   segment_decision \<times> motion_buffer" where
  "decide_persist_for_segment mode caching_active detector_healthy buf completed =
     (case mode of
        Continuous \<Rightarrow> (\<lparr>sd_actual = decision_persist_one completed, sd_shadow = None\<rparr>, buf)
      | Motion \<Rightarrow>
          (if \<not> caching_active
           then (let (shadow, buf1) = push_segment buf completed
                 in (\<lparr>sd_actual = decision_persist_one completed, sd_shadow = Some shadow\<rparr>, buf1))
           else if \<not> detector_healthy
           then (let (ring, buf1) = drain_ring buf
                 in (\<lparr>sd_actual = \<lparr>persist = ring @ [completed], discard = []\<rparr>,
                      sd_shadow = None\<rparr>, buf1))
           else (let (d, buf1) = push_segment buf completed
                 in (\<lparr>sd_actual = d, sd_shadow = None\<rparr>, buf1))))"

subsection \<open>Cache pressure\<close>

definition should_spill_cache :: "i64 \<Rightarrow> i64 \<Rightarrow> i64 \<Rightarrow> bool" where
  "should_spill_cache free_bytes total_bytes recent_segment_bytes =
     (if total_bytes \<le> 0 then False
      else let twice_segment = sat_i64 (recent_segment_bytes * 2);
               twenty_pct = as_i64 (f64_mul (f64_of_int total_bytes) (round_f64 (20 / 100)));
               floor_bytes = max twice_segment twenty_pct
           in free_bytes < floor_bytes)"

definition enospc_min_segment_bytes :: i64 where
  "enospc_min_segment_bytes = 8 * 1024 * 1024"

definition cache_enospc_reached :: "i64 \<Rightarrow> i64 \<Rightarrow> bool" where
  "cache_enospc_reached free_bytes recent_segment_bytes =
     (let need = (if 0 < recent_segment_bytes then recent_segment_bytes
                  else enospc_min_segment_bytes)
      in free_bytes < need)"

definition cache_enospc_imminent :: "(i64 \<times> i64) option \<Rightarrow> i64 \<Rightarrow> bool" where
  "cache_enospc_imminent reading recent_segment_bytes =
     (case reading of
        Some (free_bytes, _) \<Rightarrow> cache_enospc_reached free_bytes recent_segment_bytes
      | None \<Rightarrow> False)"

definition spill_oldest_if_under_pressure ::
  "(i64 \<times> i64) option \<Rightarrow> motion_buffer \<Rightarrow> i64 \<Rightarrow> pending_segment list \<times> motion_buffer" where
  "spill_oldest_if_under_pressure reading buf recent_segment_bytes =
     (case reading of
        None \<Rightarrow> ([], buf)
      | Some (free_bytes, total_bytes) \<Rightarrow>
          (if \<not> should_spill_cache free_bytes total_bytes recent_segment_bytes then ([], buf)
           else if buf_state buf \<noteq> Idle then ([], buf)
           else if pending buf = [] then ([], buf)
           else (pending buf, buf\<lparr>pending := []\<rparr>)))"

subsection \<open>Decision steps of a completed segment\<close>

record capture =
  cap_signals :: "motion_signal list"
  cap_buf :: motion_buffer
  cap_union :: motion_union

text \<open>What one call of \<open>finish_completed_segment\<close> reads: the mode and cache state of the run,
  the health reading, the signals waiting in the channel and the file system reading.\<close>

record finish_input =
  fi_mode :: recording_mode
  fi_caching :: bool
  fi_healthy :: bool
  fi_rx :: "motion_signal list"
  fi_write_dir :: "path option"
  fi_space :: "(i64 \<times> i64) option"
  fi_completed :: pending_segment

record finish_verdict =
  fv_actual :: motion_decision
  fv_shadow :: motion_decision
  fv_snapshot :: "motion_signal list"

definition finish_decide :: "capture \<Rightarrow> finish_input \<Rightarrow> finish_verdict \<times> capture" where
  "finish_decide c i =
     (let caching_active = fi_caching i; detector_healthy = fi_healthy i;
          unhealthy_while_caching = (caching_active \<and> \<not> detector_healthy);
          drive_buffer = (fi_mode i = Motion \<and> \<not> unhealthy_while_caching);
          (signals, buf1, union1, acc) =
            drain_and_persist_motion (fi_rx i) (cap_signals c) drive_buffer (cap_buf c)
              (cap_union c) decision_empty;
          actual1 = (if caching_active \<and> detector_healthy then acc else decision_empty);
          shadow1 = (if caching_active \<and> detector_healthy then decision_empty else acc);
          (seg_decision, buf2) =
            decide_persist_for_segment (fi_mode i) caching_active detector_healthy buf1
              (fi_completed i);
          actual2 = extend_decision actual1 (sd_actual seg_decision);
          shadow2 = (case sd_shadow seg_decision of
                       None \<Rightarrow> shadow1 | Some sd \<Rightarrow> extend_decision shadow1 sd);
          (spilled, buf3) =
            (if caching_active \<and> detector_healthy \<and> fi_mode i = Motion
             then (case fi_write_dir i of
                     Some _ \<Rightarrow> spill_oldest_if_under_pressure (fi_space i) buf2
                                (ps_size (fi_completed i))
                   | None \<Rightarrow> ([], buf2))
             else ([], buf2));
          actual3 = actual2\<lparr>persist := persist actual2 @ spilled\<rparr>
      in (\<lparr>fv_actual = actual3, fv_shadow = shadow2, fv_snapshot = signals\<rparr>,
          \<lparr>cap_signals = prune_pending_signals signals (ps_end (fi_completed i)),
           cap_buf = buf3, cap_union = union1\<rparr>))"

definition capture_new :: "int \<Rightarrow> int \<Rightarrow> capture" where
  "capture_new pre post =
     \<lparr>cap_signals = [], cap_buf = buffer_new pre post, cap_union = union_new\<rparr>"

subsection \<open>The flip guard\<close>

definition ring_entry_lives_under :: "pending_segment \<Rightarrow> path \<Rightarrow> bool" where
  "ring_entry_lives_under seg dir \<longleftrightarrow> ps_path seg \<noteq> [] \<and> butlast (ps_path seg) = dir"

fun flip_loop ::
  "path \<Rightarrow> bool \<Rightarrow> pending_segment list \<Rightarrow> pending_segment list \<times> pending_segment list" where
  "flip_loop dir caching_active [] = ([], [])"
| "flip_loop dir caching_active (seg # rest) =
     (let (carried, settled) = flip_loop dir caching_active rest in
      if ring_entry_lives_under seg dir then (seg # carried, settled)
      else if \<not> caching_active then (carried, seg # settled)
      else (carried, settled))"

text \<open>Gives the ring entries to persist now; the buffer keeps the others.\<close>

definition flip_guard :: "path \<Rightarrow> bool \<Rightarrow> motion_buffer \<Rightarrow> pending_segment list \<times> motion_buffer" where
  "flip_guard dir caching_active buf =
     (let (ring, buf1) = drain_ring buf; (carried, settled) = flip_loop dir caching_active ring
      in (settled, buf1\<lparr>pending := carried\<rparr>))"

text \<open>\<open>Path::starts_with\<close> compares whole components.\<close>

fun starts_with :: "path \<Rightarrow> path \<Rightarrow> bool" where
  "starts_with _ [] = True"
| "starts_with [] (_ # _) = False"
| "starts_with (a # p) (b # r) = (a = b \<and> starts_with p r)"

definition cache_dir_conflicts_with_storage ::
  "path \<Rightarrow> (string \<times> path) list \<Rightarrow> (string \<times> path) option" where
  "cache_dir_conflicts_with_storage cache_root storage_roots =
     List.find (\<lambda>(_, root). cache_root = root \<or> starts_with cache_root root) storage_roots"

subsection \<open>Lemmas\<close>

lemmas decide_defs = decide_persist_for_segment_def drain_ring_def Let_def

lemma extend_decided [simp]:
  "decided (extend_decision a d) = decided a + decided d"
  by (simp add: decided_def extend_decision_def)

lemma extend_empty [simp]: "extend_decision decision_empty d = d"
  by (simp add: extend_decision_def decision_empty_def)

lemma persist_extend [simp]: "persist (extend_decision a d) = persist a @ persist d"
  by (simp add: extend_decision_def)

lemma discard_extend [simp]: "discard (extend_decision a d) = discard a @ discard d"
  by (simp add: extend_decision_def)

lemma persist_simps [simp]:
  "persist (decision_persist_one s) = [s]" "discard (decision_persist_one s) = []"
  "persist decision_empty = []" "discard decision_empty = []"
  by (simp_all add: decision_persist_one_def decision_empty_def)

lemma spill_state [simp]: "buf_state (snd (spill_oldest_if_under_pressure r b n)) = buf_state b"
  by (simp add: spill_oldest_if_under_pressure_def split: option.split prod.split)

lemma spill_conserves:
  "spill_oldest_if_under_pressure r b n = (ss, b') \<Longrightarrow> mset (pending b') + mset ss = mset (pending b)"
  by (auto simp: spill_oldest_if_under_pressure_def split: option.splits prod.splits if_splits)

text \<open>The three regimes of a call.\<close>

lemma finish_healthy:
  assumes "fi_mode i = Motion" "fi_caching i" "fi_healthy i"
    and "drain_and_persist_motion (fi_rx i) (cap_signals c) True (cap_buf c) (cap_union c)
           decision_empty = (sigs, b1, u1, acc)"
    and "push_segment b1 (fi_completed i) = (d, b2)"
    and "(case fi_write_dir i of
            Some _ \<Rightarrow> spill_oldest_if_under_pressure (fi_space i) b2 (ps_size (fi_completed i))
          | None \<Rightarrow> ([], b2)) = (ss, b3)"
  shows "finish_decide c i =
    (\<lparr>fv_actual = \<lparr>persist = persist acc @ persist d @ ss, discard = discard acc @ discard d\<rparr>,
      fv_shadow = decision_empty, fv_snapshot = sigs\<rparr>,
     \<lparr>cap_signals = prune_pending_signals sigs (ps_end (fi_completed i)), cap_buf = b3,
      cap_union = u1\<rparr>)"
  using assms by (simp add: finish_decide_def decide_defs extend_decision_def)

lemma finish_fail_open:
  assumes "fi_mode i = Motion" "fi_caching i" "\<not> fi_healthy i"
    and "drain_and_persist_motion (fi_rx i) (cap_signals c) False (cap_buf c) (cap_union c)
           decision_empty = (sigs, b1, u1, acc)"
  shows "finish_decide c i =
    (\<lparr>fv_actual = \<lparr>persist = pending (cap_buf c) @ [fi_completed i], discard = []\<rparr>,
      fv_shadow = decision_empty, fv_snapshot = sigs\<rparr>,
     \<lparr>cap_signals = prune_pending_signals sigs (ps_end (fi_completed i)),
      cap_buf = (cap_buf c)\<lparr>pending := []\<rparr>, cap_union = u1\<rparr>)"
  using assms drain_frozen_buffer [OF assms(4)] by (simp add: finish_decide_def decide_defs)

lemma finish_fallback:
  assumes "fi_mode i = Motion" "\<not> fi_caching i"
    and "drain_and_persist_motion (fi_rx i) (cap_signals c) True (cap_buf c) (cap_union c)
           decision_empty = (sigs, b1, u1, acc)"
    and "push_segment b1 (fi_completed i) = (d, b2)"
  shows "finish_decide c i =
    (\<lparr>fv_actual = decision_persist_one (fi_completed i), fv_shadow = extend_decision acc d,
      fv_snapshot = sigs\<rparr>,
     \<lparr>cap_signals = prune_pending_signals sigs (ps_end (fi_completed i)), cap_buf = b2,
      cap_union = u1\<rparr>)"
  using assms
  by (simp add: finish_decide_def decide_defs decision_persist_one_def decision_empty_def
      extend_decision_def)

lemma finish_continuous:
  assumes "fi_mode i = Continuous"
    and "drain_and_persist_motion (fi_rx i) (cap_signals c) False (cap_buf c) (cap_union c)
           decision_empty = (sigs, b1, u1, acc)"
  shows "finish_decide c i =
    (\<lparr>fv_actual = decision_persist_one (fi_completed i), fv_shadow = decision_empty,
      fv_snapshot = sigs\<rparr>,
     \<lparr>cap_signals = prune_pending_signals sigs (ps_end (fi_completed i)), cap_buf = cap_buf c,
      cap_union = u1\<rparr>)"
  using assms drain_frozen_buffer [OF assms(2)]
  by (simp add: finish_decide_def decide_defs decision_persist_one_def decision_empty_def
      extend_decision_def)

lemma drain_obtain:
  obtains sigs b1 u1 acc where
    "drain_and_persist_motion rx out driven b u decision_empty = (sigs, b1, u1, acc)"
  by (metis prod_cases4)

lemma finish_cases [case_names healthy fail_open fallback continuous]:
  assumes "fi_mode i = Motion \<Longrightarrow> fi_caching i \<Longrightarrow> fi_healthy i \<Longrightarrow> P"
    and "fi_mode i = Motion \<Longrightarrow> fi_caching i \<Longrightarrow> \<not> fi_healthy i \<Longrightarrow> P"
    and "fi_mode i = Motion \<Longrightarrow> \<not> fi_caching i \<Longrightarrow> P"
    and "fi_mode i = Continuous \<Longrightarrow> P"
  shows P
  using assms by (cases "fi_mode i") auto

lemma push_recording_state:
  "is_recording (buf_state (snd (push_segment b s))) \<longleftrightarrow> is_recording (buf_state b)"
  by (auto simp: buffer_defs split: buffer_state.splits)

lemma union_agrees_recording:
  "is_recording st = is_recording st' \<Longrightarrow> union_agrees u st \<longleftrightarrow> union_agrees u st'"
  by (simp add: union_agrees_def split: option.split)

definition capture_agrees :: "capture \<Rightarrow> bool" where
  "capture_agrees c \<longleftrightarrow> union_agrees (cap_union c) (buf_state (cap_buf c))"

lemma capture_new_agrees [simp]: "capture_agrees (capture_new pre post)"
  by (simp add: capture_agrees_def capture_new_def union_agrees_def union_new_def buffer_new_def)

lemma spill_case_state:
  "(case wd of Some _ \<Rightarrow> spill_oldest_if_under_pressure r b n | None \<Rightarrow> ([], b)) = (ss, b') \<Longrightarrow>
   buf_state b' = buf_state b"
  by (auto split: option.splits dest: arg_cong [where f = "\<lambda>x. buf_state (snd x)"])

lemma spill_case_conserves:
  "(case wd of Some _ \<Rightarrow> spill_oldest_if_under_pressure r b n | None \<Rightarrow> ([], b)) = (ss, b') \<Longrightarrow>
   mset (pending b') + mset ss = mset (pending b)"
  by (auto split: option.splits dest: spill_conserves)

lemma finish_all:
  assumes f: "finish_decide c i = (v, c')"
  shows "u_open (cap_union c') = foldl open_after (u_open (cap_union c)) (fi_rx i) \<and>
    (capture_agrees c \<longrightarrow> capture_agrees c') \<and>
    (capture_agrees c \<longrightarrow> u_open (cap_union c') \<noteq> {} \<longrightarrow>
       fi_completed i \<in> set (persist (fv_actual v)))"
proof (cases i rule: finish_cases)
  case healthy
  obtain sigs b1 u1 acc where d: "drain_and_persist_motion (fi_rx i) (cap_signals c) True
      (cap_buf c) (cap_union c) decision_empty = (sigs, b1, u1, acc)" by (rule drain_obtain)
  obtain pd b2 where p: "push_segment b1 (fi_completed i) = (pd, b2)" by force
  obtain ss b3 where s: "(case fi_write_dir i of
      Some _ \<Rightarrow> spill_oldest_if_under_pressure (fi_space i) b2 (ps_size (fi_completed i))
    | None \<Rightarrow> ([], b2)) = (ss, b3)" by force
  note eq = finish_healthy [OF healthy d p s]
  have st: "is_recording (buf_state b3) = is_recording (buf_state b1)"
    using spill_case_state [OF s] push_recording_state [of b1 "fi_completed i"] p by simp
  have ag: "union_agrees u1 (buf_state b1)" "pending_replay u1 = None" if "capture_agrees c"
    using drain_agrees [OF d] drain_driven_clears [OF d] that by (simp_all add: capture_agrees_def)
  have "fi_completed i \<in> set (persist pd)" if "capture_agrees c" "u_open u1 \<noteq> {}"
    using ag [OF that(1)] that(2) push_recording_persists [of b1 "fi_completed i"] p
    by (simp add: union_agrees_def)
  then have kept: "capture_agrees c \<longrightarrow> u_open u1 \<noteq> {} \<longrightarrow>
      fi_completed i \<in> set (persist acc @ persist pd @ ss)" by simp
  have "capture_agrees c \<longrightarrow> union_agrees u1 (buf_state b3)"
    using ag(1) union_agrees_recording [OF st] by blast
  moreover have "fst (finish_decide c i) = v" "snd (finish_decide c i) = c'" using f by simp_all
  then have "persist (fv_actual v) = persist acc @ persist pd @ ss" "cap_union c' = u1"
    "cap_buf c' = b3" unfolding eq by auto
  ultimately show ?thesis using kept drain_open [OF d] by (simp only: capture_agrees_def)
next
  case fail_open
  obtain sigs b1 u1 acc where d: "drain_and_persist_motion (fi_rx i) (cap_signals c) False
      (cap_buf c) (cap_union c) decision_empty = (sigs, b1, u1, acc)" by (rule drain_obtain)
  note eq = finish_fail_open [OF fail_open d]
  have "capture_agrees c \<longrightarrow> union_agrees u1 (buf_state (cap_buf c))"
    using drain_agrees [OF d] drain_frozen_buffer [OF d] by (simp add: capture_agrees_def)
  moreover have "fst (finish_decide c i) = v" "snd (finish_decide c i) = c'" using f by simp_all
  then have "fi_completed i \<in> set (persist (fv_actual v))" "cap_union c' = u1"
    "buf_state (cap_buf c') = buf_state (cap_buf c)" unfolding eq by auto
  ultimately show ?thesis using drain_open [OF d] by (simp add: capture_agrees_def)
next
  case fallback
  obtain sigs b1 u1 acc where d: "drain_and_persist_motion (fi_rx i) (cap_signals c) True
      (cap_buf c) (cap_union c) decision_empty = (sigs, b1, u1, acc)" by (rule drain_obtain)
  obtain pd b2 where p: "push_segment b1 (fi_completed i) = (pd, b2)" by force
  have st: "is_recording (buf_state b2) = is_recording (buf_state b1)"
    using push_recording_state [of b1 "fi_completed i"] p by simp
  note eq = finish_fallback [OF fallback d p]
  have "capture_agrees c \<longrightarrow> union_agrees u1 (buf_state b2)"
    using drain_agrees [OF d] union_agrees_recording [OF st] by (simp add: capture_agrees_def)
  moreover have "fst (finish_decide c i) = v" "snd (finish_decide c i) = c'" using f by simp_all
  then have "fi_completed i \<in> set (persist (fv_actual v))" "cap_union c' = u1" "cap_buf c' = b2"
    unfolding eq by auto
  ultimately show ?thesis using drain_open [OF d] by (simp add: capture_agrees_def)
next
  case continuous
  obtain sigs b1 u1 acc where d: "drain_and_persist_motion (fi_rx i) (cap_signals c) False
      (cap_buf c) (cap_union c) decision_empty = (sigs, b1, u1, acc)" by (rule drain_obtain)
  note eq = finish_continuous [OF continuous d]
  have "capture_agrees c \<longrightarrow> union_agrees u1 (buf_state (cap_buf c))"
    using drain_agrees [OF d] drain_frozen_buffer [OF d] by (simp add: capture_agrees_def)
  moreover have "fst (finish_decide c i) = v" "snd (finish_decide c i) = c'" using f by simp_all
  then have "fi_completed i \<in> set (persist (fv_actual v))" "cap_union c' = u1"
    "buf_state (cap_buf c') = buf_state (cap_buf c)" unfolding eq by auto
  ultimately show ?thesis using drain_open [OF d] by (simp add: capture_agrees_def)
qed

lemmas finish_open = finish_all [THEN conjunct1]
lemmas finish_agrees = finish_all [THEN conjunct2, THEN conjunct1, rule_format]
lemmas finish_open_persists = finish_all [THEN conjunct2, THEN conjunct2, rule_format]

text \<open>Conservation of one call while the cache is in use.\<close>

lemma finish_conserves:
  assumes f: "finish_decide c i = (v, c')" and m: "fi_mode i = Motion" "fi_caching i"
  shows "mset (pending (cap_buf c')) + decided (fv_actual v) =
         mset (pending (cap_buf c)) + {#fi_completed i#}"
proof (cases "fi_healthy i")
  case True
  obtain sigs b1 u1 acc where d: "drain_and_persist_motion (fi_rx i) (cap_signals c) True
      (cap_buf c) (cap_union c) decision_empty = (sigs, b1, u1, acc)" by (rule drain_obtain)
  obtain pd b2 where p: "push_segment b1 (fi_completed i) = (pd, b2)" by force
  obtain ss b3 where s: "(case fi_write_dir i of
      Some _ \<Rightarrow> spill_oldest_if_under_pressure (fi_space i) b2 (ps_size (fi_completed i))
    | None \<Rightarrow> ([], b2)) = (ss, b3)" by force
  have 1: "mset (pending b1) + decided acc = mset (pending (cap_buf c))"
    using drain_conserves_ring [OF d] by simp
  have 2: "mset (pending b2) + decided pd = mset (pending b1) + {#fi_completed i#}"
    using push_conserves [OF p] .
  have 3: "mset (pending b3) + mset ss = mset (pending b2)" by (rule spill_case_conserves [OF s])
  have "mset (pending b3) + (decided acc + decided pd + mset ss) =
      mset (pending (cap_buf c)) + {#fi_completed i#}"
    unfolding 1 [symmetric] using 2 unfolding 3 [symmetric] by (simp add: ac_simps)
  moreover have "fst (finish_decide c i) = v" "snd (finish_decide c i) = c'" using f by simp_all
  then have "cap_buf c' = b3" "decided (fv_actual v) = decided acc + decided pd + mset ss"
    unfolding finish_healthy [OF m True d p s] by (auto simp: decided_def)
  ultimately show ?thesis by simp
next
  case False
  obtain sigs b1 u1 acc where d: "drain_and_persist_motion (fi_rx i) (cap_signals c) False
      (cap_buf c) (cap_union c) decision_empty = (sigs, b1, u1, acc)" by (rule drain_obtain)
  have "fst (finish_decide c i) = v" "snd (finish_decide c i) = c'" using f by simp_all
  then have "pending (cap_buf c') = []"
    "decided (fv_actual v) = mset (pending (cap_buf c)) + {#fi_completed i#}"
    unfolding finish_fail_open [OF m False d] by (auto simp: decided_def)
  then show ?thesis by simp
qed

text \<open>Outside the cache the completed segment is persisted and nothing is discarded; the ring
  only ever gains the completed segment.\<close>

lemma finish_uncached:
  assumes f: "finish_decide c i = (v, c')" and m: "\<not> (fi_mode i = Motion \<and> fi_caching i)"
  shows "fv_actual v = decision_persist_one (fi_completed i) \<and>
    set (pending (cap_buf c')) \<subseteq> insert (fi_completed i) (set (pending (cap_buf c)))"
proof (cases "fi_mode i")
  case Continuous
  obtain sigs b1 u1 acc where d: "drain_and_persist_motion (fi_rx i) (cap_signals c) False
      (cap_buf c) (cap_union c) decision_empty = (sigs, b1, u1, acc)" by (rule drain_obtain)
  have "fst (finish_decide c i) = v" "snd (finish_decide c i) = c'" using f by simp_all
  then show ?thesis unfolding finish_continuous [OF Continuous d] by auto
next
  case Motion
  obtain sigs b1 u1 acc where d: "drain_and_persist_motion (fi_rx i) (cap_signals c) True
      (cap_buf c) (cap_union c) decision_empty = (sigs, b1, u1, acc)" by (rule drain_obtain)
  obtain pd b2 where p: "push_segment b1 (fi_completed i) = (pd, b2)" by force
  have "set (pending b2) \<subseteq> insert (fi_completed i) (set (pending b1))"
    using arg_cong [OF push_conserves [OF p], of set_mset] by auto
  moreover have "set (pending b1) \<subseteq> set (pending (cap_buf c))"
    using arg_cong [OF drain_conserves_ring [OF d], of set_mset] by (auto simp: decided_def)
  moreover have nc: "\<not> fi_caching i" using m Motion by simp
  have "fst (finish_decide c i) = v" "snd (finish_decide c i) = c'" using f by simp_all
  then have "fv_actual v = decision_persist_one (fi_completed i)" "cap_buf c' = b2"
    unfolding finish_fallback [OF Motion nc d p] by auto
  ultimately show ?thesis by auto
qed

text \<open>A completed segment is never discarded by its own call.\<close>

lemma flip_loop_eq:
  "flip_loop dir ca ss = (filter (\<lambda>s. ring_entry_lives_under s dir) ss,
     if ca then [] else filter (\<lambda>s. \<not> ring_entry_lives_under s dir) ss)"
  by (induction ss) auto

lemma flip_guard_eq:
  "flip_guard dir ca b =
     ((if ca then [] else filter (\<lambda>s. \<not> ring_entry_lives_under s dir) (pending b)),
      b\<lparr>pending := filter (\<lambda>s. ring_entry_lives_under s dir) (pending b)\<rparr>)"
  by (simp add: flip_guard_def drain_ring_def flip_loop_eq)

lemma should_spill_room:
  assumes "\<not> should_spill_cache free_bytes total_bytes seg" and "0 < total_bytes"
    and "free_bytes \<le> i64_max" and "2 * seg \<le> i64_max"
  shows "2 * seg \<le> free_bytes"
proof -
  have "sat_i64 (seg * 2) \<le> free_bytes"
    using assms(1,2) by (simp add: should_spill_cache_def Let_def)
  moreover have "seg * 2 \<le> sat_i64 (seg * 2)" using assms(4) by (intro sat_i64_ge) simp
  ultimately show ?thesis by simp
qed

lemma spill_before_enospc:
  assumes "cache_enospc_reached free_bytes seg" and "0 < seg" and "2 * seg \<le> i64_max"
    and "free_bytes \<le> i64_max" and "0 < total_bytes"
  shows "should_spill_cache free_bytes total_bytes seg"
  using assms should_spill_room [of free_bytes total_bytes seg]
  by (fastforce simp: cache_enospc_reached_def Let_def)

lemma starts_with_iff: "starts_with p r \<longleftrightarrow> (\<exists>q. p = r @ q)"
  by (induction p r rule: starts_with.induct) auto

end
