(* ===== verification/CacheStore.thy ===== *)
theory CacheStore
  imports FileStore SegmentDecision
begin

text \<open>
  Execution of a decision on the file store (\<open>services/recorder/src/recording.rs\<close>): indexing a
  segment, the storage marker, the copy of a cache segment into storage that never overwrites, the
  persist and discard paths, the retry queue for segments whose copy failed, and the sweep of
  leftover cache files. \<open>finish_completed_segment\<close> composes them with the decision.
\<close>

definition mtime_in_flight :: "instant \<Rightarrow> instant \<Rightarrow> instant \<Rightarrow> instant \<Rightarrow> bool" where
  "mtime_in_flight now mtime segment_len twice_segment =
     (if now + segment_len < mtime then False else now - mtime < twice_segment)"

definition sub_floor_bytes :: int where
  "sub_floor_bytes = 512"

text \<open>\<open>strip_prefix\<close>, with the full path when the base is not a prefix.\<close>

definition compute_relative_path :: "path \<Rightarrow> path \<Rightarrow> path" where
  "compute_relative_path full base =
     (if starts_with full base then drop (length base) full else full)"

subsection \<open>Storage marker\<close>

definition storage_marker_filename :: string where
  "storage_marker_filename = ''.crumb-storage''"

definition storage_marker_body :: bytes where
  "storage_marker_body = map of_char (concat (map (\<lambda>line. line @ [CHR 0x0A])
     [''Crumb VMS storage marker. Do not delete.'',
      [],
      ''The recorder writes this file into the root of a storage it has confirmed. Before'',
      ''Crumb is allowed to delete any segment-index row for a storage (rows whose file'',
      ''is missing), it requires this marker to be present. That way an unmounted disk,'',
      ''whose mount point directory still exists but is empty, cannot be mistaken for a'',
      ''disk whose footage was deleted. Without this check, one maintenance pass would'',
      ''wipe that storage'' @ [CHR 0x27] @ ''s entire segment index: motion flags, bounding boxes, stage'',
      ''labels, clip and bookmark links. The video files themselves are never touched,'',
      ''but that index is not recoverable.'',
      [],
      ''If you deliberately emptied this disk and want Crumb to clear out its stale index'',
      ''rows, re-create this file (an empty file is enough) and restart the recorder.'']))"

definition storage_marker_path :: "path \<Rightarrow> path" where
  "storage_marker_path base = base @ [storage_marker_filename]"

definition storage_marker_present :: "store_env \<Rightarrow> path \<Rightarrow> store \<Rightarrow> bool \<times> store" where
  "storage_marker_present e base w =
     (let (r, w1) = try_exists e (storage_marker_path base) w in (r = Some True, w1))"

definition ensure_storage_marker :: "store_env \<Rightarrow> path \<Rightarrow> store \<Rightarrow> store" where
  "ensure_storage_marker e base w =
     (let p = storage_marker_path base; (r, w1) = try_exists e p w in
      if r = Some True then w1
      else
        (let (f, w2) = io e w1 in
         if f \<noteq> Fine \<or> files w2 p \<noteq> None then w2
         else
           (let w3 = w2\<lparr>files := (files w2)(p \<mapsto> [])\<rparr>; (g, w4) = io e w3 in
            case g of
              Fine \<Rightarrow> w4\<lparr>files := (files w4)(p \<mapsto> storage_marker_body)\<rparr>
            | Fail _ \<Rightarrow> w4)))"

definition marker_write_confirmed :: "nat \<Rightarrow> nat \<Rightarrow> bool" where
  "marker_write_confirmed history present \<longleftrightarrow> history = 0 \<or> 0 < present"

definition marker_confirm_sample :: nat where "marker_confirm_sample = 50"
definition marker_recheck_interval :: int where "marker_recheck_interval = seconds 60"

definition recent_paths :: "uuid \<Rightarrow> instant \<Rightarrow> nat \<Rightarrow> seg_row list \<Rightarrow> path list" where
  "recent_paths sid before limit rs =
     take limit (map r_path (rev (sort_key r_start
       (filter (\<lambda>r. r_storage r = sid \<and> r_start r < before) rs))))"

definition list_recent_segment_paths_for_storage_before ::
  "store_env \<Rightarrow> uuid \<Rightarrow> instant \<Rightarrow> nat \<Rightarrow> store \<Rightarrow> path list option \<times> store" where
  "list_recent_segment_paths_for_storage_before e sid before limit w =
     (let (f, w1) = io e w in
      case f of
        Fine \<Rightarrow> (Some (recent_paths sid before limit (rows w)), w1)
      | Fail _ \<Rightarrow> (None, w1))"

text \<open>The loop over the sample stops at the first file that is there.\<close>

fun count_present :: "store_env \<Rightarrow> path \<Rightarrow> path list \<Rightarrow> store \<Rightarrow> nat \<times> store" where
  "count_present e base [] w = (0, w)"
| "count_present e base (rel # rest) w =
     (let (r, w1) = try_exists e (base @ rel) w in
      if r = Some True then (1, w1) else count_present e base rest w1)"

definition note_refused :: "store_env \<Rightarrow> path \<Rightarrow> store \<Rightarrow> store" where
  "note_refused e base w = w\<lparr>refused_at := (refused_at w)(base \<mapsto> se_now e)\<rparr>"

definition confirm_and_write_storage_marker :: "store_env \<Rightarrow> path \<Rightarrow> store \<Rightarrow> store" where
  "confirm_and_write_storage_marker e committed_rel_path w =
     (let base = se_root e; (present, w1) = storage_marker_present e base w in
      if present then w1
      else if (case refused_at w1 base of
                 Some t0 \<Rightarrow> se_now e - t0 < marker_recheck_interval | None \<Rightarrow> False) then w1
      else
        (let (sample, w2) = list_recent_segment_paths_for_storage_before e (se_storage e)
               (se_process_start e) marker_confirm_sample w1 in
         case sample of
           None \<Rightarrow> note_refused e base w2
         | Some paths \<Rightarrow>
             (let history = filter (\<lambda>rel. rel \<noteq> committed_rel_path) paths;
                  (n, w3) = count_present e base history w2
              in if marker_write_confirmed (length history) n then ensure_storage_marker e base w3
                 else note_refused e base w3)))"

subsection \<open>Indexing\<close>

definition i32_max :: int where "i32_max = 2147483647"

definition segment_row :: "store_env \<Rightarrow> pending_segment \<Rightarrow> motion_signal list \<Rightarrow> seg_row" where
  "segment_row e seg signals =
     (let (score, bb) = motion_stamp signals (ps_start seg) (ps_end seg) in
      \<lparr>r_camera = se_camera e, r_storage = se_storage e, r_stage = LiveStage,
       r_path = compute_relative_path (ps_path seg) (se_root e), r_stream = se_stream e,
       r_start = ps_start seg, r_end = ps_end seg,
       r_duration_ms = min (max ((ps_end seg - ps_start seg) div 1000000) 0) i32_max,
       r_has_motion = has_motion signals (ps_start seg) (ps_end seg),
       r_score = score, r_size = ps_size seg, r_bbox = bb, r_shadow_keep = None\<rparr>)"

definition index_segment ::
  "store_env \<Rightarrow> pending_segment \<Rightarrow> motion_signal list \<Rightarrow> bool \<Rightarrow> store \<Rightarrow> bool \<times> store" where
  "index_segment e seg signals preserve_existing w =
     (if 0 \<le> ps_size seg \<and> ps_size seg < sub_floor_bytes then (False, w)
      else
        (let params = segment_row e seg signals;
             (synced, w1) = fsync_segment_and_dir e (ps_path seg) w
         in if \<not> synced then (False, w1)
            else if preserve_existing
            then (let (r, w2) = insert_segment_if_absent e params w1 in
                  case r of
                    Some True \<Rightarrow> (True, confirm_and_write_storage_marker e (r_path params) w2)
                  | _ \<Rightarrow> (False, w2))
            else (let (ok, w2) = insert_segment e params w1 in
                  if ok then (True, confirm_and_write_storage_marker e (r_path params) w2)
                  else (False, w2))))"

subsection \<open>Copying into storage\<close>

fun show_nat :: "nat \<Rightarrow> string" where
  "show_nat n = (if n < 10 then [char_of (48 + n)] else show_nat (n div 10) @ [char_of (48 + n mod 10)])"

declare show_nat.simps [simp del]

text \<open>\<open>rsplit_once('.')\<close>.\<close>

definition rsplit_dot :: "string \<Rightarrow> (string \<times> string) option" where
  "rsplit_dot s =
     (if CHR ''.'' \<in> set s
      then (let ext = rev (takeWhile (\<lambda>c. c \<noteq> CHR ''.'') (rev s))
            in Some (take (length s - length ext - 1) s, ext))
      else None)"

definition disambiguated_name :: "string \<Rightarrow> nat \<Rightarrow> string" where
  "disambiguated_name filename n =
     (case rsplit_dot filename of
        Some (stem, ext) \<Rightarrow> stem @ ''-r'' @ show_nat n @ ''.'' @ ext
      | None \<Rightarrow> filename @ ''-r'' @ show_nat n)"

definition max_collision_disambiguation :: nat where
  "max_collision_disambiguation = 64"

fun disambiguate_loop ::
  "store_env \<Rightarrow> path \<Rightarrow> string \<Rightarrow> nat list \<Rightarrow> store \<Rightarrow> path option \<times> store" where
  "disambiguate_loop e parent filename [] w = (None, w)"
| "disambiguate_loop e parent filename (n # ns) w =
     (let candidate = parent @ [disambiguated_name filename n];
          (r, w1) = try_exists e candidate w
      in if r = Some False then (Some candidate, w1)
         else disambiguate_loop e parent filename ns w1)"

definition resolve_noncolliding_dst :: "store_env \<Rightarrow> path \<Rightarrow> store \<Rightarrow> path option \<times> store" where
  "resolve_noncolliding_dst e desired w =
     (if desired = [] then (None, w)
      else disambiguate_loop e (butlast desired) (last desired)
             [1..<Suc max_collision_disambiguation] w)"

definition safe_copy_into_storage ::
  "store_env \<Rightarrow> path \<Rightarrow> path \<Rightarrow> store \<Rightarrow> (path \<times> bool) option \<times> store" where
  "safe_copy_into_storage e src desired w =
     (let (r, w1) = try_exists e desired w;
          collided = (r \<noteq> Some False);
          (dst, w2) = (if collided then resolve_noncolliding_dst e desired w1 else (Some desired, w1))
      in case dst of
           None \<Rightarrow> (None, w2)
         | Some d \<Rightarrow>
             (let (ok, w3) = copy_file e src d w2 in
              if ok then (Some (d, collided), w3) else (None, snd (remove_file e d w3))))"

subsection \<open>Persist, discard and retry\<close>

datatype persist_outcome = Indexed | StoredUnindexed | NotStored

definition raise_persist_alert :: "store_env \<Rightarrow> store \<Rightarrow> store" where
  "raise_persist_alert e w =
     (let now = se_now e div 1000000000 in
      if 60 \<le> now - last_alert w
      then insert_system_event e ''storage_persist_failed'' (w\<lparr>last_alert := now\<rparr>) else w)"

definition persist_cached_segment ::
  "store_env \<Rightarrow> pending_segment \<Rightarrow> motion_signal list \<Rightarrow> store \<Rightarrow> persist_outcome \<times> store" where
  "persist_cached_segment e seg signals w =
     (if ps_path seg = [] then (NotStored, w)
      else
        (let desired = se_camera_dir e @ [last (ps_path seg)];
             (copied, w1) = safe_copy_into_storage e (ps_path seg) desired w
         in case copied of
              None \<Rightarrow> (NotStored, raise_persist_alert e w1)
            | Some (storage_path, collided) \<Rightarrow>
                (let (_, w2) = fsync_segment_and_dir e storage_path w1;
                     (indexed, w3) = index_segment e (seg\<lparr>ps_path := storage_path\<rparr>) signals collided w2;
                     (_, w4) = remove_file e (ps_path seg) w3
                 in (if indexed then Indexed else StoredUnindexed, w4))))"

definition unpersisted_retry_base :: int where "unpersisted_retry_base = seconds 5"
definition unpersisted_retry_max :: int where "unpersisted_retry_max = seconds 300"

definition unpersisted_retry_delay :: "nat \<Rightarrow> int" where
  "unpersisted_retry_delay attempts =
     (let shift = min (attempts - 1) 16
      in min (unpersisted_retry_base * 2 ^ shift) unpersisted_retry_max)"

definition queue_unpersisted :: "uuid \<Rightarrow> unpersisted \<Rightarrow> instant \<Rightarrow> store \<Rightarrow> store" where
  "queue_unpersisted cam entry now w =
     (let n = min (un_attempts entry + 1) u32_max;
          entry1 = entry\<lparr>un_attempts := n, un_next := now + unpersisted_retry_delay n\<rparr>;
          entries = queue w cam
      in if \<not> list_ex (\<lambda>x. ps_path (un_seg x) = ps_path (un_seg entry1)) entries
         then w\<lparr>queue := (queue w)(cam := entries @ [entry1])\<rparr> else w)"

definition take_due_unpersisted :: "uuid \<Rightarrow> instant \<Rightarrow> store \<Rightarrow> unpersisted list \<times> store" where
  "take_due_unpersisted cam now w =
     (filter (\<lambda>x. un_next x \<le> now) (queue w cam),
      w\<lparr>queue := (queue w)(cam := filter (\<lambda>x. \<not> un_next x \<le> now) (queue w cam))\<rparr>)"

definition motion_cache_keep_set :: "uuid \<Rightarrow> pending_segment list \<Rightarrow> store \<Rightarrow> path set" where
  "motion_cache_keep_set cam ring w =
     set (map ps_path ring) \<union> set (map (\<lambda>x. ps_path (un_seg x)) (queue w cam))"

definition persist_cached_or_queue ::
  "store_env \<Rightarrow> pending_segment \<Rightarrow> motion_signal list \<Rightarrow> store \<Rightarrow> bool \<times> store" where
  "persist_cached_or_queue e seg signals w =
     (let (r, w1) = persist_cached_segment e seg signals w in
      case r of
        Indexed \<Rightarrow> (True, w1)
      | StoredUnindexed \<Rightarrow> (False, w1)
      | NotStored \<Rightarrow>
          (let overlapping = filter (overlaps_motion (ps_start seg) (ps_end seg)) signals;
               entry = \<lparr>un_seg = seg, un_signals = overlapping, un_attempts = 0,
                        un_next = se_now e\<rparr>
           in (False, queue_unpersisted (se_camera e) entry (se_now e) w1)))"

fun retry_loop :: "store_env \<Rightarrow> unpersisted list \<Rightarrow> bool \<Rightarrow> store \<Rightarrow> bool \<times> store" where
  "retry_loop e [] any_indexed w = (any_indexed, w)"
| "retry_loop e (entry # rest) any_indexed w =
     (let (r, w1) = try_exists e (ps_path (un_seg entry)) w in
      if r = Some False
      then retry_loop e rest any_indexed (insert_system_event e ''storage_persist_failed'' w1)
      else
        (let (res, w2) = persist_cached_segment e (un_seg entry) (un_signals entry) w1 in
         case res of
           Indexed \<Rightarrow> retry_loop e rest True w2
         | StoredUnindexed \<Rightarrow> retry_loop e rest any_indexed w2
         | NotStored \<Rightarrow>
             retry_loop e rest any_indexed (queue_unpersisted (se_camera e) entry (se_now e) w2)))"

definition retry_unpersisted_segments :: "store_env \<Rightarrow> instant \<Rightarrow> store \<Rightarrow> bool \<times> store" where
  "retry_unpersisted_segments e now w =
     (let (due, w1) = take_due_unpersisted (se_camera e) now w in retry_loop e due False w1)"

definition discard_cached_segment :: "store_env \<Rightarrow> pending_segment \<Rightarrow> store \<Rightarrow> store" where
  "discard_cached_segment e seg w = snd (remove_file e (ps_path seg) w)"

text \<open>The sweep at the start of a caching run. \<open>entries\<close> is the directory listing.\<close>

fun clear_dir_contents :: "store_env \<Rightarrow> path set \<Rightarrow> path list \<Rightarrow> store \<Rightarrow> store" where
  "clear_dir_contents e keep [] w = w"
| "clear_dir_contents e keep (p # entries) w =
     (if p \<in> keep then clear_dir_contents e keep entries w
      else clear_dir_contents e keep entries (snd (remove_file e p w)))"

fun persist_loop ::
  "store_env \<Rightarrow> pending_segment list \<Rightarrow> motion_signal list \<Rightarrow> bool \<Rightarrow> store \<Rightarrow> bool \<times> store" where
  "persist_loop e [] signals any_indexed w = (any_indexed, w)"
| "persist_loop e (seg # rest) signals any_indexed w =
     (let (ok, w1) = persist_cached_or_queue e seg signals w
      in persist_loop e rest signals (any_indexed \<or> ok) w1)"

fun index_loop ::
  "store_env \<Rightarrow> pending_segment list \<Rightarrow> motion_signal list \<Rightarrow> bool \<Rightarrow> store \<Rightarrow> bool \<times> store" where
  "index_loop e [] signals any_indexed w = (any_indexed, w)"
| "index_loop e (seg # rest) signals any_indexed w =
     (let (ok, w1) = index_segment e seg signals False w
      in index_loop e rest signals (any_indexed \<or> ok) w1)"

definition execute_motion_decision ::
  "store_env \<Rightarrow> motion_decision \<Rightarrow> motion_signal list \<Rightarrow> bool \<Rightarrow> store \<Rightarrow> bool \<times> store" where
  "execute_motion_decision e decision signals caching_active w =
     (if caching_active
      then (let (any_indexed, w1) = persist_loop e (persist decision) signals False w
            in (any_indexed, fold (discard_cached_segment e) (discard decision) w1))
      else index_loop e (persist decision) signals False w)"

definition record_shadow_verdicts :: "store_env \<Rightarrow> motion_decision \<Rightarrow> store \<Rightarrow> store" where
  "record_shadow_verdicts e decision w =
     (let stamp = (\<lambda>keep seg. set_segment_motion_shadow_keep e (se_camera e)
                     (compute_relative_path (ps_path seg) (se_root e)) keep)
      in fold (stamp False) (discard decision) (fold (stamp True) (persist decision) w))"

definition finish_completed_segment ::
  "store_env \<Rightarrow> bool \<Rightarrow> finish_input \<Rightarrow> capture \<times> store \<Rightarrow> bool \<times> capture \<times> store" where
  "finish_completed_segment e motion_recording_shadow i st =
     (let (c, w) = st;
          shadow_active = (fi_mode i = Motion \<and> motion_recording_shadow);
          (v, c1) = finish_decide c i;
          (retried_indexed, w1) = retry_unpersisted_segments e (se_now e) w;
          (any_indexed, w2) = execute_motion_decision e (fv_actual v) (fv_snapshot v) (fi_caching i) w1;
          w3 = (if shadow_active then record_shadow_verdicts e (fv_shadow v) w2 else w2)
      in (any_indexed \<or> retried_indexed, c1, w3))"

subsection \<open>Frames\<close>

lemma ensure_marker_frame:
  "files w \<subseteq>\<^sub>m files (ensure_storage_marker e r w) \<and> queue (ensure_storage_marker e r w) = queue w
   \<and> durable (ensure_storage_marker e r w) = durable w \<and> rows (ensure_storage_marker e r w) = rows w"
  by (auto simp: ensure_storage_marker_def Let_def map_le_def io_def try_exists_def dom_def
      split: fault.splits prod.splits)

lemma count_present_frame [simp]:
  "files (snd (count_present e r ps w)) = files w \<and> queue (snd (count_present e r ps w)) = queue w
   \<and> durable (snd (count_present e r ps w)) = durable w \<and> rows (snd (count_present e r ps w)) = rows w"
proof (induction ps arbitrary: w)
  case Nil
  then show ?case by simp
next
  case (Cons p ps)
  obtain x w1 where x: "try_exists e (r @ p) w = (x, w1)" by force
  then have "files w1 = files w" "queue w1 = queue w" "durable w1 = durable w" "rows w1 = rows w"
    using try_exists_frame [of e "r @ p" w] by simp_all
  then show ?case using Cons.IH [of w1] x by simp
qed

lemma list_recent_frame:
  "list_recent_segment_paths_for_storage_before e sid t n w = (r, w') \<Longrightarrow>
   files w' = files w \<and> queue w' = queue w \<and> durable w' = durable w \<and> rows w' = rows w"
  by (auto simp: list_recent_segment_paths_for_storage_before_def io_def Let_def split: fault.splits)

lemma confirm_marker_frame:
  "files w \<subseteq>\<^sub>m files (confirm_and_write_storage_marker e c w) \<and>
   queue (confirm_and_write_storage_marker e c w) = queue w \<and>
   durable (confirm_and_write_storage_marker e c w) = durable w \<and>
   rows (confirm_and_write_storage_marker e c w) = rows w"
proof -
  obtain b w1 where p: "storage_marker_present e (se_root e) w = (b, w1)" by force
  have f1: "files w1 = files w" "queue w1 = queue w" "durable w1 = durable w" "rows w1 = rows w"
    using p by (auto simp: storage_marker_present_def try_exists_def io_def Let_def split: fault.splits)
  obtain r w2 where l: "list_recent_segment_paths_for_storage_before e (se_storage e)
      (se_process_start e) marker_confirm_sample w1 = (r, w2)" by force
  note f2 = list_recent_frame [OF l]
  show ?thesis
  proof (cases r)
    case None
    then show ?thesis using p l f1 f2
      by (simp add: confirm_and_write_storage_marker_def note_refused_def Let_def split: option.split)
  next
    case (Some paths)
    obtain n w3 where c: "count_present e (se_root e) (filter (\<lambda>rel. rel \<noteq> c) paths) w2 = (n, w3)"
      by force
    have f3: "files w3 = files w2" "queue w3 = queue w2" "durable w3 = durable w2" "rows w3 = rows w2"
      using c count_present_frame [of e "se_root e" "filter (\<lambda>rel. rel \<noteq> c) paths" w2] by simp_all
    show ?thesis using Some p l c f1 f2 f3 ensure_marker_frame [of w3 e "se_root e"]
      by (simp add: confirm_and_write_storage_marker_def note_refused_def Let_def split: option.split)
  qed
qed

lemma index_segment_frame:
  assumes "index_segment e seg sg pr w = (ok, w')"
  shows "files w \<subseteq>\<^sub>m files w' \<and> queue w' = queue w"
proof -
  obtain s w1 where y: "fsync_segment_and_dir e (ps_path seg) w = (s, w1)" by force
  have f1: "files w1 = files w" "queue w1 = queue w" using fsync_frame [of e "ps_path seg" w] y by simp_all
  obtain b w2 where i: "insert_segment e (segment_row e seg sg) w1 = (b, w2)" by force
  have f2: "files w2 = files w" "queue w2 = queue w"
    using insert_segment_frame [of e "segment_row e seg sg" w1] i f1 by simp_all
  obtain b' w2' where i': "insert_segment_if_absent e (segment_row e seg sg) w1 = (b', w2')" by force
  have f2': "files w2' = files w" "queue w2' = queue w"
    using insert_if_absent_frame [of e "segment_row e seg sg" w1] i' f1 by simp_all
  show ?thesis using assms y i i' f1 f2 f2' confirm_marker_frame [of w2] confirm_marker_frame [of w2']
    by (auto simp: index_segment_def Let_def split: if_splits option.splits bool.splits)
qed

subsection \<open>The copy\<close>

lemma disambiguate_loop_frame:
  "disambiguate_loop e pa f ns w = (r, w') \<Longrightarrow>
   files w' = files w \<and> queue w' = queue w \<and>
   (\<forall>d. r = Some d \<longrightarrow> files w d = None \<and> d \<noteq> [] \<and> butlast d = pa)"
proof (induction ns arbitrary: w)
  case Nil
  then show ?case by simp
next
  case (Cons n ns)
  let ?c = "pa @ [disambiguated_name f n]"
  obtain x w1 where x: "try_exists e ?c w = (x, w1)" by force
  have f1: "files w1 = files w" "queue w1 = queue w" using try_exists_frame [of e ?c w] x by simp_all
  show ?case
  proof (cases "x = Some False")
    case True
    then show ?thesis using Cons.prems x f1 try_exists_sound(2) [of e ?c w w1] by auto
  next
    case False
    then have "disambiguate_loop e pa f ns w1 = (r, w')" using Cons.prems x by (simp add: Let_def)
    from Cons.IH [OF this] show ?thesis using f1 by simp
  qed
qed

lemma resolve_frame:
  assumes "resolve_noncolliding_dst e desired w = (r, w')"
  shows "files w' = files w \<and> queue w' = queue w \<and>
    (\<forall>d. r = Some d \<longrightarrow> files w d = None \<and> d \<noteq> [] \<and> butlast d = butlast desired)"
proof (cases "desired = []")
  case True
  then show ?thesis using assms by (simp add: resolve_noncolliding_dst_def)
next
  case False
  then have "disambiguate_loop e (butlast desired) (last desired)
      [1..<Suc max_collision_disambiguation] w = (r, w')"
    using assms unfolding resolve_noncolliding_dst_def by (simp only: if_False)
  then show ?thesis by (rule disambiguate_loop_frame)
qed

text \<open>The destination of a copy is always a name that did not exist.\<close>

lemma safe_copy_spec:
  assumes "safe_copy_into_storage e src desired w = (r, w')" and "desired \<noteq> []"
  shows "queue w' = queue w \<and> files w \<subseteq>\<^sub>m files w' \<and>
    (\<forall>d c. r = Some (d, c) \<longrightarrow> files w d = None \<and> d \<noteq> [] \<and> butlast d = butlast desired \<and>
       (\<exists>b. files w src = Some b \<and> files w' = (files w)(d \<mapsto> b)))"
proof -
  obtain x w1 where x: "try_exists e desired w = (x, w1)" by force
  have f1: "files w1 = files w" "queue w1 = queue w" using try_exists_frame [of e desired w] x by simp_all
  obtain dst w2 where d: "(if x \<noteq> Some False then resolve_noncolliding_dst e desired w1
      else (Some desired, w1)) = (dst, w2)" by force
  have d2: "files w2 = files w \<and> queue w2 = queue w \<and>
      (\<forall>d. dst = Some d \<longrightarrow> files w d = None \<and> d \<noteq> [] \<and> butlast d = butlast desired)"
  proof (cases "x = Some False")
    case True
    then show ?thesis using d f1 assms(2) try_exists_sound(2) [of e desired w w1] x by auto
  next
    case False
    then show ?thesis using d f1 resolve_frame [of e desired w1 dst w2] by simp
  qed
  show ?thesis
  proof (cases dst)
    case None
    then show ?thesis using assms(1) x d d2 by (simp add: safe_copy_into_storage_def Let_def)
  next
    case (Some dd)
    obtain ok w3 where c: "copy_file e src dd w2 = (ok, w3)" by force
    have q3: "queue w3 = queue w" using copy_file_frame(2) [of e src dd w2] c d2 by simp
    have o3: "\<And>p. p \<noteq> dd \<Longrightarrow> files w3 p = files w p"
      using copy_file_other [of _ dd e src w2] c d2 by simp
    have new: "files w dd = None" "dd \<noteq> []" "butlast dd = butlast desired" using d2 Some by simp_all
    show ?thesis
    proof (cases ok)
      case True
      then have "r = Some (dd, x \<noteq> Some False)" "w' = w3"
        using assms(1) x d c Some by (simp_all add: safe_copy_into_storage_def Let_def)
      then show ?thesis using copy_file_ok [of e src dd w2 w3] True c d2 new q3
        by (auto simp: map_le_def)
    next
      case False
      then have "r = None" "w' = snd (remove_file e dd w3)"
        using assms(1) x d c Some by (simp_all add: safe_copy_into_storage_def Let_def)
      moreover have "files w' p = files w p" if "files w p \<noteq> None" for p
        using that new(1) o3 [of p] remove_file_other [of p dd e w3] \<open>w' = snd (remove_file e dd w3)\<close>
        by (cases "p = dd") simp_all
      ultimately show ?thesis using q3 by (auto simp: map_le_def dom_def)
    qed
  qed
qed

lemma copy_file_fail:
  "copy_file e s d w = (False, w') \<Longrightarrow> files w' = files w \<or> (\<exists>c. files w' = (files w)(d \<mapsto> c))"
  by (auto simp: prim_defs split: fault.splits option.splits)

lemma remove_file_fine:
  "se_fault e (ticks w) = Fine \<Longrightarrow> files (snd (remove_file e p w)) = (files w)(p := None)"
  by (auto simp: prim_defs split: option.splits)

lemma remove_file_ticks [simp]: "ticks (snd (remove_file e p w)) = ticks w + 1"
  by (simp add: prim_defs split: option.split fault.split)

text \<open>A failed copy whose clean-up works leaves the files as they were.\<close>

lemma safe_copy_clean:
  assumes "safe_copy_into_storage e src desired w = (None, w')"
    and "se_fault e (ticks w' - 1) = Fine"
  shows "files w' = files w"
proof -
  obtain x w1 where x: "try_exists e desired w = (x, w1)" by force
  have f1: "files w1 = files w" using try_exists_frame(1) [of e desired w] x by simp
  obtain dst w2 where d: "(if x \<noteq> Some False then resolve_noncolliding_dst e desired w1
      else (Some desired, w1)) = (dst, w2)" by force
  have d2: "files w2 = files w \<and> (\<forall>d. dst = Some d \<longrightarrow> files w d = None)"
  proof (cases "x = Some False")
    case True
    then show ?thesis using d f1 try_exists_sound(2) [of e desired w w1] x by auto
  next
    case False
    then show ?thesis using d f1 resolve_frame [of e desired w1 dst w2] by simp
  qed
  show ?thesis
  proof (cases dst)
    case None
    then show ?thesis using assms(1) x d d2 by (simp add: safe_copy_into_storage_def Let_def)
  next
    case (Some dd)
    obtain ok w3 where c: "copy_file e src dd w2 = (ok, w3)" by force
    then have eq: "\<not> ok" "w' = snd (remove_file e dd w3)"
      using assms(1) x d Some by (auto simp: safe_copy_into_storage_def Let_def split: if_splits)
    then have "files w' = (files w3)(dd := None)"
      using assms(2) by (intro trans [OF _ remove_file_fine]) simp_all
    then show ?thesis using copy_file_fail [of e src dd w2 w3] c eq(1) d2 Some by auto
  qed
qed

text \<open>Indexing commits a row only for a file that is on disk and durable.\<close>

lemma insert_segment_row:
  "insert_segment e r w = (ok, w') \<Longrightarrow>
   rows w' = (if ok then upsert_rows r (rows w) else rows w)"
  by (auto simp: prim_defs split: fault.splits)

lemma insert_if_absent_row:
  "insert_segment_if_absent e r w = (res, w') \<Longrightarrow>
   rows w' = (if res = Some True then rows w @ [r] else rows w) \<and>
   (res = Some True \<longrightarrow> \<not> list_ex (same_key r) (rows w))"
  by (auto simp: prim_defs split: fault.splits if_splits)

lemma index_segment_spec:
  assumes "index_segment e seg sg pr w = (ok, w')"
  shows "rows w' = (if ok then if pr then rows w @ [segment_row e seg sg]
                             else upsert_rows (segment_row e seg sg) (rows w)
                    else rows w) \<and>
    (ok \<longrightarrow> ps_path seg \<in> durable w' \<and> files w (ps_path seg) \<noteq> None \<and>
       \<not> (0 \<le> ps_size seg \<and> ps_size seg < sub_floor_bytes) \<and>
       (pr \<longrightarrow> \<not> list_ex (same_key (segment_row e seg sg)) (rows w)))"
proof (cases "0 \<le> ps_size seg \<and> ps_size seg < sub_floor_bytes")
  case True
  then show ?thesis using assms by (simp add: index_segment_def)
next
  case False
  let ?r = "segment_row e seg sg"
  obtain s w1 where y: "fsync_segment_and_dir e (ps_path seg) w = (s, w1)" by force
  have f1: "files w1 = files w" "rows w1 = rows w" using fsync_frame [of e "ps_path seg" w] y by simp_all
  have d1: "s \<Longrightarrow> files w (ps_path seg) \<noteq> None \<and> ps_path seg \<in> durable w1"
    using fsync_ok [of e "ps_path seg" w w1] y f1(1) by simp
  obtain b w2 where i: "insert_segment e ?r w1 = (b, w2)" by force
  have i2: "durable w2 = durable w1" using insert_segment_frame(3) [of e ?r w1] i by simp
  obtain b' w2' where i': "insert_segment_if_absent e ?r w1 = (b', w2')" by force
  have i2': "durable w2' = durable w1" using insert_if_absent_frame(3) [of e ?r w1] i' by simp
  show ?thesis
    using assms False y i i' f1 d1 i2 i2' insert_segment_row [OF i] insert_if_absent_row [OF i']
      confirm_marker_frame [of w2] confirm_marker_frame [of w2']
    by (auto simp: index_segment_def Let_def split: if_splits option.splits bool.splits)
qed

lemma count_present_none:
  "\<forall>rel \<in> set ps. files w (base @ rel) = None \<Longrightarrow> fst (count_present e base ps w) = 0"
proof (induction ps arbitrary: w)
  case Nil
  then show ?case by simp
next
  case (Cons p ps)
  obtain x w1 where x: "try_exists e (base @ p) w = (x, w1)" by force
  have "files w1 = files w" using try_exists_frame(1) [of e "base @ p" w] x by simp
  moreover have "x \<noteq> Some True" using x try_exists_sound(1) [of e "base @ p" w w1] Cons.prems by auto
  ultimately show ?case using Cons x by simp
qed

lemma upsert_has_row:
  "\<exists>o' \<in> set (upsert_rows r rs). same_key r o' \<and> r_path o' = r_path r \<and> r_storage o' = r_storage r"
proof (cases "list_ex (same_key r) rs")
  case True
  then obtain o' where "o' \<in> set rs" "same_key r o'" by (auto simp: list_ex_iff)
  then have "merge_row o' r \<in> set (upsert_rows r rs)" using True by (auto simp: upsert_rows_def)
  then show ?thesis using \<open>same_key r o'\<close> by (rule_tac bexI) (auto simp: merge_row_def same_key_def)
next
  case False
  then show ?thesis by (auto simp: upsert_rows_def same_key_def)
qed

end
