(* ===== verification/CacheSafety.thy ===== *)
theory CacheSafety
  imports CacheStore
begin

text \<open>
  Footage safety of the cache store. For one segment, with its cache path and its bytes,
  \<open>kept\<close> says that the bytes are in a file of the camera's storage directory, or still in the
  cache under a queued retry. The lemmas show that handing a segment to the persist path
  establishes \<open>kept\<close> and that every later operation preserves it, for every fault oracle.
\<close>

definition stored_in :: "path \<Rightarrow> bytes \<Rightarrow> store \<Rightarrow> bool" where
  "stored_in dir b w \<longleftrightarrow> (\<exists>p. p \<noteq> [] \<and> butlast p = dir \<and> files w p = Some b)"

definition queued_paths :: "uuid \<Rightarrow> store \<Rightarrow> path set" where
  "queued_paths cam w = (\<lambda>x. ps_path (un_seg x)) ` set (queue w cam)"

definition kept :: "store_env \<Rightarrow> path \<Rightarrow> bytes \<Rightarrow> store \<Rightarrow> bool" where
  "kept e src b w \<longleftrightarrow> stored_in (se_camera_dir e) b w
     \<or> files w src = Some b \<and> src \<in> queued_paths (se_camera e) w"

text \<open>A path the cache operations may delete: not directly in the camera's storage directory.\<close>

definition outside :: "store_env \<Rightarrow> path \<Rightarrow> bool" where
  "outside e p \<longleftrightarrow> p \<noteq> [] \<and> butlast p \<noteq> se_camera_dir e"

definition queue_clean :: "store_env \<Rightarrow> store \<Rightarrow> bool" where
  "queue_clean e w \<longleftrightarrow> (\<forall>p \<in> queued_paths (se_camera e) w. outside e p)"

lemma stored_mono: "stored_in d b w \<Longrightarrow> files w \<subseteq>\<^sub>m files w' \<Longrightarrow> stored_in d b w'"
  by (force simp: stored_in_def map_le_def)

lemma alert_frame [simp]:
  "files (raise_persist_alert e w) = files w" "queue (raise_persist_alert e w) = queue w"
  by (simp_all add: raise_persist_alert_def Let_def)

lemma queue_unpersisted_frame [simp]: "files (queue_unpersisted c x t w) = files w"
  by (simp add: queue_unpersisted_def Let_def)

lemma queue_unpersisted_paths [simp]:
  "queued_paths c (queue_unpersisted c x t w) = insert (ps_path (un_seg x)) (queued_paths c w)"
proof (cases "list_ex (\<lambda>y. ps_path (un_seg y) = ps_path (un_seg x)) (queue w c)")
  case True
  then have "ps_path (un_seg x) \<in> queued_paths c w" by (auto simp: queued_paths_def list_ex_iff image_iff) metis
  then show ?thesis using True by (auto simp: queue_unpersisted_def Let_def queued_paths_def)
next
  case False
  then show ?thesis by (simp add: queue_unpersisted_def Let_def queued_paths_def)
qed

text \<open>The persist path: the bytes reach storage, or the cache file is untouched; nothing else is
  lost.\<close>

lemma persist_spec:
  assumes "persist_cached_segment e seg sg w = (out, w')"
  shows "queue w' = queue w \<and>
    (\<forall>p. p \<noteq> ps_path seg \<longrightarrow> files w p \<noteq> None \<longrightarrow> files w' p = files w p) \<and>
    (out = NotStored \<longrightarrow> files w \<subseteq>\<^sub>m files w') \<and>
    (out \<noteq> NotStored \<longrightarrow> outside e (ps_path seg) \<longrightarrow>
       (\<exists>b. files w (ps_path seg) = Some b \<and> stored_in (se_camera_dir e) b w'))"
proof (cases "ps_path seg = []")
  case True
  then show ?thesis using assms by (auto simp: persist_cached_segment_def)
next
  case False
  let ?src = "ps_path seg" and ?des = "se_camera_dir e @ [last (ps_path seg)]"
  obtain r w1 where c: "safe_copy_into_storage e ?src ?des w = (r, w1)" by force
  note cs = safe_copy_spec [OF c]
  show ?thesis
  proof (cases r)
    case None
    then have "out = NotStored" "files w' = files w1" "queue w' = queue w1"
      using assms False c by (auto simp: persist_cached_segment_def Let_def)
    then show ?thesis using cs by (auto simp: map_le_def dom_def)
  next
    case (Some dc)
    obtain d cl where dc: "dc = (d, cl)" by force
    obtain b where b: "files w ?src = Some b" "files w1 = (files w)(d \<mapsto> b)"
      and d: "files w d = None" "d \<noteq> []" "butlast d = se_camera_dir e" and q1: "queue w1 = queue w"
      using cs Some dc by auto
    obtain x w2 where f: "fsync_segment_and_dir e d w1 = (x, w2)" by force
    obtain ix w3 where i: "index_segment e (seg\<lparr>ps_path := d\<rparr>) sg cl w2 = (ix, w3)" by force
    obtain y w4 where m: "remove_file e ?src w3 = (y, w4)" by force
    have eq: "out = (if ix then Indexed else StoredUnindexed)" "w' = w4"
      using assms False c Some dc f i m by (auto simp: persist_cached_segment_def Let_def)
    have f2: "files w2 = files w1" "queue w2 = queue w"
      using fsync_frame [of e d w1] f q1 by simp_all
    have f3: "files w1 \<subseteq>\<^sub>m files w3" "queue w3 = queue w"
      using index_segment_frame [OF i] f2 by simp_all
    have f4: "queue w4 = queue w" "\<And>p. p \<noteq> ?src \<Longrightarrow> files w4 p = files w3 p"
      using remove_file_frame(2) [of e ?src w3] remove_file_other [of _ ?src e w3] m f3 by simp_all
    have ne: "d \<noteq> ?src" using d(1) b(1) by auto
    have old: "files w4 p = files w p" if "p \<noteq> ?src" "files w p \<noteq> None" for p
    proof -
      have "files w1 p = files w p" using b(2) d(1) that by auto
      then show ?thesis using f4(2) [OF that(1)] f3(1) that(2)
        by (metis domIff map_le_def)
    qed
    have "files w3 d = Some b" using f3(1) b(2) by (metis domIff fun_upd_same map_le_def option.distinct(1))
    then have "stored_in (se_camera_dir e) b w4" using f4(2) [OF ne] d by (auto simp: stored_in_def)
    then show ?thesis using eq f4(1) old b(1) by auto
  qed
qed

text \<open>Footage already in storage stays, whatever is persisted.\<close>

lemma persist_keeps_stored:
  assumes "persist_cached_segment e seg sg w = (out, w')" and "outside e (ps_path seg)"
    and "stored_in (se_camera_dir e) b w"
  shows "stored_in (se_camera_dir e) b w'"
proof -
  obtain p where p: "p \<noteq> []" "butlast p = se_camera_dir e" "files w p = Some b"
    using assms(3) by (auto simp: stored_in_def)
  then have "p \<noteq> ps_path seg" using assms(2) by (auto simp: outside_def)
  then show ?thesis using persist_spec [OF assms(1)] p by (auto simp: stored_in_def)
qed

lemma persist_or_queue_establishes:
  assumes "persist_cached_or_queue e seg sg w = (ok, w')" and "outside e (ps_path seg)"
    and "files w (ps_path seg) = Some b"
  shows "kept e (ps_path seg) b w'"
proof -
  obtain out w1 where p: "persist_cached_segment e seg sg w = (out, w1)" by force
  note ps = persist_spec [OF p]
  show ?thesis
  proof (cases "out = NotStored")
    case True
    then have "files w1 (ps_path seg) = Some b" using ps assms(3) by (metis domIff map_le_def option.distinct(1))
    then show ?thesis using assms(1) p True
      by (auto simp: persist_cached_or_queue_def Let_def kept_def)
  next
    case False
    then have "stored_in (se_camera_dir e) b w1" using ps assms(2,3) by auto
    moreover have "w' = w1" using assms(1) p False
      by (cases out) (auto simp: persist_cached_or_queue_def Let_def)
    ultimately show ?thesis by (simp add: kept_def)
  qed
qed

lemma persist_or_queue_keeps:
  assumes "persist_cached_or_queue e seg sg w = (ok, w')" and "outside e (ps_path seg)"
  shows "(kept e src b w \<longrightarrow> kept e src b w') \<and>
    (files w src = Some b \<longrightarrow> src \<noteq> ps_path seg \<longrightarrow> files w' src = Some b) \<and>
    (queue_clean e w \<longrightarrow> queue_clean e w')"
proof -
  obtain out w1 where p: "persist_cached_segment e seg sg w = (out, w1)" by force
  note ps = persist_spec [OF p]
  have q: "queued_paths (se_camera e) w1 = queued_paths (se_camera e) w"
    using ps by (simp add: queued_paths_def)
  have w': "w' = w1 \<and> out \<noteq> NotStored \<or>
    out = NotStored \<and> files w' = files w1 \<and>
    queued_paths (se_camera e) w' = insert (ps_path seg) (queued_paths (se_camera e) w)"
    using assms(1) p q by (cases out) (auto simp: persist_cached_or_queue_def Let_def)
  have f': "files w' = files w1" using w' by auto
  have st: "stored_in (se_camera_dir e) b w'" if "stored_in (se_camera_dir e) b w"
    using persist_keeps_stored [OF p assms(2) that] f' by (simp add: stored_in_def)
  have other: "files w' src = Some b" if "files w src = Some b" "src \<noteq> ps_path seg"
    using ps that f' by auto
  have "kept e src b w'" if k: "kept e src b w"
  proof (cases "stored_in (se_camera_dir e) b w \<or> src \<noteq> ps_path seg")
    case True
    then show ?thesis using k st other w' q by (auto simp: kept_def)
  next
    case False
    then show ?thesis using k persist_or_queue_establishes [OF assms] by (auto simp: kept_def)
  qed
  then show ?thesis using other w' q assms(2) by (auto simp: queue_clean_def)
qed

subsection \<open>Retry\<close>

text \<open>During the retry loop an entry is in the queue or still to be tried.\<close>

definition kept_or_due :: "store_env \<Rightarrow> path \<Rightarrow> bytes \<Rightarrow> unpersisted list \<Rightarrow> store \<Rightarrow> bool" where
  "kept_or_due e src b due w \<longleftrightarrow> stored_in (se_camera_dir e) b w
     \<or> files w src = Some b \<and> (src \<in> queued_paths (se_camera e) w
         \<or> (\<exists>x \<in> set due. ps_path (un_seg x) = src))"

lemma retry_step:
  assumes "persist_cached_segment e (un_seg x) sg w = (out, w1)"
    and "outside e (ps_path (un_seg x))"
    and "w2 = (if out = NotStored then queue_unpersisted (se_camera e) x t w1 else w1)"
  shows "(kept_or_due e src b (x # due) w \<longrightarrow> kept_or_due e src b due w2) \<and>
    (queue_clean e w \<longrightarrow> queue_clean e w2) \<and>
    (stored_in (se_camera_dir e) b' w \<longrightarrow> stored_in (se_camera_dir e) b' w2)"
proof -
  note ps = persist_spec [OF assms(1)]
  have q1: "queued_paths (se_camera e) w1 = queued_paths (se_camera e) w"
    using ps by (simp add: queued_paths_def)
  have f2: "files w2 = files w1" using assms(3) by simp
  have st: "stored_in (se_camera_dir e) c w2" if "stored_in (se_camera_dir e) c w" for c
    using persist_keeps_stored [OF assms(1,2) that] f2 by (simp add: stored_in_def)
  have "kept_or_due e src b due w2" if k: "kept_or_due e src b (x # due) w"
    "\<not> stored_in (se_camera_dir e) b w"
  proof (cases "src = ps_path (un_seg x)")
    case False
    then show ?thesis using k ps f2 q1 assms(3) by (auto simp: kept_or_due_def)
  next
    case True
    have b: "files w src = Some b" using k by (simp add: kept_or_due_def)
    show ?thesis
    proof (cases "out = NotStored")
      case True
      have "files w1 src = Some b" using ps True b by (metis domIff map_le_def option.distinct(1))
      then show ?thesis using True \<open>src = ps_path (un_seg x)\<close> f2 assms(3) by (auto simp: kept_or_due_def)
    next
      case False
      then have "stored_in (se_camera_dir e) b w1"
        using ps assms(2) b \<open>src = ps_path (un_seg x)\<close> by auto
      then show ?thesis using f2 by (simp add: kept_or_due_def stored_in_def)
    qed
  qed
  moreover have "kept_or_due e src b due w2" if "stored_in (se_camera_dir e) b w"
    using st [OF that] by (simp add: kept_or_due_def)
  moreover have "queue_clean e w2" if "queue_clean e w"
    using that q1 assms(2,3) by (auto simp: queue_clean_def)
  ultimately show ?thesis using st by blast
qed

lemma retry_loop_keeps:
  assumes "retry_loop e due a w = (r, w')" and "\<forall>x \<in> set due. outside e (ps_path (un_seg x))"
  shows "(kept_or_due e src b due w \<longrightarrow> kept e src b w') \<and> (queue_clean e w \<longrightarrow> queue_clean e w') \<and>
    (stored_in (se_camera_dir e) b' w \<longrightarrow> stored_in (se_camera_dir e) b' w')"
  using assms
proof (induction due arbitrary: a w)
  case Nil
  then show ?case by (auto simp: kept_or_due_def kept_def)
next
  case (Cons x due)
  obtain y w1 where y: "try_exists e (ps_path (un_seg x)) w = (y, w1)" by force
  have f1: "files w1 = files w" "queue w1 = queue w"
    using try_exists_frame [of e "ps_path (un_seg x)" w] y by simp_all
  have same: "kept_or_due e src b ds w1 = kept_or_due e src b ds w" "queue_clean e w1 = queue_clean e w"
    "stored_in (se_camera_dir e) b' w1 = stored_in (se_camera_dir e) b' w" for ds
    using f1 by (simp_all add: kept_or_due_def queue_clean_def stored_in_def queued_paths_def)
  show ?case
  proof (cases "y = Some False")
    case True
    let ?w2 = "insert_system_event e ''storage_persist_failed'' w1"
    have "retry_loop e due a ?w2 = (r, w')" using Cons.prems(1) y True by (simp add: Let_def)
    from Cons.IH [OF this] Cons.prems(2)
    have IH: "(kept_or_due e src b due ?w2 \<longrightarrow> kept e src b w') \<and> (queue_clean e ?w2 \<longrightarrow> queue_clean e w') \<and>
      (stored_in (se_camera_dir e) b' ?w2 \<longrightarrow> stored_in (se_camera_dir e) b' w')" by simp
    have gone: "files w (ps_path (un_seg x)) = None" using y True try_exists_sound(2) by blast
    then have "kept_or_due e src b due w" if "kept_or_due e src b (x # due) w"
      using that by (auto simp: kept_or_due_def)
    then show ?thesis using IH f1
      by (auto simp: kept_or_due_def queue_clean_def stored_in_def queued_paths_def)
  next
    case False
    obtain out w2 where p: "persist_cached_segment e (un_seg x) (un_signals x) w1 = (out, w2)" by force
    define w3 where "w3 = (if out = NotStored then queue_unpersisted (se_camera e) x (se_now e) w2 else w2)"
    have "\<exists>a'. retry_loop e due a' w3 = (r, w')"
      using Cons.prems(1) y False p by (cases out) (auto simp: Let_def w3_def)
    then obtain a' where "retry_loop e due a' w3 = (r, w')" ..
    from Cons.IH [OF this] Cons.prems(2)
      retry_step [OF p _ w3_def, of src b due b'] same
    show ?thesis by auto
  qed
qed

lemma retry_keeps:
  assumes "retry_unpersisted_segments e now w = (r, w')" and "queue_clean e w"
  shows "(kept e src b w \<longrightarrow> kept e src b w') \<and> queue_clean e w' \<and>
    (stored_in (se_camera_dir e) b' w \<longrightarrow> stored_in (se_camera_dir e) b' w')"
proof -
  obtain due w1 where t: "take_due_unpersisted (se_camera e) now w = (due, w1)" by force
  have l: "retry_loop e due False w1 = (r, w')"
    using assms(1) t by (simp add: retry_unpersisted_segments_def)
  have f1: "files w1 = files w" using t by (auto simp: take_due_unpersisted_def)
  have q1: "queued_paths (se_camera e) w = queued_paths (se_camera e) w1 \<union>
      (\<lambda>x. ps_path (un_seg x)) ` set due"
  proof -
    have "set (queue w (se_camera e)) = set (queue w1 (se_camera e)) \<union> set due"
      using t by (auto simp: take_due_unpersisted_def)
    then show ?thesis by (simp add: queued_paths_def image_Un)
  qed
  have cl: "queue_clean e w1" "\<forall>x \<in> set due. outside e (ps_path (un_seg x))"
    using assms(2) q1 by (auto simp: queue_clean_def)
  have "kept_or_due e src b due w1" if "kept e src b w"
    using that f1 q1 by (auto simp: kept_def kept_or_due_def stored_in_def)
  moreover have "stored_in (se_camera_dir e) b' w1 = stored_in (se_camera_dir e) b' w"
    using f1 by (simp add: stored_in_def)
  ultimately show ?thesis using retry_loop_keeps [OF l cl(2), of src b b'] cl(1) by auto
qed

subsection \<open>Deleting cache files\<close>

lemma remove_keeps:
  assumes "outside e p" and "p \<notin> queued_paths (se_camera e) w \<or> p \<noteq> src"
  shows "(kept e src b w \<longrightarrow> kept e src b (snd (remove_file e p w))) \<and>
    (queue_clean e w \<longrightarrow> queue_clean e (snd (remove_file e p w))) \<and>
    (stored_in (se_camera_dir e) b' w \<longrightarrow> stored_in (se_camera_dir e) b' (snd (remove_file e p w)))"
proof -
  let ?w = "snd (remove_file e p w)"
  have q: "queued_paths (se_camera e) ?w = queued_paths (se_camera e) w"
    by (simp add: queued_paths_def)
  have st: "stored_in (se_camera_dir e) c ?w" if "stored_in (se_camera_dir e) c w" for c
  proof -
    obtain x where x: "x \<noteq> []" "butlast x = se_camera_dir e" "files w x = Some c"
      using \<open>stored_in (se_camera_dir e) c w\<close> by (auto simp: stored_in_def)
    then have "x \<noteq> p" using assms(1) by (auto simp: outside_def)
    then show ?thesis using x remove_file_other [of x p e w] by (auto simp: stored_in_def)
  qed
  have "files ?w src = Some b" if "files w src = Some b" "src \<in> queued_paths (se_camera e) w"
    using that assms(2) remove_file_other [of src p e w] by (cases "src = p") auto
  then show ?thesis using st q by (auto simp: kept_def queue_clean_def)
qed

lemma sweep_keeps:
  assumes "\<forall>p \<in> set ps. outside e p" and "queued_paths (se_camera e) w \<subseteq> keep"
  shows "(kept e src b w \<longrightarrow> kept e src b (clear_dir_contents e keep ps w)) \<and>
    (queue_clean e w \<longrightarrow> queue_clean e (clear_dir_contents e keep ps w)) \<and>
    (stored_in (se_camera_dir e) b' w \<longrightarrow> stored_in (se_camera_dir e) b' (clear_dir_contents e keep ps w)) \<and>
    (\<forall>p \<in> keep. files (clear_dir_contents e keep ps w) p = files w p)"
  using assms
proof (induction ps arbitrary: w)
  case Nil
  then show ?case by simp
next
  case (Cons p ps)
  show ?case
  proof (cases "p \<in> keep")
    case True
    then show ?thesis using Cons by simp
  next
    case False
    let ?w = "snd (remove_file e p w)"
    have k: "queued_paths (se_camera e) ?w \<subseteq> keep" using Cons.prems(2) by (simp add: queued_paths_def)
    have o': "\<forall>q \<in> keep. files ?w q = files w q" using False remove_file_other [of _ p e w] by metis
    have "outside e p" "p \<notin> queued_paths (se_camera e) w \<or> p \<noteq> src"
      using Cons.prems False by auto
    note rm = remove_keeps [OF this, of b b']
    show ?thesis using Cons.IH [OF _ k] Cons.prems(1) rm o' False by simp
  qed
qed

subsection \<open>Sequences of store operations\<close>

datatype store_op =
    Persist pending_segment "motion_signal list"
  | Retry
  | Sweep "path list" "pending_segment list"
  | Discard pending_segment

fun store_step :: "store_env \<Rightarrow> store \<Rightarrow> instant \<times> store_op \<Rightarrow> bool \<times> store" where
  "store_step e w (now, Persist seg sg) = persist_cached_or_queue (e\<lparr>se_now := now\<rparr>) seg sg w"
| "store_step e w (now, Retry) = retry_unpersisted_segments (e\<lparr>se_now := now\<rparr>) now w"
| "store_step e w (now, Sweep entries ring) =
     (False, clear_dir_contents e (motion_cache_keep_set (se_camera e) ring w) entries w)"
| "store_step e w (now, Discard seg) = (False, discard_cached_segment e seg w)"

text \<open>What the recorder keeps to: it persists, sweeps and discards only files outside the storage
  directory, and does not discard the segment in question.\<close>

definition op_allowed :: "store_env \<Rightarrow> path \<Rightarrow> instant \<times> store_op \<Rightarrow> bool" where
  "op_allowed e src x = (case snd x of
      Persist seg sg \<Rightarrow> outside e (ps_path seg)
    | Retry \<Rightarrow> True
    | Sweep entries ring \<Rightarrow> list_all (outside e) entries
    | Discard seg \<Rightarrow> outside e (ps_path seg) \<and> ps_path seg \<noteq> src)"

lemma env_now [simp]:
  "kept (e\<lparr>se_now := t\<rparr>) src b w = kept e src b w"
  "queue_clean (e\<lparr>se_now := t\<rparr>) w = queue_clean e w"
  "outside (e\<lparr>se_now := t\<rparr>) p = outside e p"
  by (simp_all add: kept_def queue_clean_def outside_def)

lemma store_step_keeps:
  assumes "kept e src b w \<and> queue_clean e w" and "op_allowed e src x"
    and "store_step e w x = (r, w')"
  shows "kept e src b w' \<and> queue_clean e w'"
proof -
  obtain now op' where x: "x = (now, op')" by force
  show ?thesis
  proof (cases op')
    case (Persist seg sg)
    then show ?thesis
      using assms x persist_or_queue_keeps [of "e\<lparr>se_now := now\<rparr>" seg sg w r w' src b]
      by (simp add: op_allowed_def)
  next
    case Retry
    then show ?thesis using assms x retry_keeps [of "e\<lparr>se_now := now\<rparr>" now w r w' src b b] by simp
  next
    case (Sweep entries ring)
    have "queued_paths (se_camera e) w \<subseteq> motion_cache_keep_set (se_camera e) ring w"
      by (auto simp: queued_paths_def motion_cache_keep_set_def)
    from sweep_keeps [OF _ this, of entries src b b] show ?thesis
      using assms x Sweep by (auto simp: op_allowed_def list_all_iff)
  next
    case (Discard seg)
    then show ?thesis using assms x remove_keeps [of e "ps_path seg" w src b b]
      by (auto simp: op_allowed_def discard_cached_segment_def)
  qed
qed

interpretation footage_store: guarded_machine "store_step e"
    "\<lambda>w. kept e src b w \<and> queue_clean e w" "op_allowed e src" for e src b
  by unfold_locales (rule store_step_keeps)

subsection \<open>A whole call of finish_completed_segment\<close>

lemma retry_loop_other:
  assumes "retry_loop e due a w = (r, w')" and "\<forall>x \<in> set due. ps_path (un_seg x) \<noteq> p"
    and "files w p = Some b"
  shows "files w' p = Some b"
  using assms
proof (induction due arbitrary: a w)
  case Nil
  then show ?case by simp
next
  case (Cons x due)
  obtain y w1 where y: "try_exists e (ps_path (un_seg x)) w = (y, w1)" by force
  have f1: "files w1 = files w" using try_exists_frame(1) [of e "ps_path (un_seg x)" w] y by simp
  show ?case
  proof (cases "y = Some False")
    case True
    then show ?thesis using Cons y f1 by (simp add: Let_def)
  next
    case False
    obtain out w2 where p: "persist_cached_segment e (un_seg x) (un_signals x) w1 = (out, w2)" by force
    have "p \<noteq> ps_path (un_seg x)" using Cons.prems(2) by auto
    then have f2: "files w2 p = Some b" using persist_spec [OF p] Cons.prems(3) f1 by simp
    define w3 where "w3 = (if out = NotStored then queue_unpersisted (se_camera e) x (se_now e) w2 else w2)"
    have "\<exists>a'. retry_loop e due a' w3 = (r, w')"
      using Cons.prems(1) y False p by (cases out) (auto simp: Let_def w3_def)
    moreover have "files w3 = files w2" by (simp add: w3_def)
    ultimately show ?thesis using Cons.IH Cons.prems(2) f2 by fastforce
  qed
qed

lemma retry_other:
  assumes "retry_unpersisted_segments e now w = (r, w')" and "p \<notin> queued_paths (se_camera e) w"
    and "files w p = Some b"
  shows "files w' p = Some b"
proof -
  obtain due w1 where t: "take_due_unpersisted (se_camera e) now w = (due, w1)" by force
  have "files w1 = files w" "set due \<subseteq> set (queue w (se_camera e))"
    using t by (auto simp: take_due_unpersisted_def)
  moreover have "retry_loop e due False w1 = (r, w')"
    using assms(1) t by (simp add: retry_unpersisted_segments_def)
  ultimately show ?thesis using retry_loop_other [of e due False w1 r w' p b] assms(2,3)
    by (auto simp: queued_paths_def)
qed

lemma persist_loop_keeps:
  assumes "persist_loop e segs sg a w = (r, w')" and "\<forall>s \<in> set segs. outside e (ps_path s)"
    and "queue_clean e w"
    and "kept e src b w \<or> files w src = Some b \<and> src \<in> ps_path ` set segs"
  shows "kept e src b w' \<and> queue_clean e w'"
  using assms
proof (induction segs arbitrary: a w)
  case Nil
  then show ?case by auto
next
  case (Cons s segs)
  obtain ok w1 where p: "persist_cached_or_queue e s sg w = (ok, w1)" by force
  have out: "outside e (ps_path s)" using Cons.prems(2) by simp
  note k = persist_or_queue_keeps [OF p out]
  have "kept e src b w1 \<or> files w1 src = Some b \<and> src \<in> ps_path ` set segs"
  proof (cases "kept e src b w")
    case True
    then show ?thesis using k by blast
  next
    case False
    then have f: "files w src = Some b" "src \<in> ps_path ` set (s # segs)" using Cons.prems(4) by auto
    show ?thesis
    proof (cases "src = ps_path s")
      case True
      then show ?thesis using persist_or_queue_establishes [OF p out] f by simp
    next
      case False
      then show ?thesis using k f by auto
    qed
  qed
  moreover have "persist_loop e segs sg (a \<or> ok) w1 = (r, w')" using Cons.prems(1) p by simp
  ultimately show ?case using Cons.IH Cons.prems(2,3) k by auto
qed

lemma discards_keep:
  assumes "\<forall>s \<in> set ds. outside e (ps_path s) \<and> ps_path s \<noteq> src"
    and "kept e src b w" and "queue_clean e w"
  shows "kept e src b (fold (discard_cached_segment e) ds w) \<and>
         queue_clean e (fold (discard_cached_segment e) ds w)"
  using assms
proof (induction ds arbitrary: w)
  case Nil
  then show ?case by simp
next
  case (Cons s ds)
  have "outside e (ps_path s)" "ps_path s \<notin> queued_paths (se_camera e) w \<or> ps_path s \<noteq> src"
    using Cons.prems(1) by auto
  from remove_keeps [OF this, of b b] Cons show ?case by (simp add: discard_cached_segment_def)
qed

lemma fold_shadow_frame [simp]:
  "files (fold (\<lambda>s. set_segment_motion_shadow_keep e c (f s) k) ds w) = files w"
  "queue (fold (\<lambda>s. set_segment_motion_shadow_keep e c (f s) k) ds w) = queue w"
  by (induction ds arbitrary: w) simp_all

lemma shadow_frame [simp]:
  "files (record_shadow_verdicts e d w) = files w" "queue (record_shadow_verdicts e d w) = queue w"
  by (simp_all add: record_shadow_verdicts_def Let_def)

lemma persist_discard_disjoint:
  assumes "mset ring' + (mset ps + mset ds) = mset ring + {#x#}"
    and "distinct (map ps_path (x # ring))" and "x \<in> set ps" and "y \<in> set ds"
  shows "ps_path y \<noteq> ps_path x"
proof
  assume eq: "ps_path y = ps_path x"
  have "{#x#} + {#y#} \<subseteq># mset ps + mset ds"
    using assms(3,4) by (intro subset_mset.add_mono) simp_all
  also have "\<dots> \<subseteq># mset ring + {#x#}" unfolding assms(1) [symmetric] by simp
  finally have "y \<in># mset ring" by (simp add: add.commute)
  then show False using assms(2) eq by (metis distinct.simps(2) image_eqI list.set_map list.simps(9) set_mset_mset)
qed

subsection \<open>Properties\<close>

text \<open>A copy into storage never overwrites and never replaces. For every fault pattern, every
  file that existed before keeps its bytes; a successful copy puts the bytes of the source under a
  name in the same directory that did not exist; and a failed copy whose clean-up works leaves no
  partial file behind.\<close>

theorem safe_copy_never_overwrites:
  assumes "safe_copy_into_storage e src desired w = (r, w')" and "desired \<noteq> []"
  shows "files w \<subseteq>\<^sub>m files w' \<and>
    (case r of
       Some (dst, _) \<Rightarrow> files w dst = None \<and> butlast dst = butlast desired \<and>
         files w' = (files w)(dst := files w src) \<and> files w src \<noteq> None
     | None \<Rightarrow> se_fault e (ticks w' - 1) = Fine \<longrightarrow> files w' = files w)"
  using safe_copy_spec [OF assms] safe_copy_clean [of e src desired w w'] assms(1)
  by (auto split: option.splits)

text \<open>C2. Kept footage survives. Hand a cache segment to the persist path. Then, whatever faults
  hit that call and whatever sequence of further persists, retries, sweeps of leftover cache files
  and discards of other files follows, its bytes are in a file of the camera's storage directory,
  or in its cache file with a retry queued.\<close>

theorem kept_footage_survives:
  assumes "files w (ps_path seg) = Some b" and "outside e (ps_path seg)" and "queue_clean e w"
    and "persist_cached_or_queue e seg sg w = (ok, w1)"
    and "list_all (op_allowed e (ps_path seg)) ops"
    and "run_machine (store_step e) w1 ops = (outs, w2)"
  shows "kept e (ps_path seg) b w2"
proof -
  have "kept e (ps_path seg) b w1 \<and> queue_clean e w1"
    using persist_or_queue_establishes [OF assms(4,2,1)]
      persist_or_queue_keeps [OF assms(4,2)] assms(3) by blast
  from footage_store.run_inv [OF this assms(5,6)] show ?thesis by simp
qed

text \<open>C1. An open motion event reaches storage. One call of \<open>finish_completed_segment\<close> with the cache
  in use, whatever the detector health, the free space, the retries that are due and the I/O
  faults: if some event is open once the waiting signals are drained, then after the call the bytes
  of the completed segment are in the camera's storage directory or still in the cache with a
  queued retry. The hypotheses are the invariants of the worker: buffer and union agree, ring and
  completed segment are distinct cache files, queued files are cache files.\<close>

theorem open_event_reaches_storage:
  assumes "capture_agrees c" and "fi_mode i = Motion" and "fi_caching i"
    and "foldl open_after (u_open (cap_union c)) (fi_rx i) \<noteq> {}"
    and "files w (ps_path (fi_completed i)) = Some b"
    and "distinct (map ps_path (fi_completed i # pending (cap_buf c)))"
    and "\<forall>s \<in> set (fi_completed i # pending (cap_buf c)). outside e (ps_path s)"
    and "queue_clean e w" and "ps_path (fi_completed i) \<notin> queued_paths (se_camera e) w"
    and "finish_completed_segment e shadow i (c, w) = (ok, c', w')"
  shows "kept e (ps_path (fi_completed i)) b w' \<and> queue_clean e w'"
proof -
  let ?src = "ps_path (fi_completed i)"
  obtain v c1 where f: "finish_decide c i = (v, c1)" by force
  obtain r1 w1 where rt: "retry_unpersisted_segments e (se_now e) w = (r1, w1)" by force
  obtain r2 w2 where pl: "persist_loop e (persist (fv_actual v)) (fv_snapshot v) False w1 = (r2, w2)"
    by force
  have cons: "mset (pending (cap_buf c1)) + (mset (persist (fv_actual v)) + mset (discard (fv_actual v)))
      = mset (pending (cap_buf c)) + {#fi_completed i#}"
    using finish_conserves [OF f assms(2,3)] by (simp add: decided_def)
  from arg_cong [OF this, of set_mset]
  have sub: "set (persist (fv_actual v)) \<union> set (discard (fv_actual v)) \<subseteq>
      set (fi_completed i # pending (cap_buf c))" by auto
  have mem: "fi_completed i \<in> set (persist (fv_actual v))"
    using finish_open_persists [OF f assms(1)] finish_open [OF f] assms(4) by simp
  have "files w1 ?src = Some b" by (rule retry_other [OF rt assms(9,5)])
  moreover have "queue_clean e w1" using retry_keeps [OF rt assms(8)] by blast
  ultimately have k2: "kept e ?src b w2 \<and> queue_clean e w2"
    using persist_loop_keeps [OF pl] sub assms(7) mem by blast
  have "\<forall>d \<in> set (discard (fv_actual v)). outside e (ps_path d) \<and> ps_path d \<noteq> ?src"
    using persist_discard_disjoint [OF cons assms(6) mem] sub assms(7) by blast
  from discards_keep [OF this] k2
  have k3: "kept e ?src b (fold (discard_cached_segment e) (discard (fv_actual v)) w2) \<and>
      queue_clean e (fold (discard_cached_segment e) (discard (fv_actual v)) w2)" by blast
  have "files w' = files (fold (discard_cached_segment e) (discard (fv_actual v)) w2) \<and>
      queue w' = queue (fold (discard_cached_segment e) (discard (fv_actual v)) w2)"
    using assms(3,10) f rt pl
    by (auto simp: finish_completed_segment_def execute_motion_decision_def Let_def)
  then show ?thesis using k3
    by (simp add: kept_def stored_in_def queue_clean_def queued_paths_def)
qed

text \<open>The index never outlives the bytes. When indexing a segment reports success, the file
  existed with at least the floor size, it and its directory are durable, and the row for its
  camera, stream and start points at this storage and at its path below the root; on any failure
  the index is unchanged; and the defensive mode used after a name collision never touches an
  existing row.\<close>

theorem index_never_outlives_bytes:
  assumes "index_segment e seg sg preserve w = (ok, w')"
  shows "(if ok
          then ps_path seg \<in> durable w' \<and> files w (ps_path seg) \<noteq> None \<and>
            \<not> (0 \<le> ps_size seg \<and> ps_size seg < 512) \<and>
            (\<exists>r \<in> set (rows w'). same_key (segment_row e seg sg) r \<and> r_storage r = se_storage e \<and>
               r_path r = compute_relative_path (ps_path seg) (se_root e))
          else rows w' = rows w) \<and>
    (preserve \<longrightarrow> set (rows w) \<subseteq> set (rows w'))"
proof -
  let ?r = "segment_row e seg sg"
  have r: "r_storage ?r = se_storage e" "r_path ?r = compute_relative_path (ps_path seg) (se_root e)"
    by (simp_all add: segment_row_def split_beta)
  have "same_key ?r ?r" by (simp add: same_key_def)
  then show ?thesis using index_segment_spec [OF assms] upsert_has_row [of ?r "rows w"] r
    by (auto simp: sub_floor_bytes_def)
qed

text \<open>An empty mount point is never confirmed. When the storage has indexed history from before
  this process (other than the segment just committed) and none of the sampled files is on the disk,
  recording onto the root does not create the storage marker, so reconcile will not prune the index
  of the disk that failed to mount.\<close>

theorem empty_mount_never_confirmed:
  assumes "files w (storage_marker_path (se_root e)) = None"
    and "sample = filter (\<lambda>rel. rel \<noteq> committed)
           (recent_paths (se_storage e) (se_process_start e) 50 (rows w))"
    and "sample \<noteq> []" and "\<forall>rel \<in> set sample. files w (se_root e @ rel) = None"
  shows "files (confirm_and_write_storage_marker e committed w) = files w"
proof -
  obtain b w1 where p: "storage_marker_present e (se_root e) w = (b, w1)" by force
  have f1: "files w1 = files w" "rows w1 = rows w" "\<not> b"
    using p assms(1)
    by (auto simp: storage_marker_present_def try_exists_def io_def Let_def split: fault.splits)
  obtain r w2 where l: "list_recent_segment_paths_for_storage_before e (se_storage e)
      (se_process_start e) marker_confirm_sample w1 = (r, w2)" by force
  have f2: "files w2 = files w" using list_recent_frame [OF l] f1 by simp
  show ?thesis
  proof (cases r)
    case None
    then show ?thesis using p l f1 f2
      by (simp add: confirm_and_write_storage_marker_def note_refused_def Let_def split: option.split)
  next
    case (Some paths)
    then have sm: "filter (\<lambda>rel. rel \<noteq> committed) paths = sample"
      using l f1 assms(2)
      by (auto simp: list_recent_segment_paths_for_storage_before_def io_def Let_def
          marker_confirm_sample_def split: fault.splits)
    obtain n w3 where c: "count_present e (se_root e) sample w2 = (n, w3)" by force
    have "n = 0" "files w3 = files w"
      using count_present_none [of sample w2 "se_root e" e] count_present_frame [of e "se_root e" sample w2]
        c f2 assms(4) by simp_all
    then show ?thesis using Some p l c f1 f2 sm assms(3)
      by (simp add: confirm_and_write_storage_marker_def note_refused_def Let_def
          marker_write_confirmed_def split: option.split)
  qed
qed

subsection \<open>Witnesses\<close>

definition demo_env :: "(nat \<Rightarrow> fault) \<Rightarrow> store_env" where
  "demo_env f = \<lparr>se_fault = f, se_camera = 1, se_stream = MainStream, se_storage = 7,
     se_root = [''media''], se_camera_dir = [''media'', ''cam1''], se_now = 0, se_process_start = 0\<rparr>"

definition demo_cached :: pending_segment where
  "demo_cached = \<lparr>ps_path = [''cache'', ''cam1'', ''a.mp4''], ps_start = 0, ps_end = 4000000000,
     ps_size = 600\<rparr>"

definition demo_store :: store where
  "demo_store = store_empty\<lparr>files := [[''cache'', ''cam1'', ''a.mp4''] \<mapsto> [1, 2, 3]]\<rparr>"

lemma demo_outside: "outside (demo_env f) (ps_path demo_cached)"
  by (simp add: outside_def demo_env_def demo_cached_def)

lemma demo_clean: "queue_clean (demo_env f) demo_store"
  by (simp add: queue_clean_def queued_paths_def demo_store_def store_empty_def)

theorem safe_copy_never_overwrites_witness:
  "let e = demo_env (\<lambda>n. if n = 1 then Fail (Some 2) else Fine);
       (r, w') = safe_copy_into_storage e [''cache'', ''cam1'', ''a.mp4''] [''media'', ''cam1'', ''a.mp4''] demo_store
   in r = None \<and> files w' = files demo_store"
proof -
  let ?e = "demo_env (\<lambda>n. if n = 1 then Fail (Some 2) else Fine)"
  let ?c = "safe_copy_into_storage ?e [''cache'', ''cam1'', ''a.mp4''] [''media'', ''cam1'', ''a.mp4''] demo_store"
  have c: "fst ?c = None" "se_fault ?e (ticks (snd ?c) - 1) = Fine" by code_simp+
  have "?c = (None, snd ?c)" using c(1) by (metis prod.collapse)
  from safe_copy_never_overwrites [OF this] c(2) have "files (snd ?c) = files demo_store"
    by (simp only: option.case list.distinct not_False_eq_True simp_thms)
  then show ?thesis using c(1) by (simp only: Let_def split_beta)
qed

theorem kept_footage_survives_witness:
  "let e = demo_env (\<lambda>n. if n < 3 then Fail None else Fine);
       w1 = snd (persist_cached_or_queue e demo_cached [] demo_store)
   in kept e [''cache'', ''cam1'', ''a.mp4''] [1, 2, 3]
        (snd (run_machine (store_step e) w1 [(9, Sweep [[''cache'', ''cam1'', ''a.mp4'']] []), (6000000000, Retry)]))"
proof -
  let ?e = "demo_env (\<lambda>n. if n < 3 then Fail None else Fine)"
  let ?p = "persist_cached_or_queue ?e demo_cached [] demo_store"
  let ?ops = "[(9, Sweep [[''cache'', ''cam1'', ''a.mp4'']] []), (6000000000, Retry)]"
  let ?run = "run_machine (store_step ?e) (snd ?p) ?ops"
  have "list_all (op_allowed ?e (ps_path demo_cached)) ?ops"
    by (simp add: op_allowed_def outside_def demo_env_def)
  moreover have "files demo_store (ps_path demo_cached) = Some [1, 2, 3]"
    by (simp add: demo_store_def demo_cached_def)
  ultimately have "kept ?e (ps_path demo_cached) [1, 2, 3] (snd ?run)"
    using kept_footage_survives [of demo_store demo_cached "[1, 2, 3]" ?e "[]" "fst ?p" "snd ?p" ?ops
        "fst ?run" "snd ?run"] demo_outside demo_clean by simp
  then show ?thesis by (simp add: Let_def demo_cached_def)
qed

theorem open_event_reaches_storage_witness:
  "let e = demo_env (\<lambda>n. if n = 1 then Fail (Some 2) else Fine);
       sig = \<lparr>sig_camera = 1, started_at = 1000000000, stopped_at = None, peak_score = 0, sig_bbox = None\<rparr>;
       i = \<lparr>fi_mode = Motion, fi_caching = True, fi_healthy = True, fi_rx = [sig],
            fi_write_dir = Some [''cache'', ''cam1''], fi_space = None, fi_completed = demo_cached\<rparr>
   in kept e [''cache'', ''cam1'', ''a.mp4''] [1, 2, 3]
        (snd (snd (finish_completed_segment e False i (capture_new 5 5, demo_store))))"
proof -
  let ?e = "demo_env (\<lambda>n. if n = 1 then Fail (Some 2) else Fine)"
  let ?sig = "\<lparr>sig_camera = 1, started_at = 1000000000, stopped_at = None, peak_score = 0, sig_bbox = None\<rparr>"
  let ?i = "\<lparr>fi_mode = Motion, fi_caching = True, fi_healthy = True, fi_rx = [?sig],
            fi_write_dir = Some [''cache'', ''cam1''], fi_space = None, fi_completed = demo_cached\<rparr>"
  let ?c = "capture_new 5 5"
  let ?f = "finish_completed_segment ?e False ?i (?c, demo_store)"
  have op: "foldl open_after (u_open (cap_union ?c)) [?sig] \<noteq> {}" by (simp add: open_after.simps)
  have fl: "files demo_store (ps_path demo_cached) = Some [1, 2, 3]"
    by (simp add: demo_store_def demo_cached_def)
  have nq: "ps_path demo_cached \<notin> queued_paths (se_camera ?e) demo_store"
    by (simp add: queued_paths_def demo_store_def store_empty_def)
  have pd: "pending (cap_buf ?c) = []" by (simp add: capture_new_def buffer_new_def)
  have "kept ?e (ps_path (fi_completed ?i)) [1, 2, 3] (snd (snd ?f)) \<and> queue_clean ?e (snd (snd ?f))"
    by (rule open_event_reaches_storage [of ?c ?i demo_store "[1, 2, 3]" ?e False "fst ?f" "fst (snd ?f)"])
      (simp_all add: op fl nq pd demo_outside demo_clean del: foldl.simps One_nat_def)
  then show ?thesis by (simp add: Let_def demo_cached_def)
qed

theorem index_never_outlives_bytes_witness:
  "let e = demo_env (\<lambda>_. Fine); (ok, w') = index_segment e demo_cached [] False demo_store
   in ok \<and> [''cache'', ''cam1'', ''a.mp4''] \<in> durable w'"
proof -
  let ?i = "index_segment (demo_env (\<lambda>_. Fine)) demo_cached [] False demo_store"
  have ok: "fst ?i" by code_simp
  show ?thesis
    using index_never_outlives_bytes [of "demo_env (\<lambda>_. Fine)" demo_cached "[]" False demo_store
        "fst ?i" "snd ?i"] ok by (simp add: Let_def split_beta demo_cached_def)
qed

theorem empty_mount_never_confirmed_witness:
  "let r = (segment_row (demo_env (\<lambda>_. Fine)) demo_cached [])\<lparr>r_start := - 5, r_path := [''cam1'', ''old.mp4'']\<rparr>;
       w = demo_store\<lparr>rows := [r]\<rparr>
   in files (confirm_and_write_storage_marker (demo_env (\<lambda>_. Fine)) [''cam1'', ''a.mp4''] w) = files w"
proof -
  let ?e = "demo_env (\<lambda>_. Fine)"
  let ?r = "(segment_row ?e demo_cached [])\<lparr>r_start := - 5, r_path := [''cam1'', ''old.mp4'']\<rparr>"
  let ?w = "demo_store\<lparr>rows := [?r]\<rparr>"
  have s: "filter (\<lambda>rel. rel \<noteq> [''cam1'', ''a.mp4'']) (recent_paths (se_storage ?e) (se_process_start ?e) 50 (rows ?w))
      = [[''cam1'', ''old.mp4'']]" by code_simp
  have "files ?w (storage_marker_path (se_root ?e)) = None"
    "files ?w (se_root ?e @ [''cam1'', ''old.mp4'']) = None"
    by (simp_all add: demo_store_def demo_env_def storage_marker_path_def storage_marker_filename_def store_empty_def)
  then show ?thesis using empty_mount_never_confirmed [OF _ s [symmetric]] by (simp add: Let_def)
qed

end
