(* ===== verification/CaptureLoop.thy ===== *)
theory CaptureLoop
  imports SegmentDecision
begin

text \<open>
  The ffmpeg run of a worker (\<open>run_ffmpeg_loop\<close> of \<open>services/recorder/src/recording.rs\<close>) as
  a machine over the events its \<open>select!\<close> loop sees. ffmpeg prints a segment name when it
  opens a segment; the name carries the start time, so the previous segment is complete
  (\<open>prev_segment\<close>). When a run ends for any reason the segment in flight is recovered with
  the clamped file time. Motion state survives the end of a run.

  \<open>parse\<close> is \<open>parse_segment_timestamp\<close> (chrono's format parser), a parameter. The write
  directory of a run is the cache directory or the camera's storage directory; the code resolves the
  live storage anew before every run (\<open>resolve_live_storage\<close> of \<open>Supervisor\<close>), here it stays the same. An event carries
  what the code reads from outside while it handles it: signals, health, file size and time,
  and the free space before and after.
\<close>

record worker_config =
  wc_mode :: recording_mode
  wc_shadow :: bool
  wc_camera_dir :: path
  wc_cache_dir :: path
  wc_segment_seconds :: nat
  wc_parse :: "string \<Rightarrow> instant option"

record worker =
  w_cap :: capture
  w_prev :: "pending_segment option"
  w_caching :: bool
  w_saw_segment :: bool
  w_cache_disabled :: bool
  w_running :: bool

text \<open>What a handled event reads: channel, health, space before the push and after it.\<close>

record readings =
  rd_rx :: "motion_signal list"
  rd_healthy :: bool
  rd_space :: "(i64 \<times> i64) option"
  rd_space_after :: "(i64 \<times> i64) option"

datatype worker_event =
    StartRun bool
  | Line string "int option" readings
  | EndRun "instant option" "int option" readings

text \<open>What an event does: the segments the flip guard settles and the verdict of a completed
  segment, when there is one.\<close>

record worker_out =
  wo_settled :: "pending_segment list"
  wo_completed :: "pending_segment option"
  wo_verdict :: "finish_verdict option"

definition worker_new :: "int \<Rightarrow> int \<Rightarrow> worker" where
  "worker_new pre post =
     \<lparr>w_cap = capture_new pre post, w_prev = None, w_caching = False, w_saw_segment = False,
      w_cache_disabled = False, w_running = False\<rparr>"

definition quiet :: worker_out where
  "quiet = \<lparr>wo_settled = [], wo_completed = None, wo_verdict = None\<rparr>"

definition write_dir_of :: "worker_config \<Rightarrow> bool \<Rightarrow> path" where
  "write_dir_of cfg caching = (if caching then wc_cache_dir cfg else wc_camera_dir cfg)"

definition use_motion_cache :: "worker_config \<Rightarrow> worker \<Rightarrow> bool" where
  "use_motion_cache cfg w = (wc_mode cfg = Motion \<and> \<not> wc_shadow cfg \<and> \<not> w_cache_disabled w)"

text \<open>Steps 2b and 2c: pick the write directory (\<open>cache_ok\<close>: the cache directory was resolved
  and created) and settle the carried ring.\<close>

definition start_run :: "worker_config \<Rightarrow> worker \<Rightarrow> bool \<Rightarrow> worker_out \<times> worker" where
  "start_run cfg w cache_ok =
     (let caching_active = (use_motion_cache cfg w \<and> cache_ok);
          (settled, buf) = (if pending (cap_buf (w_cap w)) \<noteq> []
                            then flip_guard (write_dir_of cfg caching_active) caching_active
                                   (cap_buf (w_cap w))
                            else ([], cap_buf (w_cap w)))
      in (quiet\<lparr>wo_settled := settled\<rparr>,
          w\<lparr>w_cap := (w_cap w)\<lparr>cap_buf := buf\<rparr>, w_prev := None, w_caching := caching_active,
            w_saw_segment := False, w_running := True\<rparr>))"

definition finish_worker ::
  "worker_config \<Rightarrow> worker \<Rightarrow> pending_segment \<Rightarrow> readings \<Rightarrow> worker_out \<times> worker" where
  "finish_worker cfg w completed rd =
     (let (v, cap) = finish_decide (w_cap w)
            \<lparr>fi_mode = wc_mode cfg, fi_caching = w_caching w, fi_healthy = rd_healthy rd,
             fi_rx = rd_rx rd,
             fi_write_dir = (if w_caching w then Some (wc_cache_dir cfg) else None),
             fi_space = rd_space rd, fi_completed = completed\<rparr>
      in (\<lparr>wo_settled = [], wo_completed = Some completed, wo_verdict = Some v\<rparr>,
          w\<lparr>w_cap := cap, w_prev := None\<rparr>))"

text \<open>\<open>Path::file_name\<close>, falling back to the whole line.\<close>

fun split_slash :: "string \<Rightarrow> string list" where
  "split_slash [] = [[]]"
| "split_slash (c # cs) =
     (if c = CHR ''/'' then [] # split_slash cs
      else case split_slash cs of [] \<Rightarrow> [[c]] | w # ws \<Rightarrow> (c # w) # ws)"

definition filename_of :: "string \<Rightarrow> string" where
  "filename_of line =
     (let comps = filter (\<lambda>c. c \<noteq> [] \<and> c \<noteq> ''.'') (split_slash line)
      in if comps = [] \<or> last comps = ''..'' then line else last comps)"

text \<open>A printed line: skipped when its name does not parse, otherwise the segment in flight is
  finished and the new one takes its place, unless the cache is full.\<close>

definition segment_line ::
  "worker_config \<Rightarrow> worker \<Rightarrow> string \<Rightarrow> int option \<Rightarrow> readings \<Rightarrow> worker_out \<times> worker" where
  "segment_line cfg w line sz rd =
     (let w1 = w\<lparr>w_saw_segment := True\<rparr> in
      if line = [] then (quiet, w1)
      else
        (let filename = filename_of line in
         case wc_parse cfg filename of
           None \<Rightarrow> (quiet, w1)
         | Some new_start \<Rightarrow>
             (let fresh = \<lparr>ps_path = write_dir_of cfg (w_caching w) @ [filename],
                           ps_start = new_start, ps_end = new_start, ps_size = 0\<rparr>
              in case w_prev w1 of
                   None \<Rightarrow> (quiet, w1\<lparr>w_prev := Some fresh\<rparr>)
                 | Some prev \<Rightarrow>
                     (let size_bytes = (case sz of Some n \<Rightarrow> n | None \<Rightarrow> 0);
                          completed = prev\<lparr>ps_end := new_start, ps_size := size_bytes\<rparr>;
                          (out, w2) = finish_worker cfg w1 completed rd
                      in if w_caching w \<and> cache_enospc_imminent (rd_space_after rd) size_bytes
                         then (out, w2\<lparr>w_cache_disabled := True, w_running := False\<rparr>)
                         else (out, w2\<lparr>w_prev := Some fresh\<rparr>)))))"

text \<open>Cancellation, end of output, a read error and the stall watchdog all recover the segment
  in flight the same way.\<close>

definition end_run ::
  "worker_config \<Rightarrow> worker \<Rightarrow> instant option \<Rightarrow> int option \<Rightarrow> readings \<Rightarrow> worker_out \<times> worker" where
  "end_run cfg w mtime sz rd =
     (case w_prev w of
        None \<Rightarrow> (quiet, w\<lparr>w_running := False\<rparr>)
      | Some prev \<Rightarrow>
          (let end_ts = (case mtime of
                 Some m \<Rightarrow> clamp_recovered_end_ts (ps_start prev) m (wc_segment_seconds cfg)
               | None \<Rightarrow> ps_start prev + seconds (int (wc_segment_seconds cfg)));
               size_bytes = (case sz of Some n \<Rightarrow> n | None \<Rightarrow> ps_size prev);
               (out, w1) = finish_worker cfg w
                 (prev\<lparr>ps_end := end_ts, ps_size := size_bytes\<rparr>) rd
           in (out, w1\<lparr>w_running := False\<rparr>)))"

definition worker_step :: "worker_config \<Rightarrow> worker \<Rightarrow> worker_event \<Rightarrow> worker_out \<times> worker" where
  "worker_step cfg w e =
     (case e of
        StartRun cache_ok \<Rightarrow>
          (if w_running w then (quiet, w) else start_run cfg w cache_ok)
      | Line entry sz rd \<Rightarrow>
          (if w_running w then segment_line cfg w entry sz rd else (quiet, w))
      | EndRun mtime sz rd \<Rightarrow>
          (if w_running w then end_run cfg w mtime sz rd else (quiet, w)))"

subsection \<open>What a step does\<close>

text \<open>The cases of a step: nothing to finish, a start, or a finished segment.\<close>

definition ev_readings :: "worker_event \<Rightarrow> readings" where
  "ev_readings e = (case e of
      StartRun _ \<Rightarrow> \<lparr>rd_rx = [], rd_healthy = False, rd_space = None, rd_space_after = None\<rparr>
    | Line _ _ rd \<Rightarrow> rd | EndRun _ _ rd \<Rightarrow> rd)"

definition finish_input_of :: "worker_config \<Rightarrow> worker \<Rightarrow> pending_segment \<Rightarrow> readings \<Rightarrow> finish_input" where
  "finish_input_of cfg w completed rd =
     \<lparr>fi_mode = wc_mode cfg, fi_caching = w_caching w, fi_healthy = rd_healthy rd,
      fi_rx = rd_rx rd, fi_write_dir = (if w_caching w then Some (wc_cache_dir cfg) else None),
      fi_space = rd_space rd, fi_completed = completed\<rparr>"

lemma finish_input_of_sel [simp]:
  "fi_mode (finish_input_of cfg w s rd) = wc_mode cfg"
  "fi_caching (finish_input_of cfg w s rd) = w_caching w"
  "fi_healthy (finish_input_of cfg w s rd) = rd_healthy rd"
  "fi_rx (finish_input_of cfg w s rd) = rd_rx rd"
  "fi_completed (finish_input_of cfg w s rd) = s"
  by (simp_all add: finish_input_of_def)

lemma finish_worker_eq:
  "finish_worker cfg w s rd =
     (\<lparr>wo_settled = [], wo_completed = Some s,
       wo_verdict = Some (fst (finish_decide (w_cap w) (finish_input_of cfg w s rd)))\<rparr>,
      w\<lparr>w_cap := snd (finish_decide (w_cap w) (finish_input_of cfg w s rd)), w_prev := None\<rparr>)"
  by (simp add: finish_worker_def finish_input_of_def split: prod.split)

text \<open>A step that finishes a segment: the segment is the one in flight with its end and size
  filled in, the verdict is that of \<open>finish_decide\<close>, and the next segment in flight, if any, lies
  in the write directory.\<close>

lemma segment_line_cases:
  assumes "segment_line cfg w entry sz rd = (out, w')"
  shows "(out = quiet \<and> w_cap w' = w_cap w \<and> w_caching w' = w_caching w \<and>
            (w_prev w' = w_prev w \<or> (\<exists>f. w_prev w = None \<and> w_prev w' = Some f \<and>
               ring_entry_lives_under f (write_dir_of cfg (w_caching w)))))
       \<or> (\<exists>prev s v cap. w_prev w = Some prev \<and> ps_path s = ps_path prev \<and> ps_start s = ps_start prev \<and>
            out = \<lparr>wo_settled = [], wo_completed = Some s, wo_verdict = Some v\<rparr> \<and>
            finish_decide (w_cap w) (finish_input_of cfg w s rd) = (v, cap) \<and>
            w_cap w' = cap \<and> w_caching w' = w_caching w \<and>
            (\<forall>f. w_prev w' = Some f \<longrightarrow> ring_entry_lives_under f (write_dir_of cfg (w_caching w))))"
proof -
  let ?w1 = "w\<lparr>w_saw_segment := True\<rparr>"
  have fi: "finish_input_of cfg ?w1 = finish_input_of cfg w" by (simp add: finish_input_of_def fun_eq_iff)
  have lives: "ring_entry_lives_under \<lparr>ps_path = d @ [n], ps_start = t, ps_end = t, ps_size = 0\<rparr> d" for d n t
    by (simp add: ring_entry_lives_under_def)
  consider "entry = []" | "entry \<noteq> []" "wc_parse cfg (filename_of entry) = None"
    | t where "entry \<noteq> []" "wc_parse cfg (filename_of entry) = Some t" "w_prev w = None"
    | t prev where "entry \<noteq> []" "wc_parse cfg (filename_of entry) = Some t" "w_prev w = Some prev"
    by (cases "w_prev w"; cases "wc_parse cfg (filename_of entry)"; auto)
  then show ?thesis
  proof cases
    case 1
    then show ?thesis using assms by (auto simp: segment_line_def)
  next
    case 2
    then show ?thesis using assms by (auto simp: segment_line_def Let_def)
  next
    case 3
    then show ?thesis using assms lives by (auto simp: segment_line_def Let_def)
  next
    case 4
    let ?s = "prev\<lparr>ps_end := t, ps_size := (case sz of Some n \<Rightarrow> n | None \<Rightarrow> 0)\<rparr>"
    obtain v cap where f: "finish_decide (w_cap w) (finish_input_of cfg w ?s rd) = (v, cap)" by force
    have o1: "out = \<lparr>wo_settled = [], wo_completed = Some ?s, wo_verdict = Some v\<rparr>"
      and w1: "w_cap w' = cap" "w_caching w' = w_caching w"
      and p1: "\<forall>x. w_prev w' = Some x \<longrightarrow> ring_entry_lives_under x (write_dir_of cfg (w_caching w))"
      using assms 4 f lives
      by (auto simp: segment_line_def Let_def finish_worker_eq fi split: if_splits)
    show ?thesis using 4 f o1 w1 p1 by (intro disjI2 exI [of _ prev] exI [of _ ?s]) simp
  qed
qed

lemma end_run_cases:
  assumes "end_run cfg w mtime sz rd = (out, w')"
  shows "(out = quiet \<and> w_cap w' = w_cap w \<and> w_caching w' = w_caching w \<and> w_prev w = None \<and> w_prev w' = None)
       \<or> (\<exists>prev s v cap. w_prev w = Some prev \<and> ps_path s = ps_path prev \<and> ps_start s = ps_start prev \<and>
            out = \<lparr>wo_settled = [], wo_completed = Some s, wo_verdict = Some v\<rparr> \<and>
            finish_decide (w_cap w) (finish_input_of cfg w s rd) = (v, cap) \<and>
            w_cap w' = cap \<and> w_caching w' = w_caching w \<and> w_prev w' = None)"
proof (cases "w_prev w")
  case None
  then show ?thesis using assms by (auto simp: end_run_def)
next
  case (Some prev)
  let ?s = "prev\<lparr>ps_end := (case mtime of
                 Some m \<Rightarrow> clamp_recovered_end_ts (ps_start prev) m (wc_segment_seconds cfg)
               | None \<Rightarrow> ps_start prev + seconds (int (wc_segment_seconds cfg))),
               ps_size := (case sz of Some n \<Rightarrow> n | None \<Rightarrow> ps_size prev)\<rparr>"
  obtain v cap where f: "finish_decide (w_cap w) (finish_input_of cfg w ?s rd) = (v, cap)" by force
  have "out = \<lparr>wo_settled = [], wo_completed = Some ?s, wo_verdict = Some v\<rparr>"
    "w_cap w' = cap" "w_caching w' = w_caching w" "w_prev w' = None"
    using assms Some f by (auto simp: end_run_def Let_def finish_worker_eq)
  then show ?thesis using Some f by (intro disjI2 exI [of _ prev] exI [of _ ?s]) simp
qed

text \<open>The common shape of all steps, which the properties below use.\<close>

lemma worker_step_cases [consumes 1, case_names quiet start finish]:
  assumes st: "worker_step cfg w e = (out, w')"
    and quiet: "\<lbrakk>out = quiet; w_cap w' = w_cap w; w_caching w' = w_caching w;
       \<forall>f. w_prev w' = Some f \<longrightarrow> w_prev w = Some f \<or>
         ring_entry_lives_under f (write_dir_of cfg (w_caching w))\<rbrakk> \<Longrightarrow> P"
    and start: "\<And>settled buf. \<lbrakk>flip_guard (write_dir_of cfg (w_caching w')) (w_caching w')
         (cap_buf (w_cap w)) = (settled, buf);
       out = quiet\<lparr>wo_settled := settled\<rparr>; w_cap w' = (w_cap w)\<lparr>cap_buf := buf\<rparr>; w_prev w' = None;
       w_caching w' \<longrightarrow> wc_mode cfg = Motion\<rbrakk> \<Longrightarrow> P"
    and finish: "\<And>prev s v cap. \<lbrakk>w_prev w = Some prev; ps_path s = ps_path prev;
       ps_start s = ps_start prev;
       out = \<lparr>wo_settled = [], wo_completed = Some s, wo_verdict = Some v\<rparr>;
       finish_decide (w_cap w) (finish_input_of cfg w s (ev_readings e)) = (v, cap);
       w_cap w' = cap; w_caching w' = w_caching w;
       \<forall>f. w_prev w' = Some f \<longrightarrow> ring_entry_lives_under f (write_dir_of cfg (w_caching w))\<rbrakk> \<Longrightarrow> P"
  shows P
proof (cases "(\<exists>ok. e = StartRun ok) = w_running w")
  case True
  then have "out = CaptureLoop.quiet \<and> w' = w" using st True by (cases e) (auto simp: worker_step_def)
  then show ?thesis using quiet by simp
next
  case False
  show ?thesis
  proof (cases e)
    case (StartRun ok)
    then have "start_run cfg w ok = (out, w')" using st False by (simp add: worker_step_def)
    moreover have "flip_guard d c (cap_buf (w_cap w)) = ([], cap_buf (w_cap w))"
      if "pending (cap_buf (w_cap w)) = []" for d c using that by (simp add: flip_guard_eq)
    ultimately show ?thesis
      by (intro start [OF surjective_pairing])
        (auto simp: start_run_def Let_def use_motion_cache_def split: prod.splits if_splits)
  next
    case (Line entry sz rd)
    then have "segment_line cfg w entry sz rd = (out, w')" using st False by (simp add: worker_step_def)
    then show ?thesis using segment_line_cases [of cfg w entry sz rd out w'] quiet finish Line
      by (auto simp: ev_readings_def)
  next
    case (EndRun m sz rd)
    then have "end_run cfg w m sz rd = (out, w')" using st False by (simp add: worker_step_def)
    then show ?thesis using end_run_cases [of cfg w m sz rd out w'] quiet finish EndRun
      by (auto simp: ev_readings_def)
  qed
qed

subsection \<open>Runs\<close>

definition out_persisted :: "worker_out \<Rightarrow> pending_segment list" where
  "out_persisted o' = wo_settled o' @
     (case wo_verdict o' of None \<Rightarrow> [] | Some v \<Rightarrow> persist (fv_actual v))"

definition out_discarded :: "worker_out \<Rightarrow> pending_segment list" where
  "out_discarded o' = (case wo_verdict o' of None \<Rightarrow> [] | Some v \<Rightarrow> discard (fv_actual v))"

definition out_completed :: "worker_out \<Rightarrow> pending_segment list" where
  "out_completed o' = (case wo_completed o' of None \<Rightarrow> [] | Some s \<Rightarrow> [s])"

definition persisted :: "worker_out list \<Rightarrow> pending_segment list" where
  "persisted outs = concat (map out_persisted outs)"

definition discarded :: "worker_out list \<Rightarrow> pending_segment list" where
  "discarded outs = concat (map out_discarded outs)"

definition completed :: "worker_out list \<Rightarrow> pending_segment list" where
  "completed outs = concat (map out_completed outs)"

text \<open>The signals a run has taken from the channel: those of the events that finished a
  segment.\<close>

fun drained_signals :: "worker_event list \<Rightarrow> worker_out list \<Rightarrow> motion_signal list" where
  "drained_signals (e # es) (o' # outs) =
     (if wo_completed o' = None then [] else rd_rx (ev_readings e)) @ drained_signals es outs"
| "drained_signals _ _ = []"

lemmas out_defs = out_persisted_def out_discarded_def out_completed_def quiet_def

lemma flow_append [simp]:
  "persisted (xs @ ys) = persisted xs @ persisted ys"
  "discarded (xs @ ys) = discarded xs @ discarded ys"
  "completed (xs @ ys) = completed xs @ completed ys"
  "persisted [] = []" "discarded [] = []" "completed [] = []"
  "persisted [x] = out_persisted x" "discarded [x] = out_discarded x"
  "completed [x] = out_completed x"
  by (simp_all add: persisted_def discarded_def completed_def)

lemma completed_Cons [simp]: "completed (x # xs) = out_completed x @ completed xs"
  by (simp add: completed_def)

lemma out_quiet [simp]:
  "out_persisted quiet = []" "out_discarded quiet = []" "out_completed quiet = []"
  "wo_completed quiet = None"
  by (simp_all add: out_defs)

lemma drained_append:
  "length es = length outs \<Longrightarrow>
   drained_signals (es @ es') (outs @ outs') = drained_signals es outs @ drained_signals es' outs'"
  by (induction es outs rule: list_induct2) simp_all

lemma flip_keeps_agreement: "flip_guard d c (cap_buf cap) = (settled, buf) \<Longrightarrow>
   capture_agrees (cap\<lparr>cap_buf := buf\<rparr>) = capture_agrees cap"
  by (auto simp: flip_guard_eq capture_agrees_def)

lemma worker_step_agrees:
  "capture_agrees (w_cap w) \<Longrightarrow> worker_step cfg w e = (out, w') \<Longrightarrow> capture_agrees (w_cap w')"
proof -
  assume a: "capture_agrees (w_cap w)" and st: "worker_step cfg w e = (out, w')"
  show ?thesis using st
  proof (cases rule: worker_step_cases)
    case quiet
    then show ?thesis using a by simp
  next
    case (start settled buf)
    then show ?thesis using a flip_keeps_agreement by simp
  next
    case (finish prev s v cap)
    then show ?thesis using a finish_agrees by simp
  qed
qed

interpretation worker_sync: guarded_machine "worker_step cfg" "\<lambda>w. capture_agrees (w_cap w)"
    "\<lambda>_. True" for cfg
  by unfold_locales (rule worker_step_agrees)

lemma worker_step_open:
  assumes "worker_step cfg w e = (out, w')"
  shows "u_open (cap_union (w_cap w')) =
    foldl open_after (u_open (cap_union (w_cap w))) (drained_signals [e] [out])"
  using assms
proof (cases rule: worker_step_cases)
  case (finish prev s v cap)
  then show ?thesis using finish_open [OF finish(5)] by simp
qed (simp_all add: quiet_def)

lemma worker_run_open:
  "run_machine (worker_step cfg) w es = (outs, w') \<Longrightarrow>
   u_open (cap_union (w_cap w')) = foldl open_after (u_open (cap_union (w_cap w))) (drained_signals es outs)"
proof (induction es arbitrary: w outs w')
  case Nil
  then show ?case by simp
next
  case (Cons e es)
  obtain out w1 where st: "worker_step cfg w e = (out, w1)" by force
  obtain outs1 w2 where rn: "run_machine (worker_step cfg) w1 es = (outs1, w2)" by force
  have "outs = out # outs1" "w' = w2" using Cons.prems st rn by simp_all
  then show ?case using Cons.IH [OF rn] worker_step_open [OF st] by simp
qed

text \<open>Where the segments of a worker live.\<close>

definition placed :: "worker_config \<Rightarrow> worker \<Rightarrow> bool" where
  "placed cfg w \<longleftrightarrow>
     (\<forall>s \<in> set (pending (cap_buf (w_cap w))) \<union> set_option (w_prev w).
        ring_entry_lives_under s (write_dir_of cfg (w_caching w))) \<and>
     (w_caching w \<longrightarrow> wc_mode cfg = Motion)"

lemma placed_new: "placed cfg (worker_new pre post)"
  by (simp add: placed_def worker_new_def capture_new_def buffer_new_def)

lemma finish_ring:
  assumes "finish_decide c (finish_input_of cfg w s rd) = (v, c')" and "placed cfg w"
  shows "set (pending (cap_buf c')) \<subseteq> insert s (set (pending (cap_buf c)))"
proof (cases "w_caching w")
  case True
  then have "mset (pending (cap_buf c')) + decided (fv_actual v) = mset (pending (cap_buf c)) + {#s#}"
    using finish_conserves [OF assms(1)] assms(2) by (simp add: placed_def)
  from arg_cong [OF this, of set_mset] show ?thesis by auto
next
  case False
  then show ?thesis using finish_uncached [OF assms(1)] by simp
qed

lemma worker_step_placed:
  assumes "placed cfg w" and st: "worker_step cfg w e = (out, w')"
  shows "placed cfg w'"
  using st
proof (cases rule: worker_step_cases)
  case quiet
  then show ?thesis using assms(1) by (auto simp: placed_def)
next
  case (start settled buf)
  then show ?thesis by (auto simp: placed_def flip_guard_eq)
next
  case (finish prev s v cap)
  have "ring_entry_lives_under s (write_dir_of cfg (w_caching w))"
    using assms(1) finish(1,2) by (auto simp: placed_def ring_entry_lives_under_def)
  then show ?thesis using finish finish_ring [OF finish(5) assms(1)] assms(1)
    by (auto simp: placed_def)
qed

interpretation worker_place: guarded_machine "worker_step cfg" "placed cfg" "\<lambda>_. True" for cfg
  by unfold_locales (rule worker_step_placed)

text \<open>Every completed segment is persisted, discarded or still in the ring; while the worker
  records straight to storage the ring holds persisted segments only.\<close>

definition accounted :: "worker_config \<Rightarrow> worker_out list \<Rightarrow> worker \<Rightarrow> bool" where
  "accounted cfg outs w \<longleftrightarrow> placed cfg w \<and>
     (\<not> w_caching w \<longrightarrow> set (pending (cap_buf (w_cap w))) \<subseteq> set (persisted outs)) \<and>
     set (completed outs) \<subseteq> set (persisted outs) \<union> set (discarded outs)
       \<union> set (pending (cap_buf (w_cap w)))"

lemma accounted_finish:
  assumes acc: "accounted cfg outs w"
    and fin: "finish_decide (w_cap w) (finish_input_of cfg w s rd) = (v, cap)"
  shows "set (completed outs) \<union> {s} \<subseteq> set (persisted outs) \<union> set (persist (fv_actual v)) \<union>
           set (discarded outs) \<union> set (discard (fv_actual v)) \<union> set (pending (cap_buf cap)) \<and>
         (\<not> w_caching w \<longrightarrow> set (pending (cap_buf cap)) \<subseteq> set (persisted outs) \<union> set (persist (fv_actual v)))"
proof (cases "w_caching w")
  case True
  then have "mset (pending (cap_buf cap)) + decided (fv_actual v) =
      mset (pending (cap_buf (w_cap w))) + {#s#}"
    using finish_conserves [OF fin] acc by (simp add: accounted_def placed_def)
  from arg_cong [OF this, of set_mset]
  have "set (pending (cap_buf cap)) \<union> (set (persist (fv_actual v)) \<union> set (discard (fv_actual v))) =
      insert s (set (pending (cap_buf (w_cap w))))" by (simp add: decided_def)
  then show ?thesis using acc True by (auto simp: accounted_def)
next
  case False
  then have "fv_actual v = decision_persist_one s"
    "set (pending (cap_buf cap)) \<subseteq> insert s (set (pending (cap_buf (w_cap w))))"
    using finish_uncached [OF fin] by simp_all
  then show ?thesis using acc False by (auto simp: accounted_def)
qed

lemma lives_under_unique:
  "ring_entry_lives_under s d \<Longrightarrow> ring_entry_lives_under s d' \<Longrightarrow> d = d'"
  by (simp add: ring_entry_lives_under_def)

lemma accounted_start:
  assumes acc: "accounted cfg outs w" and apart: "wc_cache_dir cfg \<noteq> wc_camera_dir cfg"
    and fg: "flip_guard (write_dir_of cfg c) c (cap_buf (w_cap w)) = (settled, buf)"
  shows "set (pending (cap_buf (w_cap w))) \<subseteq> set (persisted outs) \<union> set settled \<union> set (pending buf) \<and>
         (\<not> c \<longrightarrow> set (pending buf) \<subseteq> set (persisted outs))"
proof (cases "w_caching w")
  case True
  have lv: "ring_entry_lives_under s (wc_cache_dir cfg)"
    if "s \<in> set (pending (cap_buf (w_cap w)))" for s
    using acc True that by (auto simp: accounted_def placed_def write_dir_of_def)
  then have "\<not> ring_entry_lives_under s (wc_camera_dir cfg)"
    if "s \<in> set (pending (cap_buf (w_cap w)))" for s
    using that apart lives_under_unique by blast
  then show ?thesis using fg lv by (auto simp: flip_guard_eq write_dir_of_def split: if_splits)
next
  case False
  then have "set (pending (cap_buf (w_cap w))) \<subseteq> set (persisted outs)"
    using acc by (simp add: accounted_def)
  then show ?thesis using fg by (auto simp: flip_guard_eq)
qed

lemma accounted_step:
  assumes acc: "accounted cfg outs w" and apart: "wc_cache_dir cfg \<noteq> wc_camera_dir cfg"
    and st: "worker_step cfg w e = (out, w')"
  shows "accounted cfg (outs @ [out]) w'"
proof -
  have pl: "placed cfg w'" using worker_step_placed [OF _ st] acc by (simp add: accounted_def)
  show ?thesis using st
  proof (cases rule: worker_step_cases)
    case quiet
    then show ?thesis using acc pl by (auto simp: accounted_def)
  next
    case (start settled buf)
    then show ?thesis using accounted_start [OF acc apart start(1)] acc pl
      unfolding accounted_def by (auto simp: out_defs)
  next
    case (finish prev s v cap)
    then show ?thesis using accounted_finish [OF acc finish(5)] pl
      unfolding accounted_def by (auto simp: out_defs)
  qed
qed

lemma accounted_run:
  assumes "wc_cache_dir cfg \<noteq> wc_camera_dir cfg"
    and "run_machine (worker_step cfg) (worker_new pre post) es = (outs, w)"
  shows "accounted cfg outs w"
  using assms(2)
proof (rule run_machine_history)
  show "accounted cfg [] (worker_new pre post)"
    using placed_new [of cfg pre post]
    by (simp add: accounted_def worker_new_def capture_new_def buffer_new_def)
next
  fix hist w1 e out w2
  assume "accounted cfg hist w1" "worker_step cfg w1 e = (out, w2)"
  then show "accounted cfg (hist @ [out]) w2" using accounted_step assms(1) by blast
qed

text \<open>A run over a list of printed lines.\<close>

definition lines_of :: "(string \<times> int option \<times> readings) list \<Rightarrow> worker_event list" where
  "lines_of xs = map (\<lambda>(entry, sz, rd). Line entry sz rd) xs"

lemma line_step:
  assumes "w_running w" "\<not> w_caching w" "w_prev w = Some p" "entry \<noteq> []"
    and "wc_parse cfg (filename_of entry) = Some t" "worker_step cfg w (Line entry sz rd) = (out, w')"
  shows "w_running w' \<and> \<not> w_caching w' \<and>
    w_prev w' = Some \<lparr>ps_path = wc_camera_dir cfg @ [filename_of entry], ps_start = t, ps_end = t, ps_size = 0\<rparr> \<and>
    out_completed out = [p\<lparr>ps_end := t, ps_size := (case sz of Some n \<Rightarrow> n | None \<Rightarrow> 0)\<rparr>]"
  using assms
  by (auto simp: worker_step_def segment_line_def Let_def finish_worker_eq out_defs write_dir_of_def)

lemma lines_run:
  assumes "w_running w" "\<not> w_caching w" "w_prev w = Some p"
    and "\<forall>(entry, sz, rd) \<in> set xs. entry \<noteq> [] \<and> wc_parse cfg (filename_of entry) \<noteq> None"
    and "run_machine (worker_step cfg) w (lines_of xs) = (outs, w')"
  shows "w_running w' \<and> \<not> w_caching w' \<and> (\<exists>q. w_prev w' = Some q \<and>
      map ps_start (completed outs) @ [ps_start q] =
        ps_start p # map (\<lambda>(entry, sz, rd). the (wc_parse cfg (filename_of entry))) xs) \<and>
      map ps_end (completed outs) = map (\<lambda>(entry, sz, rd). the (wc_parse cfg (filename_of entry))) xs"
  using assms
proof (induction xs arbitrary: w p outs w')
  case Nil
  then show ?case by (simp add: lines_of_def)
next
  case (Cons x xs)
  obtain entry sz rd where x: "x = (entry, sz, rd)" by (cases x)
  obtain t where pr: "wc_parse cfg (filename_of entry) = Some t" and ne: "entry \<noteq> []"
    using Cons.prems(4) x by auto
  obtain out w1 where st: "worker_step cfg w (Line entry sz rd) = (out, w1)" by force
  obtain outs1 w2 where rn: "run_machine (worker_step cfg) w1 (lines_of xs) = (outs1, w2)" by force
  have eq: "outs = out # outs1" "w' = w2" using Cons.prems(5) x st rn by (simp_all add: lines_of_def)
  note ls = line_step [OF Cons.prems(1-3) ne pr st]
  show ?case using Cons.IH [OF _ _ _ _ rn] ls Cons.prems(4) eq x pr by fastforce
qed

lemma finish_sources:
  assumes "placed cfg w" and "w_caching w"
    and f: "finish_decide (w_cap w) (finish_input_of cfg w s rd) = (v, cap)"
  shows "set (persist (fv_actual v)) \<union> set (discard (fv_actual v)) \<subseteq>
    insert s (set (pending (cap_buf (w_cap w))))"
proof -
  have "mset (pending (cap_buf cap)) + decided (fv_actual v) =
      mset (pending (cap_buf (w_cap w))) + {#s#}"
    using finish_conserves [OF f] assms(1,2) by (simp add: placed_def)
  from arg_cong [OF this, of set_mset] show ?thesis by (auto simp: decided_def)
qed

text \<open>Concrete inputs for the witnesses.\<close>

definition demo_config :: worker_config where
  "demo_config = \<lparr>wc_mode = Motion, wc_shadow = False, wc_camera_dir = [''media'', ''cam1''],
     wc_cache_dir = [''cache'', ''cam1''], wc_segment_seconds = 4,
     wc_parse = (\<lambda>n. if n = ''a.mp4'' then Some 0 else if n = ''b.mp4'' then Some 4000000000
       else if n = ''c.mp4'' then Some 8000000000 else None)\<rparr>"

definition demo_start :: motion_signal where
  "demo_start = \<lparr>sig_camera = 1, started_at = 1000000000, stopped_at = None, peak_score = 0,
     sig_bbox = None\<rparr>"

definition demo_readings :: "motion_signal list \<Rightarrow> bool \<Rightarrow> readings" where
  "demo_readings rx healthy =
     \<lparr>rd_rx = rx, rd_healthy = healthy, rd_space = None, rd_space_after = None\<rparr>"

lemmas demo_defs = demo_config_def demo_start_def demo_readings_def

subsection \<open>Properties\<close>

text \<open>C29. An open motion event is never dropped. Take any history of a worker: reconnects, cache
  flips, cache failures, detector health flips, signals from any number of sources in any
  interleaving. If, over all signals taken from the channel so far, some START still lacks its
  STOP, then the segment that completes is persisted by that very call.\<close>

theorem open_event_keeps_recording:
  assumes "run_machine (worker_step cfg) (worker_new pre post) es = (outs, w)"
    and "worker_step cfg w e = (out, w')"
    and "wo_completed out = Some seg"
    and "open_events (drained_signals (es @ [e]) (outs @ [out])) \<noteq> {}"
  shows "seg \<in> set (out_persisted out)"
proof -
  have ag: "capture_agrees (w_cap w)"
    using worker_sync.run_inv [OF _ _ assms(1)] by (simp add: worker_new_def list_all_iff)
  have len: "length es = length outs" using run_machine_length [of "worker_step cfg" "worker_new pre post" es] assms(1) by simp
  have "u_open (cap_union (w_cap w)) = open_events (drained_signals es outs)"
    using worker_run_open [OF assms(1)]
    by (simp add: open_events_def worker_new_def capture_new_def union_new_def)
  then have op: "u_open (cap_union (w_cap w')) \<noteq> {}"
    using worker_step_open [OF assms(2)] assms(4) drained_append [OF len]
    by (simp add: open_events_def)
  show ?thesis using assms(2)
  proof (cases rule: worker_step_cases)
    case (finish prev s v cap)
    then show ?thesis using finish_open_persists [OF finish(5) ag] op assms(3)
      by (auto simp: out_defs)
  qed (use assms(3) in \<open>simp_all add: quiet_def\<close>)
qed

text \<open>C30. Footage accounting across reconnects. As long as the cache directory is not the
  storage directory, every segment a worker ever completed is persisted, discarded by a verdict,
  or waiting in the ring, whatever runs, cache failures and flips happened.\<close>

theorem footage_accounted:
  assumes "wc_cache_dir cfg \<noteq> wc_camera_dir cfg"
    and "run_machine (worker_step cfg) (worker_new pre post) es = (outs, w)"
  shows "set (completed outs) \<subseteq>
    set (persisted outs) \<union> set (discarded outs) \<union> set (pending (cap_buf (w_cap w)))"
  using accounted_run [OF assms] by (simp add: accounted_def)

theorem open_event_keeps_recording_witness:
  "let es = [StartRun True, Line ''a.mp4'' None (demo_readings [] False)];
       (outs, w) = run_machine (worker_step demo_config) (worker_new 5 5) es;
       (out, w') = worker_step demo_config w
         (Line ''b.mp4'' (Some 100) (demo_readings [demo_start] True))
   in map ps_path (out_persisted out) = [[''cache'', ''cam1'', ''a.mp4'']]"
proof -
  let ?es = "[StartRun True, Line ''a.mp4'' None (demo_readings [] False)]"
  let ?e = "Line ''b.mp4'' (Some 100) (demo_readings [demo_start] True)"
  let ?run = "run_machine (worker_step demo_config) (worker_new 5 5) ?es"
  let ?st = "worker_step demo_config (snd ?run) ?e"
  let ?seg = "\<lparr>ps_path = [''cache'', ''cam1'', ''a.mp4''], ps_start = 0, ps_end = 4000000000,
    ps_size = 100\<rparr>"
  have c: "wo_completed (fst ?st) = Some ?seg" by code_simp
  have o: "open_events (drained_signals (?es @ [?e]) (fst ?run @ [fst ?st])) = {1000000000}" by code_simp
  have "?seg \<in> set (out_persisted (fst ?st))"
    using open_event_keeps_recording [of demo_config 5 5 ?es "fst ?run" "snd ?run" ?e "fst ?st"
        "snd ?st" ?seg] c o by simp
  moreover have "length (out_persisted (fst ?st)) = 1" by code_simp
  ultimately have "out_persisted (fst ?st) = [?seg]" by (auto simp: length_Suc_conv)
  then show ?thesis by (simp add: Let_def split_beta)
qed

theorem footage_accounted_witness:
  "let es = [StartRun True, Line ''a.mp4'' None (demo_readings [] True),
        Line ''b.mp4'' (Some 100) (demo_readings [] True),
        EndRun None (Some 50) (demo_readings [] True), StartRun False];
       (outs, w) = run_machine (worker_step demo_config) (worker_new 5 5) es
   in length (completed outs) = 2 \<and> pending (cap_buf (w_cap w)) = [] \<and>
      set (completed outs) \<subseteq> set (persisted outs) \<union> set (discarded outs)"
proof -
  let ?es = "[StartRun True, Line ''a.mp4'' None (demo_readings [] True),
        Line ''b.mp4'' (Some 100) (demo_readings [] True),
        EndRun None (Some 50) (demo_readings [] True), StartRun False]"
  let ?run = "run_machine (worker_step demo_config) (worker_new 5 5) ?es"
  have "length (completed (fst ?run)) = 2" by code_simp
  moreover have "pending (cap_buf (w_cap (snd ?run))) = []" by code_simp
  ultimately show ?thesis
    using footage_accounted [of demo_config 5 5 ?es "fst ?run" "snd ?run"]
    by (simp add: Let_def split_beta demo_config_def [THEN arg_cong [where f = wc_cache_dir]]
        demo_config_def [THEN arg_cong [where f = wc_camera_dir]])
qed

text \<open>Cache file operations touch cache files only. Throughout the life of a worker, a call
  made while the cache is in use decides only about files directly inside the cache directory; a
  call made while recording straight to storage discards nothing and persists only the completed
  segment; and the flip guard settles only files that are not in the directory of the new run.
  So the copy-then-delete of the cache path never runs on a file that is already in storage.\<close>

theorem cache_ops_only_on_cache_files:
  assumes "run_machine (worker_step cfg) (worker_new pre post) es = (outs, w)"
    and "worker_step cfg w e = (out, w')"
  shows "(case wo_verdict out of
            Some v \<Rightarrow>
              if w_caching w
              then list_all (\<lambda>s. ring_entry_lives_under s (wc_cache_dir cfg))
                     (persist (fv_actual v) @ discard (fv_actual v))
              else fv_actual v = \<lparr>persist = out_completed out, discard = []\<rparr>
          | None \<Rightarrow> True) \<and>
    list_all (\<lambda>s. \<not> w_caching w' \<and> \<not> ring_entry_lives_under s (wc_camera_dir cfg)) (wo_settled out)"
proof -
  have pl: "placed cfg w"
    using worker_place.run_inv [OF placed_new _ assms(1)] by (simp add: list_all_iff)
  show ?thesis using assms(2)
  proof (cases rule: worker_step_cases)
    case quiet
    then show ?thesis by (simp add: quiet_def)
  next
    case (start settled buf)
    have "settled = (if w_caching w' then []
        else filter (\<lambda>s. \<not> ring_entry_lives_under s (wc_camera_dir cfg)) (pending (cap_buf (w_cap w))))"
      using start(1) by (auto simp: flip_guard_eq write_dir_of_def)
    then show ?thesis using start(2) by (simp add: quiet_def list_all_iff)
  next
    case (finish prev s v cap)
    have s: "ring_entry_lives_under s (write_dir_of cfg (w_caching w))"
      using pl finish(1,2) by (auto simp: placed_def ring_entry_lives_under_def)
    show ?thesis
    proof (cases "w_caching w")
      case True
      then show ?thesis using finish_sources [OF pl True finish(5)] s pl finish(4)
        by (auto simp: list_all_iff placed_def write_dir_of_def)
    next
      case False
      then show ?thesis using finish_uncached [OF finish(5)] finish(4)
        by (simp add: out_defs decision_persist_one_def)
    qed
  qed
qed

theorem cache_ops_only_on_cache_files_witness:
  "let es = [StartRun True, Line ''a.mp4'' None (demo_readings [] True)];
       (outs, w) = run_machine (worker_step demo_config) (worker_new 5 5) es;
       (out, w') = worker_step demo_config w
         (Line ''b.mp4'' (Some 100) (demo_readings [demo_start] False))
   in w_caching w \<and> wo_verdict out \<noteq> None \<and> wo_settled out = []"
proof -
  let ?es = "[StartRun True, Line ''a.mp4'' None (demo_readings [] True)]"
  let ?e = "Line ''b.mp4'' (Some 100) (demo_readings [demo_start] False)"
  let ?run = "run_machine (worker_step demo_config) (worker_new 5 5) ?es"
  let ?st = "worker_step demo_config (snd ?run) ?e"
  have "w_caching (snd ?run)" "wo_verdict (fst ?st) \<noteq> None" "w_caching (snd ?st)" by code_simp+
  moreover have "wo_settled (fst ?st) = []"
    using cache_ops_only_on_cache_files [of demo_config 5 5 ?es "fst ?run" "snd ?run" ?e "fst ?st"
        "snd ?st"] \<open>w_caching (snd ?st)\<close> by (cases "wo_settled (fst ?st)") auto
  ultimately show ?thesis by (simp add: Let_def split_beta)
qed

text \<open>A run covers its time without gaps. When a camera records straight to storage and every
  printed name parses, a run of one first line, any further lines and any kind of end completes one
  segment per line, in order: each starts at the time its name carries and ends where the next one
  starts, and the recovered last one has a positive length of at most two segment lengths.\<close>

theorem run_covers_its_time:
  assumes "\<not> w_running w" and "wc_mode cfg = Continuous" and "0 < wc_segment_seconds cfg"
    and "\<forall>(entry, sz, rd) \<in> set ((entry0, sz0, rd0) # xs).
           entry \<noteq> [] \<and> wc_parse cfg (filename_of entry) \<noteq> None"
    and "starts = map (\<lambda>(entry, sz, rd). the (wc_parse cfg (filename_of entry))) ((entry0, sz0, rd0) # xs)"
    and "run_machine (worker_step cfg) w
           ([StartRun ok, Line entry0 sz0 rd0] @ lines_of xs @ [EndRun mtime sz rd]) = (outs, w')"
  shows "map ps_start (completed outs) = starts \<and>
    butlast (map ps_end (completed outs)) = tl starts \<and>
    0 < ps_end (last (completed outs)) - ps_start (last (completed outs)) \<and>
    ps_end (last (completed outs)) - ps_start (last (completed outs))
      \<le> seconds (2 * int (wc_segment_seconds cfg))"
proof -
  obtain o1 w1 where s1: "worker_step cfg w (StartRun ok) = (o1, w1)" by force
  have w1: "w_running w1" "\<not> w_caching w1" "w_prev w1 = None" "out_completed o1 = []"
    using s1 assms(1,2)
    by (auto simp: worker_step_def start_run_def use_motion_cache_def Let_def out_defs split: prod.splits if_splits)
  obtain o2 w2 where s2: "worker_step cfg w1 (Line entry0 sz0 rd0) = (o2, w2)" by force
  have w2: "w_running w2" "\<not> w_caching w2" "out_completed o2 = []"
    "\<exists>p. w_prev w2 = Some p \<and> ps_start p = the (wc_parse cfg (filename_of entry0))"
    using s2 w1 assms(4) by (auto simp: worker_step_def segment_line_def Let_def out_defs)
  then obtain p where p: "w_prev w2 = Some p" "ps_start p = the (wc_parse cfg (filename_of entry0))"
    by blast
  obtain o3 w3 where s3: "run_machine (worker_step cfg) w2 (lines_of xs) = (o3, w3)" by force
  obtain q where q: "w_prev w3 = Some q" "w_running w3" "\<not> w_caching w3"
    "map ps_start (completed o3) @ [ps_start q] = starts" "map ps_end (completed o3) = tl starts"
    using lines_run [OF w2(1,2) p(1) _ s3] assms(4,5) p(2) by auto
  obtain o4 w4 where s4: "worker_step cfg w3 (EndRun mtime sz rd) = (o4, w4)" by force
  have "\<exists>s. out_completed o4 = [s] \<and> ps_start s = ps_start q \<and> 0 < ps_end s - ps_start s \<and>
      ps_end s - ps_start s \<le> seconds (2 * int (wc_segment_seconds cfg))"
    using s4 q(1,2) assms(3)
    by (auto simp: worker_step_def end_run_def Let_def finish_worker_eq out_defs
        clamp_recovered_end_ts_def seconds_def split: option.splits)
  then obtain s where s: "out_completed o4 = [s]" "ps_start s = ps_start q"
    "0 < ps_end s - ps_start s"
    "ps_end s - ps_start s \<le> seconds (2 * int (wc_segment_seconds cfg))" by blast
  have "completed outs = completed o3 @ [s]"
    using assms(6) s1 s2 s3 s4 w1(4) w2(3) s(1) by (auto simp: run_machine_append)
  then show ?thesis using q(4,5) s by (simp add: butlast_append)
qed

theorem run_covers_its_time_witness:
  "let cfg = demo_config\<lparr>wc_mode := Continuous\<rparr>; rd = demo_readings [] True;
       (outs, w') = run_machine (worker_step cfg) (worker_new 5 5)
          ([StartRun True, Line ''a.mp4'' None rd] @ lines_of [(''b.mp4'', Some 9, rd), (''c.mp4'', None, rd)]
           @ [EndRun (Some 9000000000) (Some 7) rd])
   in map ps_start (completed outs) = [0, 4000000000, 8000000000] \<and>
      butlast (map ps_end (completed outs)) = [4000000000, 8000000000]"
proof -
  let ?cfg = "demo_config\<lparr>wc_mode := Continuous\<rparr>"
  let ?rd = "demo_readings [] True"
  let ?xs = "[(''b.mp4'', Some 9, ?rd), (''c.mp4'', None, ?rd)]"
  let ?run = "run_machine (worker_step ?cfg) (worker_new 5 5)
    ([StartRun True, Line ''a.mp4'' None ?rd] @ lines_of ?xs @ [EndRun (Some 9000000000) (Some 7) ?rd])"
  have "map ps_start (completed (fst ?run)) = [0, 4000000000, 8000000000] \<and>
      butlast (map ps_end (completed (fst ?run))) = tl [0, 4000000000, 8000000000]"
    using run_covers_its_time [of "worker_new 5 5" ?cfg "''a.mp4''" None ?rd ?xs
        "[0, 4000000000, 8000000000]" True "Some 9000000000" "Some 7" ?rd "fst ?run" "snd ?run"]
    by (simp add: worker_new_def demo_config_def filename_of_def)
  then show ?thesis by (simp add: Let_def split_beta)
qed

text \<open>Fail-open. A completed segment of a motion camera whose detector is unhealthy while the
  cache is in use is persisted together with the whole ring, oldest first; nothing is discarded,
  the state of the buffer is untouched, and the signals that arrived still reach the union, so its
  open events stay exact for the thaw.\<close>

theorem unhealthy_detector_keeps_everything:
  assumes "fi_mode i = Motion" and "fi_caching i" and "\<not> fi_healthy i"
    and "finish_decide c i = (v, c')"
  shows "fv_actual v = \<lparr>persist = pending (cap_buf c) @ [fi_completed i], discard = []\<rparr> \<and>
    cap_buf c' = (cap_buf c)\<lparr>pending := []\<rparr> \<and>
    u_open (cap_union c') = foldl open_after (u_open (cap_union c)) (fi_rx i)"
proof -
  obtain sigs b1 u1 acc where d: "drain_and_persist_motion (fi_rx i) (cap_signals c) False
      (cap_buf c) (cap_union c) decision_empty = (sigs, b1, u1, acc)" by (rule drain_obtain)
  have "fst (finish_decide c i) = v" "snd (finish_decide c i) = c'" using assms(4) by simp_all
  then show ?thesis using finish_open [OF assms(4)] unfolding finish_fail_open [OF assms(1-3) d]
    by auto
qed

theorem unhealthy_detector_keeps_everything_witness:
  "let seg = (\<lambda>n t. \<lparr>ps_path = [''cache'', n], ps_start = t, ps_end = t + 4, ps_size = 10\<rparr>);
       c = (capture_new 5 5)\<lparr>cap_buf := (buffer_new 5 5)\<lparr>pending := [seg ''a'' 0]\<rparr>\<rparr>;
       i = \<lparr>fi_mode = Motion, fi_caching = True, fi_healthy = False, fi_rx = [demo_start],
            fi_write_dir = Some [''cache''], fi_space = None, fi_completed = seg ''b'' 4\<rparr>
   in persist (fv_actual (fst (finish_decide c i))) = [seg ''a'' 0, seg ''b'' 4]"
proof -
  let ?seg = "\<lambda>n t. \<lparr>ps_path = [''cache'', n], ps_start = t, ps_end = t + 4, ps_size = 10\<rparr>"
  let ?c = "(capture_new 5 5)\<lparr>cap_buf := (buffer_new 5 5)\<lparr>pending := [?seg ''a'' 0]\<rparr>\<rparr>"
  let ?i = "\<lparr>fi_mode = Motion, fi_caching = True, fi_healthy = False, fi_rx = [demo_start],
            fi_write_dir = Some [''cache''], fi_space = None, fi_completed = ?seg ''b'' 4\<rparr>"
  show ?thesis
    using unhealthy_detector_keeps_everything [of ?i ?c "fst (finish_decide ?c ?i)"
        "snd (finish_decide ?c ?i)"] by (simp add: Let_def)
qed

text \<open>The spill valve opens before the cache is out of space. With byte counts that fit an i64
  and a segment of known size, whenever the free space of the cache cannot hold one more segment,
  or even two, the spill check fires; so the ring is always flushed to storage before the worker
  has to abandon the cache.\<close>

theorem spill_precedes_enospc:
  assumes "0 < total_bytes" and "0 < seg" and "2 * seg \<le> i64_max" and "free_bytes \<le> i64_max"
    and "cache_enospc_reached free_bytes seg \<or> free_bytes < 2 * seg"
    and "buf_state b = Idle"
  shows "spill_oldest_if_under_pressure (Some (free_bytes, total_bytes)) b seg =
     (pending b, b\<lparr>pending := []\<rparr>)"
proof -
  have "should_spill_cache free_bytes total_bytes seg"
    using assms(5)
  proof
    assume "cache_enospc_reached free_bytes seg"
    then show ?thesis using assms spill_before_enospc by blast
  next
    assume "free_bytes < 2 * seg"
    then show ?thesis using assms should_spill_room [of free_bytes total_bytes seg] by force
  qed
  then show ?thesis using assms(6)
    by (cases "pending b = []") (simp_all add: spill_oldest_if_under_pressure_def)
qed

theorem spill_precedes_enospc_witness:
  "let seg = \<lparr>ps_path = [''cache'', ''a''], ps_start = 0, ps_end = 4, ps_size = 3000000\<rparr>;
       b = (buffer_new 5 5)\<lparr>pending := [seg]\<rparr>
   in spill_oldest_if_under_pressure (Some (4000000, 67108864)) b 3000000 = ([seg], buffer_new 5 5)"
  using spill_precedes_enospc [of 67108864 3000000 4000000
      "(buffer_new 5 5)\<lparr>pending := [\<lparr>ps_path = [''cache'', ''a''], ps_start = 0, ps_end = 4, ps_size = 3000000\<rparr>]\<rparr>"]
  by (simp add: Let_def i64_max_def buffer_new_def)

end
