(* ===== verification/Supervisor.thy ===== *)
theory Supervisor
  imports F64
begin

text \<open>
  The supervisor of one recording worker: the retry loop of \<open>run\<close> in
  \<open>services/recorder/src/recording.rs\<close>, with the classification of a failed ffmpeg run, the
  bounds of the stall watchdog, and the resolution of the live storage with its cached row.

  \<open>supervise\<close> is one iteration of the loop after \<open>run_ffmpeg_loop\<close> has returned: it takes the
  out-parameters of that run and gives the delay slept before the next one (or the exit) and
  whether the \<open>stream_no_segments\<close> event is raised. The code also looks for a cancellation at the top of
  the loop and while it sleeps; here it is seen in the report of the run only, so the loop may do one
  more run than the code before it exits.
\<close>

datatype failure_class = ColdStartNotReady | SteadyState

definition classify_failure :: "bool \<Rightarrow> bool \<Rightarrow> failure_class" where
  "classify_failure saw_segment eof_no_data =
     (if \<not> saw_segment \<and> eof_no_data then ColdStartNotReady else SteadyState)"

definition backoff_init :: int where "backoff_init = 1"
definition backoff_max :: int where "backoff_max = 30"
definition backoff_factor :: int where "backoff_factor = 2"
definition cold_start_retry_delay :: int where "cold_start_retry_delay = 2"
definition cold_start_max_fast_retries :: nat where "cold_start_max_fast_retries = 15"
definition no_segment_stall_alert_threshold :: nat where "no_segment_stall_alert_threshold = 3"
definition segment_receipt_timeout_secs :: int where "segment_receipt_timeout_secs = 90"
definition min_segment_receipt_timeout_secs :: int where "min_segment_receipt_timeout_secs = 20"
definition max_segment_receipt_timeout_secs :: int where "max_segment_receipt_timeout_secs = 3600"

lemmas supervisor_consts = backoff_init_def backoff_max_def backoff_factor_def
  cold_start_retry_delay_def cold_start_max_fast_retries_def no_segment_stall_alert_threshold_def
  segment_receipt_timeout_secs_def min_segment_receipt_timeout_secs_def
  max_segment_receipt_timeout_secs_def

definition clamp_segment_receipt_timeout_secs :: "int option \<Rightarrow> int" where
  "clamp_segment_receipt_timeout_secs raw =
     (case raw of
        Some s \<Rightarrow> min (max s min_segment_receipt_timeout_secs) max_segment_receipt_timeout_secs
      | None \<Rightarrow> segment_receipt_timeout_secs)"

subsection \<open>The keyframe probe\<close>

text \<open>\<open>windows(2)\<close> of the keyframe times and the largest gap between neighbours.\<close>

fun max_gap_loop :: "f64 \<Rightarrow> f64 list \<Rightarrow> f64" where
  "max_gap_loop g (a # b # rest) =
     (let gap = round_f64 (b - a) in max_gap_loop (if g < gap then gap else g) (b # rest))"
| "max_gap_loop g _ = g"

definition keyframe_interval :: "f64 list \<Rightarrow> f64 option" where
  "keyframe_interval kf_times =
     (if length kf_times < 2 then None
      else let max_gap = max_gap_loop 0 kf_times in if 0 < max_gap then Some max_gap else None)"

text \<open>The background task publishes with \<open>fetch_max\<close>.\<close>

definition publish_watchdog :: "int \<Rightarrow> int \<Rightarrow> f64 option \<Rightarrow> int" where
  "publish_watchdog configured watchdog_secs probe =
     (case probe of
        None \<Rightarrow> watchdog_secs
      | Some gop \<Rightarrow>
          (let floor_secs = max \<lceil>f64_mul gop 2\<rceil> 0;
               effective = min (max configured floor_secs) max_segment_receipt_timeout_secs
           in max watchdog_secs effective))"

subsection \<open>The retry loop\<close>

record supervisor =
  backoff :: int
  cold_start_retries :: nat
  consecutive_no_seg_stalls :: nat

record run_report =
  saw_segment :: bool
  eof_no_data :: bool
  watchdog_stalled :: bool
  run_failed :: bool
  cancelled :: bool

datatype verdict = Exit | RetryAfter int

definition supervisor_new :: supervisor where
  "supervisor_new =
     \<lparr>backoff = backoff_init, cold_start_retries = 0, consecutive_no_seg_stalls = 0\<rparr>"

definition note_health :: "supervisor \<Rightarrow> run_report \<Rightarrow> supervisor" where
  "note_health s r =
     (if saw_segment r
      then s\<lparr>backoff := backoff_init, cold_start_retries := 0, consecutive_no_seg_stalls := 0\<rparr>
      else s)"

definition note_stall :: "supervisor \<Rightarrow> run_report \<Rightarrow> bool \<times> supervisor" where
  "note_stall s r =
     (if watchdog_stalled r \<and> \<not> saw_segment r
      then (let n = consecutive_no_seg_stalls s + 1
            in (n = no_segment_stall_alert_threshold, s\<lparr>consecutive_no_seg_stalls := n\<rparr>))
      else (False, s))"

definition retry_decision :: "supervisor \<Rightarrow> run_report \<Rightarrow> verdict \<times> supervisor" where
  "retry_decision s r =
     (if \<not> run_failed r then (Exit, s)
      else if cancelled r then (Exit, s)
      else
        (let class = classify_failure (saw_segment r) (eof_no_data r);
             use_fast_retry = (class = ColdStartNotReady
               \<and> cold_start_retries s < cold_start_max_fast_retries)
         in if use_fast_retry
            then (RetryAfter cold_start_retry_delay,
                  s\<lparr>cold_start_retries := cold_start_retries s + 1\<rparr>)
            else (RetryAfter (backoff s),
                  s\<lparr>cold_start_retries := 0,
                    backoff := min (backoff s * backoff_factor) backoff_max\<rparr>)))"

definition supervise :: "supervisor \<Rightarrow> run_report \<Rightarrow> (verdict \<times> bool) \<times> supervisor" where
  "supervise s r =
     (let s1 = note_health s r; (alert, s2) = note_stall s1 r; (v, s3) = retry_decision s2 r
      in ((v, alert), s3))"

lemmas supervise_defs = supervise_def note_health_def note_stall_def retry_decision_def
  classify_failure_def Let_def

subsection \<open>Live storage\<close>

record storage_row =
  st_id :: uuid
  st_path :: path

datatype storage_error = NotFound uuid | NameNotFound | DbError string

text \<open>A DB call gives an error or an answer. The policy path asks for one row by id, the
  default path for the rows with the configured name.\<close>

definition resolve_live_storage ::
  "(uuid \<Rightarrow> string + storage_row option) \<Rightarrow> (string \<Rightarrow> string + storage_row list) \<Rightarrow> string \<Rightarrow>
   uuid option \<Rightarrow> storage_row option \<Rightarrow> (storage_error + storage_row) \<times> storage_row option" where
  "resolve_live_storage get_storage find_by_name live_name policy_sid cache =
     (let resolved =
        (case policy_sid of
           Some sid \<Rightarrow>
             (case get_storage sid of
                Inr (Some s) \<Rightarrow> Inr s
              | Inr None \<Rightarrow> Inl (NotFound sid)
              | Inl e \<Rightarrow>
                  (case cache of
                     Some prev \<Rightarrow> (if st_id prev = sid then Inr prev else Inl (DbError e))
                   | None \<Rightarrow> Inl (DbError e)))
         | None \<Rightarrow>
             (case find_by_name live_name of
                Inr candidates \<Rightarrow>
                  (case candidates of [] \<Rightarrow> Inl NameNotFound | first # _ \<Rightarrow> Inr first)
              | Inl e \<Rightarrow> (case cache of Some prev \<Rightarrow> Inr prev | None \<Rightarrow> Inl (DbError e))))
      in case resolved of Inl e \<Rightarrow> (Inl e, cache) | Inr s \<Rightarrow> (Inr s, Some s))"

definition audio_segmenter_args :: "bool \<Rightarrow> string list" where
  "audio_segmenter_args record_audio =
     (if \<not> record_audio then [''-an'']
      else [''-af'', ''aresample=async=1:first_pts=0'', ''-c:a'', ''aac'', ''-ar'', ''48000''])"

subsection \<open>Lemmas\<close>

definition supervisor_ok :: "supervisor \<Rightarrow> bool" where
  "supervisor_ok s \<longleftrightarrow> backoff_init \<le> backoff s \<and> backoff s \<le> backoff_max
     \<and> cold_start_retries s \<le> cold_start_max_fast_retries"

lemma supervise_ok: "supervisor_ok s \<Longrightarrow> supervise s r = (out, s') \<Longrightarrow> supervisor_ok s'"
  by (auto simp: supervise_defs supervisor_ok_def supervisor_consts split: if_splits)

interpretation worker: guarded_machine supervise supervisor_ok "\<lambda>_. True"
  by unfold_locales (rule supervise_ok)

lemma supervisor_new_ok: "supervisor_ok supervisor_new"
  by (simp add: supervisor_ok_def supervisor_new_def supervisor_consts)

lemma supervise_delay:
  assumes "supervisor_ok s" and "supervise s r = ((RetryAfter d, alert), s')"
  shows "backoff_init \<le> d \<and> d \<le> backoff_max"
  using assms by (auto simp: supervise_defs supervisor_ok_def supervisor_consts split: if_splits)

text \<open>A run that failed fast without a single segment and was not cancelled.\<close>

definition cold_failure :: run_report where
  "cold_failure = \<lparr>saw_segment = False, eof_no_data = True, watchdog_stalled = False,
     run_failed = True, cancelled = False\<rparr>"

lemma supervise_cold_fast:
  "cold_start_retries s < cold_start_max_fast_retries \<Longrightarrow>
   supervise s cold_failure =
     ((RetryAfter cold_start_retry_delay, False), s\<lparr>cold_start_retries := cold_start_retries s + 1\<rparr>)"
  by (simp add: supervise_defs cold_failure_def)

lemma supervise_cold_slow:
  "\<not> cold_start_retries s < cold_start_max_fast_retries \<Longrightarrow>
   supervise s cold_failure =
     ((RetryAfter (backoff s), False),
      s\<lparr>cold_start_retries := 0, backoff := min (backoff s * backoff_factor) backoff_max\<rparr>)"
  by (simp add: supervise_defs cold_failure_def)

lemma cold_run_fast:
  "cold_start_retries s + n \<le> cold_start_max_fast_retries \<Longrightarrow>
   run_machine supervise s (replicate n cold_failure) =
     (replicate n (RetryAfter cold_start_retry_delay, False),
      s\<lparr>cold_start_retries := cold_start_retries s + n\<rparr>)"
proof (induction n arbitrary: s)
  case 0
  then show ?case by simp
next
  case (Suc n)
  then show ?case by (simp add: supervise_cold_fast)
qed

lemma cold_run_cycle:
  assumes "cold_start_retries s = 0"
  shows "run_machine supervise s (replicate 16 cold_failure) =
     (replicate 15 (RetryAfter cold_start_retry_delay, False) @ [(RetryAfter (backoff s), False)],
      s\<lparr>backoff := min (backoff s * backoff_factor) backoff_max\<rparr>)"
proof -
  have sp: "replicate 16 cold_failure = replicate 15 cold_failure @ replicate 1 cold_failure"
    by (simp only: replicate_add [symmetric]) simp
  have f: "run_machine supervise s (replicate 15 cold_failure) =
      (replicate 15 (RetryAfter cold_start_retry_delay, False), s\<lparr>cold_start_retries := 15\<rparr>)"
    using cold_run_fast [of s 15] assms by (simp add: cold_start_max_fast_retries_def)
  show ?thesis
    using assms unfolding sp run_machine_append
    by (simp only: f prod.case Let_def) (simp add: supervise_cold_slow cold_start_max_fast_retries_def)
qed

subsection \<open>Properties\<close>

text \<open>C35. Reconnect delays are bounded and a worker never gives up. Starting a worker, after
  any sequence of failed runs that were not cancelled, every delay lies between one second and
  thirty, and the worker exits exactly when the next run returned cleanly or was cancelled.\<close>

theorem retry_bounded_and_persistent:
  assumes "run_machine supervise supervisor_new rs = (outs, s)"
  shows "(\<exists>d alert s'. supervise s r = ((RetryAfter d, alert), s') \<and> 1 \<le> d \<and> d \<le> 30)
         \<longleftrightarrow> run_failed r \<and> \<not> cancelled r"
proof -
  have ok: "supervisor_ok s"
    using worker.run_inv [OF supervisor_new_ok _ assms] by (simp add: list_all_iff)
  obtain v alert s' where st: "supervise s r = ((v, alert), s')" by (metis prod.exhaust)
  have "v = Exit \<longleftrightarrow> \<not> (run_failed r \<and> \<not> cancelled r)"
    using st by (auto simp: supervise_defs split: if_splits)
  moreover have "1 \<le> d \<and> d \<le> 30" if "v = RetryAfter d" for d
    using supervise_delay [OF ok] st that by (simp add: supervisor_consts)
  ultimately show ?thesis using st by (cases v) auto
qed

theorem retry_bounded_and_persistent_witness:
  "\<exists>d alert s'. supervise (snd (run_machine supervise supervisor_new (replicate 20 cold_failure)))
      cold_failure = ((RetryAfter d, alert), s') \<and> 1 \<le> d \<and> d \<le> 30"
  using retry_bounded_and_persistent
    [of "replicate 20 cold_failure" "fst (run_machine supervise supervisor_new (replicate 20 cold_failure))"
        "snd (run_machine supervise supervisor_new (replicate 20 cold_failure))" cold_failure]
  by (simp add: cold_failure_def)

text \<open>The fast-retry budget refills. A stream that fails before its first segment on
  every attempt gets fifteen two-second retries, one backoff sleep, and then the fast retries
  again: after each sixteen failures the counter is back at zero and only the backoff has
  doubled (up to its cap). The comment on \<open>classify_failure\<close> promises fifteen fast retries in
  total before the exponential backoff takes over; the code gives fifteen per backoff step.\<close>

theorem cold_start_budget_refills:
  assumes "run_machine supervise supervisor_new (concat (replicate k (replicate 16 cold_failure)))
             = (outs, s)"
  shows "cold_start_retries s = 0 \<and> backoff s = min (2 ^ k) 30 \<and>
    length (filter (\<lambda>o'. o' = (RetryAfter 2, False)) outs) \<ge> 15 * k \<and> length outs = 16 * k"
proof -
  have "fst (run_machine supervise s0 (concat (replicate k (replicate 16 cold_failure)))) = outs' \<longrightarrow>
      snd (run_machine supervise s0 (concat (replicate k (replicate 16 cold_failure)))) = s' \<longrightarrow>
      cold_start_retries s0 = 0 \<longrightarrow> 1 \<le> backoff s0 \<longrightarrow> backoff s0 \<le> 30 \<longrightarrow>
      cold_start_retries s' = 0 \<and> backoff s' = min (backoff s0 * 2 ^ k) 30 \<and>
      length (filter (\<lambda>o'. o' = (RetryAfter 2, False)) outs') \<ge> 15 * k \<and> length outs' = 16 * k"
    for s0 s' outs'
  proof (induction k arbitrary: s0 s' outs')
    case 0
    then show ?case by auto
  next
    case (Suc k)
    let ?s1 = "s0\<lparr>backoff := min (backoff s0 * backoff_factor) backoff_max\<rparr>"
    show ?case
    proof (intro impI)
      assume a: "fst (run_machine supervise s0 (concat (replicate (Suc k) (replicate 16 cold_failure)))) = outs'"
        "snd (run_machine supervise s0 (concat (replicate (Suc k) (replicate 16 cold_failure)))) = s'"
        and z: "cold_start_retries s0 = 0" "1 \<le> backoff s0" "backoff s0 \<le> 30"
      obtain o2 s2 where r: "run_machine supervise ?s1 (concat (replicate k (replicate 16 cold_failure))) = (o2, s2)"
        by force
      have IH: "cold_start_retries s2 = 0" "backoff s2 = min (backoff ?s1 * 2 ^ k) 30"
        "length (filter (\<lambda>o'. o' = (RetryAfter 2, False)) o2) \<ge> 15 * k" "length o2 = 16 * k"
        using Suc.IH [of ?s1 o2 s2] r z by (auto simp: supervisor_consts)
      have eq: "outs' = (replicate 15 (RetryAfter cold_start_retry_delay, False) @
            [(RetryAfter (backoff s0), False)]) @ o2" "s' = s2"
        using a cold_run_cycle [OF z(1)] r
        by (simp_all only: replicate_Suc concat.simps run_machine_append prod.case Let_def fst_conv snd_conv)
      have "min (backoff ?s1 * 2 ^ k) 30 = min (backoff s0 * 2 ^ Suc k) 30"
      proof (cases "backoff s0 * 2 \<le> 30")
        case True
        then show ?thesis by (simp add: supervisor_consts)
      next
        case False
        then have "15 * 1 \<le> backoff s0 * 2 ^ k" by (intro mult_mono) auto
        moreover have "15 * 1 \<le> 15 * (2::int) ^ k" by (intro mult_mono) auto
        ultimately show ?thesis using False
          by (simp add: supervisor_consts min.absorb2 min_absorb2 del: mult_le_cancel_left)
      qed
      then show "cold_start_retries s' = 0 \<and> backoff s' = min (backoff s0 * 2 ^ Suc k) 30 \<and>
        length (filter (\<lambda>o'. o' = (RetryAfter 2, False)) outs') \<ge> 15 * Suc k \<and> length outs' = 16 * Suc k"
        using IH eq by (simp add: cold_start_retry_delay_def)
    qed
  qed
  from this [of supervisor_new outs s] show ?thesis
    using assms by (simp add: supervisor_new_def supervisor_consts)
qed

theorem cold_start_budget_refills_witness:
  "cold_start_retries (snd (run_machine supervise supervisor_new
      (concat (replicate 6 (replicate 16 cold_failure))))) = 0 \<and>
   backoff (snd (run_machine supervise supervisor_new
      (concat (replicate 6 (replicate 16 cold_failure))))) = 30"
  using cold_start_budget_refills [of 6, OF surjective_pairing] by simp

text \<open>A database outage never redirects footage. When the database answers a lookup by
  id with the row of that id and the policy pins a storage, then whatever is resolved, from the
  database or from the cached row, is that storage; the answer "row gone" is an error the cache
  does not mask; and an outage with that storage cached still resolves it.\<close>

theorem pinned_storage_never_redirected:
  assumes "\<And>i s. get_storage i = Inr (Some s) \<Longrightarrow> st_id s = i"
    and "resolve_live_storage get_storage find_by_name nm (Some sid) cache = (res, cache')"
  shows "(case res of Inr s \<Rightarrow> st_id s = sid \<and> cache' = Some s | Inl _ \<Rightarrow> cache' = cache) \<and>
    (get_storage sid = Inr None \<longrightarrow> res = Inl (NotFound sid)) \<and>
    (\<forall>e prev. get_storage sid = Inl e \<and> cache = Some prev \<and> st_id prev = sid \<longrightarrow> res = Inr prev)"
  using assms
  by (auto simp: resolve_live_storage_def Let_def split: sum.splits option.splits if_splits)

theorem pinned_storage_never_redirected_witness:
  "let down = (\<lambda>_. Inl ''connection refused'');
       disk = \<lparr>st_id = 7, st_path = [''media'', ''disk1'']\<rparr>
   in fst (resolve_live_storage down (\<lambda>_. Inr []) ''live'' (Some 7) (Some disk)) = Inr disk \<and>
      fst (resolve_live_storage (\<lambda>i. Inr None) (\<lambda>_. Inr []) ''live'' (Some 7) (Some disk))
        = Inl (NotFound 7)"
proof -
  let ?disk = "\<lparr>st_id = 7, st_path = [''media'', ''disk1'']\<rparr>"
  have "fst (resolve_live_storage (\<lambda>_. Inl ''connection refused'') (\<lambda>_. Inr []) ''live'' (Some 7) (Some ?disk))
      = Inr ?disk"
    using pinned_storage_never_redirected [of "\<lambda>_. Inl ''connection refused''" "\<lambda>_. Inr []" "''live''" 7
        "Some ?disk", OF _ surjective_pairing] by simp
  moreover have "fst (resolve_live_storage (\<lambda>i. Inr None) (\<lambda>_. Inr []) ''live'' (Some 7) (Some ?disk))
      = Inl (NotFound 7)"
    using pinned_storage_never_redirected [of "\<lambda>_. Inr None" "\<lambda>_. Inr []" "''live''" 7
        "Some ?disk", OF _ surjective_pairing] by simp
  ultimately show ?thesis by (simp add: Let_def)
qed

end
