(* ===== verification/Vault.thy ===== *)
theory Vault
  imports CacheStore Supervisor
begin

text \<open>
  The world of the archiver (\<open>services/recorder/src/archive.rs\<close>) and the move of one segment from
  live to archive storage.

  \<^item> \<open>disk\<close> maps the identity of a file (the device and inode its path resolves to,
    given by \<open>ve_canon\<close>) to its bytes, so two storage rows on one directory or a symlink reach the
    same file. \<open>synced\<close> holds the files that were fsynced together with their directory entry.
  \<^item> \<open>index\<close> is the \<open>segments\<close> table; \<open>tripped\<close> is the process-wide set of latched roots.
  \<^item> Every call that can fail draws one outcome from \<open>ve_fault\<close>. \<open>Mangled b\<close> is the silent
    corruption of a write: the call reports success and \<open>b\<close> is on the disk. The stat calls of
    \<open>same_file\<close> and \<open>same_filesystem\<close> draw from \<open>ve_stat_fails\<close>.
  \<^item> Parameters: the CRC of crc32fast, the rendering of camera ids (uuid) and dates (chrono), the
    answers of \<open>statvfs\<close> and \<open>stat\<close>, and the storages, bookmarks and effective policies in the
    database (\<open>v_camera_effective_policy\<close>). \<open>ve_now\<close> is the clock of a sweep and \<open>ve_late\<close> says
    whether the run's deadline has passed.
\<close>

datatype disk_fault = Good | Broken bool "nat option" | Mangled bytes

record segment =
  sg_id :: uuid
  sg_camera :: uuid
  sg_storage :: uuid
  sg_stage :: segment_stage
  sg_path :: path
  sg_start :: instant
  sg_end :: instant
  sg_size :: i64

record bookmark =
  bk_camera :: uuid
  bk_start :: instant
  bk_end :: instant
  bk_until :: instant

record vault =
  disk :: "path \<Rightarrow> bytes option"
  synced :: "path set"
  index :: "segment list"
  tripped :: "path list"
  events :: "(string \<times> uuid option) list"
  draws :: nat

record recording_policy =
  pol_id :: uuid
  pol_live_storage_id :: "uuid option"
  pol_live_retention_hours :: int
  pol_archive_enabled :: bool
  pol_archive_storage_id :: "uuid option"
  pol_archive_schedule :: "string option"
  pol_archive_retention_hours :: "int option"
  pol_live_max_bytes :: "i64 option"
  pol_archive_max_bytes :: "i64 option"
  pol_live_min_free_pct :: "f32 option"
  pol_live_min_free_bytes :: "i64 option"
  pol_live_spill_low_water_bytes :: "i64 option"
  pol_max_retention_days :: "int option"

record vault_env =
  ve_fault :: "nat \<Rightarrow> disk_fault"
  ve_stat_fails :: "nat \<Rightarrow> bool"
  ve_now :: instant
  ve_late :: "nat \<Rightarrow> bool"
  ve_storages :: "storage_row list"
  ve_bookmarks :: "bookmark list"
  ve_policy_of :: "uuid \<Rightarrow> recording_policy option"
  ve_canon :: "path \<Rightarrow> path"
  ve_dev :: "path \<Rightarrow> nat option"
  ve_statvfs :: "path \<Rightarrow> (i64 \<times> i64) option"
  ve_crc :: "bytes \<Rightarrow> nat"
  ve_uuid_string :: "uuid \<Rightarrow> string"
  ve_date :: "instant \<Rightarrow> string \<times> string \<times> string"
  ve_reconcile_tripped :: "path \<Rightarrow> bool"
  ve_env_fraction :: "rat option"
  ve_env_bytes :: "int option"
  ve_config_live :: "storage_row option"

datatype move_error = StorageFull | OtherError

subsection \<open>Primitive operations\<close>

definition draw :: "vault_env \<Rightarrow> vault \<Rightarrow> disk_fault \<times> vault" where
  "draw e w = (ve_fault e (draws w), w\<lparr>draws := draws w + 1\<rparr>)"

fun broken :: "disk_fault \<Rightarrow> bool" where
  "broken (Broken _ _) = True"
| "broken _ = False"

text \<open>\<open>is_storage_full_or_readonly\<close> of the error a broken call returns.\<close>

fun err_of :: "disk_fault \<Rightarrow> move_error" where
  "err_of (Broken True _) = StorageFull"
| "err_of _ = OtherError"

definition stat :: "vault_env \<Rightarrow> path \<Rightarrow> vault \<Rightarrow> path option \<times> vault" where
  "stat e p w =
     (if ve_stat_fails e (draws w) \<or> disk w (ve_canon e p) = None then None else Some (ve_canon e p),
      w\<lparr>draws := draws w + 1\<rparr>)"

definition same_file :: "vault_env \<Rightarrow> path \<Rightarrow> path \<Rightarrow> vault \<Rightarrow> bool \<times> vault" where
  "same_file e a b w =
     (let (ma, w1) = stat e a w; (mb, w2) = stat e b w1
      in (ma \<noteq> None \<and> ma = mb, w2))"

definition stat_dev :: "vault_env \<Rightarrow> path \<Rightarrow> vault \<Rightarrow> nat option \<times> vault" where
  "stat_dev e p w =
     (if ve_stat_fails e (draws w) then None else ve_dev e p, w\<lparr>draws := draws w + 1\<rparr>)"

definition same_filesystem :: "vault_env \<Rightarrow> path \<Rightarrow> path \<Rightarrow> vault \<Rightarrow> bool \<times> vault" where
  "same_filesystem e a b w =
     (let (ma, w1) = stat_dev e a w; (mb, w2) = stat_dev e b w1
      in (ma \<noteq> None \<and> ma = mb, w2))"

definition metadata_len :: "vault_env \<Rightarrow> path \<Rightarrow> vault \<Rightarrow> nat option \<times> vault" where
  "metadata_len e p w =
     (let (f, w1) = draw e w
      in (if broken f then None else map_option length (disk w (ve_canon e p)), w1))"

text \<open>\<open>try_exists\<close>: \<open>None\<close> is an error of the call.\<close>

definition file_exists :: "vault_env \<Rightarrow> path \<Rightarrow> vault \<Rightarrow> bool option \<times> vault" where
  "file_exists e p w =
     (let (f, w1) = draw e w
      in (if broken f then None else Some (disk w (ve_canon e p) \<noteq> None), w1))"

datatype removal = Removed | Absent | RemoveFailed move_error

definition unlink :: "vault_env \<Rightarrow> path \<Rightarrow> vault \<Rightarrow> removal \<times> vault" where
  "unlink e p w =
     (let (f, w1) = draw e w in
      if broken f then (RemoveFailed (err_of f), w1)
      else if disk w (ve_canon e p) = None then (Absent, w1)
      else (Removed, w1\<lparr>disk := (disk w)(ve_canon e p := None),
                        synced := synced w - {ve_canon e p}\<rparr>))"

definition create_dir_all :: "vault_env \<Rightarrow> vault \<Rightarrow> (move_error + unit) \<times> vault" where
  "create_dir_all e w = (let (f, w1) = draw e w in (if broken f then Inl (err_of f) else Inr (), w1))"

definition put_file :: "path \<Rightarrow> bytes \<Rightarrow> vault \<Rightarrow> vault" where
  "put_file q b w = w\<lparr>disk := (disk w)(q \<mapsto> b), synced := synced w - {q}\<rparr>"

text \<open>
  \<open>File::create\<close> truncates the destination before the first read, so a copy of a file onto
  itself reads nothing. A failure leaves the destination alone (open or create failed) or a prefix.
\<close>

definition copy_with_crc32 ::
  "vault_env \<Rightarrow> path \<Rightarrow> path \<Rightarrow> vault \<Rightarrow> (move_error + nat \<times> nat) \<times> vault" where
  "copy_with_crc32 e src dst w =
     (let (same, w1) = same_file e src dst w in
      if same then (Inl OtherError, w1)
      else let (f, w2) = draw e w1 in
        case disk w (ve_canon e src) of
          None \<Rightarrow> (Inl OtherError, w2)
        | Some b0 \<Rightarrow>
            let b = (if ve_canon e src = ve_canon e dst then [] else b0) in
            (case f of
               Good \<Rightarrow> (Inr (length b, ve_crc e b), put_file (ve_canon e dst) b w2)
             | Mangled m \<Rightarrow> (Inr (length b, ve_crc e b), put_file (ve_canon e dst) m w2)
             | Broken _ None \<Rightarrow> (Inl (err_of f), w2)
             | Broken _ (Some k) \<Rightarrow> (Inl (err_of f), put_file (ve_canon e dst) (take k b) w2)))"

definition crc32_of_file :: "vault_env \<Rightarrow> path \<Rightarrow> vault \<Rightarrow> (move_error + nat) \<times> vault" where
  "crc32_of_file e p w =
     (let (f, w1) = draw e w in
      if broken f then (Inl (err_of f), w1)
      else case disk w (ve_canon e p) of
             None \<Rightarrow> (Inl OtherError, w1)
           | Some b \<Rightarrow> (Inr (ve_crc e b), w1))"

definition fsync_file_and_parent_dir :: "vault_env \<Rightarrow> path \<Rightarrow> vault \<Rightarrow> (move_error + unit) \<times> vault" where
  "fsync_file_and_parent_dir e p w =
     (let (f, w1) = draw e w in
      if broken f then (Inl (err_of f), w1)
      else if disk w (ve_canon e p) = None then (Inl OtherError, w1)
      else let (g, w2) = draw e w1 in
        if broken g then (Inl (err_of g), w2)
        else (Inr (), w2\<lparr>synced := insert (ve_canon e p) (synced w)\<rparr>))"

definition archived :: "uuid \<Rightarrow> path \<Rightarrow> segment \<Rightarrow> segment" where
  "archived storage rel s = s\<lparr>sg_storage := storage, sg_stage := ArchiveStage, sg_path := rel\<rparr>"

text \<open>The \<open>UPDATE\<close> and its \<open>ensure!(updated == 1)\<close>.\<close>

definition update_segment_archive ::
  "vault_env \<Rightarrow> uuid \<Rightarrow> uuid \<Rightarrow> path \<Rightarrow> vault \<Rightarrow> (move_error + unit) \<times> vault" where
  "update_segment_archive e i storage rel w =
     (let (f, w1) = draw e w in
      if broken f then (Inl OtherError, w1)
      else let w2 = w1\<lparr>index := map (\<lambda>s. if sg_id s = i then archived storage rel s else s) (index w)\<rparr> in
        (if length (filter (\<lambda>s. sg_id s = i) (index w)) = 1 then Inr () else Inl OtherError, w2))"

definition delete_segment_row :: "vault_env \<Rightarrow> uuid \<Rightarrow> vault \<Rightarrow> (move_error + unit) \<times> vault" where
  "delete_segment_row e i w =
     (let (f, w1) = draw e w in
      if broken f then (Inl OtherError, w1)
      else (Inr (), w1\<lparr>index := filter (\<lambda>s. sg_id s \<noteq> i) (index w)\<rparr>))"

definition raise_event :: "vault_env \<Rightarrow> string \<Rightarrow> uuid option \<Rightarrow> vault \<Rightarrow> vault" where
  "raise_event e kind camera w =
     (let (f, w1) = draw e w
      in if broken f then w1 else w1\<lparr>events := events w @ [(kind, camera)]\<rparr>)"

definition raise_storage_event :: "vault_env \<Rightarrow> vault \<Rightarrow> vault" where
  "raise_storage_event e w = raise_event e ''storage_unwritable'' None w"

subsection \<open>Storages\<close>

definition storage_of :: "vault_env \<Rightarrow> uuid \<Rightarrow> storage_row option" where
  "storage_of e i = find (\<lambda>s. st_id s = i) (ve_storages e)"

text \<open>\<open>Inl\<close> is a failed query, \<open>Inr None\<close> no such row.\<close>

definition get_storage :: "vault_env \<Rightarrow> uuid \<Rightarrow> vault \<Rightarrow> (move_error + storage_row option) \<times> vault" where
  "get_storage e i w =
     (let (f, w1) = draw e w in (if broken f then Inl OtherError else Inr (storage_of e i), w1))"

definition marker_present :: "vault_env \<Rightarrow> path \<Rightarrow> vault \<Rightarrow> bool \<times> vault" where
  "marker_present e base w = (let (m, w1) = metadata_len e (storage_marker_path base) w in (m \<noteq> None, w1))"

definition ensure_marker :: "vault_env \<Rightarrow> path \<Rightarrow> vault \<Rightarrow> vault" where
  "ensure_marker e base w =
     (let p = storage_marker_path base; (r, w1) = file_exists e p w in
      if r = Some True then w1
      else let (f, w2) = draw e w1 in
        if broken f \<or> disk w2 (ve_canon e p) \<noteq> None then w2
        else let (g, w3) = draw e w2
             in put_file (ve_canon e p) (if broken g then [] else storage_marker_body) w3)"

subsection \<open>The move\<close>

definition file_name :: "path \<Rightarrow> string option" where
  "file_name p = (if p = [] \<or> last p = ''..'' then None else Some (last p))"

definition archive_relative_path :: "vault_env \<Rightarrow> uuid \<Rightarrow> instant \<Rightarrow> path \<Rightarrow> path option" where
  "archive_relative_path e camera start original =
     (case file_name original of
        None \<Rightarrow> None
      | Some name \<Rightarrow>
          let (y, m, d) = ve_date e start in Some [ve_uuid_string e camera, y, m, d, name])"

definition archive_in_place ::
  "vault_env \<Rightarrow> segment \<Rightarrow> path \<Rightarrow> uuid \<Rightarrow> path \<Rightarrow> vault \<Rightarrow> (move_error + unit) \<times> vault" where
  "archive_in_place e seg dst storage rel w =
     (case fsync_file_and_parent_dir e dst w of
        (Inl er, w1) \<Rightarrow> (Inl er, w1)
      | (Inr _, w1) \<Rightarrow> update_segment_archive e (sg_id seg) storage rel w1)"

text \<open>\<open>seg.size_bytes as u64\<close>.\<close>

definition as_u64 :: "i64 \<Rightarrow> nat" where
  "as_u64 x = nat (x mod 18446744073709551616)"

text \<open>Steps 2a, 2b and 2c: size, checksum, fsync.\<close>

definition verify_archive_copy ::
  "vault_env \<Rightarrow> segment \<Rightarrow> path \<Rightarrow> nat \<times> nat \<Rightarrow> vault \<Rightarrow> (move_error + unit) \<times> vault" where
  "verify_archive_copy e seg dst copied w =
     (case metadata_len e dst w of
        (None, w1) \<Rightarrow> (Inl OtherError, w1)
      | (Some n, w1) \<Rightarrow>
          if n \<noteq> fst copied \<or> n \<noteq> as_u64 (sg_size seg)
          then (Inl OtherError, snd (unlink e dst w1))
          else (case crc32_of_file e dst w1 of
                  (Inl er, w2) \<Rightarrow> (Inl er, w2)
                | (Inr crc, w2) \<Rightarrow>
                    if crc \<noteq> snd copied then (Inl OtherError, snd (unlink e dst w2))
                    else fsync_file_and_parent_dir e dst w2))"

text \<open>Steps 3 and 4: index, then delete the source.\<close>

definition commit_archive_move ::
  "vault_env \<Rightarrow> segment \<Rightarrow> path \<Rightarrow> uuid \<Rightarrow> path \<Rightarrow> vault \<Rightarrow> (move_error + unit) \<times> vault" where
  "commit_archive_move e seg src storage rel w =
     (case update_segment_archive e (sg_id seg) storage rel w of
        (Inl er, w1) \<Rightarrow> (Inl er, w1)
      | (Inr _, w1) \<Rightarrow>
          (case unlink e src w1 of
             (Removed, w2) \<Rightarrow> (Inr (), w2)
           | (Absent, w2) \<Rightarrow> (Inl OtherError, w2)
           | (RemoveFailed er, w2) \<Rightarrow> (Inl er, w2)))"

definition move_segment_to_archive ::
  "vault_env \<Rightarrow> segment \<Rightarrow> path \<Rightarrow> path \<Rightarrow> uuid \<Rightarrow> vault \<Rightarrow> (move_error + unit) \<times> vault" where
  "move_segment_to_archive e seg src_root archive_root storage w =
     (case archive_relative_path e (sg_camera seg) (sg_start seg) (sg_path seg) of
        None \<Rightarrow> (Inl OtherError, w)
      | Some rel \<Rightarrow>
          (let src = src_root @ sg_path seg; dst = archive_root @ rel;
               (same, w1) = same_file e src dst w in
           if same then archive_in_place e seg dst storage rel w1
           else (case create_dir_all e w1 of
             (Inl er, w2) \<Rightarrow> (Inl er, w2)
           | (Inr _, w2) \<Rightarrow>
               (case copy_with_crc32 e src dst w2 of
                  (Inl er, w3) \<Rightarrow> (Inl er, snd (unlink e dst w3))
                | (Inr copied, w3) \<Rightarrow>
                    (case verify_archive_copy e seg dst copied w3 of
                       (Inl er, w4) \<Rightarrow> (Inl er, w4)
                     | (Inr _, w4) \<Rightarrow> commit_archive_move e seg src storage rel w4)))))"

subsection \<open>What each operation does to files and rows\<close>

lemmas vault_prims = draw_def stat_def stat_dev_def metadata_len_def file_exists_def unlink_def
  create_dir_all_def put_file_def update_segment_archive_def delete_segment_row_def raise_event_def
  raise_storage_event_def get_storage_def Let_def

lemma broken_cases: "broken f \<Longrightarrow> (\<And>full k. f = Broken full k \<Longrightarrow> thesis) \<Longrightarrow> thesis"
  by (cases f) auto

lemma draw_frame [simp]:
  "disk (snd (draw e w)) = disk w" "index (snd (draw e w)) = index w"
  "synced (snd (draw e w)) = synced w" "tripped (snd (draw e w)) = tripped w"
  by (simp_all add: draw_def)

lemma same_file_frame [simp]:
  "disk (snd (same_file e a b w)) = disk w" "index (snd (same_file e a b w)) = index w"
  "synced (snd (same_file e a b w)) = synced w" "tripped (snd (same_file e a b w)) = tripped w"
  by (simp_all add: same_file_def stat_def Let_def)

lemma same_filesystem_frame [simp]:
  "disk (snd (same_filesystem e a b w)) = disk w" "index (snd (same_filesystem e a b w)) = index w"
  "synced (snd (same_filesystem e a b w)) = synced w"
  "tripped (snd (same_filesystem e a b w)) = tripped w"
  by (simp_all add: same_filesystem_def stat_dev_def Let_def)

lemma metadata_len_frame [simp]:
  "disk (snd (metadata_len e p w)) = disk w" "index (snd (metadata_len e p w)) = index w"
  "synced (snd (metadata_len e p w)) = synced w" "tripped (snd (metadata_len e p w)) = tripped w"
  by (simp_all add: metadata_len_def draw_def)

lemma file_exists_frame [simp]:
  "disk (snd (file_exists e p w)) = disk w" "index (snd (file_exists e p w)) = index w"
  "synced (snd (file_exists e p w)) = synced w" "tripped (snd (file_exists e p w)) = tripped w"
  by (simp_all add: file_exists_def draw_def)

lemma create_dir_all_frame [simp]:
  "disk (snd (create_dir_all e w)) = disk w" "index (snd (create_dir_all e w)) = index w"
  "synced (snd (create_dir_all e w)) = synced w" "tripped (snd (create_dir_all e w)) = tripped w"
  by (simp_all add: create_dir_all_def draw_def)

lemma crc32_of_file_frame [simp]:
  "disk (snd (crc32_of_file e p w)) = disk w" "index (snd (crc32_of_file e p w)) = index w"
  "synced (snd (crc32_of_file e p w)) = synced w" "tripped (snd (crc32_of_file e p w)) = tripped w"
  by (simp_all add: crc32_of_file_def draw_def split: option.split)

lemma fsync_vault_frame [simp]:
  "disk (snd (fsync_file_and_parent_dir e p w)) = disk w"
  "index (snd (fsync_file_and_parent_dir e p w)) = index w"
  "tripped (snd (fsync_file_and_parent_dir e p w)) = tripped w"
  by (simp_all add: fsync_file_and_parent_dir_def draw_def)

lemma get_storage_frame [simp]:
  "disk (snd (get_storage e i w)) = disk w" "index (snd (get_storage e i w)) = index w"
  "synced (snd (get_storage e i w)) = synced w" "tripped (snd (get_storage e i w)) = tripped w"
  by (simp_all add: get_storage_def draw_def)

lemma marker_present_frame [simp]:
  "disk (snd (marker_present e p w)) = disk w" "index (snd (marker_present e p w)) = index w"
  "synced (snd (marker_present e p w)) = synced w" "tripped (snd (marker_present e p w)) = tripped w"
  by (simp_all add: marker_present_def metadata_len_def draw_def)

lemma raise_event_frame [simp]:
  "disk (raise_event e k c w) = disk w" "index (raise_event e k c w) = index w"
  "synced (raise_event e k c w) = synced w" "tripped (raise_event e k c w) = tripped w"
  by (simp_all add: raise_event_def draw_def)

lemma raise_storage_event_frame [simp]:
  "disk (raise_storage_event e w) = disk w" "index (raise_storage_event e w) = index w"
  "synced (raise_storage_event e w) = synced w" "tripped (raise_storage_event e w) = tripped w"
  by (simp_all add: raise_storage_event_def)

lemma unlink_frame [simp]:
  "index (snd (unlink e p w)) = index w" "tripped (snd (unlink e p w)) = tripped w"
  by (simp_all add: unlink_def draw_def)

lemma unlink_other: "q \<noteq> ve_canon e p \<Longrightarrow> disk (snd (unlink e p w)) q = disk w q"
  by (simp add: unlink_def draw_def)

lemma unlink_synced: "q \<noteq> ve_canon e p \<Longrightarrow> q \<in> synced (snd (unlink e p w)) \<longleftrightarrow> q \<in> synced w"
  by (simp add: unlink_def draw_def)

lemma unlink_not_removed: "fst (unlink e p w) \<noteq> Removed \<Longrightarrow> disk (snd (unlink e p w)) = disk w"
  by (simp add: unlink_def draw_def split: if_splits)

lemma unlink_removed:
  "unlink e p w = (Removed, w') \<Longrightarrow> disk w (ve_canon e p) \<noteq> None \<and> disk w' = (disk w)(ve_canon e p := None)"
  by (auto simp: unlink_def draw_def split: if_splits)

lemma unlink_absent: "unlink e p w = (Absent, w') \<Longrightarrow> disk w (ve_canon e p) = None \<and> disk w' = disk w"
  by (auto simp: unlink_def draw_def split: if_splits)

lemma unlink_failed: "unlink e p w = (RemoveFailed er, w') \<Longrightarrow> disk w' = disk w"
  by (auto simp: unlink_def draw_def split: if_splits)

lemma fsync_vault_ok:
  "fsync_file_and_parent_dir e p w = (Inr u, w') \<Longrightarrow> ve_canon e p \<in> synced w' \<and> disk w (ve_canon e p) \<noteq> None"
  by (auto simp: fsync_file_and_parent_dir_def draw_def split: if_splits)

lemma update_archive_frame [simp]:
  "disk (snd (update_segment_archive e i s p w)) = disk w"
  "synced (snd (update_segment_archive e i s p w)) = synced w"
  "tripped (snd (update_segment_archive e i s p w)) = tripped w"
  by (simp_all add: update_segment_archive_def draw_def)

definition flip_row :: "uuid \<Rightarrow> uuid \<Rightarrow> path \<Rightarrow> segment list \<Rightarrow> segment list" where
  "flip_row i storage rel ss = map (\<lambda>s. if sg_id s = i then archived storage rel s else s) ss"

lemma update_archive_index:
  "index (snd (update_segment_archive e i s p w)) = index w
     \<and> fst (update_segment_archive e i s p w) = Inl OtherError
   \<or> index (snd (update_segment_archive e i s p w)) = flip_row i s p (index w)"
  by (auto simp: update_segment_archive_def draw_def flip_row_def)

lemma update_archive_ok:
  "update_segment_archive e i s p w = (Inr u, w') \<Longrightarrow> index w' = flip_row i s p (index w)"
  using update_archive_index [of e i s p w] by auto

lemma flip_row_mem: "s \<in> set ss \<Longrightarrow> archived storage rel s \<in> set (flip_row (sg_id s) storage rel ss)"
  by (force simp: flip_row_def)

lemma flip_row_other: "s \<in> set ss \<Longrightarrow> sg_id s \<noteq> i \<Longrightarrow> s \<in> set (flip_row i storage rel ss)"
  by (force simp: flip_row_def)

lemma archived_simps [simp]:
  "sg_id (archived st rel s) = sg_id s" "sg_camera (archived st rel s) = sg_camera s"
  "sg_start (archived st rel s) = sg_start s" "sg_end (archived st rel s) = sg_end s"
  "sg_size (archived st rel s) = sg_size s" "sg_storage (archived st rel s) = st"
  "sg_stage (archived st rel s) = ArchiveStage" "sg_path (archived st rel s) = rel"
  by (simp_all add: archived_def)

lemma flip_row_ids [simp]: "map sg_id (flip_row i st rel ss) = map sg_id ss"
  by (simp add: flip_row_def comp_def if_distrib cong: if_cong)

subsection \<open>The move, step by step\<close>

lemma same_file_sound:
  assumes "same_file e a b w = (True, w')"
  shows "ve_canon e a = ve_canon e b \<and> disk w (ve_canon e a) \<noteq> None"
  using assms by (auto simp: same_file_def stat_def Let_def split: if_splits)

lemma same_file_complete:
  assumes "same_file e a b w = (False, w')" and "\<And>n. \<not> ve_stat_fails e n"
    and "disk w (ve_canon e a) \<noteq> None"
  shows "ve_canon e a \<noteq> ve_canon e b"
  using assms by (auto simp: same_file_def stat_def Let_def split: if_splits)

lemma copy_frame [simp]:
  "index (snd (copy_with_crc32 e s d w)) = index w" "tripped (snd (copy_with_crc32 e s d w)) = tripped w"
  by (simp_all add: copy_with_crc32_def draw_def put_file_def Let_def split_beta
      split: option.split disk_fault.split)

lemma copy_other: "q \<noteq> ve_canon e d \<Longrightarrow> disk (snd (copy_with_crc32 e s d w)) q = disk w q"
  by (simp add: copy_with_crc32_def draw_def put_file_def Let_def split_beta
      split: option.split disk_fault.split)

lemma copy_ok:
  assumes "copy_with_crc32 e s d w = (Inr (n, c), w')" and "ve_canon e s \<noteq> ve_canon e d"
  shows "\<exists>b. disk w (ve_canon e s) = Some b \<and> n = length b \<and> c = ve_crc e b"
  using assms by (auto simp: copy_with_crc32_def draw_def put_file_def Let_def split_beta
      split: option.splits disk_fault.splits if_splits)

lemma verify_frame [simp]:
  "index (snd (verify_archive_copy e seg d c w)) = index w"
  "tripped (snd (verify_archive_copy e seg d c w)) = tripped w"
  by (simp_all add: verify_archive_copy_def case_prod_beta split: option.split sum.split)

lemma verify_other:
  "q \<noteq> ve_canon e d \<Longrightarrow> disk (snd (verify_archive_copy e seg d c w)) q = disk w q"
  by (simp add: verify_archive_copy_def case_prod_beta unlink_other split: option.split sum.split)

lemma metadata_len_some:
  "fst (metadata_len e p w) = Some n \<Longrightarrow> \<exists>b. disk w (ve_canon e p) = Some b \<and> n = length b"
  by (auto simp: metadata_len_def draw_def split: if_splits)

lemma crc32_of_file_ok:
  "fst (crc32_of_file e p w) = Inr c \<Longrightarrow> \<exists>b. disk w (ve_canon e p) = Some b \<and> c = ve_crc e b"
  by (auto simp: crc32_of_file_def draw_def split: if_splits option.splits)

lemma verify_ok:
  assumes "verify_archive_copy e seg d (n, c) w = (Inr u, w')"
  shows "disk w' = disk w \<and> ve_canon e d \<in> synced w' \<and>
    (\<exists>b. disk w (ve_canon e d) = Some b \<and> length b = n \<and> ve_crc e b = c)"
proof -
  obtain k w1 where m: "metadata_len e d w = (Some k, w1)" and k: "k = n"
    using assms by (auto simp: verify_archive_copy_def case_prod_beta prod_eq_iff split: option.splits if_splits)
  obtain crc w2 where x: "crc32_of_file e d w1 = (Inr crc, w2)" and crc: "crc = c"
    using assms m k by (auto simp: verify_archive_copy_def case_prod_beta prod_eq_iff split: sum.splits if_splits)
  have f: "fsync_file_and_parent_dir e d w2 = (Inr u, w')"
    using assms m k x crc by (simp add: verify_archive_copy_def split: if_splits)
  have same: "disk w1 = disk w" "disk w2 = disk w"
    using metadata_len_frame(1) [of e d w] crc32_of_file_frame(1) [of e d w1] m x by simp_all
  have "disk w' = disk w" using fsync_vault_frame(1) [of e d w2] f same by simp
  moreover have "ve_canon e d \<in> synced w'" using fsync_vault_ok [OF f] by simp
  moreover obtain b where "disk w (ve_canon e d) = Some b" "length b = n"
    using metadata_len_some [of e d w k] m k by auto
  moreover have "\<exists>b'. disk w (ve_canon e d) = Some b' \<and> crc = ve_crc e b'"
    using crc32_of_file_ok [of e d w1 crc] x same by simp
  ultimately show ?thesis using crc by auto
qed

lemma commit_index:
  "index (snd (commit_archive_move e seg s st rel w)) = index w \<and>
     disk (snd (commit_archive_move e seg s st rel w)) = disk w \<and>
     fst (commit_archive_move e seg s st rel w) \<noteq> Inr ()
   \<or> index (snd (commit_archive_move e seg s st rel w)) = flip_row (sg_id seg) st rel (index w)"
  using update_archive_index [of e "sg_id seg" st rel w]
  by (auto simp: commit_archive_move_def case_prod_beta split: sum.splits removal.splits)

lemma commit_other:
  "q \<noteq> ve_canon e s \<Longrightarrow> disk (snd (commit_archive_move e seg s st rel w)) q = disk w q"
  by (simp add: commit_archive_move_def case_prod_beta unlink_other split: sum.split removal.split)

lemma commit_synced:
  "q \<noteq> ve_canon e s \<Longrightarrow> q \<in> synced (snd (commit_archive_move e seg s st rel w)) \<longleftrightarrow> q \<in> synced w"
  by (simp add: commit_archive_move_def case_prod_beta unlink_synced split: sum.split removal.split)

subsection \<open>The move as a whole\<close>

definition same_content :: "vault_env \<Rightarrow> bytes \<Rightarrow> bytes \<Rightarrow> bool" where
  "same_content e b b' \<longleftrightarrow> length b' = length b \<and> ve_crc e b' = ve_crc e b"

lemma same_content_refl [simp]: "same_content e b b"
  by (simp add: same_content_def)

lemma same_content_trans: "same_content e a b \<Longrightarrow> same_content e b c \<Longrightarrow> same_content e a c"
  by (simp add: same_content_def)

text \<open>The file is still where the row says, or a verified durable copy is where the new row says.\<close>

definition source_kept :: "vault \<Rightarrow> path \<Rightarrow> bytes \<Rightarrow> vault \<Rightarrow> bool" where
  "source_kept w q b w' \<longleftrightarrow> index w' = index w \<and> disk w' q = Some b"

definition safely_archived ::
  "vault_env \<Rightarrow> segment \<Rightarrow> uuid \<Rightarrow> path \<Rightarrow> path \<Rightarrow> bytes \<Rightarrow> vault \<Rightarrow> vault \<Rightarrow> bool" where
  "safely_archived e seg storage rel q b w w' \<longleftrightarrow>
     index w' = flip_row (sg_id seg) storage rel (index w) \<and> q \<in> synced w' \<and>
     (\<exists>b'. disk w' q = Some b' \<and> same_content e b b')"

lemma archive_in_place_cases:
  assumes "archive_in_place e seg d st rel w = (r, w')" and "disk w (ve_canon e d) = Some b"
  shows "(r \<noteq> Inr () \<and> source_kept w (ve_canon e d) b w')
    \<or> safely_archived e seg st rel (ve_canon e d) b w w'"
proof (cases "fsync_file_and_parent_dir e d w")
  case (Pair x w1)
  have d1: "disk w1 = disk w" "index w1 = index w"
    using fsync_vault_frame [of e d w] Pair by simp_all
  show ?thesis
  proof (cases x)
    case (Inl er)
    then show ?thesis using assms Pair d1 by (simp add: archive_in_place_def source_kept_def) blast
  next
    case (Inr u)
    have u: "update_segment_archive e (sg_id seg) st rel w1 = (r, w')"
      using assms Pair Inr by (simp add: archive_in_place_def)
    have q: "ve_canon e d \<in> synced w'" "disk w' = disk w"
      using fsync_vault_ok [of e d w u w1] update_archive_frame [of e "sg_id seg" st rel w1] Pair Inr u d1
      by simp_all
    show ?thesis
      using update_archive_index [of e "sg_id seg" st rel w1] u q d1 assms(2)
      by (auto simp: source_kept_def safely_archived_def)
  qed
qed

lemma commit_cases:
  assumes "commit_archive_move e seg s st rel w = (r, w')" and "ve_canon e s \<noteq> d"
    and "disk w (ve_canon e s) = Some b" and "disk w d = Some b'" and "same_content e b b'"
    and "d \<in> synced w"
  shows "(r \<noteq> Inr () \<and> source_kept w (ve_canon e s) b w') \<or> safely_archived e seg st rel d b w w'"
  using commit_index [of e seg s st rel w] commit_other [of d e s seg st rel w]
    commit_synced [of d e s seg st rel w] assms
  by (auto simp: source_kept_def safely_archived_def)

lemma move_cases:
  assumes mv: "move_segment_to_archive e seg sr ar st w = (r, w')"
    and rel: "archive_relative_path e (sg_camera seg) (sg_start seg) (sg_path seg) = Some rel"
    and apart: "ve_canon e (sr @ sg_path seg) \<noteq> ve_canon e (ar @ rel) \<or> (\<forall>n. \<not> ve_stat_fails e n)"
    and b: "disk w (ve_canon e (sr @ sg_path seg)) = Some b"
  shows "(r \<noteq> Inr () \<and> source_kept w (ve_canon e (sr @ sg_path seg)) b w')
    \<or> safely_archived e seg st rel (ve_canon e (ar @ rel)) b w w'"
proof -
  let ?src = "sr @ sg_path seg" let ?dst = "ar @ rel"
  let ?s = "ve_canon e ?src" let ?d = "ve_canon e ?dst"
  obtain same w1 where sf: "same_file e ?src ?dst w = (same, w1)" by force
  have w1: "disk w1 = disk w" "index w1 = index w"
    using same_file_frame [of e ?src ?dst w] sf by simp_all
  show ?thesis
  proof (cases same)
    case True
    have eq: "?s = ?d" using same_file_sound [of e ?src ?dst w w1] sf True by simp
    have "archive_in_place e seg ?dst st rel w1 = (r, w')"
      using mv rel sf True by (simp add: move_segment_to_archive_def Let_def)
    from archive_in_place_cases [OF this] show ?thesis
      using b eq w1 by (auto simp: source_kept_def safely_archived_def)
  next
    case False
    have ne: "?s \<noteq> ?d" using apart same_file_complete [of e ?src ?dst w w1] sf False b by auto
    obtain x w2 where cd: "create_dir_all e w1 = (x, w2)" by force
    have w2: "disk w2 = disk w" "index w2 = index w"
      using create_dir_all_frame [of e w1] cd w1 by simp_all
    obtain y w3 where cp: "copy_with_crc32 e ?src ?dst w2 = (y, w3)" by force
    have w3: "index w3 = index w" "disk w3 ?s = Some b"
      using copy_frame(1) [of e ?src ?dst w2] copy_other [OF ne, of ?src w2] cp w2 b by simp_all
    obtain z w4 where vf: "verify_archive_copy e seg ?dst (projr y) w3 = (z, w4)" by force
    have w4: "index w4 = index w" "disk w4 ?s = Some b"
      using verify_frame(1) [of e seg ?dst "projr y" w3] verify_other [OF ne, of seg "projr y" w3] vf w3
      by simp_all
    show ?thesis
    proof (cases "(\<exists>er. x = Inl er) \<or> (\<exists>er. y = Inl er) \<or> (\<exists>er. z = Inl er)")
      case True
      have "r \<noteq> Inr () \<and> source_kept w ?s b w'"
        using mv rel sf False cd cp vf True w2 w3 w4 b unlink_other [OF ne, of w3]
        by (auto simp: move_segment_to_archive_def Let_def source_kept_def split: sum.splits)
      then show ?thesis by blast
    next
      case ok: False
      then obtain n c where y: "x = Inr ()" "y = Inr (n, c)" "z = Inr ()"
        by (cases x; cases y; cases z) auto
      obtain b0 where c: "b0 = b" "n = length b0" "c = ve_crc e b0"
        using copy_ok [of e ?src ?dst w2 n c w3] cp y ne w2 b by auto
      obtain b' where b': "disk w4 ?d = Some b'" "length b' = n" "ve_crc e b' = c" "?d \<in> synced w4"
        using verify_ok [of e seg ?dst n c w3 "()" w4] vf y by auto
      have "commit_archive_move e seg ?src st rel w4 = (r, w')"
        using mv rel sf False cd cp vf y by (simp add: move_segment_to_archive_def Let_def)
      from commit_cases [OF this ne w4(2) b'(1) _ b'(4)] show ?thesis
        using b' c w4 by (auto simp: source_kept_def safely_archived_def same_content_def)
    qed
  qed
qed

lemma commit_error_keeps_disk:
  "fst (commit_archive_move e seg s st rel w) = Inl er \<Longrightarrow>
     disk (snd (commit_archive_move e seg s st rel w)) = disk w"
  by (simp add: commit_archive_move_def case_prod_beta unlink_not_removed
      split: sum.splits removal.splits)

lemma archive_in_place_disk [simp]: "disk (snd (archive_in_place e seg d st rel w)) = disk w"
  by (simp add: archive_in_place_def case_prod_beta split: sum.split)

text \<open>A move that reports an error has not touched the source.\<close>

lemma move_error_keeps_source:
  assumes mv: "move_segment_to_archive e seg sr ar st w = (Inl er, w')"
    and stats: "\<forall>n. \<not> ve_stat_fails e n"
    and b: "disk w (ve_canon e (sr @ sg_path seg)) = Some b"
  shows "disk w' (ve_canon e (sr @ sg_path seg)) = Some b"
proof (cases "archive_relative_path e (sg_camera seg) (sg_start seg) (sg_path seg)")
  case None
  then show ?thesis using mv b by (simp add: move_segment_to_archive_def)
next
  case (Some rel)
  let ?src = "sr @ sg_path seg" let ?dst = "ar @ rel"
  obtain same w1 where sf: "same_file e ?src ?dst w = (same, w1)" by force
  have w1: "disk w1 = disk w" using same_file_frame(1) [of e ?src ?dst w] sf by simp
  show ?thesis
  proof (cases same)
    case True
    then have "archive_in_place e seg ?dst st rel w1 = (Inl er, w')"
      using mv Some sf by (simp add: move_segment_to_archive_def Let_def)
    then show ?thesis using archive_in_place_disk [of e seg ?dst st rel w1] w1 b by simp
  next
    case False
    have ne: "ve_canon e ?src \<noteq> ve_canon e ?dst"
      using same_file_complete [of e ?src ?dst w w1] sf False b stats by auto
    show ?thesis
      using mv Some sf False w1 b ne
      by (auto simp: move_segment_to_archive_def Let_def case_prod_beta prod_eq_iff copy_other
          verify_other unlink_other commit_error_keeps_disk split: sum.splits)
  qed
qed

lemma move_other:
  assumes "q \<noteq> ve_canon e (sr @ sg_path seg)"
    and "\<And>rel. archive_relative_path e (sg_camera seg) (sg_start seg) (sg_path seg) = Some rel \<Longrightarrow>
           q \<noteq> ve_canon e (ar @ rel)"
  shows "disk (snd (move_segment_to_archive e seg sr ar st w)) q = disk w q"
proof (cases "archive_relative_path e (sg_camera seg) (sg_start seg) (sg_path seg)")
  case None
  then show ?thesis by (simp add: move_segment_to_archive_def)
next
  case (Some rel)
  then show ?thesis using assms(2) [OF Some] assms(1)
    by (simp add: move_segment_to_archive_def Let_def case_prod_beta archive_in_place_def
        copy_other verify_other commit_other unlink_other split: sum.split)
qed

lemma archive_in_place_index:
  "index w = rs \<Longrightarrow> index (snd (archive_in_place e seg d st rel w)) = rs \<or>
     index (snd (archive_in_place e seg d st rel w)) = flip_row (sg_id seg) st rel rs"
  using update_archive_index [of e "sg_id seg" st rel "snd (fsync_file_and_parent_dir e d w)"]
  by (auto simp: archive_in_place_def case_prod_beta split: sum.split)

lemma commit_index_eq:
  "index w = rs \<Longrightarrow> index (snd (commit_archive_move e seg s st rel w)) = rs \<or>
     index (snd (commit_archive_move e seg s st rel w)) = flip_row (sg_id seg) st rel rs"
  using commit_index [of e seg s st rel w] by auto

lemma move_index:
  "index (snd (move_segment_to_archive e seg sr ar st w)) = index w \<or>
   (\<exists>rel. archive_relative_path e (sg_camera seg) (sg_start seg) (sg_path seg) = Some rel \<and>
      index (snd (move_segment_to_archive e seg sr ar st w)) = flip_row (sg_id seg) st rel (index w))"
proof (cases "archive_relative_path e (sg_camera seg) (sg_start seg) (sg_path seg)")
  case None
  then show ?thesis by (simp add: move_segment_to_archive_def)
next
  case (Some rel)
  then show ?thesis
    by (simp add: move_segment_to_archive_def Let_def case_prod_beta split: sum.split)
      (intro conjI allI impI; (rule archive_in_place_index commit_index_eq)?; simp)
qed

subsection \<open>Properties of the move\<close>

text \<open>C3. Archiving never loses footage, provided source and destination are not one file or the stat
  calls of the same-file guard answer. Whatever reads, writes, syncs and statements then fail, are cut
  short or silently corrupt the copy, after the move the segment is either still indexed at its source
  with its bytes untouched, or indexed in the archive with a durable copy of the same length and
  checksum. When the move reports success it is the second. No other row of the index changes.\<close>

theorem archive_move_never_loses_footage:
  assumes "seg \<in> set (index w)" and "distinct (map sg_id (index w))"
    and "archive_relative_path e (sg_camera seg) (sg_start seg) (sg_path seg) = Some rel"
    and "disk w (ve_canon e (sr @ sg_path seg)) = Some b"
    and "ve_canon e (sr @ sg_path seg) \<noteq> ve_canon e (ar @ rel) \<or> (\<forall>n. \<not> ve_stat_fails e n)"
    and "move_segment_to_archive e seg sr ar st w = (r, w')"
  shows "((r \<noteq> Inr () \<and> seg \<in> set (index w') \<and> disk w' (ve_canon e (sr @ sg_path seg)) = Some b) \<or>
     (archived st rel seg \<in> set (index w') \<and> ve_canon e (ar @ rel) \<in> synced w' \<and>
      (\<exists>b'. disk w' (ve_canon e (ar @ rel)) = Some b' \<and> length b' = length b \<and>
         ve_crc e b' = ve_crc e b))) \<and>
     (\<forall>t \<in> set (index w). t \<noteq> seg \<longrightarrow> t \<in> set (index w'))"
proof -
  have other: "\<forall>t \<in> set (index w). t \<noteq> seg \<longrightarrow> sg_id t \<noteq> sg_id seg"
    using assms(1,2) by (auto simp: distinct_map inj_on_def)
  from move_cases [OF assms(6,3,5,4)] show ?thesis
    using assms(1) other
    by (auto simp: source_kept_def safely_archived_def same_content_def flip_row_mem flip_row_other)
qed

text \<open>The steps when nothing fails.\<close>

definition calm :: "vault_env \<Rightarrow> bool" where
  "calm e \<longleftrightarrow> (\<forall>n. ve_fault e n = Good) \<and> (\<forall>n. \<not> ve_stat_fails e n)"

lemma calm_draw: "calm e \<Longrightarrow> draw e w = (Good, w\<lparr>draws := draws w + 1\<rparr>)"
  by (simp add: calm_def draw_def)

lemma calm_same_file:
  "calm e \<Longrightarrow> ve_canon e a \<noteq> ve_canon e b \<Longrightarrow> same_file e a b w = (False, w\<lparr>draws := draws w + 2\<rparr>)"
  by (simp add: calm_def same_file_def stat_def Let_def)

lemma calm_copy:
  "calm e \<Longrightarrow> ve_canon e a \<noteq> ve_canon e b \<Longrightarrow> copy_with_crc32 e a b w =
     (case disk w (ve_canon e a) of
        None \<Rightarrow> (Inl OtherError, w\<lparr>draws := draws w + 3\<rparr>)
      | Some c \<Rightarrow> (Inr (length c, ve_crc e c), put_file (ve_canon e b) c (w\<lparr>draws := draws w + 3\<rparr>)))"
  by (simp add: copy_with_crc32_def calm_same_file calm_draw eval_nat_numeral split: option.split)

lemma calm_unlink:
  "calm e \<Longrightarrow> disk (snd (unlink e p w)) = (disk w)(ve_canon e p := None)"
  by (auto simp: unlink_def calm_draw)

lemma calm_unlink_result:
  "calm e \<Longrightarrow> disk w (ve_canon e p) \<noteq> None \<Longrightarrow> fst (unlink e p w) = Removed"
  by (simp add: unlink_def calm_draw)

lemma calm_verify:
  assumes "calm e" and "disk w (ve_canon e d) = Some b"
  shows "disk (snd (verify_archive_copy e seg d (length b, ve_crc e b) w)) =
      (if length b = as_u64 (sg_size seg) then disk w else (disk w)(ve_canon e d := None)) \<and>
    fst (verify_archive_copy e seg d (length b, ve_crc e b) w) =
      (if length b = as_u64 (sg_size seg) then Inr () else Inl OtherError)"
  using assms
  by (simp add: verify_archive_copy_def metadata_len_def crc32_of_file_def fsync_file_and_parent_dir_def
      calm_draw calm_unlink)

lemma calm_commit:
  assumes "calm e" and "length (filter (\<lambda>s. sg_id s = sg_id seg) (index w)) = 1"
    and "disk w (ve_canon e s) \<noteq> None"
  shows "fst (commit_archive_move e seg s st rel w) = Inr () \<and>
    index (snd (commit_archive_move e seg s st rel w)) = flip_row (sg_id seg) st rel (index w) \<and>
    disk (snd (commit_archive_move e seg s st rel w)) = (disk w)(ve_canon e s := None)"
  using assms
  by (auto simp: commit_archive_move_def update_segment_archive_def unlink_def calm_draw flip_row_def
      case_prod_beta)

text \<open>What a move does when nothing fails. A source of the indexed size replaces whatever file stood
  at its archive path and the row follows it. In every other case (source missing or of another
  size) the row stays, and whatever file stood at the archive path is removed: the move has no guard
  for a destination that already holds other footage.
\<close>

theorem archive_move_owns_destination:
  assumes "\<forall>n. ve_fault e n = Good" and "\<forall>n. \<not> ve_stat_fails e n"
    and "archive_relative_path e (sg_camera seg) (sg_start seg) (sg_path seg) = Some rel"
    and "ve_canon e (sr @ sg_path seg) \<noteq> ve_canon e (ar @ rel)"
    and "length (filter (\<lambda>s. sg_id s = sg_id seg) (index w)) = 1"
    and "move_segment_to_archive e seg sr ar st w = (r, w')"
  shows "(case disk w (ve_canon e (sr @ sg_path seg)) of
       Some b \<Rightarrow>
         (if length b = as_u64 (sg_size seg)
          then r = Inr () \<and> index w' = flip_row (sg_id seg) st rel (index w) \<and>
               disk w' = (disk w)(ve_canon e (ar @ rel) \<mapsto> b, ve_canon e (sr @ sg_path seg) := None)
          else r = Inl OtherError \<and> index w' = index w \<and>
               disk w' = (disk w)(ve_canon e (ar @ rel) := None))
     | None \<Rightarrow> r = Inl OtherError \<and> index w' = index w \<and>
               disk w' = (disk w)(ve_canon e (ar @ rel) := None))"
proof -
  let ?s = "ve_canon e (sr @ sg_path seg)" let ?d = "ve_canon e (ar @ rel)"
  define w2 where "w2 = w\<lparr>draws := draws w + 2 + 1\<rparr>"
  have calm: "calm e" using assms(1,2) by (simp add: calm_def)
  have cd: "create_dir_all e (w\<lparr>draws := draws w + 2\<rparr>) = (Inr (), w2)"
    using calm by (simp add: create_dir_all_def calm_draw w2_def)
  have w2: "disk w2 = disk w" "index w2 = index w" by (simp_all add: w2_def)
  note start = assms(6) assms(3) calm_same_file [OF calm assms(4), of w] cd
    calm_copy [OF calm assms(4), of w2] w2
  show ?thesis
  proof (cases "disk w ?s")
    case None
    have "(r, w') = (Inl OtherError, snd (unlink e (ar @ rel) (w2\<lparr>draws := draws w2 + 3\<rparr>)))"
      using start None by (simp add: move_segment_to_archive_def)
    then show ?thesis using None w2 by (simp add: calm_unlink [OF calm])
  next
    case (Some b)
    define w3 where "w3 = put_file ?d b (w2\<lparr>draws := draws w2 + 3\<rparr>)"
    have w3: "disk w3 = (disk w)(?d \<mapsto> b)" "index w3 = index w"
      using w2 by (simp_all add: w3_def put_file_def)
    obtain z w4 where vf: "verify_archive_copy e seg (ar @ rel) (length b, ve_crc e b) w3 = (z, w4)"
      by force
    have z: "disk w4 = (if length b = as_u64 (sg_size seg) then disk w3 else (disk w3)(?d := None))"
      "z = (if length b = as_u64 (sg_size seg) then Inr () else Inl OtherError)" "index w4 = index w"
      using calm_verify [OF calm, of w3 "ar @ rel" b seg] verify_frame(1) [of e seg "ar @ rel" _ w3] vf w3
      by (simp_all, metis snd_conv)
    have rest: "(r, w') = (case z of Inl er \<Rightarrow> (Inl er, w4)
        | Inr _ \<Rightarrow> commit_archive_move e seg (sr @ sg_path seg) st rel w4)"
      using start Some vf by (simp add: move_segment_to_archive_def w3_def)
    show ?thesis
    proof (cases "length b = as_u64 (sg_size seg)")
      case True
      have "disk w4 ?s \<noteq> None" using z w3 Some assms(4) True by simp
      from calm_commit [OF calm _ this, of seg st rel] show ?thesis
        using rest z Some True assms(5) w3 by (simp add: prod_eq_iff)
    next
      case False
      then show ?thesis using rest z Some w3 by simp
    qed
  qed
qed

text \<open>The same-file guard fails open. When source and destination are one file and the first stat
  of the guard fails, the second guard (inside the copy) refuses the copy, and the error branch of
  the move then removes the destination, which is the source: the footage is gone and its row stays.
\<close>

theorem stat_glitch_destroys_aliased_source:
  assumes "\<forall>n. ve_fault e n = Good" and "\<forall>n. ve_stat_fails e n \<longleftrightarrow> n = draws w"
    and "archive_relative_path e (sg_camera seg) (sg_start seg) (sg_path seg) = Some rel"
    and "ve_canon e (sr @ sg_path seg) = ve_canon e (ar @ rel)"
    and "disk w (ve_canon e (sr @ sg_path seg)) = Some b"
    and "move_segment_to_archive e seg sr ar st w = (r, w')"
  shows "r = Inl OtherError \<and> disk w' (ve_canon e (sr @ sg_path seg)) = None \<and> index w' = index w"
  using assms
  by (auto simp: move_segment_to_archive_def same_file_def stat_def create_dir_all_def draw_def
      copy_with_crc32_def unlink_def Let_def)

subsection \<open>Concrete runs\<close>

definition demo_policy :: recording_policy where
  "demo_policy = \<lparr>pol_id = 5, pol_live_storage_id = Some 1, pol_live_retention_hours = 24,
     pol_archive_enabled = False, pol_archive_storage_id = Some 2, pol_archive_schedule = None,
     pol_archive_retention_hours = None, pol_live_max_bytes = None, pol_archive_max_bytes = None,
     pol_live_min_free_pct = None, pol_live_min_free_bytes = None,
     pol_live_spill_low_water_bytes = None, pol_max_retention_days = None\<rparr>"

definition demo_vault_env :: "(nat \<Rightarrow> disk_fault) \<Rightarrow> (nat \<Rightarrow> bool) \<Rightarrow> vault_env" where
  "demo_vault_env faults stats =
     \<lparr>ve_fault = faults, ve_stat_fails = stats, ve_now = hours 1000,
      ve_late = (\<lambda>_. False),
      ve_storages = [\<lparr>st_id = 1, st_path = [''live'']\<rparr>, \<lparr>st_id = 2, st_path = [''archive'']\<rparr>],
      ve_bookmarks = [], ve_policy_of = (\<lambda>_. Some demo_policy), ve_canon = (\<lambda>p. p),
      ve_dev = (\<lambda>p. if take 1 p = [''live''] then Some 1 else Some 2),
      ve_statvfs = (\<lambda>_. Some (1000, 10000)), ve_crc = (\<lambda>b. sum_list b mod 4294967296),
      ve_uuid_string = (\<lambda>_. ''cam''), ve_date = (\<lambda>_. (''2026'', ''01'', ''02'')),
      ve_reconcile_tripped = (\<lambda>_. False), ve_env_fraction = None, ve_env_bytes = None,
      ve_config_live = None\<rparr>"

definition demo_segment :: "uuid \<Rightarrow> segment" where
  "demo_segment i = \<lparr>sg_id = i, sg_camera = 7, sg_storage = 1, sg_stage = LiveStage,
     sg_path = [''cam'', ''a.mp4''], sg_start = hours (int i), sg_end = hours (int i) + seconds 10,
     sg_size = 3\<rparr>"

definition demo_vault :: vault where
  "demo_vault = \<lparr>disk = [[''live'', ''cam'', ''a.mp4''] \<mapsto> [1, 2, 3],
       [''archive'', ''cam'', ''2026'', ''01'', ''02'', ''a.mp4''] \<mapsto> [9]],
     synced = {}, index = [demo_segment 11], tripped = [], events = [], draws = 0\<rparr>"

lemma demo_env_sel:
  "ve_canon (demo_vault_env f g) p = p"
  "ve_crc (demo_vault_env f g) b = sum_list b mod 4294967296"
  "sg_path (demo_segment i) = [''cam'', ''a.mp4'']"
  by (simp_all add: demo_vault_env_def demo_segment_def)

lemmas demo_vault_simps = demo_vault_env_def demo_segment_def demo_vault_def
  archive_relative_path_def file_name_def

theorem archive_move_never_loses_footage_witness:
  "let e = demo_vault_env (\<lambda>n. if n = 3 then Mangled [1, 2, 2] else Good) (\<lambda>_. False);
       seg = demo_segment 11; (r, w') = move_segment_to_archive e seg [''live''] [''archive''] 2 demo_vault
   in (r \<noteq> Inr () \<and> seg \<in> set (index w') \<and> disk w' [''live'', ''cam'', ''a.mp4''] = Some [1, 2, 3]) \<or>
      (\<exists>b'. disk w' [''archive'', ''cam'', ''2026'', ''01'', ''02'', ''a.mp4''] = Some b' \<and>
         length b' = 3 \<and> sum_list b' mod 4294967296 = 6)"
proof -
  let ?e = "demo_vault_env (\<lambda>n. if n = 3 then Mangled [1, 2, 2] else Good) (\<lambda>_. False)"
  obtain r w' where mv:
    "move_segment_to_archive ?e (demo_segment 11) [''live''] [''archive''] 2 demo_vault = (r, w')"
    by force
  have "demo_segment 11 \<in> set (index demo_vault)" "distinct (map sg_id (index demo_vault))"
    "archive_relative_path ?e (sg_camera (demo_segment 11)) (sg_start (demo_segment 11))
       (sg_path (demo_segment 11)) = Some [''cam'', ''2026'', ''01'', ''02'', ''a.mp4'']"
    "disk demo_vault (ve_canon ?e ([''live''] @ sg_path (demo_segment 11))) = Some [1, 2, 3]"
    "ve_canon ?e ([''live''] @ sg_path (demo_segment 11)) \<noteq>
       ve_canon ?e ([''archive''] @ [''cam'', ''2026'', ''01'', ''02'', ''a.mp4'']) \<or>
       (\<forall>n. \<not> ve_stat_fails ?e n)"
    by (simp_all add: demo_vault_simps)
  from archive_move_never_loses_footage [OF this mv] show ?thesis
    by (auto simp: mv demo_env_sel Let_def)
qed

theorem archive_move_owns_destination_witness:
  "disk (snd (move_segment_to_archive (demo_vault_env (\<lambda>_. Good) (\<lambda>_. False))
      ((demo_segment 11)\<lparr>sg_path := [''cam'', ''gone'', ''a.mp4'']\<rparr>)
      [''live''] [''archive''] 2 demo_vault))
     [''archive'', ''cam'', ''2026'', ''01'', ''02'', ''a.mp4''] = None
   \<and> disk demo_vault [''archive'', ''cam'', ''2026'', ''01'', ''02'', ''a.mp4''] = Some [9]"
proof -
  let ?e = "demo_vault_env (\<lambda>_. Good) (\<lambda>_. False)"
  let ?s = "(demo_segment 11)\<lparr>sg_path := [''cam'', ''gone'', ''a.mp4'']\<rparr>"
  obtain r w' where mv: "move_segment_to_archive ?e ?s [''live''] [''archive''] 2 demo_vault = (r, w')"
    by force
  show ?thesis
    using archive_move_owns_destination [OF _ _ _ _ _ mv,
        of "[''cam'', ''2026'', ''01'', ''02'', ''a.mp4'']"] mv
    by (simp add: demo_vault_simps)
qed

theorem stat_glitch_destroys_aliased_source_witness:
  "let e = (demo_vault_env (\<lambda>_. Good) (\<lambda>n. n = 0))\<lparr>ve_canon := (\<lambda>p. [last p])\<rparr>;
       w = demo_vault\<lparr>disk := [[''a.mp4''] \<mapsto> [1, 2, 3]]\<rparr>;
       w' = snd (move_segment_to_archive e (demo_segment 11) [''live''] [''archive''] 2 w)
   in disk w [''a.mp4''] = Some [1, 2, 3] \<and> disk w' [''a.mp4''] = None"
proof -
  let ?e = "(demo_vault_env (\<lambda>_. Good) (\<lambda>n. n = 0))\<lparr>ve_canon := (\<lambda>p. [last p])\<rparr>"
  let ?w = "demo_vault\<lparr>disk := [[''a.mp4''] \<mapsto> [1, 2, 3]]\<rparr>"
  obtain r w' where mv:
    "move_segment_to_archive ?e (demo_segment 11) [''live''] [''archive''] 2 ?w = (r, w')" by force
  show ?thesis
    using stat_glitch_destroys_aliased_source [OF _ _ _ _ _ mv,
        of "[''cam'', ''2026'', ''01'', ''02'', ''a.mp4'']" "[1, 2, 3]"] mv
    by (simp add: demo_vault_simps)
qed

end
