(* ===== verification/FreeFloor.thy ===== *)
theory FreeFloor
  imports F64
begin

text \<open>
  The free-space floor of \<open>services/recorder/src/archive.rs\<close>: the thresholds, the decision on one
  \<open>statvfs\<close> reading, and how a disposal is credited against the deficit.
\<close>

definition default_min_free_fraction :: f64 where
  "default_min_free_fraction = round_f64 (5 / 100)"

definition default_min_free_bytes :: i64 where
  "default_min_free_bytes = 50 * 1024 * 1024 * 1024"

definition keep_if :: "('a \<Rightarrow> bool) \<Rightarrow> 'a option \<Rightarrow> 'a option" where
  "keep_if P x = (case x of Some a \<Rightarrow> (if P a then Some a else None) | None \<Rightarrow> None)"

definition or_else :: "'a option \<Rightarrow> 'a \<Rightarrow> 'a" where
  "or_else x d = (case x of Some a \<Rightarrow> a | None \<Rightarrow> d)"

definition unit_fraction :: "rat \<Rightarrow> bool" where
  "unit_fraction f \<longleftrightarrow> 0 \<le> f \<and> f < 1"

text \<open>The arguments are the parsed environment variables.\<close>

definition min_free_thresholds :: "rat option \<Rightarrow> int option \<Rightarrow> f64 \<times> i64" where
  "min_free_thresholds pct bytes =
     (or_else (keep_if unit_fraction pct) default_min_free_fraction,
      or_else (keep_if (\<lambda>b. 0 \<le> b) bytes) default_min_free_bytes)"

text \<open>\<open>statvfs\<close> fields to free and total bytes; \<open>i64::try_from\<close> rejects what does not fit.\<close>

definition try_i64 :: "nat \<Rightarrow> i64 option" where
  "try_i64 n = (if int n \<le> i64_max then Some (int n) else None)"

definition fs_free_and_total :: "(nat \<times> nat \<times> nat) option \<Rightarrow> (i64 \<times> i64) option" where
  "fs_free_and_total reading =
     (case reading of
        None \<Rightarrow> None
      | Some (f_bavail, f_blocks, f_frsize) \<Rightarrow>
          (case (try_i64 (sat_mul_u64 f_bavail f_frsize), try_i64 (sat_mul_u64 f_blocks f_frsize)) of
             (Some free, Some whole) \<Rightarrow> Some (free, whole)
           | _ \<Rightarrow> None))"

text \<open>\<open>whole / 2\<close> on \<open>i64\<close> truncates towards zero.\<close>

definition free_floor :: "i64 \<Rightarrow> f64 \<Rightarrow> i64 \<Rightarrow> i64" where
  "free_floor whole pct room =
     (let frac_floor = as_i64 (f64_mul (f64_of_int whole) pct);
          abs_floor = (if room < whole sdiv 2 then room else 0)
      in max frac_floor abs_floor)"

definition free_floor_decision :: "i64 \<Rightarrow> i64 \<Rightarrow> f64 \<Rightarrow> i64 \<Rightarrow> bool \<times> i64" where
  "free_floor_decision free whole pct room =
     (let level = free_floor whole pct room
      in if free < level then (True, level - free) else (False, 0))"

definition below_free_floor_for_policy ::
  "(i64 \<times> i64) option \<Rightarrow> rat option \<Rightarrow> int option \<Rightarrow> f32 option \<Rightarrow> i64 option \<Rightarrow> (bool \<times> i64) option" where
  "below_free_floor_for_policy reading env_frac env_bytes frac_override abs_override =
     (case reading of
        None \<Rightarrow> None
      | Some (free, whole) \<Rightarrow>
          let (frac0, abs0) = min_free_thresholds env_frac env_bytes;
              pct = or_else (keep_if unit_fraction frac_override) frac0;
              room = or_else (keep_if (\<lambda>b. 0 \<le> b) abs_override) abs0
          in Some (free_floor_decision free whole pct room))"

definition credit_move_against_deficit :: "i64 \<Rightarrow> i64 \<Rightarrow> bool \<Rightarrow> i64" where
  "credit_move_against_deficit deficit seg_bytes src_on_floor_fs =
     (if deficit \<le> 0 \<or> \<not> src_on_floor_fs then max deficit 0 else max (deficit - seg_bytes) 0)"

lemma keep_if_Some: "keep_if P x = Some a \<longleftrightarrow> x = Some a \<and> P a"
  by (auto simp: keep_if_def split: option.splits)

lemma or_else_keep_if: "P d \<Longrightarrow> P (or_else (keep_if P x) d)"
  by (auto simp: or_else_def keep_if_def split: option.splits)

lemma default_fraction_ok: "unit_fraction default_min_free_fraction"
  by code_simp

lemma thresholds_valid:
  "min_free_thresholds f b = (pct, room) \<Longrightarrow> unit_fraction pct \<and> 0 \<le> room"
  using or_else_keep_if [of unit_fraction default_min_free_fraction f, OF default_fraction_ok]
    or_else_keep_if [of "\<lambda>b. 0 \<le> b" default_min_free_bytes b]
  by (auto simp: min_free_thresholds_def default_min_free_bytes_def)

lemma free_floor_nonneg: "0 \<le> whole \<Longrightarrow> 0 \<le> pct \<Longrightarrow> 0 \<le> free_floor whole pct room"
  by (simp add: free_floor_def Let_def le_max_iff_disj as_i64_nonneg f64_mul_nonneg f64_of_int_nonneg)

lemma decision_below:
  "free_floor_decision free whole pct room = (True, d) \<longleftrightarrow>
     free < free_floor whole pct room \<and> d = free_floor whole pct room - free"
  by (auto simp: free_floor_decision_def Let_def)

text \<open>The floor check of a policy. An override outside its range is ignored (so the threshold is
  always a fraction below 1 and a non-negative byte count), an absolute headroom of half the disk or
  more is ignored, and a disk is reported low exactly when its free bytes are under the floor. The
  reported deficit is positive, and freeing it (no less) puts the same disk back above the floor.
\<close>

theorem floor_deficit_is_enough:
  assumes "below_free_floor_for_policy (Some (free, whole)) ef eb fo ao = Some (below, deficit)"
    and "0 \<le> free" and "0 \<le> whole"
  shows "\<exists>pct room. unit_fraction pct \<and> 0 \<le> room \<and>
     (\<forall>f. fo = Some f \<and> unit_fraction f \<longrightarrow> pct = f) \<and> (\<forall>b. ao = Some b \<and> 0 \<le> b \<longrightarrow> room = b) \<and>
     (whole sdiv 2 \<le> room \<longrightarrow> free_floor whole pct room = as_i64 (f64_mul (f64_of_int whole) pct)) \<and>
     below = (free < free_floor whole pct room) \<and> (below \<longrightarrow> 0 < deficit) \<and> (\<not> below \<longrightarrow> deficit = 0) \<and>
     (\<forall>freed. free_floor_decision (free + freed) whole pct room = (False, 0) \<longleftrightarrow>
        (if below then deficit \<le> freed else free_floor whole pct room - free \<le> freed))"
proof -
  obtain f0 a0 where th: "min_free_thresholds ef eb = (f0, a0)" by force
  define pct where "pct = or_else (keep_if unit_fraction fo) f0"
  define room where "room = or_else (keep_if (\<lambda>b. 0 \<le> b) ao) a0"
  have ok: "unit_fraction pct" "0 \<le> room"
    using thresholds_valid [OF th] or_else_keep_if [of unit_fraction f0 fo]
      or_else_keep_if [of "\<lambda>b. 0 \<le> b" a0 ao] by (simp_all add: pct_def room_def)
  have dec: "free_floor_decision free whole pct room = (below, deficit)"
    using assms(1) th by (simp add: below_free_floor_for_policy_def Let_def pct_def room_def)
  have half: "whole sdiv 2 \<le> room \<Longrightarrow> free_floor whole pct room = as_i64 (f64_mul (f64_of_int whole) pct)"
    using ok assms(3)
    by (simp add: free_floor_def Let_def unit_fraction_def as_i64_nonneg f64_mul_nonneg f64_of_int_nonneg)
  have over: "\<forall>f. fo = Some f \<and> unit_fraction f \<longrightarrow> pct = f" "\<forall>b. ao = Some b \<and> 0 \<le> b \<longrightarrow> room = b"
    by (simp_all add: pct_def room_def keep_if_def or_else_def)
  have out: "below = (free < free_floor whole pct room)" "below \<longrightarrow> 0 < deficit" "\<not> below \<longrightarrow> deficit = 0"
    "below \<longrightarrow> deficit = free_floor whole pct room - free"
    using dec by (auto simp: free_floor_decision_def Let_def split: if_splits)
  show ?thesis
    by (rule exI [of _ pct], rule exI [of _ room])
      (use ok over half out in \<open>auto simp: free_floor_decision_def Let_def\<close>)
qed

theorem floor_deficit_is_enough_witness:
  "\<exists>pct room. unit_fraction pct \<and>
     below_free_floor_for_policy (Some (10, 1000)) None None (Some 0) (Some 100) = Some (True, 90) \<and>
     free_floor_decision (10 + 90) 1000 pct room = (False, 0)"
proof -
  have b: "below_free_floor_for_policy (Some (10, 1000)) None None (Some 0) (Some 100) = Some (True, 90)"
    by (simp add: below_free_floor_for_policy_def keep_if_def or_else_def unit_fraction_def
        free_floor_decision_def free_floor_def f64_mul_def as_i64_def trunc_rat_def sat_i64_def
        i64_max_def i64_min_def split: prod.split)
  from floor_deficit_is_enough [OF b] obtain p r where
    "unit_fraction p" "\<forall>freed. free_floor_decision (10 + freed) 1000 p r = (False, 0) \<longleftrightarrow> 90 \<le> freed"
    by auto
  then show ?thesis using b by (metis order_refl)
qed

end
