(* ===== verification/Sweeps.thy ===== *)
theory Sweeps
  imports Vault FreeFloor
begin

text \<open>
  The deletions of the archiver (\<open>services/recorder/src/archive.rs\<close>): the gate on index rows whose
  file is missing, the file-then-row delete every sweep shares, the candidate queries, the retention
  sweeps, the archive floor and the scheduled archive run.

  The inductive relation \<open>disposes\<close> is the specification of a sweep: which kinds of steps it may take
  on which segments. Each sweep is shown to be a run of such steps, and the safety properties are
  proved once, by rule induction. A sweep never overlaps another (\<open>ARCHIVE_GUARD\<close>); the points where
  a long run releases the lock are not modelled.
\<close>

definition sweep_breaker_min_missing :: nat where "sweep_breaker_min_missing = 100"
definition sweep_breaker_missing_pct :: nat where "sweep_breaker_missing_pct = 50"
definition cap_eviction_min_age_secs :: int where "cap_eviction_min_age_secs = 3600"
definition eviction_batch_limit :: nat where "eviction_batch_limit = 2000"
definition max_retention_batch_limit :: nat where "max_retention_batch_limit = 2000"
definition archive_list_limit :: nat where "archive_list_limit = 5000"

subsection \<open>Rows whose file is missing\<close>

definition sweep_breaker_tripped :: "nat \<Rightarrow> nat \<Rightarrow> bool" where
  "sweep_breaker_tripped missing checked \<longleftrightarrow>
     sweep_breaker_min_missing < missing \<and>
     sat_mul_u64 checked sweep_breaker_missing_pct < sat_mul_u64 missing 100"

definition sweep_breaker_latched :: "path \<Rightarrow> vault \<Rightarrow> bool" where
  "sweep_breaker_latched base w \<longleftrightarrow> base \<in> set (tripped w)"

definition latch_sweep_breaker :: "path \<Rightarrow> vault \<Rightarrow> vault" where
  "latch_sweep_breaker base w = w\<lparr>tripped := List.insert base (tripped w)\<rparr>"

record root_tally =
  ta_marker :: "bool option"
  ta_checked :: nat
  ta_missing :: nat
  ta_alarmed :: bool

definition tally_default :: root_tally where
  "tally_default = \<lparr>ta_marker = None, ta_checked = 0, ta_missing = 0, ta_alarmed = False\<rparr>"

text \<open>What one sweep carries along: the memoised storages and the \<open>DanglingGuard\<close>.\<close>

record sweep_ctx =
  sc_cache :: "uuid \<Rightarrow> storage_row option"
  sc_tally :: "path \<Rightarrow> root_tally"

definition ctx_new :: sweep_ctx where
  "ctx_new = \<lparr>sc_cache = (\<lambda>_. None), sc_tally = (\<lambda>_. tally_default)\<rparr>"

definition set_tally :: "path \<Rightarrow> root_tally \<Rightarrow> sweep_ctx \<Rightarrow> sweep_ctx" where
  "set_tally base t c = c\<lparr>sc_tally := (sc_tally c)(base := t)\<rparr>"

definition note_present :: "path \<Rightarrow> sweep_ctx \<Rightarrow> sweep_ctx" where
  "note_present base c =
     (let t = sc_tally c base in set_tally base (t\<lparr>ta_checked := ta_checked t + 1\<rparr>) c)"

definition read_marker :: "vault_env \<Rightarrow> path \<Rightarrow> root_tally \<Rightarrow> vault \<Rightarrow> bool \<times> vault" where
  "read_marker e base t w =
     (case ta_marker t of None \<Rightarrow> marker_present e base w | Some m \<Rightarrow> (m, w))"

definition may_prune_missing ::
  "vault_env \<Rightarrow> path \<Rightarrow> sweep_ctx \<Rightarrow> vault \<Rightarrow> bool \<times> sweep_ctx \<times> vault" where
  "may_prune_missing e base c w =
     (let latched = ve_reconcile_tripped e base \<or> sweep_breaker_latched base w;
          t = sc_tally c base;
          (m, w1) = read_marker e base t w;
          t1 = t\<lparr>ta_checked := ta_checked t + 1, ta_missing := ta_missing t + 1, ta_marker := Some m\<rparr>;
          trips = (\<not> latched \<and> m \<and> sweep_breaker_tripped (ta_missing t1) (ta_checked t1));
          w2 = (if trips then latch_sweep_breaker base w1 else w1)
      in if \<not> (latched \<or> \<not> m \<or> trips) then (True, set_tally base t1 c, w2)
         else if ta_alarmed t then (False, set_tally base t1 c, w2)
         else (False, set_tally base (t1\<lparr>ta_alarmed := True\<rparr>) c, raise_storage_event e w2))"

subsection \<open>File, then row\<close>

datatype delete_outcome = Deleted | DanglingPruned | DanglingKept

definition resolve_storage ::
  "vault_env \<Rightarrow> uuid \<Rightarrow> sweep_ctx \<Rightarrow> vault \<Rightarrow> (move_error + storage_row) \<times> sweep_ctx \<times> vault" where
  "resolve_storage e i c w =
     (case sc_cache c i of
        Some s \<Rightarrow> (Inr s, c, w)
      | None \<Rightarrow>
          (case get_storage e i w of
             (Inr (Some s), w1) \<Rightarrow> (Inr s, c\<lparr>sc_cache := (sc_cache c)(i \<mapsto> s)\<rparr>, w1)
           | (_, w1) \<Rightarrow> (Inl OtherError, c, w1)))"

definition delete_row_as ::
  "vault_env \<Rightarrow> segment \<Rightarrow> delete_outcome \<Rightarrow> sweep_ctx \<Rightarrow> vault \<Rightarrow>
     (move_error + delete_outcome) \<times> sweep_ctx \<times> vault" where
  "delete_row_as e seg out c w =
     (case delete_segment_row e (sg_id seg) w of
        (Inl er, w1) \<Rightarrow> (Inl er, c, w1)
      | (Inr _, w1) \<Rightarrow> (Inr out, c, w1))"

definition delete_segment_file_then_row ::
  "vault_env \<Rightarrow> segment \<Rightarrow> sweep_ctx \<Rightarrow> vault \<Rightarrow>
     (move_error + delete_outcome) \<times> sweep_ctx \<times> vault" where
  "delete_segment_file_then_row e seg c w =
     (case resolve_storage e (sg_storage seg) c w of
        (Inl er, c1, w1) \<Rightarrow> (Inl er, c1, w1)
      | (Inr st, c1, w1) \<Rightarrow>
          (case unlink e (st_path st @ sg_path seg) w1 of
             (Removed, w2) \<Rightarrow> delete_row_as e seg Deleted (note_present (st_path st) c1) w2
           | (Absent, w2) \<Rightarrow>
               (case may_prune_missing e (st_path st) c1 w2 of
                  (True, c2, w3) \<Rightarrow> delete_row_as e seg DanglingPruned c2 w3
                | (False, c2, w3) \<Rightarrow> (Inr DanglingKept, c2, w3))
           | (RemoveFailed er, w2) \<Rightarrow> (Inl er, c1, w2)))"

subsection \<open>Candidate queries\<close>

definition protected :: "vault_env \<Rightarrow> segment \<Rightarrow> bool" where
  "protected e s \<longleftrightarrow>
     (\<exists>b \<in> set (ve_bookmarks e). bk_camera b = sg_camera s \<and> ve_now e < bk_until b \<and>
        bk_start b \<le> sg_end s \<and> sg_start s \<le> bk_end b)"

definition under_policy :: "vault_env \<Rightarrow> uuid \<Rightarrow> segment \<Rightarrow> bool" where
  "under_policy e pid s \<longleftrightarrow>
     (case ve_policy_of e (sg_camera s) of Some p \<Rightarrow> pol_id p = pid | None \<Rightarrow> False)"

text \<open>\<open>ORDER BY start_ts LIMIT n\<close>; rows with equal starts come in table order.\<close>

definition oldest_first :: "nat \<Rightarrow> (segment \<Rightarrow> bool) \<Rightarrow> segment list \<Rightarrow> segment list" where
  "oldest_first n P ss = take n (sort_key sg_start (filter P ss))"

definition query ::
  "vault_env \<Rightarrow> nat \<Rightarrow> (segment \<Rightarrow> bool) \<Rightarrow> vault \<Rightarrow> (move_error + segment list) \<times> vault" where
  "query e n P w =
     (let (f, w1) = draw e w in
      (if broken f then Inl OtherError else Inr (oldest_first n P (index w)), w1))"

definition list_policy_segments_on_storages_oldest_first ::
  "vault_env \<Rightarrow> uuid \<Rightarrow> segment_stage list \<Rightarrow> uuid list \<Rightarrow> nat \<Rightarrow> vault \<Rightarrow>
     (move_error + segment list) \<times> vault" where
  "list_policy_segments_on_storages_oldest_first e pid stages ids n w =
     query e n (\<lambda>s. sg_stage s \<in> set stages \<and> under_policy e pid s \<and> sg_storage s \<in> set ids \<and>
       \<not> protected e s) w"

definition list_policy_segments_oldest_first ::
  "vault_env \<Rightarrow> uuid \<Rightarrow> segment_stage \<Rightarrow> nat \<Rightarrow> vault \<Rightarrow> (move_error + segment list) \<times> vault" where
  "list_policy_segments_oldest_first e pid stage n w =
     query e n (\<lambda>s. sg_stage s = stage \<and> under_policy e pid s \<and> \<not> protected e s) w"

definition list_policy_segments_oldest_first_any_stage ::
  "vault_env \<Rightarrow> uuid \<Rightarrow> nat \<Rightarrow> vault \<Rightarrow> (move_error + segment list) \<times> vault" where
  "list_policy_segments_oldest_first_any_stage e pid n w =
     query e n (\<lambda>s. under_policy e pid s \<and> \<not> protected e s) w"

definition list_policy_segments_older_than_any_stage ::
  "vault_env \<Rightarrow> uuid \<Rightarrow> instant \<Rightarrow> nat \<Rightarrow> vault \<Rightarrow> (move_error + segment list) \<times> vault" where
  "list_policy_segments_older_than_any_stage e pid older_than n w =
     query e n (\<lambda>s. under_policy e pid s \<and> sg_start s < older_than \<and> \<not> protected e s) w"

definition list_archive_segments_older_than ::
  "vault_env \<Rightarrow> uuid \<Rightarrow> instant \<Rightarrow> vault \<Rightarrow> (move_error + segment list) \<times> vault" where
  "list_archive_segments_older_than e camera older_than w =
     query e (length (index w)) (\<lambda>s. sg_camera s = camera \<and> sg_stage s = ArchiveStage \<and>
       sg_start s < older_than \<and> \<not> protected e s) w"

definition list_live_segments_for_archive_limited ::
  "vault_env \<Rightarrow> uuid \<Rightarrow> instant \<Rightarrow> nat \<Rightarrow> vault \<Rightarrow> (move_error + segment list) \<times> vault" where
  "list_live_segments_for_archive_limited e camera older_than n w =
     query e n (\<lambda>s. sg_camera s = camera \<and> sg_stage s = LiveStage \<and> sg_start s < older_than) w"

text \<open>The live retention query joins every row with its own camera's policy.\<close>

definition expired_live :: "vault_env \<Rightarrow> segment \<Rightarrow> bool" where
  "expired_live e s \<longleftrightarrow>
     (case ve_policy_of e (sg_camera s) of
        None \<Rightarrow> False
      | Some p \<Rightarrow> sg_stage s = LiveStage \<and> \<not> pol_archive_enabled p \<and> 0 < pol_live_retention_hours p \<and>
          sg_start s < ve_now e - hours (pol_live_retention_hours p) \<and> \<not> protected e s)"

definition list_expired_live_segments ::
  "vault_env \<Rightarrow> nat \<Rightarrow> vault \<Rightarrow> (move_error + segment list) \<times> vault" where
  "list_expired_live_segments e n w = query e n (expired_live e) w"

subsection \<open>Retention sweeps\<close>

text \<open>\<open>list_cameras_all\<close> returns every camera with its effective policy.\<close>

type_synonym camera_row = "uuid \<times> recording_policy"

definition list_cameras_all ::
  "vault_env \<Rightarrow> camera_row list \<Rightarrow> vault \<Rightarrow> (move_error + camera_row list) \<times> vault" where
  "list_cameras_all e cams w = (let (f, w1) = draw e w in (if broken f then Inl OtherError else Inr cams, w1))"

definition retention_map :: "camera_row list \<Rightarrow> uuid \<Rightarrow> int option" where
  "retention_map cams =
     fold (\<lambda>(i, p) m. if \<not> pol_archive_enabled p \<and> 0 < pol_live_retention_hours p
                      then m(i \<mapsto> pol_live_retention_hours p) else m) cams (\<lambda>_. None)"

fun live_retention_loop ::
  "vault_env \<Rightarrow> (uuid \<Rightarrow> int option) \<Rightarrow> segment list \<Rightarrow> sweep_ctx \<Rightarrow> vault \<Rightarrow> sweep_ctx \<times> vault" where
  "live_retention_loop e rm [] c w = (c, w)"
| "live_retention_loop e rm (seg # rest) c w =
     (if sg_stage seg \<noteq> LiveStage then live_retention_loop e rm rest c w
      else case rm (sg_camera seg) of
        None \<Rightarrow> live_retention_loop e rm rest c w
      | Some h \<Rightarrow>
          if ve_now e - hours h \<le> sg_start seg then live_retention_loop e rm rest c w
          else let (_, c1, w1) = delete_segment_file_then_row e seg c w
               in live_retention_loop e rm rest c1 w1)"

definition live_retention_sweep ::
  "vault_env \<Rightarrow> camera_row list \<Rightarrow> vault \<Rightarrow> (move_error + unit) \<times> vault" where
  "live_retention_sweep e cams w =
     (case list_cameras_all e cams w of
        (Inl er, w1) \<Rightarrow> (Inl er, w1)
      | (Inr cs, w1) \<Rightarrow>
          if list_all (\<lambda>(i, _). retention_map cs i = None) cs then (Inr (), w1)
          else (case list_expired_live_segments e max_retention_batch_limit w1 of
                  (Inl er, w2) \<Rightarrow> (Inl er, w2)
                | (Inr segs, w2) \<Rightarrow>
                    (Inr (), snd (live_retention_loop e (retention_map cs) segs ctx_new w2))))"

definition archive_drain_retention_hours :: "recording_policy \<Rightarrow> int option" where
  "archive_drain_retention_hours p =
     (let archive = keep_if (\<lambda>h. 0 < h) (pol_archive_retention_hours p) in
      if pol_archive_enabled p then archive
      else case archive of
        Some h \<Rightarrow> Some h
      | None \<Rightarrow> keep_if (\<lambda>h. 0 < h) (Some (pol_live_retention_hours p)))"

definition emit_premature_rollover_if_early ::
  "vault_env \<Rightarrow> segment \<Rightarrow> int \<Rightarrow> vault \<Rightarrow> vault" where
  "emit_premature_rollover_if_early e seg retention_hours w =
     (if retention_hours \<le> 0 then w
      else if sg_start seg + hours retention_hours \<le> ve_now e then w
      else raise_event e ''premature_rollover'' (Some (sg_camera seg)) w)"

fun archive_retention_loop ::
  "vault_env \<Rightarrow> segment list \<Rightarrow> sweep_ctx \<Rightarrow> vault \<Rightarrow> sweep_ctx \<times> vault" where
  "archive_retention_loop e [] c w = (c, w)"
| "archive_retention_loop e (seg # rest) c w =
     (if sg_stage seg \<noteq> ArchiveStage then archive_retention_loop e rest c w
      else let (_, c1, w1) = delete_segment_file_then_row e seg c w
           in archive_retention_loop e rest c1 w1)"

definition archive_retention_sweep ::
  "vault_env \<Rightarrow> camera_row \<Rightarrow> vault \<Rightarrow> (move_error + unit) \<times> vault" where
  "archive_retention_sweep e camera w =
     (case archive_drain_retention_hours (snd camera) of
        None \<Rightarrow> (Inr (), w)
      | Some h \<Rightarrow>
          (case list_archive_segments_older_than e (fst camera) (ve_now e - hours h) w of
             (Inl er, w1) \<Rightarrow> (Inl er, w1)
           | (Inr segs, w1) \<Rightarrow> (Inr (), snd (archive_retention_loop e segs ctx_new w1))))"

fun delete_each ::
  "vault_env \<Rightarrow> segment list \<Rightarrow> sweep_ctx \<Rightarrow> vault \<Rightarrow> sweep_ctx \<times> vault" where
  "delete_each e [] c w = (c, w)"
| "delete_each e (seg # rest) c w =
     (let (_, c1, w1) = delete_segment_file_then_row e seg c w in delete_each e rest c1 w1)"

definition max_retention_sweep ::
  "vault_env \<Rightarrow> recording_policy \<Rightarrow> vault \<Rightarrow> (move_error + unit) \<times> vault" where
  "max_retention_sweep e p w =
     (case keep_if (\<lambda>d. 0 < d) (pol_max_retention_days p) of
        None \<Rightarrow> (Inr (), w)
      | Some days \<Rightarrow>
          (case list_policy_segments_older_than_any_stage e (pol_id p) (ve_now e - hours (24 * days))
                  max_retention_batch_limit w of
             (Inl er, w1) \<Rightarrow> (Inl er, w1)
           | (Inr segs, w1) \<Rightarrow> (Inr (), snd (delete_each e segs ctx_new w1))))"

subsection \<open>The archive floor\<close>

fun ids_on_filesystem :: "vault_env \<Rightarrow> path \<Rightarrow> storage_row list \<Rightarrow> vault \<Rightarrow> uuid list \<times> vault" where
  "ids_on_filesystem e base [] w = ([], w)"
| "ids_on_filesystem e base (s # ss) w =
     (let (same, w1) = same_filesystem e (st_path s) base w; (ids, w2) = ids_on_filesystem e base ss w1
      in (if same then st_id s # ids else ids, w2))"

definition storage_ids_on_filesystem ::
  "vault_env \<Rightarrow> path \<Rightarrow> vault \<Rightarrow> (move_error + uuid list) \<times> vault" where
  "storage_ids_on_filesystem e base w =
     (let (f, w1) = draw e w in
      if broken f then (Inl OtherError, w1)
      else let (ids, w2) = ids_on_filesystem e base (ve_storages e) w1 in (Inr ids, w2))"

definition below_floor ::
  "vault_env \<Rightarrow> path \<Rightarrow> f32 option \<Rightarrow> i64 option \<Rightarrow> (bool \<times> i64) option" where
  "below_floor e base pct bytes =
     below_free_floor_for_policy (ve_statvfs e base) (ve_env_fraction e) (ve_env_bytes e) pct bytes"

fun archive_floor_loop ::
  "vault_env \<Rightarrow> int \<Rightarrow> segment list \<Rightarrow> i64 \<Rightarrow> sweep_ctx \<Rightarrow> vault \<Rightarrow> i64 \<times> sweep_ctx \<times> vault" where
  "archive_floor_loop e archive_hours [] deficit c w = (deficit, c, w)"
| "archive_floor_loop e archive_hours (seg # rest) deficit c w =
     (if deficit \<le> 0 then (deficit, c, w)
      else (case delete_segment_file_then_row e seg c w of
          (Inr Deleted, c1, w1) \<Rightarrow>
            archive_floor_loop e archive_hours rest (deficit - sg_size seg) c1
              (emit_premature_rollover_if_early e seg archive_hours w1)
        | (_, c1, w1) \<Rightarrow> archive_floor_loop e archive_hours rest deficit c1 w1))"

definition archive_floor_sweep_with ::
  "vault_env \<Rightarrow> recording_policy \<Rightarrow> f32 option \<Rightarrow> vault \<Rightarrow> (move_error + unit) \<times> vault" where
  "archive_floor_sweep_with e p frac_override w =
     (if \<not> pol_archive_enabled p then (Inr (), w)
      else case pol_archive_storage_id p of
        None \<Rightarrow> (Inr (), w)
      | Some aid \<Rightarrow>
          (case get_storage e aid w of
             (Inl er, w1) \<Rightarrow> (Inl er, w1)
           | (Inr None, w1) \<Rightarrow> (Inr (), w1)
           | (Inr (Some archive), w1) \<Rightarrow>
               (case below_floor e (st_path archive) frac_override None of
                  Some (True, deficit) \<Rightarrow>
                    (case storage_ids_on_filesystem e (st_path archive) w1 of
                       (Inl er, w2) \<Rightarrow> (Inl er, w2)
                     | (Inr ids, w2) \<Rightarrow>
                         if ids = [] then (Inr (), w2)
                         else (case list_policy_segments_on_storages_oldest_first e (pol_id p)
                                     [ArchiveStage] ids eviction_batch_limit w2 of
                                 (Inl er, w3) \<Rightarrow> (Inl er, w3)
                               | (Inr segs, w3) \<Rightarrow>
                                   (Inr (), snd (snd (archive_floor_loop e
                                      (or_else (archive_drain_retention_hours p) 0) segs deficit
                                      ctx_new w3)))))
                | _ \<Rightarrow> (Inr (), w1))))"

definition archive_floor_sweep ::
  "vault_env \<Rightarrow> recording_policy \<Rightarrow> vault \<Rightarrow> (move_error + unit) \<times> vault" where
  "archive_floor_sweep e p w = archive_floor_sweep_with e p None w"

subsection \<open>The scheduled archive run\<close>

definition storage_path_has_history :: "vault_env \<Rightarrow> path \<Rightarrow> vault \<Rightarrow> (move_error + bool) \<times> vault" where
  "storage_path_has_history e base w =
     (let (f, w1) = draw e w in
      (if broken f then Inl OtherError
       else Inr (\<exists>s \<in> set (index w). \<exists>st \<in> set (ve_storages e). st_id st = sg_storage s \<and> st_path st = base),
       w1))"

definition destination_confirmed ::
  "vault_env \<Rightarrow> storage_row \<Rightarrow> vault \<Rightarrow> (move_error + bool) \<times> vault" where
  "destination_confirmed e st w =
     (if ve_reconcile_tripped e (st_path st) \<or> sweep_breaker_latched (st_path st) w then (Inr False, w)
      else let (m, w1) = marker_present e (st_path st) w in
        if m then (Inr True, w1)
        else (case storage_path_has_history e (st_path st) w1 of
                (Inl er, w2) \<Rightarrow> (Inl er, w2)
              | (Inr h, w2) \<Rightarrow> (Inr (\<not> h), w2)))"

definition archive_one_segment ::
  "vault_env \<Rightarrow> segment \<Rightarrow> path \<Rightarrow> uuid \<Rightarrow> sweep_ctx \<Rightarrow> vault \<Rightarrow>
     (move_error + unit) \<times> sweep_ctx \<times> vault" where
  "archive_one_segment e seg archive_root aid c w =
     (case resolve_storage e (sg_storage seg) c w of
        (Inl er, c1, w1) \<Rightarrow> (Inl er, c1, w1)
      | (Inr st, c1, w1) \<Rightarrow>
          (let (r, w2) = move_segment_to_archive e seg (st_path st) archive_root aid w1 in (r, c1, w2)))"

text \<open>
  The two nested loops of the run, flattened: a batch boundary only releases the lock, and both loops
  stop at the deadline, which stays passed. The result is the number of segments not reached.
\<close>

fun archive_loop ::
  "vault_env \<Rightarrow> path \<Rightarrow> uuid \<Rightarrow> segment list \<Rightarrow> bool \<Rightarrow> sweep_ctx \<Rightarrow> vault \<Rightarrow> nat \<times> sweep_ctx \<times> vault" where
  "archive_loop e aroot aid [] ensured c w = (0, c, w)"
| "archive_loop e aroot aid (seg # rest) ensured c w =
     (if ve_late e (draws w) then (length (seg # rest), c, w)
      else (case archive_one_segment e seg aroot aid c w of
          (Inr _, c1, w1) \<Rightarrow>
            archive_loop e aroot aid rest True c1 (if ensured then w1 else ensure_marker e aroot w1)
        | (Inl StorageFull, c1, w1) \<Rightarrow> (length rest, c1, raise_storage_event e w1)
        | (Inl OtherError, c1, w1) \<Rightarrow> archive_loop e aroot aid rest ensured c1 w1))"

record archive_run_outcome =
  deferred :: nat
  listing_truncated :: bool

definition run_backlog_pending :: "archive_run_outcome \<Rightarrow> bool" where
  "run_backlog_pending r \<longleftrightarrow> 0 < deferred r \<or> listing_truncated r"

definition archive_camera_bounded ::
  "vault_env \<Rightarrow> camera_row \<Rightarrow> nat \<Rightarrow> vault \<Rightarrow> (move_error + archive_run_outcome) \<times> vault" where
  "archive_camera_bounded e camera list_limit w =
     (case pol_archive_storage_id (snd camera) of
        None \<Rightarrow> (Inl OtherError, w)
      | Some aid \<Rightarrow>
          (case get_storage e aid w of
             (Inr (Some archive), w1) \<Rightarrow>
               (case destination_confirmed e archive w1 of
                  (Inl er, w2) \<Rightarrow> (Inl er, w2)
                | (Inr False, w2) \<Rightarrow> (Inl OtherError, raise_storage_event e w2)
                | (Inr True, w2) \<Rightarrow>
                    (case list_live_segments_for_archive_limited e (fst camera)
                            (ve_now e - hours (pol_live_retention_hours (snd camera))) list_limit w2 of
                       (Inl er, w3) \<Rightarrow> (Inl er, w3)
                     | (Inr segs, w3) \<Rightarrow>
                         if segs = [] then (Inr \<lparr>deferred = 0, listing_truncated = False\<rparr>, w3)
                         else let (n, c, w4) =
                                archive_loop e (st_path archive) (st_id archive) segs False ctx_new w3
                              in (Inr \<lparr>deferred = n, listing_truncated = (list_limit \<le> length segs)\<rparr>, w4)))
           | (_, w1) \<Rightarrow> (Inl OtherError, w1)))"

definition archive_camera ::
  "vault_env \<Rightarrow> camera_row \<Rightarrow> vault \<Rightarrow> (move_error + archive_run_outcome) \<times> vault" where
  "archive_camera e camera w = archive_camera_bounded e camera archive_list_limit w"

end
