(* ===== verification/SweepSafety.thy ===== *)
theory SweepSafety
  imports Sweeps
begin

text \<open>
  What every sweep keeps. \<open>disposal_step\<close> lists the kinds of steps a sweep is made of; \<open>keep\<close> is the
  set of segments it may not delete, \<open>listed\<close> the segments it was given and \<open>moving\<close> says whether it
  archives. The rule inductions here
  show that a run of such steps keeps the footage of the segments in \<open>keep\<close> and never drops a row of a
  storage that is not confirmed; the theories of the sweeps only have to show that they are such runs.

  \<open>tidy\<close> is the well-formedness of the index: ids are unique and no two segments share a file, nor a
  place in any archive. The archive path of a segment is its camera, its day and its file name, so the
  latter says that no two segments of one camera and day have the same file name.
\<close>

definition spot :: "vault_env \<Rightarrow> segment \<Rightarrow> path option" where
  "spot e s = map_option (\<lambda>st. ve_canon e (st_path st @ sg_path s)) (storage_of e (sg_storage s))"

definition dest :: "vault_env \<Rightarrow> path \<Rightarrow> segment \<Rightarrow> path option" where
  "dest e base s =
     map_option (\<lambda>rel. ve_canon e (base @ rel))
       (archive_relative_path e (sg_camera s) (sg_start s) (sg_path s))"

definition places :: "vault_env \<Rightarrow> segment \<Rightarrow> path set" where
  "places e s = set_option (spot e s) \<union> (\<Union>st \<in> set (ve_storages e). set_option (dest e (st_path st) s))"

definition marker_files :: "vault_env \<Rightarrow> path set" where
  "marker_files e = (\<lambda>st. ve_canon e (storage_marker_path (st_path st))) ` set (ve_storages e)"

text \<open>A segment taken from the index earlier still does not interfere with other segments.\<close>

definition fits :: "vault_env \<Rightarrow> segment list \<Rightarrow> segment \<Rightarrow> bool" where
  "fits e ss seg \<longleftrightarrow> places e seg \<inter> marker_files e = {} \<and>
     (\<forall>s \<in> set ss. sg_id s \<noteq> sg_id seg \<longrightarrow> places e s \<inter> places e seg = {})"

definition tidy :: "vault_env \<Rightarrow> segment list \<Rightarrow> bool" where
  "tidy e ss \<longleftrightarrow> distinct (map sg_id ss) \<and> (\<forall>s \<in> set ss. fits e ss s)"

definition cache_ok :: "vault_env \<Rightarrow> sweep_ctx \<Rightarrow> bool" where
  "cache_ok e c \<longleftrightarrow> (\<forall>i s. sc_cache c i = Some s \<longrightarrow> storage_of e i = Some s)"

lemma ctx_new_ok [simp]: "cache_ok e ctx_new"
  by (simp add: cache_ok_def ctx_new_def)

lemma storage_of_mem: "storage_of e i = Some st \<Longrightarrow> st \<in> set (ve_storages e) \<and> st_id st = i"
  by (auto simp: storage_of_def find_Some_iff)

lemma spot_places: "spot e s = Some q \<Longrightarrow> q \<in> places e s"
  by (simp add: places_def)

lemma dest_places: "st \<in> set (ve_storages e) \<Longrightarrow> dest e (st_path st) s = Some q \<Longrightarrow> q \<in> places e s"
  by (auto simp: places_def)

lemma archive_relative_path_again:
  assumes "archive_relative_path e cam t p = Some rel"
  shows "archive_relative_path e cam t rel = Some rel"
  using assms
  by (auto simp: archive_relative_path_def file_name_def Let_def split: option.splits prod.splits if_splits)

lemma places_archived:
  assumes "storage_of e aid = Some ast"
    and "archive_relative_path e (sg_camera s) (sg_start s) (sg_path s) = Some rel"
  shows "places e (archived aid rel s) \<subseteq> places e s"
    and "spot e (archived aid rel s) = dest e (st_path ast) s"
  using assms storage_of_mem [OF assms(1)] archive_relative_path_again [OF assms(2)]
  by (auto simp: places_def spot_def dest_def)

lemma tidy_fits: "tidy e ss \<Longrightarrow> s \<in> set ss \<Longrightarrow> fits e ss s"
  by (simp add: tidy_def)

lemma fits_subset: "fits e ss seg \<Longrightarrow> set ts \<subseteq> set ss \<Longrightarrow> fits e ts seg"
  unfolding fits_def by (meson subsetD)

lemma tidy_subset:
  "tidy e ss \<Longrightarrow> set ts \<subseteq> set ss \<Longrightarrow> distinct (map sg_id ts) \<Longrightarrow> tidy e ts"
  unfolding tidy_def by (meson fits_subset subsetD)

lemma tidy_filter: "tidy e ss \<Longrightarrow> tidy e (filter P ss)"
  by (rule tidy_subset) (auto simp: tidy_def distinct_map inj_on_def)

lemma flip_row_cases:
  "t \<in> set (flip_row i aid rel ss) \<Longrightarrow>
     \<exists>s \<in> set ss. (t = s \<and> sg_id s \<noteq> i) \<or> (t = archived aid rel s \<and> sg_id s = i)"
  by (auto simp: flip_row_def split: if_splits)

lemma id_unique: "distinct (map sg_id ss) \<Longrightarrow> s \<in> set ss \<Longrightarrow> t \<in> set ss \<Longrightarrow> sg_id s = sg_id t \<Longrightarrow> s = t"
  by (auto simp: distinct_map inj_on_def)

lemma flip_row_places:
  assumes "distinct (map sg_id ss)" and "seg \<in> set ss" and "storage_of e aid = Some ast"
    and "archive_relative_path e (sg_camera seg) (sg_start seg) (sg_path seg) = Some rel"
    and "t \<in> set (flip_row (sg_id seg) aid rel ss)"
  shows "\<exists>s \<in> set ss. sg_id t = sg_id s \<and> places e t \<subseteq> places e s"
proof -
  obtain s where s: "s \<in> set ss" "(t = s \<and> sg_id s \<noteq> sg_id seg) \<or> (t = archived aid rel s \<and> sg_id s = sg_id seg)"
    using flip_row_cases [OF assms(5)] by blast
  then have "t = s \<or> (t = archived aid rel seg \<and> s = seg)" using id_unique [OF assms(1) _ assms(2)] by auto
  then show ?thesis using places_archived(1) [OF assms(3,4)] s(1) by auto
qed

lemma fits_flip:
  assumes "distinct (map sg_id ss)" and "seg \<in> set ss" and "storage_of e aid = Some ast"
    and "archive_relative_path e (sg_camera seg) (sg_start seg) (sg_path seg) = Some rel"
    and "fits e ss x"
  shows "fits e (flip_row (sg_id seg) aid rel ss) x"
proof -
  have "places e t \<inter> places e x = {}"
    if t: "t \<in> set (flip_row (sg_id seg) aid rel ss)" "sg_id t \<noteq> sg_id x" for t
  proof -
    obtain s where "s \<in> set ss" "sg_id t = sg_id s" "places e t \<subseteq> places e s"
      using flip_row_places [OF assms(1-4) t(1)] by blast
    then show ?thesis using assms(5) t(2) unfolding fits_def by fastforce
  qed
  then show ?thesis using assms(5) by (simp add: fits_def)
qed

lemma fits_smaller: "fits e ss x \<Longrightarrow> places e y \<subseteq> places e x \<Longrightarrow> sg_id y = sg_id x \<Longrightarrow> fits e ss y"
  unfolding fits_def by (metis (no_types, opaque_lifting) disjoint_iff subsetD)

lemma tidy_flip:
  assumes "tidy e ss" and "seg \<in> set ss" and "storage_of e aid = Some ast"
    and "archive_relative_path e (sg_camera seg) (sg_start seg) (sg_path seg) = Some rel"
  shows "tidy e (flip_row (sg_id seg) aid rel ss)"
proof -
  have d: "distinct (map sg_id ss)" using assms(1) by (simp add: tidy_def)
  have "fits e (flip_row (sg_id seg) aid rel ss) t" if t: "t \<in> set (flip_row (sg_id seg) aid rel ss)" for t
  proof -
    obtain s where s: "s \<in> set ss" "sg_id t = sg_id s" "places e t \<subseteq> places e s"
      using flip_row_places [OF d assms(2-4) t] by blast
    show ?thesis
      by (rule fits_smaller [OF fits_flip [OF d assms(2-4) tidy_fits [OF assms(1) s(1)]] s(3,2)])
  qed
  then show ?thesis using d by (simp add: tidy_def)
qed

subsection \<open>What the shared operations do\<close>

lemma latch_frame [simp]:
  "disk (latch_sweep_breaker b w) = disk w" "index (latch_sweep_breaker b w) = index w"
  "set (tripped (latch_sweep_breaker b w)) = insert b (set (tripped w))"
  by (simp_all add: latch_sweep_breaker_def)

lemma set_tally_frame [simp]:
  "sc_cache (set_tally b t c) = sc_cache c" "sc_tally (set_tally b t c) = (sc_tally c)(b := t)"
  by (simp_all add: set_tally_def)

lemma note_present_cache [simp]: "sc_cache (note_present b c) = sc_cache c"
  by (simp add: note_present_def Let_def)

lemma read_marker_frame [simp]:
  "disk (snd (read_marker e b t w)) = disk w" "index (snd (read_marker e b t w)) = index w"
  "tripped (snd (read_marker e b t w)) = tripped w"
  by (simp_all add: read_marker_def split: option.split)

lemma may_prune_frame [simp]:
  "disk (snd (snd (may_prune_missing e b c w))) = disk w"
  "index (snd (snd (may_prune_missing e b c w))) = index w"
  "sc_cache (fst (snd (may_prune_missing e b c w))) = sc_cache c"
  by (auto simp: may_prune_missing_def Let_def case_prod_beta)

lemma may_prune_tripped:
  "set (tripped w) \<subseteq> set (tripped (snd (snd (may_prune_missing e b c w))))"
  by (auto simp: may_prune_missing_def Let_def case_prod_beta)

lemma delete_row_frame [simp]:
  "disk (snd (delete_segment_row e i w)) = disk w"
  "tripped (snd (delete_segment_row e i w)) = tripped w"
  by (simp_all add: delete_segment_row_def draw_def)

lemma delete_row_index:
  "index (snd (delete_segment_row e i w)) = index w \<or>
   index (snd (delete_segment_row e i w)) = filter (\<lambda>s. sg_id s \<noteq> i) (index w)"
  by (simp add: delete_segment_row_def draw_def)

lemma delete_row_as_frame [simp]:
  "disk (snd (snd (delete_row_as e seg out c w))) = disk w"
  "tripped (snd (snd (delete_row_as e seg out c w))) = tripped w"
  "fst (snd (delete_row_as e seg out c w)) = c"
  "snd (snd (delete_row_as e seg out c w)) = snd (delete_segment_row e (sg_id seg) w)"
  by (simp_all add: delete_row_as_def case_prod_beta split: sum.split)

lemma resolve_storage_frame [simp]:
  "disk (snd (snd (resolve_storage e i c w))) = disk w"
  "index (snd (snd (resolve_storage e i c w))) = index w"
  "tripped (snd (snd (resolve_storage e i c w))) = tripped w"
  "sc_tally (fst (snd (resolve_storage e i c w))) = sc_tally c"
  by (simp_all add: resolve_storage_def case_prod_beta split: option.split sum.split)

lemma resolve_storage_ok:
  assumes "cache_ok e c"
  shows "cache_ok e (fst (snd (resolve_storage e i c w)))"
    and "resolve_storage e i c w = (Inr st, c', w') \<Longrightarrow> storage_of e i = Some st"
  using assms
  by (auto simp: resolve_storage_def cache_ok_def get_storage_def draw_def
      split: option.splits sum.splits prod.splits if_splits)

lemma delete_cache_ok:
  assumes "cache_ok e c"
  shows "cache_ok e (fst (snd (delete_segment_file_then_row e seg c w)))"
  using resolve_storage_ok(1) [OF assms, of "sg_storage seg" w]
  by (simp add: delete_segment_file_then_row_def case_prod_beta cache_ok_def
      split: sum.split removal.split bool.split)

lemma delete_index:
  "index (snd (snd (delete_segment_file_then_row e seg c w))) = index w \<or>
   index (snd (snd (delete_segment_file_then_row e seg c w))) = filter (\<lambda>s. sg_id s \<noteq> sg_id seg) (index w)"
proof -
  have "index v = index w \<Longrightarrow> index (snd (delete_segment_row e (sg_id seg) v)) = index w \<or>
      index (snd (delete_segment_row e (sg_id seg) v)) = filter (\<lambda>s. sg_id s \<noteq> sg_id seg) (index w)" for v
    using delete_row_index [of e "sg_id seg" v] by auto
  then show ?thesis
    by (auto simp: delete_segment_file_then_row_def case_prod_beta
        split: sum.split removal.split bool.split)
qed

lemma delete_disk:
  assumes "cache_ok e c" and "spot e seg \<noteq> Some q"
  shows "disk (snd (snd (delete_segment_file_then_row e seg c w))) q = disk w q"
proof (cases "resolve_storage e (sg_storage seg) c w")
  case (fields x c1 w1)
  have w1: "disk w1 = disk w" using resolve_storage_frame(1) [of e "sg_storage seg" c w] fields by simp
  show ?thesis
  proof (cases x)
    case (Inl er)
    then show ?thesis using fields w1 by (simp add: delete_segment_file_then_row_def)
  next
    case (Inr st)
    have "q \<noteq> ve_canon e (st_path st @ sg_path seg)"
      using resolve_storage_ok(2) [OF assms(1)] fields Inr assms(2) by (auto simp: spot_def)
    then show ?thesis using fields Inr w1
      by (simp add: delete_segment_file_then_row_def case_prod_beta unlink_other
          split: removal.split bool.split)
  qed
qed

lemma delete_tripped:
  "set (tripped w) \<subseteq> set (tripped (snd (snd (delete_segment_file_then_row e seg c w))))"
proof -
  have "tripped v = tripped w \<Longrightarrow>
      set (tripped w) \<subseteq> set (tripped (snd (snd (may_prune_missing e b d v))))" for v b d
    using may_prune_tripped [of v e b d] by simp
  then show ?thesis
    by (simp add: delete_segment_file_then_row_def case_prod_beta
        split: sum.split removal.split bool.split)
qed

lemma ensure_vault_marker_frame [simp]:
  "index (ensure_marker e b w) = index w" "tripped (ensure_marker e b w) = tripped w"
  by (simp_all add: ensure_marker_def Let_def case_prod_beta put_file_def)

lemma ensure_vault_marker_other:
  "q \<noteq> ve_canon e (storage_marker_path b) \<Longrightarrow> disk (ensure_marker e b w) q = disk w q"
  by (simp add: ensure_marker_def Let_def case_prod_beta put_file_def)

subsection \<open>Steps of a sweep\<close>

inductive disposal_step ::
  "vault_env \<Rightarrow> bool \<Rightarrow> segment set \<Rightarrow> uuid set \<Rightarrow> sweep_ctx \<times> vault \<Rightarrow> sweep_ctx \<times> vault \<Rightarrow> bool"
  for e moving listed keep where
  quiet: "disk w' = disk w \<Longrightarrow> index w' = index w \<Longrightarrow> set (tripped w) \<subseteq> set (tripped w') \<Longrightarrow>
     (cache_ok e c \<longrightarrow> cache_ok e c') \<Longrightarrow> sc_tally c' = sc_tally c \<Longrightarrow>
     disposal_step e moving listed keep (c, w) (c', w')"
| present: "disposal_step e moving listed keep (c, w) (note_present base c, w)"
| delete: "seg \<in> listed \<Longrightarrow> sg_id seg \<notin> keep \<Longrightarrow> fits e (index w) seg \<Longrightarrow>
     delete_segment_file_then_row e seg c w = (r, c', w') \<Longrightarrow>
     disposal_step e moving listed keep (c, w) (c', w')"
| move: "moving \<Longrightarrow> seg \<in> set (index w) \<Longrightarrow> storage_of e (sg_storage seg) = Some st \<Longrightarrow>
     storage_of e aid = Some ast \<Longrightarrow>
     move_segment_to_archive e seg (st_path st) (st_path ast) aid w = (r, w') \<Longrightarrow>
     disposal_step e moving listed keep (c, w) (c, w')"
| prune: "moving \<Longrightarrow> seg \<in> set (index w) \<Longrightarrow> storage_of e (sg_storage seg) = Some st \<Longrightarrow>
     disk w (ve_canon e (st_path st @ sg_path seg)) = None \<Longrightarrow>
     may_prune_missing e (st_path st) c w = (True, c1, w1) \<Longrightarrow>
     delete_segment_row e (sg_id seg) w1 = (r, w2) \<Longrightarrow>
     disposal_step e moving listed keep (c, w) (c1, w2)"
| refuse: "may_prune_missing e base c w = (False, c1, w1) \<Longrightarrow>
     disposal_step e moving listed keep (c, w) (c1, w1)"
| marker: "moving \<Longrightarrow> st \<in> set (ve_storages e) \<Longrightarrow>
     disposal_step e moving listed keep (c, w) (c, ensure_marker e (st_path st) w)"

abbreviation disposes ::
  "vault_env \<Rightarrow> bool \<Rightarrow> segment set \<Rightarrow> uuid set \<Rightarrow> sweep_ctx \<times> vault \<Rightarrow> sweep_ctx \<times> vault \<Rightarrow> bool" where
  "disposes e moving listed keep \<equiv> (disposal_step e moving listed keep)\<^sup>*\<^sup>*"

text \<open>What is kept: the row in place with its bytes, or a row of the archive with equal content.\<close>

definition content_at :: "vault_env \<Rightarrow> vault \<Rightarrow> segment \<Rightarrow> bytes \<Rightarrow> bool" where
  "content_at e w s b \<longleftrightarrow> s \<in> set (index w) \<and>
     (\<exists>q b'. spot e s = Some q \<and> disk w q = Some b' \<and> same_content e b b')"

definition survives :: "vault_env \<Rightarrow> vault \<Rightarrow> segment \<Rightarrow> bytes \<Rightarrow> bool" where
  "survives e w s b \<longleftrightarrow> content_at e w s b \<or> (\<exists>aid rel. content_at e w (archived aid rel s) b)"

definition unmoved :: "vault_env \<Rightarrow> segment \<Rightarrow> vault \<Rightarrow> vault \<Rightarrow> bool" where
  "unmoved e s w w' \<longleftrightarrow> s \<in> set (index w') \<and> (\<forall>q. spot e s = Some q \<longrightarrow> disk w' q = disk w q)"

definition preserves :: "vault_env \<Rightarrow> bool \<Rightarrow> uuid set \<Rightarrow> vault \<Rightarrow> vault \<Rightarrow> bool" where
  "preserves e moving keep w w' \<longleftrightarrow>
     (\<forall>s \<in> set (index w). sg_id s \<in> keep \<longrightarrow>
        (\<not> moving \<longrightarrow> unmoved e s w w') \<and>
        (\<forall>b. content_at e w s b \<longrightarrow> survives e w' s b))"

lemma archived_twice [simp]: "archived a r (archived a' r' s) = archived a r s"
  by (simp add: archived_def)

lemma unmoved_content: "unmoved e s w w' \<Longrightarrow> content_at e w s b \<Longrightarrow> content_at e w' s b"
  by (auto simp: unmoved_def content_at_def)

lemma preserves_refl [simp]: "preserves e moving keep w w"
  by (auto simp: preserves_def unmoved_def survives_def)

lemma content_at_id: "content_at e w s b \<Longrightarrow> s \<in> set (index w)"
  by (simp add: content_at_def)

lemma preserves_survives:
  assumes "preserves e moving keep w w'" and "survives e w s b" and "sg_id s \<in> keep"
  shows "survives e w' s b"
  using assms(2) unfolding survives_def [of e w]
proof
  assume "content_at e w s b"
  then show ?thesis using assms(1,3) content_at_id unfolding preserves_def by blast
next
  assume "\<exists>aid rel. content_at e w (archived aid rel s) b"
  then obtain aid rel where c: "content_at e w (archived aid rel s) b" by blast
  then have "survives e w' (archived aid rel s) b"
    using assms(1,3) content_at_id [OF c] unfolding preserves_def by force
  then show ?thesis by (auto simp: survives_def)
qed

lemma preserves_trans:
  assumes a: "preserves e moving keep w w1" and b: "preserves e moving keep w1 w2"
  shows "preserves e moving keep w w2"
  unfolding preserves_def
proof (intro ballI impI conjI allI)
  fix s assume s: "s \<in> set (index w)" "sg_id s \<in> keep"
  { assume m: "\<not> moving"
    have u: "unmoved e s w w1" using a s m by (simp add: preserves_def)
    then have "s \<in> set (index w1)" by (simp add: unmoved_def)
    then have "unmoved e s w1 w2" using b s m by (simp add: preserves_def)
    with u show "unmoved e s w w2" by (auto simp: unmoved_def) }
  { fix x assume "content_at e w s x"
    then have "survives e w1 s x" using a s by (simp add: preserves_def)
    then show "survives e w2 s x" by (rule preserves_survives [OF b _ s(2)]) }
qed

text \<open>A step that leaves the rows and files of every kept segment in place.\<close>

lemma preserves_unmoved:
  "(\<And>s. s \<in> set (index w) \<Longrightarrow> sg_id s \<in> keep \<Longrightarrow> unmoved e s w w') \<Longrightarrow> preserves e moving keep w w'"
  by (auto simp: preserves_def survives_def dest: unmoved_content)

definition sound :: "vault_env \<Rightarrow> sweep_ctx \<times> vault \<Rightarrow> bool" where
  "sound e x \<longleftrightarrow> tidy e (index (snd x)) \<and> cache_ok e (fst x)"

lemma move_keeps_others:
  assumes "tidy e (index w)" and "seg \<in> set (index w)" and "storage_of e (sg_storage seg) = Some st"
    and "storage_of e aid = Some ast"
    and "move_segment_to_archive e seg (st_path st) (st_path ast) aid w = (r, w')"
    and "s \<in> set (index w)" and "s \<noteq> seg"
  shows "unmoved e s w w'"
proof -
  have ids: "sg_id s \<noteq> sg_id seg" using id_unique [of "index w" s seg] assms by (auto simp: tidy_def)
  then have disj: "places e s \<inter> places e seg = {}"
    using assms(1,2,6) by (auto simp: tidy_def fits_def)
  have row: "s \<in> set (index w')"
    using move_index [of e seg "st_path st" "st_path ast" aid w] assms(5,6) ids flip_row_other
    by fastforce
  have bytes: "disk w' q = disk w q" if q: "spot e s = Some q" for q
  proof -
    have qp: "q \<notin> places e seg" using disj spot_places [OF q] by blast
    have "q \<noteq> ve_canon e (st_path st @ sg_path seg)"
      using qp assms(3) by (auto simp: places_def spot_def)
    moreover have "q \<noteq> ve_canon e (st_path ast @ rel)"
      if "archive_relative_path e (sg_camera seg) (sg_start seg) (sg_path seg) = Some rel" for rel
      using qp dest_places [of ast e seg] storage_of_mem [OF assms(4)] that by (auto simp: dest_def)
    ultimately show ?thesis
      using move_other [of q e "st_path st" seg "st_path ast" aid w] assms(5) by simp
  qed
  show ?thesis using row bytes by (simp add: unmoved_def)
qed

lemma move_survives:
  assumes "tidy e (index w)" and "storage_of e (sg_storage seg) = Some st"
    and "storage_of e aid = Some ast" and "\<forall>n. \<not> ve_stat_fails e n"
    and mv: "move_segment_to_archive e seg (st_path st) (st_path ast) aid w = (r, w')"
    and c: "content_at e w seg b"
  shows "survives e w' seg b"
proof -
  let ?q = "ve_canon e (st_path st @ sg_path seg)"
  obtain b' where b': "seg \<in> set (index w)" "disk w ?q = Some b'" "same_content e b b'"
    using c assms(2) by (auto simp: content_at_def spot_def)
  show ?thesis
  proof (cases "archive_relative_path e (sg_camera seg) (sg_start seg) (sg_path seg)")
    case None
    then show ?thesis using mv c by (simp add: move_segment_to_archive_def survives_def)
  next
    case (Some rel)
    have "source_kept w ?q b' w' \<or> safely_archived e seg aid rel (ve_canon e (st_path ast @ rel)) b' w w'"
      using move_cases [OF mv Some _ b'(2)] assms(4) by blast
    then show ?thesis
    proof
      assume "source_kept w ?q b' w'"
      then have "content_at e w' seg b"
        using b' assms(2) by (auto simp: source_kept_def content_at_def spot_def)
      then show ?thesis by (simp add: survives_def)
    next
      assume a: "safely_archived e seg aid rel (ve_canon e (st_path ast @ rel)) b' w w'"
      have "spot e (archived aid rel seg) = Some (ve_canon e (st_path ast @ rel))"
        using assms(3) by (simp add: spot_def)
      then have "content_at e w' (archived aid rel seg) b"
        using a b' flip_row_mem [OF b'(1)] same_content_trans
        by (auto simp: safely_archived_def content_at_def)
      then show ?thesis by (auto simp: survives_def)
    qed
  qed
qed

lemma filter_row_unmoved:
  "s \<in> set (index w) \<Longrightarrow> sg_id s \<noteq> i \<Longrightarrow> index w' = index w \<or> index w' = filter (\<lambda>s. sg_id s \<noteq> i) (index w) \<Longrightarrow>
   (\<And>q. spot e s = Some q \<Longrightarrow> disk w' q = disk w q) \<Longrightarrow> unmoved e s w w'"
  by (auto simp: unmoved_def)

lemma shrunk_index:
  assumes "tidy e (index w)" and "index w' = index w \<or> index w' = filter P (index w)"
  shows "tidy e (index w') \<and> (\<forall>x. fits e (index w) x \<longrightarrow> fits e (index w') x)"
  using assms tidy_filter [OF assms(1)] fits_subset [of e "index w" _ "filter P (index w)"] by auto

lemma delete_keeps:
  assumes "tidy e (index w)" and "cache_ok e c" and "fits e (index w) seg"
    and "delete_segment_file_then_row e seg c w = (r, c', w')"
    and "s \<in> set (index w)" and "sg_id s \<noteq> sg_id seg"
  shows "unmoved e s w w'"
proof (rule filter_row_unmoved [OF assms(5,6)])
  show "index w' = index w \<or> index w' = filter (\<lambda>s. sg_id s \<noteq> sg_id seg) (index w)"
    using delete_index [of e seg c w] assms(4) by simp
next
  fix q assume q: "spot e s = Some q"
  have "spot e seg \<noteq> Some q"
    using assms(3,5,6) spot_places [OF q] spot_places [of e seg q] by (auto simp: fits_def)
  then show "disk w' q = disk w q" using delete_disk [OF assms(2), of seg q w] assms(4) by simp
qed

definition good_step :: "vault_env \<Rightarrow> bool \<Rightarrow> uuid set \<Rightarrow> sweep_ctx \<times> vault \<Rightarrow> sweep_ctx \<times> vault \<Rightarrow> bool" where
  "good_step e moving keep x y \<longleftrightarrow> sound e y \<and> preserves e moving keep (snd x) (snd y) \<and>
     (\<forall>t. fits e (index (snd x)) t \<longrightarrow> fits e (index (snd y)) t) \<and>
     set (tripped (snd x)) \<subseteq> set (tripped (snd y))"

lemma good_step_same:
  assumes "sound e (c, w)" and "disk w' = disk w" and "index w' = index w" and "cache_ok e c'"
    and "set (tripped w) \<subseteq> set (tripped w')"
  shows "good_step e moving keep (c, w) (c', w')"
  using assms
  by (auto simp: good_step_def sound_def unmoved_def intro!: preserves_unmoved)

lemma good_step_shrink:
  assumes "sound e (c, w)" and "cache_ok e c'"
    and "index w' = index w \<or> index w' = filter P (index w)"
    and "\<And>s. s \<in> set (index w) \<Longrightarrow> sg_id s \<in> keep \<Longrightarrow> unmoved e s w w'"
    and "set (tripped w) \<subseteq> set (tripped w')"
  shows "good_step e moving keep (c, w) (c', w')"
  using assms shrunk_index [of e w w' P] preserves_unmoved [of w keep e w']
  by (simp add: good_step_def sound_def)

lemma cache_ok_same: "cache_ok e c \<Longrightarrow> sc_cache c' = sc_cache c \<Longrightarrow> cache_ok e c'"
  by (simp add: cache_ok_def)

lemma move_tripped: "tripped (snd (move_segment_to_archive e seg sr ar st w)) = tripped w"
  by (simp add: move_segment_to_archive_def archive_in_place_def commit_archive_move_def Let_def
      case_prod_beta split: option.split sum.split removal.split)

lemma good_step_delete:
  assumes "sound e (c, w)" and "sg_id seg \<notin> keep" and "fits e (index w) seg"
    and "delete_segment_file_then_row e seg c w = (r, c', w')"
  shows "good_step e moving keep (c, w) (c', w')"
proof (rule good_step_shrink [OF assms(1)])
  show "cache_ok e c'" using delete_cache_ok [of e c seg w] assms by (simp add: sound_def)
  show "index w' = index w \<or> index w' = filter (\<lambda>s. sg_id s \<noteq> sg_id seg) (index w)"
    using delete_index [of e seg c w] assms(4) by simp
  show "set (tripped w) \<subseteq> set (tripped w')" using delete_tripped [of w e seg c] assms(4) by simp
  fix s assume "s \<in> set (index w)" "sg_id s \<in> keep"
  moreover from this have "sg_id s \<noteq> sg_id seg" using assms(2) by metis
  ultimately show "unmoved e s w w'"
    using delete_keeps [of e w c seg r c' w' s] assms by (simp add: sound_def)
qed

lemma good_step_move:
  assumes "sound e (c, w)" and "seg \<in> set (index w)" and "storage_of e (sg_storage seg) = Some st"
    and "storage_of e aid = Some ast" and "\<forall>n. \<not> ve_stat_fails e n"
    and mv: "move_segment_to_archive e seg (st_path st) (st_path ast) aid w = (r, w')"
  shows "good_step e True keep (c, w) (c, w')"
proof -
  have t: "tidy e (index w)" "distinct (map sg_id (index w))" using assms(1) by (simp_all add: sound_def tidy_def)
  have idx: "index w' = index w \<or> (\<exists>rel. archive_relative_path e (sg_camera seg) (sg_start seg) (sg_path seg) = Some rel \<and>
      index w' = flip_row (sg_id seg) aid rel (index w))"
    using move_index [of e seg "st_path st" "st_path ast" aid w] mv by simp
  have "preserves e True keep w w'"
    unfolding preserves_def
  proof (intro ballI impI conjI allI)
    fix s b assume "s \<in> set (index w)" "content_at e w s b"
    then show "survives e w' s b"
      using move_survives [OF t(1) assms(3,4,5) mv]
        unmoved_content [OF move_keeps_others [OF t(1) assms(2,3,4) mv], of s b]
      by (cases "s = seg") (simp_all add: survives_def)
  qed simp
  moreover have "tidy e (index w')" "\<And>x. fits e (index w) x \<Longrightarrow> fits e (index w') x"
    using idx tidy_flip [OF t(1) assms(2,4)] fits_flip [OF t(2) assms(2,4)] t(1) by auto
  moreover have "tripped w' = tripped w" using move_tripped [of e seg "st_path st" "st_path ast" aid w] mv by simp
  ultimately show ?thesis using assms(1) by (simp add: good_step_def sound_def)
qed

lemma good_step_prune:
  assumes "sound e (c, w)" and "seg \<in> set (index w)" and "storage_of e (sg_storage seg) = Some st"
    and gone: "disk w (ve_canon e (st_path st @ sg_path seg)) = None"
    and m: "may_prune_missing e (st_path st) c w = (True, c1, w1)"
    and d: "delete_segment_row e (sg_id seg) w1 = (r, w2)"
  shows "good_step e True keep (c, w) (c1, w2)"
proof -
  have w1: "disk w1 = disk w" "index w1 = index w" "set (tripped w) \<subseteq> set (tripped w1)" "sc_cache c1 = sc_cache c"
    using may_prune_frame [of e "st_path st" c w] may_prune_tripped [of w e "st_path st" c] m by simp_all
  have w2: "disk w2 = disk w" "tripped w2 = tripped w1"
    "index w2 = index w \<or> index w2 = filter (\<lambda>s. sg_id s \<noteq> sg_id seg) (index w)"
    using delete_row_frame [of e "sg_id seg" w1] delete_row_index [of e "sg_id seg" w1] d w1 by simp_all
  have t: "tidy e (index w)" using assms(1) by (simp add: sound_def)
  have "preserves e True keep w w2"
    unfolding preserves_def
  proof (intro ballI impI conjI allI)
    fix s b assume s: "s \<in> set (index w)" and c: "content_at e w s b"
    have "s \<noteq> seg" using c gone assms(3) by (auto simp: content_at_def spot_def)
    then have "sg_id s \<noteq> sg_id seg" using id_unique [of "index w" s seg] t s assms(2) by (auto simp: tidy_def)
    from filter_row_unmoved [OF s this w2(3), of e] show "survives e w2 s b"
      using w2(1) unmoved_content [OF _ c] by (simp add: survives_def)
  qed simp
  then show ?thesis
    using assms(1) shrunk_index [OF t w2(3)] w1 w2 cache_ok_same
    by (auto simp: good_step_def sound_def)
qed

lemma marker_not_spot:
  assumes "tidy e (index w)" and "s \<in> set (index w)" and "st \<in> set (ve_storages e)" and "spot e s = Some q"
  shows "q \<noteq> ve_canon e (storage_marker_path (st_path st))"
  using assms spot_places [OF assms(4)] by (auto simp: tidy_def fits_def marker_files_def)

lemma disposal_step_good:
  assumes "disposal_step e moving listed keep x y" and "sound e x" and "moving \<longrightarrow> (\<forall>n. \<not> ve_stat_fails e n)"
  shows "good_step e moving keep x y"
  using assms
proof (cases rule: disposal_step.cases)
  case (quiet w' w c c')
  then show ?thesis using good_step_same assms(2) by (simp add: sound_def)
next
  case (present c w base)
  then show ?thesis using good_step_same [of e c w w "note_present base c"] assms(2) cache_ok_same [of e c]
    by (simp add: sound_def)
next
  case (delete seg w c r c' w')
  then show ?thesis using good_step_delete [of e c w seg keep r c' w' moving] assms(2) by simp
next
  case (move seg w st aid ast r w' c)
  then show ?thesis using good_step_move [of e c w seg st aid ast r w' keep] assms(2,3) by simp
next
  case (prune seg w st c c1 w1 r w2)
  then show ?thesis using good_step_prune [of e c w seg st c1 w1 r w2 keep] assms(2) by simp
next
  case (refuse base c w c1 w1)
  have "sc_cache c1 = sc_cache c" using may_prune_frame(3) [of e base c w] refuse by simp
  then show ?thesis
    using good_step_same [of e c w w1 c1] may_prune_frame [of e base c w] may_prune_tripped [of w e base c]
      refuse assms(2) cache_ok_same [of e c c1]
    by (simp add: sound_def)
next
  case (marker st c w)
  have "disk (ensure_marker e (st_path st) w) q = disk w q" if "s \<in> set (index w)" "spot e s = Some q" for s q
    using ensure_vault_marker_other marker_not_spot [OF _ that(1) marker(4) that(2)] assms(2) marker(1)
    by (simp add: sound_def)
  then show ?thesis
    using good_step_shrink [of e c w c "ensure_marker e (st_path st) w" "\<lambda>_. True"] marker assms(2)
    by (simp add: sound_def unmoved_def)
qed

lemma good_step_refl: "sound e x \<Longrightarrow> good_step e moving keep x x"
  by (simp add: good_step_def)

lemma good_step_trans:
  "good_step e moving keep x y \<Longrightarrow> good_step e moving keep y z \<Longrightarrow> good_step e moving keep x z"
  using preserves_trans by (fastforce simp: good_step_def)

lemma disposes_good:
  assumes "disposes e moving listed keep x y" and "sound e x" and "moving \<longrightarrow> (\<forall>n. \<not> ve_stat_fails e n)"
  shows "good_step e moving keep x y"
  using assms(1)
proof (induction rule: rtranclp_induct)
  case base
  then show ?case using good_step_refl [OF assms(2)] .
next
  case (step y z)
  have "sound e y" using step.IH by (simp add: good_step_def)
  then show ?case using good_step_trans [OF step.IH] disposal_step_good [OF step.hyps(2) _ assms(3)] by blast
qed

subsection \<open>Missing files on an unconfirmed storage\<close>

text \<open>The storage at \<open>base\<close> is not confirmed, and this sweep has not read otherwise.\<close>

definition unconfirmed :: "vault_env \<Rightarrow> path \<Rightarrow> sweep_ctx \<times> vault \<Rightarrow> bool" where
  "unconfirmed e base x \<longleftrightarrow>
     ve_reconcile_tripped e base \<or> base \<in> set (tripped (snd x)) \<or>
     (disk (snd x) (ve_canon e (storage_marker_path base)) = None \<and>
      ta_marker (sc_tally (fst x) base) \<noteq> Some True)"

lemma marker_present_sound:
  "fst (marker_present e base w) \<Longrightarrow> disk w (ve_canon e (storage_marker_path base)) \<noteq> None"
  by (auto simp: marker_present_def metadata_len_def draw_def split: if_splits)

lemma may_prune_unconfirmed:
  assumes "unconfirmed e base (c, w)"
  shows "\<not> fst (may_prune_missing e base c w)"
  using assms marker_present_sound [of e base w]
  by (auto simp: unconfirmed_def may_prune_missing_def Let_def case_prod_beta read_marker_def
      sweep_breaker_latched_def split: option.splits)

lemma may_prune_keeps_unconfirmed:
  assumes "unconfirmed e base (c, w)"
  shows "unconfirmed e base (snd (may_prune_missing e b c w))"
  using assms may_prune_tripped [of w e b c] may_prune_frame(1) [of e b c w]
    marker_present_sound [of e base w]
  by (auto simp: unconfirmed_def may_prune_missing_def Let_def case_prod_beta read_marker_def
      set_tally_def split: option.splits if_splits)

lemma note_present_unconfirmed: "unconfirmed e base (c, w) \<Longrightarrow> unconfirmed e base (note_present b c, w)"
  by (cases "base = b") (auto simp: unconfirmed_def note_present_def set_tally_def Let_def)

lemma unconfirmed_mono:
  assumes "unconfirmed e base (c, w)" and "set (tripped w) \<subseteq> set (tripped w')" and "sc_tally c' = sc_tally c"
    and "disk w (ve_canon e (storage_marker_path base)) = None \<Longrightarrow>
         disk w' (ve_canon e (storage_marker_path base)) = None"
  shows "unconfirmed e base (c', w')"
  using assms by (auto simp: unconfirmed_def)

lemma unlink_none: "disk w q = None \<Longrightarrow> disk (snd (unlink e p w)) q = None"
  by (simp add: unlink_def draw_def)

lemma delete_none:
  "disk w q = None \<Longrightarrow> disk (snd (snd (delete_segment_file_then_row e seg c w))) q = None"
  using resolve_storage_frame(1) [of e "sg_storage seg" c w]
  by (simp add: delete_segment_file_then_row_def case_prod_beta unlink_none
      split: sum.split removal.split bool.split)

lemma delete_keeps_unconfirmed:
  assumes "unconfirmed e base (c, w)"
  shows "unconfirmed e base (snd (delete_segment_file_then_row e seg c w))"
proof (cases "resolve_storage e (sg_storage seg) c w")
  case (fields x c1 w1)
  have "unconfirmed e base (c1, w1)"
    using unconfirmed_mono [OF assms, of w1 c1] resolve_storage_frame [of e "sg_storage seg" c w] fields by simp
  then have un: "unconfirmed e base (c1, snd (unlink e p w1))" for p
    using unconfirmed_mono [of e base c1 w1 "snd (unlink e p w1)" c1] unlink_none by simp
  have row: "unconfirmed e base (d, v) \<Longrightarrow> unconfirmed e base (d, snd (delete_segment_row e i v))" for d v i
    using unconfirmed_mono [of e base d v "snd (delete_segment_row e i v)" d] by simp
  show ?thesis
  proof (cases x)
    case (Inl er)
    then show ?thesis using fields \<open>unconfirmed e base (c1, w1)\<close> by (simp add: delete_segment_file_then_row_def)
  next
    case (Inr st)
    define p where "p = st_path st @ sg_path seg"
    have "snd (delete_row_as e seg out d v) = (d, snd (delete_segment_row e (sg_id seg) v))" for out d v
      by (simp add: prod_eq_iff)
    then show ?thesis
      using fields Inr un [of p] row note_present_unconfirmed [OF un [of p]]
        may_prune_keeps_unconfirmed [OF un [of p], of "st_path st"]
      by (simp add: delete_segment_file_then_row_def case_prod_beta p_def split: removal.split bool.split)
  qed
qed

lemma delete_missing_kept:
  assumes "cache_ok e c" and "storage_of e (sg_storage seg) = Some st"
    and "unconfirmed e (st_path st) (c, w)" and "disk w (ve_canon e (st_path st @ sg_path seg)) = None"
  shows "index (snd (snd (delete_segment_file_then_row e seg c w))) = index w"
proof (cases "resolve_storage e (sg_storage seg) c w")
  case (fields x c1 w1)
  note fr = resolve_storage_frame [of e "sg_storage seg" c w]
  show ?thesis
  proof (cases x)
    case (Inl er)
    then show ?thesis using fields fr by (simp add: delete_segment_file_then_row_def)
  next
    case (Inr st')
    have st': "st' = st" using resolve_storage_ok(2) [OF assms(1)] fields Inr assms(2) by fastforce
    let ?p = "st_path st @ sg_path seg"
    have "unconfirmed e (st_path st) (c1, w1)"
      using unconfirmed_mono [OF assms(3), of w1 c1] fr fields by simp
    then have "unconfirmed e (st_path st) (c1, snd (unlink e ?p w1))"
      using unconfirmed_mono [of e "st_path st" c1 w1 "snd (unlink e ?p w1)" c1] unlink_none by simp
    then have no: "\<not> fst (may_prune_missing e (st_path st) c1 (snd (unlink e ?p w1)))"
      by (rule may_prune_unconfirmed)
    have "disk w1 (ve_canon e ?p) = None" using assms(4) fr fields by simp
    then have "fst (unlink e ?p w1) \<noteq> Removed" by (simp add: unlink_def draw_def)
    then show ?thesis
      using no fields Inr st' fr
      by (simp add: delete_segment_file_then_row_def case_prod_beta split: removal.split bool.split)
  qed
qed

lemma disposes_unconfirmed:
  assumes run: "disposes e False listed keep x y" and "sound e x" and "unconfirmed e base x"
    and s: "s \<in> set (index (snd x))" "storage_of e (sg_storage s) = Some st" "st_path st = base"
    and gone: "disk (snd x) (ve_canon e (base @ sg_path s)) = None"
    and listed: "\<And>t. t \<in> listed \<Longrightarrow> sg_id t = sg_id s \<Longrightarrow> t = s"
  shows "s \<in> set (index (snd y)) \<and> disk (snd y) (ve_canon e (base @ sg_path s)) = None \<and> unconfirmed e base y"
  using run
proof (induction rule: rtranclp_induct)
  case base
  then show ?case using assms by simp
next
  case (step y z)
  have sy: "sound e y" using disposes_good [OF step.hyps(1) assms(2)] by (simp add: good_step_def)
  show ?case using step.hyps(2)
  proof (cases rule: disposal_step.cases)
    case (quiet w' w c c')
    then show ?thesis using step.IH unconfirmed_mono [of e base c w w' c'] by simp
  next
    case (present c w b)
    then show ?thesis using step.IH note_present_unconfirmed by simp
  next
    case (delete seg w c r c' w')
    have un: "unconfirmed e base (c', w')"
      using delete_keeps_unconfirmed [of e base c w seg] step.IH delete by simp
    have "s \<in> set (index w')"
    proof (cases "sg_id seg = sg_id s")
      case True
      then have "seg = s" using listed delete by simp
      then show ?thesis
        using delete_missing_kept [of e c s st w] step.IH delete s gone sy by (simp add: sound_def)
    next
      case False
      then show ?thesis using delete_index [of e seg c w] delete step.IH by auto
    qed
    moreover have "disk w' (ve_canon e (base @ sg_path s)) = None"
      using delete_none [of w _ e seg c] delete step.IH by simp
    ultimately show ?thesis using un delete by simp
  next
    case (refuse b c w c1 w1)
    then show ?thesis using step.IH may_prune_keeps_unconfirmed [of e base c w b] may_prune_frame [of e b c w]
      by simp
  qed simp_all
qed

end
