(* ===== verification/Retention.thy ===== *)
theory Retention
  imports SweepSafety
begin

text \<open>
  The retention sweeps and the archive floor as runs of \<open>disposal_step\<close>: which segments they may
  delete (\<open>deletable\<close>), that they keep everything else, that a storage which is not confirmed keeps
  its index, that the absolute retention ceiling is met, and the bound of the missing-file breaker.
\<close>

subsection \<open>Loops over a listing\<close>

lemma oldest_first_subset: "set (oldest_first n P ss) \<subseteq> {s \<in> set ss. P s}"
  using set_take_subset [of n "sort_key sg_start (filter P ss)"] by (auto simp: oldest_first_def)

lemma query_ok:
  assumes "query e n P w = (Inr segs, w1)"
  shows "segs = oldest_first n P (index w)" "disk w1 = disk w" "index w1 = index w" "tripped w1 = tripped w"
  using assms by (auto simp: query_def draw_def split: if_splits)

lemma query_error: "query e n P w = (Inl er, w1) \<Longrightarrow> disk w1 = disk w \<and> index w1 = index w \<and> tripped w1 = tripped w"
  by (auto simp: query_def draw_def split: if_splits)

lemma sound_start: "tidy e (index w) \<Longrightarrow> sound e (ctx_new, w)"
  by (simp add: sound_def)

lemma disposes_quiet:
  "disk w' = disk w \<Longrightarrow> index w' = index w \<Longrightarrow> set (tripped w) \<subseteq> set (tripped w') \<Longrightarrow>
   disposes e moving listed keep (c, w) (c, w')"
  by (rule r_into_rtranclp) (rule disposal_step.quiet; simp)

definition kept_ids :: "(segment \<Rightarrow> bool) \<Rightarrow> vault \<Rightarrow> uuid set" where
  "kept_ids may_go w = sg_id ` {s \<in> set (index w). \<not> may_go s}"

lemma kept_ids_iff:
  "tidy e (index w) \<Longrightarrow> s \<in> set (index w) \<Longrightarrow> sg_id s \<in> kept_ids P w \<longleftrightarrow> \<not> P s"
  using id_unique [of "index w" s] by (auto simp: kept_ids_def tidy_def)

text \<open>A loop body that disposes of the segment it is given, and of nothing else.\<close>

locale sweep_body =
  fixes body :: "vault_env \<Rightarrow> segment \<Rightarrow> sweep_ctx \<times> vault \<Rightarrow> sweep_ctx \<times> vault"
  assumes body_disposes:
    "seg \<in> listed \<Longrightarrow> sg_id seg \<notin> keep \<Longrightarrow> fits e (index (snd x)) seg \<Longrightarrow>
       disposes e False listed keep x (body e seg x)"
begin

lemma fold_disposes:
  "sound e x \<Longrightarrow> set segs \<subseteq> listed \<Longrightarrow> (\<forall>seg \<in> set segs. sg_id seg \<notin> keep \<and> fits e (index (snd x)) seg) \<Longrightarrow>
     disposes e False listed keep x (fold (body e) segs x)"
proof (induction segs arbitrary: x)
  case Nil
  then show ?case by simp
next
  case (Cons seg segs)
  have one: "disposes e False listed keep x (body e seg x)"
    by (rule body_disposes) (use Cons.prems in auto)
  have g: "good_step e False keep x (body e seg x)" by (rule disposes_good [OF one Cons.prems(1)]) simp
  have "disposes e False listed keep (body e seg x) (fold (body e) segs (body e seg x))"
    by (rule Cons.IH) (use g Cons.prems in \<open>auto simp: good_step_def\<close>)
  then show ?case using one by (simp add: rtranclp_trans)
qed

lemma listing_disposes:
  assumes "tidy e (index w)" and q: "query e n P w = (Inr segs, w1)"
    and "\<And>s. P s \<Longrightarrow> may_go s"
  shows "disposes e False (set (index w)) (kept_ids may_go w) (ctx_new, w) (fold (body e) segs (ctx_new, w1))"
proof -
  note q1 = query_ok [OF q]
  have sub: "set segs \<subseteq> {s \<in> set (index w). P s}" using oldest_first_subset q1(1) by simp
  have "disposes e False (set (index w)) (kept_ids may_go w) (ctx_new, w1) (fold (body e) segs (ctx_new, w1))"
    by (rule fold_disposes)
      (use sub assms(1,3) q1(3) tidy_fits [OF assms(1)] kept_ids_iff [OF assms(1)] sound_start [of e w1] in auto)
  from rtranclp_trans [OF disposes_quiet this] show ?thesis using q1 by simp
qed

end

definition delete_body :: "vault_env \<Rightarrow> segment \<Rightarrow> sweep_ctx \<times> vault \<Rightarrow> sweep_ctx \<times> vault" where
  "delete_body e seg x = snd (delete_segment_file_then_row e seg (fst x) (snd x))"

lemma delete_body_disposes:
  "seg \<in> listed \<Longrightarrow> sg_id seg \<notin> keep \<Longrightarrow> fits e (index (snd x)) seg \<Longrightarrow>
     disposes e moving listed keep x (delete_body e seg x)"
  by (cases x, cases "delete_segment_file_then_row e seg (fst x) (snd x)")
    (auto simp: delete_body_def intro!: r_into_rtranclp disposal_step.delete)

interpretation each: sweep_body delete_body
  by unfold_locales (rule delete_body_disposes)

lemma delete_each_fold: "delete_each e segs c w = fold (delete_body e) segs (c, w)"
  by (induction segs arbitrary: c w) (simp_all add: delete_body_def case_prod_beta)

definition live_body ::
  "(uuid \<Rightarrow> int option) \<Rightarrow> vault_env \<Rightarrow> segment \<Rightarrow> sweep_ctx \<times> vault \<Rightarrow> sweep_ctx \<times> vault" where
  "live_body rm e seg x =
     (if sg_stage seg \<noteq> LiveStage then x
      else case rm (sg_camera seg) of
        None \<Rightarrow> x
      | Some h \<Rightarrow> if ve_now e - hours h \<le> sg_start seg then x else delete_body e seg x)"

interpretation live: sweep_body "live_body rm" for rm
  by unfold_locales (simp add: live_body_def delete_body_disposes split: option.split)

lemma live_retention_loop_fold: "live_retention_loop e rm segs c w = fold (live_body rm e) segs (c, w)"
  by (induction segs arbitrary: c w)
    (simp_all add: live_body_def delete_body_def case_prod_beta split: option.split)

definition archive_body :: "vault_env \<Rightarrow> segment \<Rightarrow> sweep_ctx \<times> vault \<Rightarrow> sweep_ctx \<times> vault" where
  "archive_body e seg x = (if sg_stage seg \<noteq> ArchiveStage then x else delete_body e seg x)"

interpretation drain: sweep_body archive_body
  by unfold_locales (simp add: archive_body_def delete_body_disposes)

lemma archive_retention_loop_fold: "archive_retention_loop e segs c w = fold (archive_body e) segs (c, w)"
  by (induction segs arbitrary: c w) (simp_all add: archive_body_def delete_body_def case_prod_beta)

lemma emit_frame [simp]:
  "disk (emit_premature_rollover_if_early e seg h w) = disk w"
  "index (emit_premature_rollover_if_early e seg h w) = index w"
  "tripped (emit_premature_rollover_if_early e seg h w) = tripped w"
  by (simp_all add: emit_premature_rollover_if_early_def)

lemma delete_then:
  assumes "sound e (c, w)" and "seg \<in> listed" and "sg_id seg \<notin> keep" and "fits e (index w) seg"
    and "delete_segment_file_then_row e seg c w = (r, c1, w1)"
    and "disk w2 = disk w1" and "index w2 = index w1" and "tripped w2 = tripped w1"
  shows "disposes e moving listed keep (c, w) (c1, w2)"
    and "sound e (c1, w2)"
    and "fits e (index w) t \<Longrightarrow> fits e (index w2) t"
proof -
  have d: "disposes e m listed keep (c, w) (c1, w1)" for m
    using delete_body_disposes [OF assms(2,3), of e "(c, w)" m] assms(4,5) by (simp add: delete_body_def)
  show "disposes e moving listed keep (c, w) (c1, w2)"
    using rtranclp_trans [OF d disposes_quiet] assms(6-8) by simp
  have "good_step e False keep (c, w) (c1, w1)" by (rule disposes_good [OF d assms(1)]) simp
  then show "sound e (c1, w2)" "fits e (index w) t \<Longrightarrow> fits e (index w2) t"
    using assms(6-8) by (simp_all add: good_step_def sound_def)
qed

lemma archive_floor_loop_disposes:
  "sound e (c, w) \<Longrightarrow> set segs \<subseteq> listed \<Longrightarrow> (\<forall>seg \<in> set segs. sg_id seg \<notin> keep \<and> fits e (index w) seg) \<Longrightarrow>
     disposes e False listed keep (c, w) (snd (archive_floor_loop e h segs deficit c w))"
proof (induction segs arbitrary: deficit c w)
  case Nil
  then show ?case by simp
next
  case (Cons seg segs)
  obtain r c1 w1 where d: "delete_segment_file_then_row e seg c w = (r, c1, w1)" by (metis prod_cases3)
  have pre: "seg \<in> listed" "sg_id seg \<notin> keep" "fits e (index w) seg" using Cons.prems by auto
  have next_: "disposes e False listed keep (c, w) (snd (archive_floor_loop e h segs k c1 w2))"
    if "disk w2 = disk w1" "index w2 = index w1" "tripped w2 = tripped w1" for w2 k
  proof -
    note dt = delete_then [OF Cons.prems(1) pre d that]
    have "disposes e False listed keep (c1, w2) (snd (archive_floor_loop e h segs k c1 w2))"
      by (rule Cons.IH) (use dt(2,3) Cons.prems in auto)
    then show ?thesis using rtranclp_trans [OF dt(1)] by blast
  qed
  show ?case
    using next_ [of w1] next_ [of "emit_premature_rollover_if_early e seg h w1"] d
    by (auto split: sum.split delete_outcome.split)
qed

subsection \<open>The sweeps as jobs of the scheduler\<close>

datatype sweep_job =
  LiveRetention "camera_row list"
| ArchiveRetention camera_row
| MaxRetention recording_policy
| ArchiveFloor recording_policy "f32 option"

fun run_sweep :: "vault_env \<Rightarrow> sweep_job \<Rightarrow> vault \<Rightarrow> vault" where
  "run_sweep e (LiveRetention cams) w = snd (live_retention_sweep e cams w)"
| "run_sweep e (ArchiveRetention camera) w = snd (archive_retention_sweep e camera w)"
| "run_sweep e (MaxRetention p) w = snd (max_retention_sweep e p w)"
| "run_sweep e (ArchiveFloor p pct) w = snd (archive_floor_sweep_with e p pct w)"

text \<open>Two paths on one disk, and what \<open>same_filesystem\<close> and the storages listed with it say of it.\<close>

definition same_disk :: "vault_env \<Rightarrow> path \<Rightarrow> path \<Rightarrow> bool" where
  "same_disk e a b \<longleftrightarrow> ve_dev e a \<noteq> None \<and> ve_dev e a = ve_dev e b"

lemma same_filesystem_sound: "same_filesystem e a b w = (True, w') \<Longrightarrow> same_disk e a b"
  by (auto simp: same_filesystem_def stat_dev_def same_disk_def Let_def split: if_splits)

lemma ids_on_filesystem_sound:
  "i \<in> set (fst (ids_on_filesystem e b ss w)) \<Longrightarrow> \<exists>s \<in> set ss. st_id s = i \<and> same_disk e (st_path s) b"
proof (induction ss arbitrary: w)
  case Nil
  then show ?case by simp
next
  case (Cons s ss)
  obtain same w1 where f: "same_filesystem e (st_path s) b w = (same, w1)" by force
  obtain ids w2 where r: "ids_on_filesystem e b ss w1 = (ids, w2)" by force
  show ?case
    using Cons.prems Cons.IH [of w1] f r same_filesystem_sound [of e "st_path s" b w w1]
    by (cases same) auto
qed

lemma storage_ids_sound:
  "storage_ids_on_filesystem e b w = (Inr ids, w1) \<Longrightarrow> i \<in> set ids \<Longrightarrow>
     \<exists>st \<in> set (ve_storages e). st_id st = i \<and> same_disk e (st_path st) b"
  using ids_on_filesystem_sound [of i e b "ve_storages e"]
  by (auto simp: storage_ids_on_filesystem_def case_prod_beta Let_def split: if_splits)

text \<open>The archive disk of the policy is below its free floor, and the segment's storage is on it.\<close>

definition archive_disk_low :: "vault_env \<Rightarrow> recording_policy \<Rightarrow> f32 option \<Rightarrow> segment \<Rightarrow> bool" where
  "archive_disk_low e p pct s \<longleftrightarrow>
     (\<exists>aid archive d st. pol_archive_storage_id p = Some aid \<and> storage_of e aid = Some archive \<and>
        below_floor e (st_path archive) pct None = Some (True, d) \<and>
        st \<in> set (ve_storages e) \<and> st_id st = sg_storage s \<and> same_disk e (st_path st) (st_path archive))"

text \<open>The segments a job may delete, from the operator's settings and the fill of the archive disk.\<close>

fun deletable :: "vault_env \<Rightarrow> sweep_job \<Rightarrow> segment \<Rightarrow> bool" where
  "deletable e (LiveRetention cams) s = expired_live e s"
| "deletable e (ArchiveRetention camera) s =
     (case archive_drain_retention_hours (snd camera) of
        None \<Rightarrow> False
      | Some h \<Rightarrow> sg_camera s = fst camera \<and> sg_stage s = ArchiveStage \<and>
          sg_start s < ve_now e - hours h \<and> \<not> protected e s)"
| "deletable e (MaxRetention p) s =
     (case pol_max_retention_days p of
        None \<Rightarrow> False
      | Some d \<Rightarrow> 0 < d \<and> under_policy e (pol_id p) s \<and> sg_start s < ve_now e - hours (24 * d) \<and>
          \<not> protected e s)"
| "deletable e (ArchiveFloor p pct) s =
     (pol_archive_enabled p \<and> sg_stage s = ArchiveStage \<and> under_policy e (pol_id p) s \<and>
       archive_disk_low e p pct s \<and> \<not> protected e s)"

lemma list_cameras_frame:
  "disk (snd (list_cameras_all e cams w)) = disk w" "index (snd (list_cameras_all e cams w)) = index w"
  "tripped (snd (list_cameras_all e cams w)) = tripped w"
  by (simp_all add: list_cameras_all_def draw_def)

definition sweeps_to :: "vault_env \<Rightarrow> sweep_job \<Rightarrow> vault \<Rightarrow> vault \<Rightarrow> bool" where
  "sweeps_to e job w w' \<longleftrightarrow>
     (\<exists>c. disposes e False (set (index w)) (kept_ids (deletable e job) w) (ctx_new, w) (c, w'))"

lemma sweeps_to_quiet:
  "disk w' = disk w \<Longrightarrow> index w' = index w \<Longrightarrow> tripped w' = tripped w \<Longrightarrow> sweeps_to e job w w'"
  unfolding sweeps_to_def by (rule exI [of _ ctx_new], rule disposes_quiet) simp_all

lemma sweeps_to_after:
  assumes "disk w1 = disk w" "index w1 = index w" "tripped w1 = tripped w" and "sweeps_to e job w1 w'"
  shows "sweeps_to e job w w'"
proof -
  obtain c where "disposes e False (set (index w)) (kept_ids (deletable e job) w) (ctx_new, w1) (c, w')"
    using assms by (auto simp: sweeps_to_def kept_ids_def)
  from rtranclp_trans [OF disposes_quiet this] show ?thesis using assms(1-3) by (auto simp: sweeps_to_def)
qed

lemma live_retention_sweeps:
  assumes "tidy e (index w)"
  shows "sweeps_to e (LiveRetention cams) w (run_sweep e (LiveRetention cams) w)"
proof -
  obtain x w1 where cs: "list_cameras_all e cams w = (x, w1)" by force
  have w1: "disk w1 = disk w" "index w1 = index w" "tripped w1 = tripped w"
    using list_cameras_frame [of e cams w] cs by simp_all
  obtain y w2 where q: "query e max_retention_batch_limit (expired_live e) w1 = (y, w2)" by force
  have run: "sweeps_to e (LiveRetention cams) w1 (snd (fold (live_body rm e) segs (ctx_new, w2)))"
    if "y = Inr segs" for rm segs
    using live.listing_disposes [of e w1 max_retention_batch_limit "expired_live e" segs w2 "deletable e (LiveRetention cams)" rm]
      assms w1 q that by (metis deletable.simps(1) prod.collapse sweeps_to_def)
  show ?thesis
    using sweeps_to_after [OF w1] run cs q query_error [of e max_retention_batch_limit "expired_live e" w1 _ w2]
      sweeps_to_quiet [of w1 w] sweeps_to_quiet [of w2 w1] w1
    by (auto simp: live_retention_sweep_def list_expired_live_segments_def live_retention_loop_fold
        split: sum.split)
qed

lemma archive_retention_sweeps:
  assumes "tidy e (index w)"
  shows "sweeps_to e (ArchiveRetention camera) w (run_sweep e (ArchiveRetention camera) w)"
proof (cases "archive_drain_retention_hours (snd camera)")
  case None
  then show ?thesis by (simp add: archive_retention_sweep_def sweeps_to_quiet)
next
  case (Some h)
  let ?P = "\<lambda>s. sg_camera s = fst camera \<and> sg_stage s = ArchiveStage \<and>
       sg_start s < ve_now e - hours h \<and> \<not> protected e s"
  obtain y w1 where q: "query e (length (index w)) ?P w = (y, w1)" by force
  have run: "sweeps_to e (ArchiveRetention camera) w (snd (fold (archive_body e) segs (ctx_new, w1)))"
    if "y = Inr segs" for segs
    using drain.listing_disposes [of e w "length (index w)" ?P segs w1 "deletable e (ArchiveRetention camera)"]
      assms q that Some by (simp add: sweeps_to_def) (metis prod.collapse)
  show ?thesis
    using run q Some query_error [of e "length (index w)" ?P w _ w1] sweeps_to_quiet [of w1 w]
    by (auto simp: archive_retention_sweep_def list_archive_segments_older_than_def
        archive_retention_loop_fold split: sum.split)
qed

lemma max_retention_sweeps:
  assumes "tidy e (index w)"
  shows "sweeps_to e (MaxRetention p) w (run_sweep e (MaxRetention p) w)"
proof (cases "keep_if (\<lambda>d. 0 < d) (pol_max_retention_days p)")
  case None
  then show ?thesis by (simp add: max_retention_sweep_def sweeps_to_quiet)
next
  case (Some d)
  then have d: "pol_max_retention_days p = Some d" "0 < d" by (simp_all add: keep_if_Some)
  let ?P = "\<lambda>s. under_policy e (pol_id p) s \<and> sg_start s < ve_now e - hours (24 * d) \<and> \<not> protected e s"
  obtain y w1 where q: "query e max_retention_batch_limit ?P w = (y, w1)" by force
  have run: "sweeps_to e (MaxRetention p) w (snd (fold (delete_body e) segs (ctx_new, w1)))"
    if "y = Inr segs" for segs
    using each.listing_disposes [of e w max_retention_batch_limit ?P segs w1 "deletable e (MaxRetention p)"]
      assms q that d by (simp add: sweeps_to_def) (metis prod.collapse)
  show ?thesis
    using run q Some query_error [of e max_retention_batch_limit ?P w _ w1] sweeps_to_quiet [of w1 w]
    by (auto simp: max_retention_sweep_def list_policy_segments_older_than_any_stage_def
        delete_each_fold split: sum.split)
qed

lemma ids_on_filesystem_frame [simp]:
  "disk (snd (ids_on_filesystem e b ss w)) = disk w" "index (snd (ids_on_filesystem e b ss w)) = index w"
  "tripped (snd (ids_on_filesystem e b ss w)) = tripped w"
  by (induction ss arbitrary: w) (simp_all add: case_prod_beta Let_def)

lemma storage_ids_frame [simp]:
  "disk (snd (storage_ids_on_filesystem e b w)) = disk w"
  "index (snd (storage_ids_on_filesystem e b w)) = index w"
  "tripped (snd (storage_ids_on_filesystem e b w)) = tripped w"
  by (simp_all add: storage_ids_on_filesystem_def case_prod_beta Let_def)

lemma floor_listing_disposes:
  assumes "tidy e (index w)" and q: "query e n P w = (Inr segs, w1)" and "\<And>s. P s \<Longrightarrow> may_go s"
  shows "disposes e False (set (index w)) (kept_ids may_go w) (ctx_new, w)
    (snd (archive_floor_loop e h segs deficit ctx_new w1))"
proof -
  note q1 = query_ok [OF q]
  have sub: "set segs \<subseteq> {s \<in> set (index w). P s}" using oldest_first_subset q1(1) by simp
  have "disposes e False (set (index w)) (kept_ids may_go w) (ctx_new, w1)
      (snd (archive_floor_loop e h segs deficit ctx_new w1))"
    by (rule archive_floor_loop_disposes)
      (use sub assms(1,3) q1(3) tidy_fits [OF assms(1)] kept_ids_iff [OF assms(1)] sound_start [of e w1] in auto)
  from rtranclp_trans [OF disposes_quiet this] show ?thesis using q1 by simp
qed

lemma archive_floor_sweeps:
  assumes "tidy e (index w)"
  shows "sweeps_to e (ArchiveFloor p pct) w (run_sweep e (ArchiveFloor p pct) w)"
proof -
  let ?J = "ArchiveFloor p pct"
  let ?P = "\<lambda>ids s. sg_stage s \<in> set [ArchiveStage] \<and> under_policy e (pol_id p) s \<and>
       sg_storage s \<in> set ids \<and> \<not> protected e s"
  have stop: "sweeps_to e ?J w v" if "disk v = disk w" "index v = index w" "tripped v = tripped w" for v
    by (rule sweeps_to_quiet [OF that])
  obtain g w1 where gs: "get_storage e (the (pol_archive_storage_id p)) w = (g, w1)" by force
  have w1: "disk w1 = disk w" "index w1 = index w" "tripped w1 = tripped w"
    using get_storage_frame [of e "the (pol_archive_storage_id p)" w] gs by simp_all
  show ?thesis
  proof (cases "pol_archive_enabled p \<and> pol_archive_storage_id p \<noteq> None \<and>
      (\<exists>archive d. g = Inr (Some archive) \<and> below_floor e (st_path archive) pct None = Some (True, d))")
    case False
    then have "run_sweep e ?J w = w \<or> run_sweep e ?J w = w1"
      using gs by (auto simp: archive_floor_sweep_with_def split: option.split sum.split bool.split)
    then show ?thesis using stop [of w] stop [OF w1] by auto
  next
    case True
    then obtain aid archive d where g: "pol_archive_enabled p" "pol_archive_storage_id p = Some aid"
      "g = Inr (Some archive)" "below_floor e (st_path archive) pct None = Some (True, d)" by auto
    have archive: "storage_of e aid = Some archive"
      using gs g(2,3) by (auto simp: get_storage_def draw_def split: if_splits)
    obtain ids w2 where st: "storage_ids_on_filesystem e (st_path archive) w1 = (ids, w2)" by force
    have w2: "disk w2 = disk w" "index w2 = index w" "tripped w2 = tripped w"
      using storage_ids_frame [of e "st_path archive" w1] st w1 by simp_all
    show ?thesis
    proof (cases ids)
      case (Inl er)
      then show ?thesis
        using g gs st stop [OF w2]
        by (auto simp: archive_floor_sweep_with_def)
    next
      case (Inr ids1)
      have may: "deletable e ?J s" if "?P ids1 s" for s
        using that g archive storage_ids_sound [OF st [unfolded Inr]] by (auto simp: archive_disk_low_def)
      obtain y w3 where q: "query e eviction_batch_limit (?P ids1) w2 = (y, w3)" by force
      have run: "sweeps_to e ?J w (snd (snd (archive_floor_loop e h segs d ctx_new w3)))"
        if "y = Inr segs" for segs h
      proof (rule sweeps_to_after [OF w2])
        show "sweeps_to e ?J w2 (snd (snd (archive_floor_loop e h segs d ctx_new w3)))"
          using floor_listing_disposes [of e w2 eviction_batch_limit "?P ids1" segs w3 "deletable e ?J" h d]
            q [unfolded that] may assms w2 by (simp only: sweeps_to_def) (metis prod.collapse)
      qed
      have err: "sweeps_to e ?J w w3" if "y = Inl er" for er
        by (rule stop) (use query_error [OF q [unfolded that]] w2 in simp_all)
      show ?thesis
        using g gs st Inr stop [OF w2] q run err
        by (auto simp: archive_floor_sweep_with_def list_policy_segments_on_storages_oldest_first_def
            case_prod_beta split: sum.splits)
    qed
  qed
qed

lemma run_sweep_sweeps: "tidy e (index w) \<Longrightarrow> sweeps_to e job w (run_sweep e job w)"
  by (cases job) (simp_all only: live_retention_sweeps archive_retention_sweeps max_retention_sweeps
      archive_floor_sweeps)

subsection \<open>Sequences of sweeps\<close>

definition run_sweeps :: "vault_env \<Rightarrow> sweep_job list \<Rightarrow> vault \<Rightarrow> vault" where
  "run_sweeps e jobs w = fold (run_sweep e) jobs w"

lemma run_sweep_keeps:
  assumes "tidy e (index w)"
  shows "tidy e (index (run_sweep e job w))"
    and "s \<in> set (index w) \<Longrightarrow> \<not> deletable e job s \<Longrightarrow> unmoved e s w (run_sweep e job w)"
proof -
  obtain c where d: "disposes e False (set (index w)) (kept_ids (deletable e job) w) (ctx_new, w)
      (c, run_sweep e job w)"
    using run_sweep_sweeps [OF assms] by (auto simp: sweeps_to_def)
  have g: "good_step e False (kept_ids (deletable e job) w) (ctx_new, w) (c, run_sweep e job w)"
    by (rule disposes_good [OF d sound_start [OF assms]]) simp
  then show "tidy e (index (run_sweep e job w))" by (simp add: good_step_def sound_def)
  show "unmoved e s w (run_sweep e job w)" if "s \<in> set (index w)" "\<not> deletable e job s"
    using g that kept_ids_iff [OF assms that(1)] by (auto simp: good_step_def preserves_def)
qed

lemma run_sweeps_keep:
  "tidy e (index w) \<Longrightarrow> s \<in> set (index w) \<Longrightarrow> (\<forall>j \<in> set jobs. \<not> deletable e j s) \<Longrightarrow>
     unmoved e s w (run_sweeps e jobs w)"
proof (induction jobs arbitrary: w)
  case Nil
  then show ?case by (simp add: run_sweeps_def unmoved_def)
next
  case (Cons j jobs)
  have u: "unmoved e s w (run_sweep e j w)" using run_sweep_keeps(2) Cons.prems by simp
  then have "unmoved e s (run_sweep e j w) (run_sweeps e jobs (run_sweep e j w))"
    using Cons.IH [of "run_sweep e j w"] run_sweep_keeps(1) Cons.prems by (simp add: unmoved_def)
  then show ?case using u by (auto simp: run_sweeps_def unmoved_def)
qed

lemma protected_not_deletable: "protected e s \<Longrightarrow> \<not> deletable e job s"
  by (cases job) (auto simp: expired_live_def split: option.splits)

lemma run_sweep_unconfirmed:
  assumes "tidy e (index w)" and "s \<in> set (index w)" and "storage_of e (sg_storage s) = Some st"
    and "disk w (ve_canon e (st_path st @ sg_path s)) = None"
    and "unconfirmed e (st_path st) (ctx_new, w)"
  shows "s \<in> set (index (run_sweep e job w)) \<and>
    disk (run_sweep e job w) (ve_canon e (st_path st @ sg_path s)) = None \<and>
    unconfirmed e (st_path st) (ctx_new, run_sweep e job w)"
proof -
  obtain c where d: "disposes e False (set (index w)) (kept_ids (deletable e job) w) (ctx_new, w)
      (c, run_sweep e job w)"
    using run_sweep_sweeps [OF assms(1)] by (auto simp: sweeps_to_def)
  have "s \<in> set (index (run_sweep e job w)) \<and>
    disk (run_sweep e job w) (ve_canon e (st_path st @ sg_path s)) = None \<and>
    unconfirmed e (st_path st) (c, run_sweep e job w)"
    using disposes_unconfirmed [OF d sound_start [OF assms(1)] assms(5) _ assms(3) refl]
      assms(2,4) id_unique [of "index w"] assms(1) by (auto simp: tidy_def)
  then show ?thesis by (auto simp: unconfirmed_def ctx_new_def tally_default_def)
qed

text \<open>C5. Sweeps delete only what the settings allow. Over any sequence of live retention, archive
  retention, maximum retention and archive floor sweeps, under any faults, a segment under an active
  bookmark and a segment that none of the sweeps may delete (by its age, stage, camera and policy; by
  the archive floor only footage on an archive disk that is below its floor) keep their index row and
  their file untouched.\<close>

theorem sweeps_delete_only_expired:
  assumes "tidy e (index w)" and "s \<in> set (index w)"
    and "protected e s \<or> (\<forall>j \<in> set jobs. \<not> deletable e j s)"
  shows "s \<in> set (index (run_sweeps e jobs w)) \<and>
    (\<forall>q. spot e s = Some q \<longrightarrow> disk (run_sweeps e jobs w) q = disk w q)"
  using run_sweeps_keep [OF assms(1,2), of jobs] assms(3) protected_not_deletable
  by (auto simp: unmoved_def)

text \<open>C6. An unmounted disk keeps its index. While the marker of a storage is absent, or one of the
  two breakers has latched it, no sequence of sweeps removes a row of that storage whose file is not
  there, whatever the row's age and whatever the sweeps found earlier.\<close>

theorem unmounted_storage_keeps_index:
  assumes "tidy e (index w)" and "s \<in> set (index w)" and "storage_of e (sg_storage s) = Some st"
    and "disk w (ve_canon e (st_path st @ sg_path s)) = None"
    and "ve_reconcile_tripped e (st_path st) \<or> sweep_breaker_latched (st_path st) w \<or>
         disk w (ve_canon e (storage_marker_path (st_path st))) = None"
  shows "s \<in> set (index (run_sweeps e jobs w))"
proof -
  have "unconfirmed e (st_path st) (ctx_new, w)"
    using assms(5) by (auto simp: unconfirmed_def ctx_new_def tally_default_def sweep_breaker_latched_def)
  with assms(1,2,4) show ?thesis
  proof (induction jobs arbitrary: w)
    case Nil
    then show ?case by (simp add: run_sweeps_def)
  next
    case (Cons j jobs)
    then show ?case
      using run_sweep_unconfirmed [OF Cons.prems(1,2) assms(3) Cons.prems(3,4), of j]
        run_sweep_keeps(1) [OF Cons.prems(1)] by (simp add: run_sweeps_def)
  qed
qed

subsection \<open>The breaker\<close>

text \<open>The rows a sweep looks at, in order: their root and whether the file is there.\<close>

primrec prunes_on :: "vault_env \<Rightarrow> path \<Rightarrow> (path \<times> bool) list \<Rightarrow> sweep_ctx \<Rightarrow> vault \<Rightarrow> nat" where
  "prunes_on e base [] c w = 0"
| "prunes_on e base (r # seen) c w =
     (if snd r then prunes_on e base seen (note_present (fst r) c) w
      else case may_prune_missing e (fst r) c w of
        (ok, c1, w1) \<Rightarrow> (if ok \<and> fst r = base then 1 else 0) + prunes_on e base seen c1 w1)"

definition rows_on :: "path \<Rightarrow> (path \<times> bool) list \<Rightarrow> nat" where
  "rows_on base seen = length (filter (\<lambda>r. fst r = base) seen)"

lemma may_prune_tally:
  assumes "may_prune_missing e b c w = (ok, c1, w1)"
  shows "ta_missing (sc_tally c1 base) = ta_missing (sc_tally c base) + (if b = base then 1 else 0)"
    and "ta_checked (sc_tally c1 base) = ta_checked (sc_tally c base) + (if b = base then 1 else 0)"
    and "ok \<Longrightarrow> b = base \<Longrightarrow>
      \<not> sweep_breaker_tripped (ta_missing (sc_tally c1 base)) (ta_checked (sc_tally c1 base))"
  using assms
  by (auto simp: may_prune_missing_def Let_def case_prod_beta set_tally_def split: if_splits)

lemma not_tripped:
  assumes "\<not> sweep_breaker_tripped m k" and "m * 100 \<le> u64_max"
  shows "m \<le> 100 \<or> 2 * m \<le> k"
  using assms by (auto simp: sweep_breaker_tripped_def sat_mul_u64_def sweep_breaker_min_missing_def
      sweep_breaker_missing_pct_def min_def split: if_splits)

lemma prunes_on_bound:
  assumes "(ta_missing (sc_tally c base) + length seen) * 100 \<le> u64_max"
  shows "prunes_on e base seen c w = 0 \<or>
    ta_missing (sc_tally c base) + prunes_on e base seen c w \<le> 100 \<or>
    2 * (ta_missing (sc_tally c base) + prunes_on e base seen c w)
      \<le> ta_checked (sc_tally c base) + rows_on base seen"
  using assms
proof (induction seen arbitrary: c w)
  case Nil
  then show ?case by simp
next
  case (Cons r seen)
  obtain b present where r: "r = (b, present)" by force
  show ?case
  proof (cases present)
    case True
    have "ta_missing (sc_tally (note_present b c) base) = ta_missing (sc_tally c base)"
      "ta_checked (sc_tally (note_present b c) base) = ta_checked (sc_tally c base) + (if b = base then 1 else 0)"
      by (simp_all add: note_present_def set_tally_def Let_def)
    then show ?thesis
      using Cons.IH [of "note_present b c" w] Cons.prems r True by (auto simp: rows_on_def)
  next
    case False
    obtain ok c1 w1 where m: "may_prune_missing e b c w = (ok, c1, w1)" by (metis prod_cases3)
    note t = may_prune_tally [OF m, of base]
    have ih: "prunes_on e base seen c1 w1 = 0 \<or>
        ta_missing (sc_tally c1 base) + prunes_on e base seen c1 w1 \<le> 100 \<or>
        2 * (ta_missing (sc_tally c1 base) + prunes_on e base seen c1 w1)
          \<le> ta_checked (sc_tally c1 base) + rows_on base seen"
      by (rule Cons.IH) (use Cons.prems t in \<open>auto split: if_splits\<close>)
    have ok: "ok \<Longrightarrow> b = base \<Longrightarrow>
        ta_missing (sc_tally c1 base) \<le> 100 \<or> 2 * ta_missing (sc_tally c1 base) \<le> ta_checked (sc_tally c1 base)"
      using not_tripped [OF t(3)] t(1) Cons.prems by auto
    show ?thesis using ih ok t m r False by (auto simp: rows_on_def)
  qed
qed

text \<open>A missing disk costs at most a hundred rows. In one sweep, whatever rows it looks at and
  whatever it finds, the rows pruned on a storage for a missing file are at most one hundred, or at
  most half of the rows of that storage the sweep looked at.\<close>

theorem missing_file_breaker_bounds_pruning:
  assumes "length seen * 100 \<le> u64_max"
  shows "prunes_on e base seen ctx_new w \<le> max 100 (rows_on base seen div 2)"
  using prunes_on_bound [of ctx_new base seen e w] assms
  by (auto simp: ctx_new_def tally_default_def)

subsection \<open>The absolute retention ceiling\<close>

lemma calm_resolve:
  assumes "calm e" and "storage_of e i = Some st" and "cache_ok e c"
  obtains c1 w1 where "resolve_storage e i c w = (Inr st, c1, w1)"
proof (cases "sc_cache c i")
  case None
  then show ?thesis
    using assms that by (simp add: resolve_storage_def get_storage_def calm_draw)
next
  case (Some s)
  have "s = st" using Some assms(2,3) by (auto simp: cache_ok_def)
  then show ?thesis using Some that by (simp add: resolve_storage_def)
qed

lemma calm_delete:
  assumes "calm e" and "cache_ok e c" and "spot e seg = Some q" and "disk w q \<noteq> None"
    and d: "delete_segment_file_then_row e seg c w = (r, c', w')"
  shows "r = Inr Deleted" "index w' = filter (\<lambda>s. sg_id s \<noteq> sg_id seg) (index w)"
    "disk w' = (disk w)(q := None)"
proof -
  obtain st where st: "storage_of e (sg_storage seg) = Some st" "q = ve_canon e (st_path st @ sg_path seg)"
    using assms(3) by (auto simp: spot_def)
  obtain c1 w1 where r: "resolve_storage e (sg_storage seg) c w = (Inr st, c1, w1)"
    using calm_resolve [OF assms(1) st(1) assms(2)] .
  have w1: "disk w1 = disk w" "index w1 = index w"
    using resolve_storage_frame [of e "sg_storage seg" c w] r by simp_all
  obtain b where b: "disk w q = Some b" using assms(4) by auto
  have u: "unlink e (st_path st @ sg_path seg) w1 =
      (Removed, w1\<lparr>draws := draws w1 + 1, disk := (disk w)(q := None), synced := synced w1 - {q}\<rparr>)"
    using w1 st(2) b by (simp add: unlink_def calm_draw [OF assms(1)])
  show "r = Inr Deleted" "index w' = filter (\<lambda>s. sg_id s \<noteq> sg_id seg) (index w)"
    "disk w' = (disk w)(q := None)"
    using d w1(2) by (auto simp: delete_segment_file_then_row_def r u delete_row_as_def
        delete_segment_row_def calm_draw [OF assms(1)])
qed

text \<open>Exactly the given segments are gone, row and file.\<close>

definition wiped :: "vault_env \<Rightarrow> segment list \<Rightarrow> vault \<Rightarrow> vault \<Rightarrow> bool" where
  "wiped e segs w w' \<longleftrightarrow> index w' = filter (\<lambda>s. sg_id s \<notin> sg_id ` set segs) (index w) \<and>
     (\<forall>q. disk w' q = (if Some q \<in> spot e ` set segs then None else disk w q))"

definition wipeable :: "vault_env \<Rightarrow> segment list \<Rightarrow> vault \<Rightarrow> bool" where
  "wipeable e segs w \<longleftrightarrow> distinct (map (spot e) segs) \<and>
     (\<forall>seg \<in> set segs. \<exists>q. spot e seg = Some q \<and> disk w q \<noteq> None)"

lemma wiped_Nil [simp]: "wiped e [] w w"
  by (simp add: wiped_def)

lemma wiped_same: "wiped e segs w w1 \<Longrightarrow> disk w2 = disk w1 \<Longrightarrow> index w2 = index w1 \<Longrightarrow> wiped e segs w w2"
  by (simp add: wiped_def)

lemma wiped_gone: "wiped e segs w w' \<Longrightarrow> s \<in> set segs \<Longrightarrow> spot e s = Some q \<Longrightarrow> disk w' q = None"
  unfolding wiped_def by (metis rev_image_eqI)

lemma wiped_Cons:
  assumes "calm e" and "cache_ok e c" and "wipeable e (seg # segs) w"
    and d: "delete_segment_file_then_row e seg c w = (r, c1, w1)"
    and w2: "disk w2 = disk w1" "index w2 = index w1"
  shows "r = Inr Deleted" "cache_ok e c1" "wipeable e segs w2"
    "wiped e xs w2 w' \<Longrightarrow> wiped e (seg # xs) w w'"
proof -
  obtain q where q: "spot e seg = Some q" "disk w q \<noteq> None" using assms(3) by (auto simp: wipeable_def)
  note cd = calm_delete [OF assms(1,2) q d]
  show "r = Inr Deleted" by (rule cd)
  show "cache_ok e c1" using delete_cache_ok [OF assms(2), of seg w] d by simp
  have "\<exists>p. spot e x = Some p \<and> disk w2 p \<noteq> None" if x: "x \<in> set segs" for x
  proof -
    obtain p where p: "spot e x = Some p" "disk w p \<noteq> None" using assms(3) x by (auto simp: wipeable_def)
    have "p \<noteq> q" using assms(3) x p(1) q(1) by (auto simp: wipeable_def rev_image_eqI)
    then show ?thesis using p cd(3) w2 by auto
  qed
  then show "wipeable e segs w2" using assms(3) by (simp add: wipeable_def)
  show "wiped e (seg # xs) w w'" if "wiped e xs w2 w'"
    using that cd q(1) w2 by (auto simp: wiped_def image_iff intro!: filter_cong)
qed

lemma calm_delete_each:
  "calm e \<Longrightarrow> cache_ok e c \<Longrightarrow> wipeable e segs w \<Longrightarrow> wiped e segs w (snd (delete_each e segs c w))"
proof (induction segs arbitrary: c w)
  case Nil
  then show ?case by simp
next
  case (Cons seg segs)
  obtain r c1 w1 where d: "delete_segment_file_then_row e seg c w = (r, c1, w1)" by (metis prod_cases3)
  note wc = wiped_Cons [OF Cons.prems d refl refl]
  show ?case using wc(4) [OF Cons.IH [OF Cons.prems(1) wc(2,3)]] d by simp
qed

lemma oldest_first_all:
  "length (filter P ss) \<le> n \<Longrightarrow> set (oldest_first n P ss) = {s \<in> set ss. P s}"
  by (simp add: oldest_first_def)

lemma oldest_first_distinct:
  assumes "distinct (map f ss)"
  shows "distinct (map f (oldest_first n P ss))"
proof -
  have "inj_on f (set ss)" "distinct ss" using assms by (simp_all add: distinct_map)
  moreover have "distinct (oldest_first n P ss)" using calculation(2) by (simp add: oldest_first_def)
  ultimately show ?thesis
    using oldest_first_subset [of n P ss] by (auto simp: distinct_map intro: inj_on_subset)
qed

lemma tidy_spots:
  assumes "tidy e ss" and "\<And>s. s \<in> set ss \<Longrightarrow> P s \<Longrightarrow> spot e s \<noteq> None"
  shows "distinct (map (spot e) (oldest_first n P ss))"
proof -
  have d: "distinct (map sg_id ss)" using assms(1) by (simp add: tidy_def)
  have "distinct (oldest_first n P ss)" using oldest_first_distinct [OF d] by (simp add: distinct_map)
  moreover have "inj_on (spot e) (set (oldest_first n P ss))"
  proof (rule inj_onI)
    fix x y assume xy: "x \<in> set (oldest_first n P ss)" "y \<in> set (oldest_first n P ss)" "spot e x = spot e y"
    then have m: "x \<in> set ss" "y \<in> set ss" "P x" using oldest_first_subset by blast+
    then obtain q where q: "spot e x = Some q" using assms(2) by blast
    have "q \<in> places e x" "q \<in> places e y" using q xy(3) spot_places by auto
    then have "sg_id x = sg_id y" using assms(1) m by (auto simp: tidy_def fits_def)
    then show "x = y" by (rule id_unique [OF d m(1,2)])
  qed
  ultimately show ?thesis by (simp add: distinct_map)
qed

text \<open>The absolute retention ceiling is met. When nothing fails, the policy has a ceiling of some
  days, the over-age footage fits in one batch and its files are there, then one sweep removes exactly
  the unprotected segments of the policy older than the ceiling, of either stage: their rows are gone,
  their files are gone, and the rest of the index is unchanged.\<close>

theorem max_retention_ceiling_exact:
  assumes "calm e" and "tidy e (index w)" and "pol_max_retention_days p = Some d" and "0 < d"
    and "\<forall>s \<in> set (index w). deletable e (MaxRetention p) s \<longrightarrow>
           (\<exists>q. spot e s = Some q \<and> disk w q \<noteq> None)"
    and "length (filter (deletable e (MaxRetention p)) (index w)) \<le> max_retention_batch_limit"
    and "max_retention_sweep e p w = (r, w')"
  shows "r = Inr () \<and> index w' = filter (\<lambda>s. \<not> deletable e (MaxRetention p) s) (index w) \<and>
    (\<forall>s \<in> set (index w). deletable e (MaxRetention p) s \<longrightarrow> (\<forall>q. spot e s = Some q \<longrightarrow> disk w' q = None))"
proof -
  define P where "P s = (under_policy e (pol_id p) s \<and> sg_start s < ve_now e - hours (24 * d) \<and> \<not> protected e s)" for s
  have P: "P = deletable e (MaxRetention p)" using assms(3,4) by (auto simp: P_def)
  define segs where "segs = oldest_first max_retention_batch_limit P (index w)"
  define w1 where "w1 = w\<lparr>draws := draws w + 1\<rparr>"
  have w1: "disk w1 = disk w" "index w1 = index w" by (simp_all add: w1_def)
  have sweep: "r = Inr ()" "w' = snd (delete_each e segs ctx_new w1)"
    using assms(1,3,4,7)
    by (simp_all add: max_retention_sweep_def keep_if_def list_policy_segments_older_than_any_stage_def
        query_def calm_draw segs_def P_def [abs_def] w1_def)
  have mem: "set segs = {s \<in> set (index w). P s}"
    unfolding segs_def by (rule oldest_first_all) (use assms(6) P in simp)
  have dist: "distinct (map (spot e) segs)"
    unfolding segs_def by (rule tidy_spots [OF assms(2)]) (use assms(5) P in auto)
  have "wipeable e segs w1" using assms(5) mem P w1 dist by (auto simp: wipeable_def)
  note res = calm_delete_each [OF assms(1) ctx_new_ok this]
  have "filter (\<lambda>s. sg_id s \<notin> sg_id ` set segs) (index w) = filter (\<lambda>s. \<not> P s) (index w)"
    using id_unique [of "index w"] assms(2) mem by (auto simp: tidy_def intro!: filter_cong)
  then have "index w' = filter (\<lambda>s. \<not> P s) (index w)" using res sweep(2) w1 by (simp add: wiped_def)
  moreover have "\<forall>s \<in> set (index w). P s \<longrightarrow> (\<forall>q. spot e s = Some q \<longrightarrow> disk w' q = None)"
    using wiped_gone [OF res] sweep(2) mem by auto
  ultimately show ?thesis using sweep(1) P by blast
qed

subsection \<open>Concrete runs\<close>

definition demo_ceiling :: recording_policy where
  "demo_ceiling = demo_policy\<lparr>pol_max_retention_days := Some 1\<rparr>"

definition demo_bookmark :: bookmark where
  "demo_bookmark = \<lparr>bk_camera = 7, bk_start = hours 11, bk_end = hours 12, bk_until = hours 2000\<rparr>"

lemma demo_tidy:
  "tidy (demo_vault_env f g) (index demo_vault)"
  "tidy (ve_bookmarks_update k (demo_vault_env f g)) (index demo_vault)"
  by (simp_all add: tidy_def fits_def places_def spot_def dest_def marker_files_def storage_of_def
      storage_marker_path_def storage_marker_filename_def demo_vault_simps)

theorem sweeps_delete_only_expired_witness:
  "let e = (demo_vault_env (\<lambda>_. Good) (\<lambda>_. False))\<lparr>ve_bookmarks := [demo_bookmark]\<rparr>
   in demo_segment 11 \<in> set (index (run_sweeps e [MaxRetention demo_ceiling] demo_vault)) \<and>
      disk (run_sweeps e [MaxRetention demo_ceiling] demo_vault) [''live'', ''cam'', ''a.mp4''] = Some [1, 2, 3]"
proof -
  let ?e = "(demo_vault_env (\<lambda>_. Good) (\<lambda>_. False))\<lparr>ve_bookmarks := [demo_bookmark]\<rparr>"
  have "demo_segment 11 \<in> set (index demo_vault)" by (simp add: demo_vault_def)
  moreover have "protected ?e (demo_segment 11)"
    by (simp add: protected_def demo_bookmark_def demo_vault_simps seconds_def hours_def)
  ultimately show ?thesis
    using sweeps_delete_only_expired [OF demo_tidy(2), of "demo_segment 11" _ _ _ "[MaxRetention demo_ceiling]"]
    by (simp add: spot_def storage_of_def demo_vault_simps)
qed

theorem unmounted_storage_keeps_index_witness:
  "demo_segment 11 \<in> set (index (run_sweeps (demo_vault_env (\<lambda>_. Good) (\<lambda>_. False))
     [MaxRetention demo_ceiling, LiveRetention [(7, demo_policy)]] (demo_vault\<lparr>disk := Map.empty\<rparr>)))"
  by (rule unmounted_storage_keeps_index [where st = "\<lparr>st_id = 1, st_path = [''live'']\<rparr>"])
    (use demo_tidy(1) in \<open>simp_all add: storage_of_def demo_vault_simps\<close>)

theorem missing_file_breaker_bounds_pruning_witness:
  "prunes_on (demo_vault_env (\<lambda>_. Good) (\<lambda>_. False)) [''live''] (replicate 300 ([''live''], False))
     ctx_new demo_vault \<le> 150"
  using missing_file_breaker_bounds_pruning [of "replicate 300 ([''live''], False)"
      "demo_vault_env (\<lambda>_. Good) (\<lambda>_. False)" "[''live'']" demo_vault]
  by (simp add: u64_max_def rows_on_def)

theorem max_retention_ceiling_exact_witness:
  "index (snd (max_retention_sweep (demo_vault_env (\<lambda>_. Good) (\<lambda>_. False)) demo_ceiling demo_vault)) = []"
proof -
  let ?e = "demo_vault_env (\<lambda>_. Good) (\<lambda>_. False)"
  obtain r w' where m: "max_retention_sweep ?e demo_ceiling demo_vault = (r, w')" by force
  have "deletable ?e (MaxRetention demo_ceiling) (demo_segment 11)"
    by (simp add: demo_ceiling_def demo_policy_def under_policy_def protected_def demo_vault_simps hours_def seconds_def)
  then show ?thesis
    using max_retention_ceiling_exact [OF _ demo_tidy(1) _ _ _ _ m, of 1] m
    by (simp add: calm_def demo_ceiling_def spot_def storage_of_def demo_vault_simps
        max_retention_batch_limit_def)
qed

end
