(* ===== verification/Eviction.thy ===== *)
theory Eviction
  imports Retention
begin

text \<open>
  The size eviction of one policy (\<open>policy_size_eviction_sweep\<close> in
  \<open>services/recorder/src/archive.rs\<close>): byte caps on unprotected footage, the physical free-space floor
  of the live disk, and what is moved or deleted when either is exceeded.

  With the archive on, the oldest live footage is moved; it is deleted only to rescue a live disk that is
  below its floor, and then only footage on that disk. With the archive off, the floor is served first,
  from the low disk only, then the cap, from any disk. The archive tier has a cap of its own.

  Byte counts are integers: sums of \<open>bigint\<close> columns that do not fit are an error of the query, as in
  the database, and the additions of the spill margin saturate. The lock is not modelled, so the points
  where a long run releases it are not either.
\<close>

subsection \<open>Accounting\<close>

definition total_bytes :: "segment list \<Rightarrow> i64" where
  "total_bytes ss = sum_list (map sg_size ss)"

definition policy_bytes_split ::
  "vault_env \<Rightarrow> uuid \<Rightarrow> segment_stage list \<Rightarrow> vault \<Rightarrow> (move_error + i64 \<times> i64) \<times> vault" where
  "policy_bytes_split e pid stages w =
     (let (f, w1) = draw e w;
          mine = filter (\<lambda>s. sg_stage s \<in> set stages \<and> under_policy e pid s) (index w);
          whole = total_bytes mine; free = total_bytes (filter (\<lambda>s. \<not> protected e s) mine)
      in (if broken f \<or> whole \<notin> {i64_min..i64_max} \<or> free \<notin> {i64_min..i64_max}
          then Inl OtherError else Inr (whole, free), w1))"

definition floor_storage ::
  "vault_env \<Rightarrow> recording_policy \<Rightarrow> vault \<Rightarrow> storage_row option \<times> vault" where
  "floor_storage e p w =
     (case pol_live_storage_id p of
        Some sid \<Rightarrow>
          (case get_storage e sid w of (Inr s, w1) \<Rightarrow> (s, w1) | (Inl _, w1) \<Rightarrow> (None, w1))
      | None \<Rightarrow> (let (f, w1) = draw e w in (if broken f then None else ve_config_live e, w1)))"

definition floor_deficit :: "vault_env \<Rightarrow> recording_policy \<Rightarrow> storage_row option \<Rightarrow> i64" where
  "floor_deficit e p fs =
     (case fs of
        None \<Rightarrow> 0
      | Some s \<Rightarrow>
          (case below_floor e (st_path s) (pol_live_min_free_pct p) (pol_live_min_free_bytes p) of
             Some (True, d) \<Rightarrow> d
           | _ \<Rightarrow> 0))"

definition live_cap :: "recording_policy \<Rightarrow> i64 option" where
  "live_cap p = keep_if (\<lambda>c. 0 < c) (pol_live_max_bytes p)"

definition spill_margin :: "recording_policy \<Rightarrow> i64" where
  "spill_margin p = or_else (keep_if (\<lambda>b. 0 < b) (pol_live_spill_low_water_bytes p)) 0"

definition stop_target :: "i64 \<Rightarrow> i64 \<Rightarrow> i64" where
  "stop_target spill cap = (if spill < cap then cap - spill else cap)"

definition padded_deficit :: "i64 \<Rightarrow> i64 \<Rightarrow> i64" where
  "padded_deficit spill d = (if 0 < d then min i64_max (d + spill) else d)"

definition over :: "i64 \<Rightarrow> i64 option \<Rightarrow> bool" where
  "over used limit = (case limit of None \<Rightarrow> False | Some t \<Rightarrow> t < used)"

subsection \<open>State of the live pass\<close>

record eviction =
  ev_ctx :: sweep_ctx
  ev_used :: i64
  ev_deficit :: i64
  ev_blocked :: bool
  ev_ensured :: bool
  ev_alerted :: bool
  ev_same_archive :: "uuid \<Rightarrow> bool option"
  ev_same_floor :: "uuid \<Rightarrow> bool option"

definition eviction_new :: "i64 \<Rightarrow> i64 \<Rightarrow> bool \<Rightarrow> eviction" where
  "eviction_new used deficit blocked =
     \<lparr>ev_ctx = ctx_new, ev_used = used, ev_deficit = deficit, ev_blocked = blocked, ev_ensured = False,
      ev_alerted = False, ev_same_archive = (\<lambda>_. None), ev_same_floor = (\<lambda>_. None)\<rparr>"

definition on_fs_cached ::
  "vault_env \<Rightarrow> (uuid \<Rightarrow> bool option) \<Rightarrow> uuid \<Rightarrow> path \<Rightarrow> path \<Rightarrow> vault \<Rightarrow>
     bool \<times> (uuid \<Rightarrow> bool option) \<times> vault" where
  "on_fs_cached e cached i a b w =
     (case cached i of
        Some v \<Rightarrow> (v, cached, w)
      | None \<Rightarrow> (let (v, w1) = same_filesystem e a b w in (v, cached(i \<mapsto> v), w1)))"

definition floor_rescue_delete ::
  "vault_env \<Rightarrow> recording_policy \<Rightarrow> segment \<Rightarrow> eviction \<Rightarrow> vault \<Rightarrow> eviction \<times> vault" where
  "floor_rescue_delete e p seg v w =
     (case delete_segment_file_then_row e seg (ev_ctx v) w of
        (Inr Deleted, c1, w1) \<Rightarrow>
          (v\<lparr>ev_ctx := c1, ev_used := ev_used v - sg_size seg,
             ev_deficit := max (ev_deficit v - sg_size seg) 0\<rparr>,
           emit_premature_rollover_if_early e seg (pol_live_retention_hours p) w1)
      | (Inr DanglingPruned, c1, w1) \<Rightarrow>
          (v\<lparr>ev_ctx := c1, ev_used := ev_used v - sg_size seg\<rparr>, w1)
      | (_, c1, w1) \<Rightarrow> (v\<lparr>ev_ctx := c1\<rparr>, w1))"

subsection \<open>Archive on: move the oldest live footage\<close>

text \<open>
  Where the moves of one sweep go and which disk is in deficit. Each step returns whether the loop goes
  on (\<open>continue\<close>) or stops the tick (\<open>break\<close>).
\<close>

record move_plan =
  mp_policy :: recording_policy
  mp_archive :: storage_row
  mp_floor :: "path option"
  mp_target :: "i64 option"

definition on_floor_fs ::
  "vault_env \<Rightarrow> move_plan \<Rightarrow> storage_row \<Rightarrow> eviction \<Rightarrow> vault \<Rightarrow> bool \<times> eviction \<times> vault" where
  "on_floor_fs e mp src v w =
     (case mp_floor mp of
        Some fr \<Rightarrow>
          if 0 < ev_deficit v
          then (let (b, cached, w1) = on_fs_cached e (ev_same_floor v) (st_id src) (st_path src) fr w
                in (b, v\<lparr>ev_same_floor := cached\<rparr>, w1))
          else (False, v, w)
      | None \<Rightarrow> (False, v, w))"

definition wants_rescue ::
  "vault_env \<Rightarrow> move_plan \<Rightarrow> storage_row \<Rightarrow> bool \<Rightarrow> eviction \<Rightarrow> vault \<Rightarrow> bool \<times> eviction \<times> vault" where
  "wants_rescue e mp src on_floor v w =
     (if \<not> on_floor then (False, v, w)
      else if ev_blocked v then (True, v, w)
      else let (b, cached, w1) =
             on_fs_cached e (ev_same_archive v) (st_id src) (st_path src) (st_path (mp_archive mp)) w
           in (b, v\<lparr>ev_same_archive := cached\<rparr>, w1))"

definition move_succeeded ::
  "vault_env \<Rightarrow> move_plan \<Rightarrow> storage_row \<Rightarrow> segment \<Rightarrow> bool \<Rightarrow> eviction \<Rightarrow> vault \<Rightarrow> eviction \<times> vault" where
  "move_succeeded e mp src seg on_floor v w =
     (v\<lparr>ev_used := ev_used v - sg_size seg, ev_ctx := note_present (st_path src) (ev_ctx v),
        ev_deficit := (if 0 < ev_deficit v
                       then credit_move_against_deficit (ev_deficit v) (sg_size seg) on_floor
                       else ev_deficit v),
        ev_ensured := True\<rparr>,
      if ev_ensured v then w else ensure_marker e (st_path (mp_archive mp)) w)"

definition prune_gone ::
  "vault_env \<Rightarrow> storage_row \<Rightarrow> segment \<Rightarrow> eviction \<Rightarrow> vault \<Rightarrow> bool \<times> eviction \<times> vault" where
  "prune_gone e src seg v w =
     (case may_prune_missing e (st_path src) (ev_ctx v) w of
        (False, c1, w1) \<Rightarrow> (True, v\<lparr>ev_ctx := c1\<rparr>, w1)
      | (True, c1, w1) \<Rightarrow>
          (case delete_segment_row e (sg_id seg) w1 of
             (Inl _, w2) \<Rightarrow> (False, v\<lparr>ev_ctx := c1\<rparr>, w2)
           | (Inr _, w2) \<Rightarrow> (True, v\<lparr>ev_ctx := c1, ev_used := ev_used v - sg_size seg\<rparr>, w2)))"

definition move_failed ::
  "vault_env \<Rightarrow> move_plan \<Rightarrow> storage_row \<Rightarrow> segment \<Rightarrow> bool \<Rightarrow> bool \<Rightarrow> eviction \<Rightarrow> vault \<Rightarrow>
     bool \<times> eviction \<times> vault" where
  "move_failed e mp src seg below on_floor v w =
     (let (r, w1) = file_exists e (st_path src @ sg_path seg) w in
      if r = Some False then prune_gone e src seg v w1
      else let w2 = (if ev_alerted v then w1 else raise_storage_event e w1);
               v1 = v\<lparr>ev_alerted := True, ev_blocked := True\<rparr>
           in if on_floor then (let (v2, w3) = floor_rescue_delete e (mp_policy mp) seg v1 w2 in (True, v2, w3))
              else (below, v1, w2))"

definition evict_one ::
  "vault_env \<Rightarrow> move_plan \<Rightarrow> segment \<Rightarrow> eviction \<Rightarrow> vault \<Rightarrow> bool \<times> eviction \<times> vault" where
  "evict_one e mp seg v w =
     (case resolve_storage e (sg_storage seg) (ev_ctx v) w of
        (Inl _, c1, w1) \<Rightarrow> (False, v\<lparr>ev_ctx := c1\<rparr>, w1)
      | (Inr src, c1, w1) \<Rightarrow>
          (let below = 0 < ev_deficit v;
               (on_floor, v2, w2) = on_floor_fs e mp src (v\<lparr>ev_ctx := c1\<rparr>) w1;
               (rescue, v3, w3) = wants_rescue e mp src on_floor v2 w2
           in if rescue then (let (v4, w4) = floor_rescue_delete e (mp_policy mp) seg v3 w3 in (True, v4, w4))
              else if ev_blocked v3 then (below, v3, w3)
              else (case move_segment_to_archive e seg (st_path src) (st_path (mp_archive mp))
                           (st_id (mp_archive mp)) w3 of
                      (Inr _, w4) \<Rightarrow> (True, move_succeeded e mp src seg on_floor v3 w4)
                    | (Inl _, w4) \<Rightarrow> move_failed e mp src seg below on_floor v3 w4)))"

fun move_loop ::
  "vault_env \<Rightarrow> move_plan \<Rightarrow> segment list \<Rightarrow> eviction \<Rightarrow> vault \<Rightarrow> eviction \<times> vault" where
  "move_loop e mp [] v w = (v, w)"
| "move_loop e mp (seg # rest) v w =
     (if \<not> over (ev_used v) (mp_target mp) \<and> \<not> 0 < ev_deficit v then (v, w)
      else (case evict_one e mp seg v w of
              (True, v1, w1) \<Rightarrow> move_loop e mp rest v1 w1
            | (False, v1, w1) \<Rightarrow> (v1, w1)))"

definition resolve_archive_dirs_for_policy ::
  "vault_env \<Rightarrow> recording_policy \<Rightarrow> vault \<Rightarrow> (move_error + storage_row \<times> storage_row) \<times> vault" where
  "resolve_archive_dirs_for_policy e p w =
     (case (pol_live_storage_id p, pol_archive_storage_id p) of
        (Some lid, Some aid) \<Rightarrow>
          (case get_storage e lid w of
             (Inr (Some live), w1) \<Rightarrow>
               (case get_storage e aid w1 of
                  (Inr (Some archive), w2) \<Rightarrow> (Inr (live, archive), w2)
                | (_, w2) \<Rightarrow> (Inl OtherError, w2))
           | (_, w1) \<Rightarrow> (Inl OtherError, w1))
      | _ \<Rightarrow> (Inl OtherError, w))"

definition evict_by_moving ::
  "vault_env \<Rightarrow> move_plan \<Rightarrow> i64 \<Rightarrow> i64 \<Rightarrow> vault \<Rightarrow> (move_error + unit) \<times> vault" where
  "evict_by_moving e mp used deficit w =
     (case destination_confirmed e (mp_archive mp) w of
        (Inl er, w1) \<Rightarrow> (Inl er, w1)
      | (Inr confirmed, w1) \<Rightarrow>
          (let w2 = (if confirmed then w1 else raise_storage_event e w1) in
           case list_policy_segments_oldest_first e (pol_id (mp_policy mp)) LiveStage
                  eviction_batch_limit w2 of
             (Inl er, w3) \<Rightarrow> (Inl er, w3)
           | (Inr segs, w3) \<Rightarrow>
               (Inr (), snd (move_loop e mp segs (eviction_new used deficit (\<not> confirmed)) w3))))"

subsection \<open>Archive off: the floor, then the cap\<close>

fun floor_loop ::
  "vault_env \<Rightarrow> recording_policy \<Rightarrow> segment list \<Rightarrow> eviction \<Rightarrow> vault \<Rightarrow> eviction \<times> vault" where
  "floor_loop e p [] v w = (v, w)"
| "floor_loop e p (seg # rest) v w =
     (if ev_deficit v \<le> 0 then (v, w)
      else let (v1, w1) = floor_rescue_delete e p seg v w in floor_loop e p rest v1 w1)"

text \<open>The deletion loop of a byte cap; \<open>hours\<close> is the retention an early deletion is reported against.\<close>

fun cap_loop ::
  "vault_env \<Rightarrow> int option \<Rightarrow> i64 \<Rightarrow> segment list \<Rightarrow> i64 \<Rightarrow> sweep_ctx \<Rightarrow> vault \<Rightarrow>
     i64 \<times> sweep_ctx \<times> vault" where
  "cap_loop e hrs target [] used c w = (used, c, w)"
| "cap_loop e hrs target (seg # rest) used c w =
     (if used \<le> target \<or> ve_now e - seconds cap_eviction_min_age_secs \<le> sg_start seg then (used, c, w)
      else (case delete_segment_file_then_row e seg c w of
          (Inr Deleted, c1, w1) \<Rightarrow>
            cap_loop e hrs target rest (used - sg_size seg) c1
              (case hrs of None \<Rightarrow> w1 | Some h \<Rightarrow> emit_premature_rollover_if_early e seg h w1)
        | (Inr DanglingPruned, c1, w1) \<Rightarrow> cap_loop e hrs target rest (used - sg_size seg) c1 w1
        | (_, c1, w1) \<Rightarrow> cap_loop e hrs target rest used c1 w1))"

definition floor_pass ::
  "vault_env \<Rightarrow> recording_policy \<Rightarrow> path option \<Rightarrow> eviction \<Rightarrow> vault \<Rightarrow>
     (move_error + eviction) \<times> vault" where
  "floor_pass e p floor_root v w =
     (case floor_root of
        None \<Rightarrow> (Inr v, w)
      | Some fr \<Rightarrow>
          if ev_deficit v \<le> 0 then (Inr v, w)
          else (case storage_ids_on_filesystem e fr w of
                  (Inl er, w1) \<Rightarrow> (Inl er, w1)
                | (Inr ids, w1) \<Rightarrow>
                    if ids = [] then (Inr v, w1)
                    else (case list_policy_segments_on_storages_oldest_first e (pol_id p)
                                 [LiveStage, ArchiveStage] ids eviction_batch_limit w1 of
                            (Inl er, w2) \<Rightarrow> (Inl er, w2)
                          | (Inr segs, w2) \<Rightarrow> (let (v1, w3) = floor_loop e p segs v w2 in (Inr v1, w3)))))"

definition live_cap_pass ::
  "vault_env \<Rightarrow> recording_policy \<Rightarrow> i64 option \<Rightarrow> eviction \<Rightarrow> vault \<Rightarrow> (move_error + unit) \<times> vault" where
  "live_cap_pass e p target v w =
     (case keep_if (\<lambda>t. t < ev_used v) target of
        None \<Rightarrow> (Inr (), w)
      | Some t \<Rightarrow>
          (case list_policy_segments_oldest_first_any_stage e (pol_id p) eviction_batch_limit w of
             (Inl er, w1) \<Rightarrow> (Inl er, w1)
           | (Inr segs, w1) \<Rightarrow>
               (Inr (), snd (snd (cap_loop e (Some (pol_live_retention_hours p)) t segs (ev_used v)
                                    (ev_ctx v) w1)))))"

definition evict_by_deleting ::
  "vault_env \<Rightarrow> recording_policy \<Rightarrow> path option \<Rightarrow> i64 option \<Rightarrow> i64 \<Rightarrow> i64 \<Rightarrow> vault \<Rightarrow>
     (move_error + unit) \<times> vault" where
  "evict_by_deleting e p floor_root target used deficit w =
     (case floor_pass e p floor_root (eviction_new used deficit False) w of
        (Inl er, w1) \<Rightarrow> (Inl er, w1)
      | (Inr v, w1) \<Rightarrow> live_cap_pass e p target v w1)"

subsection \<open>The sweep\<close>

definition live_pass :: "vault_env \<Rightarrow> recording_policy \<Rightarrow> vault \<Rightarrow> (move_error + unit) \<times> vault" where
  "live_pass e p w =
     (case policy_bytes_split e (pol_id p)
             (if pol_archive_enabled p then [LiveStage] else [LiveStage, ArchiveStage]) w of
        (Inl er, w1) \<Rightarrow> (Inl er, w1)
      | (Inr (_, used), w1) \<Rightarrow>
          (let (fs, w2) = floor_storage e p w1;
               deficit = floor_deficit e p fs;
               spill = spill_margin p;
               target = map_option (stop_target spill) (live_cap p);
               floor_root = map_option st_path fs
           in if \<not> over used (live_cap p) \<and> \<not> 0 < deficit then (Inr (), w2)
              else if \<not> pol_archive_enabled p
                then evict_by_deleting e p floor_root target used (padded_deficit spill deficit) w2
              else (case resolve_archive_dirs_for_policy e p w2 of
                      (Inl _, w3) \<Rightarrow> (Inr (), w3)
                    | (Inr (_, archive), w3) \<Rightarrow>
                        evict_by_moving e
                          \<lparr>mp_policy = p, mp_archive = archive, mp_floor = floor_root, mp_target = target\<rparr>
                          used (padded_deficit spill deficit) w3)))"

definition archive_cap_pass :: "vault_env \<Rightarrow> recording_policy \<Rightarrow> vault \<Rightarrow> (move_error + unit) \<times> vault" where
  "archive_cap_pass e p w =
     (case keep_if (\<lambda>c. 0 < c \<and> pol_archive_enabled p) (pol_archive_max_bytes p) of
        None \<Rightarrow> (Inr (), w)
      | Some cap \<Rightarrow>
          (case policy_bytes_split e (pol_id p) [ArchiveStage] w of
             (Inl er, w1) \<Rightarrow> (Inl er, w1)
           | (Inr (_, used), w1) \<Rightarrow>
               if used \<le> cap then (Inr (), w1)
               else (case list_policy_segments_oldest_first e (pol_id p) ArchiveStage
                            eviction_batch_limit w1 of
                       (Inl er, w2) \<Rightarrow> (Inl er, w2)
                     | (Inr segs, w2) \<Rightarrow>
                         (Inr (), snd (snd (cap_loop e (archive_drain_retention_hours p)
                                             (stop_target (spill_margin p) cap) segs used ctx_new w2))))))"

definition policy_size_eviction_sweep ::
  "vault_env \<Rightarrow> recording_policy \<Rightarrow> vault \<Rightarrow> (move_error + unit) \<times> vault" where
  "policy_size_eviction_sweep e p w =
     (case live_pass e p w of
        (Inl er, w1) \<Rightarrow> (Inl er, w1)
      | (Inr _, w1) \<Rightarrow> archive_cap_pass e p w1)"

subsection \<open>The sweep as a run of disposals\<close>

text \<open>The rows of the other segments stay in the index.\<close>

definition others_stay :: "segment \<Rightarrow> vault \<Rightarrow> vault \<Rightarrow> bool" where
  "others_stay seg w w' \<longleftrightarrow> (\<forall>s \<in> set (index w). sg_id s \<noteq> sg_id seg \<longrightarrow> s \<in> set (index w'))"

definition handles ::
  "vault_env \<Rightarrow> bool \<Rightarrow> segment set \<Rightarrow> uuid set \<Rightarrow> segment \<Rightarrow> sweep_ctx \<times> vault \<Rightarrow> sweep_ctx \<times> vault \<Rightarrow> bool" where
  "handles e moving listed keep seg x y \<longleftrightarrow> disposes e moving listed keep x y \<and> others_stay seg (snd x) (snd y)"

lemma handles_trans:
  "handles e m listed keep seg x y \<Longrightarrow> handles e m listed keep seg y z \<Longrightarrow> handles e m listed keep seg x z"
  unfolding handles_def others_stay_def by (meson rtranclp_trans)

lemma handles_step:
  "disposal_step e m listed keep x y \<Longrightarrow> others_stay seg (snd x) (snd y) \<Longrightarrow> handles e m listed keep seg x y"
  by (simp add: handles_def r_into_rtranclp)

lemma handles_quiet:
  "disk w' = disk w \<Longrightarrow> index w' = index w \<Longrightarrow> tripped w' = tripped w \<Longrightarrow> (cache_ok e c \<longrightarrow> cache_ok e c') \<Longrightarrow>
   sc_tally c' = sc_tally c \<Longrightarrow> handles e m listed keep seg (c, w) (c', w')"
  by (rule handles_step [OF disposal_step.quiet]) (simp_all add: others_stay_def)

lemma filter_others_stay:
  "index w' = index w \<or> index w' = filter (\<lambda>s. sg_id s \<noteq> sg_id seg) (index w) \<Longrightarrow> others_stay seg w w'"
  by (auto simp: others_stay_def)

lemma delete_handles:
  assumes "seg \<in> listed" and "sg_id seg \<notin> keep" and "fits e (index w) seg"
    and d: "delete_segment_file_then_row e seg c w = (r, c', w')"
  shows "handles e m listed keep seg (c, w) (c', w')"
  by (rule handles_step [OF disposal_step.delete [OF assms]])
    (use delete_index [of e seg c w] d in \<open>simp add: filter_others_stay\<close>)

lemma resolve_handles:
  assumes "resolve_storage e i c w = (r, c', w')"
  shows "handles e m listed keep seg (c, w) (c', w')"
  using resolve_storage_frame [of e i c w] resolve_storage_ok(1) [of e c i w] assms
  by (intro handles_quiet) simp_all

lemma floor_rescue_handles:
  assumes "seg \<in> listed" and "sg_id seg \<notin> keep" and "fits e (index w) seg"
    and "floor_rescue_delete e p seg v w = (v', w')"
  shows "handles e m listed keep seg (ev_ctx v, w) (ev_ctx v', w')"
    and "ev_same_floor v' = ev_same_floor v"
proof -
  obtain r c1 w1 where d: "delete_segment_file_then_row e seg (ev_ctx v) w = (r, c1, w1)" by (metis prod_cases3)
  have w': "disk w' = disk w1" "index w' = index w1" "tripped w' = tripped w1" "ev_ctx v' = c1"
    "ev_same_floor v' = ev_same_floor v"
    using assms(4) d by (auto simp: floor_rescue_delete_def split: sum.splits delete_outcome.splits)
  show "handles e m listed keep seg (ev_ctx v, w) (ev_ctx v', w')"
    using handles_trans [OF delete_handles [OF assms(1-3) d] handles_quiet] w' by simp
  show "ev_same_floor v' = ev_same_floor v" by (rule w')
qed

text \<open>A move of a missing file changes no row.\<close>

lemma move_missing_index:
  assumes "disk w (ve_canon e (sr @ sg_path seg)) = None"
    and "move_segment_to_archive e seg sr ar st w = (r, w')"
  shows "index w' = index w"
proof (cases "archive_relative_path e (sg_camera seg) (sg_start seg) (sg_path seg)")
  case None
  then show ?thesis using assms by (simp add: move_segment_to_archive_def)
next
  case (Some rel)
  obtain same w1 where sf: "same_file e (sr @ sg_path seg) (ar @ rel) w = (same, w1)" by force
  have ns: "\<not> same" using same_file_sound [of e "sr @ sg_path seg" "ar @ rel" w w1] sf assms(1) by (cases same) auto
  have w1: "disk w1 = disk w" "index w1 = index w"
    using same_file_frame [of e "sr @ sg_path seg" "ar @ rel" w] sf by simp_all
  obtain x w2 where cd: "create_dir_all e w1 = (x, w2)" by force
  have w2: "disk w2 = disk w" "index w2 = index w" using create_dir_all_frame [of e w1] cd w1 by simp_all
  obtain y w3 where cp: "copy_with_crc32 e (sr @ sg_path seg) (ar @ rel) w2 = (y, w3)" by force
  have y: "\<exists>er. y = Inl er"
  proof -
    have "y = Inr (n, c) \<Longrightarrow> False" for n c
      using cp w2 assms(1) same_file_frame(1) [of e "sr @ sg_path seg" "ar @ rel" w2]
      by (auto simp: copy_with_crc32_def case_prod_beta Let_def split: option.splits if_splits)
    then show ?thesis by (cases y) auto
  qed
  have "index w3 = index w" using copy_frame(1) [of e "sr @ sg_path seg" "ar @ rel" w2] cp w2 by simp
  then show ?thesis
    using assms(2) Some sf ns cd cp y w2
    by (auto simp: move_segment_to_archive_def Let_def split: sum.splits)
qed

lemma move_handles:
  assumes "seg \<in> set (index w)" and "storage_of e (sg_storage seg) = Some src"
    and "storage_of e aid = Some ast"
    and mv: "move_segment_to_archive e seg (st_path src) (st_path ast) aid w = (r, w')"
  shows "handles e True listed keep seg (c, w) (c, w')"
proof (rule handles_step)
  show "disposal_step e True listed keep (c, w) (c, w')"
    by (rule disposal_step.move [OF _ assms]) simp
  have "others_stay seg w w'"
    using move_index [of e seg "st_path src" "st_path ast" aid w] mv flip_row_other
    by (fastforce simp: others_stay_def)
  then show "others_stay seg (snd (c, w)) (snd (c, w'))" by simp
qed

lemma prune_gone_handles:
  assumes "seg \<in> set (index w)" and "storage_of e (sg_storage seg) = Some src"
    and "disk w (ve_canon e (st_path src @ sg_path seg)) = None"
    and "prune_gone e src seg v w = (go, v', w')"
  shows "handles e True listed keep seg (ev_ctx v, w) (ev_ctx v', w')"
    and "ev_same_floor v' = ev_same_floor v"
proof -
  obtain ok c1 w1 where m: "may_prune_missing e (st_path src) (ev_ctx v) w = (ok, c1, w1)" by (metis prod_cases3)
  have w1: "index w1 = index w" using may_prune_frame(2) [of e "st_path src" "ev_ctx v" w] m by simp
  show "ev_same_floor v' = ev_same_floor v"
    using assms(4) m by (auto simp: prune_gone_def split: bool.splits sum.splits prod.splits)
  show "handles e True listed keep seg (ev_ctx v, w) (ev_ctx v', w')"
  proof (cases ok)
    case False
    have "disposal_step e True listed keep (ev_ctx v, w) (c1, w1)"
      by (rule disposal_step.refuse) (use m False in simp)
    then show ?thesis using assms(4) m False w1 by (auto simp: prune_gone_def others_stay_def intro!: handles_step)
  next
    case True
    obtain r w2 where d: "delete_segment_row e (sg_id seg) w1 = (r, w2)" by force
    have "disposal_step e True listed keep (ev_ctx v, w) (c1, w2)"
      by (rule disposal_step.prune [OF _ assms(1,2,3) _ d]) (use m True in simp_all)
    moreover have "others_stay seg w w2"
      using delete_row_index [of e "sg_id seg" w1] d w1 by (simp add: filter_others_stay)
    moreover have "ev_ctx v' = c1" "w' = w2"
      using assms(4) m True d by (auto simp: prune_gone_def split: sum.splits)
    ultimately show ?thesis by (simp add: handles_step)
  qed
qed

lemma move_succeeded_handles:
  assumes "mp_archive mp \<in> set (ve_storages e)"
    and "move_succeeded e mp src seg on_floor v w = (v', w')"
  shows "handles e True listed keep seg (ev_ctx v, w) (ev_ctx v', w')"
    and "ev_same_floor v' = ev_same_floor v"
proof -
  have v': "ev_ctx v' = note_present (st_path src) (ev_ctx v)" "ev_same_floor v' = ev_same_floor v"
    "w' = (if ev_ensured v then w else ensure_marker e (st_path (mp_archive mp)) w)"
    using assms(2) by (auto simp: move_succeeded_def)
  show "ev_same_floor v' = ev_same_floor v" by (rule v')
  have "handles e True listed keep seg (ev_ctx v, w) (ev_ctx v', w)"
    using v' by (simp add: handles_step disposal_step.present others_stay_def)
  moreover have "handles e True listed keep seg (ev_ctx v', w) (ev_ctx v', w')"
    using v'(3) handles_step [OF disposal_step.marker [OF _ assms(1)]]
      handles_quiet [of w w e "ev_ctx v'" "ev_ctx v'"]
    by (auto simp: others_stay_def)
  ultimately show "handles e True listed keep seg (ev_ctx v, w) (ev_ctx v', w')" by (rule handles_trans)
qed

lemma move_failed_handles:
  assumes seg: "seg \<in> listed" "fits e (index w) seg" "on_floor \<Longrightarrow> sg_id seg \<notin> keep"
    and gone: "disk w (ve_canon e (st_path src @ sg_path seg)) = None \<Longrightarrow> seg \<in> set (index w)"
    and src: "storage_of e (sg_storage seg) = Some src"
    and mf: "move_failed e mp src seg below on_floor v w = (go, v', w')"
  shows "handles e True listed keep seg (ev_ctx v, w) (ev_ctx v', w') \<and> ev_same_floor v' = ev_same_floor v"
proof -
  obtain x w1 where fe: "file_exists e (st_path src @ sg_path seg) w = (x, w1)" by force
  have w1: "disk w1 = disk w" "index w1 = index w" "tripped w1 = tripped w"
    using file_exists_frame [of e "st_path src @ sg_path seg" w] fe by simp_all
  have h1: "handles e True listed keep seg (ev_ctx v, w) (ev_ctx v, w1)" by (rule handles_quiet) (simp_all add: w1)
  show ?thesis
  proof (cases "x = Some False")
    case True
    have "disk w (ve_canon e (st_path src @ sg_path seg)) = None"
      using fe True by (auto simp: file_exists_def draw_def split: if_splits)
    then have "seg \<in> set (index w1)" "disk w1 (ve_canon e (st_path src @ sg_path seg)) = None"
      using gone w1 by simp_all
    moreover have "prune_gone e src seg v w1 = (go, v', w')" using mf fe True by (simp add: move_failed_def)
    ultimately show ?thesis
      using handles_trans [OF h1 prune_gone_handles(1) [OF _ src]] prune_gone_handles(2) [OF _ src] by blast
  next
    case False
    define w2 where "w2 = (if ev_alerted v then w1 else raise_storage_event e w1)"
    define v1 where "v1 = v\<lparr>ev_alerted := True, ev_blocked := True\<rparr>"
    have w2: "disk w2 = disk w1" "index w2 = index w1" "tripped w2 = tripped w1" by (simp_all add: w2_def)
    have v1: "ev_ctx v1 = ev_ctx v" "ev_same_floor v1 = ev_same_floor v" by (simp_all add: v1_def)
    have h2: "handles e True listed keep seg (ev_ctx v, w) (ev_ctx v1, w2)"
      using handles_trans [OF h1 handles_quiet] w2 v1 by simp
    have split: "(if on_floor then (let (v2, w3) = floor_rescue_delete e (mp_policy mp) seg v1 w2 in (True, v2, w3))
        else (below, v1, w2)) = (go, v', w')"
      using mf fe False by (simp add: move_failed_def w2_def v1_def Let_def split: if_splits)
    show ?thesis
    proof (cases on_floor)
      case True
      have fl: "floor_rescue_delete e (mp_policy mp) seg v1 w2 = (v', w')"
        using split True by (simp add: case_prod_beta prod_eq_iff)
      have "fits e (index w2) seg" using seg(2) w1 w2 by simp
      from floor_rescue_handles [OF seg(1) seg(3) [OF True] this fl] show ?thesis
        using handles_trans [OF h2] v1 by auto
    next
      case False
      then show ?thesis using split h2 v1 by simp
    qed
  qed
qed

definition floor_cache_ok :: "vault_env \<Rightarrow> move_plan \<Rightarrow> eviction \<Rightarrow> bool" where
  "floor_cache_ok e mp v \<longleftrightarrow>
     (\<forall>i st fr. ev_same_floor v i = Some True \<longrightarrow> storage_of e i = Some st \<longrightarrow> mp_floor mp = Some fr \<longrightarrow>
        same_disk e (st_path st) fr)"

lemma on_floor_fs_ok:
  assumes "floor_cache_ok e mp v" and "storage_of e i = Some src" and "on_floor_fs e mp src v w = (b, v', w')"
  shows "handles e m listed keep seg (ev_ctx v, w) (ev_ctx v', w')" and "floor_cache_ok e mp v'"
    and "disk w' = disk w" and "index w' = index w"
    and "b \<Longrightarrow> \<exists>fr. mp_floor mp = Some fr \<and> 0 < ev_deficit v \<and> same_disk e (st_path src) fr"
    and "ev_deficit v' = ev_deficit v"
proof -
  have id: "st_id src = i" using storage_of_mem [OF assms(2)] by simp
  have fr: "disk w' = disk w" "index w' = index w" "tripped w' = tripped w" "ev_ctx v' = ev_ctx v"
    "ev_deficit v' = ev_deficit v"
    using assms(3) same_filesystem_frame
    by (auto simp: on_floor_fs_def on_fs_cached_def case_prod_beta Let_def split: option.splits if_splits)
  then show "disk w' = disk w" "index w' = index w" "ev_deficit v' = ev_deficit v" by simp_all
  show "handles e m listed keep seg (ev_ctx v, w) (ev_ctx v', w')" by (rule handles_quiet) (simp_all add: fr)
  show "floor_cache_ok e mp v'" "b \<Longrightarrow> \<exists>fr. mp_floor mp = Some fr \<and> 0 < ev_deficit v \<and> same_disk e (st_path src) fr"
    using assms id same_filesystem_sound
    by (auto simp: on_floor_fs_def on_fs_cached_def floor_cache_ok_def
        split: option.splits if_splits prod.splits)
qed

lemma wants_rescue_ok:
  assumes "wants_rescue e mp src on_floor v w = (b, v', w')"
  shows "handles e m listed keep seg (ev_ctx v, w) (ev_ctx v', w')" and "ev_same_floor v' = ev_same_floor v"
    and "disk w' = disk w" and "index w' = index w" and "b \<Longrightarrow> on_floor"
proof -
  have fr: "disk w' = disk w" "index w' = index w" "tripped w' = tripped w" "ev_ctx v' = ev_ctx v"
    "ev_same_floor v' = ev_same_floor v" "b \<Longrightarrow> on_floor"
    using assms same_filesystem_frame
    by (auto simp: wants_rescue_def on_fs_cached_def case_prod_beta Let_def split: option.splits if_splits)
  then show "ev_same_floor v' = ev_same_floor v" "disk w' = disk w" "index w' = index w" "b \<Longrightarrow> on_floor"
    by simp_all
  show "handles e m listed keep seg (ev_ctx v, w) (ev_ctx v', w')" by (rule handles_quiet) (simp_all add: fr)
qed

text \<open>One candidate of the moving loop.\<close>

definition rescuable :: "vault_env \<Rightarrow> move_plan \<Rightarrow> segment \<Rightarrow> bool" where
  "rescuable e mp s \<longleftrightarrow>
     (\<exists>st fr. storage_of e (sg_storage s) = Some st \<and> mp_floor mp = Some fr \<and> same_disk e (st_path st) fr)"

lemma evict_one_handles:
  assumes "sound e (ev_ctx v, w)" and "floor_cache_ok e mp v" and "\<forall>n. \<not> ve_stat_fails e n"
    and "seg \<in> set (index w)" and "seg \<in> listed" and "storage_of e aid = Some (mp_archive mp)"
    and keep: "rescuable e mp seg \<Longrightarrow> 0 < ev_deficit v \<Longrightarrow> sg_id seg \<notin> keep"
    and one: "evict_one e mp seg v w = (go, v', w')"
  shows "handles e True listed keep seg (ev_ctx v, w) (ev_ctx v', w') \<and> floor_cache_ok e mp v'"
proof -
  obtain y c1 w1 where r: "resolve_storage e (sg_storage seg) (ev_ctx v) w = (y, c1, w1)" by (metis prod_cases3)
  note h1 = resolve_handles [OF r, of True listed keep seg]
  have w1: "disk w1 = disk w" "index w1 = index w"
    using resolve_storage_frame [of e "sg_storage seg" "ev_ctx v" w] r by simp_all
  show ?thesis
  proof (cases y)
    case (Inl er)
    then show ?thesis using one r h1 assms(2) by (auto simp: evict_one_def floor_cache_ok_def)
  next
    case (Inr src)
    have src: "storage_of e (sg_storage seg) = Some src"
      using resolve_storage_ok(2) [of e "ev_ctx v" "sg_storage seg" w src c1 w1] assms(1) r Inr
      by (simp add: sound_def)
    have ast: "mp_archive mp \<in> set (ve_storages e)" "st_id (mp_archive mp) = aid"
      using storage_of_mem [OF assms(6)] by simp_all
    define v1 where "v1 = v\<lparr>ev_ctx := c1\<rparr>"
    have v1: "ev_ctx v1 = c1" "ev_deficit v1 = ev_deficit v" "floor_cache_ok e mp v1"
      using assms(2) by (simp_all add: v1_def floor_cache_ok_def)
    obtain on_floor v2 w2 where f: "on_floor_fs e mp src v1 w1 = (on_floor, v2, w2)" by (metis prod_cases3)
    note of_ok = on_floor_fs_ok [OF v1(3) src f]
    obtain rescue v3 w3 where wr: "wants_rescue e mp src on_floor v2 w2 = (rescue, v3, w3)" by (metis prod_cases3)
    note wr_ok = wants_rescue_ok [OF wr]
    have h3: "handles e True listed keep seg (ev_ctx v, w) (ev_ctx v3, w3)"
      using handles_trans [OF handles_trans [OF h1]] of_ok(1) wr_ok(1) v1(1) by metis
    have w3: "disk w3 = disk w" "index w3 = index w" using w1 of_ok wr_ok by simp_all
    have c3: "floor_cache_ok e mp v3" using of_ok(2) wr_ok(2) by (simp add: floor_cache_ok_def)
    have go_keep: "sg_id seg \<notin> keep" if "on_floor"
      using keep of_ok(5) [OF that] src v1(2) by (auto simp: rescuable_def)
    have t: "fits e (index w3) seg"
      using tidy_fits [of e "index w" seg] assms(1,4) w3 by (simp add: sound_def)
    have body: "(if rescue then let (v4, w4) = floor_rescue_delete e (mp_policy mp) seg v3 w3 in (True, v4, w4)
        else if ev_blocked v3 then (0 < ev_deficit v, v3, w3)
        else case move_segment_to_archive e seg (st_path src) (st_path (mp_archive mp)) aid w3 of
               (Inl _, w4) \<Rightarrow> move_failed e mp src seg (0 < ev_deficit v) on_floor v3 w4
             | (Inr _, w4) \<Rightarrow> (True, move_succeeded e mp src seg on_floor v3 w4)) = (go, v', w')"
      using one r Inr f wr ast(2) by (simp add: evict_one_def v1_def [symmetric] Let_def split: if_splits)
    have "handles e True listed keep seg (ev_ctx v3, w3) (ev_ctx v', w') \<and> ev_same_floor v' = ev_same_floor v3"
    proof (cases "rescue \<or> ev_blocked v3")
      case True
      then consider "rescue" | "\<not> rescue" "v' = v3" "w' = w3" using body by (cases rescue) auto
      then show ?thesis
      proof cases
        case 1
        then have "floor_rescue_delete e (mp_policy mp) seg v3 w3 = (v', w')"
          using body by (simp add: case_prod_beta prod_eq_iff)
        from floor_rescue_handles [OF assms(5) go_keep [OF wr_ok(5) [OF 1]] t this] show ?thesis by blast
      next
        case 2
        then show ?thesis by (simp add: handles_quiet)
      qed
    next
      case False
      obtain x w4 where mv: "move_segment_to_archive e seg (st_path src) (st_path (mp_archive mp)) aid w3 = (x, w4)"
        by force
      have i3: "seg \<in> set (index w3)" using assms(4) w3 by simp
      have hm: "handles e True listed keep seg (ev_ctx v3, w3) (ev_ctx v3, w4)"
        by (rule move_handles [OF i3 src assms(6) mv])
      show ?thesis
      proof (cases x)
        case (Inr u)
        then have "move_succeeded e mp src seg on_floor v3 w4 = (v', w')" using body mv False by simp
        from move_succeeded_handles [OF ast(1) this] show ?thesis using handles_trans [OF hm] by blast
      next
        case (Inl er)
        then have mf: "move_failed e mp src seg (0 < ev_deficit v) on_floor v3 w4 = (go, v', w')"
          using body mv False by simp
        have idx: "index w4 = index w3 \<or> (\<exists>rel. archive_relative_path e (sg_camera seg) (sg_start seg) (sg_path seg) = Some rel \<and>
            index w4 = flip_row (sg_id seg) aid rel (index w3))"
          using move_index [of e seg "st_path src" "st_path (mp_archive mp)" aid w3] mv by simp
        have ft: "fits e (index w4) seg"
          using idx t fits_flip [OF _ i3 assms(6) _ t] assms(1) w3 by (auto simp: sound_def tidy_def)
        have gone: "seg \<in> set (index w4)" if "disk w4 (ve_canon e (st_path src @ sg_path seg)) = None"
        proof (cases "disk w3 (ve_canon e (st_path src @ sg_path seg))")
          case None
          then show ?thesis using move_missing_index [OF None mv] i3 by simp
        next
          case (Some b)
          then show ?thesis using move_error_keeps_source [OF mv [unfolded Inl] assms(3) Some] that by simp
        qed
        from move_failed_handles [OF assms(5) ft go_keep gone src mf] show ?thesis
          using handles_trans [OF hm] by blast
      qed
    qed
    then show ?thesis using handles_trans [OF h3] c3 by (auto simp: floor_cache_ok_def)
  qed
qed

lemma sound_after: "disposes e True listed keep x y \<Longrightarrow> sound e x \<Longrightarrow> \<forall>n. \<not> ve_stat_fails e n \<Longrightarrow> sound e y"
  using disposes_good [of e True listed keep x y] by (simp add: good_step_def)

lemma evict_one_no_deficit:
  assumes "\<not> 0 < ev_deficit v" and "evict_one e mp seg v w = (go, v', w')"
  shows "ev_deficit v' = ev_deficit v"
proof -
  have "on_floor_fs e mp src (v\<lparr>ev_ctx := c\<rparr>) x = (False, v\<lparr>ev_ctx := c\<rparr>, x)" for src c x
    using assms(1) by (simp add: on_floor_fs_def split: option.split)
  moreover have "ev_deficit (fst (snd (prune_gone e src seg u x))) = ev_deficit u" for src u x
    by (simp add: prune_gone_def case_prod_beta split: bool.split sum.split)
  then have "ev_deficit (fst (snd (move_failed e mp src seg below False u x))) = ev_deficit u" for src below u x
    by (simp add: move_failed_def case_prod_beta Let_def)
  moreover have "ev_deficit v'' = ev_deficit u"
    if "move_failed e mp src seg below False u x = (g, v'', y)" for src below u x g v'' y
    using calculation(2) [of src below u x] that by simp
  ultimately show ?thesis
    using assms
    by (auto simp: evict_one_def wants_rescue_def move_succeeded_def Let_def
        split: sum.splits prod.splits if_splits)
qed

lemma move_loop_disposes:
  assumes "\<forall>n. \<not> ve_stat_fails e n" and "storage_of e aid = Some (mp_archive mp)"
  shows "sound e (ev_ctx v, w) \<Longrightarrow> floor_cache_ok e mp v \<Longrightarrow> (0 < ev_deficit v \<Longrightarrow> low) \<Longrightarrow>
    distinct (map sg_id segs) \<Longrightarrow> set segs \<subseteq> listed \<Longrightarrow> set segs \<subseteq> set (index w) \<Longrightarrow>
    (\<And>s. s \<in> set segs \<Longrightarrow> rescuable e mp s \<Longrightarrow> low \<Longrightarrow> sg_id s \<notin> keep) \<Longrightarrow>
    move_loop e mp segs v w = (v', w') \<Longrightarrow> disposes e True listed keep (ev_ctx v, w) (ev_ctx v', w')"
proof (induction segs arbitrary: v w)
  case Nil
  then show ?case by simp
next
  case (Cons seg segs)
  obtain go v1 w1 where one: "evict_one e mp seg v w = (go, v1, w1)" by (metis prod_cases3)
  have seg: "seg \<in> set (index w)" "seg \<in> listed" using Cons.prems(5,6) by simp_all
  have k: "rescuable e mp seg \<Longrightarrow> 0 < ev_deficit v \<Longrightarrow> sg_id seg \<notin> keep" using Cons.prems(3,7) by simp
  note h = evict_one_handles [OF Cons.prems(1,2) assms(1) seg assms(2) k one]
  have d: "disposes e True listed keep (ev_ctx v, w) (ev_ctx v1, w1)" using h by (simp add: handles_def)
  have "set segs \<subseteq> set (index w1)"
    using h Cons.prems(4,6) by (fastforce simp: handles_def others_stay_def image_iff)
  moreover have "0 < ev_deficit v1 \<Longrightarrow> low" using evict_one_no_deficit [OF _ one] Cons.prems(3) by fastforce
  ultimately have rest: "move_loop e mp segs v1 w1 = (v', w') \<Longrightarrow>
      disposes e True listed keep (ev_ctx v1, w1) (ev_ctx v', w')"
    using Cons.IH [OF sound_after [OF d Cons.prems(1) assms(1)]] h Cons.prems(4,5,7) by simp
  consider "v' = v" "w' = w" | "v' = v1" "w' = w1" | "move_loop e mp segs v1 w1 = (v', w')"
    using Cons.prems(8) one
    by (cases go; cases "\<not> over (ev_used v) (mp_target mp) \<and> \<not> 0 < ev_deficit v") simp_all
  then show ?case
  proof cases
    case 3
    from rtranclp_trans [OF d rest [OF this]] show ?thesis .
  qed (use d in simp_all)
qed

subsection \<open>The deleting loops\<close>

lemma fold_delete_step:
  assumes "sound e (c, w)" and "seg \<in> listed" and "sg_id seg \<notin> keep" and "fits e (index w) seg"
    and "delete_segment_file_then_row e seg c w = (r, c1, w1)"
    and "disk w2 = disk w1" "index w2 = index w1" "tripped w2 = tripped w1"
    and next_: "sound e (c1, w2) \<Longrightarrow> (\<And>t. fits e (index w) t \<Longrightarrow> fits e (index w2) t) \<Longrightarrow>
      disposes e m listed keep (c1, w2) y"
  shows "disposes e m listed keep (c, w) y"
proof -
  note dt = delete_then [OF assms(1-8)]
  show ?thesis by (rule rtranclp_trans [OF dt(1) next_ [OF dt(2) dt(3)]])
qed

lemma floor_loop_disposes:
  "sound e (ev_ctx v, w) \<Longrightarrow> (0 < ev_deficit v \<Longrightarrow> \<forall>seg \<in> set segs. seg \<in> listed \<and> sg_id seg \<notin> keep \<and> fits e (index w) seg) \<Longrightarrow>
     disposes e False listed keep (ev_ctx v, w) (ev_ctx (fst (floor_loop e p segs v w)), snd (floor_loop e p segs v w))"
proof (induction segs arbitrary: v w)
  case Nil
  then show ?case by simp
next
  case (Cons seg segs)
  show ?case
  proof (cases "ev_deficit v \<le> 0")
    case False
    obtain v1 w1 where f: "floor_rescue_delete e p seg v w = (v1, w1)" by force
    have seg: "seg \<in> listed" "sg_id seg \<notin> keep" "fits e (index w) seg" using Cons.prems(2) False by auto
    have d: "disposes e False listed keep (ev_ctx v, w) (ev_ctx v1, w1)"
      using floor_rescue_handles(1) [OF seg f] by (simp add: handles_def)
    have g: "good_step e False keep (ev_ctx v, w) (ev_ctx v1, w1)"
      by (rule disposes_good [OF d Cons.prems(1)]) simp
    have "disposes e False listed keep (ev_ctx v1, w1)
        (ev_ctx (fst (floor_loop e p segs v1 w1)), snd (floor_loop e p segs v1 w1))"
      by (rule Cons.IH) (use g Cons.prems(2) False in \<open>auto simp: good_step_def\<close>)
    then show ?thesis using rtranclp_trans [OF d] False f by simp
  qed simp
qed

lemma cap_loop_disposes:
  "sound e (c, w) \<Longrightarrow>
     (\<And>seg. seg \<in> set segs \<Longrightarrow> sg_start seg < ve_now e - seconds cap_eviction_min_age_secs \<Longrightarrow>
        seg \<in> listed \<and> sg_id seg \<notin> keep \<and> fits e (index w) seg) \<Longrightarrow>
     disposes e False listed keep (c, w) (snd (cap_loop e h t segs used c w))"
proof (induction segs arbitrary: used c w)
  case Nil
  then show ?case by simp
next
  case (Cons seg segs)
  obtain r c1 w1 where d: "delete_segment_file_then_row e seg c w = (r, c1, w1)" by (metis prod_cases3)
  show ?case
  proof (cases "used \<le> t \<or> ve_now e - seconds cap_eviction_min_age_secs \<le> sg_start seg")
    case False
    then have seg: "seg \<in> listed" "sg_id seg \<notin> keep" "fits e (index w) seg" using Cons.prems(2) [of seg] by auto
    have next_: "disposes e False listed keep (c, w) (snd (cap_loop e h t segs k c1 w2))"
      if "disk w2 = disk w1" "index w2 = index w1" "tripped w2 = tripped w1" for w2 k
      by (rule fold_delete_step [OF Cons.prems(1) seg d that], rule Cons.IH) (use Cons.prems(2) in auto)
    show ?thesis
      using next_ [of w1] next_ [of "emit_premature_rollover_if_early e seg (the h) w1"] d False
      by (auto split: sum.split delete_outcome.split option.split)
  qed simp
qed

subsection \<open>What an eviction may delete\<close>

definition configured_floor :: "vault_env \<Rightarrow> recording_policy \<Rightarrow> storage_row option" where
  "configured_floor e p =
     (case pol_live_storage_id p of Some sid \<Rightarrow> storage_of e sid | None \<Rightarrow> ve_config_live e)"

definition low_disk :: "vault_env \<Rightarrow> recording_policy \<Rightarrow> bool" where
  "low_disk e p \<longleftrightarrow> 0 < floor_deficit e p (configured_floor e p)"

definition on_low_disk :: "vault_env \<Rightarrow> recording_policy \<Rightarrow> segment \<Rightarrow> bool" where
  "on_low_disk e p s \<longleftrightarrow> low_disk e p \<and>
     (\<exists>fs st. configured_floor e p = Some fs \<and> storage_of e (sg_storage s) = Some st \<and>
        same_disk e (st_path st) (st_path fs))"

definition capped :: "recording_policy \<Rightarrow> bool" where
  "capped p \<longleftrightarrow> (if pol_archive_enabled p then \<exists>c. pol_archive_max_bytes p = Some c \<and> 0 < c
                 else live_cap p \<noteq> None)"

definition evictable :: "vault_env \<Rightarrow> recording_policy \<Rightarrow> segment \<Rightarrow> bool" where
  "evictable e p s \<longleftrightarrow> under_policy e (pol_id p) s \<and> \<not> protected e s \<and>
     ((on_low_disk e p s \<and> (pol_archive_enabled p \<longrightarrow> sg_stage s = LiveStage)) \<or>
      (capped p \<and> sg_start s < ve_now e - seconds cap_eviction_min_age_secs))"

lemma floor_storage_ok:
  assumes "floor_storage e p w = (fs, w')"
  shows "disk w' = disk w" "index w' = index w" "tripped w' = tripped w" "fs = None \<or> fs = configured_floor e p"
  using assms
  by (auto simp: floor_storage_def configured_floor_def get_storage_def draw_def split: option.splits if_splits)

lemma bytes_split_frame:
  assumes "policy_bytes_split e pid stages w = (r, w')"
  shows "disk w' = disk w" "index w' = index w" "tripped w' = tripped w"
  using assms by (auto simp: policy_bytes_split_def Let_def draw_def)

lemma destination_frame:
  assumes "destination_confirmed e st w = (r, w')"
  shows "disk w' = disk w" "index w' = index w" "tripped w' = tripped w"
  using assms marker_present_frame [of e "st_path st" w]
  by (auto simp: destination_confirmed_def storage_path_has_history_def draw_def case_prod_beta Let_def
      split: if_splits prod.splits)

lemma resolve_dirs_ok:
  assumes "resolve_archive_dirs_for_policy e p w = (r, w')"
  shows "disk w' = disk w" "index w' = index w" "tripped w' = tripped w"
    and "r = Inr (live, archive) \<Longrightarrow> \<exists>aid. storage_of e aid = Some archive"
  using assms
  by (auto simp: resolve_archive_dirs_for_policy_def get_storage_def draw_def split: option.splits if_splits)

lemma listed_ok:
  assumes "tidy e (index w)" and q: "query e n P w = (Inr segs, w1)"
  shows "set segs \<subseteq> {s \<in> set (index w). P s}" "distinct (map sg_id segs)"
    "disk w1 = disk w" "index w1 = index w" "tripped w1 = tripped w"
    "\<forall>seg \<in> set segs. fits e (index w1) seg"
proof -
  note q1 = query_ok [OF q]
  show "set segs \<subseteq> {s \<in> set (index w). P s}" using oldest_first_subset q1(1) by simp
  then show "\<forall>seg \<in> set segs. fits e (index w1) seg" using tidy_fits [OF assms(1)] q1(3) by auto
  show "distinct (map sg_id segs)"
    using q1(1) oldest_first_distinct [of sg_id "index w" n P] assms(1) by (simp add: tidy_def)
qed (rule query_ok [OF q])+

definition evicts :: "vault_env \<Rightarrow> bool \<Rightarrow> recording_policy \<Rightarrow> vault \<Rightarrow> vault \<Rightarrow> bool" where
  "evicts e moving p w w' \<longleftrightarrow>
     (\<exists>c. disposes e moving (set (index w)) (kept_ids (evictable e p) w) (ctx_new, w) (c, w'))"

lemma evicts_quiet: "disk w' = disk w \<Longrightarrow> index w' = index w \<Longrightarrow> tripped w' = tripped w \<Longrightarrow> evicts e m p w w'"
  unfolding evicts_def by (rule exI [of _ ctx_new], rule disposes_quiet) simp_all

lemma evicts_after:
  assumes "disk w1 = disk w" "index w1 = index w" "tripped w1 = tripped w" and "evicts e m p w1 w'"
  shows "evicts e m p w w'"
proof -
  obtain c where "disposes e m (set (index w)) (kept_ids (evictable e p) w) (ctx_new, w1) (c, w')"
    using assms by (auto simp: evicts_def kept_ids_def)
  from rtranclp_trans [OF disposes_quiet this] show ?thesis using assms(1-3) by (auto simp: evicts_def)
qed

lemma storage_of_unique:
  "distinct (map st_id (ve_storages e)) \<Longrightarrow> s \<in> set (ve_storages e) \<Longrightarrow> storage_of e (st_id s) = Some s"
  by (cases "storage_of e (st_id s)")
    (auto simp: storage_of_def find_None_iff find_Some_iff distinct_map inj_on_def)

lemma may_evict: "tidy e (index w) \<Longrightarrow> s \<in> set (index w) \<Longrightarrow> evictable e p s \<Longrightarrow> sg_id s \<notin> kept_ids (evictable e p) w"
  by (simp add: kept_ids_iff)

definition evicting :: "vault_env \<Rightarrow> recording_policy \<Rightarrow> vault \<Rightarrow> sweep_ctx \<times> vault \<Rightarrow> sweep_ctx \<times> vault \<Rightarrow> bool" where
  "evicting e p w = disposes e False (set (index w)) (kept_ids (evictable e p) w)"

lemma evicting_quiet:
  "disk w2 = disk w1 \<Longrightarrow> index w2 = index w1 \<Longrightarrow> tripped w2 = tripped w1 \<Longrightarrow> evicting e p w (c, w1) (c, w2)"
  unfolding evicting_def by (rule disposes_quiet) simp_all

lemma evicting_trans: "evicting e p w x y \<Longrightarrow> evicting e p w y z \<Longrightarrow> evicting e p w x z"
  unfolding evicting_def by (rule rtranclp_trans)

lemma evicting_sound:
  assumes "evicting e p w x y" and "sound e x"
  shows "sound e y" "fits e (index (snd x)) t \<Longrightarrow> fits e (index (snd y)) t"
  using disposes_good [of e False "set (index w)" "kept_ids (evictable e p) w" x y] assms
  by (simp_all add: evicting_def good_step_def)

lemma cap_pass_evicts:
  assumes "tidy e (index w)" and "query e n (\<lambda>s. under_policy e (pol_id p) s \<and> P s \<and> \<not> protected e s) w1 = (Inr segs, w2)"
    and "capped p" and "sound e (c, w1)" and "set (index w1) \<subseteq> set (index w)"
  shows "evicting e p w (c, w1) (snd (cap_loop e h t segs used c w2))"
proof (rule evicting_trans [OF evicting_quiet])
  note q = listed_ok [OF _ assms(2)]
  have t1: "tidy e (index w1)" using assms(4) by (simp add: sound_def)
  show "disk w2 = disk w1" "index w2 = index w1" "tripped w2 = tripped w1" using q(3-5) [OF t1] by simp_all
  then have "sound e (c, w2)" using assms(4) by (simp add: sound_def)
  then show "evicting e p w (c, w2) (snd (cap_loop e h t segs used c w2))"
    unfolding evicting_def
  proof (rule cap_loop_disposes)
    fix seg assume seg: "seg \<in> set segs" "sg_start seg < ve_now e - seconds cap_eviction_min_age_secs"
    then have s: "seg \<in> set (index w)" "evictable e p seg" using q(1) [OF t1] assms(3,5) by (auto simp: evictable_def)
    show "seg \<in> set (index w) \<and> sg_id seg \<notin> kept_ids (evictable e p) w \<and> fits e (index w2) seg"
      using s may_evict [OF assms(1) s] q(6) [OF t1] seg(1) by simp
  qed
qed

lemma evicting_shrinks:
  assumes "evicting e p w x y"
  shows "set (index (snd y)) \<subseteq> set (index (snd x))"
  using assms unfolding evicting_def
proof (induction rule: rtranclp_induct)
  case base
  then show ?case by simp
next
  case (step y z)
  from step.hyps(2) have "set (index (snd z)) \<subseteq> set (index (snd y))"
  proof (cases rule: disposal_step.cases)
    case (delete seg w c r c' w')
    then show ?thesis using delete_index [of e seg c w] by auto
  next
    case (refuse b c w c1 w1)
    then show ?thesis using may_prune_frame(2) [of e b c w] by simp
  qed simp_all
  then show ?case using step.IH by simp
qed

lemma floor_pass_evicts:
  assumes "tidy e (index w)" and "distinct (map st_id (ve_storages e))" and "sound e (ev_ctx v, w)"
    and fs: "fs = None \<or> fs = configured_floor e p" "0 < ev_deficit v \<Longrightarrow> low_disk e p" "\<not> pol_archive_enabled p"
    and run: "floor_pass e p (map_option st_path fs) v w = (r, w')"
  shows "evicting e p w (ev_ctx v, w) (case r of Inl _ \<Rightarrow> ev_ctx v | Inr v' \<Rightarrow> ev_ctx v', w')"
proof (cases "fs = None \<or> ev_deficit v \<le> 0")
  case True
  then have "r = Inr v \<and> w' = w" using run by (cases fs) (auto simp: floor_pass_def)
  then show ?thesis by (simp add: evicting_def)
next
  case False
  then obtain f where "fs = Some f" by auto
  then have f: "fs = Some f" "configured_floor e p = Some f" "low_disk e p" using fs False by auto
  obtain x w1 where ids: "storage_ids_on_filesystem e (st_path f) w = (x, w1)" by force
  have w1: "disk w1 = disk w" "index w1 = index w" "tripped w1 = tripped w"
    using storage_ids_frame [of e "st_path f" w] ids by simp_all
  have e1: "evicting e p w (ev_ctx v, w) (ev_ctx v, w1)" by (rule evicting_quiet) (simp_all add: w1)
  let ?P = "\<lambda>ids s. sg_stage s \<in> set [LiveStage, ArchiveStage] \<and> under_policy e (pol_id p) s \<and>
       sg_storage s \<in> set ids \<and> \<not> protected e s"
  obtain y w2 where q: "query e eviction_batch_limit (?P (projr x)) w1 = (y, w2)" by force
  have go: "evicting e p w (ev_ctx v, w1) (ev_ctx (fst (floor_loop e p segs v w2)), snd (floor_loop e p segs v w2))"
    if i: "x = Inr ids" "y = Inr segs" for ids segs
  proof -
    have t1: "tidy e (index w1)" using assms(1) w1 by simp
    note l = listed_ok [OF t1 q [unfolded i]]
    have mem: "set ids \<subseteq> {i. \<exists>st. storage_of e i = Some st \<and> same_disk e (st_path st) (st_path f)}"
    proof
      fix i assume "i \<in> set ids"
      then have "\<exists>s \<in> set (ve_storages e). st_id s = i \<and> same_disk e (st_path s) (st_path f)"
        using ids_on_filesystem_sound [of i e "st_path f" "ve_storages e"] ids \<open>x = Inr ids\<close>
        by (auto simp: storage_ids_on_filesystem_def case_prod_beta Let_def split: if_splits)
      then show "i \<in> {i. \<exists>st. storage_of e i = Some st \<and> same_disk e (st_path st) (st_path f)}"
        using storage_of_unique [OF assms(2)] by auto
    qed
    have ok: "seg \<in> set (index w) \<and> sg_id seg \<notin> kept_ids (evictable e p) w" if "seg \<in> set segs" for seg
    proof -
      have s: "seg \<in> set (index w)" "under_policy e (pol_id p) seg" "\<not> protected e seg" "sg_storage seg \<in> set ids"
        using l(1) that w1 i(1) by auto
      then have "evictable e p seg" using mem f fs(3) by (auto simp: evictable_def on_low_disk_def)
      then show ?thesis using may_evict [OF assms(1) s(1)] s(1) by simp
    qed
    have "evicting e p w (ev_ctx v, w1) (ev_ctx v, w2)" by (rule evicting_quiet) (use l in simp_all)
    moreover have "evicting e p w (ev_ctx v, w2) (ev_ctx (fst (floor_loop e p segs v w2)), snd (floor_loop e p segs v w2))"
      unfolding evicting_def
      by (rule floor_loop_disposes) (use assms(3) l(4,6) w1 ok in \<open>simp_all add: sound_def\<close>)
    ultimately show ?thesis by (rule evicting_trans)
  qed
  have quiet2: "evicting e p w (ev_ctx v, w1) (ev_ctx v, w2)" if "y = Inl er" for er
    by (rule evicting_quiet) (use query_error [OF q [unfolded that]] in simp_all)
  have "(\<exists>er. x = Inl er \<and> r = Inl er \<and> w' = w1) \<or> (x = Inr [] \<and> r = Inr v \<and> w' = w1) \<or>
      (\<exists>ids er. x = Inr ids \<and> y = Inl er \<and> r = Inl er \<and> w' = w2) \<or>
      (\<exists>ids segs. x = Inr ids \<and> y = Inr segs \<and> r = Inr (fst (floor_loop e p segs v w2)) \<and>
         w' = snd (floor_loop e p segs v w2))"
    using run f(1) False ids q
    by (auto simp: floor_pass_def list_policy_segments_on_storages_oldest_first_def case_prod_beta
        split: sum.splits if_splits)
  then show ?thesis using e1 evicting_trans [OF e1 go] evicting_trans [OF e1 quiet2] by auto
qed

lemma moving_pass_evicts:
  assumes "tidy e (index w)" and "\<forall>n. \<not> ve_stat_fails e n" and "pol_archive_enabled p"
    and fs: "fs = None \<or> fs = configured_floor e p" "0 < deficit \<Longrightarrow> low_disk e p"
    and mp: "mp_policy mp = p" "storage_of e aid = Some (mp_archive mp)" "mp_floor mp = map_option st_path fs"
  shows "evicts e True p w (snd (evict_by_moving e mp used deficit w))"
proof -
  obtain x w1 where dc: "destination_confirmed e (mp_archive mp) w = (x, w1)" by force
  note w1 = destination_frame [OF dc]
  define w2 where "w2 = (if projr x then w1 else raise_storage_event e w1)"
  have w2: "disk w2 = disk w" "index w2 = index w" "tripped w2 = tripped w" using w1 by (simp_all add: w2_def)
  let ?P = "\<lambda>s. sg_stage s = LiveStage \<and> under_policy e (pol_id p) s \<and> \<not> protected e s"
  obtain y w3 where q: "query e eviction_batch_limit ?P w2 = (y, w3)" by force
  have run: "evicts e True p w2 (snd (move_loop e mp segs (eviction_new used deficit b) w3))" if y: "y = Inr segs" for segs b
  proof -
    obtain v' w' where ml: "move_loop e mp segs (eviction_new used deficit b) w3 = (v', w')" by force
    have t2: "tidy e (index w2)" using assms(1) w2 by simp
    note l = listed_ok [OF t2 q [unfolded y]]
    have "disposes e True (set (index w2)) (kept_ids (evictable e p) w2) (ctx_new, w3) (ev_ctx v', w')"
    proof (rule move_loop_disposes [OF assms(2) mp(2), of "eviction_new used deficit b" w3 "low_disk e p", simplified eviction_new_def eviction.simps])
      show "sound e (ctx_new, w3)" using t2 l(4) sound_start [of e w3] by simp
      show "move_loop e mp segs \<lparr>ev_ctx = ctx_new, ev_used = used, ev_deficit = deficit, ev_blocked = b,
          ev_ensured = False, ev_alerted = False, ev_same_archive = (\<lambda>_. None), ev_same_floor = (\<lambda>_. None)\<rparr> w3 = (v', w')"
        using ml by (simp add: eviction_new_def)
      fix s assume s: "s \<in> set segs" "rescuable e mp s" "low_disk e p"
      then have i: "s \<in> set (index w2)" "?P s" using l(1) by auto
      have "evictable e p s"
        using s(2,3) i(2) fs(1) mp(3) by (auto simp: evictable_def on_low_disk_def rescuable_def)
      then show "sg_id s \<notin> kept_ids (evictable e p) w2" by (rule may_evict [OF t2 i(1)])
    qed (use l fs(2) in \<open>auto simp: floor_cache_ok_def\<close>)
    from rtranclp_trans [OF disposes_quiet [OF l(3,4)] this] show ?thesis
      using ml l(5) by (auto simp: evicts_def)
  qed
  have "snd (evict_by_moving e mp used deficit w) = w1 \<or> (\<exists>er. y = Inl er \<and> snd (evict_by_moving e mp used deficit w) = w3) \<or>
      (\<exists>segs b. y = Inr segs \<and>
         snd (evict_by_moving e mp used deficit w) = snd (move_loop e mp segs (eviction_new used deficit b) w3))"
    using dc q mp(1) by (auto simp: evict_by_moving_def list_policy_segments_oldest_first_def w2_def Let_def split: sum.splits)
  then show ?thesis
  proof (elim disjE exE conjE)
    assume "snd (evict_by_moving e mp used deficit w) = w1"
    then show ?thesis using evicts_quiet w1 by simp
  next
    fix er assume "y = Inl er" "snd (evict_by_moving e mp used deficit w) = w3"
    then show ?thesis using evicts_quiet [of w3 w] query_error [of e _ ?P w2 er w3] q w2 by simp
  next
    fix segs b assume "y = Inr segs" "snd (evict_by_moving e mp used deficit w) =
        snd (move_loop e mp segs (eviction_new used deficit b) w3)"
    then show ?thesis using evicts_after [OF w2 run] by simp
  qed
qed

lemma deleting_pass_evicts:
  assumes "tidy e (index w)" and "distinct (map st_id (ve_storages e))" and "\<not> pol_archive_enabled p"
    and fs: "fs = None \<or> fs = configured_floor e p" "0 < deficit \<Longrightarrow> low_disk e p"
    and target: "target \<noteq> None \<Longrightarrow> capped p"
  shows "evicts e False p w (snd (evict_by_deleting e p (map_option st_path fs) target used deficit w))"
proof -
  let ?v = "eviction_new used deficit False"
  have v: "ev_ctx ?v = ctx_new" "ev_deficit ?v = deficit" by (simp_all add: eviction_new_def)
  obtain r w1 where f: "floor_pass e p (map_option st_path fs) ?v w = (r, w1)" by force
  have s0: "sound e (ev_ctx ?v, w)" using assms(1) v(1) sound_start by simp
  note e1 = floor_pass_evicts [OF assms(1,2) s0 fs(1) _ assms(3) f]
  have low: "0 < ev_deficit ?v \<Longrightarrow> low_disk e p" using fs(2) v(2) by simp
  show ?thesis
  proof (cases r)
    case (Inl er)
    then show ?thesis using e1 [OF low] f v by (auto simp: evict_by_deleting_def evicts_def evicting_def)
  next
    case (Inr v1)
    have e1: "evicting e p w (ctx_new, w) (ev_ctx v1, w1)" using e1 [OF low] Inr v by simp
    have s1: "sound e (ev_ctx v1, w1)" using evicting_sound(1) [OF e1] s0 v by simp
    have sub: "set (index w1) \<subseteq> set (index w)" using evicting_shrinks [OF e1] by simp
    let ?P = "\<lambda>s. under_policy e (pol_id p) s \<and> True \<and> \<not> protected e s"
    obtain y w2 where q: "query e eviction_batch_limit ?P w1 = (y, w2)" by force
    have "\<exists>c. evicting e p w (ev_ctx v1, w1) (c, snd (live_cap_pass e p target v1 w1))"
    proof (cases "keep_if (\<lambda>t. t < ev_used v1) target")
      case None
      then show ?thesis by (auto simp: live_cap_pass_def evicting_def)
    next
      case (Some t)
      then have cp: "capped p" using target by (auto simp: keep_if_Some)
      show ?thesis
      proof (cases y)
        case (Inl er)
        have "evicting e p w (ev_ctx v1, w1) (ev_ctx v1, w2)"
          by (rule evicting_quiet) (use query_error [OF q [unfolded Inl]] in simp_all)
        then show ?thesis using Some q Inl
          by (auto simp: live_cap_pass_def list_policy_segments_oldest_first_any_stage_def)
      next
        case (Inr segs)
        from cap_pass_evicts [OF assms(1) q [unfolded Inr] cp s1 sub] show ?thesis using Some q Inr
          by (simp add: live_cap_pass_def list_policy_segments_oldest_first_any_stage_def) (metis prod.collapse)
      qed
    qed
    then obtain c where "evicting e p w (ev_ctx v1, w1) (c, snd (live_cap_pass e p target v1 w1))" by blast
    from evicting_trans [OF e1 this] show ?thesis
      using f Inr by (auto simp: evict_by_deleting_def evicts_def evicting_def)
  qed
qed

lemma live_cap_capped: "\<not> pol_archive_enabled p \<Longrightarrow> live_cap p \<noteq> None \<Longrightarrow> capped p"
  by (simp add: capped_def)

lemma padded_positive: "0 < padded_deficit spill d \<Longrightarrow> 0 < d"
  by (simp add: padded_deficit_def split: if_splits)

lemma live_pass_evicts:
  assumes "tidy e (index w)" and "distinct (map st_id (ve_storages e))"
    and "pol_archive_enabled p \<longrightarrow> (\<forall>n. \<not> ve_stat_fails e n)"
  shows "evicts e (pol_archive_enabled p) p w (snd (live_pass e p w))"
proof -
  let ?stages = "if pol_archive_enabled p then [LiveStage] else [LiveStage, ArchiveStage]"
  obtain x w1 where b: "policy_bytes_split e (pol_id p) ?stages w = (x, w1)" by force
  note w1 = bytes_split_frame [OF b]
  show ?thesis
  proof (cases x)
    case (Inl er)
    then show ?thesis using b evicts_quiet [OF w1] by (simp add: live_pass_def)
  next
    case (Inr bs)
    obtain whole used where bs: "bs = (whole, used)" by force
    obtain fs w2 where f: "floor_storage e p w1 = (fs, w2)" by force
    note fo = floor_storage_ok [OF f]
    have w2: "disk w2 = disk w" "index w2 = index w" "tripped w2 = tripped w" using fo w1 by simp_all
    have t2: "tidy e (index w2)" using assms(1) w2 by simp
    define d where "d = padded_deficit (spill_margin p) (floor_deficit e p fs)"
    have low: "0 < d \<Longrightarrow> low_disk e p"
      using fo(4) padded_positive unfolding d_def low_disk_def floor_deficit_def by fastforce
    define target where "target = map_option (stop_target (spill_margin p)) (live_cap p)"
    obtain y w3 where ra: "resolve_archive_dirs_for_policy e p w2 = (y, w3)" by force
    note w3 = resolve_dirs_ok(1-3) [OF ra]
    have out: "snd (live_pass e p w) \<in> {w2} \<union>
        (if \<not> pol_archive_enabled p then {snd (evict_by_deleting e p (map_option st_path fs) target used d w2)}
         else case y of Inl _ \<Rightarrow> {w3}
           | Inr dirs \<Rightarrow> {snd (evict_by_moving e \<lparr>mp_policy = p, mp_archive = snd dirs,
               mp_floor = map_option st_path fs, mp_target = target\<rparr> used d w3)})"
      using b Inr bs f ra
      by (simp add: live_pass_def Let_def d_def target_def case_prod_beta split: sum.split)
    show ?thesis
    proof (cases "pol_archive_enabled p")
      case False
      have "target \<noteq> None \<Longrightarrow> capped p" using live_cap_capped [OF False] by (simp add: target_def)
      from evicts_after [OF w2 deleting_pass_evicts [OF t2 assms(2) False _ low this]]
      have "evicts e False p w (snd (evict_by_deleting e p (map_option st_path fs) target used d w2))"
        using fo(4) by blast
      then show ?thesis using out False evicts_quiet [OF w2, of e False p] by auto
    next
      case on: True
      show ?thesis
      proof (cases y)
        case (Inl er)
        then show ?thesis
          using out on evicts_quiet [OF w2] evicts_quiet [of w3 w] w3 w2 by auto
      next
        case (Inr dirs)
        then obtain aid where aid: "storage_of e aid = Some (snd dirs)"
          using resolve_dirs_ok(4) [OF ra, of "fst dirs" "snd dirs"] by auto
        have t3: "tidy e (index w3)" using t2 w3 by simp
        let ?mp = "\<lparr>mp_policy = p, mp_archive = snd dirs, mp_floor = map_option st_path fs, mp_target = target\<rparr>"
        have "evicts e True p w3 (snd (evict_by_moving e ?mp used d w3))"
          by (rule moving_pass_evicts [OF t3 _ on fo(4) low, where aid = aid]) (use assms(3) on aid in simp_all)
        then have "evicts e True p w (snd (evict_by_moving e ?mp used d w3))"
          using evicts_after [of w3 w] w2 w3 by simp
        then show ?thesis using out on Inr evicts_quiet [OF w2] by auto
      qed
    qed
  qed
qed

lemma archive_cap_pass_evicts:
  assumes "tidy e (index w)"
  shows "evicts e False p w (snd (archive_cap_pass e p w))"
proof (cases "keep_if (\<lambda>c. 0 < c \<and> pol_archive_enabled p) (pol_archive_max_bytes p)")
  case None
  then show ?thesis by (simp add: archive_cap_pass_def evicts_quiet)
next
  case (Some cap)
  then have cp: "capped p" by (auto simp: keep_if_Some capped_def)
  obtain x w1 where b: "policy_bytes_split e (pol_id p) [ArchiveStage] w = (x, w1)" by force
  note w1 = bytes_split_frame [OF b]
  let ?P = "\<lambda>s. sg_stage s = ArchiveStage \<and> under_policy e (pol_id p) s \<and> \<not> protected e s"
  obtain y w2 where q: "query e eviction_batch_limit ?P w1 = (y, w2)" by force
  have eq: "?P = (\<lambda>s. under_policy e (pol_id p) s \<and> sg_stage s = ArchiveStage \<and> \<not> protected e s)" by auto
  have run: "evicts e False p w1 (snd (snd (cap_loop e h t segs used ctx_new w2)))" if "y = Inr segs" for h t segs used
  proof -
    have "evicting e p w1 (ctx_new, w1) (snd (cap_loop e h t segs used ctx_new w2))"
      by (rule cap_pass_evicts [where P = "\<lambda>s. sg_stage s = ArchiveStage"])
        (use assms w1 cp q [unfolded that eq] sound_start [of e w1] in auto)
    then show ?thesis by (simp add: evicts_def evicting_def) (metis prod.collapse)
  qed
  have "snd (archive_cap_pass e p w) = w1 \<or> (\<exists>er. y = Inl er \<and> snd (archive_cap_pass e p w) = w2) \<or>
      (\<exists>segs h t used. y = Inr segs \<and> snd (archive_cap_pass e p w) = snd (snd (cap_loop e h t segs used ctx_new w2)))"
    using Some b q
    by (auto simp: archive_cap_pass_def list_policy_segments_oldest_first_def split: sum.splits)
  then show ?thesis
  proof (elim disjE exE conjE)
    assume "snd (archive_cap_pass e p w) = w1"
    then show ?thesis using evicts_quiet [OF w1] by simp
  next
    fix er assume "y = Inl er" "snd (archive_cap_pass e p w) = w2"
    then show ?thesis using evicts_quiet [of w2 w] query_error [of e _ ?P w1 er w2] q w1 by simp
  next
    fix segs h t used assume "y = Inr segs" "snd (archive_cap_pass e p w) = snd (snd (cap_loop e h t segs used ctx_new w2))"
    then show ?thesis using evicts_after [OF w1 run] by simp
  qed
qed

lemma evicts_keeps:
  assumes "evicts e m p w w'" and "tidy e (index w)" and "m \<longrightarrow> (\<forall>n. \<not> ve_stat_fails e n)"
  shows "tidy e (index w')"
    and "s \<in> set (index w) \<Longrightarrow> \<not> evictable e p s \<Longrightarrow> \<not> m \<Longrightarrow> unmoved e s w w'"
    and "content_at e w s b \<Longrightarrow> \<not> evictable e p s \<Longrightarrow> survives e w' s b"
proof -
  obtain c where d: "disposes e m (set (index w)) (kept_ids (evictable e p) w) (ctx_new, w) (c, w')"
    using assms(1) by (auto simp: evicts_def)
  have g: "good_step e m (kept_ids (evictable e p) w) (ctx_new, w) (c, w')"
    by (rule disposes_good [OF d sound_start [OF assms(2)] assms(3)])
  then show "tidy e (index w')" by (simp add: good_step_def sound_def)
  show "s \<in> set (index w) \<Longrightarrow> \<not> evictable e p s \<Longrightarrow> \<not> m \<Longrightarrow> unmoved e s w w'"
    "content_at e w s b \<Longrightarrow> \<not> evictable e p s \<Longrightarrow> survives e w' s b"
    using g kept_ids_iff [OF assms(2)] content_at_id by (auto simp: good_step_def preserves_def)
qed

lemma archived_not_evictable:
  "pol_archive_enabled p \<Longrightarrow> \<not> evictable e p s \<Longrightarrow> \<not> evictable e p (archived aid rel s)"
  by (auto simp: evictable_def under_policy_def protected_def)

lemma eviction_keeps:
  assumes t: "tidy e (index w)" and u: "distinct (map st_id (ve_storages e))"
    and st: "pol_archive_enabled p \<longrightarrow> (\<forall>n. \<not> ve_stat_fails e n)"
    and run: "policy_size_eviction_sweep e p w = (r, w')" and ne: "\<not> evictable e p s"
  shows "tidy e (index w')"
    and "s \<in> set (index w) \<Longrightarrow> \<not> pol_archive_enabled p \<Longrightarrow> unmoved e s w w'"
    and "content_at e w s b \<Longrightarrow> survives e w' s b"
proof -
  obtain x w1 where lp: "live_pass e p w = (x, w1)" by force
  have e1: "evicts e (pol_archive_enabled p) p w w1" using live_pass_evicts [OF t u st] lp by simp
  note k1 = evicts_keeps [OF e1 t st]
  have w': "w' = w1 \<or> w' = snd (archive_cap_pass e p w1)"
    using run lp by (auto simp: policy_size_eviction_sweep_def split: sum.splits)
  have "evicts e False p w1 w'"
    using w' archive_cap_pass_evicts [OF k1(1)] evicts_quiet [of w1 w1] by auto
  note k2 = evicts_keeps [OF this k1(1), simplified]
  show "tidy e (index w')" by (rule k2(1))
  show "unmoved e s w w'" if "s \<in> set (index w)" "\<not> pol_archive_enabled p"
    using k1(2) [OF that(1) ne that(2)] k2(2) [of s] ne by (auto simp: unmoved_def)
  show "survives e w' s b" if c: "content_at e w s b"
    using k1(3) [OF c ne] unfolding survives_def [of e w1]
  proof
    assume "content_at e w1 s b"
    then show ?thesis using k2(3) [OF _ ne] by simp
  next
    assume "\<exists>aid rel. content_at e w1 (archived aid rel s) b"
    then obtain aid rel where a: "content_at e w1 (archived aid rel s) b" by blast
    show ?thesis
    proof (cases "pol_archive_enabled p")
      case True
      have "survives e w' (archived aid rel s) b" by (rule k2(3) [OF a archived_not_evictable [OF True ne]])
      then show ?thesis by (auto simp: survives_def)
    next
      case False
      have "content_at e w1 s b" using unmoved_content [OF k1(2) c] content_at_id [OF c] ne False by blast
      then show ?thesis using k2(3) [OF _ ne] by simp
    qed
  qed
qed

text \<open>C4. Size eviction loses only what its limits allow. Under any faults of reads, writes and queries
  (with the archive on, provided the stat calls of the same-file guard answer), a segment with its file
  on disk survives the eviction sweep of a policy, in place or as an archived row with equal content,
  unless it is unprotected footage of that policy and either lies on the live disk while that disk is
  below its floor (and was not archived, when the archive is on) or is at least an hour old while the
  policy has a byte cap that deletes (of the archive when the archive is on, of the live tier
  otherwise). In particular, with the archive on, no archive cap set and the live disk above its floor,
  nothing is lost. With the archive off the survivors are not even moved.\<close>

theorem eviction_loses_only_evictable:
  assumes "tidy e (index w)" and "distinct (map st_id (ve_storages e))"
    and "pol_archive_enabled p \<longrightarrow> (\<forall>n. \<not> ve_stat_fails e n)"
    and "policy_size_eviction_sweep e p w = (r, w')" and "content_at e w s b"
    and "\<not> (under_policy e (pol_id p) s \<and> \<not> protected e s \<and>
      ((on_low_disk e p s \<and> (pol_archive_enabled p \<longrightarrow> sg_stage s = LiveStage)) \<or>
       (capped p \<and> sg_start s < ve_now e - seconds 3600)))"
  shows "survives e w' s b \<and> (\<not> pol_archive_enabled p \<longrightarrow> unmoved e s w w')"
proof -
  have ne: "\<not> evictable e p s" using assms(6) by (simp add: evictable_def cap_eviction_min_age_secs_def)
  show ?thesis using eviction_keeps [OF assms(1-4) ne] content_at_id [OF assms(5)] assms(5) by blast
qed

subsection \<open>How much is deleted when nothing fails\<close>

text \<open>\<open>k\<close> steps of at most \<open>n\<close>: the loop goes on while \<open>go\<close> holds for the steps taken so far.\<close>

definition stops_at :: "(nat \<Rightarrow> bool) \<Rightarrow> nat \<Rightarrow> nat \<Rightarrow> bool" where
  "stops_at go n k \<longleftrightarrow> k \<le> n \<and> (\<forall>j<k. go j) \<and> (k = n \<or> \<not> go k)"

lemma stops_at_0: "n = 0 \<or> \<not> go 0 \<Longrightarrow> stops_at go n 0"
  by (auto simp: stops_at_def)

lemma stops_at_Suc: "go 0 \<Longrightarrow> stops_at (\<lambda>j. go (Suc j)) n k \<Longrightarrow> stops_at go (Suc n) (Suc k)"
  by (auto simp: stops_at_def less_Suc_eq_0_disj)

lemma total_bytes_simps [simp]: "total_bytes [] = 0" "total_bytes (s # ss) = sg_size s + total_bytes ss"
  by (simp_all add: total_bytes_def)

definition cap_goes_on :: "vault_env \<Rightarrow> i64 \<Rightarrow> i64 \<Rightarrow> segment list \<Rightarrow> nat \<Rightarrow> bool" where
  "cap_goes_on e target used segs j \<longleftrightarrow>
     target < used - total_bytes (take j segs) \<and> sg_start (segs ! j) < ve_now e - seconds cap_eviction_min_age_secs"

lemma calm_cap_loop:
  "calm e \<Longrightarrow> cache_ok e c \<Longrightarrow> wipeable e segs w \<Longrightarrow>
   \<exists>k. stops_at (cap_goes_on e t used segs) (length segs) k \<and>
       wiped e (take k segs) w (snd (snd (cap_loop e h t segs used c w)))"
proof (induction segs arbitrary: used c w)
  case Nil
  then show ?case by (intro exI [of _ 0]) (simp add: stops_at_0)
next
  case (Cons seg segs)
  show ?case
  proof (cases "used \<le> t \<or> ve_now e - seconds cap_eviction_min_age_secs \<le> sg_start seg")
    case True
    then show ?thesis by (intro exI [of _ 0]) (auto simp: stops_at_0 cap_goes_on_def)
  next
    case False
    obtain r c1 w1 where d: "delete_segment_file_then_row e seg c w = (r, c1, w1)" by (metis prod_cases3)
    define w2 where "w2 = (case h of None \<Rightarrow> w1 | Some x \<Rightarrow> emit_premature_rollover_if_early e seg x w1)"
    have w2: "disk w2 = disk w1" "index w2 = index w1" by (simp_all add: w2_def split: option.split)
    note wc = wiped_Cons [OF Cons.prems d w2]
    obtain k where k: "stops_at (cap_goes_on e t (used - sg_size seg) segs) (length segs) k"
      "wiped e (take k segs) w2 (snd (snd (cap_loop e h t segs (used - sg_size seg) c1 w2)))"
      using Cons.IH [OF Cons.prems(1) wc(2,3)] by blast
    have "stops_at (cap_goes_on e t used (seg # segs)) (Suc (length segs)) (Suc k)"
      by (rule stops_at_Suc) (use False k(1) in \<open>simp_all add: cap_goes_on_def [abs_def] algebra_simps\<close>)
    then show ?thesis
      using False d wc(1) wc(4) [OF k(2)] by (intro exI [of _ "Suc k"]) (simp add: w2_def)
  qed
qed

lemma total_bytes_nonneg: "\<forall>s \<in> set ss. 0 \<le> sg_size s \<Longrightarrow> 0 \<le> total_bytes ss"
  by (auto simp: total_bytes_def intro!: sum_list_nonneg)

lemma total_bytes_take: "\<forall>s \<in> set ss. 0 \<le> sg_size s \<Longrightarrow> 0 \<le> total_bytes (take j ss)"
  by (rule total_bytes_nonneg) (auto dest: in_set_takeD)

lemma calm_floor_loop:
  "calm e \<Longrightarrow> \<forall>s \<in> set segs. 0 \<le> sg_size s \<Longrightarrow> cache_ok e (ev_ctx v) \<Longrightarrow> wipeable e segs w \<Longrightarrow>
   \<exists>k. stops_at (\<lambda>j. total_bytes (take j segs) < ev_deficit v) (length segs) k \<and>
       wiped e (take k segs) w (snd (floor_loop e p segs v w))"
proof (induction segs arbitrary: v w)
  case Nil
  then show ?case by (intro exI [of _ 0]) (simp add: stops_at_0)
next
  case (Cons seg segs)
  show ?case
  proof (cases "ev_deficit v \<le> 0")
    case True
    then show ?thesis by (intro exI [of _ 0]) (auto simp: stops_at_0)
  next
    case False
    obtain r c1 w1 where d: "delete_segment_file_then_row e seg (ev_ctx v) w = (r, c1, w1)" by (metis prod_cases3)
    define w2 where "w2 = emit_premature_rollover_if_early e seg (pol_live_retention_hours p) w1"
    have w2: "disk w2 = disk w1" "index w2 = index w1" by (simp_all add: w2_def)
    note wc = wiped_Cons [OF Cons.prems(1,3,4) d w2]
    obtain v1 where f: "floor_rescue_delete e p seg v w = (v1, w2)" "ev_ctx v1 = c1"
      "ev_deficit v1 = max (ev_deficit v - sg_size seg) 0"
      using d wc(1) by (simp add: floor_rescue_delete_def w2_def)
    obtain k where k: "stops_at (\<lambda>j. total_bytes (take j segs) < ev_deficit v1) (length segs) k"
      "wiped e (take k segs) w2 (snd (floor_loop e p segs v1 w2))"
      using Cons.IH [of v1 w2] Cons.prems(1,2) wc(2,3) f(2) by auto
    have "stops_at (\<lambda>j. total_bytes (take (Suc j) (seg # segs)) < ev_deficit v) (length segs) k"
      using k(1) total_bytes_take [of segs, THEN leD] Cons.prems(2)
      by (auto simp: stops_at_def f(3) less_max_iff_disj not_less algebra_simps)
    then have "stops_at (\<lambda>j. total_bytes (take j (seg # segs)) < ev_deficit v) (Suc (length segs)) (Suc k)"
      by (rule stops_at_Suc [rotated]) (use False in simp)
    then show ?thesis
      using False f(1) wc(4) [OF k(2)] by (intro exI [of _ "Suc k"]) simp
  qed
qed

lemma calm_query:
  "calm e \<Longrightarrow> query e n P w = (Inr (oldest_first n P (index w)), w\<lparr>draws := draws w + 1\<rparr>)"
  by (simp add: query_def calm_draw)

lemma calm_floor_storage:
  "calm e \<Longrightarrow> floor_storage e p w = (configured_floor e p, w\<lparr>draws := draws w + 1\<rparr>)"
  by (simp add: floor_storage_def configured_floor_def get_storage_def calm_draw split: option.split)

lemma calm_same_filesystem: "calm e \<Longrightarrow> fst (same_filesystem e a b w) = same_disk e a b"
  by (simp add: calm_def same_filesystem_def stat_dev_def same_disk_def Let_def)

lemma calm_ids_on_filesystem:
  "calm e \<Longrightarrow> fst (ids_on_filesystem e b ss w) = map st_id (filter (\<lambda>s. same_disk e (st_path s) b) ss)"
proof (induction ss arbitrary: w)
  case Nil
  then show ?case by simp
next
  case (Cons s ss)
  then show ?case using calm_same_filesystem [OF Cons.prems, of "st_path s" b w]
    by (simp add: case_prod_beta Let_def)
qed

lemma archive_cap_pass_off: "\<not> pol_archive_enabled p \<Longrightarrow> archive_cap_pass e p w = (Inr (), w)"
  by (simp add: archive_cap_pass_def keep_if_def split: option.split)

lemma eviction_off:
  "\<not> pol_archive_enabled p \<Longrightarrow> snd (policy_size_eviction_sweep e p w) = snd (live_pass e p w)"
  by (simp add: policy_size_eviction_sweep_def case_prod_beta archive_cap_pass_off split: sum.split)

text \<open>The unprotected footage of a policy, and the part of it on the live disk, oldest first.\<close>

definition evictable_footage :: "vault_env \<Rightarrow> recording_policy \<Rightarrow> segment \<Rightarrow> bool" where
  "evictable_footage e p s \<longleftrightarrow> under_policy e (pol_id p) s \<and> \<not> protected e s"

definition in_place :: "vault_env \<Rightarrow> (segment \<Rightarrow> bool) \<Rightarrow> vault \<Rightarrow> bool" where
  "in_place e P w \<longleftrightarrow> (\<forall>s \<in> set (index w). P s \<longrightarrow> (\<exists>q. spot e s = Some q \<and> disk w q \<noteq> None))"

lemma candidates_wipeable:
  assumes "tidy e (index w)" and "in_place e P w" and "disk w2 = disk w"
  shows "wipeable e (oldest_first n P (index w)) w2"
proof -
  have "distinct (map (spot e) (oldest_first n P (index w)))"
    by (rule tidy_spots [OF assms(1)]) (use assms(2) in \<open>auto simp: in_place_def\<close>)
  then show ?thesis
    using oldest_first_subset [of n P "index w"] assms(2,3) by (auto simp: wipeable_def in_place_def)
qed

text \<open>C34. The live cap deletes no more than it must. With the archive off, a disk above its floor and no
  fault, a policy at or under its byte cap loses nothing; over the cap, exactly the first \<open>k\<close> segments of
  its unprotected footage, oldest first, are deleted, row and file: each one older than an hour and
  deleted while the footage was still over the target (the cap less the spill margin), and the sweep
  stops before the target is reached only at footage younger than an hour or at the end of the batch.\<close>

theorem cap_eviction_minimal:
  assumes "calm e" and "tidy e (index w)" and "\<not> pol_archive_enabled p" and "\<not> low_disk e p"
    and "live_cap p = Some cap" and "in_place e (evictable_footage e p) w"
    and "policy_bytes_split e (pol_id p) [LiveStage, ArchiveStage] w = (Inr (whole, used), w0)"
    and "cands = oldest_first eviction_batch_limit (evictable_footage e p) (index w)"
    and "policy_size_eviction_sweep e p w = (r, w')"
  shows "if used \<le> cap then index w' = index w \<and> disk w' = disk w
    else \<exists>k. stops_at (cap_goes_on e (stop_target (spill_margin p) cap) used cands) (length cands) k \<and>
      wiped e (take k cands) w w'"
proof -
  let ?t = "stop_target (spill_margin p) cap"
  define d where "d = floor_deficit e p (configured_floor e p)"
  have d: "\<not> 0 < d" "padded_deficit (spill_margin p) d = d"
    using assms(4) by (simp_all add: low_disk_def d_def padded_deficit_def)
  define w2 where "w2 = w0\<lparr>draws := draws w0 + 1\<rparr>"
  have w2: "disk w2 = disk w" "index w2 = index w" using bytes_split_frame [OF assms(7)] by (simp_all add: w2_def)
  have fs: "floor_storage e p w0 = (configured_floor e p, w2)" by (simp add: calm_floor_storage [OF assms(1)] w2_def)
  have fp: "floor_pass e p fr (eviction_new used d False) w2 = (Inr (eviction_new used d False), w2)" for fr
    using d by (simp add: floor_pass_def eviction_new_def split: option.split)
  have ev: "ev_used (eviction_new used d False) = used" "ev_ctx (eviction_new used d False) = ctx_new"
    by (simp_all add: eviction_new_def)
  have P: "(\<lambda>s. under_policy e (pol_id p) s \<and> \<not> protected e s) = evictable_footage e p"
    by (simp add: evictable_footage_def [abs_def])
  have live: "live_pass e p w = (if used \<le> cap then (Inr (), w2)
      else live_cap_pass e p (Some ?t) (eviction_new used d False) w2)"
    using assms(3,5) d(1)
    by (simp add: live_pass_def assms(7) fs over_def
        evict_by_deleting_def d_def [symmetric] d(2) fp Let_def)
  have w': "w' = snd (live_pass e p w)"
    using eviction_off [OF assms(3), of e w] assms(9) by simp
  show ?thesis
  proof (cases "used \<le> cap")
    case True
    then show ?thesis using w' live w2 by simp
  next
    case False
    then have "?t < used"
      using assms(5) by (auto simp: stop_target_def spill_margin_def or_else_def keep_if_def split: option.splits if_splits)
    define w3 where "w3 = w2\<lparr>draws := draws w2 + 1\<rparr>"
    have w3: "disk w3 = disk w" "index w3 = index w" using w2 by (simp_all add: w3_def)
    have "w' = snd (snd (cap_loop e (Some (pol_live_retention_hours p)) ?t cands used ctx_new w3))"
      using w' live False \<open>?t < used\<close> w2(2)
      by (simp add: live_cap_pass_def keep_if_def ev list_policy_segments_oldest_first_any_stage_def P
          calm_query [OF assms(1)] assms(8) w3_def)
    moreover have "wipeable e cands w3"
      using candidates_wipeable [OF assms(2,6) w3(1)] assms(8) by simp
    ultimately obtain k where "stops_at (cap_goes_on e ?t used cands) (length cands) k" "wiped e (take k cands) w3 w'"
      using calm_cap_loop [OF assms(1) ctx_new_ok, of cands w3 ?t used "Some (pol_live_retention_hours p)"] by auto
    then show ?thesis using False w3 by (auto simp: wiped_def)
  qed
qed

text \<open>C32. The floor rescue frees enough and no more. With the archive off, no cap and no fault, a live
  disk below its floor loses exactly the first \<open>k\<close> unprotected segments on that disk, oldest first, where
  \<open>k\<close> is the least number that frees the deficit and the spill margin (or the whole batch); nothing on
  another disk is touched.\<close>

theorem floor_rescue_minimal:
  assumes "calm e" and "tidy e (index w)" and "distinct (map st_id (ve_storages e))"
    and "\<not> pol_archive_enabled p" and "live_cap p = None"
    and "configured_floor e p = Some fs" and "floor_deficit e p (Some fs) = deficit" and "0 < deficit"
    and "in_place e (on_low_disk e p) w" and "\<forall>s \<in> set (index w). 0 \<le> sg_size s"
    and "policy_bytes_split e (pol_id p) [LiveStage, ArchiveStage] w = (Inr (whole, used), w0)"
    and "cands = oldest_first eviction_batch_limit (\<lambda>s. evictable_footage e p s \<and> on_low_disk e p s) (index w)"
    and "policy_size_eviction_sweep e p w = (r, w')"
  shows "\<exists>k. wiped e (take k cands) w w' \<and>
    stops_at (\<lambda>j. total_bytes (take j cands) < padded_deficit (spill_margin p) deficit) (length cands) k"
proof -
  let ?d = "padded_deficit (spill_margin p) deficit"
  let ?v = "eviction_new used ?d False"
  define w2 where "w2 = w0\<lparr>draws := draws w0 + 1\<rparr>"
  have w2: "disk w2 = disk w" "index w2 = index w" using bytes_split_frame [OF assms(11)] by (simp_all add: w2_def)
  have fs: "floor_storage e p w0 = (Some fs, w2)" by (simp add: calm_floor_storage [OF assms(1)] w2_def assms(6))
  have ev: "ev_deficit ?v = ?d" "ev_ctx ?v = ctx_new" by (simp_all add: eviction_new_def)
  have pos: "0 < ?d"
    using assms(8) by (auto simp: padded_deficit_def spill_margin_def or_else_def keep_if_def i64_max_def split: option.split)
  let ?ids = "map st_id (filter (\<lambda>s. same_disk e (st_path s) (st_path fs)) (ve_storages e))"
  obtain w3 where ids: "storage_ids_on_filesystem e (st_path fs) w2 = (Inr ?ids, w3)"
    using calm_ids_on_filesystem [OF assms(1), of "st_path fs" "ve_storages e"]
    by (simp add: storage_ids_on_filesystem_def calm_draw [OF assms(1)] case_prod_beta Let_def)
  have w3: "disk w3 = disk w" "index w3 = index w"
    using storage_ids_frame [of e "st_path fs" w2] ids w2 by simp_all
  have low: "low_disk e p" using assms(6-8) by (simp add: low_disk_def)
  have mem: "i \<in> set ?ids \<longleftrightarrow> (\<exists>st. storage_of e i = Some st \<and> same_disk e (st_path st) (st_path fs))" for i
    using storage_of_unique [OF assms(3)] storage_of_mem [of e i] by fastforce
  let ?P = "\<lambda>s. sg_stage s \<in> set [LiveStage, ArchiveStage] \<and> under_policy e (pol_id p) s \<and>
       sg_storage s \<in> set ?ids \<and> \<not> protected e s"
  have "sg_stage s \<in> set [LiveStage, ArchiveStage]" for s by (cases "sg_stage s") simp_all
  then have P: "?P = (\<lambda>s. evictable_footage e p s \<and> on_low_disk e p s)"
    unfolding mem using low assms(6) by (auto simp: evictable_footage_def on_low_disk_def)
  define w4 where "w4 = w3\<lparr>draws := draws w3 + 1\<rparr>"
  have w4: "disk w4 = disk w" "index w4 = index w" using w3 by (simp_all add: w4_def)
  have q: "query e eviction_batch_limit ?P w3 = (Inr cands, w4)"
    unfolding P by (simp add: calm_query [OF assms(1)] assms(12) w3 w4_def)
  obtain v1 w5 where fl: "floor_loop e p cands ?v w4 = (v1, w5)" by force
  have fp: "floor_pass e p (Some (st_path fs)) ?v w2 = (if ?ids = [] then (Inr ?v, w3) else (Inr v1, w5))"
    using pos ids q fl by (simp add: floor_pass_def ev list_policy_segments_on_storages_oldest_first_def)
  have "w' = snd (evict_by_deleting e p (Some (st_path fs)) None used ?d w2)"
    using eviction_off [OF assms(4), of e w] assms(4,5,7,8,13)
    by (simp add: live_pass_def assms(11) fs over_def Let_def)
  then have w': "w' = (if ?ids = [] then w3 else w5)"
    by (simp add: evict_by_deleting_def fp live_cap_pass_def keep_if_def)
  have wipe: "wipeable e cands w4"
    using candidates_wipeable [OF assms(2) _ w4(1), of "\<lambda>s. evictable_footage e p s \<and> on_low_disk e p s"]
      assms(9,12) by (auto simp: in_place_def)
  show ?thesis
  proof (cases "?ids = []")
    case True
    have none: "\<not> ?P s" for s using True by simp
    have "cands = []" unfolding assms(12) P [symmetric] using none by (simp add: oldest_first_def)
    then show ?thesis using w' True w3 by (intro exI [of _ 0]) (simp add: stops_at_0 wiped_same [OF wiped_Nil])
  next
    case False
    have "\<forall>s \<in> set cands. 0 \<le> sg_size s" using assms(10,12) oldest_first_subset by blast
    then obtain k where "stops_at (\<lambda>j. total_bytes (take j cands) < ?d) (length cands) k" "wiped e (take k cands) w4 w5"
      using calm_floor_loop [OF assms(1) _ _ wipe, of ?v p] fl ev by auto
    then show ?thesis using w' False w4 by (auto simp: wiped_def)
  qed
qed

text \<open>
  A move that fails at its last step has already switched the row to the archived copy and leaves the
  source behind. On a disk below its floor the loop then rescues the same candidate: it deletes the left
  over source, which frees the space, but also the row, which by now is the row of the archived copy.
\<close>

lemma rescue_after_commit_orphans_archive:
  assumes "\<forall>n \<ge> draws w. ve_fault e n = Good" and "cache_ok e (ev_ctx v)"
    and "storage_of e (sg_storage seg) = Some src" and "sc_cache (ev_ctx v) (sg_storage seg) = Some src"
    and "archived aid rel seg \<in> set (index w)" and "disk w (ve_canon e (st_path src @ sg_path seg)) = Some b"
    and "q \<noteq> ve_canon e (st_path src @ sg_path seg)"
    and "move_failed e mp src seg below True v w = (go, v', w')"
  shows "disk w' q = disk w q" and "\<forall>s \<in> set (index w'). sg_id s \<noteq> sg_id seg"
proof -
  have fe: "file_exists e (st_path src @ sg_path seg) w = (Some True, w\<lparr>draws := draws w + 1\<rparr>)"
    using assms(1,6) by (simp add: file_exists_def draw_def)
  define w2 where "w2 = (if ev_alerted v then w\<lparr>draws := draws w + 1\<rparr>
      else raise_storage_event e (w\<lparr>draws := draws w + 1\<rparr>))"
  have w2: "disk w2 = disk w" "index w2 = index w" by (simp_all add: w2_def)
  have late: "\<forall>n \<ge> draws w2. ve_fault e n = Good"
    using assms(1) by (simp add: w2_def raise_storage_event_def raise_event_def draw_def)
  obtain r c1 w3 where d: "delete_segment_file_then_row e seg (ev_ctx v) w2 = (r, c1, w3)" by (metis prod_cases3)
  have w3: "disk w3 q = disk w q" "index w3 = filter (\<lambda>s. sg_id s \<noteq> sg_id seg) (index w)"
    using d late assms(4,6,7) w2
    by (auto simp: delete_segment_file_then_row_def resolve_storage_def unlink_def draw_def delete_row_as_def
        delete_segment_row_def)
  have "w' = snd (floor_rescue_delete e (mp_policy mp) seg (v\<lparr>ev_alerted := True, ev_blocked := True\<rparr>) w2)"
    using assms(8) by (auto simp: move_failed_def fe w2_def Let_def split: prod.splits if_splits)
  then have "disk w' = disk w3" "index w' = index w3"
    using d by (auto simp: floor_rescue_delete_def split: sum.splits delete_outcome.splits)
  then show "disk w' q = disk w q" "\<forall>s \<in> set (index w'). sg_id s \<noteq> sg_id seg" using w3 by simp_all
qed

subsection \<open>Concrete runs\<close>

definition demo_archiving :: recording_policy where
  "demo_archiving = demo_policy\<lparr>pol_archive_enabled := True, pol_live_max_bytes := Some 1\<rparr>"

definition demo_capped :: recording_policy where
  "demo_capped = demo_policy\<lparr>pol_live_max_bytes := Some 1\<rparr>"

definition demo_low :: recording_policy where
  "demo_low = demo_policy\<lparr>pol_live_min_free_pct := Some (1 / 2)\<rparr>"

theorem eviction_loses_only_evictable_witness:
  "survives (demo_vault_env (\<lambda>_. Good) (\<lambda>_. False))
     (snd (policy_size_eviction_sweep (demo_vault_env (\<lambda>_. Good) (\<lambda>_. False)) demo_archiving demo_vault))
     (demo_segment 11) [1, 2, 3]"
proof -
  let ?e = "demo_vault_env (\<lambda>_. Good) (\<lambda>_. False)"
  obtain r w' where run: "policy_size_eviction_sweep ?e demo_archiving demo_vault = (r, w')" by force
  have "content_at ?e demo_vault (demo_segment 11) [1, 2, 3]"
    by (simp add: content_at_def spot_def storage_of_def demo_vault_simps)
  moreover have "\<not> low_disk ?e demo_archiving"
    by (simp add: low_disk_def floor_deficit_def configured_floor_def storage_of_def below_floor_def
        below_free_floor_for_policy_def demo_archiving_def demo_vault_simps demo_policy_def)
      code_simp
  ultimately show ?thesis
    using eviction_loses_only_evictable [OF demo_tidy(1) _ _ run] run
    by (simp add: on_low_disk_def capped_def demo_archiving_def demo_policy_def demo_vault_env_def)
qed

theorem cap_eviction_minimal_witness:
  "index (snd (policy_size_eviction_sweep (demo_vault_env (\<lambda>_. Good) (\<lambda>_. False)) demo_capped demo_vault)) = []"
proof -
  let ?e = "demo_vault_env (\<lambda>_. Good) (\<lambda>_. False)"
  obtain r w' where run: "policy_size_eviction_sweep ?e demo_capped demo_vault = (r, w')" by force
  have ev: "evictable_footage ?e demo_capped (demo_segment 11)"
    by (simp add: evictable_footage_def under_policy_def protected_def demo_capped_def demo_policy_def demo_vault_env_def)
  then have c: "oldest_first eviction_batch_limit (evictable_footage ?e demo_capped) (index demo_vault) = [demo_segment 11]"
    by (simp add: oldest_first_def eviction_batch_limit_def demo_vault_def)
  have split: "policy_bytes_split ?e (pol_id demo_capped) [LiveStage, ArchiveStage] demo_vault =
      (Inr (3, 3), demo_vault\<lparr>draws := 1\<rparr>)"
    by (simp add: policy_bytes_split_def draw_def under_policy_def protected_def demo_capped_def demo_policy_def
        demo_vault_simps i64_min_def i64_max_def)
  have low: "\<not> low_disk ?e demo_capped"
    by (simp add: low_disk_def floor_deficit_def configured_floor_def storage_of_def below_floor_def
        below_free_floor_for_policy_def demo_capped_def demo_vault_simps demo_policy_def)
      code_simp
  have "in_place ?e (evictable_footage ?e demo_capped) demo_vault"
    by (simp add: in_place_def spot_def storage_of_def demo_vault_simps)
  then obtain k where "stops_at (cap_goes_on ?e 1 3 [demo_segment 11]) 1 k" "wiped ?e (take k [demo_segment 11]) demo_vault w'"
    using cap_eviction_minimal [OF _ demo_tidy(1) _ low _ _ split c [symmetric] run, of 1]
    by (auto simp: calm_def demo_vault_env_def demo_capped_def demo_policy_def live_cap_def keep_if_def
        stop_target_def spill_margin_def or_else_def)
  then show ?thesis
    using run by (cases k) (simp_all add: stops_at_def cap_goes_on_def wiped_def demo_vault_simps
        cap_eviction_min_age_secs_def hours_def seconds_def)
qed

theorem floor_rescue_minimal_witness:
  "index (snd (policy_size_eviction_sweep (demo_vault_env (\<lambda>_. Good) (\<lambda>_. False)) demo_low demo_vault)) = []"
proof -
  let ?e = "demo_vault_env (\<lambda>_. Good) (\<lambda>_. False)"
  let ?fs = "\<lparr>st_id = 1, st_path = [''live'']\<rparr>"
  obtain r w' where run: "policy_size_eviction_sweep ?e demo_low demo_vault = (r, w')" by force
  have fs: "configured_floor ?e demo_low = Some ?fs"
    by (simp add: configured_floor_def storage_of_def demo_low_def demo_policy_def demo_vault_env_def)
  have deficit: "floor_deficit ?e demo_low (Some ?fs) = 4000"
    by (simp add: floor_deficit_def below_floor_def below_free_floor_for_policy_def demo_low_def
        demo_vault_env_def demo_policy_def)
      code_simp
  have low: "on_low_disk ?e demo_low (demo_segment 11)"
    using fs deficit by (simp add: on_low_disk_def low_disk_def storage_of_def same_disk_def demo_vault_simps)
  moreover have "evictable_footage ?e demo_low (demo_segment 11)"
    by (simp add: evictable_footage_def under_policy_def protected_def demo_low_def demo_policy_def demo_vault_env_def)
  ultimately have c: "oldest_first eviction_batch_limit (\<lambda>s. evictable_footage ?e demo_low s \<and> on_low_disk ?e demo_low s)
      (index demo_vault) = [demo_segment 11]"
    by (simp add: oldest_first_def eviction_batch_limit_def demo_vault_def)
  have split: "policy_bytes_split ?e (pol_id demo_low) [LiveStage, ArchiveStage] demo_vault =
      (Inr (3, 3), demo_vault\<lparr>draws := 1\<rparr>)"
    by (simp add: policy_bytes_split_def draw_def under_policy_def protected_def demo_low_def demo_policy_def
        demo_vault_simps i64_min_def i64_max_def)
  have "in_place ?e (on_low_disk ?e demo_low) demo_vault"
    by (simp add: in_place_def spot_def storage_of_def demo_vault_simps)
  then obtain k where "wiped ?e (take k [demo_segment 11]) demo_vault w'"
    "stops_at (\<lambda>j. total_bytes (take j [demo_segment 11]) < 4000) 1 k"
    using floor_rescue_minimal [OF _ demo_tidy(1) _ _ _ fs deficit _ _ _ split c [symmetric] run]
    by (auto simp: calm_def demo_vault_simps demo_low_def demo_policy_def live_cap_def keep_if_def
        padded_deficit_def spill_margin_def or_else_def i64_max_def)
  then show ?thesis
    using run by (cases k) (simp_all add: stops_at_def wiped_def demo_vault_def)
qed

end
