(* ===== verification/Scheduler.thy ===== *)
theory Scheduler
  imports Eviction
begin

text \<open>
  The archive scheduler of \<open>services/recorder/src/archive.rs\<close>: the cron tracker of a camera, the
  scheduled archive run and one tick of the loop. Cron expressions are parsed and evaluated by the
  crate croner, a parameter here: \<open>ce_valid\<close> says whether an expression parses and \<open>ce_next\<close> answers
  for the first occurrence strictly after an instant, in the recorder's time zone; the answer may be an
  error that depends on when the call is made.
\<close>

record cron_env =
  ce_valid :: "string \<Rightarrow> bool"
  ce_next :: "instant \<Rightarrow> string \<Rightarrow> instant \<Rightarrow> instant option"

record cron_tracker =
  ct_schedule :: string
  ct_last_checked :: "instant option"
  ct_backlog_pending :: bool

definition cron_tracker_new :: "cron_env \<Rightarrow> string \<Rightarrow> cron_tracker option" where
  "cron_tracker_new ce schedule =
     (if ce_valid ce schedule
      then Some \<lparr>ct_schedule = schedule, ct_last_checked = None, ct_backlog_pending = False\<rparr>
      else None)"

definition window_start :: "cron_tracker \<Rightarrow> instant \<Rightarrow> instant" where
  "window_start t now =
     (case ct_last_checked t of
        Some l \<Rightarrow> l
      | None \<Rightarrow> now - now mod seconds 60 - seconds 1)"

definition is_due :: "cron_env \<Rightarrow> instant \<Rightarrow> cron_tracker \<Rightarrow> bool \<times> cron_tracker" where
  "is_due ce now t =
     (if now \<le> window_start t now then (False, t)
      else case ce_next ce now (ct_schedule t) (window_start t now) of
        Some occurrence \<Rightarrow> (occurrence \<le> now, t\<lparr>ct_last_checked := Some now\<rparr>)
      | None \<Rightarrow> (False, t))"

type_synonym trackers = "uuid \<Rightarrow> cron_tracker option"

definition ensure_cron_tracker ::
  "cron_env \<Rightarrow> trackers \<Rightarrow> uuid \<Rightarrow> string \<Rightarrow> cron_tracker option \<times> trackers" where
  "ensure_cron_tracker ce ts camera schedule =
     (case ts camera of
        Some t \<Rightarrow>
          if ct_schedule t = schedule then (Some t, ts)
          else (case cron_tracker_new ce schedule of
                  Some fresh \<Rightarrow>
                    let t1 = fresh\<lparr>ct_last_checked := ct_last_checked t,
                                   ct_backlog_pending := ct_backlog_pending t\<rparr>
                    in (Some t1, ts(camera \<mapsto> t1))
                | None \<Rightarrow> (None, ts(camera := None)))
      | None \<Rightarrow>
          (case cron_tracker_new ce schedule of
             Some fresh \<Rightarrow> (Some fresh, ts(camera \<mapsto> fresh))
           | None \<Rightarrow> (None, ts(camera := None))))"

definition cron_check ::
  "cron_env \<Rightarrow> uuid \<Rightarrow> string \<Rightarrow> instant \<Rightarrow> trackers \<Rightarrow> (bool \<times> cron_tracker) option \<times> trackers" where
  "cron_check ce camera schedule now ts =
     (case ensure_cron_tracker ce ts camera schedule of
        (None, ts1) \<Rightarrow> (None, ts1)
      | (Some t, ts1) \<Rightarrow> (let (due, t1) = is_due ce now t in (Some (due, t1), ts1(camera \<mapsto> t1))))"

subsection \<open>The scheduled archive run of a camera\<close>

definition run_cron_archive ::
  "cron_env \<Rightarrow> vault_env \<Rightarrow> camera_row \<Rightarrow> instant \<Rightarrow> trackers \<Rightarrow> vault \<Rightarrow> trackers \<times> vault" where
  "run_cron_archive ce e camera now ts w =
     (case keep_if (\<lambda>s. s \<noteq> []) (pol_archive_schedule (snd camera)) of
        None \<Rightarrow> (ts, w)
      | Some schedule \<Rightarrow>
          (case cron_check ce (fst camera) schedule now ts of
             (None, ts1) \<Rightarrow> (ts1, w)
           | (Some (due, t), ts1) \<Rightarrow>
               if \<not> due \<and> \<not> ct_backlog_pending t then (ts1, w)
               else let (r, w1) = archive_camera e camera w;
                        pending = (case r of Inr outcome \<Rightarrow> run_backlog_pending outcome | Inl _ \<Rightarrow> False)
                    in (ts1(fst camera \<mapsto> t\<lparr>ct_backlog_pending := pending\<rparr>),
                        snd (archive_retention_sweep e camera w1))))"

subsection \<open>One tick\<close>

definition distinct_policies :: "camera_row list \<Rightarrow> recording_policy list" where
  "distinct_policies cams =
     rev (fold (\<lambda>(_, p) ps. if pol_id p \<in> pol_id ` set ps then ps else p # ps) cams [])"

definition floor_phase :: "vault_env \<Rightarrow> recording_policy list \<Rightarrow> vault \<Rightarrow> vault" where
  "floor_phase e ps w =
     fold (\<lambda>p w. snd (archive_floor_sweep e p w)) (filter pol_archive_enabled ps) w"

definition camera_phase ::
  "cron_env \<Rightarrow> vault_env \<Rightarrow> camera_row list \<Rightarrow> trackers \<times> vault \<Rightarrow> trackers \<times> vault" where
  "camera_phase ce e cams x =
     fold (\<lambda>camera (ts, w).
       if pol_archive_enabled (snd camera) then run_cron_archive ce e camera (ve_now e) ts w
       else (ts, snd (archive_retention_sweep e camera w))) cams x"

definition limits_phase :: "vault_env \<Rightarrow> recording_policy list \<Rightarrow> vault \<Rightarrow> vault" where
  "limits_phase e ps w =
     fold (\<lambda>p w. snd (max_retention_sweep e p (snd (policy_size_eviction_sweep e p w)))) ps w"

definition scheduler_tick ::
  "cron_env \<Rightarrow> vault_env \<Rightarrow> camera_row list \<Rightarrow> trackers \<Rightarrow> vault \<Rightarrow> trackers \<times> vault" where
  "scheduler_tick ce e cams ts w =
     (case list_cameras_all e cams (snd (live_retention_sweep e cams w)) of
        (Inl _, w1) \<Rightarrow> (ts, w1)
      | (Inr cs, w1) \<Rightarrow>
          (let ps = distinct_policies cs;
               (ts1, w2) = camera_phase ce e cs (ts, floor_phase e ps w1);
               w3 = limits_phase e ps w2
           in ((\<lambda>i. if i \<in> fst ` set cs then ts1 i else None), w3)))"

subsection \<open>Each occurrence fires once\<close>

text \<open>What the documentation of croner promises for an answer: the first occurrence after the instant.\<close>

definition answers :: "cron_env \<Rightarrow> (string \<Rightarrow> instant set) \<Rightarrow> bool" where
  "answers ce occ \<longleftrightarrow>
     (\<forall>now s a n. ce_next ce now s a = Some n \<longrightarrow> n \<in> occ s \<and> a < n \<and> (\<forall>x \<in> occ s. a < x \<longrightarrow> n \<le> x))"

text \<open>
  The windows that a sequence of checks of one camera evaluates, each with the schedule in force and
  whether the check fired. A check with an invalid schedule, a clock that stepped back or an error
  evaluates no window.
\<close>

type_synonym window = "string \<times> instant \<times> instant \<times> bool"

fun cron_windows :: "cron_env \<Rightarrow> uuid \<Rightarrow> trackers \<Rightarrow> (string \<times> instant) list \<Rightarrow> window list" where
  "cron_windows ce camera ts [] = []"
| "cron_windows ce camera ts ((schedule, now) # calls) =
     (let start = (case fst (ensure_cron_tracker ce ts camera schedule) of
                     None \<Rightarrow> now | Some t \<Rightarrow> window_start t now);
          (out, ts1) = cron_check ce camera schedule now ts;
          rest = cron_windows ce camera ts1 calls
      in case out of
           None \<Rightarrow> rest
         | Some (due, t) \<Rightarrow>
             if start < now \<and> ct_last_checked t = Some now then (schedule, start, now, due) # rest else rest)"

primrec chained :: "instant \<Rightarrow> window list \<Rightarrow> bool" where
  "chained a [] = True"
| "chained a (w # ws) =
     (fst (snd w) = a \<and> a < fst (snd (snd w)) \<and> chained (fst (snd (snd w))) ws)"

definition covers :: "instant \<Rightarrow> window \<Rightarrow> bool" where
  "covers x w \<longleftrightarrow> fst (snd w) < x \<and> x \<le> fst (snd (snd w))"

lemma chained_before: "chained a ws \<Longrightarrow> x \<le> a \<Longrightarrow> filter (covers x) ws = []"
  by (induction ws arbitrary: a) (auto simp: covers_def)

lemma chained_once:
  "chained a ws \<Longrightarrow> ws \<noteq> [] \<Longrightarrow> a < x \<Longrightarrow> x \<le> fst (snd (snd (last ws))) \<Longrightarrow>
     length (filter (covers x) ws) = 1"
proof (induction ws arbitrary: a)
  case Nil
  then show ?case by simp
next
  case (Cons w ws)
  show ?case
  proof (cases "x \<le> fst (snd (snd w))")
    case True
    then have "filter (covers x) ws = []" using Cons.prems(1) chained_before [of "fst (snd (snd w))" ws x] by simp
    moreover have "covers x w" using Cons.prems True by (simp add: covers_def)
    ultimately show ?thesis by simp
  next
    case False
    then have "ws \<noteq> []" using Cons.prems(4) by auto
    then have "length (filter (covers x) ws) = 1" using Cons.IH [of "fst (snd (snd w))"] Cons.prems False by simp
    moreover have "\<not> covers x w" using False by (simp add: covers_def)
    ultimately show ?thesis by simp
  qed
qed

text \<open>After a check that parsed, the window reaches the instant of the last evaluation.\<close>

lemma ensure_valid:
  "ce_valid ce schedule \<Longrightarrow> \<exists>t ts1. ensure_cron_tracker ce ts camera schedule = (Some t, ts1) \<and> ct_schedule t = schedule \<and>
     ct_last_checked t = (case ts camera of Some u \<Rightarrow> ct_last_checked u | None \<Rightarrow> None)"
  by (simp add: ensure_cron_tracker_def cron_tracker_new_def Let_def split: option.split)

lemma cron_check_valid:
  assumes "ce_valid ce schedule" and "\<And>t. ts camera = Some t \<Longrightarrow> ct_last_checked t = l"
    and "ts camera = None \<Longrightarrow> l = None"
  obtains t due t1 where "fst (ensure_cron_tracker ce ts camera schedule) = Some t" "ct_last_checked t = l"
    "ct_schedule t = schedule" "is_due ce now t = (due, t1)"
    "cron_check ce camera schedule now ts = (Some (due, t1), snd (cron_check ce camera schedule now ts))"
    "snd (cron_check ce camera schedule now ts) camera = Some t1"
proof -
  obtain t ts1 where e: "ensure_cron_tracker ce ts camera schedule = (Some t, ts1)"
    "ct_last_checked t = l" "ct_schedule t = schedule"
    using ensure_valid [OF assms(1), of ts camera] assms(2,3) by (auto split: option.splits)
  obtain due t1 where "is_due ce now t = (due, t1)" by force
  then show ?thesis using that e by (simp add: cron_check_def)
qed

lemma is_due_cases:
  assumes "is_due ce now t = (due, t1)" and "answers ce occ"
  shows "(\<not> (window_start t now < now \<and> ct_last_checked t1 = Some now) \<and> t1 = t) \<or>
    (window_start t now < now \<and> ct_last_checked t1 = Some now \<and>
     (due \<longleftrightarrow> (\<exists>x \<in> occ (ct_schedule t). window_start t now < x \<and> x \<le> now)))"
proof (cases "now \<le> window_start t now")
  case True
  then show ?thesis using assms(1) by (auto simp: is_due_def)
next
  case False
  show ?thesis
  proof (cases "ce_next ce now (ct_schedule t) (window_start t now)")
    case None
    then have "t1 = t" using assms(1) False by (simp add: is_due_def)
    moreover have "ct_last_checked t \<noteq> Some now" using False by (auto simp: window_start_def)
    ultimately show ?thesis by simp
  next
    case (Some n)
    then have n: "n \<in> occ (ct_schedule t)" "window_start t now < n"
      "\<forall>x \<in> occ (ct_schedule t). window_start t now < x \<longrightarrow> n \<le> x"
      using assms(2) by (auto simp: answers_def)
    have "due \<longleftrightarrow> n \<le> now" "ct_last_checked t1 = Some now"
      using assms(1) False Some by (auto simp: is_due_def)
    then show ?thesis using n False by force
  qed
qed

lemma cron_windows_chained:
  assumes "answers ce occ"
  shows "\<forall>c \<in> set calls. ce_valid ce (fst c) \<Longrightarrow> (\<And>t. ts camera = Some t \<Longrightarrow> ct_last_checked t = l) \<Longrightarrow>
    (ts camera = None \<Longrightarrow> l = None) \<Longrightarrow> ws = cron_windows ce camera ts calls \<Longrightarrow>
    (\<forall>(s, a, b, fired) \<in> set ws. fired \<longleftrightarrow> (\<exists>x \<in> occ s. a < x \<and> x \<le> b)) \<and>
    (ws \<noteq> [] \<longrightarrow> chained (case l of Some a \<Rightarrow> a | None \<Rightarrow> fst (snd (hd ws))) ws)"
proof (induction calls arbitrary: ts l ws)
  case Nil
  then show ?case by simp
next
  case (Cons c calls)
  obtain schedule now where c: "c = (schedule, now)" by force
  have v: "ce_valid ce schedule" using Cons.prems(1) c by simp
  obtain t due t1 where k: "fst (ensure_cron_tracker ce ts camera schedule) = Some t" "ct_last_checked t = l"
    "ct_schedule t = schedule" "is_due ce now t = (due, t1)"
    "cron_check ce camera schedule now ts = (Some (due, t1), snd (cron_check ce camera schedule now ts))"
    "snd (cron_check ce camera schedule now ts) camera = Some t1"
    using cron_check_valid [OF v Cons.prems(2,3)] by metis
  define ts1 where "ts1 = snd (cron_check ce camera schedule now ts)"
  define rest where "rest = cron_windows ce camera ts1 calls"
  have ih: "(\<forall>(s, a, b, fired) \<in> set rest. fired \<longleftrightarrow> (\<exists>x \<in> occ s. a < x \<and> x \<le> b)) \<and>
      (rest \<noteq> [] \<longrightarrow> chained (case ct_last_checked t1 of Some a \<Rightarrow> a | None \<Rightarrow> fst (snd (hd rest))) rest)"
    by (rule Cons.IH [where ts = ts1]) (use Cons.prems(1) k(6) in \<open>auto simp: ts1_def rest_def\<close>)
  have ws: "ws = (if window_start t now < now \<and> ct_last_checked t1 = Some now
      then (schedule, window_start t now, now, due) # rest else rest)"
    using Cons.prems(4) c k(1) by (simp add: k(5) [folded ts1_def] rest_def Let_def)
  show ?case
    using is_due_cases [OF k(4) assms]
  proof (elim disjE conjE)
    assume "\<not> (window_start t now < now \<and> ct_last_checked t1 = Some now)" "t1 = t"
    then have "ws = rest" "ct_last_checked t1 = l" using ws k(2) by auto
    with ih show ?thesis by (cases l) simp_all
  next
    assume a: "window_start t now < now" "ct_last_checked t1 = Some now"
      "due \<longleftrightarrow> (\<exists>x \<in> occ (ct_schedule t). window_start t now < x \<and> x \<le> now)"
    have "window_start t now = (case l of Some a \<Rightarrow> a | None \<Rightarrow> window_start t now)"
      using k(2) by (simp add: window_start_def split: option.split)
    then show ?thesis using ws ih a k(2,3) by (cases "rest = []") (auto split: option.splits)
  qed
qed

text \<open>Only the camera's own tracker matters, and a tracker in the map always holds an expression that parses.\<close>

lemma cron_check_local:
  assumes "ts camera = ts' camera"
  shows "fst (ensure_cron_tracker ce ts camera schedule) = fst (ensure_cron_tracker ce ts' camera schedule)"
    and "fst (cron_check ce camera schedule now ts) = fst (cron_check ce camera schedule now ts')"
    and "snd (cron_check ce camera schedule now ts) camera = snd (cron_check ce camera schedule now ts') camera"
  using assms
  by (auto simp: cron_check_def ensure_cron_tracker_def Let_def case_prod_beta split: option.split)

lemma cron_windows_local:
  "ts camera = ts' camera \<Longrightarrow> cron_windows ce camera ts calls = cron_windows ce camera ts' calls"
proof (induction calls arbitrary: ts ts')
  case Nil
  then show ?case by simp
next
  case (Cons c calls)
  obtain s now where c: "c = (s, now)" by force
  note l = cron_check_local [where ts = ts and ts' = ts' and camera = camera and ce = ce and schedule = s, OF Cons.prems]
  have rest: "cron_windows ce camera (snd (cron_check ce camera s now ts)) calls =
      cron_windows ce camera (snd (cron_check ce camera s now ts')) calls"
    using Cons.IH l(3) by blast
  show ?case unfolding c cron_windows.simps Let_def case_prod_beta l(1,2) rest by (rule refl)
qed

definition parsed_tracker :: "cron_env \<Rightarrow> trackers \<Rightarrow> uuid \<Rightarrow> bool" where
  "parsed_tracker ce ts camera \<longleftrightarrow> (\<forall>t. ts camera = Some t \<longrightarrow> ce_valid ce (ct_schedule t))"

lemma is_due_schedule: "ct_schedule (snd (is_due ce now t)) = ct_schedule t"
  by (simp add: is_due_def split: option.split)

lemma cron_check_parsed:
  "parsed_tracker ce ts camera \<Longrightarrow> parsed_tracker ce (snd (cron_check ce camera schedule now ts)) camera"
  by (auto simp: parsed_tracker_def cron_check_def ensure_cron_tracker_def cron_tracker_new_def Let_def
      case_prod_beta is_due_schedule split: option.splits if_splits)

text \<open>An expression that does not parse removes the tracker, so the checks after it start afresh.\<close>

lemma invalid_check_forgets:
  assumes "parsed_tracker ce ts camera" and "\<not> ce_valid ce bad"
  shows "cron_check ce camera bad now ts = (None, ts(camera := None))"
  using assms
  by (auto simp: parsed_tracker_def cron_check_def ensure_cron_tracker_def cron_tracker_new_def
      split: option.split)

lemma cron_windows_invalid:
  "parsed_tracker ce ts camera \<Longrightarrow> \<not> ce_valid ce bad \<Longrightarrow>
     cron_windows ce camera ts (before @ (bad, now) # after) =
     cron_windows ce camera ts before @ cron_windows ce camera Map.empty after"
proof (induction before arbitrary: ts)
  case Nil
  have "cron_windows ce camera (ts(camera := None)) after = cron_windows ce camera Map.empty after"
    by (rule cron_windows_local) simp
  then show ?case using invalid_check_forgets [OF Nil.prems, of now] by (simp add: Let_def)
next
  case (Cons c before)
  obtain s m where c: "c = (s, m)" by force
  note ih = Cons.IH [OF cron_check_parsed [OF Cons.prems(1), of s m] Cons.prems(2)]
  obtain r ts1 where k: "cron_check ce camera s m ts = (r, ts1)" by force
  show ?case using ih c k by (simp add: Let_def split: option.split)
qed

text \<open>C28. Each cron occurrence fires exactly once, as long as every schedule in force parses. Whatever
  instants the scheduler checks a camera at (late, early, repeated, with the clock stepping back, with
  transient errors) and however its schedule is edited between them, to expressions that parse, the
  evaluated windows lie end to end, so every instant between the first window and the last is covered
  by exactly one of them, and a check fires exactly when the schedule then in force has an occurrence
  in its window. An expression that does not parse, which the API does not refuse, voids the guarantee:
  the check with it evaluates no window and drops the tracker, so the checks that follow evaluate the
  windows they would on a recorder just started, whatever was evaluated before.\<close>

theorem cron_occurrence_fires_once:
  assumes "answers ce occ"
  shows "(\<forall>calls ws x. (\<forall>(schedule, now) \<in> set calls. ce_valid ce schedule) \<and>
        ws = cron_windows ce camera Map.empty calls \<and> ws \<noteq> [] \<and>
        fst (snd (hd ws)) < x \<and> x \<le> fst (snd (snd (last ws))) \<longrightarrow>
        length (filter (covers x) ws) = 1 \<and>
        (\<forall>(s, a, b, fired) \<in> set ws. fired \<longleftrightarrow> (\<exists>o' \<in> occ s. a < o' \<and> o' \<le> b))) \<and>
     (\<forall>bad before t after. \<not> ce_valid ce bad \<longrightarrow>
        cron_windows ce camera Map.empty (before @ (bad, t) # after) =
        cron_windows ce camera Map.empty before @ cron_windows ce camera Map.empty after)"
proof -
  have once: "length (filter (covers x) ws) = 1 \<and>
      (\<forall>(s, a, b, fired) \<in> set ws. fired \<longleftrightarrow> (\<exists>o' \<in> occ s. a < o' \<and> o' \<le> b))"
    if h: "\<forall>(schedule, now) \<in> set calls. ce_valid ce schedule"
      "ws = cron_windows ce camera Map.empty calls" "ws \<noteq> []"
      "fst (snd (hd ws)) < x" "x \<le> fst (snd (snd (last ws)))" for calls ws x
  proof -
    have v: "\<forall>c \<in> set calls. ce_valid ce (fst c)" using h(1) by auto
    have "(\<forall>(s, a, b, fired) \<in> set ws. fired \<longleftrightarrow> (\<exists>x \<in> occ s. a < x \<and> x \<le> b)) \<and>
      (ws \<noteq> [] \<longrightarrow> chained (case None of Some a \<Rightarrow> a | None \<Rightarrow> fst (snd (hd ws))) ws)"
      by (rule cron_windows_chained [OF assms v _ _ h(2)]) simp_all
    then show ?thesis using chained_once [OF _ h(3-5)] h(3) by simp
  qed
  have "cron_windows ce camera Map.empty (before @ (bad, t) # after) =
      cron_windows ce camera Map.empty before @ cron_windows ce camera Map.empty after"
    if "\<not> ce_valid ce bad" for bad before t after
    by (rule cron_windows_invalid [OF _ that]) (simp add: parsed_tracker_def)
  moreover have "\<forall>calls ws x. (\<forall>(schedule, now) \<in> set calls. ce_valid ce schedule) \<and>
        ws = cron_windows ce camera Map.empty calls \<and> ws \<noteq> [] \<and>
        fst (snd (hd ws)) < x \<and> x \<le> fst (snd (snd (last ws))) \<longrightarrow>
        length (filter (covers x) ws) = 1 \<and>
        (\<forall>(s, a, b, fired) \<in> set ws. fired \<longleftrightarrow> (\<exists>o' \<in> occ s. a < o' \<and> o' \<le> b))"
    by (intro allI impI, elim conjE, rule once)
  ultimately show ?thesis by simp
qed

subsection \<open>The scheduled run keeps every segment\<close>

lemma archive_loop_disposes:
  assumes "\<forall>n. \<not> ve_stat_fails e n" and "storage_of e aid = Some ast"
  shows "sound e (c, w) \<Longrightarrow> distinct (map sg_id segs) \<Longrightarrow> set segs \<subseteq> set (index w) \<Longrightarrow>
    disposes e True {} UNIV (c, w) (snd (archive_loop e (st_path ast) aid segs ensured c w))"
proof (induction segs arbitrary: ensured c w)
  case Nil
  then show ?case by simp
next
  case (Cons seg segs)
  obtain y c1 w1 where r: "resolve_storage e (sg_storage seg) c w = (y, c1, w1)" by (metis prod_cases3)
  have w1: "index w1 = index w" using resolve_storage_frame(2) [of e "sg_storage seg" c w] r by simp
  have h1: "handles e True {} UNIV seg (c, w) (c1, w1)" by (rule resolve_handles [OF r])
  have go: "disposes e True {} UNIV (c, w) (snd (archive_loop e (st_path ast) aid segs en c1 w3))"
    if "handles e True {} UNIV seg (c, w) (c1, w3)" for en w3
  proof -
    have d: "disposes e True {} UNIV (c, w) (c1, w3)" using that by (simp add: handles_def)
    have "set segs \<subseteq> set (index w3)"
      using that Cons.prems(2,3) by (fastforce simp: handles_def others_stay_def image_iff)
    then have "disposes e True {} UNIV (c1, w3) (snd (archive_loop e (st_path ast) aid segs en c1 w3))"
      using Cons.IH [OF sound_after [OF d Cons.prems(1) assms(1)]] Cons.prems(2) by simp
    then show ?thesis using rtranclp_trans [OF d] by blast
  qed
  have stop: "disposes e True {} UNIV (c, w) (c1, w3)" if "handles e True {} UNIV seg (c, w) (c1, w3)" for w3
    using that by (simp add: handles_def)
  show ?case
  proof (cases "ve_late e (draws w)")
    case False
    show ?thesis
    proof (cases y)
      case (Inl er)
      then have "archive_one_segment e seg (st_path ast) aid c w = (Inl er, c1, w1)"
        using r by (simp add: archive_one_segment_def)
      moreover have "handles e True {} UNIV seg (c, w) (c1, raise_storage_event e w1)"
        using handles_trans [OF h1 handles_quiet] by simp
      ultimately show ?thesis using False go [OF h1] stop by (cases er) simp_all
    next
      case (Inr st)
      have st: "storage_of e (sg_storage seg) = Some st"
        using resolve_storage_ok(2) [of e c "sg_storage seg" w st c1 w1] Cons.prems(1) r Inr by (simp add: sound_def)
      obtain x w2 where mv: "move_segment_to_archive e seg (st_path st) (st_path ast) aid w1 = (x, w2)" by force
      have h2: "handles e True {} UNIV seg (c, w) (c1, w2)"
        using handles_trans [OF h1 move_handles [OF _ st assms(2) mv]] Cons.prems(3) w1 by simp
      have one: "archive_one_segment e seg (st_path ast) aid c w = (x, c1, w2)"
        using r Inr mv by (simp add: archive_one_segment_def)
      have "handles e True {} UNIV seg (c, w) (c1, ensure_marker e (st_path ast) w2)"
        using handles_trans [OF h2 handles_step [OF disposal_step.marker]] storage_of_mem [OF assms(2)]
        by (simp add: others_stay_def)
      moreover have "handles e True {} UNIV seg (c, w) (c1, raise_storage_event e w2)"
        using handles_trans [OF h2 handles_quiet] by simp
      ultimately show ?thesis
        using False one go [OF h2] go stop by (auto split: sum.split move_error.split)
    qed
  qed simp
qed

lemma archive_camera_disposes:
  assumes "tidy e (index w)" and "\<forall>n. \<not> ve_stat_fails e n"
  shows "\<exists>c. disposes e True {} UNIV (ctx_new, w) (c, snd (archive_camera e camera w))"
proof -
  have quiet: "\<exists>c. disposes e True {} UNIV (ctx_new, w) (c, v)"
    if "disk v = disk w" "index v = index w" "tripped v = tripped w" for v
    using disposes_quiet [of v w e True "{}" UNIV ctx_new] that by auto
  obtain g w1 where gs: "get_storage e (the (pol_archive_storage_id (snd camera))) w = (g, w1)" by force
  have w1: "disk w1 = disk w" "index w1 = index w" "tripped w1 = tripped w"
    using get_storage_frame [of e "the (pol_archive_storage_id (snd camera))" w] gs by simp_all
  show ?thesis
  proof (cases "pol_archive_storage_id (snd camera) \<noteq> None \<and> (\<exists>archive. g = Inr (Some archive))")
    case False
    then have "snd (archive_camera e camera w) = w \<or> snd (archive_camera e camera w) = w1"
      using gs by (auto simp: archive_camera_def archive_camera_bounded_def split: option.split sum.split)
    then show ?thesis using quiet [of w] quiet [OF w1] by auto
  next
    case True
    then obtain ast where ast: "pol_archive_storage_id (snd camera) \<noteq> None" "g = Inr (Some ast)" by auto
    have st: "storage_of e (st_id ast) = Some ast"
      using gs ast storage_of_mem [of e "the (pol_archive_storage_id (snd camera))" ast]
      by (auto simp: get_storage_def draw_def split: if_splits)
    obtain y w2 where dc: "destination_confirmed e ast w1 = (y, w2)" by force
    have w2: "disk w2 = disk w" "index w2 = index w" "tripped w2 = tripped w"
      using destination_frame [OF dc] w1 by simp_all
    let ?P = "\<lambda>s. sg_camera s = fst camera \<and> sg_stage s = LiveStage \<and>
        sg_start s < ve_now e - hours (pol_live_retention_hours (snd camera))"
    obtain z w3 where q: "query e archive_list_limit ?P w2 = (z, w3)" by force
    have t2: "tidy e (index w2)" using assms(1) w2 by simp
    have w3: "disk w3 = disk w" "index w3 = index w" "tripped w3 = tripped w"
      using q w2 by (auto simp: query_def draw_def)
    have run: "\<exists>c. disposes e True {} UNIV (ctx_new, w) (c, snd (snd (archive_loop e (st_path ast) (st_id ast) segs False ctx_new w3)))"
      if z: "z = Inr segs" for segs
    proof -
      note l = listed_ok [OF t2 q [unfolded z]]
      have "disposes e True {} UNIV (ctx_new, w3) (snd (archive_loop e (st_path ast) (st_id ast) segs False ctx_new w3))"
        by (rule archive_loop_disposes [OF assms(2) st]) (use l w2 w3 assms(1) sound_start [of e w3] in auto)
      from rtranclp_trans [OF disposes_quiet this] show ?thesis using w3 by (metis prod.collapse subset_refl)
    qed
    have "snd (archive_camera e camera w) \<in> {w2, raise_storage_event e w2, w3} \<or>
        (\<exists>segs. z = Inr segs \<and> snd (archive_camera e camera w) =
           snd (snd (archive_loop e (st_path ast) (st_id ast) segs False ctx_new w3)))"
      using ast gs dc q
      by (auto simp: archive_camera_def archive_camera_bounded_def list_live_segments_for_archive_limited_def
          case_prod_beta split: option.splits sum.splits bool.splits)
    then show ?thesis using run quiet [OF w2] quiet [of "raise_storage_event e w2"] quiet [OF w3] w2 by auto
  qed
qed

subsection \<open>A tick as a sequence of jobs\<close>

datatype tick_job =
  Sweep sweep_job
| Evict recording_policy
| ArchiveRun camera_row
| ListCameras "camera_row list"

fun run_job :: "vault_env \<Rightarrow> tick_job \<Rightarrow> vault \<Rightarrow> vault" where
  "run_job e (Sweep j) w = run_sweep e j w"
| "run_job e (Evict p) w = snd (policy_size_eviction_sweep e p w)"
| "run_job e (ArchiveRun camera) w = snd (archive_camera e camera w)"
| "run_job e (ListCameras cams) w = snd (list_cameras_all e cams w)"

text \<open>The segments a job may lose, from the settings.\<close>

fun may_lose :: "vault_env \<Rightarrow> tick_job \<Rightarrow> segment \<Rightarrow> bool" where
  "may_lose e (Sweep j) s = deletable e j s"
| "may_lose e (Evict p) s = evictable e p s"
| "may_lose e (ArchiveRun camera) s = False"
| "may_lose e (ListCameras cams) s = False"

definition run_jobs :: "vault_env \<Rightarrow> tick_job list \<Rightarrow> vault \<Rightarrow> vault" where
  "run_jobs e js w = fold (run_job e) js w"

definition tick_jobs :: "camera_row list \<Rightarrow> tick_job set" where
  "tick_jobs cams = {Sweep (LiveRetention cams), ListCameras cams} \<union>
     (\<Union>(i, p) \<in> set cams. {Sweep (ArchiveFloor p None), Evict p, Sweep (MaxRetention p), ArchiveRun (i, p),
        Sweep (ArchiveRetention (i, p))})"

lemma run_jobs_simps [simp]:
  "run_jobs e [] w = w" "run_jobs e (j # js) w = run_jobs e js (run_job e j w)"
  "run_jobs e (js @ ks) w = run_jobs e ks (run_jobs e js w)"
  by (simp_all add: run_jobs_def)

lemma run_job_keeps:
  assumes "tidy e (index w)" and "distinct (map st_id (ve_storages e))" and "\<forall>n. \<not> ve_stat_fails e n"
  shows "tidy e (index (run_job e j w))"
    and "content_at e w s b \<Longrightarrow> \<not> may_lose e j s \<Longrightarrow> survives e (run_job e j w) s b"
proof -
  have "tidy e (index (run_job e j w)) \<and>
    (content_at e w s b \<longrightarrow> \<not> may_lose e j s \<longrightarrow> survives e (run_job e j w) s b)"
  proof (cases j)
    case (Sweep k)
    have "content_at e w s b \<Longrightarrow> \<not> deletable e k s \<Longrightarrow> content_at e (run_sweep e k w) s b"
      using run_sweep_keeps(2) [OF assms(1) content_at_id] unmoved_content by blast
    then show ?thesis using run_sweep_keeps(1) [OF assms(1)] Sweep by (auto simp: survives_def)
  next
    case (Evict p)
    obtain r w' where run: "policy_size_eviction_sweep e p w = (r, w')" by force
    obtain x w1 where lp: "live_pass e p w = (x, w1)" by force
    have e1: "evicts e (pol_archive_enabled p) p w w1" using live_pass_evicts [OF assms(1,2), of p] assms(3) lp by simp
    have "w' = w1 \<or> w' = snd (archive_cap_pass e p w1)"
      using run lp by (auto simp: policy_size_eviction_sweep_def split: sum.splits)
    then have "tidy e (index w')"
      using evicts_keeps(1) [OF archive_cap_pass_evicts] evicts_keeps(1) [OF e1 assms(1)] assms(3) by auto
    then show ?thesis using eviction_keeps(3) [OF assms(1,2) _ run] assms(3) Evict run by auto
  next
    case (ArchiveRun camera)
    obtain c where "disposes e True {} UNIV (ctx_new, w) (c, run_job e j w)"
      using archive_camera_disposes [OF assms(1,3), of camera] ArchiveRun by auto
    from disposes_good [OF this sound_start [OF assms(1)]] assms(3)
    have g: "good_step e True UNIV (ctx_new, w) (c, run_job e j w)" by blast
    then show ?thesis using content_at_id by (auto simp: good_step_def sound_def preserves_def)
  next
    case (ListCameras cams)
    then show ?thesis using assms(1) list_cameras_frame [of e cams w]
      by (simp add: survives_def content_at_def)
  qed
  then show "tidy e (index (run_job e j w))"
    "content_at e w s b \<Longrightarrow> \<not> may_lose e j s \<Longrightarrow> survives e (run_job e j w) s b" by simp_all
qed

text \<open>A segment and what it becomes when it is archived.\<close>

definition forms :: "segment \<Rightarrow> segment set" where
  "forms s = {s} \<union> {t. \<exists>aid rel. t = archived aid rel s}"

lemma forms_iff: "survives e w s b \<longleftrightarrow> (\<exists>t \<in> forms s. content_at e w t b)"
  by (auto simp: survives_def forms_def)

lemma forms_archived:
  assumes "t \<in> forms s"
  shows "forms t \<subseteq> forms s"
proof
  fix u assume u: "u \<in> forms t"
  consider "t = s" | aid rel where "t = archived aid rel s" using assms by (auto simp: forms_def)
  then show "u \<in> forms s"
  proof cases
    case 1
    then show ?thesis using u by simp
  next
    case 2
    consider "u = t" | aid' rel' where "u = archived aid' rel' t" using u by (auto simp: forms_def)
    then show ?thesis using 2 assms by cases (simp_all add: forms_def, blast)
  qed
qed

lemma run_jobs_keep:
  assumes "distinct (map st_id (ve_storages e))" and "\<forall>n. \<not> ve_stat_fails e n"
  shows "tidy e (index w) \<Longrightarrow> survives e w s b \<Longrightarrow> \<forall>j \<in> set js. \<forall>t \<in> forms s. \<not> may_lose e j t \<Longrightarrow>
    tidy e (index (run_jobs e js w)) \<and> survives e (run_jobs e js w) s b"
proof (induction js arbitrary: w)
  case Nil
  then show ?case by simp
next
  case (Cons j js)
  obtain t where t: "t \<in> forms s" "content_at e w t b" using Cons.prems(2) by (auto simp: forms_iff)
  have "survives e (run_job e j w) t b"
    by (rule run_job_keeps(2) [OF Cons.prems(1) assms t(2)]) (use Cons.prems(3) t(1) in simp)
  then have "survives e (run_job e j w) s b" using forms_archived [OF t(1)] by (auto simp: forms_iff)
  then show ?case using Cons.IH [OF run_job_keeps(1) [OF Cons.prems(1) assms]] Cons.prems(3) by simp
qed

lemma fold_jobs:
  assumes "\<And>x w. x \<in> set xs \<Longrightarrow> \<exists>js. set js \<subseteq> J \<and> f x w = run_jobs e js w"
  shows "\<exists>js. set js \<subseteq> J \<and> fold f xs w = run_jobs e js w"
  using assms
proof (induction xs arbitrary: w)
  case Nil
  then show ?case by (intro exI [of _ "[]"]) simp
next
  case (Cons x xs)
  obtain js where js: "set js \<subseteq> J" "f x w = run_jobs e js w" using Cons.prems [of x w] by auto
  obtain ks where ks: "set ks \<subseteq> J" "fold f xs (f x w) = run_jobs e ks (f x w)"
    using Cons.IH [of "f x w"] Cons.prems by auto
  show ?case by (rule exI [of _ "js @ ks"]) (use js ks in simp)
qed

lemma distinct_policies_subset: "set (distinct_policies cams) \<subseteq> snd ` set cams"
proof -
  have "set (fold (\<lambda>(_, p) ps. if pol_id p \<in> pol_id ` set ps then ps else p # ps) cams acc) \<subseteq>
      set acc \<union> snd ` set cams" for acc
  proof (induction cams arbitrary: acc)
    case Nil
    then show ?case by simp
  next
    case (Cons c cams)
    show ?case using Cons.IH [of acc] Cons.IH [of "snd c # acc"] by (cases c) auto
  qed
  from this [of "[]"] show ?thesis by (simp add: distinct_policies_def)
qed

lemma camera_phase_jobs:
  "\<exists>js. set js \<subseteq> (\<Union>c \<in> set cams. {ArchiveRun c, Sweep (ArchiveRetention c)}) \<and>
     snd (camera_phase ce e cams (ts, w)) = run_jobs e js w"
proof (induction cams arbitrary: ts w)
  case Nil
  then show ?case by (intro exI [of _ "[]"]) (simp add: camera_phase_def)
next
  case (Cons c cams)
  define x where "x = (if pol_archive_enabled (snd c) then run_cron_archive ce e c (ve_now e) ts w
      else (ts, snd (archive_retention_sweep e c w)))"
  have "\<exists>js. set js \<subseteq> {ArchiveRun c, Sweep (ArchiveRetention c)} \<and> snd x = run_jobs e js w"
  proof -
    have "snd x = w \<or> snd x = snd (archive_retention_sweep e c w) \<or>
        snd x = snd (archive_retention_sweep e c (snd (archive_camera e c w)))"
      by (simp add: x_def run_cron_archive_def case_prod_beta Let_def split: option.split)
    moreover have "w = run_jobs e [] w" "snd (archive_retention_sweep e c w) = run_jobs e [Sweep (ArchiveRetention c)] w"
      "snd (archive_retention_sweep e c (snd (archive_camera e c w))) =
         run_jobs e [ArchiveRun c, Sweep (ArchiveRetention c)] w" by simp_all
    ultimately show ?thesis
      by (metis (no_types, lifting) empty_set empty_subsetI insert_subset list.simps(15) insertI1 insertI2)
  qed
  then obtain js where js: "set js \<subseteq> {ArchiveRun c, Sweep (ArchiveRetention c)}" "snd x = run_jobs e js w" by blast
  obtain ks where ks: "set ks \<subseteq> (\<Union>c \<in> set cams. {ArchiveRun c, Sweep (ArchiveRetention c)})"
    "snd (camera_phase ce e cams (fst x, snd x)) = run_jobs e ks (snd x)" using Cons.IH by blast
  have "camera_phase ce e (c # cams) (ts, w) = camera_phase ce e cams (fst x, snd x)"
    by (simp add: camera_phase_def x_def)
  then show ?case using js ks by (intro exI [of _ "js @ ks"]) auto
qed

lemma floor_phase_jobs:
  assumes "set ps \<subseteq> snd ` set cams"
  shows "\<exists>js. set js \<subseteq> tick_jobs cams \<and> floor_phase e ps w = run_jobs e js w"
  unfolding floor_phase_def
proof (rule fold_jobs)
  fix p v assume "p \<in> set (filter pol_archive_enabled ps)"
  then obtain i where "(i, p) \<in> set cams" using assms by auto
  then show "\<exists>js. set js \<subseteq> tick_jobs cams \<and> snd (archive_floor_sweep e p v) = run_jobs e js v"
    by (intro exI [of _ "[Sweep (ArchiveFloor p None)]"]) (auto simp: tick_jobs_def archive_floor_sweep_def)
qed

lemma limits_phase_jobs:
  assumes "set ps \<subseteq> snd ` set cams"
  shows "\<exists>js. set js \<subseteq> tick_jobs cams \<and> limits_phase e ps w = run_jobs e js w"
  unfolding limits_phase_def
proof (rule fold_jobs)
  fix p v assume "p \<in> set ps"
  then obtain i where "(i, p) \<in> set cams" using assms by auto
  then show "\<exists>js. set js \<subseteq> tick_jobs cams \<and>
      snd (max_retention_sweep e p (snd (policy_size_eviction_sweep e p v))) = run_jobs e js v"
    by (intro exI [of _ "[Evict p, Sweep (MaxRetention p)]"]) (auto simp: tick_jobs_def)
qed

lemma list_cameras_same: "list_cameras_all e cams w = (Inr cs, w1) \<Longrightarrow> cs = cams"
  by (simp add: list_cameras_all_def draw_def split: if_splits)

lemma scheduler_tick_jobs:
  "\<exists>js. set js \<subseteq> tick_jobs cams \<and> snd (scheduler_tick ce e cams ts w) = run_jobs e js w"
proof -
  obtain x w1 where lc: "list_cameras_all e cams (snd (live_retention_sweep e cams w)) = (x, w1)" by force
  let ?start = "[Sweep (LiveRetention cams), ListCameras cams]"
  have start: "w1 = run_jobs e ?start w" "set ?start \<subseteq> tick_jobs cams" using lc by (simp_all add: tick_jobs_def)
  show ?thesis
  proof (cases x)
    case (Inl er)
    then have "snd (scheduler_tick ce e cams ts w) = w1" using lc by (simp add: scheduler_tick_def)
    then show ?thesis using start by blast
  next
    case (Inr cs)
    have cs: "cs = cams" using list_cameras_same lc Inr by blast
    let ?ps = "distinct_policies cams"
    note ps = distinct_policies_subset [of cams]
    obtain fs where f: "set fs \<subseteq> tick_jobs cams" "floor_phase e ?ps w1 = run_jobs e fs w1"
      using floor_phase_jobs [OF ps] by blast
    obtain ks where k: "set ks \<subseteq> tick_jobs cams"
      "snd (camera_phase ce e cams (ts, floor_phase e ?ps w1)) = run_jobs e ks (floor_phase e ?ps w1)"
      using camera_phase_jobs [of cams ce e ts "floor_phase e ?ps w1"] unfolding tick_jobs_def by blast
    obtain ls where l: "set ls \<subseteq> tick_jobs cams"
      "limits_phase e ?ps (run_jobs e ks (floor_phase e ?ps w1)) = run_jobs e ls (run_jobs e ks (floor_phase e ?ps w1))"
      using limits_phase_jobs [OF ps] by blast
    have "snd (scheduler_tick ce e cams ts w) =
        limits_phase e ?ps (snd (camera_phase ce e cams (ts, floor_phase e ?ps w1)))"
      using lc Inr cs by (simp add: scheduler_tick_def case_prod_beta Let_def)
    also have "\<dots> = run_jobs e (?start @ fs @ ks @ ls) w" using f k l start(1) by simp
    finally show ?thesis using f k l start(2) by (intro exI [of _ "?start @ fs @ ks @ ls"]) auto
  qed
qed

lemma protected_not_lost:
  assumes "protected e s" and "t \<in> forms s"
  shows "\<not> may_lose e j t"
proof -
  have "protected e t" using assms by (auto simp: forms_def protected_def)
  then show ?thesis using protected_not_deletable by (cases j) (auto simp: evictable_def)
qed

text \<open>C7. A tick of the scheduler loses only what the settings let some job lose, provided the stat
  calls of the same-file guard answer. One tick runs live retention, the archive floors, the scheduled
  archive runs, archive retention, the size caps and the retention ceiling over all cameras; whatever
  reads, writes, copies, deletions and queries fail on the way, a segment with its file on disk that is
  under an active bookmark, or that no job of the tick may lose (as it stands or once archived), is
  still in the index with equal content afterwards, in place or archived, and the index stays
  well-formed. What a job may lose is unprotected footage of its own camera or policy: past the
  retention of its stage or the retention ceiling, or, for an archive floor, on an archive disk that is
  below its floor, or evictable under a size cap or the live floor.\<close>

theorem scheduler_tick_keeps_footage:
  assumes "tidy e (index w)" and "distinct (map st_id (ve_storages e))" and "\<forall>n. \<not> ve_stat_fails e n"
    and "content_at e w s b"
    and "protected e s \<or> (\<forall>j \<in> tick_jobs cams. \<forall>t \<in> forms s. \<not> may_lose e j t)"
    and "scheduler_tick ce e cams ts w = (ts', w')"
  shows "survives e w' s b \<and> tidy e (index w')"
proof -
  obtain js where js: "set js \<subseteq> tick_jobs cams" "w' = run_jobs e js w"
    using scheduler_tick_jobs [of cams ce e ts w] assms(6) by auto
  have "\<forall>j \<in> set js. \<forall>t \<in> forms s. \<not> may_lose e j t"
    using assms(5) js(1) protected_not_lost by blast
  then show ?thesis
    using run_jobs_keep [OF assms(2,3,1), of s b js] assms(4) js(2) by (auto simp: survives_def)
qed

subsection \<open>Concrete runs\<close>

definition demo_cron :: cron_env where
  "demo_cron = \<lparr>ce_valid = (\<lambda>s. s \<noteq> ''every minute''), ce_next = (\<lambda>now s a. Some ((a div seconds 60 + 1) * seconds 60))\<rparr>"

lemma demo_cron_answers: "answers demo_cron (\<lambda>_. range (\<lambda>k. k * seconds 60))"
proof -
  have p: "(0::int) < seconds 60" by (simp add: seconds_def)
  have "a < (a div seconds 60 + 1) * seconds 60" for a :: int
  proof -
    have "a = (a div seconds 60) * seconds 60 + a mod seconds 60" by (rule div_mult_mod_eq [symmetric])
    then have "a < (a div seconds 60) * seconds 60 + seconds 60" using pos_mod_bound [OF p, of a] by linarith
    then show ?thesis by (simp add: distrib_right)
  qed
  moreover have "(a div seconds 60 + 1) * seconds 60 \<le> k * seconds 60" if "a < k * seconds 60" for a k :: int
  proof -
    have "a = (a div seconds 60) * seconds 60 + a mod seconds 60" by (rule div_mult_mod_eq [symmetric])
    then have "(a div seconds 60) * seconds 60 < k * seconds 60"
      using that pos_mod_sign [OF p, of a] by linarith
    then have "a div seconds 60 < k" using p by simp
    then show ?thesis using p by (intro mult_right_mono) auto
  qed
  ultimately show ?thesis by (auto simp: answers_def demo_cron_def)
qed

text \<open>
  Three checks with an expression that parses fire the occurrence at 180 s once. An edit to an
  expression that does not parse and back, within the minute, fires the occurrence at 60 s twice.
\<close>

theorem cron_occurrence_fires_once_witness:
  "length (filter (covers (seconds 180)) (cron_windows demo_cron 7 Map.empty
     [(''* * * * *'', seconds 90), (''* * * * *'', seconds 30), (''* * * * *'', seconds 200)])) = 1 \<and>
   length (filter (\<lambda>w. covers (seconds 60) w \<and> snd (snd (snd w))) (cron_windows demo_cron 7 Map.empty
     [(''* * * * *'', seconds 90), (''every minute'', seconds 91), (''* * * * *'', seconds 92)])) = 2"
proof -
  let ?calls = "[(''* * * * *'', seconds 90), (''* * * * *'', seconds 30), (''* * * * *'', seconds 200)]"
  note evaluate = ensure_cron_tracker_def cron_tracker_new_def cron_check_def is_due_def window_start_def
    demo_cron_def seconds_def Let_def
  let ?w = "cron_windows demo_cron 7 Map.empty ?calls"
  have ws: "?w = [(''* * * * *'', seconds 59, seconds 90, True), (''* * * * *'', seconds 90, seconds 200, True)]"
    by (simp add: evaluate)
  have single: "cron_windows demo_cron 7 Map.empty [(''* * * * *'', seconds 90)] =
      [(''* * * * *'', seconds 59, seconds 90, True)]"
    "cron_windows demo_cron 7 Map.empty [(''* * * * *'', seconds 92)] =
      [(''* * * * *'', seconds 59, seconds 92, True)]" by (simp_all add: evaluate)
  note windows = cron_occurrence_fires_once [OF demo_cron_answers, of 7]
  have parses: "\<forall>(schedule, now) \<in> set ?calls. ce_valid demo_cron schedule" by (simp add: demo_cron_def)
  have ends: "?w \<noteq> []" "fst (snd (hd ?w)) < seconds 180" "seconds 180 \<le> fst (snd (snd (last ?w)))"
    unfolding ws by (simp_all add: seconds_def)
  have one: "length (filter (covers (seconds 180)) ?w) = 1"
    using windows [THEN conjunct1, rule_format, of ?calls ?w "seconds 180"] parses ends by blast
  have "\<not> ce_valid demo_cron ''every minute''" by (simp add: demo_cron_def)
  from windows [THEN conjunct2, rule_format, OF this, of "[(''* * * * *'', seconds 90)]" "seconds 91"
      "[(''* * * * *'', seconds 92)]"]
  have "cron_windows demo_cron 7 Map.empty
      [(''* * * * *'', seconds 90), (''every minute'', seconds 91), (''* * * * *'', seconds 92)] =
      [(''* * * * *'', seconds 59, seconds 90, True), (''* * * * *'', seconds 59, seconds 92, True)]"
    by (simp only: append.simps single)
  then show ?thesis using one by (simp add: covers_def seconds_def)
qed

theorem scheduler_tick_keeps_footage_witness:
  "let e = (demo_vault_env (\<lambda>_. Good) (\<lambda>_. False))\<lparr>ve_bookmarks := [demo_bookmark]\<rparr>
   in survives e (snd (scheduler_tick demo_cron e [(7, demo_ceiling)] Map.empty demo_vault)) (demo_segment 11) [1, 2, 3]"
proof -
  let ?e = "(demo_vault_env (\<lambda>_. Good) (\<lambda>_. False))\<lparr>ve_bookmarks := [demo_bookmark]\<rparr>"
  obtain ts' w' where run: "scheduler_tick demo_cron ?e [(7, demo_ceiling)] Map.empty demo_vault = (ts', w')" by force
  have "content_at ?e demo_vault (demo_segment 11) [1, 2, 3]"
    by (simp add: content_at_def spot_def storage_of_def demo_vault_simps)
  moreover have "protected ?e (demo_segment 11)"
    by (simp add: protected_def demo_bookmark_def demo_vault_simps seconds_def hours_def)
  ultimately show ?thesis
    using scheduler_tick_keeps_footage [OF demo_tidy(2) _ _ _ _ run] run
    by (simp add: demo_vault_env_def)
qed

end
