(* ===== verification/SourceHealth.thy ===== *)
theory SourceHealth
  imports Prelude
begin

text \<open>
  The fail-open health of a camera with several motion sources
  (\<open>services/recorder/src/source_health.rs\<close> and \<open>aggregate_health\<close> of \<open>motion.rs\<close>). The gate
  collapses the health of the enabled sources into one bool; the aggregator scans the health
  watches, remembers when each source went down and publishes changes.

  \<open>down_start\<close> is the abstract view of one source: when its current outage began, computed from
  the readings alone. The refinement lemma says that the aggregator's maps hold exactly that.
\<close>

datatype source_kind = Pixel | Frigate | Ha

datatype source_health = Healthy | Down instant

definition all_kinds :: "source_kind list" where
  "all_kinds = [Pixel, Frigate, Ha]"

lemma all_kinds_complete [simp]: "k \<in> set all_kinds"
  by (cases k) (simp_all add: all_kinds_def)

fun as_str :: "source_kind \<Rightarrow> string" where
  "as_str Pixel = ''pixel''"
| "as_str Frigate = ''frigate''"
| "as_str Ha = ''ha''"

definition default_source_down_grace :: int where
  "default_source_down_grace = seconds 60"

record fail_open_gate =
  grace :: int
  sources :: "source_kind \<Rightarrow> source_health option"

definition gate_new :: "source_kind list \<Rightarrow> instant \<Rightarrow> int \<Rightarrow> fail_open_gate" where
  "gate_new enabled now g =
     \<lparr>grace = g, sources = (\<lambda>k. if k \<in> set enabled then Some (Down now) else None)\<rparr>"

definition gate_set :: "fail_open_gate \<Rightarrow> source_kind \<Rightarrow> source_health \<Rightarrow> fail_open_gate" where
  "gate_set g source health =
     (case sources g source of
        Some _ \<Rightarrow> g\<lparr>sources := (sources g)(source \<mapsto> health)\<rparr>
      | None \<Rightarrow> g)"

definition gate_values :: "fail_open_gate \<Rightarrow> source_health list" where
  "gate_values g = List.map_filter (sources g) all_kinds"

definition down_past_grace :: "fail_open_gate \<Rightarrow> instant \<Rightarrow> source_health \<Rightarrow> bool" where
  "down_past_grace g now h = (case h of Down since \<Rightarrow> grace g \<le> now - since | Healthy \<Rightarrow> False)"

definition gate_healthy :: "fail_open_gate \<Rightarrow> instant \<Rightarrow> bool" where
  "gate_healthy g now =
     (if gate_values g = [] then False
      else let any_healthy = list_ex (\<lambda>h. h = Healthy) (gate_values g);
               any_down_past_grace = list_ex (down_past_grace g now) (gate_values g)
           in any_healthy \<and> \<not> any_down_past_grace)"

subsection \<open>The reason text\<close>

fun join :: "string \<Rightarrow> string list \<Rightarrow> string" where
  "join sep [] = []"
| "join sep [x] = x"
| "join sep (x # y # zs) = x @ sep @ join sep (y # zs)"

text \<open>The down sources sorted by name: frigate, ha, pixel.\<close>

definition fail_open_reason ::
  "(source_kind \<Rightarrow> bool option) \<Rightarrow> (source_kind \<Rightarrow> string option) \<Rightarrow> string" where
  "fail_open_reason last_healthy specific =
     (let down = filter (\<lambda>k. last_healthy k = Some False) [Frigate, Ha, Pixel] in
      if down = [] then ''motion detection unhealthy''
      else
        (let single = (length down = 1);
             explained = filter (\<lambda>k. specific k \<noteq> None) down;
             generic = map as_str (filter (\<lambda>k. specific k = None) down);
             parts = map (\<lambda>k. if single then the (specific k)
                              else as_str k @ '': '' @ the (specific k)) explained;
             tail = (case generic of
                       [] \<Rightarrow> []
                     | [one] \<Rightarrow> [one @ '' motion detection not delivering frames'']
                     | many \<Rightarrow> [join '', '' many @ '' motion sources not delivering frames''])
         in join ''; '' (parts @ tail)))"

subsection \<open>The aggregator\<close>

record aggregator =
  ag_enabled :: "source_kind list"
  ag_gate :: fail_open_gate
  ag_down_since :: "source_kind \<Rightarrow> instant option"
  ag_last_healthy :: "source_kind \<Rightarrow> bool option"
  ag_last_sent :: "bool option"
  ag_last_reason :: "string option"

text \<open>One evaluation reads the clock, the health watches (\<open>None\<close>: the sender is gone) and the known
  specific causes.\<close>

record reading =
  rd_now :: instant
  rd_health :: "source_kind \<Rightarrow> bool option"
  rd_specific :: "source_kind \<Rightarrow> string option"

record published =
  pb_sent :: "bool option"
  pb_persisted :: "(bool \<times> string option) option"

definition aggregator_new :: "source_kind list \<Rightarrow> instant \<Rightarrow> aggregator" where
  "aggregator_new enabled start =
     \<lparr>ag_enabled = enabled, ag_gate = gate_new enabled start default_source_down_grace,
      ag_down_since = (\<lambda>k. if k \<in> set enabled then Some start else None),
      ag_last_healthy = (\<lambda>k. if k \<in> set enabled then Some False else None),
      ag_last_sent = None, ag_last_reason = None\<rparr>"

definition scan_source :: "reading \<Rightarrow> source_kind \<Rightarrow> aggregator \<Rightarrow> aggregator" where
  "scan_source r kind a =
     (if kind \<notin> set (ag_enabled a) then a
      else
        (let cur = (rd_health r kind = Some True);
             was = (ag_last_healthy a kind = Some True);
             a1 = a\<lparr>ag_last_healthy := (ag_last_healthy a)(kind \<mapsto> cur)\<rparr>;
             a2 = (if \<not> cur \<and> was
                   then a1\<lparr>ag_down_since := (ag_down_since a1)(kind \<mapsto> rd_now r)\<rparr> else a1)
         in if cur then a2\<lparr>ag_gate := gate_set (ag_gate a2) kind Healthy\<rparr>
            else (let since = (case ag_down_since a2 kind of Some t \<Rightarrow> t | None \<Rightarrow> rd_now r)
                  in a2\<lparr>ag_gate := gate_set (ag_gate a2) kind (Down since)\<rparr>)))"

definition aggregate_health :: "aggregator \<Rightarrow> reading \<Rightarrow> published \<times> aggregator" where
  "aggregate_health a r =
     (let a1 = fold (scan_source r) all_kinds a;
          camera_healthy = gate_healthy (ag_gate a1) (rd_now r);
          flipped = (ag_last_sent a1 \<noteq> Some camera_healthy);
          sent = (if flipped then Some camera_healthy else None);
          a2 = (if flipped then a1\<lparr>ag_last_sent := Some camera_healthy\<rparr> else a1)
      in if flipped \<and> camera_healthy
         then (\<lparr>pb_sent = sent, pb_persisted = Some (True, None)\<rparr>, a2\<lparr>ag_last_reason := None\<rparr>)
         else if \<not> camera_healthy
         then (let reason = fail_open_reason (ag_last_healthy a2) (rd_specific r) in
               if flipped \<or> ag_last_reason a2 \<noteq> Some reason
               then (\<lparr>pb_sent = sent, pb_persisted = Some (False, Some reason)\<rparr>,
                     a2\<lparr>ag_last_reason := Some reason\<rparr>)
               else (\<lparr>pb_sent = sent, pb_persisted = None\<rparr>, a2))
         else (\<lparr>pb_sent = sent, pb_persisted = None\<rparr>, a2))"

text \<open>What the recording task reads: the last value sent (fail-open before the first).\<close>

definition camera_health :: "aggregator \<Rightarrow> bool" where
  "camera_health a = (ag_last_sent a = Some True)"

subsection \<open>Abstract view\<close>

text \<open>One source over the readings so far: is it up, and when did its outage begin.\<close>

fun outage :: "bool \<times> instant \<Rightarrow> instant \<times> bool \<Rightarrow> bool \<times> instant" where
  "outage (was, since) (now, cur) = (cur, if \<not> cur \<and> was then now else since)"

definition source_view :: "instant \<Rightarrow> reading list \<Rightarrow> source_kind \<Rightarrow> bool \<times> instant" where
  "source_view start rs k =
     foldl outage (False, start) (map (\<lambda>r. (rd_now r, rd_health r k = Some True)) rs)"

definition is_up :: "instant \<Rightarrow> reading list \<Rightarrow> source_kind \<Rightarrow> bool" where
  "is_up start rs k = fst (source_view start rs k)"

definition down_start :: "instant \<Rightarrow> reading list \<Rightarrow> source_kind \<Rightarrow> instant" where
  "down_start start rs k = snd (source_view start rs k)"

lemma source_view_snoc:
  "source_view start (rs @ [r]) k =
     (rd_health r k = Some True,
      if rd_health r k \<noteq> Some True \<and> is_up start rs k then rd_now r else down_start start rs k)"
  by (cases "source_view start rs k")
    (simp add: source_view_def is_up_def down_start_def)

definition tracks :: "instant \<Rightarrow> reading list \<Rightarrow> aggregator \<Rightarrow> source_kind \<Rightarrow> bool" where
  "tracks start rs a k \<longleftrightarrow>
     (if k \<in> set (ag_enabled a)
      then ag_last_healthy a k = Some (is_up start rs k) \<and> ag_down_since a k = Some (down_start start rs k)
        \<and> sources (ag_gate a) k =
            Some (if is_up start rs k then Healthy else Down (down_start start rs k))
      else sources (ag_gate a) k = None)"

lemma gate_set_sources:
  "sources (gate_set g k h) j = (if j = k \<and> sources g k \<noteq> None then Some h else sources g j)"
  by (auto simp: gate_set_def split: option.split)

lemma gate_set_grace [simp]: "grace (gate_set g k h) = grace g"
  by (simp add: gate_set_def split: option.split)

lemma scan_enabled [simp]: "ag_enabled (scan_source r k a) = ag_enabled a"
  by (simp add: scan_source_def Let_def)

lemma scan_grace [simp]: "grace (ag_gate (scan_source r k a)) = grace (ag_gate a)"
  by (simp add: scan_source_def Let_def)

lemma scan_sent [simp]: "ag_last_sent (scan_source r k a) = ag_last_sent a"
  by (simp add: scan_source_def Let_def)

lemma scan_other: "j \<noteq> k \<Longrightarrow> tracks start rs (scan_source r k a) j = tracks start rs a j"
  by (auto simp: scan_source_def Let_def tracks_def gate_set_sources)

lemma scan_self: "tracks start rs a k \<Longrightarrow> tracks start (rs @ [r]) (scan_source r k a) k"
proof (cases "k \<in> set (ag_enabled a)")
  case True
  assume t: "tracks start rs a k"
  have v: "is_up start (rs @ [r]) k = (rd_health r k = Some True)"
    "down_start start (rs @ [r]) k =
      (if rd_health r k \<noteq> Some True \<and> is_up start rs k then rd_now r else down_start start rs k)"
    using source_view_snoc [of start rs r k] by (simp_all add: is_up_def down_start_def)
  show ?thesis using t True
    by (auto simp: tracks_def scan_source_def Let_def v gate_set_sources)
next
  case False
  assume "tracks start rs a k"
  then show ?thesis using False by (simp add: tracks_def scan_source_def)
qed

lemma scan_all:
  assumes "\<And>k. tracks start rs a k"
  shows "tracks start (rs @ [r]) (fold (scan_source r) all_kinds a) k"
proof -
  let ?p = "scan_source r Pixel a" and ?f = "scan_source r Frigate (scan_source r Pixel a)"
  have p: "tracks start (rs @ [r]) ?p Pixel" "tracks start rs ?p Frigate" "tracks start rs ?p Ha"
    using assms scan_self scan_other by auto
  then have f: "tracks start (rs @ [r]) ?f Pixel" "tracks start (rs @ [r]) ?f Frigate"
    "tracks start rs ?f Ha"
    using scan_self scan_other by auto
  then show ?thesis using scan_self [OF f(3)] scan_other
    by (cases k) (simp_all add: all_kinds_def)
qed

lemma gate_values_set: "set (gate_values g) = {h. \<exists>k. sources g k = Some h}"
  by (auto simp: gate_values_def List.map_filter_def image_iff) (metis option.sel option.distinct(1))

lemma gate_healthy_iff:
  "gate_healthy g now \<longleftrightarrow>
     (\<exists>k. sources g k = Some Healthy) \<and>
     (\<forall>k since. sources g k = Some (Down since) \<longrightarrow> now - since < grace g)"
proof -
  have "gate_values g = [] \<longleftrightarrow> set (gate_values g) = {}" by simp
  then show ?thesis
    by (auto simp: gate_healthy_def Let_def list_ex_iff gate_values_set down_past_grace_def
        split: source_health.splits) (metis linorder_not_less)+
qed

lemma aggregate_state:
  assumes "aggregate_health a r = (p, a')"
  shows "ag_gate a' = ag_gate (fold (scan_source r) all_kinds a) \<and>
    ag_enabled a' = ag_enabled a \<and>
    ag_last_healthy a' = ag_last_healthy (fold (scan_source r) all_kinds a) \<and>
    ag_down_since a' = ag_down_since (fold (scan_source r) all_kinds a) \<and>
    ag_last_sent a' = Some (gate_healthy (ag_gate a') (rd_now r))"
  using assms by (auto simp: aggregate_health_def Let_def all_kinds_def split: if_splits)

lemma fold_scan_grace [simp]:
  "grace (ag_gate (fold (scan_source r) ks a)) = grace (ag_gate a)"
  by (induction ks arbitrary: a) simp_all

lemma tracks_new: "tracks start [] (aggregator_new enabled start) k"
  by (simp add: tracks_def aggregator_new_def gate_new_def is_up_def down_start_def source_view_def)

text \<open>Refinement: after any readings the aggregator tracks every source and has published the
  verdict of the abstract view.\<close>

lemma aggregate_tracks:
  assumes "run_machine aggregate_health (aggregator_new enabled start) rs = (ps, a)"
  shows "(\<forall>k. tracks start rs a k) \<and> ag_enabled a = enabled \<and>
    grace (ag_gate a) = default_source_down_grace"
  using assms
proof (induction rs arbitrary: ps a rule: rev_induct)
  case Nil
  then have "a = aggregator_new enabled start" by simp
  then show ?case using tracks_new [of start enabled]
    by (simp add: aggregator_new_def gate_new_def)
next
  case (snoc r rs)
  obtain ps1 a1 where r1: "run_machine aggregate_health (aggregator_new enabled start) rs = (ps1, a1)"
    by force
  obtain p a2 where st: "aggregate_health a1 r = (p, a2)" by force
  have "a = a2" using snoc.prems r1 st by (simp add: run_machine_append)
  have IH: "\<And>k. tracks start rs a1 k" "ag_enabled a1 = enabled"
    "grace (ag_gate a1) = default_source_down_grace" using snoc.IH [OF r1] by simp_all
  have "tracks start (rs @ [r]) a2 k" for k
    using scan_all [of start rs a1 r k, OF IH(1)] aggregate_state [OF st] by (simp add: tracks_def all_kinds_def)
  then show ?case using aggregate_state [OF st] IH \<open>a = a2\<close> by simp
qed

subsection \<open>Properties\<close>

text \<open>C33. The health the recording task reads is exact. After any sequence of evaluations ending
  with a reading, the camera counts as healthy exactly when some enabled source is up in that
  reading and every enabled source that is down began its current outage less than sixty seconds
  ago; a source whose task is gone counts as down. In particular the camera fails open at once when
  nothing detects, and within the grace when one of several sources dies.\<close>

theorem camera_health_exact:
  assumes "run_machine aggregate_health (aggregator_new enabled start) (rs @ [r]) = (ps, a)"
  shows "camera_health a \<longleftrightarrow>
    (\<exists>k \<in> set enabled. rd_health r k = Some True) \<and>
    (\<forall>k \<in> set enabled. rd_health r k \<noteq> Some True \<longrightarrow>
       rd_now r - down_start start (rs @ [r]) k < seconds 60)"
proof -
  obtain ps1 a1 where r1: "run_machine aggregate_health (aggregator_new enabled start) rs = (ps1, a1)"
    by force
  obtain p a2 where st: "aggregate_health a1 r = (p, a2)" by force
  have a: "a = a2" using assms r1 st by (simp add: run_machine_append)
  have tr: "\<And>k. tracks start (rs @ [r]) a k" "ag_enabled a = enabled" "grace (ag_gate a) = seconds 60"
    using aggregate_tracks [OF assms] by (simp_all add: default_source_down_grace_def)
  have up: "is_up start (rs @ [r]) k = (rd_health r k = Some True)" for k
    using source_view_snoc [of start rs r k] by (simp add: is_up_def)
  have src: "sources (ag_gate a) k = (if k \<in> set enabled
      then Some (if rd_health r k = Some True then Healthy else Down (down_start start (rs @ [r]) k))
      else None)" for k
    using tr(1) [of k] tr(2) up [of k] by (simp add: tracks_def)
  have "camera_health a = gate_healthy (ag_gate a) (rd_now r)"
    using aggregate_state [OF st] a by (simp add: camera_health_def)
  then show ?thesis unfolding gate_healthy_iff src tr(3) by (auto split: if_splits)
qed

theorem camera_health_exact_witness:
  "let up = (\<lambda>t ks. \<lparr>rd_now = seconds t, rd_health = (\<lambda>k. Some (k \<in> set ks)), rd_specific = (\<lambda>_. None)\<rparr>);
       rs = [up 0 [Pixel, Frigate], up 10 [Pixel], up 69 [Pixel]];
       a = (\<lambda>rs. snd (run_machine aggregate_health (aggregator_new [Pixel, Frigate] 0) rs))
   in camera_health (a rs) \<and> \<not> camera_health (a (rs @ [up 70 [Pixel]]))"
proof -
  let ?up = "\<lambda>t ks. \<lparr>rd_now = seconds t, rd_health = (\<lambda>k. Some (k \<in> set ks)), rd_specific = (\<lambda>_. None)\<rparr>"
  let ?a = "\<lambda>rs. run_machine aggregate_health (aggregator_new [Pixel, Frigate] 0) rs"
  have 1: "camera_health (snd (?a ([?up 0 [Pixel, Frigate], ?up 10 [Pixel]] @ [?up 69 [Pixel]])))"
    unfolding camera_health_exact [OF surjective_pairing]
    by (simp add: down_start_def source_view_def seconds_def)
  have 2: "\<not> camera_health (snd (?a ([?up 0 [Pixel, Frigate], ?up 10 [Pixel], ?up 69 [Pixel]] @ [?up 70 [Pixel]])))"
    unfolding camera_health_exact [OF surjective_pairing]
    by (simp add: down_start_def source_view_def seconds_def)
  show ?thesis using 1 2 unfolding Let_def append.simps by blast
qed

end
