(* ===== verification/EventSources.thy ===== *)
theory EventSources
  imports MotionUnion
begin

text \<open>
  The object and sensor trackers that turn external events into START/STOP transitions:
  \<open>services/recorder/src/frigate_motion.rs\<close> (Frigate objects over MQTT),
  \<open>services/recorder/src/ha_motion.rs\<close> (Home Assistant sensors) and the polling diff of
  \<open>services/common/src/ha.rs\<close>.

  The locale \<open>event_source\<close> states the contract the recorder relies on: a source opens an event
  only when none is open and closes exactly the event it opened. Both trackers are interpreted
  in it, so for both the open events that reach the motion union are those of the tracker.
\<close>

text \<open>\<open>signal_of\<close> is the mapping in \<open>emit\<close>; the send itself is \<open>emit\<close> of \<open>SourceDelivery\<close>.\<close>

datatype transition = Start instant f32 | Stop instant instant f32

definition signal_of :: "uuid \<Rightarrow> transition \<Rightarrow> motion_signal" where
  "signal_of camera_id t =
     (case t of
        Start started peak \<Rightarrow>
          \<lparr>sig_camera = camera_id, started_at = started, stopped_at = None, peak_score = peak,
           sig_bbox = None\<rparr>
      | Stop started stopped peak \<Rightarrow>
          \<lparr>sig_camera = camera_id, started_at = started, stopped_at = Some stopped,
           peak_score = peak, sig_bbox = None\<rparr>)"

subsection \<open>The contract of a source\<close>

locale event_source =
  fixes step :: "'s \<Rightarrow> 'e \<Rightarrow> transition option \<times> 's"
    and opened :: "'s \<Rightarrow> instant option"
  assumes start_opens: "step s e = (Some (Start t p), s') \<Longrightarrow> opened s = None \<and> opened s' = Some t"
    and stop_closes: "step s e = (Some (Stop t u p), s') \<Longrightarrow> opened s = Some t \<and> opened s' = None"
    and quiet_keeps: "step s e = (None, s') \<Longrightarrow> opened s' = opened s"
begin

definition signals_of :: "uuid \<Rightarrow> transition option list \<Rightarrow> motion_signal list" where
  "signals_of cam outs = map (signal_of cam) (List.map_filter id outs)"

lemma step_open:
  assumes "step s e = (out, s')"
  shows "foldl open_after (set_option (opened s)) (signals_of cam [out]) = set_option (opened s')"
proof (cases out)
  case None
  then show ?thesis using quiet_keeps assms by (simp add: signals_of_def)
next
  case (Some t)
  then show ?thesis using start_opens stop_closes assms
    by (cases t) (auto simp: signals_of_def signal_of_def open_after.simps)
qed

lemma run_open:
  "run_machine step s es = (outs, s') \<Longrightarrow>
   foldl open_after (set_option (opened s)) (signals_of cam outs) = set_option (opened s')"
proof (induction es arbitrary: s outs s')
  case Nil
  then show ?case by (simp add: signals_of_def)
next
  case (Cons e es)
  obtain out s1 where st: "step s e = (out, s1)" by force
  obtain outs1 s2 where rn: "run_machine step s1 es = (outs1, s2)" by force
  have eq: "outs = out # outs1" "s' = s2" using Cons.prems st rn by simp_all
  have "signals_of cam (out # outs1) = signals_of cam [out] @ signals_of cam outs1"
    by (simp add: signals_of_def List.map_filter_def)
  then show ?case using Cons.IH [OF rn] step_open [OF st] eq by simp
qed

text \<open>Transitions alternate: after a START the next transition is the STOP of that event.\<close>

fun alternates :: "instant option \<Rightarrow> transition option list \<Rightarrow> bool" where
  "alternates cur [] = True"
| "alternates cur (None # ts) = alternates cur ts"
| "alternates cur (Some (Start t p) # ts) = (cur = None \<and> alternates (Some t) ts)"
| "alternates cur (Some (Stop t u p) # ts) = (cur = Some t \<and> alternates None ts)"

lemma run_alternates: "run_machine step s es = (outs, s') \<Longrightarrow> alternates (opened s) outs"
proof (induction es arbitrary: s outs s')
  case Nil
  then show ?case by simp
next
  case (Cons e es)
  obtain out s1 where st: "step s e = (out, s1)" by force
  obtain outs1 s2 where rn: "run_machine step s1 es = (outs1, s2)" by force
  have eq: "outs = out # outs1" using Cons.prems st rn by simp
  note IH = Cons.IH [OF rn]
  show ?case
  proof (cases out)
    case None
    then show ?thesis using IH st quiet_keeps eq by simp
  next
    case (Some t)
    then show ?thesis using IH st start_opens stop_closes eq by (cases t) auto
  qed
qed

end

subsection \<open>Frigate objects\<close>

record obj_event =
  oe_camera :: string
  oe_object :: string
  oe_ended :: bool
  oe_score :: f32

text \<open>The fields of the Frigate envelope after JSON parsing (\<open>None\<close>: the payload did not parse).\<close>

record envelope =
  ev_type :: string
  af_id :: string
  af_camera :: string
  af_score :: "f32 option"
  af_false_positive :: "bool option"

definition classify :: "envelope option \<Rightarrow> f32 \<Rightarrow> obj_event option" where
  "classify parsed min_score =
     (case parsed of
        None \<Rightarrow> None
      | Some env \<Rightarrow>
          (if af_false_positive env = Some True then None
           else
             (let score = (case af_score env of Some s \<Rightarrow> s | None \<Rightarrow> 0);
                  ended = (if ev_type env = ''new'' \<or> ev_type env = ''update'' then Some False
                           else if ev_type env = ''end'' then Some True else None)
              in case ended of
                   None \<Rightarrow> None
                 | Some en \<Rightarrow>
                     (if \<not> en \<and> score < min_score then None
                      else Some \<lparr>oe_camera = af_camera env, oe_object = af_id env, oe_ended = en,
                                 oe_score = score\<rparr>))))"

definition object_ttl :: int where "object_ttl = seconds 30"
definition stop_grace :: int where "stop_grace = seconds 5"

record camera_tracker =
  active :: "(string \<times> instant) list"
  ct_started_at :: "instant option"
  ct_peak_score :: f32
  ct_empty_since :: "instant option"

definition tracker_new :: camera_tracker where
  "tracker_new = \<lparr>active = [], ct_started_at = None, ct_peak_score = 0, ct_empty_since = None\<rparr>"

definition observe ::
  "camera_tracker \<Rightarrow> obj_event \<Rightarrow> instant \<Rightarrow> transition option \<times> camera_tracker" where
  "observe c ev now =
     (if oe_ended ev
      then (let c1 = c\<lparr>active := AList.delete (oe_object ev) (active c)\<rparr> in
            (None, if active c1 = [] \<and> ct_started_at c1 \<noteq> None \<and> ct_empty_since c1 = None
                   then c1\<lparr>ct_empty_since := Some now\<rparr> else c1))
      else
        (let was_empty = (active c = []);
             c1 = c\<lparr>active := AList.update (oe_object ev) now (active c),
                    ct_peak_score := max (ct_peak_score c) (oe_score ev), ct_empty_since := None\<rparr>
         in if was_empty \<and> ct_started_at c1 = None
            then (Some (Start now (ct_peak_score c1)), c1\<lparr>ct_started_at := Some now\<rparr>)
            else (None, c1)))"

definition expire :: "camera_tracker \<Rightarrow> instant \<Rightarrow> camera_tracker" where
  "expire c now =
     (if active c \<noteq> []
      then (let last_activity = Max (set (map snd (active c)));
                c1 = c\<lparr>active := filter (\<lambda>(_, seen). now - seen \<le> object_ttl) (active c)\<rparr>
            in if active c1 = [] \<and> ct_started_at c1 \<noteq> None \<and> ct_empty_since c1 = None
               then c1\<lparr>ct_empty_since := Some last_activity\<rparr> else c1)
      else c)"

definition tick :: "camera_tracker \<Rightarrow> instant \<Rightarrow> transition option \<times> camera_tracker" where
  "tick c now =
     (let c1 = expire c now in
      if active c1 = []
      then (case (ct_started_at c1, ct_empty_since c1) of
              (Some started, Some since) \<Rightarrow>
                (if stop_grace \<le> now - since
                 then (Some (Stop started now (ct_peak_score c1)), tracker_new) else (None, c1))
            | _ \<Rightarrow> (None, c1))
      else (None, c1))"

definition force_stop :: "camera_tracker \<Rightarrow> instant \<Rightarrow> transition option \<times> camera_tracker" where
  "force_stop c now =
     (case ct_started_at c of
        None \<Rightarrow> (None, c)
      | Some started \<Rightarrow> (Some (Stop started now (ct_peak_score c)), tracker_new))"

datatype 'ev tracker_event = Observe 'ev instant | Tick instant | ForceStop instant

fun tracker_step ::
  "camera_tracker \<Rightarrow> obj_event tracker_event \<Rightarrow> transition option \<times> camera_tracker" where
  "tracker_step c (Observe ev now) = observe c ev now"
| "tracker_step c (Tick now) = tick c now"
| "tracker_step c (ForceStop now) = force_stop c now"

lemmas tracker_defs = observe_def tick_def expire_def force_stop_def tracker_new_def Let_def

lemma expire_started [simp]: "ct_started_at (expire c now) = ct_started_at c"
  by (simp add: expire_def Let_def)

lemma tick_cases:
  "tick c now = (out, c') \<Longrightarrow>
   out = None \<and> ct_started_at c' = ct_started_at c \<or>
   (\<exists>t p. out = Some (Stop t now p) \<and> ct_started_at c = Some t \<and> c' = tracker_new)"
  by (auto simp: tick_def Let_def split: option.splits if_splits)

interpretation frigate: event_source tracker_step ct_started_at
proof (unfold_locales, goal_cases)
  case (1 s e t p s')
  then show ?case
    by (cases e) (auto simp: observe_def Let_def force_stop_def split: if_splits option.splits
        dest: tick_cases)
next
  case (2 s e t u p s')
  then show ?case
    by (cases e) (auto simp: observe_def Let_def force_stop_def tracker_new_def
        split: if_splits option.splits dest!: tick_cases)
next
  case (3 s e s')
  then show ?case
    by (cases e) (auto simp: observe_def Let_def force_stop_def tracker_new_def
        split: if_splits option.splits dest!: tick_cases)
qed

subsection \<open>Home Assistant sensors\<close>

definition ascii_lower :: "string \<Rightarrow> string" where
  "ascii_lower s = map (\<lambda>c. let n = (of_char c :: nat) in if 65 \<le> n \<and> n \<le> 90 then char_of (n + 32) else c) s"

definition edge_on :: "string \<Rightarrow> bool option" where
  "edge_on state =
     (let s = ascii_lower (trim state) in
      if s \<in> {''on'', ''open'', ''detected'', ''true'', ''home'', ''motion'', ''occupied''} then Some True
      else if s \<in> {''off'', ''closed'', ''clear'', ''false'', ''not_home'', ''no_motion''} then Some False
      else None)"

definition label_for_device_class :: "string option \<Rightarrow> string" where
  "label_for_device_class device_class =
     (case map_option (\<lambda>c. ascii_lower (trim c)) device_class of
        None \<Rightarrow> ''sensor''
      | Some c \<Rightarrow>
          (if c \<in> {''motion'', ''moving'', ''vibration''} then ''motion''
           else if c \<in> {''occupancy'', ''presence''} then ''occupancy''
           else if c \<in> {''door'', ''opening''} then ''door''
           else if c = ''window'' then ''window''
           else if c = ''garage_door'' then ''garage''
           else ''sensor''))"

record entity_edge =
  ee_entity :: string
  ee_on :: bool
  ee_at :: instant

fun diff_edges ::
  "(string \<times> string) list \<Rightarrow> (string \<Rightarrow> bool option) \<Rightarrow> instant \<Rightarrow>
   entity_edge list \<times> (string \<Rightarrow> bool option)" where
  "diff_edges [] last_map now = ([], last_map)"
| "diff_edges ((eid, state) # readings) last_map now =
     (case edge_on state of
        None \<Rightarrow> diff_edges readings last_map now
      | Some on \<Rightarrow>
          (case last_map eid of
             Some prev \<Rightarrow>
               (if prev = on then diff_edges readings last_map now
                else (let (edges, m) = diff_edges readings (last_map(eid \<mapsto> on)) now
                      in (\<lparr>ee_entity = eid, ee_on = on, ee_at = now\<rparr> # edges, m)))
           | None \<Rightarrow> diff_edges readings (last_map(eid \<mapsto> on)) now))"

record open_event =
  op_entity :: string
  op_class :: "string option"
  op_started_at :: instant

record ha_tracker =
  class_by_entity :: "string \<Rightarrow> string option option"
  on_set :: "string set"
  ha_open :: "open_event option"
  ha_empty_since :: "instant option"

datatype ha_transition =
    HaStart instant string "string option"
  | HaStop instant instant string "string option"

fun to_signal_transition :: "ha_transition \<Rightarrow> transition" where
  "to_signal_transition (HaStart started e c) = Start started 1"
| "to_signal_transition (HaStop started stopped e c) = Stop started stopped 1"

definition ha_tracker_new :: "(string \<Rightarrow> string option option) \<Rightarrow> ha_tracker" where
  "ha_tracker_new classes =
     \<lparr>class_by_entity = classes, on_set = {}, ha_open = None, ha_empty_since = None\<rparr>"

definition ha_reset :: "ha_tracker \<Rightarrow> ha_tracker" where
  "ha_reset h = h\<lparr>on_set := {}, ha_open := None, ha_empty_since := None\<rparr>"

definition ha_observe :: "ha_tracker \<Rightarrow> entity_edge \<Rightarrow> instant \<Rightarrow> ha_transition option \<times> ha_tracker" where
  "ha_observe h edge now =
     (if ee_on edge
      then (let was_empty = (on_set h = {});
                h1 = h\<lparr>on_set := insert (ee_entity edge) (on_set h), ha_empty_since := None\<rparr>
            in if was_empty \<and> ha_open h1 = None
               then (let device_class = (case class_by_entity h (ee_entity edge) of Some c \<Rightarrow> c | None \<Rightarrow> None)
                     in (Some (HaStart now (ee_entity edge) device_class),
                         h1\<lparr>ha_open := Some \<lparr>op_entity = ee_entity edge, op_class = device_class,
                                              op_started_at = now\<rparr>\<rparr>))
               else (None, h1))
      else (let h1 = h\<lparr>on_set := on_set h - {ee_entity edge}\<rparr> in
            (None, if on_set h1 = {} \<and> ha_open h1 \<noteq> None \<and> ha_empty_since h1 = None
                   then h1\<lparr>ha_empty_since := Some now\<rparr> else h1)))"

definition ha_tick :: "ha_tracker \<Rightarrow> instant \<Rightarrow> ha_transition option \<times> ha_tracker" where
  "ha_tick h now =
     (if on_set h = {}
      then (case (ha_open h, ha_empty_since h) of
              (Some op', Some since) \<Rightarrow>
                (if stop_grace \<le> now - since
                 then (Some (HaStop (op_started_at op') now (op_entity op') (op_class op')), ha_reset h)
                 else (None, h))
            | _ \<Rightarrow> (None, h))
      else (None, h))"

definition ha_force_stop :: "ha_tracker \<Rightarrow> instant \<Rightarrow> ha_transition option \<times> ha_tracker" where
  "ha_force_stop h now =
     (case ha_open h of
        None \<Rightarrow> (None, h)
      | Some op' \<Rightarrow>
          (Some (HaStop (op_started_at op') now (op_entity op') (op_class op')), ha_reset h))"

fun ha_step :: "ha_tracker \<Rightarrow> entity_edge tracker_event \<Rightarrow> ha_transition option \<times> ha_tracker" where
  "ha_step h (Observe ev now) = ha_observe h ev now"
| "ha_step h (Tick now) = ha_tick h now"
| "ha_step h (ForceStop now) = ha_force_stop h now"

text \<open>The source as the recorder sees it: the labelled transition mapped to the wire.\<close>

definition ha_signal_step ::
  "ha_tracker \<Rightarrow> entity_edge tracker_event \<Rightarrow> transition option \<times> ha_tracker" where
  "ha_signal_step h e = (let (t, h') = ha_step h e in (map_option to_signal_transition t, h'))"

definition ha_opened :: "ha_tracker \<Rightarrow> instant option" where
  "ha_opened h = map_option op_started_at (ha_open h)"

lemma ha_step_cases:
  "ha_step h e = (t, h') \<Longrightarrow>
   t = None \<and> ha_opened h' = ha_opened h \<or>
   (\<exists>s en c. t = Some (HaStart s en c) \<and> ha_opened h = None \<and> ha_opened h' = Some s) \<or>
   (\<exists>s u en c. t = Some (HaStop s u en c) \<and> ha_opened h = Some s \<and> ha_opened h' = None)"
  by (cases e) (auto simp: ha_observe_def ha_tick_def ha_force_stop_def ha_opened_def ha_reset_def
      Let_def split: if_splits option.splits)

interpretation home_assistant: event_source ha_signal_step ha_opened
proof (unfold_locales, goal_cases)
  case (1 s e t p s')
  then show ?case using ha_step_cases [OF prod.collapse [symmetric], of s e]
    by (auto simp: ha_signal_step_def split_beta)
next
  case (2 s e t u p s')
  then show ?case using ha_step_cases [OF prod.collapse [symmetric], of s e]
    by (auto simp: ha_signal_step_def split_beta)
next
  case (3 s e s')
  then show ?case using ha_step_cases [OF prod.collapse [symmetric], of s e]
    by (auto simp: ha_signal_step_def split_beta)
qed

subsection \<open>Objects go stale\<close>

fun event_time :: "'ev tracker_event \<Rightarrow> instant" where
  "event_time (Observe ev now) = now"
| "event_time (Tick now) = now"
| "event_time (ForceStop now) = now"

text \<open>Everything the tracker remembers happened by \<open>t0\<close>, and an open event without active
  objects has its countdown running.\<close>

definition tracker_inv :: "instant \<Rightarrow> camera_tracker \<Rightarrow> bool" where
  "tracker_inv t0 c \<longleftrightarrow> (\<forall>(ob, t) \<in> set (active c). t \<le> t0) \<and>
     (\<forall>t. ct_empty_since c = Some t \<longrightarrow> t \<le> t0) \<and>
     (ct_started_at c \<noteq> None \<longrightarrow> active c = [] \<longrightarrow> ct_empty_since c \<noteq> None)"

lemma tracker_inv_new [simp]: "tracker_inv t0 tracker_new"
  by (simp add: tracker_inv_def tracker_new_def)

lemma set_delete_subset: "set (AList.delete k xs) \<subseteq> set xs"
  by (auto simp: AList.delete_eq)

lemma set_update_subset: "set (AList.update k v xs) \<subseteq> insert (k, v) (set xs)"
  by (induction xs) auto

lemma update_not_Nil: "AList.update k v xs \<noteq> []"
  by (cases xs) auto

lemma observe_inv:
  assumes "tracker_inv t0 c" and "now \<le> t0" and "observe c ev now = (out, c')"
  shows "tracker_inv t0 c'"
proof (cases "oe_ended ev")
  case True
  then show ?thesis using assms set_delete_subset [of "oe_object ev" "active c"]
    by (auto simp: observe_def Let_def tracker_inv_def split: if_splits)
next
  case False
  have u: "\<forall>(ob, t) \<in> set (AList.update (oe_object ev) now (active c)). t \<le> t0"
    using assms(1,2) set_update_subset [of "oe_object ev" now "active c"] by (auto simp: tracker_inv_def)
  have "active c' = AList.update (oe_object ev) now (active c)" "ct_empty_since c' = None"
    using assms(3) False by (auto simp: observe_def Let_def split: if_splits)
  then show ?thesis using u update_not_Nil by (simp add: tracker_inv_def)
qed

lemma expire_inv:
  assumes "tracker_inv t0 c"
  shows "tracker_inv t0 (expire c now)"
proof (cases "active c = []")
  case True
  then show ?thesis using assms by (simp add: expire_def)
next
  case False
  have "Max (set (map snd (active c))) \<le> t0"
    using assms False by (auto simp: tracker_inv_def)
  then show ?thesis using assms False
    by (auto simp: expire_def Let_def tracker_inv_def)
qed

lemma tracker_step_inv:
  assumes "tracker_inv t0 c" and "event_time e \<le> t0" and "tracker_step c e = (out, c')"
  shows "tracker_inv t0 c'"
proof (cases e)
  case (Observe ev now)
  then show ?thesis using assms observe_inv by simp
next
  case (Tick now)
  have "c' = expire c now \<or> c' = tracker_new"
    using assms(3) Tick by (auto simp: tick_def Let_def split: if_splits option.splits)
  then show ?thesis using expire_inv [OF assms(1)] by auto
next
  case (ForceStop now)
  then show ?thesis using assms by (auto simp: force_stop_def split: option.splits)
qed

interpretation frigate_times: guarded_machine tracker_step "tracker_inv t0" "\<lambda>e. event_time e \<le> t0"
  for t0
  by unfold_locales (rule tracker_step_inv)

lemma tick_after_silence:
  assumes "tracker_inv t0 c" and "ct_started_at c = Some s" and "object_ttl < now - t0"
  shows "tick c now = (Some (Stop s now (ct_peak_score c)), tracker_new)"
proof -
  have stale: "filter (\<lambda>(_, seen). now - seen \<le> object_ttl) (active c) = []"
    using assms(1,3) by (auto simp: tracker_inv_def filter_empty_conv)
  have "\<exists>t. ct_empty_since (expire c now) = Some t \<and> t \<le> t0"
    using expire_inv [OF assms(1), of now] assms(2) stale
    by (auto simp: tracker_inv_def expire_def Let_def)
  moreover have "active (expire c now) = []" using stale by (simp add: expire_def Let_def)
  moreover have "ct_peak_score (expire c now) = ct_peak_score c" by (simp add: expire_def Let_def)
  ultimately show ?thesis using assms(2,3)
    by (auto simp: tick_def Let_def object_ttl_def stop_grace_def seconds_def)
qed

subsection \<open>Sensor edges\<close>

definition apply_edges :: "entity_edge list \<Rightarrow> (string \<Rightarrow> bool option) \<Rightarrow> string \<Rightarrow> bool option" where
  "apply_edges edges m = foldl (\<lambda>m e. m(ee_entity e \<mapsto> ee_on e)) m edges"

lemma apply_edges_cong:
  "m eid = m' eid \<Longrightarrow> apply_edges es m eid = apply_edges es m' eid"
  unfolding apply_edges_def
proof (induction es arbitrary: m m')
  case Nil
  then show ?case by simp
next
  case (Cons e es)
  show ?case using Cons.IH [of "m(ee_entity e \<mapsto> ee_on e)" "m'(ee_entity e \<mapsto> ee_on e)"] Cons.prems
    by simp
qed

lemma diff_edges_follow:
  "diff_edges rs m now = (edges, m') \<Longrightarrow> eid \<in> dom m \<Longrightarrow> m' eid = apply_edges edges m eid"
proof (induction rs arbitrary: m edges)
  case Nil
  then show ?case by (simp add: apply_edges_def)
next
  case (Cons r rs)
  obtain k state where r: "r = (k, state)" by force
  show ?case
  proof (cases "edge_on state")
    case None
    then show ?thesis using Cons r by simp
  next
    case on: (Some on)
    have "eid \<in> dom (m(k \<mapsto> on))" using Cons.prems(2) by auto
    then have IH: "diff_edges rs (m(k \<mapsto> on)) now = (e1, m') \<Longrightarrow>
        m' eid = apply_edges e1 (m(k \<mapsto> on)) eid" for e1
      using Cons.IH by blast
    show ?thesis
    proof (cases "m k")
      case None
      then have "eid \<noteq> k" "diff_edges rs (m(k \<mapsto> on)) now = (edges, m')"
        using Cons.prems r on by auto
      then show ?thesis using IH [of edges] apply_edges_cong [of "m(k \<mapsto> on)" eid m edges] by simp
    next
      case (Some prev)
      show ?thesis
      proof (cases "prev = on")
        case True
        then show ?thesis using Cons r on Some by simp
      next
        case False
        obtain e1 m1 where d: "diff_edges rs (m(k \<mapsto> on)) now = (e1, m1)" by force
        then have "edges = \<lparr>ee_entity = k, ee_on = on, ee_at = now\<rparr> # e1" "m' = m1"
          using Cons.prems(1) r on Some False by auto
        then show ?thesis using IH [of e1] d by (simp add: apply_edges_def)
      qed
    qed
  qed
qed

lemma diff_edges_decided:
  "diff_edges rs m now = (edges, m') \<Longrightarrow> e \<in> set edges \<Longrightarrow>
   (\<exists>state. (ee_entity e, state) \<in> set rs \<and> edge_on state = Some (ee_on e)) \<and> ee_entity e \<in> dom m \<union> fst ` set rs"
  by (induction rs m now arbitrary: edges m' rule: diff_edges.induct)
    (fastforce split: option.splits if_splits prod.splits)+

lemma ha_ticks_keep_open:
  assumes "on_set h \<noteq> {}"
  shows "run_machine ha_signal_step h (map Tick ts) = (replicate (length ts) None, h)"
  using assms by (induction ts) (simp_all add: ha_signal_step_def ha_tick_def)

subsection \<open>Properties\<close>

text \<open>A lost END does not pin a Frigate event. After any events up to time t0, if an event is
  still open then the first tick more than thirty seconds after t0 closes it, whichever objects
  were never reported as ended.\<close>

theorem silent_objects_end_the_event:
  assumes "run_machine tracker_step tracker_new es = (outs, c)"
    and "list_all (\<lambda>e. event_time e \<le> t0) es"
    and "ct_started_at c = Some s" and "seconds 30 < now - t0"
  shows "tracker_step c (Tick now) = (Some (Stop s now (ct_peak_score c)), tracker_new)"
  using tick_after_silence [OF frigate_times.run_inv [OF tracker_inv_new assms(2,1)] assms(3)] assms(4)
  by (simp add: object_ttl_def)

theorem silent_objects_end_the_event_witness:
  "let ev = \<lparr>oe_camera = ''gate'', oe_object = ''o1'', oe_ended = False, oe_score = 1/2\<rparr>;
       c = snd (run_machine tracker_step tracker_new [Observe ev 0, Tick (seconds 1)])
   in fst (tracker_step c (Tick (seconds 32))) = Some (Stop 0 (seconds 32) (1/2))"
proof -
  let ?ev = "\<lparr>oe_camera = ''gate'', oe_object = ''o1'', oe_ended = False, oe_score = 1/2\<rparr>"
  let ?run = "run_machine tracker_step tracker_new [Observe ?ev 0, Tick (seconds 1)]"
  have "ct_started_at (snd ?run) = Some 0" "ct_peak_score (snd ?run) = 1/2"
    by (simp_all add: tracker_defs seconds_def object_ttl_def)
  then show ?thesis
    using silent_objects_end_the_event [of "[Observe ?ev 0, Tick (seconds 1)]" "fst ?run" "snd ?run"
        "seconds 1" 0 "seconds 32"] by (simp add: Let_def seconds_def)
qed

text \<open>A stale object makes the tracker skip its stop grace. An object that was never ended
  keeps the active set non-empty while a second one comes and goes; when the stale one expires the
  countdown is dated back to its last update, so the event closes at once although the second
  object was seen two seconds earlier, not after five seconds without objects.\<close>

theorem stale_object_skips_grace:
  "let a = \<lparr>oe_camera = ''gate'', oe_object = ''a'', oe_ended = False, oe_score = 1/2\<rparr>;
       b = \<lparr>oe_camera = ''gate'', oe_object = ''b'', oe_ended = False, oe_score = 1/2\<rparr>
   in fst (run_machine tracker_step tracker_new
        [Observe a 0, Observe b (seconds 29), Observe (b\<lparr>oe_ended := True\<rparr>) (seconds 30), Tick (seconds 31)])
      = [Some (Start 0 (1/2)), None, None, Some (Stop 0 (seconds 31) (1/2))]"
  by (simp add: tracker_defs seconds_def object_ttl_def stop_grace_def)

text \<open>A sensor stuck on pins its event. While some linked sensor reads on, no number of ticks
  at any times closes the open event of a Home Assistant source, and it stays open in the union.
  The comment in \<open>ha_motion.rs\<close> says a thirty-minute cap prevents that.\<close>

theorem stuck_sensor_pins_event:
  assumes "on_set h \<noteq> {}" and "ha_opened h = Some s"
  shows "fst (run_machine ha_signal_step h (map Tick ts)) = replicate (length ts) None \<and>
    ha_opened (snd (run_machine ha_signal_step h (map Tick ts))) = Some s"
  using ha_ticks_keep_open [OF assms(1), of ts] assms(2) by simp

theorem stuck_sensor_pins_event_witness:
  "let h = snd (ha_step (ha_tracker_new (\<lambda>_. None)) (Observe \<lparr>ee_entity = ''pir'', ee_on = True, ee_at = 0\<rparr> 0))
   in ha_opened (snd (run_machine ha_signal_step h (map Tick [hours 1, hours 100]))) = Some 0"
proof -
  let ?h = "snd (ha_step (ha_tracker_new (\<lambda>_. None)) (Observe \<lparr>ee_entity = ''pir'', ee_on = True, ee_at = 0\<rparr> 0))"
  have "on_set ?h \<noteq> {}" "ha_opened ?h = Some 0"
    by (simp_all add: ha_observe_def ha_tracker_new_def ha_opened_def)
  then show ?thesis using stuck_sensor_pins_event [of ?h 0 "[hours 1, hours 100]"] by (simp add: Let_def)
qed

text \<open>An unavailable sensor is not an off sensor. The edges of a poll come only from readings
  with a decided state, and for every entity already known the new on/off map is the old one with
  exactly those edges applied: an unavailable or unknown reading changes nothing.\<close>

theorem poll_edges_exact:
  assumes "diff_edges readings last_map now = (edges, new_map)"
  shows "(\<forall>e \<in> set edges. \<exists>state. (ee_entity e, state) \<in> set readings \<and> edge_on state = Some (ee_on e)) \<and>
    (\<forall>eid \<in> dom last_map. new_map eid = apply_edges edges last_map eid)"
  using diff_edges_follow [OF assms] diff_edges_decided [OF assms] by blast

theorem poll_edges_exact_witness:
  "let (edges, m) = diff_edges [(''door'', '' Unavailable''), (''pir'', ''ON '')]
         [''door'' \<mapsto> True, ''pir'' \<mapsto> False] 7
   in m ''door'' = Some True \<and> m ''pir'' = Some True \<and> length edges = 1"
proof -
  let ?d = "diff_edges [(''door'', '' Unavailable''), (''pir'', ''ON '')]
         [''door'' \<mapsto> True, ''pir'' \<mapsto> False] 7"
  have e: "fst ?d = [\<lparr>ee_entity = ''pir'', ee_on = True, ee_at = 7\<rparr>]" by code_simp
  show ?thesis
    using poll_edges_exact [OF prod.collapse [symmetric], of "[(''door'', '' Unavailable''), (''pir'', ''ON '')]"
        "[''door'' \<mapsto> True, ''pir'' \<mapsto> False]" 7] e
    by (auto simp add: split_beta apply_edges_def simp del: diff_edges.simps)
qed

end
