(* ===== verification/SignalChannel.thy ===== *)
theory SignalChannel
  imports MotionUnion
begin

text \<open>
  The lossy motion channel (\<open>MotionTx\<close> and \<open>forward_motion_health\<close> of
  \<open>services/recorder/src/main.rs\<close>). Each source owns a handle; a send that fails books a debt in
  the handle's \<open>lost\<close> flag and in the shared counter, and the debt is returned by the next
  accepted STOP of that handle or when the handle is dropped.

  The flag and the counter are two atomics, so a send is two steps: the swap of the flag and the
  update of the counter. \<open>tx_step\<close> interleaves the steps of all handles with the health forwarder;
  a handle remembers the counter update it still owes. The counter is a \<open>usize\<close> and wraps. The
  invariant says that it never does: it is the number of handles in debt, up to the updates under
  way, so the forwarder reads "healthy" only when no settled debt exists.
\<close>

definition motion_channel_capacity :: nat where
  "motion_channel_capacity = 256"

definition usize_mod :: int where
  "usize_mod = 2 ^ 64"

definition wrap_usize :: "int \<Rightarrow> int" where
  "wrap_usize n = n mod usize_mod"

datatype owed = Settled | OwesAdd | OwesSub

record tx_handle =
  th_lost :: bool
  th_owed :: owed

record tx_state =
  tx_queue :: "motion_signal list"
  tx_receiver_alive :: bool
  tx_handles :: "(nat \<times> tx_handle) list"
  tx_lost_handles :: int
  tx_detector :: bool
  tx_recording :: bool

definition handle_new :: tx_handle where
  "handle_new = \<lparr>th_lost = False, th_owed = Settled\<rparr>"

definition tx_new :: tx_state where
  "tx_new = \<lparr>tx_queue = [], tx_receiver_alive = True, tx_handles = [(0, handle_new)],
     tx_lost_handles = 0, tx_detector = False, tx_recording = False\<rparr>"

definition channel_accepts :: "tx_state \<Rightarrow> bool" where
  "channel_accepts s = (tx_receiver_alive s \<and> length (tx_queue s) < motion_channel_capacity)"

text \<open>The part of \<open>try_send\<close> up to and including the swap of \<open>lost\<close>. An accepted START leaves the
  flag alone; the counter update follows as a step of its own.\<close>

definition try_send_handle :: "bool \<Rightarrow> bool \<Rightarrow> tx_handle \<Rightarrow> tx_handle" where
  "try_send_handle accepted source_idle h =
     (if accepted
      then (if source_idle \<and> th_lost h then \<lparr>th_lost = False, th_owed = OwesSub\<rparr> else h)
      else (if \<not> th_lost h then \<lparr>th_lost = True, th_owed = OwesAdd\<rparr> else h))"

definition try_send :: "tx_state \<Rightarrow> nat \<Rightarrow> motion_signal \<Rightarrow> tx_state" where
  "try_send s i sig =
     (let accepted = channel_accepts s; source_idle = (stopped_at sig \<noteq> None) in
      s\<lparr>tx_queue := (if accepted then tx_queue s @ [sig] else tx_queue s),
        tx_handles := map (\<lambda>(j, h). (j, if j = i then try_send_handle accepted source_idle h else h))
                        (tx_handles s)\<rparr>)"

definition settle_handle :: "tx_handle \<Rightarrow> tx_handle" where
  "settle_handle h = h\<lparr>th_owed := Settled\<rparr>"

definition settle :: "tx_state \<Rightarrow> nat \<Rightarrow> owed \<Rightarrow> tx_state" where
  "settle s i ow =
     s\<lparr>tx_handles := map (\<lambda>(j, h). (j, if j = i then settle_handle h else h)) (tx_handles s),
       tx_lost_handles := wrap_usize (tx_lost_handles s + (if ow = OwesAdd then 1 else - 1))\<rparr>"

definition drop_handle :: "tx_state \<Rightarrow> nat \<Rightarrow> tx_handle \<Rightarrow> tx_state" where
  "drop_handle s i h =
     s\<lparr>tx_handles := filter (\<lambda>(j, _). j \<noteq> i) (tx_handles s),
       tx_lost_handles := (if th_lost h then wrap_usize (tx_lost_handles s - 1) else tx_lost_handles s)\<rparr>"

text \<open>One recomputation of the forwarder, and its teardown.\<close>

definition forward_motion_health :: "tx_state \<Rightarrow> tx_state" where
  "forward_motion_health s =
     (let lossy = (0 < tx_lost_handles s) in s\<lparr>tx_recording := (tx_detector s \<and> \<not> lossy)\<rparr>)"

definition forward_teardown :: "tx_state \<Rightarrow> tx_state" where
  "forward_teardown s = s\<lparr>tx_recording := False\<rparr>"

inductive tx_step :: "tx_state \<Rightarrow> tx_state \<Rightarrow> bool" where
  send: "(i, h) \<in> set (tx_handles s) \<Longrightarrow> th_owed h = Settled \<Longrightarrow> tx_step s (try_send s i sig)"
| settle: "(i, h) \<in> set (tx_handles s) \<Longrightarrow> th_owed h \<noteq> Settled \<Longrightarrow> tx_step s (settle s i (th_owed h))"
| clone: "(i, h) \<in> set (tx_handles s) \<Longrightarrow> j \<notin> fst ` set (tx_handles s) \<Longrightarrow>
    int (length (tx_handles s)) + 1 < usize_mod \<Longrightarrow>
    tx_step s (s\<lparr>tx_handles := tx_handles s @ [(j, handle_new)]\<rparr>)"
| drop_h: "(i, h) \<in> set (tx_handles s) \<Longrightarrow> th_owed h = Settled \<Longrightarrow> tx_step s (drop_handle s i h)"
| receive: "tx_step s (s\<lparr>tx_queue := drop n (tx_queue s)\<rparr>)"
| receiver_gone: "tx_step s (s\<lparr>tx_receiver_alive := False\<rparr>)"
| detector: "tx_step s (s\<lparr>tx_detector := b\<rparr>)"
| forward: "tx_step s (forward_motion_health s)"
| teardown: "tx_step s (forward_teardown s)"

inductive tx_reachable :: "tx_state \<Rightarrow> bool" where
  init: "tx_reachable tx_new"
| step: "tx_reachable s \<Longrightarrow> tx_step s s' \<Longrightarrow> tx_reachable s'"

inductive_cases tx_stepE [elim]: "tx_step s s'"

subsection \<open>The invariant\<close>

text \<open>What one handle contributes to the counter: its debt, less an addition still under way, plus
  a subtraction still under way.\<close>

fun debt :: "tx_handle \<Rightarrow> int" where
  "debt h = (if th_lost h then 1 else 0) +
     (case th_owed h of OwesAdd \<Rightarrow> - 1 | OwesSub \<Rightarrow> 1 | Settled \<Rightarrow> 0)"

definition handle_ok :: "tx_handle \<Rightarrow> bool" where
  "handle_ok h \<longleftrightarrow> (th_owed h = OwesAdd \<longrightarrow> th_lost h) \<and> (th_owed h = OwesSub \<longrightarrow> \<not> th_lost h)"

definition total_debt :: "(nat \<times> tx_handle) list \<Rightarrow> int" where
  "total_debt hs = (\<Sum>(i, h)\<leftarrow>hs. debt h)"

definition tx_inv :: "tx_state \<Rightarrow> bool" where
  "tx_inv s \<longleftrightarrow> distinct (map fst (tx_handles s)) \<and> (\<forall>h \<in> snd ` set (tx_handles s). handle_ok h) \<and>
     tx_lost_handles s = total_debt (tx_handles s) \<and> int (length (tx_handles s)) < usize_mod"

declare debt.simps [simp del]

lemma debt_bounds: "handle_ok h \<Longrightarrow> 0 \<le> debt h \<and> debt h \<le> 1"
  by (cases "th_owed h") (auto simp: handle_ok_def debt.simps)

lemma total_debt_bounds:
  "\<forall>h \<in> snd ` set hs. handle_ok h \<Longrightarrow> 0 \<le> total_debt hs \<and> total_debt hs \<le> int (length hs)"
proof (induction hs)
  case Nil
  then show ?case by (simp add: total_debt_def)
next
  case (Cons x hs)
  then show ?case using debt_bounds [of "snd x"] by (auto simp: total_debt_def split_beta)
qed

lemma total_debt_append [simp]: "total_debt (xs @ ys) = total_debt xs + total_debt ys"
  by (simp add: total_debt_def)

text \<open>Changing one handle changes the total by its own change.\<close>

lemma total_debt_update:
  assumes "distinct (map fst hs)" and "(i, h) \<in> set hs"
  shows "total_debt (map (\<lambda>(j, h). (j, if j = i then f h else h)) hs) = total_debt hs - debt h + debt (f h)"
  using assms
proof (induction hs)
  case Nil
  then show ?case by simp
next
  case (Cons x hs)
  obtain j g where x: "x = (j, g)" by force
  show ?case
  proof (cases "j = i")
    case True
    then have "i \<notin> fst ` set hs" "g = h" using Cons.prems x by (auto simp: rev_image_eqI)
    then have "map (\<lambda>(j, h). (j, if j = i then f h else h)) hs = hs"
      by (intro map_idI) (auto simp: rev_image_eqI)
    then show ?thesis using x True \<open>g = h\<close> by (simp add: total_debt_def)
  next
    case False
    then show ?thesis using Cons x by (auto simp: total_debt_def)
  qed
qed

lemma total_debt_remove:
  assumes "distinct (map fst hs)" and "(i, h) \<in> set hs"
  shows "total_debt (filter (\<lambda>(j, _). j \<noteq> i) hs) = total_debt hs - debt h"
  using assms
proof (induction hs)
  case Nil
  then show ?case by simp
next
  case (Cons x hs)
  obtain j g where x: "x = (j, g)" by force
  show ?case
  proof (cases "j = i")
    case True
    then have "i \<notin> fst ` set hs" "g = h" using Cons.prems x by (auto simp: rev_image_eqI)
    then have "filter (\<lambda>(j, _). j \<noteq> i) hs = hs" by (auto simp: filter_id_conv rev_image_eqI)
    then show ?thesis using x True \<open>g = h\<close> by (simp add: total_debt_def)
  next
    case False
    then show ?thesis using Cons x by (auto simp: total_debt_def)
  qed
qed

lemma update_keeps_keys:
  "map fst (map (\<lambda>(j, h). (j, if j = i then f h else h)) hs) = map fst hs"
  by (induction hs) auto

lemma update_keeps_ok:
  "\<forall>h \<in> snd ` set hs. handle_ok h \<Longrightarrow> (\<And>h. handle_ok h \<Longrightarrow> (i, h) \<in> set hs \<Longrightarrow> handle_ok (f h)) \<Longrightarrow>
   \<forall>h \<in> snd ` set (map (\<lambda>(j, h). (j, if j = i then f h else h)) hs). handle_ok h"
  by (auto simp: image_iff split: if_splits) force+

lemma unique_handle: "distinct (map fst hs) \<Longrightarrow> (i, h) \<in> set hs \<Longrightarrow> (i, h') \<in> set hs \<Longrightarrow> h' = h"
  by (metis eq_key_imp_eq_value)

lemma send_debt: "th_owed h = Settled \<Longrightarrow> debt (try_send_handle a idle h) = debt h"
  by (simp add: debt.simps try_send_handle_def)

lemma send_ok: "handle_ok h \<Longrightarrow> th_owed h = Settled \<Longrightarrow> handle_ok (try_send_handle a idle h)"
  by (simp add: handle_ok_def try_send_handle_def)

lemma settle_debt:
  "th_owed h \<noteq> Settled \<Longrightarrow> debt (settle_handle h) = debt h + (if th_owed h = OwesAdd then 1 else - 1)"
  by (cases "th_owed h") (simp_all add: debt.simps settle_handle_def)

lemma wrap_id: "0 \<le> n \<Longrightarrow> n < usize_mod \<Longrightarrow> wrap_usize n = n"
  by (simp add: wrap_usize_def)

lemma tx_step_inv:
  assumes "tx_inv s" and "tx_step s s'"
  shows "tx_inv s'"
  using assms(2)
proof cases
  case (send i h sig)
  define idle where "idle = (stopped_at sig \<noteq> None)"
  let ?f = "try_send_handle (channel_accepts s) idle"
  have d: "distinct (map fst (tx_handles s))" using assms(1) by (simp add: tx_inv_def)
  have "total_debt (map (\<lambda>(j, h). (j, if j = i then ?f h else h)) (tx_handles s)) = total_debt (tx_handles s)"
    using total_debt_update [OF d send(2), of ?f] send_debt [OF send(3)] by simp
  moreover have "\<forall>h \<in> snd ` set (map (\<lambda>(j, h). (j, if j = i then ?f h else h)) (tx_handles s)). handle_ok h"
  proof (rule update_keeps_ok)
    show "\<forall>h \<in> snd ` set (tx_handles s). handle_ok h" using assms(1) by (simp add: tx_inv_def)
    show "\<And>g. handle_ok g \<Longrightarrow> (i, g) \<in> set (tx_handles s) \<Longrightarrow> handle_ok (?f g)"
      using unique_handle [OF d send(2)] send(3) send_ok by blast
  qed
  ultimately show ?thesis using assms(1)
    unfolding send(1) try_send_def Let_def idle_def [symmetric]
    by (simp add: tx_inv_def update_keeps_keys del: map_map)
next
  case (settle i h)
  have d: "distinct (map fst (tx_handles s))" and ok: "\<forall>h \<in> snd ` set (tx_handles s). handle_ok h"
    using assms(1) by (simp_all add: tx_inv_def)
  let ?hs = "map (\<lambda>(j, h). (j, if j = i then settle_handle h else h)) (tx_handles s)"
  have t: "total_debt ?hs = total_debt (tx_handles s) + (if th_owed h = OwesAdd then 1 else - 1)"
    using total_debt_update [OF d settle(2), of settle_handle] settle_debt [OF settle(3)] by simp
  have ok': "\<forall>h \<in> snd ` set ?hs. handle_ok h"
    using update_keeps_ok [OF ok, of i settle_handle] by (auto simp: handle_ok_def settle_handle_def)
  have "0 \<le> total_debt ?hs \<and> total_debt ?hs < usize_mod"
    using total_debt_bounds [OF ok'] assms(1) by (auto simp: tx_inv_def)
  then have "wrap_usize (total_debt (tx_handles s) + (if th_owed h = OwesAdd then 1 else - 1)) = total_debt ?hs"
    using t wrap_id by simp
  then show ?thesis using assms(1) settle(1) ok'
    by (simp add: tx_inv_def SignalChannel.settle_def update_keeps_keys del: map_map)
next
  case (clone i h j)
  then show ?thesis using assms(1)
    by (auto simp: tx_inv_def total_debt_def handle_new_def debt.simps handle_ok_def)
next
  case (drop_h i h)
  have d: "distinct (map fst (tx_handles s))" and ok: "\<forall>h \<in> snd ` set (tx_handles s). handle_ok h"
    using assms(1) by (simp_all add: tx_inv_def)
  let ?hs = "filter (\<lambda>(j, _). j \<noteq> i) (tx_handles s)"
  have t: "total_debt ?hs = total_debt (tx_handles s) - (if th_lost h then 1 else 0)"
    using total_debt_remove [OF d drop_h(2)] drop_h(3) by (simp add: debt.simps)
  have ok': "\<forall>h \<in> snd ` set ?hs. handle_ok h" using ok by auto
  have len: "length ?hs \<le> length (tx_handles s)" by (rule length_filter_le)
  have b: "0 \<le> total_debt ?hs \<and> total_debt ?hs < usize_mod"
    using total_debt_bounds [OF ok'] len assms(1) unfolding tx_inv_def by linarith
  have ln: "int (length ?hs) < usize_mod" using len assms(1) unfolding tx_inv_def by linarith
  have "distinct (map fst ?hs)" using d by (rule distinct_map_filter)
  then show ?thesis using assms(1) drop_h(1) ok' t b ln
    by (auto simp: tx_inv_def drop_handle_def wrap_id)
qed (use assms(1) in \<open>simp_all add: tx_inv_def forward_motion_health_def forward_teardown_def Let_def\<close>)

lemma tx_inv_new: "tx_inv tx_new"
  by (simp add: tx_inv_def tx_new_def handle_new_def handle_ok_def total_debt_def debt.simps usize_mod_def)

lemma reachable_inv: "tx_reachable s \<Longrightarrow> tx_inv s"
  by (induction rule: tx_reachable.induct) (auto intro: tx_inv_new tx_step_inv)

subsection \<open>Properties\<close>

text \<open>A lost motion signal forces fail-open. In every reachable state of the channel, under
  every interleaving of the sources and the forwarder, the shared counter lies between 0 and the
  number of handles (it never wraps), and while some handle has a booked loss that its next
  accepted STOP has not yet returned, a recomputation of the forwarder publishes "unhealthy";
  when no handle is in debt it publishes the health of the detector.\<close>

theorem lost_signal_fails_open:
  assumes "tx_reachable s"
  shows "0 \<le> tx_lost_handles s \<and> tx_lost_handles s \<le> int (length (tx_handles s)) \<and>
    (list_ex (\<lambda>(i, h). th_lost h \<and> th_owed h = Settled) (tx_handles s) \<longrightarrow>
       \<not> tx_recording (forward_motion_health s)) \<and>
    (list_all (\<lambda>(i, h). \<not> th_lost h \<and> th_owed h = Settled) (tx_handles s) \<longrightarrow>
       tx_recording (forward_motion_health s) = tx_detector s)"
proof -
  have inv: "tx_inv s" by (rule reachable_inv [OF assms])
  then have ok: "\<forall>h \<in> snd ` set (tx_handles s). handle_ok h" by (simp add: tx_inv_def)
  have pos: "0 < total_debt (tx_handles s)"
    if l: "list_ex (\<lambda>(i, h). th_lost h \<and> th_owed h = Settled) (tx_handles s)"
  proof -
    obtain x where "x \<in> set (tx_handles s)" "th_lost (snd x)" "th_owed (snd x) = Settled"
      using l by (auto simp: list_ex_iff split_beta)
    moreover obtain i h where "x = (i, h)" by force
    ultimately have h: "(i, h) \<in> set (tx_handles s)" "th_lost h" "th_owed h = Settled"
      by simp_all
    have "total_debt (filter (\<lambda>(j, _). j \<noteq> i) (tx_handles s)) = total_debt (tx_handles s) - 1"
      using total_debt_remove [OF _ h(1)] inv h(2,3) by (simp add: tx_inv_def debt.simps)
    moreover have "0 \<le> total_debt (filter (\<lambda>(j, _). j \<noteq> i) (tx_handles s))"
      using total_debt_bounds [of "filter (\<lambda>(j, _). j \<noteq> i) (tx_handles s)"] ok by auto
    ultimately show ?thesis by simp
  qed
  have zero: "total_debt hs = 0" if "list_all (\<lambda>(i, h). \<not> th_lost h \<and> th_owed h = Settled) hs" for hs
    using that by (induction hs) (auto simp: total_debt_def debt.simps)
  show ?thesis using inv total_debt_bounds [OF ok] pos zero
    by (auto simp: tx_inv_def forward_motion_health_def Let_def)
qed

theorem lost_signal_fails_open_witness:
  "let sig = \<lparr>sig_camera = 1, started_at = 0, stopped_at = None, peak_score = 0, sig_bbox = None\<rparr>;
       gone = tx_new\<lparr>tx_receiver_alive := False\<rparr>;
       s = settle (try_send gone 0 sig) 0 OwesAdd
   in \<not> tx_recording (forward_motion_health s) \<and> tx_lost_handles s = 1"
proof -
  let ?sig = "\<lparr>sig_camera = 1, started_at = 0, stopped_at = None, peak_score = 0, sig_bbox = None\<rparr>"
  let ?gone = "tx_new\<lparr>tx_receiver_alive := False\<rparr>"
  let ?sent = "try_send ?gone 0 ?sig"
  let ?s = "settle ?sent 0 OwesAdd"
  have h: "tx_handles ?sent = [(0, \<lparr>th_lost = True, th_owed = OwesAdd\<rparr>)]" by code_simp
  have "tx_reachable ?gone" by (rule tx_reachable.step [OF tx_reachable.init receiver_gone])
  then have "tx_reachable ?sent"
    by (rule tx_reachable.step) (rule tx_step.send [of 0 handle_new], simp_all add: tx_new_def handle_new_def)
  moreover have "tx_step ?sent (settle ?sent 0 (th_owed \<lparr>th_lost = True, th_owed = OwesAdd\<rparr>))"
    by (rule tx_step.settle) (simp_all only: h, simp_all)
  ultimately have r: "tx_reachable ?s" by (simp add: tx_reachable.step)
  have "list_ex (\<lambda>(i, h). th_lost h \<and> th_owed h = Settled) (tx_handles ?s)" "tx_lost_handles ?s = 1"
    by code_simp+
  then show ?thesis using lost_signal_fails_open [OF r] by (simp add: Let_def)
qed

end
