(* ===== verification/SourceDelivery.thy ===== *)
theory SourceDelivery
  imports EventSources SignalChannel
begin

text \<open>
  What reaches the recorder of a source's events. A tracker sends its transitions through its own handle
  of the motion channel (\<open>emit\<close> of \<open>services/recorder/src/frigate_motion.rs\<close>, also called by
  \<open>ha_motion.rs\<close>); the send never blocks, so on a full or closed channel the signal is dropped and the
  handle is in debt. \<open>linked\<close> runs one source next to everything else that happens on the channel.
\<close>

text \<open>The result says whether the channel took the signal. When it did not, the code only logs it.\<close>

definition emit :: "tx_state \<Rightarrow> nat \<Rightarrow> uuid \<Rightarrow> transition \<Rightarrow> bool \<times> tx_state" where
  "emit x i cam t = (channel_accepts x, try_send x i (signal_of cam t))"

text \<open>
  A source with tracker \<open>step\<close> and handle \<open>i\<close>, the channel, and the log of the source's sends with their
  results. Between two of its sends anything may happen on the channel (other sources send, the recorder
  receives or goes away, handles come and go, the forwarder runs), and the handle may settle its counter
  update; nobody else sends through the handle or drops it.
\<close>

definition handle_kept :: "nat \<Rightarrow> tx_state \<Rightarrow> tx_state \<Rightarrow> bool" where
  "handle_kept i x x' \<longleftrightarrow> i \<in> fst ` set (tx_handles x') \<and>
     (\<forall>h. (i, h) \<in> set (tx_handles x') \<longrightarrow> (\<exists>g. (i, g) \<in> set (tx_handles x) \<and> (h = g \<or> h = settle_handle g)))"

inductive linked ::
  "('s \<Rightarrow> 'e \<Rightarrow> transition option \<times> 's) \<Rightarrow> nat \<Rightarrow> uuid \<Rightarrow> 's \<Rightarrow> 's \<Rightarrow> tx_state \<Rightarrow> (motion_signal \<times> bool) list \<Rightarrow> bool"
  for step i cam s0
where
  launch: "tx_reachable x \<Longrightarrow> (i, handle_new) \<in> set (tx_handles x) \<Longrightarrow> linked step i cam s0 s0 x []"
| quiet: "linked step i cam s0 s x sent \<Longrightarrow> step s e = (None, s') \<Longrightarrow> linked step i cam s0 s' x sent"
| send: "linked step i cam s0 s x sent \<Longrightarrow> step s e = (Some t, s') \<Longrightarrow> (i, h) \<in> set (tx_handles x) \<Longrightarrow>
    th_owed h = Settled \<Longrightarrow> emit x i cam t = (ok, x') \<Longrightarrow>
    linked step i cam s0 s' x' (sent @ [(signal_of cam t, ok)])"
| other: "linked step i cam s0 s x sent \<Longrightarrow> tx_step x x' \<Longrightarrow> handle_kept i x x' \<Longrightarrow> linked step i cam s0 s x' sent"

text \<open>The signals the recorder gets, and whether the source still owes one: a send was refused and no STOP was
  accepted since.\<close>

definition delivered :: "(motion_signal \<times> bool) list \<Rightarrow> motion_signal list" where
  "delivered sent = map fst (filter snd sent)"

fun owes :: "bool \<Rightarrow> (motion_signal \<times> bool) list \<Rightarrow> bool" where
  "owes b [] = b"
| "owes b ((sig, ok) # sent) = owes (if ok then b \<and> stopped_at sig = None else True) sent"

lemma owes_snoc: "owes b (sent @ [(sig, ok)]) = (if ok then owes b sent \<and> stopped_at sig = None else True)"
  by (induction b sent rule: owes.induct) auto

definition debt_of :: "nat \<Rightarrow> tx_state \<Rightarrow> bool \<Rightarrow> bool" where
  "debt_of i x b \<longleftrightarrow> (\<exists>h. (i, h) \<in> set (tx_handles x) \<and> th_lost h = b)"

lemma reachable_unique: "tx_reachable x \<Longrightarrow> (i, h) \<in> set (tx_handles x) \<Longrightarrow> (i, g) \<in> set (tx_handles x) \<Longrightarrow> g = h"
  using reachable_inv unique_handle unfolding tx_inv_def by metis

lemma emit_handle:
  assumes "(i, h) \<in> set (tx_handles x)" and "emit x i cam t = (ok, x')"
  shows "(i, try_send_handle ok (stopped_at (signal_of cam t) \<noteq> None) h) \<in> set (tx_handles x')"
  using assms by (force simp: emit_def try_send_def Let_def)

lemma linked_debt:
  assumes "linked step i cam s0 s x sent"
  shows "tx_reachable x \<and> debt_of i x (owes False sent)"
  using assms
proof (induction rule: linked.induct)
  case (launch x)
  then show ?case by (auto simp: debt_of_def handle_new_def)
next
  case (send s x sent e t s' h ok x')
  have r: "tx_reachable x'"
    using tx_reachable.step [OF _ tx_step.send [OF send.hyps(3,4)]] send.IH send.hyps(5) by (auto simp: emit_def)
  obtain g where "(i, g) \<in> set (tx_handles x)" "th_lost g = owes False sent" using send.IH by (auto simp: debt_of_def)
  then have lost: "th_lost h = owes False sent" using reachable_unique send.hyps(3) send.IH by blast
  have "th_lost (try_send_handle ok (stopped_at (signal_of cam t) \<noteq> None) h) = owes False (sent @ [(signal_of cam t, ok)])"
    by (auto simp: try_send_handle_def owes_snoc lost)
  then show ?case using r emit_handle [OF send.hyps(3,5)] unfolding debt_of_def by blast
next
  case (other s x sent x')
  obtain h where h: "(i, h) \<in> set (tx_handles x')" using other.hyps(3) by (auto simp: handle_kept_def)
  then obtain g where g: "(i, g) \<in> set (tx_handles x)" "h = g \<or> h = settle_handle g"
    using other.hyps(3) by (auto simp: handle_kept_def)
  then have "th_lost h = th_lost g" by (auto simp: settle_handle_def)
  moreover have "th_lost g = owes False sent"
    using other.IH g(1) reachable_unique by (auto simp: debt_of_def)
  ultimately have "debt_of i x' (owes False sent)" using h by (auto simp: debt_of_def)
  then show ?case using tx_reachable.step other by blast
qed simp

text \<open>While the handle is in debt and its counter update is made, the forwarder publishes unhealthy.\<close>

lemma debt_fails_open:
  assumes "tx_reachable x" and "debt_of i x True" and "\<forall>h. (i, h) \<in> set (tx_handles x) \<longrightarrow> th_owed h = Settled"
  shows "\<not> tx_recording (forward_motion_health x)"
proof -
  have "list_ex (\<lambda>(i, h). th_lost h \<and> th_owed h = Settled) (tx_handles x)"
    using assms(2,3) by (auto simp: debt_of_def list_ex_iff)
  then show ?thesis using lost_signal_fails_open [OF assms(1)] by blast
qed

text \<open>What the recorder gets of the source, given the source's open event.\<close>

definition matches_or_fails_open :: "nat \<Rightarrow> instant option \<Rightarrow> tx_state \<Rightarrow> (motion_signal \<times> bool) list \<Rightarrow> bool" where
  "matches_or_fails_open i cur x sent \<longleftrightarrow>
     (\<forall>t. cur = Some t \<longrightarrow> t \<in> open_events (delivered sent) \<or> owes False sent) \<and>
     (list_all snd sent \<longrightarrow> open_events (delivered sent) = set_option cur) \<and>
     (owes False sent \<and> (\<forall>h. (i, h) \<in> set (tx_handles x) \<longrightarrow> th_owed h = Settled) \<longrightarrow>
        \<not> tx_recording (forward_motion_health x))"

lemma delivered_snoc: "delivered (sent @ [(sig, ok)]) = delivered sent @ (if ok then [sig] else [])"
  by (simp add: delivered_def)

lemma open_events_snoc: "open_events (sigs @ [sig]) = open_after (open_events sigs) sig"
  by (simp add: open_events_def)

context event_source
begin

lemma linked_open:
  assumes "linked step i cam s0 s x sent" and "opened s0 = None"
  shows "(\<forall>t. opened s = Some t \<longrightarrow> t \<in> open_events (delivered sent) \<or> owes False sent) \<and>
    (list_all snd sent \<longrightarrow> open_events (delivered sent) = set_option (opened s))"
  using assms
proof (induction rule: linked.induct)
  case (launch x)
  then show ?case by (simp add: delivered_def open_events_def)
next
  case (quiet s x sent e s')
  then show ?case using quiet_keeps by metis
next
  case (send s x sent e t s' h ok x')
  show ?case
  proof (cases t)
    case (Start a p)
    have "opened s = None" "opened s' = Some a" using start_opens send.hyps(2) Start by blast+
    then show ?thesis using send.IH send.prems Start
      by (auto simp: delivered_snoc open_events_snoc owes_snoc signal_of_def open_after.simps)
  next
    case (Stop a u p)
    have "opened s = Some a" "opened s' = None" using stop_closes send.hyps(2) Stop by blast+
    then show ?thesis using send.IH send.prems Stop
      by (auto simp: delivered_snoc open_events_snoc owes_snoc signal_of_def open_after.simps)
  qed
qed simp_all

lemma linked_matches:
  assumes "linked step i cam s0 s x sent" and "opened s0 = None"
  shows "matches_or_fails_open i (opened s) x sent"
proof -
  have "debt_of i x (owes False sent)" "tx_reachable x" using linked_debt [OF assms(1)] by simp_all
  then show ?thesis
    using linked_open [OF assms] debt_fails_open [of x i] unfolding matches_or_fails_open_def
    by (cases "owes False sent") auto
qed

end

text \<open>C36. A source's open event is the recorder's, or the camera fails open. A Frigate or Home Assistant
  source sends its transitions through its handle of the motion channel, which may refuse any of them (full,
  or the recorder gone), interleaved with everything else that happens on the channel. At every moment: the
  event the tracker has open is open in what the recorder was given, or the source owes a signal (a send was
  refused and no STOP of the source was accepted since); while it owes one and its counter update is made,
  the forwarder publishes unhealthy, so the camera records everything; and as long as no send was refused,
  the events open in what the recorder was given are exactly the tracker's open event, none once the source
  is torn down with \<open>force_stop\<close>.\<close>

theorem open_event_delivered_or_fail_open:
  shows "(linked tracker_step i cam tracker_new c x sent \<longrightarrow> matches_or_fails_open i (ct_started_at c) x sent) \<and>
    (linked ha_signal_step i cam (ha_tracker_new classes) a x sent \<longrightarrow> matches_or_fails_open i (ha_opened a) x sent) \<and>
    ct_started_at (snd (tracker_step c (ForceStop now))) = None \<and>
    ha_opened (snd (ha_signal_step a (ForceStop now))) = None"
proof -
  have "ct_started_at tracker_new = None" "ha_opened (ha_tracker_new classes) = None"
    by (simp_all add: tracker_new_def ha_tracker_new_def ha_opened_def)
  moreover have "ct_started_at (snd (tracker_step c (ForceStop now))) = None"
    by (simp add: force_stop_def tracker_new_def split: option.split)
  moreover have "ha_opened (snd (ha_signal_step a (ForceStop now))) = None"
    by (simp add: ha_signal_step_def ha_force_stop_def ha_opened_def ha_reset_def split: option.split)
  ultimately show ?thesis using frigate.linked_matches home_assistant.linked_matches by blast
qed

text \<open>The recorder has gone away when the source opens an event: the event is lost, and the camera fails open.\<close>

theorem open_event_delivered_or_fail_open_witness:
  "\<exists>c x sent. linked tracker_step 0 7 tracker_new c x sent \<and> ct_started_at c = Some 0 \<and>
     delivered sent = [] \<and> \<not> tx_recording (forward_motion_health x)"
proof -
  let ?ev = "\<lparr>oe_camera = ''gate'', oe_object = ''o1'', oe_ended = False, oe_score = 1\<rparr>"
  let ?gone = "tx_new\<lparr>tx_receiver_alive := False\<rparr>"
  let ?c = "snd (tracker_step tracker_new (Observe ?ev 0))"
  let ?tried = "try_send ?gone 0 (signal_of 7 (Start 0 1))"
  let ?x = "settle ?tried 0 OwesAdd"
  have h: "tx_handles ?tried = [(0, \<lparr>th_lost = True, th_owed = OwesAdd\<rparr>)]" by code_simp
  have h': "tx_handles ?x = [(0, \<lparr>th_lost = True, th_owed = Settled\<rparr>)]" by code_simp
  have "tx_reachable ?gone" by (rule tx_reachable.step [OF tx_reachable.init receiver_gone])
  then have "linked tracker_step 0 7 tracker_new tracker_new ?gone []"
    by (rule linked.launch) (simp add: tx_new_def)
  moreover have step: "tracker_step tracker_new (Observe ?ev 0) = (Some (Start 0 1), ?c)"
    by (simp add: observe_def tracker_new_def Let_def)
  moreover have "(0, handle_new) \<in> set (tx_handles ?gone)" "th_owed handle_new = Settled"
    by (simp_all add: tx_new_def handle_new_def)
  moreover have "emit ?gone 0 7 (Start 0 1) = (False, ?tried)" by (simp add: emit_def channel_accepts_def)
  ultimately have l1: "linked tracker_step 0 7 tracker_new ?c ?tried ([] @ [(signal_of 7 (Start 0 1), False)])"
    by (rule linked.send)
  have "tx_step ?tried (settle ?tried 0 (th_owed \<lparr>th_lost = True, th_owed = OwesAdd\<rparr>))"
    by (rule tx_step.settle) (simp_all only: h, simp_all)
  then have st: "tx_step ?tried ?x" by simp
  have "handle_kept 0 ?tried ?x" by (simp only: handle_kept_def h h') (simp add: settle_handle_def)
  from linked.other [OF l1 st this] have l: "linked tracker_step 0 7 tracker_new ?c ?x [(signal_of 7 (Start 0 1), False)]"
    by simp
  have "\<not> tx_recording (forward_motion_health ?x)"
    using open_event_delivered_or_fail_open [THEN conjunct1, rule_format, OF l] h'
    unfolding matches_or_fails_open_def by simp
  moreover have "ct_started_at ?c = Some 0" by (simp add: observe_def tracker_new_def Let_def)
  ultimately show ?thesis using l by (intro exI conjI) (auto simp: delivered_def)
qed

end
