(* ===== verification/Dangling.thy ===== *)
theory Dangling
  imports SweepSafety
begin

text \<open>
  The first half of the background reconciliation of \<open>services/recorder/src/reconcile.rs\<close>: the
  pass over the rows of the index. It removes rows whose file is gone, removes unusable stubs, and
  corrects recorded sizes, one keyset page at a time, behind the guard against unmounted storages.

  The world is the \<open>vault\<close> of the archiver. \<open>dn_latched\<close> is the process-wide set of latched roots of
  this module (\<open>TRIPPED_STORAGE_ROOTS\<close>), which the sweeps read as \<open>ve_reconcile_tripped\<close>. Parameters:
  the modification time a \<open>stat\<close> reports, the segment length and the shutdown token. A row is checked
  against the page it was read in and, before it is removed, against the index as it is then.
\<close>

definition dangling_breaker_min_missing :: nat where "dangling_breaker_min_missing = 100"
definition dangling_breaker_missing_pct :: nat where "dangling_breaker_missing_pct = 50"
definition reconcile_page_size :: nat where "reconcile_page_size = 10000"
definition playable_floor_bytes :: nat where "playable_floor_bytes = 512"

definition dangling_breaker_trips :: "nat \<Rightarrow> nat \<Rightarrow> bool" where
  "dangling_breaker_trips checked missing \<longleftrightarrow>
     dangling_breaker_min_missing < missing \<and>
     sat_mul_u64 checked dangling_breaker_missing_pct < sat_mul_u64 missing 100"

record recon_env =
  re_mtime :: "nat \<Rightarrow> path \<Rightarrow> instant option"
  re_segment_len :: instant
  re_stopped :: "nat \<Rightarrow> bool"

record storage_guard =
  gd_marker_ok :: bool
  gd_checked :: nat
  gd_missing :: nat
  gd_deleted :: nat
  gd_tripped :: bool

definition guard_new :: "bool \<Rightarrow> storage_guard" where
  "guard_new ok = \<lparr>gd_marker_ok = ok, gd_checked = 0, gd_missing = 0, gd_deleted = 0, gd_tripped = False\<rparr>"

record dangling =
  dn_cache :: "uuid \<Rightarrow> path option"
  dn_guards :: "path \<Rightarrow> storage_guard option"
  dn_latched :: "path list"
  dn_deleted :: nat
  dn_repaired :: nat

definition on_guard :: "(storage_guard \<Rightarrow> storage_guard) \<Rightarrow> path \<Rightarrow> dangling \<Rightarrow> dangling" where
  "on_guard f base d = d\<lparr>dn_guards := (dn_guards d)(base := map_option f (dn_guards d base))\<rparr>"

subsection \<open>One row\<close>

text \<open>\<open>metadata\<close> of a file: its length, \<open>NotFound\<close>, or another error.\<close>

datatype lookup = Found nat | NotFound | LookupError

definition stat_len :: "vault_env \<Rightarrow> path \<Rightarrow> vault \<Rightarrow> lookup \<times> vault" where
  "stat_len e p w =
     (let (f, w1) = draw e w in
      (if broken f then LookupError
       else case disk w (ve_canon e p) of None \<Rightarrow> NotFound | Some b \<Rightarrow> Found (length b), w1))"

definition resolve_path ::
  "vault_env \<Rightarrow> uuid \<Rightarrow> dangling \<Rightarrow> vault \<Rightarrow> (move_error + path option) \<times> dangling \<times> vault" where
  "resolve_path e i d w =
     (case dn_cache d i of
        Some p \<Rightarrow> (Inr (Some p), d, w)
      | None \<Rightarrow>
          (case get_storage e i w of
             (Inr (Some s), w1) \<Rightarrow>
               (Inr (Some (st_path s)), d\<lparr>dn_cache := (dn_cache d)(i \<mapsto> st_path s)\<rparr>, w1)
           | (Inr None, w1) \<Rightarrow> (Inr None, d, w1)
           | (Inl er, w1) \<Rightarrow> (Inl er, d, w1)))"

definition drop_row :: "vault_env \<Rightarrow> uuid \<Rightarrow> dangling \<Rightarrow> vault \<Rightarrow> bool \<times> dangling \<times> vault" where
  "drop_row e i d w =
     (case delete_segment_row e i w of
        (Inl _, w1) \<Rightarrow> (False, d, w1)
      | (Inr _, w1) \<Rightarrow> (True, d\<lparr>dn_deleted := dn_deleted d + 1\<rparr>, w1))"

definition open_guard :: "vault_env \<Rightarrow> path \<Rightarrow> dangling \<Rightarrow> vault \<Rightarrow> dangling \<times> vault" where
  "open_guard e base d w =
     (if dn_guards d base \<noteq> None then (d, w)
      else let latched = base \<in> set (dn_latched d);
               (ok, w1) = (if latched then (False, w) else marker_present e base w);
               w2 = (if ok then w1 else raise_storage_event e w1)
           in (d\<lparr>dn_guards := (dn_guards d)(base \<mapsto> guard_new ok)\<rparr>, w2))"

definition guard_confirms :: "dangling \<Rightarrow> path \<Rightarrow> bool" where
  "guard_confirms d base \<longleftrightarrow> (case dn_guards d base of Some g \<Rightarrow> gd_marker_ok g | None \<Rightarrow> False)"

definition get_segment :: "vault_env \<Rightarrow> uuid \<Rightarrow> vault \<Rightarrow> (move_error + segment option) \<times> vault" where
  "get_segment e i w =
     (let (f, w1) = draw e w
      in (if broken f then Inl OtherError else Inr (find (\<lambda>s. sg_id s = i) (index w)), w1))"

definition update_segment_size_bytes ::
  "vault_env \<Rightarrow> uuid \<Rightarrow> i64 \<Rightarrow> vault \<Rightarrow> (move_error + unit) \<times> vault" where
  "update_segment_size_bytes e i n w =
     (let (f, w1) = draw e w in
      if broken f then (Inl OtherError, w1)
      else (Inr (), w1\<lparr>index := map (\<lambda>s. if sg_id s = i then s\<lparr>sg_size := n\<rparr> else s) (index w)\<rparr>))"

text \<open>The file is there: skip what may still be written, remove a stub, correct the size.\<close>

definition check_present ::
  "recon_env \<Rightarrow> vault_env \<Rightarrow> segment \<Rightarrow> path \<Rightarrow> nat \<Rightarrow> dangling \<Rightarrow> vault \<Rightarrow> dangling \<times> vault" where
  "check_present re e seg p n d w =
     (if (case re_mtime re (draws w) p of
            Some m \<Rightarrow> mtime_in_flight (ve_now e) m (re_segment_len re) (2 * re_segment_len re)
          | None \<Rightarrow> False) then (d, w)
      else if n < playable_floor_bytes then snd (drop_row e (sg_id seg) d (snd (unlink e p w)))
      else if int n \<noteq> sg_size seg then
        (case update_segment_size_bytes e (sg_id seg) (int n) w of
           (Inl _, w1) \<Rightarrow> (d, w1)
         | (Inr _, w1) \<Rightarrow> (d\<lparr>dn_repaired := dn_repaired d + 1\<rparr>, w1))
      else (d, w))"

text \<open>The breaker decides on the root of the row as it was read in its page.\<close>

definition breaker_allows :: "vault_env \<Rightarrow> path \<Rightarrow> dangling \<Rightarrow> vault \<Rightarrow> bool \<times> dangling \<times> vault" where
  "breaker_allows e base d w =
     (case dn_guards d base of
        Some g \<Rightarrow>
          if gd_tripped g then (False, d, w)
          else if dangling_breaker_trips (gd_checked g) (gd_missing g)
          then (False, (on_guard (\<lambda>g. g\<lparr>gd_tripped := True\<rparr>) base d)\<lparr>dn_latched := List.insert base (dn_latched d)\<rparr>,
                raise_storage_event e w)
          else (True, d, w)
      | None \<Rightarrow> (True, d, w))"

text \<open>The file is missing where the page says: look at the row again before removing it.\<close>

definition recheck_missing ::
  "vault_env \<Rightarrow> segment \<Rightarrow> path \<Rightarrow> dangling \<Rightarrow> vault \<Rightarrow> dangling \<times> vault" where
  "recheck_missing e seg base d w =
     (case get_segment e (sg_id seg) w of
        (Inr (Some cur), w1) \<Rightarrow>
          (case resolve_path e (sg_storage cur) d w1 of
             (Inr (Some b2), d2, w2) \<Rightarrow>
               (case stat_len e (b2 @ sg_path cur) w2 of
                  (NotFound, w3) \<Rightarrow>
                    (case breaker_allows e base d2 w3 of
                       (False, d3, w4) \<Rightarrow> (d3, w4)
                     | (True, d3, w4) \<Rightarrow>
                         (case drop_row e (sg_id seg) d3 w4 of
                            (True, d4, w5) \<Rightarrow>
                              (on_guard (\<lambda>g. g\<lparr>gd_deleted := gd_deleted g + 1\<rparr>) base d4, w5)
                          | (False, d4, w5) \<Rightarrow> (d4, w5)))
                | (_, w3) \<Rightarrow> (d2, w3))
           | (_, d2, w2) \<Rightarrow> (d2, w2))
      | (_, w1) \<Rightarrow> (d, w1))"

definition check_row ::
  "recon_env \<Rightarrow> vault_env \<Rightarrow> segment \<Rightarrow> dangling \<times> vault \<Rightarrow> dangling \<times> vault" where
  "check_row re e seg x =
     (case resolve_path e (sg_storage seg) (fst x) (snd x) of
        (Inl _, d1, w1) \<Rightarrow> (d1, w1)
      | (Inr None, d1, w1) \<Rightarrow> snd (drop_row e (sg_id seg) d1 w1)
      | (Inr (Some base), d1, w1) \<Rightarrow>
          (let (d2, w2) = open_guard e base d1 w1 in
           if \<not> guard_confirms d2 base then (d2, w2)
           else let p = base @ sg_path seg;
                    d3 = on_guard (\<lambda>g. g\<lparr>gd_checked := gd_checked g + 1\<rparr>) base d2
                in case stat_len e p w2 of
                     (Found n, w3) \<Rightarrow> check_present re e seg p n d3 w3
                   | (NotFound, w3) \<Rightarrow>
                       recheck_missing e seg base (on_guard (\<lambda>g. g\<lparr>gd_missing := gd_missing g + 1\<rparr>) base d3) w3
                   | (LookupError, w3) \<Rightarrow> (d3, w3)))"

subsection \<open>The pages\<close>

definition list_segments_after ::
  "vault_env \<Rightarrow> uuid \<Rightarrow> nat \<Rightarrow> vault \<Rightarrow> (move_error + segment list) \<times> vault" where
  "list_segments_after e after n w =
     (let (f, w1) = draw e w in
      (if broken f then Inl OtherError
       else Inr (take n (sort_key sg_id (filter (\<lambda>s. after < sg_id s) (index w)))), w1))"

fun check_page ::
  "recon_env \<Rightarrow> vault_env \<Rightarrow> segment list \<Rightarrow> dangling \<times> vault \<Rightarrow> bool \<times> dangling \<times> vault" where
  "check_page re e [] x = (True, x)"
| "check_page re e (seg # rest) x =
     (if re_stopped re (draws (snd x)) then (False, x) else check_page re e rest (check_row re e seg x))"

function dangling_pages ::
  "recon_env \<Rightarrow> vault_env \<Rightarrow> nat \<Rightarrow> uuid \<Rightarrow> dangling \<times> vault \<Rightarrow> bool \<times> dangling \<times> vault" where
  "dangling_pages re e n cursor x =
     (if re_stopped re (draws (snd x)) then (False, x)
      else case list_segments_after e cursor n (snd x) of
             (Inl _, w1) \<Rightarrow> (False, fst x, w1)
           | (Inr page, w1) \<Rightarrow>
               if page = [] then (True, fst x, w1)
               else (case check_page re e page (fst x, w1) of
                       (False, y) \<Rightarrow> (False, y)
                     | (True, y) \<Rightarrow>
                         if length page < n then (True, y)
                         else dangling_pages re e n (sg_id (last page)) y))"
  by pat_completeness auto

definition dangling_new :: "path list \<Rightarrow> dangling" where
  "dangling_new latched =
     \<lparr>dn_cache = (\<lambda>_. None), dn_guards = (\<lambda>_. None), dn_latched = latched, dn_deleted = 0, dn_repaired = 0\<rparr>"

definition dangling_pass ::
  "recon_env \<Rightarrow> vault_env \<Rightarrow> path list \<Rightarrow> vault \<Rightarrow> bool \<times> dangling \<times> vault" where
  "dangling_pass re e latched w = dangling_pages re e reconcile_page_size 0 (dangling_new latched, w)"

subsection \<open>Seeding the markers\<close>

text \<open>
  A marker is written only where a recent segment of the storage is found. \<open>ve_storages\<close> are the
  rows in the order of \<open>list_storages\<close>.
\<close>

definition storage_marker_confirm_sample :: nat where "storage_marker_confirm_sample = 50"

definition list_recent_segment_paths_for_storage ::
  "vault_env \<Rightarrow> uuid \<Rightarrow> nat \<Rightarrow> vault \<Rightarrow> (move_error + path list) \<times> vault" where
  "list_recent_segment_paths_for_storage e i n w =
     (let (f, w1) = draw e w in
      (if broken f then Inl OtherError
       else Inr (take n (map sg_path (rev (sort_key sg_start (filter (\<lambda>s. sg_storage s = i) (index w)))))), w1))"

fun any_present :: "vault_env \<Rightarrow> path \<Rightarrow> path list \<Rightarrow> vault \<Rightarrow> bool \<times> vault" where
  "any_present e base [] w = (False, w)"
| "any_present e base (rel # rels) w =
     (case metadata_len e (base @ rel) w of
        (Some _, w1) \<Rightarrow> (True, w1)
      | (None, w1) \<Rightarrow> any_present e base rels w1)"

definition seed_marker :: "vault_env \<Rightarrow> storage_row \<Rightarrow> vault \<Rightarrow> vault" where
  "seed_marker e s w =
     (case marker_present e (st_path s) w of
        (True, w1) \<Rightarrow> w1
      | (False, w1) \<Rightarrow>
          (case stat_dev e (st_path s) w1 of
             (None, w2) \<Rightarrow> w2
           | (Some _, w2) \<Rightarrow>
               (case list_recent_segment_paths_for_storage e (st_id s) storage_marker_confirm_sample w2 of
                  (Inl _, w3) \<Rightarrow> w3
                | (Inr sample, w3) \<Rightarrow>
                    (case any_present e (st_path s) sample w3 of
                       (True, w4) \<Rightarrow> ensure_marker e (st_path s) w4
                     | (False, w4) \<Rightarrow> w4))))"

fun seed_markers :: "recon_env \<Rightarrow> vault_env \<Rightarrow> storage_row list \<Rightarrow> vault \<Rightarrow> vault" where
  "seed_markers re e [] w = w"
| "seed_markers re e (s # ss) w =
     (if re_stopped re (draws w) then w else seed_markers re e ss (seed_marker e s w))"

definition seed_storage_markers :: "recon_env \<Rightarrow> vault_env \<Rightarrow> vault \<Rightarrow> vault" where
  "seed_storage_markers re e w =
     (let (f, w1) = draw e w in if broken f then w1 else seed_markers re e (ve_storages e) w1)"

text \<open>The row half of a background pass: seed the markers, then walk the rows.\<close>

definition reconcile_rows ::
  "recon_env \<Rightarrow> vault_env \<Rightarrow> path list \<Rightarrow> vault \<Rightarrow> bool \<times> dangling \<times> vault" where
  "reconcile_rows re e latched w = dangling_pass re e latched (seed_storage_markers re e w)"

subsection \<open>What a row check can change\<close>

text \<open>The index after a check: rows may be gone and sizes corrected, nothing else.\<close>

definition same_place :: "segment \<Rightarrow> segment \<Rightarrow> bool" where
  "same_place s t \<longleftrightarrow> (\<exists>n. t = s\<lparr>sg_size := n\<rparr>)"

lemma same_place_refl [simp]: "same_place s s"
  by (auto simp: same_place_def intro: exI [of _ "sg_size s"])

lemma same_place_trans: "same_place s t \<Longrightarrow> same_place t u \<Longrightarrow> same_place s u"
  by (auto simp: same_place_def)

lemma same_place_simps:
  assumes "same_place s t"
  shows "sg_id t = sg_id s" "sg_storage t = sg_storage s" "sg_path t = sg_path s" "spot e t = spot e s"
    "places e t = places e s"
  using assms by (auto simp: same_place_def spot_def places_def dest_def)

definition trims :: "uuid \<Rightarrow> vault \<Rightarrow> vault \<Rightarrow> bool" where
  "trims i w w' \<longleftrightarrow>
     (\<exists>P n. index w' = map (\<lambda>s. if sg_id s = i then s\<lparr>sg_size := n s\<rparr> else s)
                         (filter (\<lambda>s. sg_id s = i \<longrightarrow> P s) (index w)))"

lemma trims_same: "index w' = index w \<Longrightarrow> trims i w w'"
  unfolding trims_def by (rule exI [of _ "\<lambda>_. True"], rule exI [of _ sg_size]) (simp add: map_idI)

lemma trims_drop: "index w' = filter (\<lambda>s. sg_id s \<noteq> i) (index w) \<Longrightarrow> trims i w w'"
  unfolding trims_def
  by (rule exI [of _ "\<lambda>_. False"], rule exI [of _ sg_size])
    (auto intro: map_idI [symmetric] filter_cong)

lemma trims_resize:
  "index w' = map (\<lambda>s. if sg_id s = i then s\<lparr>sg_size := k\<rparr> else s) (index w) \<Longrightarrow> trims i w w'"
  unfolding trims_def by (rule exI [of _ "\<lambda>_. True"], rule exI [of _ "\<lambda>_. k"]) simp

lemma trims_mem:
  assumes "trims i w w'" and "t \<in> set (index w')"
  shows "\<exists>s \<in> set (index w). same_place s t"
proof -
  obtain n s where "s \<in> set (index w)" "t = (if sg_id s = i then s\<lparr>sg_size := n s\<rparr> else s)"
    using assms by (force simp: trims_def)
  moreover have "same_place s (s\<lparr>sg_size := n s\<rparr>)" by (auto simp: same_place_def)
  ultimately show ?thesis by (cases "sg_id s = i") (auto intro: bexI [of _ s])
qed

lemma trims_other: "trims i w w' \<Longrightarrow> s \<in> set (index w) \<Longrightarrow> sg_id s \<noteq> i \<Longrightarrow> s \<in> set (index w')"
  by (force simp: trims_def)

lemma trims_others:
  assumes "trims i w w'"
  shows "filter (\<lambda>s. i < sg_id s) (index w') = filter (\<lambda>s. i < sg_id s) (index w)"
proof -
  obtain P n where p: "index w' = map (\<lambda>s. if sg_id s = i then s\<lparr>sg_size := n s\<rparr> else s)
      (filter (\<lambda>s. sg_id s = i \<longrightarrow> P s) (index w))" using assms by (auto simp: trims_def)
  have "filter (\<lambda>s. i < sg_id s) (map (\<lambda>s. if sg_id s = i then s\<lparr>sg_size := n s\<rparr> else s)
      (filter (\<lambda>s. sg_id s = i \<longrightarrow> P s) ss)) = filter (\<lambda>s. i < sg_id s) ss" for ss
    by (induction ss) auto
  then show ?thesis using p by simp
qed

lemma trims_distinct: "trims i w w' \<Longrightarrow> distinct (map sg_id (index w)) \<Longrightarrow> distinct (map sg_id (index w'))"
  by (auto simp: trims_def comp_def if_distrib [of sg_id] distinct_map_filter cong: if_cong)

lemma drop_row_frame:
  assumes "drop_row e i d w = (ok, d', w')"
  shows "disk w' = disk w" "trims i w w'" "dn_cache d' = dn_cache d" "dn_guards d' = dn_guards d"
    "dn_latched d' = dn_latched d"
  using assms delete_row_index [of e i w]
  by (auto simp: drop_row_def delete_segment_row_def draw_def trims_same trims_drop split: sum.splits if_splits)

lemma resolve_path_frame:
  assumes "resolve_path e i d w = (r, d', w')"
  shows "disk w' = disk w" "index w' = index w" "dn_guards d' = dn_guards d" "dn_latched d' = dn_latched d"
  using assms by (auto simp: resolve_path_def get_storage_def draw_def split: option.splits if_splits)

lemma open_guard_frame:
  assumes "open_guard e base d w = (d', w')"
  shows "disk w' = disk w" "index w' = index w" "dn_cache d' = dn_cache d" "dn_latched d' = dn_latched d"
    "b \<noteq> base \<Longrightarrow> dn_guards d' b = dn_guards d b"
  using assms by (auto simp: open_guard_def Let_def split: if_splits prod.splits)
    (metis marker_present_frame snd_conv)+

lemma stat_len_frame:
  assumes "stat_len e p w = (r, w')"
  shows "disk w' = disk w" "index w' = index w"
    "r = NotFound \<Longrightarrow> disk w (ve_canon e p) = None"
    "r = Found n \<Longrightarrow> \<exists>b. disk w (ve_canon e p) = Some b \<and> length b = n"
  using assms by (auto simp: stat_len_def draw_def split: option.splits if_splits)

lemma breaker_allows_frame:
  assumes "breaker_allows e base d w = (ok, d', w')"
  shows "disk w' = disk w" "index w' = index w" "dn_cache d' = dn_cache d"
    "set (dn_latched d) \<subseteq> set (dn_latched d')"
  using assms by (auto simp: breaker_allows_def on_guard_def split: option.splits if_splits)

definition cache_true :: "vault_env \<Rightarrow> dangling \<Rightarrow> bool" where
  "cache_true e d \<longleftrightarrow>
     (\<forall>i p. dn_cache d i = Some p \<longrightarrow> (\<exists>st. storage_of e i = Some st \<and> st_path st = p))"

definition markers_of :: "dangling \<Rightarrow> path \<Rightarrow> bool option" where
  "markers_of d base = map_option gd_marker_ok (dn_guards d base)"

lemma markers_on_guard [simp]:
  "(\<And>g. gd_marker_ok (f g) = gd_marker_ok g) \<Longrightarrow> markers_of (on_guard f base d) = markers_of d"
  by (auto simp: markers_of_def on_guard_def option.map_comp comp_def)

lemma on_guard_frame [simp]:
  "dn_cache (on_guard f base d) = dn_cache d" "dn_latched (on_guard f base d) = dn_latched d"
  by (simp_all add: on_guard_def)

lemma markers_latched [simp]: "markers_of (d\<lparr>dn_latched := l\<rparr>) = markers_of d"
  by (simp add: markers_of_def fun_eq_iff)

lemma markers_cong: "dn_guards d' = dn_guards d \<Longrightarrow> markers_of d' = markers_of d"
  by (simp add: markers_of_def fun_eq_iff)

lemma guard_confirms_iff: "guard_confirms d base \<longleftrightarrow> markers_of d base = Some True"
  by (simp add: guard_confirms_def markers_of_def split: option.split)

lemma resolve_path_true:
  assumes "cache_true e d" and "resolve_path e i d w = (r, d', w')"
  shows "cache_true e d'" "r = Inr (Some p) \<Longrightarrow> \<exists>st. storage_of e i = Some st \<and> st_path st = p"
    "r = Inr None \<Longrightarrow> storage_of e i = None"
  using assms
  by (auto simp: resolve_path_def cache_true_def get_storage_def draw_def split: option.splits if_splits)

lemma breaker_markers: "breaker_allows e base d w = (ok, d', w') \<Longrightarrow> markers_of d' = markers_of d"
  by (auto simp: breaker_allows_def split: option.splits if_splits)

lemma check_present_ok:
  assumes "check_present re e seg p n d w = (d', w')"
  shows "trims (sg_id seg) w w'" "q \<noteq> ve_canon e p \<Longrightarrow> disk w' q = disk w q"
    "disk w q = None \<Longrightarrow> disk w' q = None"
    "dn_cache d' = dn_cache d" "markers_of d' = markers_of d" "dn_latched d' = dn_latched d"
    "playable_floor_bytes \<le> n \<Longrightarrow> disk w' = disk w \<and> (\<forall>s \<in> set (index w). \<exists>s' \<in> set (index w'). same_place s s')"
proof -
  let ?skip = "case re_mtime re (draws w) p of
      Some m \<Rightarrow> mtime_in_flight (ve_now e) m (re_segment_len re) (2 * re_segment_len re) | None \<Rightarrow> False"
  obtain u w1 where u: "unlink e p w = (u, w1)" by force
  obtain ok d2 w2 where dr: "drop_row e (sg_id seg) d w1 = (ok, d2, w2)" by (metis prod_cases3)
  note drf = drop_row_frame [OF dr]
  have w1: "index w1 = index w" using unlink_frame(1) [of e p w] u by simp
  have tr: "trims (sg_id seg) w w2" using drf(2) w1 by (simp add: trims_def)
  obtain r w3 where up: "update_segment_size_bytes e (sg_id seg) (int n) w = (r, w3)" by force
  have w3: "disk w3 = disk w" "index w3 = index w \<or>
      index w3 = map (\<lambda>s. if sg_id s = sg_id seg then s\<lparr>sg_size := int n\<rparr> else s) (index w)"
    using up by (auto simp: update_segment_size_bytes_def draw_def split: if_splits)
  have t3: "trims (sg_id seg) w w3" using w3(2) trims_same trims_resize by blast
  consider (skip) "d' = d" "w' = w" | (stub) "n < playable_floor_bytes" "d' = d2" "w' = w2"
    | (resize) "\<not> n < playable_floor_bytes" "dn_cache d' = dn_cache d" "dn_guards d' = dn_guards d"
        "dn_latched d' = dn_latched d" "w' = w3"
    using assms u dr up by (auto simp: check_present_def split: if_splits sum.splits option.splits)
  note cases = this
  show "trims (sg_id seg) w w'" using cases tr t3 trims_same by cases auto
  show "q \<noteq> ve_canon e p \<Longrightarrow> disk w' q = disk w q"
    using cases by cases (use drf(1) unlink_other [of q e p w] u w3(1) in auto)
  show "disk w q = None \<Longrightarrow> disk w' q = None"
    using cases by cases (use drf(1) unlink_none [of w q e p] u w3(1) in auto)
  have dd: "dn_cache d' = dn_cache d \<and> dn_guards d' = dn_guards d \<and> dn_latched d' = dn_latched d"
    using cases by cases (use drf(3-5) in simp_all)
  then show "dn_cache d' = dn_cache d" "dn_latched d' = dn_latched d" by simp_all
  show "markers_of d' = markers_of d" by (rule markers_cong) (simp add: dd)
  have resized: "\<exists>s' \<in> set (index w3). same_place s s'" if s: "s \<in> set (index w)" for s
  proof (cases "index w3 = index w \<or> sg_id s \<noteq> sg_id seg")
    case True
    then show ?thesis using s w3(2) by (intro bexI [of _ s]) auto
  next
    case False
    then have "s\<lparr>sg_size := int n\<rparr> \<in> set (index w3)" using s w3(2) by force
    then show ?thesis by (auto simp: same_place_def)
  qed
  show "disk w' = disk w \<and> (\<forall>s \<in> set (index w). \<exists>s' \<in> set (index w'). same_place s s')"
    if n: "playable_floor_bytes \<le> n"
    using cases
  proof cases
    case skip
    then show ?thesis using same_place_refl by blast
  next
    case stub
    then show ?thesis using n by simp
  next
    case resize
    show ?thesis using resized w3(1) resize(5) by blast
  qed
qed

text \<open>The ways through a second look. A row is only removed when its file, as the row is now, is missing.\<close>

lemma recheck_missing_cases:
  assumes "recheck_missing e seg base d w = (d', w')"
  obtains (quiet) "disk w' = disk w" "index w' = index w" "dn_guards d' = dn_guards d"
      "dn_latched d' = dn_latched d" "cache_true e d \<Longrightarrow> cache_true e d'"
  | (refused) d2 w3 where "disk w3 = disk w" "index w3 = index w" "dn_guards d2 = dn_guards d"
      "dn_latched d2 = dn_latched d" "cache_true e d \<Longrightarrow> cache_true e d2"
      "breaker_allows e base d2 w3 = (False, d', w')"
  | (dropped) cur d2 w3 d3 w4 gone d4 where "cur \<in> set (index w)" "sg_id cur = sg_id seg"
      "cache_true e d \<Longrightarrow> \<exists>q. spot e cur = Some q \<and> disk w q = None"
      "disk w3 = disk w" "index w3 = index w" "dn_guards d2 = dn_guards d"
      "dn_latched d2 = dn_latched d" "cache_true e d \<Longrightarrow> cache_true e d2"
      "breaker_allows e base d2 w3 = (True, d3, w4)" "drop_row e (sg_id seg) d3 w4 = (gone, d4, w')"
      "d' = (if gone then on_guard (\<lambda>g. g\<lparr>gd_deleted := gd_deleted g + 1\<rparr>) base d4 else d4)"
proof -
  obtain g w1 where gs: "get_segment e (sg_id seg) w = (g, w1)" by force
  have w1: "disk w1 = disk w" "index w1 = index w"
    "\<And>cur. g = Inr (Some cur) \<Longrightarrow> cur \<in> set (index w) \<and> sg_id cur = sg_id seg"
    using gs by (auto simp: get_segment_def draw_def find_Some_iff split: if_splits)
  show ?thesis
  proof (cases "\<exists>cur. g = Inr (Some cur)")
    case False
    have "d' = d \<and> w' = w1"
    proof (cases g)
      case (Inr x)
      then have "x = None" using False by (cases x) auto
      then show ?thesis using assms gs Inr by (simp add: recheck_missing_def)
    qed (use assms gs in \<open>simp add: recheck_missing_def\<close>)
    then show ?thesis using quiet w1 by simp
  next
    case True
    then obtain cur where cur: "g = Inr (Some cur)" "cur \<in> set (index w)" "sg_id cur = sg_id seg" using w1(3) by blast
    obtain r d2 w2 where rp: "resolve_path e (sg_storage cur) d w1 = (r, d2, w2)" by (metis prod_cases3)
    note rf = resolve_path_frame [OF rp]
    have w2: "disk w2 = disk w" "index w2 = index w" using rf w1 by simp_all
    have c2: "cache_true e d \<Longrightarrow> cache_true e d2" by (rule resolve_path_true(1) [OF _ rp])
    show ?thesis
    proof (cases "\<exists>b2. r = Inr (Some b2)")
      case False
      have "d' = d2 \<and> w' = w2"
      proof (cases r)
        case (Inr x)
        then have "x = None" using False by (cases x) auto
        then show ?thesis using assms gs rp cur(1) Inr by (simp add: recheck_missing_def)
      qed (use assms gs rp cur(1) in \<open>simp add: recheck_missing_def\<close>)
      then show ?thesis using quiet w2 rf c2 by simp
    next
      case True
      then obtain b2 where b2: "r = Inr (Some b2)" by blast
      obtain l w3 where st: "stat_len e (b2 @ sg_path cur) w2 = (l, w3)" by force
      have w3: "disk w3 = disk w" "index w3 = index w" using stat_len_frame [OF st] w2 by simp_all
      show ?thesis
      proof (cases "l = NotFound")
        case False
        then have "d' = d2" "w' = w3"
          using assms gs rp cur(1) b2 st by (cases l; simp add: recheck_missing_def)+
        then show ?thesis using quiet w3 rf c2 by simp
      next
        case True
        obtain ok d3 w4 where br: "breaker_allows e base d2 w3 = (ok, d3, w4)" by (metis prod_cases3)
        obtain gone d4 w5 where dr: "drop_row e (sg_id seg) d3 w4 = (gone, d4, w5)" by (metis prod_cases3)
        note body = assms gs rp cur(1) b2 st True br dr
        show ?thesis
        proof (cases ok)
          case False
          then have "breaker_allows e base d2 w3 = (False, d', w')" using body by (simp add: recheck_missing_def)
          then show ?thesis using refused [OF w3] rf c2 by simp
        next
          case okay: True
          have "\<exists>q. spot e cur = Some q \<and> disk w q = None" if "cache_true e d"
            using resolve_path_true(2) [OF that rp b2] stat_len_frame(3) [OF st True] w2 by (auto simp: spot_def)
          moreover have "w' = w5" "d' = (if gone then on_guard (\<lambda>g. g\<lparr>gd_deleted := gd_deleted g + 1\<rparr>) base d4 else d4)"
            using body okay by (auto simp: recheck_missing_def split: bool.splits)
          ultimately show ?thesis using dropped [OF cur(2,3) _ w3 _ _ c2] br dr okay rf by simp
        qed
      qed
    qed
  qed
qed

lemma recheck_missing_trims:
  assumes "recheck_missing e seg base d w = (d', w')"
  shows "trims (sg_id seg) w w'"
  using assms
proof (cases rule: recheck_missing_cases)
  case quiet
  show ?thesis by (rule trims_same [OF quiet(2)])
next
  case (refused d2 w3)
  show ?thesis using breaker_allows_frame(2) [OF refused(6)] refused(2) by (intro trims_same) simp
next
  case (dropped cur d2 w3 d3 w4 gone d4)
  have "index w4 = index w" using breaker_allows_frame(2) [OF dropped(9)] dropped(5) by simp
  show ?thesis using drop_row_frame(2) [OF dropped(10)] unfolding trims_def \<open>index w4 = index w\<close> .
qed

lemma recheck_missing_ok:
  assumes "recheck_missing e seg base d w = (d', w')" and "cache_true e d"
  shows "disk w' = disk w" "cache_true e d'" "markers_of d' = markers_of d" "set (dn_latched d) \<subseteq> set (dn_latched d')"
proof -
  have "disk w' = disk w \<and> cache_true e d' \<and> markers_of d' = markers_of d \<and> set (dn_latched d) \<subseteq> set (dn_latched d')"
    using assms(1)
  proof (cases rule: recheck_missing_cases)
    case quiet
    show ?thesis using quiet(1,4) quiet(5) [OF assms(2)] markers_cong [OF quiet(3)] by simp
  next
    case (refused d2 w3)
    note bf = breaker_allows_frame [OF refused(6)]
    have "markers_of d' = markers_of d" using breaker_markers [OF refused(6)] markers_cong [OF refused(3)] by simp
    moreover have "cache_true e d'" using refused(5) [OF assms(2)] bf(3) by (simp add: cache_true_def)
    ultimately show ?thesis using bf refused(1,4) by simp
  next
    case (dropped cur d2 w3 d3 w4 gone d4)
    note bf = breaker_allows_frame [OF dropped(9)] and df = drop_row_frame [OF dropped(10)]
    have "markers_of d3 = markers_of d" using breaker_markers [OF dropped(9)] markers_cong [OF dropped(6)] by simp
    then have "markers_of d' = markers_of d" using markers_cong [OF df(4)] dropped(11) by simp
    moreover have "cache_true e d'" using dropped(8) [OF assms(2)] bf(3) df(3) dropped(11) by (simp add: cache_true_def)
    ultimately show ?thesis using bf df dropped(4,7,11) by simp
  qed
  then show "disk w' = disk w" "cache_true e d'" "markers_of d' = markers_of d" "set (dn_latched d) \<subseteq> set (dn_latched d')"
    by simp_all
qed

text \<open>A root whose rows this pass may not touch: not confirmed, and not confirmed earlier in the pass.\<close>

definition closed_root :: "vault_env \<Rightarrow> path \<Rightarrow> dangling \<times> vault \<Rightarrow> bool" where
  "closed_root e r x \<longleftrightarrow> markers_of (fst x) r = Some False \<or>
     (markers_of (fst x) r = None \<and>
        (r \<in> set (dn_latched (fst x)) \<or> disk (snd x) (ve_canon e (storage_marker_path r)) = None))"

definition root_of :: "vault_env \<Rightarrow> segment \<Rightarrow> path option" where
  "root_of e s = map_option st_path (storage_of e (sg_storage s))"

definition playable_at :: "vault_env \<Rightarrow> vault \<Rightarrow> segment \<Rightarrow> bool" where
  "playable_at e w s \<longleftrightarrow> (\<exists>q b. spot e s = Some q \<and> disk w q = Some b \<and> playable_floor_bytes \<le> length b)"

text \<open>What one check of \<open>seg\<close> guarantees: files of the playable floor and rows of closed roots stay.\<close>

definition gentle :: "vault_env \<Rightarrow> segment \<Rightarrow> dangling \<times> vault \<Rightarrow> dangling \<times> vault \<Rightarrow> bool" where
  "gentle e seg x y \<longleftrightarrow> trims (sg_id seg) (snd x) (snd y) \<and> cache_true e (fst y) \<and>
     (\<forall>q b. disk (snd x) q = Some b \<longrightarrow> playable_floor_bytes \<le> length b \<longrightarrow> disk (snd y) q = Some b) \<and>
     (\<forall>q. disk (snd x) q = None \<longrightarrow> disk (snd y) q = None) \<and>
     (\<forall>q. spot e seg \<noteq> Some q \<longrightarrow> disk (snd y) q = disk (snd x) q) \<and>
     (\<forall>r. closed_root e r x \<longrightarrow> closed_root e r y) \<and>
     (\<forall>s \<in> set (index (snd x)). same_place s seg \<longrightarrow>
        (playable_at e (snd x) s \<longrightarrow> (\<exists>s' \<in> set (index (snd y)). same_place s s')) \<and>
        (\<forall>r. root_of e s = Some r \<longrightarrow> closed_root e r x \<longrightarrow> s \<in> set (index (snd y))))"

lemma gentle_quiet:
  assumes "disk (snd y) = disk (snd x)" and "index (snd y) = index (snd x)" and "cache_true e (fst y)"
    and "\<And>r. closed_root e r x \<Longrightarrow> closed_root e r y"
  shows "gentle e seg x y"
proof -
  have "trims (sg_id seg) (snd x) (snd y)" using assms(2) by (rule trims_same)
  moreover have "\<exists>s' \<in> set (index (snd y)). same_place s s'" if "s \<in> set (index (snd x))" for s
    using that assms(2) by (intro bexI [of _ s]) simp_all
  ultimately show ?thesis using assms unfolding gentle_def by simp
qed

lemma closed_same:
  assumes "closed_root e r (d, w)" and "markers_of d' = markers_of d" and "set (dn_latched d) \<subseteq> set (dn_latched d')"
    and "\<And>q. disk w q = None \<Longrightarrow> disk w' q = None"
  shows "closed_root e r (d', w')"
  using assms by (auto simp: closed_root_def)

lemma open_guard_closed:
  assumes "open_guard e base d w = (d2, w2)" and "closed_root e r (d, w)"
  shows "closed_root e r (d2, w2)" and "\<not> guard_confirms d2 r \<or> r \<noteq> base"
proof -
  have "closed_root e r (d2, w2) \<and> (r = base \<longrightarrow> \<not> guard_confirms d2 r)"
  proof (cases "dn_guards d base")
    case (Some g)
    then have "d2 = d" "w2 = w" using assms(1) by (simp_all add: open_guard_def)
    then show ?thesis using assms(2) Some
      by (auto simp: closed_root_def guard_confirms_def markers_of_def)
  next
    case None
    obtain ok w1 where ok: "(if base \<in> set (dn_latched d) then (False, w) else marker_present e base w) = (ok, w1)"
      by force
    have d2: "d2 = d\<lparr>dn_guards := (dn_guards d)(base \<mapsto> guard_new ok)\<rparr>"
      using assms(1) None ok by (auto simp: open_guard_def)
    have fr: "disk w2 = disk w" using open_guard_frame(1) [OF assms(1)] .
    have "r = base \<Longrightarrow> \<not> ok"
      using assms(2) None ok marker_present_sound [of e base w] by (auto simp: closed_root_def markers_of_def split: if_splits)
    then show ?thesis
      using assms(2) d2 fr by (auto simp: closed_root_def markers_of_def guard_confirms_def guard_new_def)
  qed
  then show "closed_root e r (d2, w2)" "\<not> guard_confirms d2 r \<or> r \<noteq> base" by auto
qed

text \<open>The ways through one check.\<close>

lemma check_row_cases:
  obtains (unresolved) er d1 w1 where "resolve_path e (sg_storage seg) d w = (Inl er, d1, w1)"
      "check_row re e seg (d, w) = (d1, w1)"
  | (unknown) d1 w1 ok d2 w2 where "resolve_path e (sg_storage seg) d w = (Inr None, d1, w1)"
      "drop_row e (sg_id seg) d1 w1 = (ok, d2, w2)" "check_row re e seg (d, w) = (d2, w2)"
  | (unconfirmed) base d1 w1 d2 w2 where "resolve_path e (sg_storage seg) d w = (Inr (Some base), d1, w1)"
      "open_guard e base d1 w1 = (d2, w2)" "\<not> guard_confirms d2 base" "check_row re e seg (d, w) = (d2, w2)"
  | (stat) base d1 w1 d2 w2 d3 l w3 where "resolve_path e (sg_storage seg) d w = (Inr (Some base), d1, w1)"
      "open_guard e base d1 w1 = (d2, w2)" "guard_confirms d2 base"
      "d3 = on_guard (\<lambda>g. g\<lparr>gd_checked := gd_checked g + 1\<rparr>) base d2"
      "stat_len e (base @ sg_path seg) w2 = (l, w3)"
      "check_row re e seg (d, w) = (case l of
         Found n \<Rightarrow> check_present re e seg (base @ sg_path seg) n d3 w3
       | NotFound \<Rightarrow> recheck_missing e seg base (on_guard (\<lambda>g. g\<lparr>gd_missing := gd_missing g + 1\<rparr>) base d3) w3
       | LookupError \<Rightarrow> (d3, w3))"
proof -
  obtain r d1 w1 where rp: "resolve_path e (sg_storage seg) d w = (r, d1, w1)" by (metis prod_cases3)
  consider (er) er where "r = Inl er" | (none) "r = Inr None" | (known) base where "r = Inr (Some base)"
    by (metis sumE option.exhaust)
  then show ?thesis
  proof cases
    case er
    then show ?thesis by (intro unresolved [of er d1 w1]) (simp_all add: rp check_row_def)
  next
    case none
    obtain ok d2 w2 where dr: "drop_row e (sg_id seg) d1 w1 = (ok, d2, w2)" by (metis prod_cases3)
    then show ?thesis using none by (intro unknown [of d1 w1 ok d2 w2]) (simp_all add: rp check_row_def)
  next
    case known
    obtain d2 w2 where og: "open_guard e base d1 w1 = (d2, w2)" by force
    obtain l w3 where sl: "stat_len e (base @ sg_path seg) w2 = (l, w3)" by force
    show ?thesis
    proof (cases "guard_confirms d2 base")
      case True
      show ?thesis
        by (rule stat [OF rp [unfolded known] og True refl sl])
          (simp add: check_row_def rp known og sl True split: lookup.split)
    next
      case False
      show ?thesis
        by (rule unconfirmed [OF rp [unfolded known] og False]) (simp add: check_row_def rp known og False)
    qed
  qed
qed

lemma check_row_gentle:
  assumes "cache_true e (fst x)" and "distinct (map sg_id (index (snd x)))"
  shows "gentle e seg x (check_row re e seg x)"
proof -
  obtain d w where x: "x = (d, w)" by force
  have c0: "cache_true e d" using assms(1) x by simp
  have closed1: "closed_root e b (d1, w1)" if "closed_root e b (d, w)" "resolve_path e (sg_storage seg) d w = (r, d1, w1)"
    for b r d1 w1
    using resolve_path_frame [OF that(2)] by (intro closed_same [OF that(1) markers_cong]) simp_all
  have "gentle e seg (d, w) (check_row re e seg (d, w))"
    using check_row_cases [of e seg d w re]
  proof cases
    case (unresolved er d1 w1)
    note rf = resolve_path_frame [OF unresolved(1)]
    show ?thesis unfolding unresolved(2)
      using gentle_quiet [of "(d1, w1)" "(d, w)" e seg] rf resolve_path_true(1) [OF c0 unresolved(1)]
        closed1 [OF _ unresolved(1)] by simp
  next
    case (unknown d1 w1 ok d2 w2)
    note rf = resolve_path_frame [OF unknown(1)] and df = drop_row_frame [OF unknown(2)]
    have un: "storage_of e (sg_storage seg) = None" using resolve_path_true(3) [OF c0 unknown(1)] by simp
    have "closed_root e b (d2, w2)" if "closed_root e b (d, w)" for b
      by (rule closed_same [OF closed1 [OF that unknown(1)] markers_cong [OF df(4)]]) (simp_all add: df)
    moreover have "cache_true e d2" using resolve_path_true(1) [OF c0 unknown(1)] df(3) by (simp add: cache_true_def)
    moreover have "trims (sg_id seg) w w2" using df(2) rf(2) by (simp add: trims_def)
    moreover have "\<not> playable_at e w s \<and> root_of e s = None" if "same_place s seg" for s
      using un same_place_simps(2) [OF that] by (simp add: playable_at_def spot_def root_of_def)
    moreover have "disk w2 = disk w" using df(1) rf(1) by simp
    ultimately show ?thesis unfolding unknown(3) gentle_def by simp
  next
    case (unconfirmed base d1 w1 d2 w2)
    note rf = resolve_path_frame [OF unconfirmed(1)] and og = open_guard_frame [OF unconfirmed(2)]
    have "cache_true e d2" using resolve_path_true(1) [OF c0 unconfirmed(1)] og(3) by (simp add: cache_true_def)
    moreover have "closed_root e b (d2, w2)" if "closed_root e b (d, w)" for b
      by (rule open_guard_closed(1) [OF unconfirmed(2) closed1 [OF that unconfirmed(1)]])
    ultimately show ?thesis unfolding unconfirmed(4)
      using gentle_quiet [of "(d2, w2)" "(d, w)" e seg] rf og by simp
  next
    case (stat base d1 w1 d2 w2 d3 l w3)
    note rf = resolve_path_frame [OF stat(1)] and og = open_guard_frame [OF stat(2)] and sf = stat_len_frame [OF stat(5)]
    obtain st where st: "storage_of e (sg_storage seg) = Some st" "st_path st = base"
      using resolve_path_true(2) [OF c0 stat(1)] by blast
    let ?q = "ve_canon e (base @ sg_path seg)"
    have sp: "spot e seg = Some ?q" "root_of e seg = Some base" using st by (simp_all add: spot_def root_of_def)
    have c2: "cache_true e d2" using resolve_path_true(1) [OF c0 stat(1)] og(3) by (simp add: cache_true_def)
    have w3: "disk w3 = disk w" "index w3 = index w" "disk w2 = disk w" using sf og rf by simp_all
    have closed2: "closed_root e b (d2, w2)" "b \<noteq> base" if "closed_root e b (d, w)" for b
      using open_guard_closed [OF stat(2) closed1 [OF that stat(1)]] stat(3) by auto
    define d4 where "d4 = on_guard (\<lambda>g. g\<lparr>gd_missing := gd_missing g + 1\<rparr>) base d3"
    have m: "markers_of d3 = markers_of d2" "markers_of d4 = markers_of d2" by (simp_all add: stat(4) d4_def)
    have c: "cache_true e d3" "cache_true e d4" using c2 by (simp_all add: cache_true_def stat(4) d4_def)
    have lt: "dn_latched d3 = dn_latched d2" "dn_latched d4 = dn_latched d2" by (simp_all add: stat(4) d4_def)
    obtain d' w' where y: "check_row re e seg (d, w) = (d', w')" by force
    have res: "trims (sg_id seg) w w' \<and> cache_true e d' \<and> (\<forall>q. q \<noteq> ?q \<longrightarrow> disk w' q = disk w q) \<and>
        (\<forall>q. disk w q = None \<longrightarrow> disk w' q = None) \<and> markers_of d' = markers_of d2 \<and>
        set (dn_latched d2) \<subseteq> set (dn_latched d') \<and>
        (\<forall>q b. disk w q = Some b \<longrightarrow> playable_floor_bytes \<le> length b \<longrightarrow> disk w' q = Some b) \<and>
        (\<forall>s \<in> set (index w). same_place s seg \<longrightarrow> playable_at e w s \<longrightarrow> (\<exists>s' \<in> set (index w'). same_place s s'))"
    proof (cases l)
      case (Found n)
      then have cp: "check_present re e seg (base @ sg_path seg) n d3 w3 = (d', w')" using stat(6) y by simp
      obtain b where b: "disk w ?q = Some b" "length b = n" using sf(4) [OF Found] w3(3) by auto
      have "playable_at e w s \<Longrightarrow> same_place s seg \<Longrightarrow> playable_floor_bytes \<le> n" for s
        using same_place_simps(4) [of s seg e] sp(1) b by (auto simp: playable_at_def)
      moreover have "disk w' q = Some c" if "disk w q = Some c" "playable_floor_bytes \<le> length c" for q c
      proof (cases "q = ?q")
        case True
        then have "playable_floor_bytes \<le> n" using that b by simp
        then show ?thesis using check_present_ok(7) [OF cp] w3(1) that(1) by simp
      next
        case False
        then show ?thesis using check_present_ok(2) [OF cp] w3(1) that(1) by metis
      qed
      ultimately show ?thesis
        using check_present_ok [OF cp] w3 m(1) c(1) lt(1) by (auto simp: trims_def cache_true_def)
    next
      case NotFound
      then have rm: "recheck_missing e seg base d4 w3 = (d', w')" using stat(6) y d4_def by simp
      have "disk w ?q = None" using sf(3) [OF NotFound] w3(3) by simp
      then have "\<not> playable_at e w s" if "same_place s seg" for s
        using same_place_simps(4) [OF that, of e] sp(1) by (auto simp: playable_at_def)
      then show ?thesis
        using recheck_missing_ok [OF rm c(2)] recheck_missing_trims [OF rm] w3 m(2) lt(2) by (auto simp: trims_def)
    next
      case LookupError
      then have "d' = d3" "w' = w3" using y stat(6) by simp_all
      moreover have "trims (sg_id seg) w w3" using w3(2) by (rule trims_same)
      moreover have "\<exists>s' \<in> set (index w3). same_place s s'" if "s \<in> set (index w)" for s
        using that w3(2) by (intro bexI [of _ s]) simp_all
      ultimately show ?thesis using w3(1) m c lt by auto
    qed
    have "closed_root e b (d', w')" if "closed_root e b (d, w)" for b
      by (rule closed_same [OF closed2(1) [OF that]]) (use res w3 in auto)
    moreover have "\<not> closed_root e r (d, w)" if "same_place s seg" "root_of e s = Some r" for s r
    proof -
      have "root_of e s = root_of e seg" using same_place_simps(2) [OF that(1)] by (simp add: root_of_def)
      then show ?thesis using that(2) sp(2) closed2(2) by auto
    qed
    ultimately show ?thesis using res sp(1) y unfolding gentle_def by auto
  qed
  then show ?thesis using x by simp
qed

subsection \<open>The walk ends\<close>

lemma trims_above:
  assumes "trims i w w'" and "i \<le> c"
  shows "filter (\<lambda>s. c < sg_id s) (index w') = filter (\<lambda>s. c < sg_id s) (index w)"
proof -
  have "filter (\<lambda>s. c < sg_id s) ss = filter (\<lambda>s. c < sg_id s) (filter (\<lambda>s. i < sg_id s) ss)" for ss
    using assms(2) by (auto intro!: filter_cong)
  then show ?thesis using trims_others [OF assms(1)] by metis
qed

lemma trims_cong: "index v = index w \<Longrightarrow> trims i v w' = trims i w w'" "index v = index w' \<Longrightarrow> trims i w v = trims i w w'"
  by (simp_all add: trims_def)

lemma check_row_trims: "trims (sg_id seg) (snd x) (snd (check_row re e seg x))"
proof -
  obtain d w where x: "x = (d, w)" by force
  have "trims (sg_id seg) w (snd (check_row re e seg (d, w)))"
    using check_row_cases [of e seg d w re]
  proof cases
    case unresolved
    then show ?thesis using resolve_path_frame(2) [OF unresolved(1)] by (simp add: trims_same)
  next
    case (unknown d1 w1 ok d2 w2)
    have "trims (sg_id seg) w w2"
      using drop_row_frame(2) [OF unknown(2)] resolve_path_frame(2) [OF unknown(1)] by (simp add: trims_def)
    then show ?thesis by (simp add: unknown(3))
  next
    case unconfirmed
    then show ?thesis
      using resolve_path_frame(2) [OF unconfirmed(1)] open_guard_frame(2) [OF unconfirmed(2)] by (simp add: trims_same)
  next
    case (stat base d1 w1 d2 w2 d3 l w3)
    have "index w3 = index w"
      using resolve_path_frame(2) [OF stat(1)] open_guard_frame(2) [OF stat(2)] stat_len_frame(2) [OF stat(5)] by simp
    moreover have "trims (sg_id seg) w3 (snd (check_row re e seg (d, w)))"
      using stat(6) check_present_ok(1) [OF surjective_pairing] recheck_missing_trims [OF surjective_pairing]
      by (cases l) (simp_all add: trims_same)
    ultimately show ?thesis using trims_cong(1) by metis
  qed
  then show ?thesis using x by simp
qed

lemma check_page_above:
  assumes "\<forall>s \<in> set page. sg_id s \<le> c"
  shows "filter (\<lambda>s. c < sg_id s) (index (snd (snd (check_page re e page x)))) =
    filter (\<lambda>s. c < sg_id s) (index (snd x))"
  using assms
proof (induction re e page x rule: check_page.induct)
  case (2 re e seg rest x)
  have "filter (\<lambda>s. c < sg_id s) (index (snd (check_row re e seg x))) = filter (\<lambda>s. c < sg_id s) (index (snd x))"
    by (rule trims_above [OF check_row_trims]) (use 2(2) in simp)
  then show ?case using 2 by simp
qed simp

lemma list_segments_after_page:
  assumes "list_segments_after e after n w = (Inr page, w1)"
  shows "page = take n (sort_key sg_id (filter (\<lambda>s. after < sg_id s) (index w)))" "disk w1 = disk w" "index w1 = index w"
  using assms by (auto simp: list_segments_after_def draw_def split: if_splits)

lemma page_le_last: "sorted (map sg_id page) \<Longrightarrow> s \<in> set page \<Longrightarrow> sg_id s \<le> sg_id (last page)"
  by (induction page) (auto split: if_splits)

lemma page_shrinks:
  assumes "page = take n (sort_key sg_id (filter (\<lambda>s. after < sg_id s) ss))" and "page \<noteq> []"
  shows "length (filter (\<lambda>s. sg_id (last page) < sg_id s) ss) < length (filter (\<lambda>s. after < sg_id s) ss)"
proof -
  have l: "last page \<in> set ss" "after < sg_id (last page)"
  proof -
    have "last page \<in> set (sort_key sg_id (filter (\<lambda>s. after < sg_id s) ss))"
      using last_in_set [OF assms(2)] in_set_takeD assms(1) by metis
    then show "last page \<in> set ss" "after < sg_id (last page)" by simp_all
  qed
  have "length (filter (\<lambda>s. sg_id (last page) < sg_id s) ss) + length (filter (\<lambda>s. s = last page) ss) \<le>
      length (filter (\<lambda>s. after < sg_id s) ss)"
    using l(2) by (induction ss) auto
  moreover have "0 < length (filter (\<lambda>s. s = last page) ss)" using l(1) by (auto simp: filter_empty_conv)
  ultimately show ?thesis by linarith
qed

termination dangling_pages
proof (relation "measure (\<lambda>(re, e, n, cursor, x). length (filter (\<lambda>s. cursor < sg_id s) (index (snd x))))",
    goal_cases)
  case (2 re e n cursor x r w1 page ok y)
  then have "list_segments_after e cursor n (snd x) = (Inr page, w1)" by simp
  then have p: "page = take n (sort_key sg_id (filter (\<lambda>s. cursor < sg_id s) (index (snd x))))"
    "index w1 = index (snd x)" using list_segments_after_page by auto
  have st: "sorted (map sg_id page)" by (subst p(1)) (simp add: take_map [symmetric] sorted_wrt_take)
  have "filter (\<lambda>s. sg_id (last page) < sg_id s) (index (snd y)) =
      filter (\<lambda>s. sg_id (last page) < sg_id s) (index w1)"
  proof -
    have "y = snd (check_page re e page (fst x, w1))" using 2 by (metis snd_conv)
    then show ?thesis
      using check_page_above [of page "sg_id (last page)" re e "(fst x, w1)"] page_le_last [OF st] by simp
  qed
  then show ?case using page_shrinks [OF p(1)] 2 p(2) by simp
qed simp

end
