(* ===== verification/DanglingSafety.thy ===== *)
theory DanglingSafety
  imports Dangling Retention
begin

text \<open>
  What the row half of a reconciliation pass keeps, removes and bounds. \<open>spares\<close> is what every part of
  the pass guarantees, and it composes: files of the playable floor stay, rows of playable files stay
  up to their recorded size, and so do all rows of a root that is closed: latched, or without marker.
\<close>

subsection \<open>What a pass keeps\<close>

lemma same_place_sym: "same_place s t \<Longrightarrow> same_place t s"
proof -
  assume "same_place s t"
  then obtain n where "t = s\<lparr>sg_size := n\<rparr>" by (auto simp: same_place_def)
  then have "s = t\<lparr>sg_size := sg_size s\<rparr>" by simp
  then show "same_place t s" unfolding same_place_def ..
qed

definition spares :: "vault_env \<Rightarrow> dangling \<times> vault \<Rightarrow> dangling \<times> vault \<Rightarrow> bool" where
  "spares e x y \<longleftrightarrow> cache_true e (fst y) \<and> distinct (map sg_id (index (snd y))) \<and>
     (\<forall>q b. disk (snd x) q = Some b \<longrightarrow> playable_floor_bytes \<le> length b \<longrightarrow> disk (snd y) q = Some b) \<and>
     (\<forall>q. disk (snd x) q = None \<longrightarrow> disk (snd y) q = None) \<and>
     (\<forall>r. closed_root e r x \<longrightarrow> closed_root e r y) \<and>
     (\<forall>s \<in> set (index (snd x)).
        (playable_at e (snd x) s \<longrightarrow> (\<exists>s' \<in> set (index (snd y)). same_place s s')) \<and>
        (\<forall>r. root_of e s = Some r \<longrightarrow> closed_root e r x \<longrightarrow> s \<in> set (index (snd y)))) \<and>
     (\<forall>t \<in> set (index (snd y)). \<exists>s \<in> set (index (snd x)). same_place s t)"

lemma spares_refl:
  "cache_true e (fst x) \<Longrightarrow> distinct (map sg_id (index (snd x))) \<Longrightarrow> spares e x x"
  using same_place_refl unfolding spares_def by blast

lemma spares_start: "spares e x y \<Longrightarrow> cache_true e (fst y) \<and> distinct (map sg_id (index (snd y)))"
  by (simp add: spares_def)

lemma playable_moves:
  assumes "spares e x y" and "playable_at e (snd x) s" and "same_place s s'"
  shows "playable_at e (snd y) s'"
  using assms same_place_simps(4) [OF assms(3), of e] unfolding playable_at_def spares_def by metis

lemma spares_trans:
  assumes xy: "spares e x y" and yz: "spares e y z"
  shows "spares e x z"
proof -
  have "\<exists>s'' \<in> set (index (snd z)). same_place s s''"
    if s: "s \<in> set (index (snd x))" "playable_at e (snd x) s" for s
  proof -
    obtain s' where s': "s' \<in> set (index (snd y))" "same_place s s'"
      using xy s unfolding spares_def by blast
    then obtain s'' where "s'' \<in> set (index (snd z))" "same_place s' s''"
      using yz playable_moves [OF xy s(2) s'(2)] unfolding spares_def by blast
    then show ?thesis using same_place_trans [OF s'(2)] by blast
  qed
  moreover have "\<exists>s \<in> set (index (snd x)). same_place s t" if "t \<in> set (index (snd z))" for t
    using xy yz that same_place_trans unfolding spares_def by meson
  ultimately show ?thesis using xy yz unfolding spares_def by simp
qed

definition agrees :: "segment \<Rightarrow> segment list \<Rightarrow> bool" where
  "agrees seg ss \<longleftrightarrow> (\<forall>s \<in> set ss. sg_id s = sg_id seg \<longrightarrow> same_place s seg)"

lemma check_row_spares:
  assumes "cache_true e (fst x)" and "distinct (map sg_id (index (snd x)))" and "agrees seg (index (snd x))"
  shows "spares e x (check_row re e seg x)"
proof -
  let ?y = "check_row re e seg x"
  have g: "gentle e seg x ?y" by (rule check_row_gentle [OF assms(1,2)])
  then have tr: "trims (sg_id seg) (snd x) (snd ?y)" by (simp add: gentle_def)
  have row: "(playable_at e (snd x) s \<longrightarrow> (\<exists>s' \<in> set (index (snd ?y)). same_place s s')) \<and>
      (\<forall>r. root_of e s = Some r \<longrightarrow> closed_root e r x \<longrightarrow> s \<in> set (index (snd ?y)))"
    if s: "s \<in> set (index (snd x))" for s
  proof (cases "sg_id s = sg_id seg")
    case True
    then have "same_place s seg" using assms(3) s by (simp add: agrees_def)
    then show ?thesis using g s unfolding gentle_def by blast
  next
    case False
    then have "s \<in> set (index (snd ?y))" by (rule trims_other [OF tr s])
    then show ?thesis by (auto intro: bexI [of _ s])
  qed
  show ?thesis
    using g row trims_mem [OF tr] trims_distinct [OF tr assms(2)] unfolding spares_def gentle_def by simp
qed

lemma spares_agrees:
  assumes "spares e x y" and "agrees seg (index (snd x))"
  shows "agrees seg (index (snd y))"
  unfolding agrees_def
proof (intro ballI impI)
  fix t assume t: "t \<in> set (index (snd y))" "sg_id t = sg_id seg"
  then obtain s where s: "s \<in> set (index (snd x))" "same_place s t" using assms(1) unfolding spares_def by blast
  then have "same_place s seg" using assms(2) t(2) same_place_simps(1) [OF s(2)] by (simp add: agrees_def)
  then show "same_place t seg" using same_place_trans [OF same_place_sym [OF s(2)]] by simp
qed

lemma check_page_spares:
  assumes "cache_true e (fst x)" and "distinct (map sg_id (index (snd x)))" and "\<forall>seg \<in> set page. agrees seg (index (snd x))"
  shows "spares e x (snd (check_page re e page x))"
  using assms
proof (induction re e page x rule: check_page.induct)
  case (1 re e x)
  then show ?case using spares_refl by simp
next
  case (2 re e seg rest x)
  show ?case
  proof (cases "re_stopped re (draws (snd x))")
    case True
    then show ?thesis using spares_refl [OF 2(2,3)] by simp
  next
    case False
    have row: "spares e x (check_row re e seg x)" by (rule check_row_spares) (use 2 in auto)
    have "\<forall>s \<in> set rest. agrees s (index (snd (check_row re e seg x)))"
      using spares_agrees [OF row] 2(4) by simp
    then have "spares e (check_row re e seg x) (snd (check_page re e rest (check_row re e seg x)))"
      using 2(1) [OF False] spares_start [OF row] by simp
    then show ?thesis using spares_trans [OF row] False by simp
  qed
qed

lemma spares_quiet:
  assumes "cache_true e d" and "distinct (map sg_id (index w))" and "disk w' = disk w" and "index w' = index w"
  shows "spares e (d, w) (d, w')"
  using assms spares_refl [of e "(d, w)"] unfolding spares_def closed_root_def playable_at_def by simp

lemma dangling_pages_spares:
  assumes "cache_true e (fst x)" and "distinct (map sg_id (index (snd x)))"
  shows "spares e x (snd (dangling_pages re e n cursor x))"
  using assms
proof (induction re e n cursor x rule: dangling_pages.induct)
  case (1 re e n cursor x)
  show ?case
  proof (cases "re_stopped re (draws (snd x))")
    case True
    then show ?thesis using spares_refl [OF 1(2,3)] by simp
  next
    case False
    obtain r w1 where ls: "list_segments_after e cursor n (snd x) = (r, w1)" by force
    then have w1: "disk w1 = disk (snd x)" "index w1 = index (snd x)" by (auto simp: list_segments_after_def draw_def)
    have q: "spares e x (fst x, w1)" using spares_quiet [of e "fst x" "snd x" w1] 1(2,3) w1 by simp
    show ?thesis
    proof (cases r)
      case (Inl er)
      then show ?thesis using False ls q by simp
    next
      case (Inr page)
      note p = list_segments_after_page(1) [OF ls [unfolded Inr]]
      obtain ok y where cp: "check_page re e page (fst x, w1) = (ok, y)" by (metis surj_pair)
      have "seg \<in> set (index w1)" if "seg \<in> set page" for seg
        using that in_set_takeD w1 unfolding p by fastforce
      then have "agrees seg (index w1)" if "seg \<in> set page" for seg
        using id_unique that 1(3) w1(2) same_place_refl unfolding agrees_def by metis
      then have y: "spares e x y"
        using check_page_spares [of e "(fst x, w1)" page re] cp spares_start [OF q] spares_trans [OF q] by simp
      show ?thesis
      proof (cases "page = [] \<or> \<not> ok \<or> length page < n")
        case True
        then show ?thesis using False ls Inr q cp y by (cases ok) auto
      next
        case more: False
        then have "spares e y (snd (dangling_pages re e n (sg_id (last page)) y))"
          using 1(1) [OF False ls [symmetric] Inr _ cp [symmetric]] spares_start [OF y] by simp
        then show ?thesis using spares_trans [OF y] False ls Inr cp more by simp
      qed
    qed
  qed
qed

subsection \<open>The markers\<close>

lemma any_present_frame: "any_present e base rels w = (ok, w') \<Longrightarrow> disk w' = disk w \<and> index w' = index w \<and>
    (ok \<longrightarrow> (\<exists>rel \<in> set rels. disk w (ve_canon e (base @ rel)) \<noteq> None))"
proof (induction e base rels w arbitrary: ok w' rule: any_present.induct)
  case (2 e base rel rels w)
  obtain m w1 where m: "metadata_len e (base @ rel) w = (m, w1)" by force
  have w1: "disk w1 = disk w" "index w1 = index w" "m \<noteq> None \<Longrightarrow> disk w (ve_canon e (base @ rel)) \<noteq> None"
    using m by (auto simp: metadata_len_def draw_def split: if_splits)
  show ?case
  proof (cases m)
    case None
    then have "any_present e base rels w1 = (ok, w')" using 2(2) m by simp
    from 2(1) [OF m [symmetric] None this] show ?thesis using w1 by auto
  next
    case (Some k)
    then have "ok \<and> w' = w1" using 2(2) m by simp
    then show ?thesis using Some w1 by simp
  qed
qed simp

lemma seed_marker_frame:
  shows "index (seed_marker e s w) = index w"
    and "disk w q \<noteq> None \<Longrightarrow> disk (seed_marker e s w) q = disk w q"
    and "disk w q = None \<Longrightarrow> disk (seed_marker e s w) q \<noteq> None \<Longrightarrow>
      q = ve_canon e (storage_marker_path (st_path s)) \<and> (\<exists>p. disk w (ve_canon e (st_path s @ p)) \<noteq> None)"
proof -
  obtain ok w1 where mp: "marker_present e (st_path s) w = (ok, w1)" by force
  have w1: "disk w1 = disk w" "index w1 = index w" using marker_present_frame [of e "st_path s" w] mp by simp_all
  obtain dev w2 where sd: "stat_dev e (st_path s) w1 = (dev, w2)" by force
  have w2: "disk w2 = disk w" "index w2 = index w" using sd w1 by (auto simp: stat_dev_def)
  obtain r w3 where ls: "list_recent_segment_paths_for_storage e (st_id s) storage_marker_confirm_sample w2 = (r, w3)"
    by force
  have w3: "disk w3 = disk w" "index w3 = index w"
    using ls w2 by (auto simp: list_recent_segment_paths_for_storage_def draw_def)
  obtain hit w4 where ap: "any_present e (st_path s) (case r of Inl _ \<Rightarrow> [] | Inr ps \<Rightarrow> ps) w3 = (hit, w4)" by force
  note af = any_present_frame [OF ap]
  consider (same) "seed_marker e s w \<in> {w1, w2, w3, w4}"
    | (marked) "seed_marker e s w = ensure_marker e (st_path s) w4" "hit"
    using mp sd ls ap by (cases ok; cases dev; cases r; cases hit) (auto simp: seed_marker_def)
  note cs = this
  have e1: "index (ensure_marker e (st_path s) w4) = index w" using af w3 by (simp add: ensure_vault_marker_frame)
  have e2: "disk (ensure_marker e (st_path s) w4) q = disk w q" if "disk w q \<noteq> None" for q
  proof (cases "q = ve_canon e (storage_marker_path (st_path s))")
    case True
    then show ?thesis using that af w3 by (auto simp: ensure_marker_def Let_def file_exists_def draw_def put_file_def)
  next
    case False
    then show ?thesis using ensure_vault_marker_other [OF False, of w4] af w3 by simp
  qed
  show "index (seed_marker e s w) = index w" using cs w1 w2 w3 af e1 by cases auto
  show "disk w q \<noteq> None \<Longrightarrow> disk (seed_marker e s w) q = disk w q" using cs w1 w2 w3 af e2 by cases auto
  show "disk w q = None \<Longrightarrow> disk (seed_marker e s w) q \<noteq> None \<Longrightarrow>
      q = ve_canon e (storage_marker_path (st_path s)) \<and> (\<exists>p. disk w (ve_canon e (st_path s @ p)) \<noteq> None)"
    using cs
  proof cases
    case same
    then show "disk w q = None \<Longrightarrow> disk (seed_marker e s w) q \<noteq> None \<Longrightarrow> ?thesis" using w1 w2 w3 af by auto
  next
    case marked
    then show "disk w q = None \<Longrightarrow> disk (seed_marker e s w) q \<noteq> None \<Longrightarrow> ?thesis"
      using ensure_vault_marker_other [of q e "st_path s" w4] af w3 by metis
  qed
qed

text \<open>The files one can reach below a storage root.\<close>

definition tree :: "vault_env \<Rightarrow> path \<Rightarrow> path set" where
  "tree e r = range (\<lambda>p. ve_canon e (r @ p))"

text \<open>A storage whose marker file lies below \<open>r\<close> lies below \<open>r\<close> itself.\<close>

definition own_tree :: "vault_env \<Rightarrow> path \<Rightarrow> bool" where
  "own_tree e r \<longleftrightarrow>
     (\<forall>st \<in> set (ve_storages e).
        ve_canon e (storage_marker_path (st_path st)) \<in> tree e r \<longrightarrow> tree e (st_path st) \<subseteq> tree e r)"

lemma marker_in_tree: "ve_canon e (storage_marker_path r) \<in> tree e r"
  by (simp add: tree_def storage_marker_path_def)

lemma seed_marker_bare:
  assumes "own_tree e r" and "st \<in> set (ve_storages e)" and "\<forall>q \<in> tree e r. disk w q = None"
  shows "\<forall>q \<in> tree e r. disk (seed_marker e st w) q = None"
proof (rule ballI, rule ccontr)
  fix q assume q: "q \<in> tree e r" "disk (seed_marker e st w) q \<noteq> None"
  have m: "q = ve_canon e (storage_marker_path (st_path st)) \<and> (\<exists>p. disk w (ve_canon e (st_path st @ p)) \<noteq> None)"
    by (rule seed_marker_frame(3) [OF _ q(2)]) (use assms(3) q(1) in blast)
  then obtain p where p: "disk w (ve_canon e (st_path st @ p)) \<noteq> None" by blast
  have "tree e (st_path st) \<subseteq> tree e r" using assms(1,2) q(1) m by (simp add: own_tree_def)
  moreover have "ve_canon e (st_path st @ p) \<in> tree e (st_path st)" by (simp add: tree_def)
  ultimately have "ve_canon e (st_path st @ p) \<in> tree e r" by (rule subsetD)
  then show False using assms(3) p by auto
qed

lemma seed_markers_frame:
  shows "index (seed_markers re e ss w) = index w"
    and "disk w q \<noteq> None \<Longrightarrow> disk (seed_markers re e ss w) q = disk w q"
  by (induction re e ss w rule: seed_markers.induct) (auto simp: seed_marker_frame)

lemma seed_markers_bare:
  assumes "own_tree e r" and "set ss \<subseteq> set (ve_storages e)" and "\<forall>q \<in> tree e r. disk w q = None"
  shows "\<forall>q \<in> tree e r. disk (seed_markers re e ss w) q = None"
  using assms
proof (induction re e ss w rule: seed_markers.induct)
  case (2 re e s ss w)
  have "\<forall>q \<in> tree e r. disk (seed_marker e s w) q = None" by (rule seed_marker_bare) (use 2 in auto)
  then show ?case using 2 by simp
qed simp

lemma seed_storage_markers_frame:
  shows "index (seed_storage_markers re e w) = index w"
    and "disk w q \<noteq> None \<Longrightarrow> disk (seed_storage_markers re e w) q = disk w q"
    and "own_tree e r \<Longrightarrow> \<forall>q \<in> tree e r. disk w q = None \<Longrightarrow> \<forall>q \<in> tree e r. disk (seed_storage_markers re e w) q = None"
  by (simp_all add: seed_storage_markers_def draw_def seed_markers_frame seed_markers_bare)

lemma reconcile_rows_spares:
  assumes "distinct (map sg_id (index w))" and "reconcile_rows re e latched w = (ok, d, w')"
  shows "spares e (dangling_new latched, seed_storage_markers re e w) (d, w')"
  using dangling_pages_spares [of e "(dangling_new latched, seed_storage_markers re e w)" re reconcile_page_size 0] assms
  by (simp add: reconcile_rows_def dangling_pass_def dangling_new_def cache_true_def seed_storage_markers_frame)

subsection \<open>The breaker bounds what a pass prunes\<close>

definition guard_sound :: "path \<Rightarrow> nat \<Rightarrow> dangling \<Rightarrow> bool" where
  "guard_sound r n d \<longleftrightarrow>
     (case dn_guards d r of
        None \<Rightarrow> True
      | Some g \<Rightarrow> gd_deleted g \<le> gd_missing g \<and> gd_missing g \<le> gd_checked g \<and> gd_checked g \<le> n \<and>
                  gd_deleted g \<le> max 100 (gd_checked g div 2))"

definition deleted_on :: "path \<Rightarrow> dangling \<Rightarrow> nat" where
  "deleted_on r d = (case dn_guards d r of None \<Rightarrow> 0 | Some g \<Rightarrow> gd_deleted g)"

lemma guard_sound_cong: "dn_guards d' r = dn_guards d r \<Longrightarrow> guard_sound r n d' = guard_sound r n d"
  "dn_guards d' r = dn_guards d r \<Longrightarrow> deleted_on r d' = deleted_on r d"
  by (simp_all add: guard_sound_def deleted_on_def)

lemma guard_sound_mono: "guard_sound r n d \<Longrightarrow> n \<le> m \<Longrightarrow> guard_sound r m d"
  by (auto simp: guard_sound_def split: option.splits)

lemma check_present_guards:
  assumes "check_present re e seg p n d w = (d', w')"
  shows "dn_guards d' = dn_guards d"
proof -
  obtain ok d2 w2 where dr: "drop_row e (sg_id seg) d (snd (unlink e p w)) = (ok, d2, w2)" by (metis prod_cases3)
  obtain r w3 where up: "update_segment_size_bytes e (sg_id seg) (int n) w = (r, w3)" by force
  have "d' \<in> {d, d2, d\<lparr>dn_repaired := dn_repaired d + 1\<rparr>}"
    using assms dr up by (auto simp: check_present_def split: if_splits sum.splits option.splits)
  then show ?thesis using drop_row_frame(4) [OF dr] by auto
qed

lemma drop_row_failed: "drop_row e i d w = (False, d', w') \<Longrightarrow> index w' = index w"
  by (auto simp: drop_row_def delete_segment_row_def draw_def split: sum.splits if_splits)

lemma recheck_missing_guards:
  assumes "recheck_missing e seg base d w = (d', w')" and "dn_guards d base = Some g"
  shows "r \<noteq> base \<Longrightarrow> dn_guards d' r = dn_guards d r"
    and "\<exists>g'. dn_guards d' base = Some g' \<and> gd_checked g' = gd_checked g \<and> gd_missing g' = gd_missing g \<and>
       ((gd_deleted g' = gd_deleted g \<and> index w' = index w) \<or>
        (gd_deleted g' = gd_deleted g + 1 \<and> \<not> dangling_breaker_trips (gd_checked g) (gd_missing g)))"
proof -
  have "(r \<noteq> base \<longrightarrow> dn_guards d' r = dn_guards d r) \<and>
    (\<exists>g'. dn_guards d' base = Some g' \<and> gd_checked g' = gd_checked g \<and> gd_missing g' = gd_missing g \<and>
       ((gd_deleted g' = gd_deleted g \<and> index w' = index w) \<or>
        (gd_deleted g' = gd_deleted g + 1 \<and> \<not> dangling_breaker_trips (gd_checked g) (gd_missing g))))"
    using assms(1)
  proof (cases rule: recheck_missing_cases)
    case quiet
    then show ?thesis using assms(2) by simp
  next
    case (refused d2 w3)
    have "index w' = index w" using breaker_allows_frame(2) [OF refused(6)] refused(2) by simp
    then show ?thesis
      using refused(3,6) assms(2) by (auto simp: breaker_allows_def on_guard_def split: if_splits)
  next
    case (dropped cur d2 w3 d3 w4 gone d4)
    have "dn_guards d3 = dn_guards d" "\<not> dangling_breaker_trips (gd_checked g) (gd_missing g)"
      using dropped(6,9) assms(2) by (auto simp: breaker_allows_def split: if_splits)
    moreover have "index w' = index w" if "\<not> gone"
      using drop_row_failed [of e "sg_id seg" d3 w4 d4 w'] dropped(5,10) that breaker_allows_frame(2) [OF dropped(9)] by simp
    ultimately show ?thesis
      using assms(2) drop_row_frame(4) [OF dropped(10)] dropped(11) by (cases gone) (auto simp: on_guard_def)
  qed
  then show "r \<noteq> base \<Longrightarrow> dn_guards d' r = dn_guards d r"
    "\<exists>g'. dn_guards d' base = Some g' \<and> gd_checked g' = gd_checked g \<and> gd_missing g' = gd_missing g \<and>
       ((gd_deleted g' = gd_deleted g \<and> index w' = index w) \<or>
        (gd_deleted g' = gd_deleted g + 1 \<and> \<not> dangling_breaker_trips (gd_checked g) (gd_missing g)))"
    by simp_all
qed

lemma breaker_permits:
  assumes "\<not> dangling_breaker_trips c m" and "m \<le> c" and "c * 100 \<le> u64_max"
  shows "m \<le> max 100 (c div 2)"
proof -
  have "sat_mul_u64 c 50 = c * 50" "sat_mul_u64 m 100 = m * 100"
    using assms(2,3) by (simp_all add: sat_mul_u64_def)
  then show ?thesis
    using assms(1) by (auto simp: dangling_breaker_trips_def dangling_breaker_min_missing_def dangling_breaker_missing_pct_def)
qed

lemma guard_sound_on: "dn_guards d r = Some g \<Longrightarrow>
    guard_sound r n d \<longleftrightarrow> gd_deleted g \<le> gd_missing g \<and> gd_missing g \<le> gd_checked g \<and> gd_checked g \<le> n \<and>
      gd_deleted g \<le> max 100 (gd_checked g div 2)"
  "dn_guards d r = Some g \<Longrightarrow> deleted_on r d = gd_deleted g"
  by (simp_all add: guard_sound_def deleted_on_def)

lemma open_guard_sound:
  assumes "open_guard e base d w = (d', w')" and "guard_sound r n d"
  shows "guard_sound r n d' \<and> deleted_on r d' = deleted_on r d"
proof (cases "dn_guards d' r = dn_guards d r")
  case True
  then show ?thesis using assms(2) guard_sound_cong by metis
next
  case False
  then obtain ok where "d' = d\<lparr>dn_guards := (dn_guards d)(base \<mapsto> guard_new ok)\<rparr>" "dn_guards d base = None"
    using assms(1) by (auto simp: open_guard_def Let_def split: if_splits prod.splits)
  then show ?thesis using False by (cases "r = base") (simp_all add: guard_sound_def deleted_on_def guard_new_def)
qed

lemma check_row_breaker:
  assumes c: "cache_true e d" and n: "(n + 1) * 100 \<le> u64_max" and g: "guard_sound r n d"
    and run: "check_row re e seg (d, w) = (d', w')"
  shows "guard_sound r (n + of_bool (root_of e seg = Some r)) d' \<and> deleted_on r d \<le> deleted_on r d' \<and>
    (root_of e seg = Some r \<longrightarrow> (\<exists>q. spot e seg = Some q \<and> disk w q = None) \<longrightarrow>
       sg_id seg \<in> sg_id ` set (index w) \<longrightarrow> sg_id seg \<notin> sg_id ` set (index w') \<longrightarrow> deleted_on r d < deleted_on r d')"
    (is "?P d' w'")
proof -
  have more: "guard_sound r (n + k) v \<and> deleted_on r v = deleted_on r d" if "dn_guards v r = dn_guards d r" for v k
    using that g guard_sound_cong(1) [of v r d n] guard_sound_cong(2) [of v r d] guard_sound_mono [of r n v "n + k"] by simp
  show ?thesis
    using check_row_cases [of e seg d w re]
  proof cases
    case (unresolved er d1 w1)
    then show ?thesis using run more [of d1] resolve_path_frame [OF unresolved(1)] by simp
  next
    case (unknown d1 w1 ok d2 w2)
    have "root_of e seg = None" using resolve_path_true(3) [OF c unknown(1)] by (simp add: root_of_def)
    then show ?thesis
      using run more [of d2 0] resolve_path_frame [OF unknown(1)] drop_row_frame [OF unknown(2)] unknown(3) by simp
  next
    case (unconfirmed base d1 w1 d2 w2)
    have "guard_sound r n d1 \<and> deleted_on r d1 = deleted_on r d"
      using more [of d1 0] resolve_path_frame [OF unconfirmed(1)] by simp
    then have "guard_sound r n d2 \<and> deleted_on r d2 = deleted_on r d" using open_guard_sound [OF unconfirmed(2)] by metis
    moreover have "index w2 = index w"
      using resolve_path_frame [OF unconfirmed(1)] open_guard_frame [OF unconfirmed(2)] by simp
    ultimately show ?thesis using run unconfirmed(4) guard_sound_mono [of r n d2] by simp
  next
    case (stat base d1 w1 d2 w2 d3 l w3)
    obtain st where st: "storage_of e (sg_storage seg) = Some st" "st_path st = base"
      using resolve_path_true(2) [OF c stat(1)] by blast
    have sp: "root_of e seg = Some base" "spot e seg = Some (ve_canon e (base @ sg_path seg))"
      using st by (simp_all add: root_of_def spot_def)
    have w2: "disk w2 = disk w" using resolve_path_frame [OF stat(1)] open_guard_frame [OF stat(2)] by simp
    have w3: "index w3 = index w"
      using resolve_path_frame [OF stat(1)] open_guard_frame [OF stat(2)] stat_len_frame [OF stat(5)] by simp
    have "guard_sound r n d1 \<and> deleted_on r d1 = deleted_on r d"
      using more [of d1 0] resolve_path_frame [OF stat(1)] by simp
    then have s2: "guard_sound r n d2 \<and> deleted_on r d2 = deleted_on r d" using open_guard_sound [OF stat(2)] by metis
    obtain g2 where g2: "dn_guards d2 base = Some g2"
      using stat(3) by (auto simp: guard_confirms_def split: option.splits)
    define d4 where "d4 = on_guard (\<lambda>g. g\<lparr>gd_missing := gd_missing g + 1\<rparr>) base d3"
    define g3 where "g3 = g2\<lparr>gd_checked := gd_checked g2 + 1\<rparr>"
    define g4 where "g4 = g3\<lparr>gd_missing := gd_missing g3 + 1\<rparr>"
    have d3: "dn_guards d3 base = Some g3" "dn_guards d4 base = Some g4"
      using g2 by (simp_all add: stat(4) d4_def on_guard_def g3_def g4_def)
    have oth: "r \<noteq> base \<Longrightarrow> dn_guards d3 r = dn_guards d2 r \<and> dn_guards d4 r = dn_guards d2 r"
      by (simp add: stat(4) d4_def on_guard_def)
    show ?thesis
    proof (cases l)
      case NotFound
      then have rm: "recheck_missing e seg base d4 w3 = (d', w')" using stat(6) run d4_def by simp
      obtain g' where g': "dn_guards d' base = Some g'" "gd_checked g' = gd_checked g2 + 1" "gd_missing g' = gd_missing g2 + 1"
        "(gd_deleted g' = gd_deleted g2 \<and> index w' = index w) \<or>
         (gd_deleted g' = gd_deleted g2 + 1 \<and> \<not> dangling_breaker_trips (gd_checked g2 + 1) (gd_missing g2 + 1))"
        using recheck_missing_guards(2) [OF rm d3(2)] w3 by (auto simp: g4_def g3_def)
      show ?thesis
      proof (cases "r = base")
        case True
        have s: "gd_deleted g2 \<le> gd_missing g2" "gd_missing g2 \<le> gd_checked g2" "gd_checked g2 \<le> n"
          "gd_deleted g2 \<le> max 100 (gd_checked g2 div 2)" "deleted_on r d = gd_deleted g2"
          using s2 guard_sound_on(1) [of d2 r g2 n] guard_sound_on(2) [of d2 r g2] g2 True by simp_all
        have p: "\<not> dangling_breaker_trips (gd_checked g2 + 1) (gd_missing g2 + 1) \<Longrightarrow>
            gd_missing g2 + 1 \<le> max 100 ((gd_checked g2 + 1) div 2)"
        proof (rule breaker_permits)
          have "(gd_checked g2 + 1) * 100 \<le> (n + 1) * 100" using s(3) by simp
          then show "(gd_checked g2 + 1) * 100 \<le> u64_max" using n by (rule order_trans)
        qed (use s in simp_all)
        have "gd_deleted g2 \<le> max 100 ((gd_checked g2 + 1) div 2)"
          using s(4) div_le_mono [of "gd_checked g2" "gd_checked g2 + 1" 2] by linarith
        then have "gd_deleted g' \<le> max 100 ((gd_checked g2 + 1) div 2)" using g'(4) p s(1) by linarith
        then show ?thesis
          using guard_sound_on [of d' r g'] g' True s sp(1) by auto
      next
        case False
        then have "dn_guards d' r = dn_guards d2 r" using recheck_missing_guards(1) [OF rm d3(2)] oth by simp
        then show ?thesis using s2 guard_sound_cong(1) [of d' r d2 n] guard_sound_cong(2) [of d' r d2] False sp(1) by simp
      qed
    next
      case (Found m)
      then have cp: "check_present re e seg (base @ sg_path seg) m d3 w3 = (d', w')" using stat(6) run by simp
      have "\<exists>b. disk w (ve_canon e (base @ sg_path seg)) = Some b" using stat_len_frame(4) [OF stat(5) Found] w2 by auto
      moreover have "guard_sound r (n + of_bool (root_of e seg = Some r)) d3 \<and> deleted_on r d3 = deleted_on r d"
        using s2 guard_sound_on(1) [of d2 r g2 n] guard_sound_on(2) [of d2 r g2] guard_sound_on [of d3 r g3] guard_sound_cong(1) [of d3 r d2 n] guard_sound_cong(2) [of d3 r d2] g2 d3 oth sp(1)
        by (cases "r = base") (auto simp: g3_def)
      ultimately show ?thesis
        using check_present_guards [OF cp] guard_sound_cong [of d' r d3] sp(2) by auto
    next
      case LookupError
      then have "d' = d3" "w' = w3" using stat(6) run by simp_all
      moreover have "guard_sound r (n + of_bool (root_of e seg = Some r)) d3 \<and> deleted_on r d3 = deleted_on r d"
        using s2 guard_sound_on(1) [of d2 r g2 n] guard_sound_on(2) [of d2 r g2] guard_sound_on [of d3 r g3] guard_sound_cong(1) [of d3 r d2 n] guard_sound_cong(2) [of d3 r d2] g2 d3 oth sp(1)
        by (cases "r = base") (auto simp: g3_def)
      ultimately show ?thesis using w3 by simp
    qed
  qed
qed

text \<open>Rows of root \<open>r\<close> whose file was missing in \<open>w0\<close> and that are gone in \<open>w\<close>.\<close>

definition pruned_rows :: "vault_env \<Rightarrow> path \<Rightarrow> vault \<Rightarrow> vault \<Rightarrow> segment list" where
  "pruned_rows e r w0 w =
     filter (\<lambda>s. root_of e s = Some r \<and> (\<exists>q. spot e s = Some q \<and> disk w0 q = None) \<and>
                 sg_id s \<notin> sg_id ` set (index w)) (index w0)"

definition rows_of :: "vault_env \<Rightarrow> path \<Rightarrow> segment list \<Rightarrow> nat" where
  "rows_of e r ss = length (filter (\<lambda>s. root_of e s = Some r) ss)"

lemma length_filter_imp: "(\<And>s. s \<in> set xs \<Longrightarrow> Q s \<Longrightarrow> P s) \<Longrightarrow> length (filter Q xs) \<le> length (filter P xs)"
  by (induction xs) (auto intro: le_SucI)

lemma filter_one_more:
  assumes "distinct (map f ss)" and "\<And>s. s \<in> set ss \<Longrightarrow> Q s \<Longrightarrow> P s \<or> f s = i"
  shows "length (filter Q ss) \<le> length (filter P ss) + 1"
  using assms
proof (induction ss)
  case (Cons s ss)
  show ?case
  proof (cases "f s = i")
    case True
    then have "\<forall>t \<in> set ss. f t \<noteq> i"
      using Cons.prems(1) by (metis distinct.simps(2) image_eqI list.simps(9) set_map)
    then have "length (filter Q ss) \<le> length (filter P ss)"
      using Cons.prems(2) by (intro length_filter_imp) auto
    then show ?thesis by simp
  next
    case False
    then show ?thesis using Cons by fastforce
  qed
qed simp

lemma trims_ids: "trims i w w' \<Longrightarrow> sg_id ` set (index w) - {i} \<subseteq> sg_id ` set (index w')"
  using trims_other [of i w w'] by auto

definition bounded :: "vault_env \<Rightarrow> path \<Rightarrow> vault \<Rightarrow> nat \<Rightarrow> dangling \<times> vault \<Rightarrow> bool" where
  "bounded e r w0 n x \<longleftrightarrow> cache_true e (fst x) \<and> distinct (map sg_id (index (snd x))) \<and>
     (\<forall>q. disk w0 q = None \<longrightarrow> disk (snd x) q = None) \<and>
     (\<forall>t \<in> set (index (snd x)). \<exists>s \<in> set (index w0). same_place s t) \<and>
     guard_sound r n (fst x) \<and> length (pruned_rows e r w0 (snd x)) \<le> deleted_on r (fst x)"

lemma bounded_mono: "bounded e r w0 n x \<Longrightarrow> n \<le> m \<Longrightarrow> bounded e r w0 m x"
  using guard_sound_mono by (auto simp: bounded_def)

lemma bounded_quiet: "bounded e r w0 n (d, w) \<Longrightarrow> disk w' = disk w \<Longrightarrow> index w' = index w \<Longrightarrow> bounded e r w0 n (d, w')"
  by (simp add: bounded_def pruned_rows_def)

lemma check_row_bounded:
  assumes b: "bounded e r w0 n x" and d0: "distinct (map sg_id (index w0))" and a: "agrees seg (index w0)"
    and n: "(n + 1) * 100 \<le> u64_max"
  shows "bounded e r w0 (n + of_bool (root_of e seg = Some r)) (check_row re e seg x)"
proof -
  obtain d w where x: "x = (d, w)" by force
  obtain d' w' where y: "check_row re e seg (d, w) = (d', w')" by force
  have b': "cache_true e d" "distinct (map sg_id (index w))" "\<And>q. disk w0 q = None \<Longrightarrow> disk w q = None"
    "guard_sound r n d" "length (pruned_rows e r w0 w) \<le> deleted_on r d"
    "\<And>t. t \<in> set (index w) \<Longrightarrow> \<exists>s \<in> set (index w0). same_place s t"
    using b x by (simp_all add: bounded_def)
  have g: "gentle e seg (d, w) (d', w')" using check_row_gentle [of e "(d, w)" seg re] b'(1,2) y by simp
  then have tr: "trims (sg_id seg) w w'" by (simp add: gentle_def)
  note br = check_row_breaker [OF b'(1) n b'(4) y]
  have step: "s \<in> set (index w0) \<Longrightarrow> sg_id s \<notin> sg_id ` set (index w') \<Longrightarrow> sg_id s \<notin> sg_id ` set (index w) \<or> sg_id s = sg_id seg"
    for s using trims_ids [OF tr] by auto
  have "length (pruned_rows e r w0 w') \<le> deleted_on r d'"
  proof (cases "deleted_on r d < deleted_on r d'")
    case True
    have "length (pruned_rows e r w0 w') \<le> length (pruned_rows e r w0 w) + 1"
      unfolding pruned_rows_def by (rule filter_one_more [OF d0]) (use step in blast)
    then show ?thesis using True b'(5) by simp
  next
    case False
    have "length (pruned_rows e r w0 w') \<le> length (pruned_rows e r w0 w)"
      unfolding pruned_rows_def
    proof (rule length_filter_imp)
      fix s assume s: "s \<in> set (index w0)"
        "root_of e s = Some r \<and> (\<exists>q. spot e s = Some q \<and> disk w0 q = None) \<and> sg_id s \<notin> sg_id ` set (index w')"
      have "sg_id s \<notin> sg_id ` set (index w)"
      proof (cases "sg_id s = sg_id seg")
        case True
        then have sp: "same_place s seg" using a s(1) by (simp add: agrees_def)
        have "root_of e seg = Some r" "\<exists>q. spot e seg = Some q \<and> disk w q = None"
          using s(2) b'(3) same_place_simps [OF sp] by (auto simp: root_of_def)
        then show ?thesis using br False s(2) True by auto
      qed (use step s in blast)
      then show "root_of e s = Some r \<and> (\<exists>q. spot e s = Some q \<and> disk w0 q = None) \<and> sg_id s \<notin> sg_id ` set (index w)"
        using s(2) by simp
    qed
    then show ?thesis using False b'(5) br by simp
  qed
  moreover have "\<exists>s \<in> set (index w0). same_place s t" if "t \<in> set (index w')" for t
    using trims_mem [OF tr that] b'(6) same_place_trans by blast
  ultimately show ?thesis
    using g br b'(3) trims_distinct [OF tr b'(2)] x y unfolding bounded_def gentle_def by simp
qed

lemma rows_of_Cons: "rows_of e r (s # ss) = of_bool (root_of e s = Some r) + rows_of e r ss"
  by (simp add: rows_of_def)

lemma check_page_bounded:
  assumes "bounded e r w0 n x" and "distinct (map sg_id (index w0))" and "\<forall>seg \<in> set page. agrees seg (index w0)"
    and "(n + rows_of e r page + 1) * 100 \<le> u64_max"
  shows "bounded e r w0 (n + rows_of e r page) (snd (check_page re e page x))"
  using assms
proof (induction re e page x arbitrary: n rule: check_page.induct)
  case (1 re e x)
  then show ?case by (simp add: rows_of_def)
next
  case (2 re e seg rest x)
  let ?k = "of_bool (root_of e seg = Some r) :: nat"
  have step: "bounded e r w0 (n + ?k) (check_row re e seg x)"
    by (rule check_row_bounded) (use 2 in \<open>auto simp: rows_of_Cons\<close>)
  show ?case
  proof (cases "re_stopped re (draws (snd x))")
    case True
    then show ?thesis using bounded_mono [OF 2(2)] by simp
  next
    case False
    have "bounded e r w0 (n + ?k + rows_of e r rest) (snd (check_page re e rest (check_row re e seg x)))"
      by (rule 2(1) [OF False step]) (use 2 in \<open>simp_all add: rows_of_Cons\<close>)
    then show ?thesis using False by (simp add: rows_of_Cons add.assoc)
  qed
qed

lemma page_split:
  assumes "page = take n (sort_key f xs)" and "page \<noteq> []"
  shows "length (filter P page) + length (filter (\<lambda>s. P s \<and> f (last page) < f s) xs) \<le> length (filter P xs)"
proof -
  have sort: "length (filter R (sort_key f xs)) = length (filter R xs)" for R by (simp add: filter_sort)
  have cut: "length (filter R (sort_key f xs)) = length (filter R page) + length (filter R (drop n (sort_key f xs)))" for R
    using append_take_drop_id [of n "sort_key f xs"] unfolding assms(1)
    by (metis filter_append length_append)
  have "sorted (map f page)" unfolding assms(1) by (simp add: take_map [symmetric] sorted_wrt_take)
  then have "\<forall>s \<in> set page. f s \<le> f (last page)" by (induction page) (auto split: if_splits)
  then have "filter (\<lambda>s. P s \<and> f (last page) < f s) page = []" by (auto simp: filter_empty_conv)
  moreover have "length (filter (\<lambda>s. P s \<and> f (last page) < f s) (drop n (sort_key f xs))) \<le>
      length (filter P (drop n (sort_key f xs)))" by (rule length_filter_imp) simp
  ultimately show ?thesis using cut [of P] cut [of "\<lambda>s. P s \<and> f (last page) < f s"] sort by simp
qed

lemma orig_agrees:
  assumes "bounded e r w0 n x" and "distinct (map sg_id (index w0))" and "seg \<in> set (index (snd x))"
  shows "agrees seg (index w0)"
proof -
  obtain s where s: "s \<in> set (index w0)" "same_place s seg" using assms(1,3) by (auto simp: bounded_def)
  show ?thesis
    unfolding agrees_def
  proof (intro ballI impI)
    fix t assume t: "t \<in> set (index w0)" "sg_id t = sg_id seg"
    then have "t = s" using id_unique [OF assms(2) t(1) s(1)] same_place_simps(1) [OF s(2)] by simp
    then show "same_place t seg" using s(2) by simp
  qed
qed

lemma dangling_pages_bounded:
  assumes "bounded e r w0 n x" and "distinct (map sg_id (index w0))"
    and "n + rows_of e r (filter (\<lambda>s. cursor < sg_id s) (index (snd x))) \<le> m" and "(m + 1) * 100 \<le> u64_max"
  shows "bounded e r w0 m (snd (dangling_pages re e sz cursor x))"
  using assms
proof (induction re e sz cursor x arbitrary: n rule: dangling_pages.induct)
  case (1 re e sz cursor x)
  let ?left = "\<lambda>c ss. rows_of e r (filter (\<lambda>s. c < sg_id s) ss)"
  have bm: "bounded e r w0 m x" by (rule bounded_mono [OF 1(2)]) (use 1(4) in simp)
  show ?case
  proof (cases "re_stopped re (draws (snd x))")
    case True
    then show ?thesis using bm by simp
  next
    case False
    obtain res w1 where ls: "list_segments_after e cursor sz (snd x) = (res, w1)" by force
    then have w1: "disk w1 = disk (snd x)" "index w1 = index (snd x)" by (auto simp: list_segments_after_def draw_def)
    have q: "bounded e r w0 n (fst x, w1)" "bounded e r w0 m (fst x, w1)"
      using bounded_quiet [of e r w0 _ "fst x" "snd x" w1] 1(2) bm w1 by simp_all
    show ?thesis
    proof (cases res)
      case (Inl er)
      then show ?thesis using False ls q by simp
    next
      case (Inr page)
      note p = list_segments_after_page(1) [OF ls [unfolded Inr]]
      obtain ok y where cp: "check_page re e page (fst x, w1) = (ok, y)" by (metis surj_pair)
      have ag: "\<forall>seg \<in> set page. agrees seg (index w0)"
      proof
        fix seg assume "seg \<in> set page"
        then have "seg \<in> set (index (snd (fst x, w1)))" using in_set_takeD w1 unfolding p by fastforce
        then show "agrees seg (index w0)" by (rule orig_agrees [OF q(1) 1(3)])
      qed
      show ?thesis
      proof (cases "page = []")
        case True
        then show ?thesis using False ls Inr q by simp
      next
        case ne: False
        have split: "rows_of e r page + ?left (sg_id (last page)) (index (snd x)) \<le> ?left cursor (index (snd x))"
        proof -
          have "filter (\<lambda>s. root_of e s = Some r \<and> sg_id (last page) < sg_id s) (filter (\<lambda>s. cursor < sg_id s) (index (snd x))) =
              filter (\<lambda>s. root_of e s = Some r) (filter (\<lambda>s. sg_id (last page) < sg_id s) (index (snd x)))"
          proof -
            have "last page \<in> set (sort_key sg_id (filter (\<lambda>s. cursor < sg_id s) (index (snd x))))"
              using last_in_set [OF ne] in_set_takeD p by metis
            then have "cursor < sg_id (last page)" by simp
            then show ?thesis by (auto intro!: filter_cong)
          qed
          then show ?thesis using page_split [OF p ne, of "\<lambda>s. root_of e s = Some r"] by (simp add: rows_of_def)
        qed
        have y: "bounded e r w0 (n + rows_of e r page) y"
          using check_page_bounded [OF q(1) 1(3) ag, of re] 1(4,5) split cp by simp
        then have ym: "bounded e r w0 m y" by (rule bounded_mono) (use 1(4) split in simp)
        show ?thesis
        proof (cases "\<not> ok \<or> length page < sz")
          case True
          then show ?thesis using False ls Inr cp ne ym by (cases ok) auto
        next
          case more: False
          have st: "sorted (map sg_id page)" by (subst p) (simp add: take_map [symmetric] sorted_wrt_take)
          have "?left (sg_id (last page)) (index (snd y)) = ?left (sg_id (last page)) (index (snd x))"
            using check_page_above [of page "sg_id (last page)" re e "(fst x, w1)"] page_le_last [OF st] cp w1 by simp
          then have "bounded e r w0 m (snd (dangling_pages re e sz (sg_id (last page)) y))"
            by (intro 1(1) [OF False ls [symmetric] Inr ne cp [symmetric] _ _ y 1(3) _ 1(5)]) (use more 1(4) split in simp_all)
          then show ?thesis using False ls Inr cp ne more by simp
        qed
      qed
    qed
  qed
qed

subsection \<open>Properties\<close>

text \<open>C8. A pass over the rows never costs footage. Whatever calls fail, however small the pages and
  wherever it is stopped: every file of at least the playable floor is still there with its bytes, and
  every row of the index whose file is playable is still there, with at most its recorded size corrected.\<close>

theorem reconcile_rows_keeps_footage:
  assumes "distinct (map sg_id (index w))" and "reconcile_rows re e latched w = (ok, d, w')"
  shows "(\<forall>q b. disk w q = Some b \<longrightarrow> playable_floor_bytes \<le> length b \<longrightarrow> disk w' q = Some b) \<and>
    (\<forall>s \<in> set (index w). playable_at e w s \<longrightarrow>
       (\<exists>n. s\<lparr>sg_size := n\<rparr> \<in> set (index w') \<and> playable_at e w' (s\<lparr>sg_size := n\<rparr>)))"
proof (intro conjI allI impI ballI)
  let ?x = "(dangling_new latched, seed_storage_markers re e w)"
  note sp = reconcile_rows_spares [OF assms]
  note fr = seed_storage_markers_frame(1,2) [where re = re and e = e and w = w]
  fix q b assume "disk w q = Some b" "playable_floor_bytes \<le> length b"
  then show "disk w' q = Some b" using sp fr unfolding spares_def by simp
next
  let ?x = "(dangling_new latched, seed_storage_markers re e w)"
  note sp = reconcile_rows_spares [OF assms]
  note fr = seed_storage_markers_frame(1,2) [where re = re and e = e and w = w]
  fix s assume s: "s \<in> set (index w)" "playable_at e w s"
  then have p: "playable_at e (snd ?x) s" using fr(2) by (fastforce simp: playable_at_def)
  then obtain s' where s': "s' \<in> set (index w')" "same_place s s'"
    using sp s(1) fr(1) unfolding spares_def by force
  then show "\<exists>n. s\<lparr>sg_size := n\<rparr> \<in> set (index w') \<and> playable_at e w' (s\<lparr>sg_size := n\<rparr>)"
    using playable_moves [OF sp p s'(2)] by (auto simp: same_place_def)
qed

text \<open>An unmounted disk costs no index rows. If no file can be reached below a storage root, or the
  breaker of the root has latched earlier in this process, then the pass keeps every row stored there
  unchanged: no marker is seeded there, and without it nothing is pruned.\<close>

theorem unmounted_root_keeps_rows:
  assumes "distinct (map sg_id (index w))" and "reconcile_rows re e latched w = (ok, d, w')"
    and "r \<in> set latched \<or> own_tree e r \<and> (\<forall>q \<in> tree e r. disk w q = None)"
    and "s \<in> set (index w)" and "root_of e s = Some r"
  shows "s \<in> set (index w')"
proof -
  have "closed_root e r (dangling_new latched, seed_storage_markers re e w)"
    using assms(3) seed_storage_markers_frame(3) [where re = re and e = e and w = w and r = r] marker_in_tree [of e r]
    by (auto simp: closed_root_def dangling_new_def markers_of_def)
  then show ?thesis
    using reconcile_rows_spares [OF assms(1,2)] assms(4,5) seed_storage_markers_frame(1) [where re = re and e = e and w = w]
    unfolding spares_def by simp
qed

text \<open>The damage of a wrong mount is bounded. Whatever the disk answers: among the rows of a storage
  root whose file is missing when the pass starts, it removes at most one hundred, or at most half of the
  rows of that root, whichever is more.\<close>

theorem dangling_breaker_bounds_pruning:
  assumes "distinct (map sg_id (index w))" and "dangling_pass re e latched w = (ok, d, w')"
    and "(length (index w) + 1) * 100 \<le> u64_max"
  shows "length (pruned_rows e r w w') \<le> max 100 (rows_of e r (index w) div 2)"
proof -
  let ?x = "(dangling_new latched, w)" and ?m = "rows_of e r (index w)"
  have "pruned_rows e r w w = []" by (auto simp: pruned_rows_def filter_empty_conv)
  moreover have "\<exists>s \<in> set (index w). same_place s t" if "t \<in> set (index w)" for t
    by (rule bexI [OF same_place_refl that])
  ultimately have "bounded e r w 0 ?x"
    using assms(1) by (simp add: bounded_def cache_true_def dangling_new_def guard_sound_def)
  moreover have "rows_of e r (filter (\<lambda>s. 0 < sg_id s) (index w)) \<le> ?m"
    by (auto simp: rows_of_def filter_filter intro: length_filter_imp)
  moreover have "(?m + 1) * 100 \<le> u64_max"
  proof -
    have "?m \<le> length (index w)" by (simp add: rows_of_def)
    then have "(?m + 1) * 100 \<le> (length (index w) + 1) * 100" by simp
    then show ?thesis using assms(3) by (rule order_trans)
  qed
  ultimately have "bounded e r w ?m (d, w')"
    using dangling_pages_bounded [of e r w 0 ?x 0 ?m re reconcile_page_size] assms(1,2) by (simp add: dangling_pass_def)
  then have "length (pruned_rows e r w w') \<le> deleted_on r d" "guard_sound r ?m d" by (simp_all add: bounded_def)
  moreover have "deleted_on r d \<le> max 100 (?m div 2)" if "guard_sound r ?m d"
    using that div_le_mono [of _ ?m 2] by (fastforce simp: guard_sound_def deleted_on_def split: option.splits)
  ultimately show ?thesis by linarith
qed

end
