(* ===== verification/DanglingComplete.thy ===== *)
theory DanglingComplete
  imports DanglingSafety
begin

text \<open>
  The row half of a reconciliation pass does its work: with no fault and no shutdown every page is read
  and every row is settled (\<open>settled\<close>), and \<open>settled_all\<close> is the invariant of the walk: the rows up to
  the cursor are. Then concrete runs for the properties of this pass.
\<close>

subsection \<open>A quiet pass settles every row\<close>

definition in_flight :: "recon_env \<Rightarrow> vault_env \<Rightarrow> path \<Rightarrow> bool" where
  "in_flight re e p \<longleftrightarrow>
     (\<exists>k m. re_mtime re k p = Some m \<and> mtime_in_flight (ve_now e) m (re_segment_len re) (2 * re_segment_len re))"

definition settled :: "recon_env \<Rightarrow> vault_env \<Rightarrow> dangling \<times> vault \<Rightarrow> segment \<Rightarrow> bool" where
  "settled re e x s \<longleftrightarrow>
     (\<exists>st. storage_of e (sg_storage s) = Some st \<and>
        ((\<exists>g. dn_guards (fst x) (st_path st) = Some g \<and> (gd_marker_ok g \<longrightarrow> gd_tripped g)) \<or>
         (\<exists>b. disk (snd x) (ve_canon e (st_path st @ sg_path s)) = Some b \<and>
            (in_flight re e (st_path st @ sg_path s) \<or> playable_floor_bytes \<le> length b \<and> sg_size s = int (length b)))))"

lemma calm_resolve_path:
  assumes "calm e" and "cache_true e d" and "storage_of e i = Some st"
  shows "\<exists>d1 w1. resolve_path e i d w = (Inr (Some (st_path st)), d1, w1) \<and> disk w1 = disk w \<and> index w1 = index w \<and>
    dn_guards d1 = dn_guards d"
proof (cases "dn_cache d i")
  case None
  then show ?thesis using assms by (simp add: resolve_path_def get_storage_def calm_draw)
next
  case (Some p)
  then have "p = st_path st" using assms(2,3) unfolding cache_true_def by (metis option.inject)
  then show ?thesis using Some by (simp add: resolve_path_def)
qed

lemma calm_recheck:
  assumes "calm e" and "cache_true e d" and "distinct (map sg_id (index w))" and "seg \<in> set (index w)"
    and "storage_of e (sg_storage seg) = Some st" and "disk w (ve_canon e (st_path st @ sg_path seg)) = None"
    and "dn_guards d (st_path st) = Some g"
    and "recheck_missing e seg (st_path st) d w = (d', w')"
  shows "sg_id seg \<notin> sg_id ` set (index w') \<or> (\<exists>g'. dn_guards d' (st_path st) = Some g' \<and> gd_tripped g')"
proof -
  have f: "find (\<lambda>s. sg_id s = sg_id seg) (index w) = Some seg"
  proof (cases "find (\<lambda>s. sg_id s = sg_id seg) (index w)")
    case None
    then show ?thesis using assms(4) by (auto simp: find_None_iff)
  next
    case (Some s)
    then have "s \<in> set (index w)" "sg_id s = sg_id seg" by (auto simp: find_Some_iff)
    then show ?thesis using Some id_unique [OF assms(3) _ assms(4)] by simp
  qed
  let ?w1 = "w\<lparr>draws := draws w + 1\<rparr>"
  have gs: "get_segment e (sg_id seg) w = (Inr (Some seg), ?w1)"
    using f by (simp add: get_segment_def calm_draw [OF assms(1)])
  obtain d2 w2 where rp: "resolve_path e (sg_storage seg) d ?w1 = (Inr (Some (st_path st)), d2, w2)"
    "disk w2 = disk w" "index w2 = index w" "dn_guards d2 = dn_guards d"
    using calm_resolve_path [OF assms(1,2,5), of ?w1] by auto
  let ?w3 = "w2\<lparr>draws := draws w2 + 1\<rparr>"
  have sl: "stat_len e (st_path st @ sg_path seg) w2 = (NotFound, ?w3)"
    using assms(6) rp(2) by (simp add: stat_len_def calm_draw [OF assms(1)])
  obtain ok d3 w4 where br: "breaker_allows e (st_path st) d2 ?w3 = (ok, d3, w4)" by (metis prod_cases3)
  show ?thesis
  proof (cases ok)
    case False
    then have "d' = d3" using assms(8) gs rp sl br by (simp add: recheck_missing_def)
    then show ?thesis
      using br False rp(4) assms(7) by (auto simp: breaker_allows_def on_guard_def split: if_splits)
  next
    case True
    then have "w' = snd (snd (drop_row e (sg_id seg) d3 w4))"
      using assms(8) gs rp sl br by (auto simp: recheck_missing_def split: prod.splits bool.splits)
    then show ?thesis by (auto simp: drop_row_def delete_segment_row_def calm_draw [OF assms(1)])
  qed
qed

lemma check_row_settles:
  assumes "calm e" and c: "cache_true e d" and "distinct (map sg_id (index w))" and "seg \<in> set (index w)"
    and run: "check_row re e seg (d, w) = (d', w')" and t: "t \<in> set (index w')" "sg_id t = sg_id seg"
  shows "settled re e (d', w') t"
  using check_row_cases [of e seg d w re]
proof cases
  case (unresolved er d1 w1)
  then show ?thesis by (simp add: resolve_path_def get_storage_def calm_draw [OF assms(1)] split: option.splits)
next
  case (unknown d1 w1 ok d2 w2)
  then have "sg_id seg \<notin> sg_id ` set (index w')"
    using run by (auto simp: drop_row_def delete_segment_row_def calm_draw [OF assms(1)])
  then show ?thesis using t by (metis imageI)
next
  case (unconfirmed base d1 w1 d2 w2)
  obtain st where st: "storage_of e (sg_storage seg) = Some st" "st_path st = base"
    using resolve_path_true(2) [OF c unconfirmed(1)] by blast
  have y: "d' = d2" "w' = w2" using run unconfirmed(4) by simp_all
  have "\<exists>g. dn_guards d2 base = Some g \<and> \<not> gd_marker_ok g"
    using unconfirmed(2,3) by (auto simp: open_guard_def guard_confirms_def Let_def split: if_splits prod.splits option.splits)
  moreover have "t = seg"
    using id_unique [OF assms(3)] t assms(4) y resolve_path_frame [OF unconfirmed(1)] open_guard_frame [OF unconfirmed(2)] by simp
  ultimately show ?thesis using st y by (auto simp: settled_def)
next
  case (stat base d1 w1 d2 w2 d3 l w3)
  obtain st where st: "storage_of e (sg_storage seg) = Some st" "st_path st = base"
    using resolve_path_true(2) [OF c stat(1)] by blast
  have w3: "disk w3 = disk w" "index w3 = index w" "disk w2 = disk w"
    using resolve_path_frame [OF stat(1)] open_guard_frame [OF stat(2)] stat_len_frame [OF stat(5)] by simp_all
  have c3: "cache_true e d3"
    using resolve_path_true(1) [OF c stat(1)] open_guard_frame [OF stat(2)] by (simp add: cache_true_def stat(4))
  let ?p = "base @ sg_path seg"
  show ?thesis
  proof (cases l)
    case LookupError
    then show ?thesis using stat(5) by (simp add: stat_len_def calm_draw [OF assms(1)] split: option.splits)
  next
    case NotFound
    obtain g2 where g2: "dn_guards d2 base = Some g2" using stat(3) by (auto simp: guard_confirms_def split: option.splits)
    let ?d4 = "on_guard (\<lambda>g. g\<lparr>gd_missing := gd_missing g + 1\<rparr>) base d3"
    have rm: "recheck_missing e seg (st_path st) ?d4 w3 = (d', w')" using stat(6) run NotFound st by simp
    have "sg_id seg \<notin> sg_id ` set (index w') \<or> (\<exists>g'. dn_guards d' (st_path st) = Some g' \<and> gd_tripped g')"
    proof (rule calm_recheck [OF assms(1) _ _ _ st(1) _ _ rm])
      show "cache_true e ?d4" using c3 by (simp add: cache_true_def)
      show "disk w3 (ve_canon e (st_path st @ sg_path seg)) = None" using stat_len_frame(3) [OF stat(5) NotFound] w3 st by simp
      show "dn_guards ?d4 (st_path st) = Some (g2\<lparr>gd_checked := gd_checked g2 + 1, gd_missing := gd_missing g2 + 1\<rparr>)"
        using g2 st by (simp add: on_guard_def stat(4))
    qed (use w3 assms(3,4) in simp_all)
    moreover have "sg_storage t = sg_storage seg"
    proof -
      obtain s where "s \<in> set (index w3)" "same_place s t" using trims_mem [OF recheck_missing_trims [OF rm] t(1)] by blast
      then show ?thesis using id_unique [OF assms(3) _ assms(4)] w3 t(2) same_place_simps by metis
    qed
    ultimately show ?thesis using t(1) st unfolding settled_def by (metis fst_conv imageI t(2))
  next
    case (Found n)
    obtain b where b: "disk w (ve_canon e ?p) = Some b" "length b = n" using stat_len_frame(4) [OF stat(5) Found] w3 by auto
    have cp: "check_present re e seg ?p n d3 w3 = (d', w')" using stat(6) run Found by simp
    consider (skip) "in_flight re e ?p" "w' = w3"
      | (stub) "sg_id seg \<notin> sg_id ` set (index w')"
      | (resize) "playable_floor_bytes \<le> n" "disk w' = disk w3"
          "index w' = map (\<lambda>s. if sg_id s = sg_id seg then s\<lparr>sg_size := int n\<rparr> else s) (index w3)"
      | (fits) "playable_floor_bytes \<le> n" "w' = w3" "sg_size seg = int n"
    proof -
      let ?young = "case re_mtime re (draws w3) ?p of
          Some m \<Rightarrow> mtime_in_flight (ve_now e) m (re_segment_len re) (2 * re_segment_len re) | None \<Rightarrow> False"
      show ?thesis
      proof (cases ?young)
        case True
        then have "w' = w3" using cp by (simp add: check_present_def)
        then show ?thesis using True skip by (auto simp: in_flight_def split: option.splits)
      next
        case False
        show ?thesis
        proof (cases "n < playable_floor_bytes")
          case True
          then have "w' = snd (snd (drop_row e (sg_id seg) d3 (snd (unlink e ?p w3))))"
            using cp False by (simp add: check_present_def)
          then show ?thesis by (intro stub) (auto simp: drop_row_def delete_segment_row_def calm_draw [OF assms(1)])
        next
          case big: False
          show ?thesis
          proof (cases "int n = sg_size seg")
            case True
            then show ?thesis using cp False big fits by (simp add: check_present_def)
          next
            case False
            then show ?thesis using cp \<open>\<not> ?young\<close> big resize
              by (auto simp: check_present_def update_segment_size_bytes_def calm_draw [OF assms(1)])
          qed
        qed
      qed
    qed
    then show ?thesis
    proof cases
      case skip
      then have "t = seg" using id_unique [OF assms(3)] t assms(4) w3 by simp
      then show ?thesis using st b w3 skip by (auto simp: settled_def)
    next
      case stub
      then show ?thesis using t by (metis imageI)
    next
      case resize
      obtain s where s: "s \<in> set (index w)" "t = (if sg_id s = sg_id seg then s\<lparr>sg_size := int n\<rparr> else s)"
        using t(1) resize(3) w3(2) by auto
      then have "s = seg" using id_unique [OF assms(3) s(1) assms(4)] t(2) by (auto split: if_splits)
      then show ?thesis using s(2) st b w3 resize by (auto simp: settled_def)
    next
      case fits
      then have "t = seg" using id_unique [OF assms(3)] t assms(4) w3 by simp
      then show ?thesis using st b w3 fits by (auto simp: settled_def)
    qed
  qed
qed

lemma check_row_guards:
  assumes "check_row re e seg (d, w) = (d', w')" and "dn_guards d r = Some g"
  shows "\<exists>g'. dn_guards d' r = Some g' \<and> gd_marker_ok g' = gd_marker_ok g \<and> (gd_tripped g \<longrightarrow> gd_tripped g')"
  using check_row_cases [of e seg d w re]
proof cases
  case (unresolved er d1 w1)
  then show ?thesis using assms resolve_path_frame [OF unresolved(1)] by simp
next
  case (unknown d1 w1 ok d2 w2)
  then show ?thesis using assms resolve_path_frame [OF unknown(1)] drop_row_frame [OF unknown(2)] by simp
next
  case (unconfirmed base d1 w1 d2 w2)
  then show ?thesis using assms resolve_path_frame [OF unconfirmed(1)]
    by (cases "r = base") (auto simp: open_guard_def Let_def split: if_splits prod.splits)
next
  case (stat base d1 w1 d2 w2 d3 l w3)
  have "dn_guards d2 r = Some g"
    using stat(2) assms(2) resolve_path_frame [OF stat(1)]
    by (cases "r = base") (auto simp: open_guard_def Let_def split: if_splits prod.splits)
  then obtain g3 where g3: "dn_guards d3 r = Some g3" "gd_marker_ok g3 = gd_marker_ok g" "gd_tripped g3 = gd_tripped g"
    by (cases "r = base") (auto simp: stat(4) on_guard_def)
  show ?thesis
  proof (cases l)
    case (Found n)
    then have cp: "check_present re e seg (base @ sg_path seg) n d3 w3 = (d', w')" using stat(6) assms(1) by simp
    then show ?thesis using g3 check_present_guards [OF cp] by simp
  next
    case LookupError
    then show ?thesis using g3 stat(6) assms(1) by simp
  next
    case NotFound
    let ?d4 = "on_guard (\<lambda>g. g\<lparr>gd_missing := gd_missing g + 1\<rparr>) base d3"
    have rm: "recheck_missing e seg base ?d4 w3 = (d', w')" using stat(6) assms(1) NotFound by simp
    obtain g4 where g4: "dn_guards ?d4 r = Some g4" "gd_marker_ok g4 = gd_marker_ok g" "gd_tripped g4 = gd_tripped g"
      using g3 by (cases "r = base") (auto simp: on_guard_def)
    show ?thesis
      using rm
    proof (cases rule: recheck_missing_cases)
      case quiet
      then show ?thesis using g4 by simp
    next
      case (refused d2' w3')
      then show ?thesis using g4 by (auto simp: breaker_allows_def on_guard_def split: if_splits option.splits)
    next
      case (dropped cur d2' w3' d3' w4 gone d4)
      have "dn_guards d4 r = Some g4"
        using g4 dropped(6,9) drop_row_frame(4) [OF dropped(10)]
        by (auto simp: breaker_allows_def split: if_splits option.splits)
      then show ?thesis using g4 dropped(11) by (auto simp: on_guard_def)
    qed
  qed
qed

text \<open>No two rows share a file.\<close>

definition own_files :: "vault_env \<Rightarrow> segment list \<Rightarrow> bool" where
  "own_files e ss \<longleftrightarrow>
     (\<forall>s \<in> set ss. \<forall>t \<in> set ss. spot e s = spot e t \<longrightarrow> spot e s \<noteq> None \<longrightarrow> sg_id s = sg_id t)"

lemma own_files_spares:
  assumes "spares e x y" and "own_files e (index (snd x))"
  shows "own_files e (index (snd y))"
proof -
  have "sg_id s = sg_id t" if st: "s \<in> set (index (snd y))" "t \<in> set (index (snd y))" "spot e s = spot e t" "spot e s \<noteq> None" for s t
  proof -
    have origin: "\<forall>t \<in> set (index (snd y)). \<exists>s \<in> set (index (snd x)). same_place s t" using assms(1) by (simp add: spares_def)
    obtain s0 where s0: "s0 \<in> set (index (snd x))" "same_place s0 s" using origin st(1) by blast
    obtain t0 where t0: "t0 \<in> set (index (snd x))" "same_place t0 t" using origin st(2) by blast
    have "spot e s0 = spot e t0" "spot e s0 \<noteq> None"
      using st(3,4) same_place_simps(4) [OF s0(2), of e] same_place_simps(4) [OF t0(2), of e] by metis+
    then have "sg_id s0 = sg_id t0" using assms(2) s0(1) t0(1) unfolding own_files_def by blast
    then show ?thesis using same_place_simps(1) [OF s0(2)] same_place_simps(1) [OF t0(2)] by metis
  qed
  then show ?thesis unfolding own_files_def by blast
qed

lemma settled_stays:
  assumes "cache_true e (fst x)" and "distinct (map sg_id (index (snd x)))" and "own_files e (index (snd x))"
    and "seg \<in> set (index (snd x))" and "s \<in> set (index (snd x))" and "sg_id s \<noteq> sg_id seg" and "settled re e x s"
  shows "settled re e (check_row re e seg x) s"
proof -
  obtain d w where x: "x = (d, w)" by force
  obtain d' w' where y: "check_row re e seg (d, w) = (d', w')" by force
  obtain st where st: "storage_of e (sg_storage s) = Some st"
    "(\<exists>g. dn_guards d (st_path st) = Some g \<and> (gd_marker_ok g \<longrightarrow> gd_tripped g)) \<or>
     (\<exists>b. disk w (ve_canon e (st_path st @ sg_path s)) = Some b \<and>
        (in_flight re e (st_path st @ sg_path s) \<or> playable_floor_bytes \<le> length b \<and> sg_size s = int (length b)))"
    using assms(7) x by (auto simp: settled_def)
  have sp: "spot e s = Some (ve_canon e (st_path st @ sg_path s))" using st(1) by (simp add: spot_def)
  have "spot e seg \<noteq> Some (ve_canon e (st_path st @ sg_path s))"
  proof
    assume "spot e seg = Some (ve_canon e (st_path st @ sg_path s))"
    then have "spot e s = spot e seg" using sp by simp
    moreover have "spot e s \<noteq> None" using sp by simp
    ultimately have "sg_id s = sg_id seg" using assms(3,4,5) unfolding own_files_def by blast
    then show False using assms(6) by simp
  qed
  moreover have "gentle e seg (d, w) (d', w')" using check_row_gentle [OF assms(1,2), of seg re] x y by simp
  ultimately have "disk w' (ve_canon e (st_path st @ sg_path s)) = disk w (ve_canon e (st_path st @ sg_path s))"
    unfolding gentle_def by simp
  moreover have "\<exists>g'. dn_guards d' (st_path st) = Some g' \<and> (gd_marker_ok g' \<longrightarrow> gd_tripped g')"
    if "dn_guards d (st_path st) = Some g" "gd_marker_ok g \<longrightarrow> gd_tripped g" for g
    using check_row_guards [OF y that(1)] that(2) by auto
  ultimately show ?thesis using st x y unfolding settled_def by auto
qed

text \<open>What the rows up to a point owe: rows in \<open>I\<close> are settled.\<close>

definition settled_all :: "recon_env \<Rightarrow> vault_env \<Rightarrow> uuid set \<Rightarrow> dangling \<times> vault \<Rightarrow> bool" where
  "settled_all re e I x \<longleftrightarrow> cache_true e (fst x) \<and> distinct (map sg_id (index (snd x))) \<and> own_files e (index (snd x)) \<and>
     (\<forall>s \<in> set (index (snd x)). sg_id s \<in> I \<longrightarrow> settled re e x s)"

lemma self_agrees: "distinct (map sg_id ss) \<Longrightarrow> seg \<in> set ss \<Longrightarrow> agrees seg ss"
  unfolding agrees_def using id_unique [of ss] by (metis same_place_refl)

lemma check_row_settled_all:
  assumes "calm e" and all: "settled_all re e I x" and seg: "seg \<in> set (index (snd x))"
  shows "settled_all re e (insert (sg_id seg) I) (check_row re e seg x)"
proof -
  have c: "cache_true e (fst x)" "distinct (map sg_id (index (snd x)))" "own_files e (index (snd x))"
    using all by (simp_all add: settled_all_def)
  have "agrees seg (index (snd x))" by (rule self_agrees [OF c(2) seg])
  then have sp: "spares e x (check_row re e seg x)" by (rule check_row_spares [OF c(1,2)])
  have "settled re e (check_row re e seg x) t"
    if t: "t \<in> set (index (snd (check_row re e seg x)))" "sg_id t \<in> insert (sg_id seg) I" for t
  proof (cases "sg_id t = sg_id seg")
    case True
    obtain d w d' w' where xy: "x = (d, w)" "check_row re e seg (d, w) = (d', w')" by force
    then show ?thesis using check_row_settles [OF assms(1), of d w seg re d' w' t] c seg t True by simp
  next
    case False
    obtain P n where p: "index (snd (check_row re e seg x)) = map (\<lambda>s. if sg_id s = sg_id seg then s\<lparr>sg_size := n s\<rparr> else s)
        (filter (\<lambda>s. sg_id s = sg_id seg \<longrightarrow> P s) (index (snd x)))"
      using check_row_trims [of seg x re e] by (auto simp: trims_def)
    have "t \<in> set (index (snd x))" using t(1) False unfolding p by (auto split: if_splits)
    then show ?thesis using settled_stays [OF c seg] all False t(2) by (simp add: settled_all_def)
  qed
  then show ?thesis using spares_start [OF sp] own_files_spares [OF sp c(3)] by (simp add: settled_all_def)
qed

lemma check_page_settled_all:
  assumes "calm e" and "\<forall>n. \<not> re_stopped re n" and "settled_all re e I x" and "set page \<subseteq> set (index (snd x))"
    and "distinct (map sg_id page)"
  shows "fst (check_page re e page x) \<and> settled_all re e (I \<union> sg_id ` set page) (snd (check_page re e page x))"
  using assms
proof (induction re e page x arbitrary: I rule: check_page.induct)
  case (2 re e seg rest x)
  have r: "settled_all re e (insert (sg_id seg) I) (check_row re e seg x)"
    by (rule check_row_settled_all) (use 2 in auto)
  have "set rest \<subseteq> set (index (snd (check_row re e seg x)))"
  proof
    fix s assume s: "s \<in> set rest"
    have "sg_id s \<in> sg_id ` set rest" using s by (rule imageI)
    then have "sg_id s \<noteq> sg_id seg" using 2(6) by auto
    then show "s \<in> set (index (snd (check_row re e seg x)))"
      by (intro trims_other [OF check_row_trims]) (use 2(5) s in auto)
  qed
  then have "fst (check_page re e rest (check_row re e seg x)) \<and>
      settled_all re e (insert (sg_id seg) I \<union> sg_id ` set rest) (snd (check_page re e rest (check_row re e seg x)))"
    using 2(1) [of "insert (sg_id seg) I"] 2(2,3,6) r by simp
  then show ?case using 2(3) by simp
qed simp

lemma page_reaches:
  assumes "page = take n (sort_key f xs)" and "distinct (map f xs)" and "s \<in> set xs" and "page \<noteq> []"
    and "f s \<le> f (last page) \<or> length page < n"
  shows "s \<in> set page"
proof (cases "length page < n")
  case True
  then have "page = sort_key f xs" using assms(1) by simp
  then show ?thesis using assms(3) by simp
next
  case False
  have whole: "sort_key f xs = page @ drop n (sort_key f xs)" using assms(1) by simp
  have "sorted (map f (page @ drop n (sort_key f xs)))" unfolding whole [symmetric] by simp
  moreover have "last page \<in> set page" using assms(4) by simp
  ultimately have le: "\<forall>t \<in> set (drop n (sort_key f xs)). f (last page) \<le> f t"
    by (auto simp: sorted_append)
  have "mset (map f (sort_key f xs)) = mset (map f xs)" by simp
  then have "distinct (map f (sort_key f xs))" using assms(2) mset_eq_imp_distinct_iff by blast
  then have "distinct (map f (page @ drop n (sort_key f xs)))" using whole by simp
  then have ne: "f (last page) \<noteq> f t" if "t \<in> set (drop n (sort_key f xs))" for t
    using that \<open>last page \<in> set page\<close> by auto
  have "s \<in> set (page @ drop n (sort_key f xs))" using assms(3) whole by (metis set_sort)
  moreover have "s \<notin> set (drop n (sort_key f xs))" using le ne False assms(5) by force
  ultimately show ?thesis by simp
qed

lemma settled_all_quiet:
  "settled_all re e I (d, w) \<Longrightarrow> disk w' = disk w \<Longrightarrow> index w' = index w \<Longrightarrow> settled_all re e I (d, w')"
  by (simp add: settled_all_def settled_def)

lemma settled_all_weaken:
  "settled_all re e J x \<Longrightarrow> (\<And>s. s \<in> set (index (snd x)) \<Longrightarrow> sg_id s \<in> I \<Longrightarrow> sg_id s \<in> J) \<Longrightarrow> settled_all re e I x"
  by (simp add: settled_all_def)

lemma dangling_pages_settled:
  assumes "calm e" and "\<forall>n. \<not> re_stopped re n" and "settled_all re e {i. 0 < i \<and> i \<le> cursor} x" and "0 < n"
  shows "fst (dangling_pages re e n cursor x) \<and>
    settled_all re e {i. 0 < i} (snd (dangling_pages re e n cursor x))"
  using assms
proof (induction re e n cursor x rule: dangling_pages.induct)
  case (1 re e n cursor x)
  have ns: "\<not> re_stopped re (draws (snd x))" using 1(3) by simp
  let ?w1 = "(snd x)\<lparr>draws := draws (snd x) + 1\<rparr>"
  let ?above = "filter (\<lambda>s. cursor < sg_id s) (index (snd x))"
  define page where "page = take n (sort_key sg_id ?above)"
  have ls: "list_segments_after e cursor n (snd x) = (Inr page, ?w1)"
    by (simp add: list_segments_after_def calm_draw [OF 1(2)] page_def)
  have q: "settled_all re e {i. 0 < i \<and> i \<le> cursor} (fst x, ?w1)"
    using settled_all_quiet [of re e _ "fst x" "snd x" ?w1] 1(4) by simp
  have dist: "distinct (map sg_id (index (snd x)))" using 1(4) by (simp add: settled_all_def)
  have da: "distinct (map sg_id ?above)" by (rule distinct_map_filter [OF dist])
  show ?case
  proof (cases "page = []")
    case True
    then have "sort_key sg_id ?above = []" using 1(5) by (simp add: page_def)
    then have "?above = []" by (metis set_empty set_sort)
    then have "settled_all re e {i. 0 < i} (fst x, ?w1)"
      by (intro settled_all_weaken [OF q]) (auto simp: filter_empty_conv not_less)
    then show ?thesis using ns ls True by simp
  next
    case ne: False
    obtain ok y where cp: "check_page re e page (fst x, ?w1) = (ok, y)" by (metis surj_pair)
    have "set page \<subseteq> set (index (snd (fst x, ?w1)))" using set_take_subset [of n "sort_key sg_id ?above"] by (auto simp: page_def)
    moreover have "distinct (map sg_id page)"
    proof -
      have "mset (map sg_id (sort_key sg_id ?above)) = mset (map sg_id ?above)" by simp
      then have "distinct (map sg_id (sort_key sg_id ?above))" using da mset_eq_imp_distinct_iff by blast
      then show ?thesis unfolding page_def by (metis distinct_take take_map)
    qed
    ultimately have y: "ok" "settled_all re e ({i. 0 < i \<and> i \<le> cursor} \<union> sg_id ` set page) y"
      using check_page_settled_all [OF 1(2,3) q, of page] cp by simp_all
    have origin: "\<exists>s \<in> set (index (snd x)). same_place s t" if "t \<in> set (index (snd y))" for t
    proof -
      have "agrees seg (index ?w1)" if "seg \<in> set page" for seg
        by (rule self_agrees) (use dist that \<open>set page \<subseteq> _\<close> in auto)
      then have "spares e (fst x, ?w1) (snd (check_page re e page (fst x, ?w1)))"
        by (intro check_page_spares) (use q in \<open>auto simp: settled_all_def\<close>)
      then show ?thesis using that cp by (simp add: spares_def)
    qed
    have reach: "settled_all re e I y"
      if "\<And>i. i \<in> I \<Longrightarrow> 0 < i \<and> (i \<le> sg_id (last page) \<or> length page < n)" for I
    proof (rule settled_all_weaken [OF y(2)])
      fix t assume t: "t \<in> set (index (snd y))" "sg_id t \<in> I"
      then obtain s where s: "s \<in> set (index (snd x))" "same_place s t" using origin by blast
      have si: "sg_id t = sg_id s" by (rule same_place_simps(1) [OF s(2)])
      show "sg_id t \<in> {i. 0 < i \<and> i \<le> cursor} \<union> sg_id ` set page"
      proof (cases "cursor < sg_id s")
        case True
        then have "s \<in> set page" using page_reaches [OF page_def da, of s] s(1) ne that t(2) si by simp
        then show ?thesis using si by simp
      next
        case False
        then show ?thesis using that t(2) si by auto
      qed
    qed
    show ?thesis
    proof (cases "length page < n")
      case True
      then show ?thesis using ns ls ne cp y(1) reach [of "{i. 0 < i}"] by simp
    next
      case False
      have nx: "settled_all re e {i. 0 < i \<and> i \<le> sg_id (last page)} y" by (rule reach) simp
      have "dangling_pages re e n cursor x = dangling_pages re e n (sg_id (last page)) y"
        by (subst dangling_pages.simps) (use ns ls ne cp y(1) False in \<open>simp del: dangling_pages.simps\<close>)
      moreover have "fst (dangling_pages re e n (sg_id (last page)) y) \<and>
          settled_all re e {i. 0 < i} (snd (dangling_pages re e n (sg_id (last page)) y))"
        by (rule 1(1) [OF ns ls [symmetric] refl ne cp [symmetric] _ False 1(2,3) nx 1(5)]) (simp add: y(1))
      ultimately show ?thesis by metis
    qed
  qed
qed

text \<open>C9. A pass that is not disturbed leaves nothing unexamined, however many pages it takes. It runs to
  its end, and every row left then is settled: its storage is known, and either the storage is not
  confirmed or its breaker has tripped, or the file is there, and is still being written or is playable
  with exactly the size the row says. In particular no row of a confirmed storage is left without a file.\<close>

theorem quiet_pass_settles_every_row:
  assumes "calm e" and "\<forall>n. \<not> re_stopped re n"
    and "distinct (map sg_id (index w))" and "own_files e (index w)" and "\<forall>s \<in> set (index w). sg_id s \<noteq> 0"
    and "dangling_pass re e latched w = (ok, d, w')"
  shows "ok \<and> (\<forall>s \<in> set (index w'). settled re e (d, w') s)"
proof -
  have s0: "settled_all re e {i. 0 < i \<and> i \<le> 0} (dangling_new latched, w)"
    using assms(3,4) by (auto simp: settled_all_def cache_true_def dangling_new_def)
  have "0 < reconcile_page_size" by (simp add: reconcile_page_size_def)
  then have r: "ok \<and> settled_all re e {i. 0 < i} (d, w')"
    using dangling_pages_settled [OF assms(1,2) s0 \<open>0 < reconcile_page_size\<close>] assms(6)
    by (simp add: dangling_pass_def del: dangling_pages.simps)
  have "spares e (dangling_new latched, w) (d, w')"
    using dangling_pages_spares [of e "(dangling_new latched, w)" re reconcile_page_size 0] assms(3,6)
    by (simp add: dangling_pass_def cache_true_def dangling_new_def del: dangling_pages.simps)
  then have "sg_id t \<noteq> 0" if "t \<in> set (index w')" for t
    using assms(5) that same_place_simps(1) unfolding spares_def by fastforce
  then show ?thesis using r by (simp add: settled_all_def)
qed

subsection \<open>Concrete runs\<close>

definition demo_recon :: recon_env where
  "demo_recon = \<lparr>re_mtime = (\<lambda>_ _. Some 0), re_segment_len = seconds 10, re_stopped = (\<lambda>_. False)\<rparr>"

definition demo_footage :: vault where
  "demo_footage = demo_vault\<lparr>disk := [[''live'', ''cam'', ''a.mp4''] \<mapsto> replicate 600 7]\<rparr>"

lemma demo_footage_index [simp]: "index demo_footage = [demo_segment 11]"
  by (simp add: demo_footage_def demo_vault_def)

theorem reconcile_rows_keeps_footage_witness:
  "let (ok, d, w') = reconcile_rows demo_recon (demo_vault_env (\<lambda>n. if n = 4 then Broken False None else Good) (\<lambda>_. False)) [] demo_footage
   in disk w' [''live'', ''cam'', ''a.mp4''] = Some (replicate 600 7) \<and>
      (\<exists>n. (demo_segment 11)\<lparr>sg_size := n\<rparr> \<in> set (index w'))"
proof -
  let ?e = "demo_vault_env (\<lambda>n. if n = 4 then Broken False None else Good) (\<lambda>_. False)"
  obtain ok d w' where r: "reconcile_rows demo_recon ?e [] demo_footage = (ok, d, w')" by (metis prod_cases3)
  have "playable_at ?e demo_footage (demo_segment 11)"
    by (simp add: playable_at_def spot_def storage_of_def demo_footage_def demo_vault_simps playable_floor_bytes_def)
  then show ?thesis
    using reconcile_rows_keeps_footage [OF _ r] r by (auto simp: demo_footage_def demo_vault_def playable_floor_bytes_def)
qed

theorem unmounted_root_keeps_rows_witness:
  "let (ok, d, w') = reconcile_rows demo_recon (demo_vault_env (\<lambda>_. Good) (\<lambda>_. False)) [] (demo_vault\<lparr>disk := Map.empty\<rparr>)
   in demo_segment 11 \<in> set (index w')"
proof -
  let ?e = "demo_vault_env (\<lambda>_. Good) (\<lambda>_. False)" and ?w = "demo_vault\<lparr>disk := Map.empty\<rparr>"
  obtain ok d w' where r: "reconcile_rows demo_recon ?e [] ?w = (ok, d, w')" by (metis prod_cases3)
  have "own_tree ?e [''live'']"
    by (auto simp: own_tree_def tree_def storage_marker_path_def demo_vault_env_def)
  then show ?thesis
    using unmounted_root_keeps_rows [OF _ r, of "[''live'']" "demo_segment 11"] r
    by (simp add: root_of_def storage_of_def demo_vault_simps)
qed

theorem dangling_breaker_bounds_pruning_witness:
  "let e = demo_vault_env (\<lambda>_. Good) (\<lambda>_. False); w = demo_vault\<lparr>disk := Map.empty\<rparr>;
       (ok, d, w') = dangling_pass demo_recon e [] w
   in length (pruned_rows e [''live''] w w') \<le> 100"
proof -
  let ?e = "demo_vault_env (\<lambda>_. Good) (\<lambda>_. False)" and ?w = "demo_vault\<lparr>disk := Map.empty\<rparr>"
  obtain ok d w' where r: "dangling_pass demo_recon ?e [] ?w = (ok, d, w')" by (metis prod_cases3)
  have "rows_of ?e [''live''] (index ?w) \<le> 1" by (simp add: rows_of_def demo_vault_def)
  then show ?thesis
    using dangling_breaker_bounds_pruning [OF _ r, of "[''live'']"] r by (simp add: demo_vault_def u64_max_def)
qed

theorem quiet_pass_settles_every_row_witness:
  "let e = demo_vault_env (\<lambda>_. Good) (\<lambda>_. False); (ok, x) = dangling_pass demo_recon e [] demo_footage
   in ok \<and> (\<forall>s \<in> set (index (snd x)). settled demo_recon e x s)"
proof -
  let ?e = "demo_vault_env (\<lambda>_. Good) (\<lambda>_. False)"
  obtain ok d w' where r: "dangling_pass demo_recon ?e [] demo_footage = (ok, d, w')" by (metis prod_cases3)
  have "calm ?e" by (simp add: calm_def demo_vault_env_def)
  then show ?thesis
    using quiet_pass_settles_every_row [OF _ _ _ _ _ r] r by (simp add: own_files_def demo_recon_def demo_segment_def)
qed

end
