(* ===== verification/Depot.thy ===== *)
theory Depot
  imports Vault
begin

text \<open>
  A storage as a directory tree, for the half of the reconciliation of
  \<open>services/recorder/src/reconcile.rs\<close> that walks the disks: the orphan pass and the quarantine.

  \<^item> \<open>tree\<close> lists the nodes by canonical absolute path; its order is the order in which \<open>read_dir\<close>
    yields entries. Symlinks are nodes of their own and carry the resolved target.
  \<^item> \<open>catalog\<close> is the \<open>segments\<close> table with the key \<open>(camera, stream, start)\<close>.
  \<^item> Every call that can fail draws one answer from \<open>oe_fails\<close>, indexed by \<open>steps\<close>; \<open>oe_cross\<close> says
    whether a failed rename failed because of two filesystems.
  \<^item> Parameters: the timestamp parser and formatter of chrono, the parser of uuid, the cameras and
    their recorded stream, the storages and policies of the database, the clock and the shutdown token.
\<close>

datatype node = Folder | Regular bytes "instant option" | Symlink path | Special

record depot =
  tree :: "(path \<times> node) list"
  catalog :: "seg_row list"
  steps :: nat

record named_storage = storage_row +
  st_name :: string
  st_created :: instant

record orphan_env =
  oe_fails :: "nat \<Rightarrow> bool"
  oe_cross :: "nat \<Rightarrow> bool"
  oe_now :: "nat \<Rightarrow> instant"
  oe_stopped :: "nat \<Rightarrow> bool"
  oe_segment_len :: instant
  oe_chrono :: "string \<Rightarrow> instant option"
  oe_uuid :: "string \<Rightarrow> uuid option"
  oe_stamp :: "instant \<Rightarrow> string"
  oe_storages :: "named_storage list"
  oe_config_archive :: "string \<times> path"
  oe_config_live :: "string \<times> path"
  oe_policies :: "recording_policy list"
  oe_camera :: "uuid \<Rightarrow> segment_stream option"
  oe_retention :: "int option"

subsection \<open>Primitive operations\<close>

definition node_at :: "depot \<Rightarrow> path \<Rightarrow> node option" where
  "node_at w p = map_of (tree w) p"

definition fails :: "orphan_env \<Rightarrow> depot \<Rightarrow> bool \<times> depot" where
  "fails e w = (oe_fails e (steps w), w\<lparr>steps := steps w + 1\<rparr>)"

definition put_node :: "path \<Rightarrow> node \<Rightarrow> depot \<Rightarrow> depot" where
  "put_node p n w = w\<lparr>tree := AList.update p n (tree w)\<rparr>"

definition cut_node :: "path \<Rightarrow> depot \<Rightarrow> depot" where
  "cut_node p w = w\<lparr>tree := AList.delete p (tree w)\<rparr>"

text \<open>The entries of a directory, in listing order.\<close>

definition entries_of :: "depot \<Rightarrow> path \<Rightarrow> string list" where
  "entries_of w d = map last (filter (\<lambda>p. p \<noteq> [] \<and> butlast p = d) (remdups (map fst (tree w))))"

definition read_dir :: "orphan_env \<Rightarrow> path \<Rightarrow> depot \<Rightarrow> string list option \<times> depot" where
  "read_dir e d w =
     (let (bad, w1) = fails e w
      in (if bad \<or> node_at w d \<noteq> Some Folder then None else Some (entries_of w d), w1))"

definition probe :: "orphan_env \<Rightarrow> path \<Rightarrow> depot \<Rightarrow> node option \<times> depot" where
  "probe e p w = (let (bad, w1) = fails e w in (if bad then None else node_at w p, w1))"

text \<open>\<open>canonicalize\<close> of a path whose parents are resolved.\<close>

definition canonicalize :: "orphan_env \<Rightarrow> path \<Rightarrow> depot \<Rightarrow> path option \<times> depot" where
  "canonicalize e p w =
     (case probe e p w of
        (None, w1) \<Rightarrow> (None, w1)
      | (Some (Symlink t), w1) \<Rightarrow> (if node_at w t = None then None else Some t, w1)
      | (Some _, w1) \<Rightarrow> (Some p, w1))"

definition unlink_node :: "orphan_env \<Rightarrow> path \<Rightarrow> depot \<Rightarrow> bool \<times> depot" where
  "unlink_node e p w =
     (let (bad, w1) = fails e w
      in if bad \<or> node_at w p = None then (False, w1) else (True, cut_node p w1))"

fun make_dirs :: "orphan_env \<Rightarrow> path \<Rightarrow> string list \<Rightarrow> depot \<Rightarrow> bool \<times> depot" where
  "make_dirs e d [] w = (True, w)"
| "make_dirs e d (n # ns) w =
     (let p = d @ [n] in
      case node_at w p of
        Some Folder \<Rightarrow> make_dirs e p ns w
      | Some _ \<Rightarrow> (False, w)
      | None \<Rightarrow> (let (bad, w1) = fails e w
                 in if bad then (False, w1) else make_dirs e p ns (put_node p Folder w1)))"

subsection \<open>Names\<close>

text \<open>\<open>Path::file_stem\<close> and \<open>Path::extension\<close> of a file name.\<close>

definition stem_ext :: "string \<Rightarrow> string \<times> string option" where
  "stem_ext name =
     (case rsplit_dot name of
        None \<Rightarrow> (name, None)
      | Some (stem, ext) \<Rightarrow> if stem = [] then (name, None) else (stem, Some ext))"

definition ascii_lower :: "string \<Rightarrow> string" where
  "ascii_lower s =
     map (\<lambda>c. let k = of_char c :: nat in if 65 \<le> k \<and> k \<le> 90 then char_of (k + 32) else c) s"

definition is_mp4 :: "string \<Rightarrow> bool" where
  "is_mp4 name \<longleftrightarrow> (case snd (stem_ext name) of Some ext \<Rightarrow> ascii_lower ext = ''mp4'' | None \<Rightarrow> False)"

definition strip_suffix :: "string \<Rightarrow> string \<Rightarrow> string option" where
  "strip_suffix suf s =
     (if suf = drop (length s - length suf) s then Some (take (length s - length suf) s) else None)"

definition parse_segment_timestamp :: "orphan_env \<Rightarrow> string \<Rightarrow> instant option" where
  "parse_segment_timestamp e name =
     (case strip_suffix ''.mp4'' name of None \<Rightarrow> None | Some stem \<Rightarrow> oe_chrono e stem)"

definition is_digit :: "char \<Rightarrow> bool" where
  "is_digit c \<longleftrightarrow> 48 \<le> (of_char c :: nat) \<and> (of_char c :: nat) \<le> 57"

text \<open>\<open>rsplit_once("-r")\<close>: the text after the last occurrence.\<close>

fun after_last_dash_r :: "string \<Rightarrow> string option" where
  "after_last_dash_r [] = None"
| "after_last_dash_r (c # cs) =
     (case after_last_dash_r cs of
        Some t \<Rightarrow> Some t
      | None \<Rightarrow> if c = CHR ''-'' \<and> cs \<noteq> [] \<and> hd cs = CHR ''r'' then Some (tl cs) else None)"

definition is_collision_disambiguated :: "string \<Rightarrow> bool" where
  "is_collision_disambiguated name =
     (let stem = (case rsplit_dot name of Some (s, _) \<Rightarrow> s | None \<Rightarrow> name)
      in case after_last_dash_r stem of
           Some digits \<Rightarrow> digits \<noteq> [] \<and> list_all is_digit digits
         | None \<Rightarrow> False)"

subsection \<open>Storage roots\<close>

text \<open>\<open>lexical_normalize\<close> of a path that cannot be resolved.\<close>

definition lexical_normalize :: "path \<Rightarrow> path" where
  "lexical_normalize p =
     foldl (\<lambda>out c. if c = ''.'' then out else if c = ''..'' then butlast out else out @ [c]) [] p"

definition canonical_root :: "orphan_env \<Rightarrow> path \<Rightarrow> depot \<Rightarrow> path \<times> depot" where
  "canonical_root e p w =
     (case canonicalize e p w of (Some c, w1) \<Rightarrow> (c, w1) | (None, w1) \<Rightarrow> (lexical_normalize p, w1))"

record scan_root =
  sr_canonical :: path
  sr_storage_ids :: "uuid list"
  sr_adopt :: uuid
  sr_stage :: segment_stage

fun join_root :: "uuid \<Rightarrow> path \<Rightarrow> segment_stage \<Rightarrow> scan_root list \<Rightarrow> scan_root list" where
  "join_root i c stage [] =
     [\<lparr>sr_canonical = c, sr_storage_ids = [i], sr_adopt = i, sr_stage = stage\<rparr>]"
| "join_root i c stage (r # rs) =
     (if sr_canonical r = c then r\<lparr>sr_storage_ids := sr_storage_ids r @ [i]\<rparr> # rs
      else r # join_root i c stage rs)"

definition group_scan_roots :: "(uuid \<times> path \<times> segment_stage) list \<Rightarrow> scan_root list" where
  "group_scan_roots found = foldl (\<lambda>rs (i, c, stage). join_root i c stage rs) [] found"

definition nested_roots :: "scan_root list \<Rightarrow> scan_root \<Rightarrow> path list" where
  "nested_roots roots sr =
     map sr_canonical (filter (\<lambda>r. sr_canonical r \<noteq> sr_canonical sr \<and>
                                    starts_with (sr_canonical r) (sr_canonical sr)) roots)"

definition get_storage_by_name :: "orphan_env \<Rightarrow> string \<Rightarrow> depot \<Rightarrow> named_storage option option \<times> depot" where
  "get_storage_by_name e name w =
     (let (bad, w1) = fails e w
      in (if bad then None else Some (find (\<lambda>s. st_name s = name) (oe_storages e)), w1))"

definition get_storage_by_path :: "orphan_env \<Rightarrow> path \<Rightarrow> depot \<Rightarrow> named_storage option option \<times> depot" where
  "get_storage_by_path e p w =
     (let (bad, w1) = fails e w
      in (if bad then None else Some (find (\<lambda>s. st_path s = p) (sort_key st_created (oe_storages e))), w1))"

text \<open>The outer option is a failed query.\<close>

definition get_storage_by_name_or_path ::
  "orphan_env \<Rightarrow> string \<times> path \<Rightarrow> depot \<Rightarrow> named_storage option option \<times> depot" where
  "get_storage_by_name_or_path e np w =
     (case get_storage_by_name e (fst np) w of
        (None, w1) \<Rightarrow> (None, w1)
      | (Some (Some s), w1) \<Rightarrow> (Some (Some s), w1)
      | (Some None, w1) \<Rightarrow> get_storage_by_path e (snd np) w1)"

definition found_id :: "named_storage option option \<Rightarrow> uuid list" where
  "found_id r = (case r of Some (Some s) \<Rightarrow> [st_id s] | _ \<Rightarrow> [])"

fun resolve_rows ::
  "orphan_env \<Rightarrow> uuid list \<Rightarrow> uuid list \<Rightarrow> named_storage list \<Rightarrow> depot \<Rightarrow> (uuid \<times> path \<times> segment_stage) list \<times> depot"
where
  "resolve_rows e archive live [] w = ([], w)"
| "resolve_rows e archive live (s # ss) w =
     (let stage = (if st_id s \<in> set archive \<and> st_id s \<notin> set live then ArchiveStage else LiveStage);
          (c, w1) = canonical_root e (st_path s) w;
          (rest, w2) = resolve_rows e archive live ss w1
      in ((st_id s, c, stage) # rest, w2))"

definition scan_roots_for_orphan_pass :: "orphan_env \<Rightarrow> depot \<Rightarrow> scan_root list option \<times> depot" where
  "scan_roots_for_orphan_pass e w =
     (let (bad, w1) = fails e w in
      if bad then (None, w1)
      else let (a, w2) = get_storage_by_name_or_path e (oe_config_archive e) w1;
               (l, w3) = get_storage_by_name_or_path e (oe_config_live e) w2;
               (bad2, w4) = fails e w3;
               pols = (if bad2 then [] else oe_policies e);
               archive = found_id a @ List.map_filter pol_archive_storage_id pols;
               live = found_id l @ List.map_filter pol_live_storage_id pols;
               (found, w5) = resolve_rows e archive live (oe_storages e) w4
           in (Some (group_scan_roots found), w5))"

end
