(* ===== verification/Orphans.thy ===== *)
theory Orphans
  imports Depot
begin

text \<open>
  The orphan pass of \<open>services/recorder/src/reconcile.rs\<close>: walk every storage root, one directory at a
  time, adopt the recordings no row of the index refers to and move unusable ones into \<open>_quarantine\<close>.
  Paths below a root are relative to it, as the index has them; \<open>place\<close> is the file itself. \<open>steps\<close> of
  the walk that change nothing but the counters keep them in \<open>orphan_stats\<close>. The walk takes the number
  of directories it may read as fuel: \<open>None\<close> is running out of it.

  A quarantine the operator replaced by a symlink, and symlinks inside one, are followed by the prune
  only: here a symlink that stands where a directory is made is an error, and one that stands at the
  destination of a move counts as an existing file.
\<close>

record orphan_stats =
  os_found :: nat
  os_indexed :: nat
  os_quarantined :: nat
  os_foreign :: nat

definition stats_new :: orphan_stats where
  "stats_new = \<lparr>os_found = 0, os_indexed = 0, os_quarantined = 0, os_foreign = 0\<rparr>"

definition note_foreign :: "orphan_stats \<Rightarrow> orphan_stats" where
  "note_foreign st = st\<lparr>os_foreign := os_foreign st + 1\<rparr>"

datatype orphan_outcome = OrphanIndexed | AlreadyIndexed | NotIndexable | Foreign

definition place :: "scan_root \<Rightarrow> path \<Rightarrow> path" where
  "place sr rel = sr_canonical sr @ rel"

definition orphan_lookup_chunk :: nat where "orphan_lookup_chunk = 2000"
definition orphan_lookup_margin_secs :: int where "orphan_lookup_margin_secs = 3600"

subsection \<open>Adoption\<close>

definition orphan_end :: "instant \<Rightarrow> instant option \<Rightarrow> instant \<Rightarrow> instant" where
  "orphan_end start mtime len =
     (case mtime of
        Some m \<Rightarrow> if m \<le> start \<or> 2 * len < m - start then start + len else m
      | None \<Rightarrow> start + len)"

definition as_i32 :: "int \<Rightarrow> int" where
  "as_i32 x = (x + 2147483648) mod 4294967296 - 2147483648"

definition orphan_row ::
  "orphan_env \<Rightarrow> scan_root \<Rightarrow> path \<Rightarrow> uuid \<Rightarrow> segment_stream \<Rightarrow> instant \<Rightarrow> instant option \<Rightarrow> nat \<Rightarrow> seg_row" where
  "orphan_row e sr rel cam stream start mtime n =
     (let fin = orphan_end start mtime (oe_segment_len e) in
      \<lparr>r_camera = cam, r_storage = sr_adopt sr, r_stage = sr_stage sr, r_path = rel, r_stream = stream,
       r_start = start, r_end = fin, r_duration_ms = as_i32 (max 0 ((fin - start) div 1000000)),
       r_has_motion = False, r_score = 0, r_size = int n, r_bbox = None, r_shadow_keep = None\<rparr>)"

definition insert_if_absent :: "orphan_env \<Rightarrow> seg_row \<Rightarrow> depot \<Rightarrow> bool option \<times> depot" where
  "insert_if_absent e r w =
     (let (bad, w1) = fails e w in
      if bad then (None, w1)
      else if list_ex (same_key r) (catalog w) then (Some False, w1)
      else (Some True, w1\<lparr>catalog := catalog w @ [r]\<rparr>))"

text \<open>\<open>None\<close> is an error of the database or of \<open>stat\<close>.\<close>

definition try_index_orphan ::
  "orphan_env \<Rightarrow> scan_root \<Rightarrow> path \<Rightarrow> depot \<Rightarrow> orphan_outcome option \<times> depot" where
  "try_index_orphan e sr rel w =
     (case rel of
        c # _ # _ \<Rightarrow>
          (case oe_uuid e c of
             None \<Rightarrow> (Some Foreign, w)
           | Some cam \<Rightarrow>
               (case parse_segment_timestamp e (last rel) of
                  None \<Rightarrow> (Some NotIndexable, w)
                | Some start \<Rightarrow>
                    let (bad, w1) = fails e w in
                    if bad then (None, w1)
                    else case oe_camera e cam of
                           None \<Rightarrow> (Some NotIndexable, w1)
                         | Some stream \<Rightarrow>
                             (case probe e (place sr rel) w1 of
                                (Some (Regular b mtime), w2) \<Rightarrow>
                                  if int (length b) < sub_floor_bytes then (Some NotIndexable, w2)
                                  else (case insert_if_absent e
                                          (orphan_row e sr rel cam stream start mtime (length b)) w2 of
                                          (None, w3) \<Rightarrow> (None, w3)
                                        | (Some True, w3) \<Rightarrow> (Some OrphanIndexed, w3)
                                        | (Some False, w3) \<Rightarrow> (Some AlreadyIndexed, w3))
                              | (_, w2) \<Rightarrow> (None, w2))))
      | _ \<Rightarrow> (Some Foreign, w))"

subsection \<open>Quarantine\<close>

definition stamp_entry_time :: "orphan_env \<Rightarrow> path \<Rightarrow> depot \<Rightarrow> depot" where
  "stamp_entry_time e p w =
     (let (bad, w1) = fails e w in
      case node_at w p of
        Some (Regular b _) \<Rightarrow> if bad then w1 else put_node p (Regular b (Some (oe_now e (steps w)))) w1
      | _ \<Rightarrow> w1)"

definition quarantine_dir :: "path \<Rightarrow> string list" where
  "quarantine_dir rel = (case rel of c # _ \<Rightarrow> [''_quarantine'', c] | [] \<Rightarrow> [''_quarantine''])"

definition stamped_name :: "orphan_env \<Rightarrow> string \<Rightarrow> instant \<Rightarrow> string" where
  "stamped_name e name now =
     (let (stem, ext) = stem_ext name
      in stem @ ''_'' @ oe_stamp e now @ ''.'' @ (case ext of Some x \<Rightarrow> x | None \<Rightarrow> ''''))"

text \<open>Rename, or copy and delete when the rename crosses filesystems. The result is whether it worked.\<close>

definition move_file :: "orphan_env \<Rightarrow> path \<Rightarrow> path \<Rightarrow> depot \<Rightarrow> bool \<times> depot" where
  "move_file e src dst w =
     (let (bad, w1) = fails e w in
      case node_at w src of
        Some (Regular b m) \<Rightarrow>
          if \<not> bad then
            (if node_at w dst = Some Folder then (False, w1)
             else (True, stamp_entry_time e dst (put_node dst (Regular b m) (cut_node src w1))))
          else if oe_cross e (steps w) then
            (let (bad2, w2) = fails e w1 in
             if bad2 \<or> node_at w dst = Some Folder then (False, w2)
             else let w3 = put_node dst (Regular b (Some (oe_now e (steps w2)))) w2
                  in case unlink_node e src w3 of
                       (False, w4) \<Rightarrow> (False, w4)
                     | (True, w4) \<Rightarrow> (True, stamp_entry_time e dst w4))
          else (False, w1)
      | _ \<Rightarrow> (False, w1))"

definition quarantine_file :: "orphan_env \<Rightarrow> scan_root \<Rightarrow> path \<Rightarrow> depot \<Rightarrow> bool \<times> depot" where
  "quarantine_file e sr rel w =
     (case make_dirs e (sr_canonical sr) (quarantine_dir rel) w of
        (False, w1) \<Rightarrow> (False, w1)
      | (True, w1) \<Rightarrow>
          if rel = [] then (False, w1)
          else let dir = sr_canonical sr @ quarantine_dir rel;
                   (there, w2) = probe e (dir @ [last rel]) w1;
                   dst = (if there \<noteq> None then dir @ [stamped_name e (last rel) (oe_now e (steps w2))]
                          else dir @ [last rel])
               in move_file e (place sr rel) dst w2)"

subsection \<open>One file\<close>

definition path_indexed_for_camera ::
  "orphan_env \<Rightarrow> uuid \<Rightarrow> uuid list \<Rightarrow> path \<Rightarrow> depot \<Rightarrow> bool option \<times> depot" where
  "path_indexed_for_camera e cam ids rel w =
     (let (bad, w1) = fails e w
      in (if bad then None
          else Some (\<exists>r \<in> set (catalog w). r_camera r = cam \<and> r_storage r \<in> set ids \<and> r_path r = rel), w1))"

definition settle_junk ::
  "orphan_env \<Rightarrow> scan_root \<Rightarrow> uuid \<Rightarrow> path \<Rightarrow> bool \<Rightarrow> orphan_stats \<times> depot \<Rightarrow> orphan_stats \<times> depot" where
  "settle_junk e sr cam rel range_checked x =
     (let (checked, w1) = (if range_checked then (Some False, snd x)
                           else path_indexed_for_camera e cam (sr_storage_ids sr) rel (snd x))
      in if checked \<noteq> Some False then (fst x, w1)
         else case quarantine_file e sr rel w1 of
                (True, w2) \<Rightarrow> ((fst x)\<lparr>os_quarantined := os_quarantined (fst x) + 1\<rparr>, w2)
              | (False, w2) \<Rightarrow> (fst x, w2))"

definition offer_orphan ::
  "orphan_env \<Rightarrow> scan_root \<Rightarrow> path list \<Rightarrow> uuid \<Rightarrow> path \<Rightarrow> bool \<Rightarrow> orphan_stats \<times> depot \<Rightarrow> bool \<times> orphan_stats \<times> depot"
where
  "offer_orphan e sr nested cam rel range_checked x =
     (let (st, w) = x in
      if list_ex (\<lambda>n. starts_with (place sr rel) n) nested then (True, note_foreign st, w)
      else case probe e (place sr rel) w of
             (None, w1) \<Rightarrow> (True, st, w1)
           | (Some nd, w1) \<Rightarrow>
               if (case nd of Regular _ (Some m) \<Rightarrow> mtime_in_flight (oe_now e (steps w)) m (oe_segment_len e) (2 * oe_segment_len e)
                   | _ \<Rightarrow> False) then (True, st, w1)
               else if oe_stopped e (steps w1) then (False, st, w1)
               else let st1 = st\<lparr>os_found := os_found st + 1\<rparr> in
                 case try_index_orphan e sr rel w1 of
                   (None, w2) \<Rightarrow> (True, st1, w2)
                 | (Some OrphanIndexed, w2) \<Rightarrow> (True, st1\<lparr>os_indexed := os_indexed st1 + 1\<rparr>, w2)
                 | (Some AlreadyIndexed, w2) \<Rightarrow> (True, st1, w2)
                 | (Some Foreign, w2) \<Rightarrow> (True, note_foreign st1, w2)
                 | (Some NotIndexable, w2) \<Rightarrow> (True, settle_junk e sr cam rel range_checked (st1, w2)))"

subsection \<open>The files of one directory\<close>

definition list_segment_paths_for_camera_range ::
  "orphan_env \<Rightarrow> uuid \<Rightarrow> uuid list \<Rightarrow> instant \<Rightarrow> instant \<Rightarrow> depot \<Rightarrow> path list option \<times> depot" where
  "list_segment_paths_for_camera_range e cam ids lo hi w =
     (let (bad, w1) = fails e w
      in (if bad then None
          else Some (map r_path (filter (\<lambda>r. r_camera r = cam \<and> r_storage r \<in> set ids \<and>
                                              lo \<le> r_start r \<and> r_start r \<le> hi) (catalog w))), w1))"

fun offer_each ::
  "orphan_env \<Rightarrow> scan_root \<Rightarrow> path list \<Rightarrow> uuid \<Rightarrow> bool \<Rightarrow> path list \<Rightarrow> path list \<Rightarrow> orphan_stats \<times> depot \<Rightarrow>
   bool \<times> orphan_stats \<times> depot" where
  "offer_each e sr nested cam range_checked indexed [] x = (True, x)"
| "offer_each e sr nested cam range_checked indexed (rel # rels) x =
     (if rel \<in> set indexed then offer_each e sr nested cam range_checked indexed rels x
      else case offer_orphan e sr nested cam rel range_checked x of
             (False, y) \<Rightarrow> (False, y)
           | (True, y) \<Rightarrow> offer_each e sr nested cam range_checked indexed rels y)"

function chunks :: "nat \<Rightarrow> 'a list \<Rightarrow> 'a list list" where
  "chunks n xs = (if n = 0 \<or> xs = [] then [] else take n xs # chunks n (drop n xs))"
  by pat_completeness auto
termination by (relation "measure (\<lambda>(n, xs). length xs)") auto

declare chunks.simps [simp del]

fun check_chunks ::
  "orphan_env \<Rightarrow> scan_root \<Rightarrow> path list \<Rightarrow> uuid \<Rightarrow> (instant \<times> path) list list \<Rightarrow> orphan_stats \<times> depot \<Rightarrow>
   bool \<times> orphan_stats \<times> depot" where
  "check_chunks e sr nested cam [] x = (True, x)"
| "check_chunks e sr nested cam (chunk # others) x =
     (let margin = seconds orphan_lookup_margin_secs in
      case list_segment_paths_for_camera_range e cam (sr_storage_ids sr)
             (fst (hd chunk) - margin) (fst (last chunk) + margin) (snd x) of
        (None, w1) \<Rightarrow> check_chunks e sr nested cam others (fst x, w1)
      | (Some indexed, w1) \<Rightarrow>
          (case offer_each e sr nested cam True indexed (map snd chunk) (fst x, w1) of
             (False, y) \<Rightarrow> (False, y)
           | (True, y) \<Rightarrow> check_chunks e sr nested cam others y))"

definition dated_files :: "orphan_env \<Rightarrow> path list \<Rightarrow> (instant \<times> path) list" where
  "dated_files e fs =
     List.map_filter (\<lambda>f. map_option (\<lambda>ts. (ts, f)) (parse_segment_timestamp e (last f))) fs"

definition undated_files :: "orphan_env \<Rightarrow> path list \<Rightarrow> path list" where
  "undated_files e fs = filter (\<lambda>f. parse_segment_timestamp e (last f) = None) fs"

definition check_dir_files ::
  "orphan_env \<Rightarrow> scan_root \<Rightarrow> path list \<Rightarrow> uuid \<Rightarrow> path list \<Rightarrow> orphan_stats \<times> depot \<Rightarrow> bool \<times> orphan_stats \<times> depot" where
  "check_dir_files e sr nested cam fs x =
     (case check_chunks e sr nested cam (chunks orphan_lookup_chunk (sort_key fst (dated_files e fs))) x of
        (False, y) \<Rightarrow> (False, y)
      | (True, y) \<Rightarrow> offer_each e sr nested cam False [] (undated_files e fs) y)"

subsection \<open>The walk\<close>

type_synonym dir_stack = "(path \<times> uuid option) list"

text \<open>One entry of a directory: a directory may go on the stack, an mp4 file of a camera is kept.\<close>

definition scan_entry ::
  "orphan_env \<Rightarrow> scan_root \<Rightarrow> path list \<Rightarrow> uuid option \<Rightarrow> path \<Rightarrow> node \<Rightarrow>
   dir_stack \<times> path list \<times> orphan_stats \<Rightarrow> dir_stack \<times> path list \<times> orphan_stats" where
  "scan_entry e sr nested camera rel nd acc =
     (let (stack, fs, st) = acc in
      case nd of
        Folder \<Rightarrow>
          if last rel = ''_quarantine'' then acc
          else if place sr rel \<in> set nested then (stack, fs, note_foreign st)
          else (case camera of
                  Some cam \<Rightarrow> ((rel, Some cam) # stack, fs, st)
                | None \<Rightarrow> (case oe_uuid e (last rel) of
                             Some cam \<Rightarrow> ((rel, Some cam) # stack, fs, st)
                           | None \<Rightarrow> (stack, fs, note_foreign st)))
      | Regular _ _ \<Rightarrow>
          if \<not> is_mp4 (last rel) then acc
          else if camera \<noteq> None then (stack, fs @ [rel], st)
          else (stack, fs, note_foreign st)
      | _ \<Rightarrow> acc)"

fun scan_entries ::
  "orphan_env \<Rightarrow> scan_root \<Rightarrow> path list \<Rightarrow> uuid option \<Rightarrow> path \<Rightarrow> string list \<Rightarrow>
   dir_stack \<times> path list \<times> orphan_stats \<Rightarrow> depot \<Rightarrow> (dir_stack \<times> path list \<times> orphan_stats) \<times> depot" where
  "scan_entries e sr nested camera dir [] acc w = (acc, w)"
| "scan_entries e sr nested camera dir (n # ns) acc w =
     (let (bad, w1) = fails e w in
      if bad then (acc, w1)
      else case probe e (place sr (dir @ [n])) w1 of
             (None, w2) \<Rightarrow> scan_entries e sr nested camera dir ns acc w2
           | (Some nd, w2) \<Rightarrow>
               scan_entries e sr nested camera dir ns (scan_entry e sr nested camera (dir @ [n]) nd acc) w2)"

fun walk_root ::
  "orphan_env \<Rightarrow> scan_root \<Rightarrow> path list \<Rightarrow> nat \<Rightarrow> dir_stack \<Rightarrow> orphan_stats \<times> depot \<Rightarrow>
   bool option \<times> orphan_stats \<times> depot" where
  "walk_root e sr nested k [] x = (Some True, x)"
| "walk_root e sr nested 0 ((dir, camera) # stack) x = (None, x)"
| "walk_root e sr nested (Suc k) ((dir, camera) # stack) x =
     (let (st, w) = x in
      if oe_stopped e (steps w) then (Some False, x)
      else case read_dir e (place sr dir) w of
             (None, w1) \<Rightarrow> walk_root e sr nested k stack (st, w1)
           | (Some names, w1) \<Rightarrow>
               (case scan_entries e sr nested camera dir names (stack, [], st) w1 of
                  ((stack1, fs, st1), w2) \<Rightarrow>
                    (case camera of
                       Some cam \<Rightarrow>
                         if fs = [] then walk_root e sr nested k stack1 (st1, w2)
                         else (case check_dir_files e sr nested cam fs (st1, w2) of
                                 (False, y) \<Rightarrow> (Some False, y)
                               | (True, y) \<Rightarrow> walk_root e sr nested k stack1 y)
                     | None \<Rightarrow> walk_root e sr nested k stack1 (st1, w2))))"

fun walk_roots ::
  "orphan_env \<Rightarrow> scan_root list \<Rightarrow> nat \<Rightarrow> scan_root list \<Rightarrow> orphan_stats \<times> depot \<Rightarrow> bool option \<times> orphan_stats \<times> depot"
where
  "walk_roots e roots k [] x = (Some True, x)"
| "walk_roots e roots k (sr # srs) x =
     (let (st, w) = x in
      if oe_stopped e (steps w) then (Some False, x)
      else case probe e (sr_canonical sr) w of
             (None, w1) \<Rightarrow> walk_roots e roots k srs (st, w1)
           | (Some _, w1) \<Rightarrow>
               (case walk_root e sr (nested_roots roots sr) k [([], None)] (st, w1) of
                  (Some True, y) \<Rightarrow> walk_roots e roots k srs y
                | (r, y) \<Rightarrow> (r, y)))"

text \<open>\<open>Some True\<close>: completed; \<open>Some False\<close>: interrupted, or the storages could not be listed.\<close>

definition orphan_pass ::
  "orphan_env \<Rightarrow> nat \<Rightarrow> depot \<Rightarrow> bool option \<times> scan_root list \<times> orphan_stats \<times> depot" where
  "orphan_pass e k w =
     (case scan_roots_for_orphan_pass e w of
        (None, w1) \<Rightarrow> (Some False, [], stats_new, w1)
      | (Some roots, w1) \<Rightarrow>
          (case walk_roots e roots k roots (stats_new, w1) of (r, st, w2) \<Rightarrow> (r, roots, st, w2)))"

end
