(* ===== verification/OrphanSafety.thy ===== *)
theory OrphanSafety
  imports Orphans
begin

text \<open>
  What the orphan pass keeps. \<open>named\<close> is how the recorder names what it indexes: the path of a row
  starts with the id of its camera, and a file name that parses gives the start of the row, up to the
  margin of the lookup. \<open>layout\<close> says that no storage root lies inside a camera directory or a quarantine
  of another. \<open>held\<close> is the invariant of the walk.
\<close>

definition row_key :: "seg_row \<Rightarrow> uuid \<times> segment_stream \<times> instant" where
  "row_key r = (r_camera r, r_stream r, r_start r)"

lemma same_key_iff: "same_key a b \<longleftrightarrow> row_key a = row_key b"
  by (auto simp: same_key_def row_key_def)

definition named :: "orphan_env \<Rightarrow> seg_row \<Rightarrow> bool" where
  "named e r \<longleftrightarrow> r_path r \<noteq> [] \<and> oe_uuid e (hd (r_path r)) = Some (r_camera r) \<and>
     (\<forall>ts. parse_segment_timestamp e (last (r_path r)) = Some ts \<longrightarrow>
        r_start r - seconds orphan_lookup_margin_secs \<le> ts \<and> ts \<le> r_start r + seconds orphan_lookup_margin_secs)"

definition layout :: "orphan_env \<Rightarrow> scan_root list \<Rightarrow> bool" where
  "layout e roots \<longleftrightarrow> oe_uuid e ''_quarantine'' = None \<and>
     (\<forall>a \<in> set roots. \<forall>b \<in> set roots. \<forall>y ys. sr_canonical b = sr_canonical a @ y # ys \<longrightarrow>
        oe_uuid e y = None \<and> y \<noteq> ''_quarantine'')"

definition row_place :: "scan_root list \<Rightarrow> seg_row \<Rightarrow> path \<Rightarrow> bool" where
  "row_place roots r p \<longleftrightarrow>
     (\<exists>sr \<in> set roots. r_storage r \<in> set (sr_storage_ids sr) \<and> p = place sr (r_path r))"

definition indexed_places :: "scan_root list \<Rightarrow> depot \<Rightarrow> path set" where
  "indexed_places roots w = {p. \<exists>r \<in> set (catalog w). row_place roots r p}"

definition quarantined :: "scan_root list \<Rightarrow> path set" where
  "quarantined roots = {p. \<exists>sr \<in> set roots. \<exists>s. p = place sr (''_quarantine'' # s)}"

text \<open>A file the walk may offer: below the directory of a camera, not below a quarantine.\<close>

definition camera_file :: "orphan_env \<Rightarrow> uuid \<Rightarrow> path \<Rightarrow> bool" where
  "camera_file e cam rel \<longleftrightarrow> rel \<noteq> [] \<and> oe_uuid e (hd rel) = Some cam \<and> ''_quarantine'' \<notin> set rel"

subsection \<open>Places of different roots\<close>

lemma append_eq_cases:
  assumes "a @ x = b @ y"
  obtains "a = b" "x = y" | k ks where "b = a @ k # ks" "x = (k # ks) @ y" | k ks where "a = b @ k # ks" "y = (k # ks) @ x"
proof -
  obtain us where "a = b @ us \<and> us @ x = y \<or> a @ us = b \<and> x = us @ y"
    using assms by (auto simp: append_eq_append_conv2)
  then show ?thesis using that by (cases us) auto
qed

lemma starts_with_append: "starts_with (a @ x) a"
  by (auto simp: starts_with_iff)

lemma indexed_place_here:
  assumes lay: "layout e roots" and nm: "\<forall>r \<in> set (catalog w). named e r" and sr: "sr \<in> set roots"
    and d: "distinct (map sr_canonical roots)" and cf: "camera_file e cam rel"
    and nest: "\<forall>n \<in> set (nested_roots roots sr). \<not> starts_with (place sr rel) n"
    and mem: "place sr rel \<in> indexed_places roots w"
  shows "\<exists>r \<in> set (catalog w). r_storage r \<in> set (sr_storage_ids sr) \<and> r_path r = rel \<and> r_camera r = cam"
proof -
  obtain r sr' where r: "r \<in> set (catalog w)" "sr' \<in> set roots" "r_storage r \<in> set (sr_storage_ids sr')"
    "sr_canonical sr @ rel = sr_canonical sr' @ r_path r"
    using mem by (auto simp: indexed_places_def row_place_def place_def)
  have n: "named e r" using nm r(1) by blast
  show ?thesis
    using r(4)
  proof (cases rule: append_eq_cases)
    case 1
    then have "sr = sr'" using d sr r(2) by (auto simp: distinct_map inj_on_def)
    then show ?thesis using 1 r n cf by (auto simp: named_def camera_file_def intro!: bexI [of _ r])
  next
    case (2 k ks)
    then have "sr_canonical sr' \<in> set (nested_roots roots sr)"
      using r(2) by (auto simp: nested_roots_def starts_with_iff intro!: image_eqI [of _ _ sr'])
    moreover have "starts_with (place sr rel) (sr_canonical sr')"
      using r(4) by (simp add: place_def starts_with_append)
    ultimately show ?thesis using nest by blast
  next
    case (3 k ks)
    then have "oe_uuid e k = None" using lay sr r(2) unfolding layout_def by blast
    then show ?thesis using 3 n by (simp add: named_def)
  qed
qed

lemma camera_file_not_quarantined:
  assumes "layout e roots" and "sr \<in> set roots" and "camera_file e cam rel"
  shows "place sr rel \<notin> quarantined roots"
proof
  assume "place sr rel \<in> quarantined roots"
  then obtain sr' s where s: "sr' \<in> set roots" "sr_canonical sr @ rel = sr_canonical sr' @ ''_quarantine'' # s"
    by (auto simp: quarantined_def place_def)
  show False
    using s(2)
  proof (cases rule: append_eq_cases)
    case 1
    then show False using assms(3) by (simp add: camera_file_def)
  next
    case (2 k ks)
    then show False using assms(3) by (simp add: camera_file_def)
  next
    case (3 k ks)
    then have "k \<noteq> ''_quarantine''" using assms(1,2) s(1) unfolding layout_def by blast
    then show False using 3 by simp
  qed
qed

lemma indexed_not_quarantined:
  assumes "layout e roots" and "\<forall>r \<in> set (catalog w). named e r" and "p \<in> indexed_places roots w"
  shows "p \<notin> quarantined roots"
proof
  assume "p \<in> quarantined roots"
  then obtain sr s where s: "sr \<in> set roots" "p = sr_canonical sr @ ''_quarantine'' # s"
    by (auto simp: quarantined_def place_def)
  obtain r sr' where r: "r \<in> set (catalog w)" "sr' \<in> set roots" "p = sr_canonical sr' @ r_path r"
    using assms(3) by (auto simp: indexed_places_def row_place_def place_def)
  have n: "named e r" using assms(2) r(1) by blast
  have "sr_canonical sr @ ''_quarantine'' # s = sr_canonical sr' @ r_path r" using s(2) r(3) by simp
  then show False
  proof (cases rule: append_eq_cases)
    case 1
    then have "hd (r_path r) = ''_quarantine''" by (metis list.sel(1))
    then show False using n assms(1) by (simp add: named_def layout_def)
  next
    case (2 k ks)
    then have "k \<noteq> ''_quarantine''" using assms(1) s(1) r(2) unfolding layout_def by blast
    then show False using 2 by simp
  next
    case (3 k ks)
    then have "oe_uuid e k = None" using assms(1) s(1) r(2) unfolding layout_def by blast
    then show False using 3 n by (simp add: named_def)
  qed
qed

subsection \<open>Frames\<close>

lemma fails_frame [simp]:
  "tree (snd (fails e w)) = tree w" "catalog (snd (fails e w)) = catalog w"
  by (simp_all add: fails_def)

lemma node_at_steps [simp]: "node_at (w\<lparr>steps := n\<rparr>) p = node_at w p" "node_at (w\<lparr>catalog := c\<rparr>) p = node_at w p"
  by (simp_all add: node_at_def)

lemma node_at_fails [simp]: "node_at (snd (fails e w)) p = node_at w p"
  by (simp add: node_at_def)

lemma put_node_at: "node_at (put_node p n w) q = (if q = p then Some n else node_at w q)"
  by (simp add: node_at_def put_node_def update_conv)

lemma cut_node_at: "node_at (cut_node p w) q = (if q = p then None else node_at w q)"
  by (simp add: node_at_def cut_node_def delete_conv)

lemma node_catalog [simp]: "catalog (put_node p n w) = catalog w" "catalog (cut_node p w) = catalog w"
  by (simp_all add: put_node_def cut_node_def)

lemma probe_frame:
  assumes "probe e p w = (r, w')"
  shows "\<And>q. node_at w' q = node_at w q" "catalog w' = catalog w" "r = Some nd \<Longrightarrow> node_at w p = Some nd"
  using assms by (auto simp: probe_def fails_def node_at_def split: if_splits)

lemma make_dirs_frame:
  assumes "make_dirs e d ns w = (ok, w')"
  shows "(\<And>k. q \<noteq> d @ take (Suc k) ns) \<Longrightarrow> node_at w' q = node_at w q" "catalog w' = catalog w"
proof -
  have "((\<forall>k. q \<noteq> d @ take (Suc k) ns) \<longrightarrow> node_at w' q = node_at w q) \<and> catalog w' = catalog w"
    using assms
  proof (induction e d ns w arbitrary: ok w' rule: make_dirs.induct)
    case (2 e d n ns w)
    obtain bad w1 where f: "fails e w = (bad, w1)" by force
    have w1: "catalog w1 = catalog w" "node_at w1 q = node_at w q"
      using fails_frame [of e w] node_at_fails [of e w q] f by simp_all
    have shift: "(\<forall>k. q \<noteq> d @ take (Suc k) (n # ns)) \<Longrightarrow> q \<noteq> d @ [n] \<and> (\<forall>k. q \<noteq> (d @ [n]) @ take (Suc k) ns)"
    proof (intro conjI allI)
      assume h: "\<forall>k. q \<noteq> d @ take (Suc k) (n # ns)"
      show "q \<noteq> d @ [n]" using spec [OF h, of 0] by simp
      show "q \<noteq> (d @ [n]) @ take (Suc k) ns" for k using spec [OF h, of "Suc k"] by simp
    qed
    show ?case
    proof (cases "node_at w (d @ [n])")
      case None
      show ?thesis
      proof (cases bad)
        case True
        then show ?thesis using 2(3) None f w1 by (simp add: Let_def)
      next
        case False
        then have "make_dirs e (d @ [n]) ns (put_node (d @ [n]) Folder w1) = (ok, w')"
          using 2(3) None f by (simp add: Let_def)
        from 2(1) [OF refl None refl f [symmetric] False this] show ?thesis
          using w1 shift by (auto simp: put_node_at)
      qed
    next
      case (Some nd)
      show ?thesis
      proof (cases "nd = Folder")
        case True
        then have "make_dirs e (d @ [n]) ns w = (ok, w')" using 2(3) Some by (simp add: Let_def)
        from 2(2) [OF refl Some True this] show ?thesis using shift by blast
      next
        case False
        then have "w' = w" using 2(3) Some by (cases nd) (simp_all add: Let_def)
        then show ?thesis by simp
      qed
    qed
  qed auto
  then show "(\<And>k. q \<noteq> d @ take (Suc k) ns) \<Longrightarrow> node_at w' q = node_at w q" "catalog w' = catalog w" by blast+
qed

lemma unlink_node_frame:
  assumes "unlink_node e p w = (ok, w')"
  shows "catalog w' = catalog w" "q \<noteq> p \<Longrightarrow> node_at w' q = node_at w q" "node_at w' q = node_at w q \<or> node_at w' q = None"
  using assms by (auto simp: unlink_node_def fails_def cut_node_at split: if_splits)

lemma stamp_frame:
  "catalog (stamp_entry_time e p w) = catalog w" "q \<noteq> p \<Longrightarrow> node_at (stamp_entry_time e p w) q = node_at w q"
  by (auto simp: stamp_entry_time_def fails_def put_node_at Let_def split: option.split node.split)

lemma move_file_frame:
  assumes "move_file e src dst w = (ok, w')"
  shows "catalog w' = catalog w" "q \<noteq> dst \<Longrightarrow> q \<noteq> src \<Longrightarrow> node_at w' q = node_at w q"
    "q \<noteq> dst \<Longrightarrow> node_at w' q = node_at w q \<or> node_at w' q = None"
proof -
  obtain bad w1 where f: "fails e w = (bad, w1)" by force
  have w1: "catalog w1 = catalog w" "\<And>q. node_at w1 q = node_at w q"
    using fails_frame [of e w] node_at_fails [of e w] f by simp_all
  have main: "catalog w' = catalog w \<and> (q \<noteq> dst \<longrightarrow> q \<noteq> src \<longrightarrow> node_at w' q = node_at w q) \<and>
      (q \<noteq> dst \<longrightarrow> node_at w' q = node_at w q \<or> node_at w' q = None)" for q
  proof (cases "\<exists>b m. node_at w src = Some (Regular b m)")
    case False
    then have "w' = w1" using assms f by (auto simp: move_file_def split: option.splits node.splits)
    then show ?thesis using w1 by simp
  next
    case True
    then obtain b m where src: "node_at w src = Some (Regular b m)" by blast
    obtain bad2 w2 where f2: "fails e w1 = (bad2, w2)" by force
    have w2: "catalog w2 = catalog w" "\<And>q. node_at w2 q = node_at w q"
      using fails_frame [of e w1] node_at_fails [of e w1] f2 w1 by simp_all
    let ?w3 = "put_node dst (Regular b (Some (oe_now e (steps w2)))) w2"
    obtain gone w4 where u: "unlink_node e src ?w3 = (gone, w4)" by force
    note uf = unlink_node_frame [OF u]
    have w4: "catalog w4 = catalog w" "q \<noteq> src \<Longrightarrow> q \<noteq> dst \<Longrightarrow> node_at w4 q = node_at w q"
      "q \<noteq> dst \<Longrightarrow> node_at w4 q = node_at w q \<or> node_at w4 q = None"
      using uf(1) uf(2) [of q] uf(3) [of q] w2 by (auto simp: put_node_at)
    let ?moved = "stamp_entry_time e dst (put_node dst (Regular b m) (cut_node src w1))"
    have "w' \<in> {w1, w2, w4, stamp_entry_time e dst w4, ?moved}"
    proof (cases bad)
      case True
      then show ?thesis
        using assms f src f2 u by (cases "oe_cross e (steps w)"; cases gone) (simp_all add: move_file_def Let_def split: if_splits)
    next
      case False
      then show ?thesis
        using assms f src by (cases "node_at w dst = Some Folder") (simp_all add: move_file_def Let_def)
    qed
    then consider "w' = w1" | "w' = w2" | "w' = w4" | "w' = stamp_entry_time e dst w4" | "w' = ?moved" by blast
    then show ?thesis
    proof cases
      case 4
      have "node_at w' q = node_at w4 q" if "q \<noteq> dst" using 4 stamp_frame(2) [OF that] by simp
      moreover have "catalog w' = catalog w" using 4 stamp_frame(1) w4(1) by simp
      ultimately show ?thesis using w4(2,3) by metis
    next
      case 5
      have "node_at w' q = (if q = src then None else node_at w q)" if "q \<noteq> dst"
        using stamp_frame(2) [OF that, of e] w1(2) that unfolding 5 by (simp add: put_node_at cut_node_at)
      moreover have "catalog w' = catalog w" using 5 stamp_frame(1) w1(1) by simp
      ultimately show ?thesis by auto
    next
      case 1
      then show ?thesis using w1 by simp
    next
      case 2
      then show ?thesis using w2 by simp
    next
      case 3
      show ?thesis unfolding 3 using w4 by blast
    qed
  qed
  show "catalog w' = catalog w" "q \<noteq> dst \<Longrightarrow> q \<noteq> src \<Longrightarrow> node_at w' q = node_at w q"
    "q \<noteq> dst \<Longrightarrow> node_at w' q = node_at w q \<or> node_at w' q = None"
    using main [of q] by (elim conjE; simp only: simp_thms)+
qed

lemma quarantine_file_frame:
  assumes "quarantine_file e sr rel w = (ok, w')" and "sr \<in> set roots" and "q \<notin> quarantined roots"
  shows "catalog w' = catalog w" "q \<noteq> place sr rel \<Longrightarrow> node_at w' q = node_at w q"
    "node_at w' q = node_at w q \<or> node_at w' q = None"
proof -
  obtain ok1 w1 where md: "make_dirs e (sr_canonical sr) (quarantine_dir rel) w = (ok1, w1)" by force
  have inq: "sr_canonical sr @ quarantine_dir rel @ x \<in> quarantined roots" for x
    using assms(2) by (auto simp: quarantined_def place_def quarantine_dir_def split: list.split)
  have "q \<noteq> sr_canonical sr @ take (Suc k) (quarantine_dir rel)" for k
    using assms(2,3) by (auto simp: quarantined_def place_def quarantine_dir_def split: list.splits)
  then have w1: "catalog w1 = catalog w" "node_at w1 q = node_at w q" using make_dirs_frame [OF md] by blast+
  let ?dir = "sr_canonical sr @ quarantine_dir rel"
  obtain there w2 where pr: "probe e (?dir @ [last rel]) w1 = (there, w2)" by force
  have w2: "catalog w2 = catalog w" "node_at w2 q = node_at w q" using probe_frame [OF pr] w1 by simp_all
  define dst where "dst = (if there \<noteq> None then ?dir @ [stamped_name e (last rel) (oe_now e (steps w2))] else ?dir @ [last rel])"
  have dst: "q \<noteq> dst" using assms(3) inq unfolding dst_def by auto
  obtain ok3 w3 where mv: "move_file e (place sr rel) dst w2 = (ok3, w3)" by force
  have "w' = w1 \<or> w' = w3"
    using assms(1) md pr mv unfolding dst_def by (auto simp: quarantine_file_def Let_def split: bool.splits if_splits)
  then show "catalog w' = catalog w" "q \<noteq> place sr rel \<Longrightarrow> node_at w' q = node_at w q"
    "node_at w' q = node_at w q \<or> node_at w' q = None"
    using w1 w2 move_file_frame [OF mv] dst by metis+
qed

lemma quarantine_file_folder:
  assumes "quarantine_file e sr rel w = (ok, w')" and "sr \<in> set roots" and "place sr rel \<notin> quarantined roots"
    and "node_at w (place sr rel) = Some Folder"
  shows "node_at w' (place sr rel) = Some Folder"
proof -
  obtain ok1 w1 where md: "make_dirs e (sr_canonical sr) (quarantine_dir rel) w = (ok1, w1)" by force
  have "place sr rel \<noteq> sr_canonical sr @ take (Suc k) (quarantine_dir rel)" for k
    using assms(2,3) by (auto simp: quarantined_def place_def quarantine_dir_def split: list.splits)
  then have w1: "node_at w1 (place sr rel) = Some Folder" using make_dirs_frame(1) [OF md] assms(4) by metis
  let ?dir = "sr_canonical sr @ quarantine_dir rel"
  obtain there w2 where pr: "probe e (?dir @ [last rel]) w1 = (there, w2)" by force
  have w2: "node_at w2 (place sr rel) = Some Folder" using probe_frame [OF pr] w1 by simp
  have mv: "node_at (snd (move_file e (place sr rel) dst w2)) (place sr rel) = Some Folder" for dst
    using w2 by (simp add: move_file_def fails_def)
  have "w' = w1 \<or> (\<exists>dst. w' = snd (move_file e (place sr rel) dst w2))"
    using assms(1) md pr by (auto simp: quarantine_file_def Let_def split: bool.splits if_splits) (metis snd_conv)+
  then show ?thesis using w1 mv by auto
qed

subsection \<open>No symlink appears\<close>

definition links_kept :: "depot \<Rightarrow> depot \<Rightarrow> bool" where
  "links_kept w w' \<longleftrightarrow> (\<forall>p t. node_at w' p = Some (Symlink t) \<longrightarrow> node_at w p = Some (Symlink t))"

lemma links_same: "(\<And>q. node_at w' q = node_at w q) \<Longrightarrow> links_kept w w'"
  by (simp add: links_kept_def)

lemma links_trans: "links_kept a b \<Longrightarrow> links_kept b c \<Longrightarrow> links_kept a c"
  by (simp add: links_kept_def)

lemma links_put: "(\<And>t. n \<noteq> Symlink t) \<Longrightarrow> links_kept a b \<Longrightarrow> links_kept a (put_node p n b)"
  by (simp add: links_kept_def put_node_at)

lemma links_cut: "links_kept a b \<Longrightarrow> links_kept a (cut_node p b)"
  by (simp add: links_kept_def cut_node_at)

lemma links_fails: "links_kept a b \<Longrightarrow> links_kept a (snd (fails e b))"
  by (simp add: links_kept_def)

lemma links_stamp: "links_kept a b \<Longrightarrow> links_kept a (stamp_entry_time e p b)"
  by (auto simp: stamp_entry_time_def Let_def fails_def links_kept_def put_node_at split: option.splits node.splits if_splits)

lemma links_unlink: "links_kept a b \<Longrightarrow> links_kept a (snd (unlink_node e p b))"
  by (auto simp: unlink_node_def fails_def links_kept_def cut_node_at split: if_splits)

lemma links_make_dirs: "links_kept a w \<Longrightarrow> links_kept a (snd (make_dirs e d ns w))"
proof (induction e d ns w rule: make_dirs.induct)
  case (2 e d n ns w)
  obtain bad w1 where f: "fails e w = (bad, w1)" by force
  have w1: "links_kept a w1" using links_fails [OF 2(3), of e] f by simp
  show ?case
  proof (cases "node_at w (d @ [n])")
    case None
    have put: "links_kept a (put_node (d @ [n]) Folder w1)" by (rule links_put) (use w1 in simp_all)
    show ?thesis using None f w1 2(1) [OF refl None refl f [symmetric] _ put] by (cases bad) (simp_all add: Let_def)
  next
    case (Some nd)
    show ?thesis using Some 2(3) 2(2) [OF refl Some _ 2(3)] by (cases nd) (simp_all add: Let_def)
  qed
qed simp

lemma links_move_file:
  assumes "links_kept a w"
  shows "links_kept a (snd (move_file e src dst w))"
proof -
  obtain bad w1 where f: "fails e w = (bad, w1)" by force
  have w1: "links_kept a w1" using links_fails [OF assms, of e] f by simp
  obtain bad2 w2 where f2: "fails e w1 = (bad2, w2)" by force
  have w2: "links_kept a w2" using links_fails [OF w1, of e] f2 by simp
  show ?thesis
  proof (cases "\<exists>b m. node_at w src = Some (Regular b m)")
    case False
    then show ?thesis using f w1 by (auto simp: move_file_def split: option.split node.split)
  next
    case True
    then obtain b m where src: "node_at w src = Some (Regular b m)" by blast
    let ?w3 = "put_node dst (Regular b (Some (oe_now e (steps w2)))) w2"
    have w3: "links_kept a ?w3" by (rule links_put) (use w2 in simp_all)
    obtain gone w4 where u: "unlink_node e src ?w3 = (gone, w4)" by force
    have w4: "links_kept a w4" using links_unlink [OF w3, of e src] u by simp
    have moved: "links_kept a (put_node dst (Regular b m) (cut_node src w1))"
      by (rule links_put) (use links_cut [OF w1] in simp_all)
    show ?thesis
      using f f2 src u w1 w2 w4 links_stamp [OF moved] links_stamp [OF w4]
      by (simp add: move_file_def Let_def split: bool.split)
  qed
qed

lemma links_quarantine_file: "links_kept w (snd (quarantine_file e sr rel w))"
proof -
  obtain ok1 w1 where md: "make_dirs e (sr_canonical sr) (quarantine_dir rel) w = (ok1, w1)" by force
  have w1: "links_kept w w1" using links_make_dirs [OF links_same [OF refl]] md by (metis snd_conv)
  let ?p = "(sr_canonical sr @ quarantine_dir rel) @ [last rel]"
  obtain there w2 where pr: "probe e ?p w1 = (there, w2)" by force
  have w2: "links_kept w w2" using w1 probe_frame(1) [OF pr] by (simp add: links_kept_def)
  have "snd (quarantine_file e sr rel w) \<in> {w1} \<union> {snd (move_file e (place sr rel) dst w2) | dst. True}"
    using md pr by (auto simp: quarantine_file_def Let_def split: bool.splits)
  then show ?thesis using w1 links_move_file [OF w2] by auto
qed

subsection \<open>The invariant\<close>

text \<open>What is true of a row the pass adopts, in terms of the depot it started with.\<close>

definition adopted :: "orphan_env \<Rightarrow> scan_root list \<Rightarrow> depot \<Rightarrow> seg_row \<Rightarrow> bool" where
  "adopted e roots w0 r \<longleftrightarrow> named e r \<and> oe_camera e (r_camera r) = Some (r_stream r) \<and>
     r_start r < r_end r \<and> r_end r \<le> r_start r + 2 * oe_segment_len e \<and>
     parse_segment_timestamp e (last (r_path r)) = Some (r_start r) \<and>
     (\<exists>sr b m. sr \<in> set roots \<and> r_storage r = sr_adopt sr \<and> r_stage r = sr_stage sr \<and>
        node_at w0 (place sr (r_path r)) = Some (Regular b m) \<and> sub_floor_bytes \<le> int (length b) \<and> r_size r = int (length b))"

definition held :: "orphan_env \<Rightarrow> scan_root list \<Rightarrow> depot \<Rightarrow> depot \<Rightarrow> bool" where
  "held e roots w0 w \<longleftrightarrow>
     (\<forall>p \<in> indexed_places roots w0. node_at w p = node_at w0 p) \<and>
     (\<forall>p. p \<notin> quarantined roots \<longrightarrow> node_at w p = node_at w0 p \<or> node_at w p = None) \<and>
     (\<forall>p. p \<notin> quarantined roots \<longrightarrow> node_at w0 p = Some Folder \<longrightarrow> node_at w p = Some Folder) \<and>
     (\<exists>new. catalog w = catalog w0 @ new \<and> (\<forall>r \<in> set new. adopted e roots w0 r)) \<and>
     (distinct (map row_key (catalog w0)) \<longrightarrow> distinct (map row_key (catalog w))) \<and> links_kept w0 w"

definition site :: "orphan_env \<Rightarrow> scan_root list \<Rightarrow> depot \<Rightarrow> bool" where
  "site e roots w0 \<longleftrightarrow> layout e roots \<and> distinct (map sr_canonical roots) \<and>
     (\<forall>r \<in> set (catalog w0). named e r) \<and> 0 < oe_segment_len e"

lemma held_refl: "held e roots w w"
  by (simp add: held_def links_same)

lemma held_quiet:
  assumes "held e roots w0 w" and "\<And>q. node_at w' q = node_at w q" and "catalog w' = catalog w"
  shows "held e roots w0 w'"
proof -
  have "links_kept w0 w'" using assms(1) links_trans [OF _ links_same [OF assms(2)]] by (simp add: held_def)
  then show ?thesis using assms by (simp add: held_def)
qed

lemma held_fails: "held e roots w0 w \<Longrightarrow> held e roots w0 (snd (fails e w))"
  by (rule held_quiet) simp_all

lemma held_probe:
  assumes "held e roots w0 w" and "probe e p w = (r, w')"
  shows "held e roots w0 w'"
  using assms(1) by (rule held_quiet) (simp_all add: probe_frame(1,2) [OF assms(2)])

lemma held_adopt:
  assumes "held e roots w0 w" and "adopted e roots w0 r" and "row_key r \<notin> row_key ` set (catalog w)"
    and "\<And>q. node_at w' q = node_at w q" and "catalog w' = catalog w @ [r]"
  shows "held e roots w0 w'"
proof -
  obtain new where "catalog w = catalog w0 @ new" "\<forall>r \<in> set new. adopted e roots w0 r"
    using assms(1) by (auto simp: held_def)
  then have "catalog w' = catalog w0 @ (new @ [r]) \<and> (\<forall>s \<in> set (new @ [r]). adopted e roots w0 s)"
    using assms(2,5) by simp
  moreover have "links_kept w0 w'"
    using assms(1) links_trans [OF _ links_same [OF assms(4)]] by (simp add: held_def)
  ultimately show ?thesis using assms unfolding held_def by auto
qed

lemma held_quarantine:
  assumes st: "site e roots w0" and h: "held e roots w0 w" and sr: "sr \<in> set roots"
    and free: "place sr rel \<notin> indexed_places roots w0" and run: "quarantine_file e sr rel w = (ok, w')"
  shows "held e roots w0 w'"
proof -
  note fr = quarantine_file_frame [OF run sr]
  have "\<exists>q. q \<notin> quarantined roots" by (rule exI [of _ "[]"]) (auto simp: quarantined_def place_def)
  then have cat: "catalog w' = catalog w" using fr(1) by blast
  have "node_at w' p = node_at w0 p" if p: "p \<in> indexed_places roots w0" for p
  proof -
    have "p \<notin> quarantined roots" using indexed_not_quarantined p st by (auto simp: site_def)
    moreover have "p \<noteq> place sr rel" using free p by auto
    ultimately show ?thesis using fr(2) h p by (simp add: held_def)
  qed
  moreover have "node_at w' p = node_at w0 p \<or> node_at w' p = None" if "p \<notin> quarantined roots" for p
    using fr(3) [OF that] h that unfolding held_def by metis
  moreover have "node_at w' p = Some Folder" if "p \<notin> quarantined roots" "node_at w0 p = Some Folder" for p
  proof -
    have f: "node_at w p = Some Folder" using h that by (simp add: held_def)
    show ?thesis
    proof (cases "p = place sr rel")
      case True
      then show ?thesis using quarantine_file_folder [OF run sr] that f by simp
    next
      case False
      then show ?thesis using fr(2) [OF that(1)] f by simp
    qed
  qed
  moreover have "links_kept w0 w'"
    using h links_quarantine_file [of w e sr rel] run by (auto simp: held_def intro: links_trans)
  ultimately show ?thesis using h cat by (simp add: held_def)
qed

lemma orphan_end_bounds:
  "0 < len \<Longrightarrow> start < orphan_end start m len \<and> orphan_end start m len \<le> start + 2 * len"
  by (auto simp: orphan_end_def split: option.split)

lemma try_index_held:
  assumes st: "site e roots w0" and h: "held e roots w0 w" and sr: "sr \<in> set roots" and cf: "camera_file e cam rel"
    and run: "try_index_orphan e sr rel w = (r, w')"
  shows "held e roots w0 w'"
proof (cases "r = Some OrphanIndexed")
  case False
  have "tree w' = tree w \<and> catalog w' = catalog w"
    using run False
    by (auto simp: try_index_orphan_def insert_if_absent_def probe_def fails_def Let_def
        split: list.splits option.splits if_splits node.splits)
  then show ?thesis using held_quiet [OF h] by (simp add: node_at_def)
next
  case True
  obtain c cs where rel: "rel = c # cs" "cs \<noteq> []"
    using run True by (auto simp: try_index_orphan_def split: list.splits)
  then obtain c2 cs2 where cs: "cs = c2 # cs2" by (cases cs) auto
  have cam: "oe_uuid e c = Some cam" using cf rel by (simp add: camera_file_def)
  obtain start stream where ss: "parse_segment_timestamp e (last rel) = Some start" "oe_camera e cam = Some stream"
    using run True cam rel cs by (auto simp: try_index_orphan_def Let_def split: option.splits prod.splits if_splits)
  obtain bad w1 where f: "fails e w = (bad, w1)" by force
  have w1: "\<And>q. node_at w1 q = node_at w q" "catalog w1 = catalog w"
    using node_at_fails [of e w] fails_frame [of e w] f by simp_all
  obtain nd w2 where pr: "probe e (place sr rel) w1 = (nd, w2)" by force
  obtain b m where nd: "nd = Some (Regular b m)" "sub_floor_bytes \<le> int (length b)"
    using run True cam rel cs ss f pr by (auto simp: try_index_orphan_def Let_def split: option.splits node.splits if_splits)
  note pf = probe_frame [OF pr]
  let ?row = "orphan_row e sr rel cam stream start m (length b)"
  obtain ok w3 where ins0: "insert_if_absent e ?row w2 = (ok, w3)" by force
  have "\<not> bad" using run True cam rel cs ss f by (auto simp: try_index_orphan_def Let_def)
  then have "(case (ok, w3) of (None, w3) \<Rightarrow> (None, w3) | (Some True, w3) \<Rightarrow> (Some OrphanIndexed, w3)
      | (Some False, w3) \<Rightarrow> (Some AlreadyIndexed, w3)) = (Some OrphanIndexed, w')"
    using run True cam rel cs ss f pr nd ins0 by (simp add: try_index_orphan_def Let_def)
  then have ins: "insert_if_absent e ?row w2 = (Some True, w')"
    using ins0 by (auto split: option.splits bool.splits)
  have w': "catalog w' = catalog w @ [?row]" "\<And>q. node_at w' q = node_at w q"
    "row_key ?row \<notin> row_key ` set (catalog w)"
    using ins pf w1 by (auto simp: insert_if_absent_def fails_def same_key_iff list_ex_iff node_at_def split: if_splits)
  have "node_at w (place sr rel) = Some (Regular b m)" using pf(3) nd w1 by simp
  moreover have "place sr rel \<notin> quarantined roots"
    by (rule camera_file_not_quarantined) (use st sr cf in \<open>auto simp: site_def\<close>)
  ultimately have "node_at w0 (place sr rel) = Some (Regular b m)" using h unfolding held_def by (metis option.distinct(1))
  then have "adopted e roots w0 ?row"
    using ss cam rel sr nd(2) orphan_end_bounds [of "oe_segment_len e" start m] st
    by (auto simp: adopted_def named_def orphan_row_def Let_def site_def seconds_def orphan_lookup_margin_secs_def)
  then show ?thesis using held_adopt [OF h _ w'(3,2,1)] by blast
qed

subsection \<open>One file and one directory\<close>

lemma held_catalog: "held e roots w0 w \<Longrightarrow> set (catalog w0) \<subseteq> set (catalog w)"
  by (auto simp: held_def)

lemma settle_junk_held:
  assumes st: "site e roots w0" and h: "held e roots w0 w" and sr: "sr \<in> set roots" and cf: "camera_file e cam rel"
    and nest: "\<forall>n \<in> set (nested_roots roots sr). \<not> starts_with (place sr rel) n"
    and rc: "range_checked \<Longrightarrow> place sr rel \<notin> indexed_places roots w0"
    and run: "settle_junk e sr cam rel range_checked (s, w) = (s', w')"
  shows "held e roots w0 w'"
proof -
  obtain checked w1 where ck: "(if range_checked then (Some False, w)
      else path_indexed_for_camera e cam (sr_storage_ids sr) rel w) = (checked, w1)" by force
  have w1: "\<And>q. node_at w1 q = node_at w q" "catalog w1 = catalog w"
    using ck by (auto simp: path_indexed_for_camera_def fails_def node_at_def Let_def split: if_splits)
  have h1: "held e roots w0 w1" using held_quiet [OF h] w1 by blast
  show ?thesis
  proof (cases "checked = Some False")
    case False
    then have "w' = w1" using run ck by (cases range_checked) (auto simp: settle_junk_def)
    then show ?thesis using h1 by simp
  next
    case True
    have "place sr rel \<notin> indexed_places roots w0"
    proof (cases range_checked)
      case False
      have no: "\<not> (\<exists>r \<in> set (catalog w). r_camera r = cam \<and> r_storage r \<in> set (sr_storage_ids sr) \<and> r_path r = rel)"
        using ck True False by (auto simp: path_indexed_for_camera_def fails_def Let_def split: if_splits)
      show ?thesis
      proof
        assume "place sr rel \<in> indexed_places roots w0"
        then have "\<exists>r \<in> set (catalog w0). r_storage r \<in> set (sr_storage_ids sr) \<and> r_path r = rel \<and> r_camera r = cam"
          by (intro indexed_place_here [OF _ _ sr _ cf nest]) (use st in \<open>auto simp: site_def\<close>)
        then show False using no held_catalog [OF h] by blast
      qed
    qed (use rc in simp)
    moreover obtain ok w2 where q: "quarantine_file e sr rel w1 = (ok, w2)" by force
    ultimately have "held e roots w0 w2" using held_quarantine [OF st h1 sr _ q] by blast
    moreover have "w' = w2" using run ck True q by (cases ok; cases range_checked) (auto simp: settle_junk_def)
    ultimately show ?thesis by simp
  qed
qed

lemma offer_orphan_held:
  assumes st: "site e roots w0" and h: "held e roots w0 w" and sr: "sr \<in> set roots" and cf: "camera_file e cam rel"
    and rc: "range_checked \<Longrightarrow> \<forall>n \<in> set (nested_roots roots sr). \<not> starts_with (place sr rel) n \<Longrightarrow>
      place sr rel \<notin> indexed_places roots w0"
    and run: "offer_orphan e sr (nested_roots roots sr) cam rel range_checked (s, w) = (go, s', w')"
  shows "held e roots w0 w'"
proof (cases "list_ex (\<lambda>n. starts_with (place sr rel) n) (nested_roots roots sr)")
  case True
  then show ?thesis using run h by (simp add: offer_orphan_def)
next
  case False
  then have nest: "\<forall>n \<in> set (nested_roots roots sr). \<not> starts_with (place sr rel) n" by (simp add: list_ex_iff)
  obtain nd w1 where pr: "probe e (place sr rel) w = (nd, w1)" by force
  have h1: "held e roots w0 w1" by (rule held_probe [OF h pr])
  obtain r w2 where ti: "try_index_orphan e sr rel w1 = (r, w2)" by force
  have h2: "held e roots w0 w2" by (rule try_index_held [OF st h1 sr cf ti])
  let ?s1 = "s\<lparr>os_found := os_found s + 1\<rparr>"
  obtain s3 w3 where sj: "settle_junk e sr cam rel range_checked (?s1, w2) = (s3, w3)" by force
  have h3: "held e roots w0 w3" by (rule settle_junk_held [OF st h2 sr cf nest _ sj]) (use rc nest in blast)
  have "w' \<in> {w1, w2, w3}"
  proof (cases nd)
    case None
    then show ?thesis using run False pr by (simp add: offer_orphan_def)
  next
    case (Some x)
    show ?thesis
    proof (cases r)
      case None
      then show ?thesis using run False pr Some ti by (auto simp: offer_orphan_def Let_def split: if_splits)
    next
      case (Some o1)
      then show ?thesis using run False pr \<open>nd = Some x\<close> ti sj
        by (cases o1) (auto simp: offer_orphan_def Let_def split: if_splits)
    qed
  qed
  then show ?thesis using h1 h2 h3 by blast
qed

lemma offer_each_held:
  assumes "site e roots w0" and "held e roots w0 w" and "sr \<in> set roots" and "\<forall>rel \<in> set rels. camera_file e cam rel"
    and "range_checked \<Longrightarrow> \<forall>rel \<in> set rels. rel \<notin> set indexed \<longrightarrow>
      (\<forall>n \<in> set (nested_roots roots sr). \<not> starts_with (place sr rel) n) \<longrightarrow> place sr rel \<notin> indexed_places roots w0"
    and "offer_each e sr (nested_roots roots sr) cam range_checked indexed rels (s, w) = (go, s', w')"
  shows "held e roots w0 w'"
  using assms(2,4-6)
proof (induction rels arbitrary: s w)
  case (Cons rel rels)
  show ?case
  proof (cases "rel \<in> set indexed")
    case True
    show ?thesis by (rule Cons.IH [OF Cons.prems(1)]) (use Cons.prems True in auto)
  next
    case False
    obtain go1 s1 w1 where of1: "offer_orphan e sr (nested_roots roots sr) cam rel range_checked (s, w) = (go1, s1, w1)"
      by (metis prod_cases3)
    have h1: "held e roots w0 w1"
      by (rule offer_orphan_held [OF assms(1) Cons.prems(1) assms(3) _ _ of1]) (use Cons.prems False in auto)
    show ?thesis
    proof (cases go1)
      case True
      show ?thesis by (rule Cons.IH [OF h1]) (use Cons.prems False of1 True in auto)
    next
      case go: False
      then show ?thesis using h1 Cons.prems(4) False of1 by simp
    qed
  qed
qed simp

lemma chunks_sound:
  "c \<in> set (chunks n xs) \<Longrightarrow> c \<noteq> [] \<and> set c \<subseteq> set xs \<and> (sorted (map f xs) \<longrightarrow> sorted (map f c))"
proof (induction n xs rule: chunks.induct)
  case (1 n xs)
  show ?case
  proof (cases "n = 0 \<or> xs = []")
    case True
    then show ?thesis using 1(2) by (simp add: chunks.simps)
  next
    case False
    then consider "c = take n xs" | "c \<in> set (chunks n (drop n xs))" using 1(2) by (subst (asm) chunks.simps) auto
    then show ?thesis
    proof cases
      case 1
      then show ?thesis using False set_take_subset [of n xs] by (auto simp: take_map [symmetric] sorted_wrt_take)
    next
      case 2
      from "1.IH" [OF False this] show ?thesis
        using set_drop_subset [of n xs] by (auto simp: drop_map [symmetric] sorted_wrt_drop)
    qed
  qed
qed

lemma check_chunks_held:
  assumes "site e roots w0" and "held e roots w0 w" and "sr \<in> set roots"
    and "\<forall>c \<in> set cs. c \<noteq> [] \<and> sorted (map fst c) \<and>
      (\<forall>(ts, rel) \<in> set c. camera_file e cam rel \<and> parse_segment_timestamp e (last rel) = Some ts)"
    and "check_chunks e sr (nested_roots roots sr) cam cs (s, w) = (go, s', w')"
  shows "held e roots w0 w'"
  using assms(2,4,5)
proof (induction cs arbitrary: s w)
  case (Cons c cs)
  let ?lo = "fst (hd c) - seconds orphan_lookup_margin_secs" and ?hi = "fst (last c) + seconds orphan_lookup_margin_secs"
  obtain found w1 where ls: "list_segment_paths_for_camera_range e cam (sr_storage_ids sr) ?lo ?hi w = (found, w1)" by force
  have w1: "\<And>q. node_at w1 q = node_at w q" "catalog w1 = catalog w"
    using ls by (auto simp: list_segment_paths_for_camera_range_def fails_def node_at_def Let_def)
  have h1: "held e roots w0 w1" using held_quiet [OF Cons.prems(1)] w1 by blast
  show ?case
  proof (cases found)
    case None
    show ?thesis by (rule Cons.IH [OF h1]) (use Cons.prems ls None in \<open>auto simp: Let_def\<close>)
  next
    case (Some indexed)
    have c: "c \<noteq> []" "sorted (map fst c)" "\<forall>(ts, rel) \<in> set c. camera_file e cam rel \<and> parse_segment_timestamp e (last rel) = Some ts"
      using Cons.prems(2) by auto
    have miss: "place sr rel \<notin> indexed_places roots w0"
      if rel: "rel \<in> set (map snd c)" "rel \<notin> set indexed"
        "\<forall>n \<in> set (nested_roots roots sr). \<not> starts_with (place sr rel) n" for rel
    proof
      assume m: "place sr rel \<in> indexed_places roots w0"
      obtain ts where ts: "(ts, rel) \<in> set c" using rel(1) by auto
      then have cf: "camera_file e cam rel" "parse_segment_timestamp e (last rel) = Some ts" using c(3) by auto
      have "\<exists>r \<in> set (catalog w0). r_storage r \<in> set (sr_storage_ids sr) \<and> r_path r = rel \<and> r_camera r = cam"
        by (rule indexed_place_here [OF _ _ assms(3) _ cf(1) rel(3) m]) (use assms(1) in \<open>auto simp: site_def\<close>)
      then obtain r where r: "r \<in> set (catalog w0)" "r_storage r \<in> set (sr_storage_ids sr)" "r_path r = rel" "r_camera r = cam"
        by blast
      have "fst (hd c) \<le> ts" using ts c(1,2) by (cases c) auto
      moreover have "ts \<le> fst (last c)"
        using ts c(1,2) by (induction c) (auto split: if_splits)
      moreover have "named e r" using r(1) assms(1) by (simp add: site_def)
      ultimately have "?lo \<le> r_start r" "r_start r \<le> ?hi" using cf(2) r(3) by (auto simp: named_def)
      then have "rel \<in> set indexed"
        using ls Some r held_catalog [OF Cons.prems(1)]
        by (auto simp: list_segment_paths_for_camera_range_def Let_def fails_def split: if_splits)
      then show False using rel(2) by simp
    qed
    obtain go1 s1 w2 where oe1: "offer_each e sr (nested_roots roots sr) cam True indexed (map snd c) (s, w1) = (go1, s1, w2)"
      by (metis prod_cases3)
    have h2: "held e roots w0 w2"
      by (rule offer_each_held [OF assms(1) h1 assms(3) _ _ oe1]) (use c(3) miss in auto)
    show ?thesis
    proof (cases go1)
      case True
      show ?thesis by (rule Cons.IH [OF h2]) (use Cons.prems ls Some oe1 True in \<open>auto simp: Let_def\<close>)
    next
      case False
      then show ?thesis using h2 Cons.prems(3) ls Some oe1 by (simp add: Let_def)
    qed
  qed
qed simp

lemma check_dir_files_held:
  assumes st: "site e roots w0" and h: "held e roots w0 w" and sr: "sr \<in> set roots" and cf: "\<forall>rel \<in> set fs. camera_file e cam rel"
    and run: "check_dir_files e sr (nested_roots roots sr) cam fs (s, w) = (go, s', w')"
  shows "held e roots w0 w'"
proof -
  let ?cs = "chunks orphan_lookup_chunk (sort_key fst (dated_files e fs))"
  obtain go1 s1 w1 where ck: "check_chunks e sr (nested_roots roots sr) cam ?cs (s, w) = (go1, s1, w1)" by (metis prod_cases3)
  have dated: "(ts, rel) \<in> set (dated_files e fs) \<Longrightarrow> rel \<in> set fs \<and> parse_segment_timestamp e (last rel) = Some ts" for ts rel
    by (auto simp: dated_files_def map_filter_def)
  have "\<forall>c \<in> set ?cs. c \<noteq> [] \<and> sorted (map fst c) \<and>
      (\<forall>(ts, rel) \<in> set c. camera_file e cam rel \<and> parse_segment_timestamp e (last rel) = Some ts)"
  proof
    fix c assume "c \<in> set ?cs"
    from chunks_sound [OF this, of fst]
    have "c \<noteq> []" "sorted (map fst c)" "set c \<subseteq> set (dated_files e fs)" by auto
    then show "c \<noteq> [] \<and> sorted (map fst c) \<and>
        (\<forall>(ts, rel) \<in> set c. camera_file e cam rel \<and> parse_segment_timestamp e (last rel) = Some ts)"
      using dated cf by blast
  qed
  then have h1: "held e roots w0 w1" by (rule check_chunks_held [OF st h sr _ ck])
  show ?thesis
  proof (cases go1)
    case True
    then have "offer_each e sr (nested_roots roots sr) cam False [] (undated_files e fs) (s1, w1) = (go, s', w')"
      using run ck by (simp add: check_dir_files_def)
    from offer_each_held [OF st h1 sr _ _ this] show ?thesis using cf by (auto simp: undated_files_def)
  next
    case False
    then show ?thesis using run ck h1 by (simp add: check_dir_files_def)
  qed
qed

subsection \<open>The walk\<close>

definition good_stack :: "orphan_env \<Rightarrow> dir_stack \<Rightarrow> bool" where
  "good_stack e stack \<longleftrightarrow>
     (\<forall>(dir, camera) \<in> set stack. case camera of None \<Rightarrow> dir = [] | Some cam \<Rightarrow> camera_file e cam dir)"

lemma good_stack_mem: "good_stack e stack \<Longrightarrow> (dir, c) \<in> set stack \<Longrightarrow> good_stack e [(dir, c)]"
  unfolding good_stack_def by auto

lemma good_stack_simps [simp]:
  "good_stack e []"
  "good_stack e ((dir, camera) # stack) \<longleftrightarrow>
     (case camera of None \<Rightarrow> dir = [] | Some cam \<Rightarrow> camera_file e cam dir) \<and> good_stack e stack"
  by (simp_all add: good_stack_def)

definition good_files :: "orphan_env \<Rightarrow> uuid option \<Rightarrow> path list \<Rightarrow> bool" where
  "good_files e camera fs \<longleftrightarrow> (case camera of None \<Rightarrow> fs = [] | Some cam \<Rightarrow> \<forall>rel \<in> set fs. camera_file e cam rel)"

lemma quarantine_no_mp4: "is_mp4 name \<Longrightarrow> name \<noteq> ''_quarantine''"
  by (auto simp: is_mp4_def stem_ext_def rsplit_dot_def)

lemma camera_file_below: "camera_file e cam dir \<Longrightarrow> n \<noteq> ''_quarantine'' \<Longrightarrow> camera_file e cam (dir @ [n])"
  by (simp add: camera_file_def)

lemma scan_entry_good:
  assumes "good_stack e [(dir, camera)]" and "good_stack e stack" and "good_files e camera fs"
    and "scan_entry e sr nested camera (dir @ [n]) nd (stack, fs, s) = (stack', fs', s')"
  shows "good_stack e stack' \<and> good_files e camera fs'"
proof (cases nd)
  case Folder
  show ?thesis
  proof (cases camera)
    case None
    then show ?thesis
      using Folder assms by (auto simp: scan_entry_def camera_file_def split: if_splits option.splits)
  next
    case (Some cam)
    then show ?thesis
      using Folder assms camera_file_below [of e cam dir n]
      by (auto simp: scan_entry_def good_stack_def split: if_splits)
  qed
next
  case (Regular b m)
  show ?thesis
  proof (cases camera)
    case None
    then show ?thesis using Regular assms by (auto simp: scan_entry_def split: if_splits)
  next
    case (Some cam)
    then have "camera_file e cam dir" using assms(1) by simp
    then show ?thesis
      using Regular assms Some camera_file_below [of e cam dir n] quarantine_no_mp4 [of n]
      by (auto simp: scan_entry_def good_files_def split: if_splits)
  qed
qed (use assms in \<open>simp_all add: scan_entry_def\<close>)

lemma scan_entries_good:
  assumes "good_stack e [(dir, camera)]" and "good_stack e stack" and "good_files e camera fs"
    and "scan_entries e sr nested camera dir ns (stack, fs, s) w = ((stack', fs', s'), w')"
  shows "good_stack e stack' \<and> good_files e camera fs' \<and> catalog w' = catalog w \<and> (\<forall>q. node_at w' q = node_at w q)"
  using assms(2-4)
proof (induction ns arbitrary: stack fs s w)
  case (Cons n ns)
  obtain bad w1 where f: "fails e w = (bad, w1)" by force
  have w1: "catalog w1 = catalog w" "\<And>q. node_at w1 q = node_at w q"
    using fails_frame [of e w] node_at_fails [of e w] f by simp_all
  obtain nd w2 where pr: "probe e (place sr (dir @ [n])) w1 = (nd, w2)" by force
  have w2: "catalog w2 = catalog w" "\<And>q. node_at w2 q = node_at w q" using probe_frame [OF pr] w1 by simp_all
  show ?case
  proof (cases bad)
    case True
    then show ?thesis using Cons.prems f w1 by simp
  next
    case ok: False
    show ?thesis
    proof (cases nd)
      case None
      have "scan_entries e sr nested camera dir ns (stack, fs, s) w2 = ((stack', fs', s'), w')"
        using Cons.prems(3) f ok pr None by simp
      from Cons.IH [OF Cons.prems(1,2) this] show ?thesis using w2 by simp
    next
      case (Some x)
      obtain stack1 fs1 s1 where se: "scan_entry e sr nested camera (dir @ [n]) x (stack, fs, s) = (stack1, fs1, s1)"
        by (metis prod_cases3)
      have "scan_entries e sr nested camera dir ns (stack1, fs1, s1) w2 = ((stack', fs', s'), w')"
        using Cons.prems(3) f ok pr Some se by simp
      moreover have "good_stack e stack1" "good_files e camera fs1"
        using scan_entry_good [OF assms(1) Cons.prems(1,2) se] by simp_all
      ultimately show ?thesis using Cons.IH w2 by simp
    qed
  qed
qed simp

lemma read_dir_frame:
  assumes "read_dir e d w = (r, w')"
  shows "catalog w' = catalog w" "node_at w' q = node_at w q"
  using assms by (auto simp: read_dir_def fails_def node_at_def)

lemma walk_root_held:
  assumes "site e roots w0" and "held e roots w0 w" and "sr \<in> set roots" and "good_stack e stack"
    and "walk_root e sr (nested_roots roots sr) k stack (s, w) = (r, s', w')"
  shows "held e roots w0 w'"
  using assms(2,4,5)
proof (induction k arbitrary: stack s w)
  case 0
  then show ?case by (cases stack) auto
next
  case (Suc k)
  show ?case
  proof (cases stack)
    case Nil
    then show ?thesis using Suc.prems by simp
  next
    case (Cons top rest)
    obtain dir camera where top: "top = (dir, camera)" by force
    have good: "good_stack e [(dir, camera)]" "good_stack e rest" using Suc.prems(2) Cons top by auto
    show ?thesis
    proof (cases "oe_stopped e (steps w)")
      case True
      then show ?thesis using Suc.prems Cons top by simp
    next
      case go: False
      obtain names w1 where rd: "read_dir e (place sr dir) w = (names, w1)" by force
      have h1: "held e roots w0 w1" by (rule held_quiet [OF Suc.prems(1)]) (use read_dir_frame [OF rd] in auto)
      show ?thesis
      proof (cases names)
        case None
        show ?thesis by (rule Suc.IH [OF h1 good(2)]) (use Suc.prems(3) Cons top go rd None in auto)
      next
        case (Some ns)
        obtain stack1 fs s1 w2 where sc: "scan_entries e sr (nested_roots roots sr) camera dir ns (rest, [], s) w1 = ((stack1, fs, s1), w2)"
          by (metis prod_cases4 surj_pair)
        have "good_files e camera []" by (simp add: good_files_def split: option.split)
        note sg = scan_entries_good [OF good this sc]
        have h2: "held e roots w0 w2" by (rule held_quiet [OF h1]) (use sg in auto)
        show ?thesis
        proof (cases "\<exists>cam. camera = Some cam \<and> fs \<noteq> []")
          case False
          show ?thesis
            by (rule Suc.IH [OF h2, of stack1 s1])
              (use sg Suc.prems(3) Cons top go rd Some sc False in \<open>auto split: option.splits\<close>)
        next
          case True
          then obtain cam where cam: "camera = Some cam" "fs \<noteq> []" by blast
          obtain go2 s2 w3 where cd: "check_dir_files e sr (nested_roots roots sr) cam fs (s1, w2) = (go2, s2, w3)"
            by (metis prod_cases3)
          have h3: "held e roots w0 w3"
            by (rule check_dir_files_held [OF assms(1) h2 assms(3) _ cd]) (use sg cam in \<open>simp add: good_files_def\<close>)
          show ?thesis
          proof (cases go2)
            case True
            show ?thesis
              by (rule Suc.IH [OF h3, of stack1 s2]) (use sg Suc.prems(3) Cons top go rd Some sc cam cd True in auto)
          next
            case False
            then show ?thesis using h3 Suc.prems(3) Cons top go rd Some sc cam cd by simp
          qed
        qed
      qed
    qed
  qed
qed

lemma walk_roots_held:
  assumes "site e roots w0" and "held e roots w0 w" and "set srs \<subseteq> set roots"
    and "walk_roots e roots k srs (s, w) = (r, s', w')"
  shows "held e roots w0 w'"
  using assms(2-4)
proof (induction srs arbitrary: s w)
  case (Cons sr srs)
  show ?case
  proof (cases "oe_stopped e (steps w)")
    case True
    then show ?thesis using Cons.prems by simp
  next
    case go: False
    obtain nd w1 where pr: "probe e (sr_canonical sr) w = (nd, w1)" by force
    have h1: "held e roots w0 w1" by (rule held_probe [OF Cons.prems(1) pr])
    show ?thesis
    proof (cases nd)
      case None
      show ?thesis by (rule Cons.IH [OF h1]) (use Cons.prems go pr None in auto)
    next
      case (Some x)
      obtain r1 s1 w2 where wr: "walk_root e sr (nested_roots roots sr) k [([], None)] (s, w1) = (r1, s1, w2)"
        by (metis prod_cases3)
      have h2: "held e roots w0 w2"
        by (rule walk_root_held [OF assms(1) h1 _ _ wr]) (use Cons.prems in auto)
      show ?thesis
      proof (cases "r1 = Some True")
        case True
        show ?thesis by (rule Cons.IH [OF h2]) (use Cons.prems go pr Some wr True in auto)
      next
        case False
        then show ?thesis using h2 Cons.prems(3) go pr Some wr by (auto split: option.splits bool.splits)
      qed
    qed
  qed
qed simp

subsection \<open>The walk ends\<close>

text \<open>The directories the walk may read below \<open>dir\<close>.\<close>

definition reach :: "depot \<Rightarrow> scan_root \<Rightarrow> path \<Rightarrow> path set" where
  "reach w sr dir = {p. node_at w p = Some Folder \<and> (\<exists>x. p = place sr (dir @ x) \<and> ''_quarantine'' \<notin> set (dir @ x))}"

lemma reach_keys: "reach w sr dir \<subseteq> fst ` set (tree w)"
  unfolding reach_def node_at_def using map_of_SomeD by force

lemma reach_finite: "finite (reach w sr dir)"
  using finite_subset [OF reach_keys] by simp

lemma reach_all: "card (reach w sr dir) \<le> length (tree w)"
proof -
  have "card (reach w sr dir) \<le> card (fst ` set (tree w))" by (intro card_mono reach_keys) simp
  also have "\<dots> \<le> length (tree w)" using card_image_le [of "set (tree w)" fst] card_length [of "tree w"] by simp
  finally show ?thesis .
qed

lemma reach_children:
  assumes "node_at w (place sr dir) = Some Folder" and "''_quarantine'' \<notin> set dir" and "distinct ns"
  shows "(\<Sum>n \<leftarrow> ns. card (reach w sr (dir @ [n]))) < card (reach w sr dir)"
proof -
  let ?U = "\<Union>n \<in> set ns. reach w sr (dir @ [n])"
  have "card ?U = (\<Sum>n \<in> set ns. card (reach w sr (dir @ [n])))"
    by (rule card_UN_disjoint) (auto simp: reach_finite, auto simp: reach_def place_def)
  then have u: "card ?U = (\<Sum>n \<leftarrow> ns. card (reach w sr (dir @ [n])))"
    using sum_list_distinct_conv_sum_set [OF assms(3), of "\<lambda>n. card (reach w sr (dir @ [n]))"] by metis
  have "?U \<subseteq> reach w sr dir - {place sr dir}" by (auto simp: reach_def place_def)
  moreover have me: "place sr dir \<in> reach w sr dir"
    using assms(1,2) unfolding reach_def by (intro CollectI conjI exI [of _ "[]"]) simp_all
  ultimately have "card ?U < card (reach w sr dir)"
    by (metis (no_types, lifting) DiffE card_mono finite_Diff insertI1 le_less_trans reach_finite card_Diff1_less)
  then show ?thesis using u by simp
qed

lemma entries_distinct: "distinct (entries_of w d)"
proof -
  have "inj_on last {p. p \<noteq> [] \<and> butlast p = (d :: path)}"
    by (rule inj_onI) (metis (mono_tags, lifting) append_butlast_last_id mem_Collect_eq)
  then show ?thesis
    unfolding entries_of_def by (auto simp: distinct_map intro: inj_on_subset)
qed

text \<open>What a directory puts on the stack.\<close>

lemma scan_entries_pushed:
  assumes "scan_entries e sr nested camera dir ns (stack, fs, s) w = ((stack', fs', s'), w')" and "distinct ns"
  shows "\<exists>ms. map fst stack' = map (\<lambda>n. dir @ [n]) ms @ map fst stack \<and> distinct ms \<and> set ms \<subseteq> set ns \<and>
    (\<forall>n \<in> set ms. node_at w (place sr (dir @ [n])) = Some Folder \<and> n \<noteq> ''_quarantine'')"
  using assms
proof (induction ns arbitrary: stack fs s w)
  case (Cons n ns)
  obtain bad w1 where f: "fails e w = (bad, w1)" by force
  obtain nd w2 where pr: "probe e (place sr (dir @ [n])) w1 = (nd, w2)" by force
  have w2: "\<And>q. node_at w2 q = node_at w q" "nd = Some x \<Longrightarrow> node_at w (place sr (dir @ [n])) = Some x" for x
    using probe_frame [OF pr] node_at_fails [of e w] f by simp_all
  show ?case
  proof (cases "bad")
    case True
    then show ?thesis using Cons.prems f by (intro exI [of _ "[]"]) simp
  next
    case ok: False
    obtain stack1 fs1 s1 where se:
      "(case nd of None \<Rightarrow> (stack, fs, s) | Some x \<Rightarrow> scan_entry e sr nested camera (dir @ [n]) x (stack, fs, s)) = (stack1, fs1, s1)"
      by (metis prod_cases3)
    have rest: "scan_entries e sr nested camera dir ns (stack1, fs1, s1) w2 = ((stack', fs', s'), w')"
      using Cons.prems(1) f ok pr se by (simp split: option.splits)
    obtain ms where ms: "map fst stack' = map (\<lambda>n. dir @ [n]) ms @ map fst stack1" "distinct ms" "set ms \<subseteq> set ns"
      "\<forall>n \<in> set ms. node_at w (place sr (dir @ [n])) = Some Folder \<and> n \<noteq> ''_quarantine''"
      using Cons.IH [OF rest] Cons.prems(2) w2(1) by auto
    have "map fst stack1 = map fst stack \<or>
        (map fst stack1 = (dir @ [n]) # map fst stack \<and> node_at w (place sr (dir @ [n])) = Some Folder \<and> n \<noteq> ''_quarantine'')"
      using se w2(2) by (auto simp: scan_entry_def split: option.splits node.splits if_splits)
    then show ?thesis
    proof
      assume "map fst stack1 = map fst stack"
      then show ?thesis using ms by (intro exI [of _ ms]) auto
    next
      assume a: "map fst stack1 = (dir @ [n]) # map fst stack \<and> node_at w (place sr (dir @ [n])) = Some Folder \<and> n \<noteq> ''_quarantine''"
      have "n \<notin> set ms" using Cons.prems(2) ms(3) by auto
      then show ?thesis using ms a by (intro exI [of _ "ms @ [n]"]) auto
    qed
  qed
qed (auto intro: exI [of _ "[]"])

definition cost :: "depot \<Rightarrow> scan_root \<Rightarrow> path \<Rightarrow> nat" where
  "cost w sr dir = max 1 (card (reach w sr dir))"

lemma reach_self:
  "node_at w (place sr dir) = Some Folder \<Longrightarrow> ''_quarantine'' \<notin> set dir \<Longrightarrow> place sr dir \<in> reach w sr dir"
  unfolding reach_def by (intro CollectI conjI exI [of _ "[]"]) simp_all

lemma cost_reach:
  assumes "p \<in> reach w sr dir"
  shows "cost w sr dir = card (reach w sr dir)"
proof -
  have "finite (reach w sr dir)" by (rule reach_finite)
  then have "0 < card (reach w sr dir)" using assms by (auto simp: card_gt_0_iff)
  then show ?thesis by (simp add: cost_def)
qed

lemma root_not_quarantined: "layout e roots \<Longrightarrow> sr \<in> set roots \<Longrightarrow> place sr [] \<notin> quarantined roots"
  unfolding layout_def quarantined_def place_def by auto

lemma good_dir:
  assumes "site e roots w0" and "sr \<in> set roots" and "good_stack e [(dir, camera)]"
  shows "''_quarantine'' \<notin> set dir" "place sr dir \<notin> quarantined roots"
proof -
  have lay: "layout e roots" using assms(1) by (simp add: site_def)
  have "''_quarantine'' \<notin> set dir \<and> place sr dir \<notin> quarantined roots"
  proof (cases camera)
    case None
    then show ?thesis using assms(3) root_not_quarantined [OF lay assms(2)] by simp
  next
    case (Some cam)
    then have cf: "camera_file e cam dir" using assms(3) by simp
    then show ?thesis using camera_file_not_quarantined [OF lay assms(2) cf] by (simp add: camera_file_def)
  qed
  then show "''_quarantine'' \<notin> set dir" "place sr dir \<notin> quarantined roots" by simp_all
qed

lemma held_folder: "held e roots w0 w \<Longrightarrow> p \<notin> quarantined roots \<Longrightarrow> node_at w p = Some Folder \<Longrightarrow> node_at w0 p = Some Folder"
  unfolding held_def by (metis option.distinct(1))

lemma walk_root_ends:
  assumes "site e roots w0" and "held e roots w0 w" and "sr \<in> set roots" and "good_stack e stack"
    and "(\<Sum>d \<leftarrow> map fst stack. cost w0 sr d) \<le> k"
  shows "fst (walk_root e sr (nested_roots roots sr) k stack (s, w)) \<noteq> None"
  using assms(2,4,5)
proof (induction k arbitrary: stack s w)
  case 0
  then show ?case by (cases stack) (auto simp: cost_def)
next
  case (Suc k)
  show ?case
  proof (cases stack)
    case (Cons top rest)
    obtain dir camera where top: "top = (dir, camera)" by force
    have good: "good_stack e [(dir, camera)]" "good_stack e rest" using Suc.prems(2) Cons top by auto
    have sum: "cost w0 sr dir + (\<Sum>d \<leftarrow> map fst rest. cost w0 sr d) \<le> Suc k" using Suc.prems(3) Cons top by simp
    then have less: "(\<Sum>d \<leftarrow> map fst rest. cost w0 sr d) \<le> k" by (simp add: cost_def)
    show ?thesis
    proof (cases "oe_stopped e (steps w)")
      case True
      then show ?thesis using Cons top by simp
    next
      case go: False
      obtain names w1 where rd: "read_dir e (place sr dir) w = (names, w1)" by force
      have h1: "held e roots w0 w1" by (rule held_quiet [OF Suc.prems(1)]) (use read_dir_frame [OF rd] in auto)
      show ?thesis
      proof (cases names)
        case None
        then show ?thesis using Suc.IH [OF h1 good(2) less] Cons top go rd by simp
      next
        case (Some ns)
        have ns: "node_at w (place sr dir) = Some Folder" "distinct ns"
          using rd Some entries_distinct by (auto simp: read_dir_def Let_def split: if_splits prod.splits)
        obtain stack1 fs s1 w2 where sc: "scan_entries e sr (nested_roots roots sr) camera dir ns (rest, [], s) w1 = ((stack1, fs, s1), w2)"
          by (metis prod_cases4 surj_pair)
        have "good_files e camera []" by (simp add: good_files_def split: option.split)
        note sg = scan_entries_good [OF good this sc]
        have h2: "held e roots w0 w2" by (rule held_quiet [OF h1]) (use sg in auto)
        obtain ms where ms: "map fst stack1 = map (\<lambda>n. dir @ [n]) ms @ map fst rest" "distinct ms"
          "\<forall>n \<in> set ms. node_at w1 (place sr (dir @ [n])) = Some Folder \<and> n \<noteq> ''_quarantine''"
          using scan_entries_pushed [OF sc ns(2)] by blast
        have below: "(\<Sum>d \<leftarrow> map fst stack1. cost w0 sr d) \<le> k"
        proof -
          note gd = good_dir [OF assms(1,3) good(1)]
          have f0: "node_at w0 (place sr dir) = Some Folder" by (rule held_folder [OF Suc.prems(1) gd(2) ns(1)])
          have "cost w0 sr (dir @ [n]) = card (reach w0 sr (dir @ [n]))" if n: "n \<in> set ms" for n
          proof -
            have "dir @ [n] \<in> set (map fst stack1)" unfolding ms(1) using n by simp
            then obtain c where "(dir @ [n], c) \<in> set stack1" by auto
            then have "good_stack e [(dir @ [n], c)]" by (rule good_stack_mem [OF conjunct1 [OF sg]])
            from good_dir [OF assms(1,3) this] have q: "''_quarantine'' \<notin> set (dir @ [n])" "place sr (dir @ [n]) \<notin> quarantined roots" .
            have "node_at w0 (place sr (dir @ [n])) = Some Folder" using held_folder [OF h1 q(2)] ms(3) n by blast
            then have "place sr (dir @ [n]) \<in> reach w0 sr (dir @ [n])" by (rule reach_self) (rule q(1))
            then show ?thesis by (rule cost_reach)
          qed
          then have "map (\<lambda>n. cost w0 sr (dir @ [n])) ms = map (\<lambda>n. card (reach w0 sr (dir @ [n]))) ms" by simp
          then have "(\<Sum>n \<leftarrow> ms. cost w0 sr (dir @ [n])) = (\<Sum>n \<leftarrow> ms. card (reach w0 sr (dir @ [n])))"
            by (rule arg_cong)
          moreover have "(\<Sum>n \<leftarrow> ms. card (reach w0 sr (dir @ [n]))) < card (reach w0 sr dir)"
            by (rule reach_children [OF f0 gd(1) ms(2)])
          moreover have "card (reach w0 sr dir) \<le> cost w0 sr dir" by (simp add: cost_def)
          ultimately have "(\<Sum>n \<leftarrow> ms. cost w0 sr (dir @ [n])) < cost w0 sr dir" by linarith
          moreover have "(\<Sum>d \<leftarrow> map fst stack1. cost w0 sr d) =
              (\<Sum>n \<leftarrow> ms. cost w0 sr (dir @ [n])) + (\<Sum>d \<leftarrow> map fst rest. cost w0 sr d)"
            unfolding ms(1) by (simp add: comp_def)
          ultimately show ?thesis using sum by linarith
        qed
        show ?thesis
        proof (cases "\<exists>cam. camera = Some cam \<and> fs \<noteq> []")
          case False
          have "walk_root e sr (nested_roots roots sr) (Suc k) stack (s, w) = walk_root e sr (nested_roots roots sr) k stack1 (s1, w2)"
            using False Cons top go rd Some sc by (cases camera) simp_all
          then show ?thesis using Suc.IH [OF h2 conjunct1 [OF sg] below, of s1] by simp
        next
          case True
          then obtain cam where cam: "camera = Some cam" "fs \<noteq> []" by blast
          obtain go2 s2 w3 where cd: "check_dir_files e sr (nested_roots roots sr) cam fs (s1, w2) = (go2, s2, w3)"
            by (metis prod_cases3)
          have h3: "held e roots w0 w3"
            by (rule check_dir_files_held [OF assms(1) h2 assms(3) _ cd]) (use sg cam in \<open>simp add: good_files_def\<close>)
          have "walk_root e sr (nested_roots roots sr) (Suc k) stack (s, w) =
              (if go2 then walk_root e sr (nested_roots roots sr) k stack1 (s2, w3) else (Some False, s2, w3))"
            using Cons top go rd Some sc cam cd by simp
          moreover have "fst (Some False, s2, w3) \<noteq> None" by (simp only: fst_conv option.distinct not_False_eq_True)
          ultimately show ?thesis using Suc.IH [OF h3 conjunct1 [OF sg] below, of s2] by presburger
        qed
      qed
    qed
  qed simp
qed

lemma walk_roots_ends:
  assumes "site e roots w0" and "held e roots w0 w" and "set srs \<subseteq> set roots" and "Suc (length (tree w0)) \<le> k"
  shows "fst (walk_roots e roots k srs (s, w)) \<noteq> None"
  using assms(2,3)
proof (induction srs arbitrary: s w)
  case (Cons sr srs)
  have sr: "sr \<in> set roots" using Cons.prems(2) by simp
  show ?case
  proof (cases "oe_stopped e (steps w)")
    case True
    then show ?thesis by simp
  next
    case go: False
    obtain nd w1 where pr: "probe e (sr_canonical sr) w = (nd, w1)" by force
    have h1: "held e roots w0 w1" by (rule held_probe [OF Cons.prems(1) pr])
    show ?thesis
    proof (cases nd)
      case None
      then show ?thesis using Cons.IH [OF h1] Cons.prems(2) go pr by simp
    next
      case (Some x)
      obtain r1 s1 w2 where wr: "walk_root e sr (nested_roots roots sr) k [([], None)] (s, w1) = (r1, s1, w2)"
        by (metis prod_cases3)
      have h2: "held e roots w0 w2" by (rule walk_root_held [OF assms(1) h1 sr _ wr]) simp
      have "cost w0 sr [] \<le> k" using reach_all [of w0 sr "[]"] assms(4) by (simp add: cost_def)
      then have "r1 \<noteq> None" using walk_root_ends [OF assms(1) h1 sr, of "[([], None)]" k s] wr by simp
      then show ?thesis using Cons.IH [OF h2] Cons.prems(2) go pr Some wr by (auto split: bool.split)
    qed
  qed
qed simp

end
