(* ===== verification/Quarantine.thy ===== *)
theory Quarantine
  imports OrphanSafety
begin

text \<open>
  The retention of the quarantine (\<open>prune_quarantine\<close> of \<open>services/recorder/src/reconcile.rs\<close>), the only
  code that deletes there, and the names it spares: the footage of a clock collision, which the recorder
  stores under a \<open>-rN\<close> name (\<open>disambiguated_name\<close>). \<open>background_disks\<close> composes the orphan pass and the
  prune of every root.

  The walk of the prune needs no fuel: a pass removes files and never a directory, so the directories
  below those on the stack get fewer with every one it reads.
\<close>

subsection \<open>One file\<close>

type_synonym prune_state = "nat \<times> nat \<times> depot"

definition prune_file ::
  "orphan_env \<Rightarrow> path \<Rightarrow> instant \<Rightarrow> path \<Rightarrow> bytes \<Rightarrow> instant option \<Rightarrow> prune_state \<Rightarrow> prune_state" where
  "prune_file e base cutoff p b mtime x =
     (let (n, sz, w) = x in
      if is_collision_disambiguated (last p) then x
      else case mtime of
             None \<Rightarrow> x
           | Some m \<Rightarrow>
               if cutoff \<le> m then x
               else case canonicalize e p w of
                      (None, w1) \<Rightarrow> (n, sz, w1)
                    | (Some c, w1) \<Rightarrow>
                        if \<not> starts_with c base then (n, sz, w1)
                        else (case unlink_node e p w1 of
                                (True, w2) \<Rightarrow> (n + 1, sz + length b, w2)
                              | (False, w2) \<Rightarrow> (n, sz, w2)))"

subsection \<open>One directory\<close>

fun prune_entries ::
  "orphan_env \<Rightarrow> path \<Rightarrow> instant \<Rightarrow> path \<Rightarrow> string list \<Rightarrow> path list \<Rightarrow> prune_state \<Rightarrow> path list \<times> prune_state"
where
  "prune_entries e base cutoff dir [] stack x = (stack, x)"
| "prune_entries e base cutoff dir (name # names) stack x =
     (let (n, sz, w) = x;
          (bad, w1) = fails e w;
          p = dir @ [name]
      in if bad then (stack, n, sz, w1)
         else case probe e p w1 of
                (Some Folder, w2) \<Rightarrow> prune_entries e base cutoff dir names (p # stack) (n, sz, w2)
              | (Some (Regular b m), w2) \<Rightarrow>
                  prune_entries e base cutoff dir names stack (prune_file e base cutoff p b m (n, sz, w2))
              | (_, w2) \<Rightarrow> prune_entries e base cutoff dir names stack (n, sz, w2))"

subsection \<open>What a prune leaves alone\<close>

lemma canonicalize_frame:
  assumes "canonicalize e p w = (r, w')"
  shows "\<And>q. node_at w' q = node_at w q" "catalog w' = catalog w"
    "r = Some c \<Longrightarrow> (\<And>t. node_at w p \<noteq> Some (Symlink t)) \<Longrightarrow> c = p \<and> node_at w p \<noteq> None"
  using assms
  by (auto simp: canonicalize_def probe_def fails_def split: if_splits option.splits node.splits)

lemma prune_file_frame:
  assumes "prune_file e base cutoff p b m (n, sz, w) = (n', sz', w')"
  shows "catalog w' = catalog w" "q \<noteq> p \<Longrightarrow> node_at w' q = node_at w q"
    "node_at w' p = node_at w p \<and> n' = n \<and> sz' = sz \<or>
     node_at w' p = None \<and> n' = n + 1 \<and> sz' = sz + length b \<and> \<not> is_collision_disambiguated (last p) \<and>
       (\<exists>a. m = Some a \<and> a < cutoff)"
proof -
  obtain c w1 where cn: "canonicalize e p w = (c, w1)" by force
  note w1 = canonicalize_frame [OF cn]
  obtain ok w2 where u: "unlink_node e p w1 = (ok, w2)" by force
  note w2 = unlink_node_frame [OF u]
  have gone: "if ok then node_at w2 p = None else node_at w2 p = node_at w1 p"
    using u by (auto simp: unlink_node_def fails_def cut_node_at split: if_splits)
  have "(n', sz', w') \<in> {(n, sz, w), (n, sz, w1)} \<or>
      (n', sz', w') = (if ok then (n + 1, sz + length b, w2) else (n, sz, w2)) \<and>
      \<not> is_collision_disambiguated (last p) \<and> (\<exists>a. m = Some a \<and> a < cutoff)"
    using assms cn u
    by (cases m; cases c; cases ok) (auto simp: prune_file_def Let_def not_le split: if_splits)
  then show "catalog w' = catalog w" "q \<noteq> p \<Longrightarrow> node_at w' q = node_at w q"
    "node_at w' p = node_at w p \<and> n' = n \<and> sz' = sz \<or>
     node_at w' p = None \<and> n' = n + 1 \<and> sz' = sz + length b \<and> \<not> is_collision_disambiguated (last p) \<and>
       (\<exists>a. m = Some a \<and> a < cutoff)"
    using w1 w2(1) w2(2) gone by (auto split: if_splits)
qed

text \<open>The folders below a directory, and what they make of a stack.\<close>

definition folders_below :: "depot \<Rightarrow> path \<Rightarrow> path set" where
  "folders_below w d = {p. node_at w p = Some Folder \<and> (\<exists>y ys. p = d @ y # ys)}"

definition stack_weight :: "depot \<Rightarrow> path list \<Rightarrow> nat" where
  "stack_weight w ds = (\<Sum>d \<leftarrow> ds. Suc (card (folders_below w d)))"

definition same_folders :: "depot \<Rightarrow> depot \<Rightarrow> bool" where
  "same_folders w w' \<longleftrightarrow> (\<forall>p. node_at w' p = Some Folder \<longleftrightarrow> node_at w p = Some Folder)"

lemma same_folders_refl: "same_folders w w"
  by (simp add: same_folders_def)

lemma same_folders_trans: "same_folders a b \<Longrightarrow> same_folders b c \<Longrightarrow> same_folders a c"
  by (simp add: same_folders_def)

lemma same_folders_nodes: "(\<And>q. node_at w' q = node_at w q) \<Longrightarrow> same_folders w w'"
  by (simp add: same_folders_def)

lemma stack_weight_same: "same_folders w w' \<Longrightarrow> stack_weight w' ds = stack_weight w ds"
  by (simp add: stack_weight_def folders_below_def same_folders_def)

lemma folders_below_finite: "finite (folders_below w d)"
proof -
  have "folders_below w d \<subseteq> fst ` set (tree w)"
    unfolding folders_below_def node_at_def using map_of_SomeD by force
  then show ?thesis using finite_subset by blast
qed

lemma folders_below_children:
  assumes "distinct ns" and "\<forall>n \<in> set ns. node_at w (d @ [n]) = Some Folder"
  shows "stack_weight w (map (\<lambda>n. d @ [n]) ns) \<le> card (folders_below w d)"
proof -
  define F where "F n = insert (d @ [n]) (folders_below w (d @ [n]))" for n
  have fin: "finite (F n)" for n by (simp add: F_def folders_below_finite)
  have card: "card (F n) = Suc (card (folders_below w (d @ [n])))" for n
    unfolding F_def by (rule card_insert_disjoint) (simp_all add: folders_below_finite, simp add: folders_below_def)
  have "card (\<Union>n \<in> set ns. F n) = (\<Sum>n \<in> set ns. card (F n))"
    by (rule card_UN_disjoint) (use fin in simp_all, auto simp: F_def folders_below_def)
  moreover have "(\<Union>n \<in> set ns. F n) \<subseteq> folders_below w d"
    using assms(2) by (auto simp: F_def folders_below_def)
  ultimately have "(\<Sum>n \<in> set ns. card (F n)) \<le> card (folders_below w d)"
    using card_mono [OF folders_below_finite [of w d]] by metis
  then show ?thesis
    using assms(1) by (simp add: card stack_weight_def comp_def sum_list_distinct_conv_sum_set)
qed

lemma prune_entries_step:
  obtains (halt) w1 where "prune_entries e base cutoff dir (name # names) stack (n, sz, w) = (stack, n, sz, w1)"
      "\<And>q. node_at w1 q = node_at w q" "catalog w1 = catalog w" "oe_fails e (steps w)"
    | (push) w1 where "prune_entries e base cutoff dir (name # names) stack (n, sz, w) =
          prune_entries e base cutoff dir names ((dir @ [name]) # stack) (n, sz, w1)"
      "\<And>q. node_at w1 q = node_at w q" "catalog w1 = catalog w" "node_at w (dir @ [name]) = Some Folder"
    | (skip) w1 where "prune_entries e base cutoff dir (name # names) stack (n, sz, w) =
          prune_entries e base cutoff dir names stack (n, sz, w1)"
      "\<And>q. node_at w1 q = node_at w q" "catalog w1 = catalog w"
      "(\<forall>k. \<not> oe_fails e k) \<Longrightarrow> node_at w (dir @ [name]) \<noteq> Some Folder \<and> (\<forall>b m. node_at w (dir @ [name]) \<noteq> Some (Regular b m))"
    | (regular) b m w1 where "prune_entries e base cutoff dir (name # names) stack (n, sz, w) =
          prune_entries e base cutoff dir names stack (prune_file e base cutoff (dir @ [name]) b m (n, sz, w1))"
      "\<And>q. node_at w1 q = node_at w q" "catalog w1 = catalog w" "node_at w (dir @ [name]) = Some (Regular b m)"
proof -
  obtain bad w1 where f: "fails e w = (bad, w1)" by force
  have w1: "\<And>q. node_at w1 q = node_at w q" "catalog w1 = catalog w"
    using node_at_fails [of e w] fails_frame [of e w] f by simp_all
  have bad: "bad = oe_fails e (steps w)" using f by (simp add: fails_def)
  obtain nd w2 where pr: "probe e (dir @ [name]) w1 = (nd, w2)" by force
  have w2: "\<And>q. node_at w2 q = node_at w q" "catalog w2 = catalog w"
    "nd = Some x \<Longrightarrow> node_at w (dir @ [name]) = Some x" for x
    using probe_frame [OF pr] w1 by simp_all
  have calm: "nd = node_at w (dir @ [name])" if "\<forall>k. \<not> oe_fails e k"
    using pr that w1(1) by (auto simp: probe_def fails_def split: if_splits)
  show thesis
  proof (cases bad)
    case True
    then show thesis using halt f w1 bad by simp
  next
    case False
    show thesis
    proof (cases nd)
      case None
      then show thesis using skip [of w2] False f pr w2 calm by simp
    next
      case (Some x)
      then show thesis
        using False f pr w2 calm push [of w2] skip [of w2] regular [of _ _ w2] by (cases x) simp_all
    qed
  qed
qed

text \<open>A file the prune may remove, and what a part of the prune did: \<open>ps\<close> are the files it removed, in order.\<close>

definition aged :: "path \<Rightarrow> instant \<Rightarrow> depot \<Rightarrow> path \<Rightarrow> bool" where
  "aged base cutoff w p \<longleftrightarrow> starts_with p base \<and> \<not> is_collision_disambiguated (last p) \<and>
     (\<exists>b m. node_at w p = Some (Regular b (Some m)) \<and> m < cutoff)"

definition node_size :: "depot \<Rightarrow> path \<Rightarrow> nat" where
  "node_size w p = (case node_at w p of Some (Regular b _) \<Rightarrow> length b | _ \<Rightarrow> 0)"

definition pruned :: "path \<Rightarrow> instant \<Rightarrow> path list \<Rightarrow> prune_state \<Rightarrow> prune_state \<Rightarrow> bool" where
  "pruned base cutoff ps x y \<longleftrightarrow>
     (case (x, y) of ((n, sz, w), (n', sz', w')) \<Rightarrow>
        distinct ps \<and> (\<forall>p \<in> set ps. aged base cutoff w p) \<and> catalog w' = catalog w \<and>
        (\<forall>q. node_at w' q = (if q \<in> set ps then None else node_at w q)) \<and>
        n' = n + length ps \<and> sz' = sz + (\<Sum>p \<leftarrow> ps. node_size w p))"

lemma pruned_quiet:
  "(\<And>q. node_at w' q = node_at w q) \<Longrightarrow> catalog w' = catalog w \<Longrightarrow> pruned base cutoff [] (n, sz, w) (n, sz, w')"
  by (simp add: pruned_def)

lemma pruned_trans:
  assumes "pruned base cutoff ps x y" and "pruned base cutoff qs y z"
  shows "pruned base cutoff (ps @ qs) x z"
proof -
  obtain n sz w n1 sz1 w1 n2 sz2 w2 where x: "x = (n, sz, w)" "y = (n1, sz1, w1)" "z = (n2, sz2, w2)"
    by (metis prod_cases3)
  have p: "distinct ps" "\<forall>p \<in> set ps. aged base cutoff w p" "catalog w1 = catalog w"
    "\<And>q. node_at w1 q = (if q \<in> set ps then None else node_at w q)" "n1 = n + length ps"
    "sz1 = sz + (\<Sum>p \<leftarrow> ps. node_size w p)"
    using assms(1) unfolding x by (simp_all add: pruned_def)
  have q: "distinct qs" "\<forall>p \<in> set qs. aged base cutoff w1 p" "catalog w2 = catalog w1"
    "\<And>q. node_at w2 q = (if q \<in> set qs then None else node_at w1 q)" "n2 = n1 + length qs"
    "sz2 = sz1 + (\<Sum>p \<leftarrow> qs. node_size w1 p)"
    using assms(2) unfolding x by (simp_all add: pruned_def)
  have new: "q \<notin> set ps \<and> node_at w1 q = node_at w q \<and> aged base cutoff w q" if "q \<in> set qs" for q
  proof -
    have a: "aged base cutoff w1 q" using q(2) that by blast
    then have "node_at w1 q \<noteq> None" by (auto simp: aged_def)
    then show ?thesis using a p(4) [of q] by (auto simp: aged_def split: if_splits)
  qed
  have "map (node_size w1) qs = map (node_size w) qs" using new by (simp add: node_size_def)
  then have "(\<Sum>p \<leftarrow> qs. node_size w1 p) = (\<Sum>p \<leftarrow> qs. node_size w p)" by (rule arg_cong)
  then show ?thesis
    unfolding x pruned_def using p q new by auto
qed

lemma pruned_folders: "pruned base cutoff ps (n, sz, w) (n', sz', w') \<Longrightarrow> same_folders w w'"
  by (auto simp: pruned_def same_folders_def aged_def)

lemma prune_file_pruned:
  assumes "node_at w p = Some (Regular b m)"
  shows "\<exists>ps. pruned base cutoff ps (n, sz, w) (prune_file e base cutoff p b m (n, sz, w))"
proof -
  obtain n' sz' w' where run: "prune_file e base cutoff p b m (n, sz, w) = (n', sz', w')" by (metis prod_cases3)
  note fr = prune_file_frame [OF run]
  show ?thesis
  proof (cases "node_at w' p = None")
    case False
    have "node_at w' q = node_at w q" for q using fr(2) [of q] fr(3) False by (cases "q = p") auto
    then have "pruned base cutoff [] (n, sz, w) (n', sz', w')"
      using fr(1,3) False by (auto simp: pruned_def)
    then show ?thesis using run by auto
  next
    case True
    then obtain a where a: "n' = n + 1" "sz' = sz + length b" "\<not> is_collision_disambiguated (last p)" "m = Some a" "a < cutoff"
      using fr(3) assms by auto
    obtain c w1 where cn: "canonicalize e p w = (c, w1)" by force
    have "\<exists>d. c = Some d \<and> starts_with d base"
      using run a cn by (auto simp: prune_file_def Let_def split: option.splits if_splits)
    then have "starts_with p base" using canonicalize_frame(3) [OF cn] assms by auto
    then have "pruned base cutoff [p] (n, sz, w) (n', sz', w')"
      using fr a assms True unfolding pruned_def by (auto simp: aged_def node_size_def)
    then show ?thesis using run by auto
  qed
qed

lemma prune_entries_pruned:
  "\<exists>ps. pruned base cutoff ps (n, sz, w) (snd (prune_entries e base cutoff dir names stack (n, sz, w)))"
proof (induction names arbitrary: stack n sz w)
  case Nil
  show ?case by (intro exI [of _ "[]"]) (simp add: pruned_quiet)
next
  case (Cons name names)
  have quiet: "pruned base cutoff [] (n, sz, w) (n, sz, w1)" if "\<And>q. node_at w1 q = node_at w q" "catalog w1 = catalog w" for w1
    by (rule pruned_quiet) (use that in auto)
  show ?case
  proof (cases rule: prune_entries_step [of e base cutoff dir name names stack n sz w])
    case (halt w1)
    then show ?thesis using quiet [of w1] by (intro exI [of _ "[]"]) simp
  next
    case (push w1)
    then show ?thesis using Cons.IH [of n sz w1 "(dir @ [name]) # stack"] pruned_trans [OF quiet [of w1]] by metis
  next
    case (skip w1)
    then show ?thesis using Cons.IH [of n sz w1 stack] pruned_trans [OF quiet [of w1]] by metis
  next
    case (regular b m w1)
    obtain n2 sz2 w2 where x: "prune_file e base cutoff (dir @ [name]) b m (n, sz, w1) = (n2, sz2, w2)" by (metis prod_cases3)
    obtain ps where ps: "pruned base cutoff ps (n, sz, w1) (n2, sz2, w2)"
      using prune_file_pruned [of w1 "dir @ [name]" b m base cutoff n sz e] regular x by auto
    obtain qs where qs: "pruned base cutoff qs (n2, sz2, w2) (snd (prune_entries e base cutoff dir names stack (n2, sz2, w2)))"
      using Cons.IH by blast
    have "pruned base cutoff ([] @ ps @ qs) (n, sz, w) (snd (prune_entries e base cutoff dir (name # names) stack (n, sz, w)))"
      using pruned_trans [OF quiet [OF regular(2,3)] pruned_trans [OF ps qs]] regular(1) x by simp
    then show ?thesis by blast
  qed
qed

lemma prune_entries_pushed:
  assumes "prune_entries e base cutoff dir names stack (n, sz, w) = (stack', n', sz', w')" and "distinct names"
  shows "\<exists>ms. stack' = map (\<lambda>m. dir @ [m]) ms @ stack \<and> distinct ms \<and> set ms \<subseteq> set names \<and>
    (\<forall>m \<in> set ms. node_at w (dir @ [m]) = Some Folder)"
  using assms
proof (induction names arbitrary: stack n sz w)
  case (Cons name names)
  show ?case
  proof (cases rule: prune_entries_step [of e base cutoff dir name names stack n sz w])
    case (halt w1)
    then show ?thesis using Cons.prems by (intro exI [of _ "[]"]) simp
  next
    case (push w1)
    then have "prune_entries e base cutoff dir names ((dir @ [name]) # stack) (n, sz, w1) = (stack', n', sz', w')"
      using Cons.prems by simp
    from Cons.IH [OF this] obtain ms where ms: "stack' = map (\<lambda>m. dir @ [m]) ms @ (dir @ [name]) # stack" "distinct ms"
      "set ms \<subseteq> set names" "\<forall>m \<in> set ms. node_at w1 (dir @ [m]) = Some Folder" using Cons.prems by auto
    have "name \<notin> set ms" using ms(3) Cons.prems(2) by auto
    then show ?thesis using ms push by (intro exI [of _ "ms @ [name]"]) auto
  next
    case (skip w1)
    then have "prune_entries e base cutoff dir names stack (n, sz, w1) = (stack', n', sz', w')"
      using Cons.prems by simp
    from Cons.IH [OF this] show ?thesis using Cons.prems(2) skip(2) by auto
  next
    case (regular b m w1)
    obtain n2 sz2 w2 where x: "prune_file e base cutoff (dir @ [name]) b m (n, sz, w1) = (n2, sz2, w2)" by (metis prod_cases3)
    obtain ps where "pruned base cutoff ps (n, sz, w1) (n2, sz2, w2)"
      using prune_file_pruned [of w1 "dir @ [name]" b m base cutoff n sz e] regular x by auto
    then have "same_folders w1 w2" by (rule pruned_folders)
    moreover have "prune_entries e base cutoff dir names stack (n2, sz2, w2) = (stack', n', sz', w')"
      using Cons.prems regular x by simp
    ultimately show ?thesis using Cons.IH [of stack n2 sz2 w2] Cons.prems(2) regular(2) by (auto simp: same_folders_def)
  qed
qed simp

subsection \<open>The prune of one root\<close>

lemma prune_walk_shrinks:
  assumes "prune_entries e base cutoff d (entries_of w d) stack (n, sz, w1) = (stack', n', sz', w')"
    and "\<And>q. node_at w1 q = node_at w q"
  shows "stack_weight w' stack' < stack_weight w (d # stack)"
proof -
  obtain ms where ms: "stack' = map (\<lambda>m. d @ [m]) ms @ stack" "distinct ms" "\<forall>m \<in> set ms. node_at w1 (d @ [m]) = Some Folder"
    using prune_entries_pushed [OF assms(1) entries_distinct] by blast
  obtain ps where "pruned base cutoff ps (n, sz, w1) (n', sz', w')"
    using prune_entries_pruned [of base cutoff n sz w1 e d "entries_of w d" stack] assms(1) by auto
  then have "same_folders w w'"
    using pruned_folders same_folders_trans [OF same_folders_nodes [of w1 w]] assms(2) by blast
  then have "stack_weight w' stack' = stack_weight w (map (\<lambda>m. d @ [m]) ms) + stack_weight w stack"
    by (simp add: stack_weight_same ms(1)) (simp add: stack_weight_def)
  also have "\<dots> < stack_weight w (d # stack)"
    using folders_below_children [OF ms(2), of w d] ms(3) assms(2) by (simp add: stack_weight_def)
  finally show ?thesis .
qed

lemma unread_dir_shrinks:
  assumes "(None, w1) = read_dir e dir w"
  shows "stack_weight w1 stack < stack_weight w (dir # stack)"
proof -
  have "same_folders w w1" using read_dir_frame [OF assms [symmetric]] by (intro same_folders_nodes)
  then show ?thesis by (simp add: stack_weight_same) (simp add: stack_weight_def)
qed

lemma read_dir_shrinks:
  assumes "(Some names, w1) = read_dir e dir w"
  shows "(case prune_entries e base cutoff dir names stack (n, sz, w1) of (stack1, n', sz', w') \<Rightarrow> stack_weight w' stack1)
    < stack_weight w (dir # stack)"
proof -
  obtain stack1 n' sz' w' where run: "prune_entries e base cutoff dir names stack (n, sz, w1) = (stack1, n', sz', w')"
    by (metis prod_cases4)
  have "names = entries_of w dir" using assms by (auto simp: read_dir_def fails_def Let_def split: if_splits)
  then have "prune_entries e base cutoff dir (entries_of w dir) stack (n, sz, w1) = (stack1, n', sz', w')"
    using run by simp
  moreover have "node_at w1 q = node_at w q" for q using read_dir_frame [OF assms [symmetric]] by blast
  ultimately show ?thesis using prune_walk_shrinks run by simp
qed

function prune_dirs :: "orphan_env \<Rightarrow> path \<Rightarrow> instant \<Rightarrow> path list \<Rightarrow> prune_state \<Rightarrow> prune_state" where
  "prune_dirs e base cutoff [] x = x"
| "prune_dirs e base cutoff (dir # stack) (n, sz, w) =
     (case read_dir e dir w of
        (None, w1) \<Rightarrow> prune_dirs e base cutoff stack (n, sz, w1)
      | (Some names, w1) \<Rightarrow>
          (case prune_entries e base cutoff dir names stack (n, sz, w1) of
             (stack1, y) \<Rightarrow> prune_dirs e base cutoff stack1 y))"
  by pat_completeness auto
termination
  by (relation "measure (\<lambda>(e, base, cutoff, stack, n, sz, w). stack_weight w stack)")
    (auto simp: unread_dir_shrinks read_dir_shrinks)

definition prune_quarantine :: "orphan_env \<Rightarrow> path \<Rightarrow> int \<Rightarrow> depot \<Rightarrow> prune_state" where
  "prune_quarantine e storage_root days w =
     (if days \<le> 0 then (0, 0, w)
      else case canonicalize e (storage_root @ [''_quarantine'']) w of
             (None, w1) \<Rightarrow> (0, 0, w1)
           | (Some canon_root, w1) \<Rightarrow>
               prune_dirs e canon_root (oe_now e (steps w1) - seconds (days * 86400)) [canon_root] (0, 0, w1))"

subsection \<open>The disk half of a reconciliation\<close>

definition get_quarantine_retention_days :: "orphan_env \<Rightarrow> depot \<Rightarrow> int option \<times> depot" where
  "get_quarantine_retention_days e w =
     (let (bad, w1) = fails e w
      in (if bad then None
          else Some (max 0 (min 3650 (case oe_retention e of Some d \<Rightarrow> d | None \<Rightarrow> 14))), w1))"

fun prune_roots :: "orphan_env \<Rightarrow> int \<Rightarrow> scan_root list \<Rightarrow> prune_state \<Rightarrow> prune_state" where
  "prune_roots e days [] x = x"
| "prune_roots e days (sr # srs) (n, sz, w) =
     (if oe_stopped e (steps w) then (n, sz, w)
      else case prune_quarantine e (sr_canonical sr) days w of
             (n1, sz1, w1) \<Rightarrow> prune_roots e days srs (n + n1, sz + sz1, w1))"

text \<open>The part of \<open>run_background\<close> after the rows: \<open>None\<close> is running out of fuel in the orphan pass.\<close>

definition background_disks :: "orphan_env \<Rightarrow> nat \<Rightarrow> depot \<Rightarrow> (orphan_stats \<times> nat \<times> nat) option option \<times> depot" where
  "background_disks e k w =
     (case orphan_pass e k w of
        (None, roots, st, w1) \<Rightarrow> (None, w1)
      | (Some False, roots, st, w1) \<Rightarrow> (Some None, w1)
      | (Some True, roots, st, w1) \<Rightarrow>
          (case get_quarantine_retention_days e w1 of
             (days, w2) \<Rightarrow>
               let d = (case days of Some d \<Rightarrow> d | None \<Rightarrow> 0) in
               if d \<le> 0 then (Some (Some (st, 0, 0)), w2)
               else (case prune_roots e d roots (0, 0, w2) of (n, sz, w3) \<Rightarrow> (Some (Some (st, n, sz)), w3))))"

end
