(* ===== verification/QuarantineSafety.thy ===== *)
theory QuarantineSafety
  imports Quarantine
begin

text \<open>
  What the disk half of the reconciliation promises: the orphan pass ends, keeps every indexed file and
  indexes only what it found; the prune removes the aged files of the quarantine and nothing else; and
  the names the prune spares.
\<close>

subsection \<open>The orphan pass\<close>

definition same_depot :: "depot \<Rightarrow> depot \<Rightarrow> bool" where
  "same_depot w w' \<longleftrightarrow> tree w' = tree w \<and> catalog w' = catalog w"

lemma same_depot_trans: "same_depot a b \<Longrightarrow> same_depot b c \<Longrightarrow> same_depot a c"
  by (simp add: same_depot_def)

lemma same_depot_fails: "same_depot w (snd (fails e w))"
  by (simp add: same_depot_def)

lemma same_depot_canonical_root: "same_depot w (snd (canonical_root e p w))"
  by (auto simp: same_depot_def canonical_root_def canonicalize_def probe_def fails_def Let_def
      split: option.splits node.splits)

lemma same_depot_lookup: "same_depot w (snd (get_storage_by_name_or_path e np w))"
  by (auto simp: same_depot_def get_storage_by_name_or_path_def get_storage_by_name_def get_storage_by_path_def
      fails_def Let_def split: option.splits)

lemma same_depot_resolve: "same_depot w (snd (resolve_rows e a l ss w))"
proof (induction ss arbitrary: w)
  case Nil
  show ?case by (simp add: same_depot_def)
next
  case (Cons s ss)
  obtain c w1 where c: "canonical_root e (st_path s) w = (c, w1)" by force
  have "same_depot w w1" using same_depot_canonical_root [of w e "st_path s"] c by simp
  then have "same_depot w (snd (resolve_rows e a l ss w1))" using Cons same_depot_trans by blast
  then show ?case using c by (cases "resolve_rows e a l ss w1") (simp add: Let_def)
qed

lemma scan_roots_frame:
  assumes "scan_roots_for_orphan_pass e w = (r, w')"
  shows "same_depot w w'"
proof -
  obtain bad w1 where f: "fails e w = (bad, w1)" by force
  obtain a w2 where a: "get_storage_by_name_or_path e (oe_config_archive e) w1 = (a, w2)" by force
  obtain l w3 where l: "get_storage_by_name_or_path e (oe_config_live e) w2 = (l, w3)" by force
  obtain bad2 w4 where f2: "fails e w3 = (bad2, w4)" by force
  define archive live where "archive = found_id a @ List.map_filter pol_archive_storage_id (if bad2 then [] else oe_policies e)"
    and "live = found_id l @ List.map_filter pol_live_storage_id (if bad2 then [] else oe_policies e)"
  obtain found w5 where r: "resolve_rows e archive live (oe_storages e) w4 = (found, w5)" by force
  have s: "same_depot w w1" "same_depot w1 w2" "same_depot w2 w3" "same_depot w3 w4" "same_depot w4 w5"
    using same_depot_fails [of w e] same_depot_lookup [of w1 e "oe_config_archive e"]
      same_depot_lookup [of w2 e "oe_config_live e"] same_depot_fails [of w3 e]
      same_depot_resolve [of w4 e archive live "oe_storages e"] f a l f2 r by simp_all
  have "w' = w1 \<or> w' = w5"
    using assms f a l f2 r unfolding archive_def live_def
    by (auto simp: scan_roots_for_orphan_pass_def Let_def split: if_splits)
  then show ?thesis using s same_depot_trans by blast
qed

lemma join_root_roots:
  "map sr_canonical (join_root i c stage rs) =
     (if c \<in> set (map sr_canonical rs) then map sr_canonical rs else map sr_canonical rs @ [c])"
  by (induction rs) auto

lemma group_scan_roots_distinct: "distinct (map sr_canonical (group_scan_roots found))"
proof -
  have "distinct (map sr_canonical rs) \<Longrightarrow>
      distinct (map sr_canonical (foldl (\<lambda>rs (i, c, stage). join_root i c stage rs) rs found))" for rs
    by (induction found arbitrary: rs) (auto simp: join_root_roots split: prod.split)
  then show ?thesis by (simp add: group_scan_roots_def)
qed

lemma scan_roots_distinct:
  "scan_roots_for_orphan_pass e w = (Some roots, w') \<Longrightarrow> distinct (map sr_canonical roots)"
  by (auto simp: scan_roots_for_orphan_pass_def Let_def group_scan_roots_distinct split: prod.splits if_splits)

lemma held_start:
  assumes "same_depot w w1"
  shows "held e roots w1 w' \<longleftrightarrow> held e roots w w'"
proof -
  have n: "node_at w1 p = node_at w p" for p using assms by (simp add: same_depot_def node_at_def)
  have c: "catalog w1 = catalog w" using assms by (simp add: same_depot_def)
  have "adopted e roots w1 = adopted e roots w" by (rule ext) (simp add: adopted_def n)
  then show ?thesis by (simp add: held_def indexed_places_def links_kept_def n c)
qed

lemma orphan_pass_cases:
  assumes "orphan_pass e k w = (res, roots, st, w')"
  obtains "res = Some False" "roots = []" "same_depot w w'"
    | w1 where "same_depot w w1" "distinct (map sr_canonical roots)" "walk_roots e roots k roots (stats_new, w1) = (res, st, w')"
proof -
  obtain r w1 where s: "scan_roots_for_orphan_pass e w = (r, w1)" by force
  note fr = scan_roots_frame [OF s]
  show thesis
  proof (cases r)
    case None
    then show thesis using that(1) assms s fr by (simp add: orphan_pass_def)
  next
    case (Some rs)
    then show thesis
      using that(2) [OF fr] assms s scan_roots_distinct [of e w rs w1] by (auto simp: orphan_pass_def split: prod.splits)
  qed
qed

lemma orphan_pass_held:
  assumes "orphan_pass e k w = (res, roots, st, w')" and "layout e roots" and "\<forall>r \<in> set (catalog w). named e r"
    and "0 < oe_segment_len e"
  shows "held e roots w w'" "Suc (length (tree w)) \<le> k \<Longrightarrow> res \<noteq> None"
proof -
  have "held e roots w w' \<and> (Suc (length (tree w)) \<le> k \<longrightarrow> res \<noteq> None)"
    using assms(1)
  proof (cases rule: orphan_pass_cases)
    case 1
    then show ?thesis using held_start [of w w' e roots w'] held_refl by simp
  next
    case (2 w1)
    have st: "site e roots w1" using assms 2 by (simp add: site_def same_depot_def)
    have "held e roots w1 w'" by (rule walk_roots_held [OF st held_refl _ 2(3)]) simp
    moreover have "Suc (length (tree w)) \<le> k \<longrightarrow> res \<noteq> None"
      using walk_roots_ends [OF st held_refl, of roots k stats_new] 2 by (simp add: same_depot_def)
    ultimately show ?thesis using held_start [OF 2(1)] by simp
  qed
  then show "held e roots w w'" "Suc (length (tree w)) \<le> k \<Longrightarrow> res \<noteq> None" by blast+
qed

text \<open>C10. The orphan pass never touches footage the index knows: whatever fails and wherever it stops, every
  row is still there and the file of every row is what it was (present, absent or damaged). The layout
  hypothesis says that no storage lies inside the camera directory or the quarantine of another.\<close>

theorem orphan_pass_spares_indexed:
  assumes "orphan_pass e k w = (res, roots, st, w')" and "layout e roots" and "\<forall>r \<in> set (catalog w). named e r"
    and "0 < oe_segment_len e" and "r \<in> set (catalog w)" and "row_place roots r p"
  shows "r \<in> set (catalog w') \<and> node_at w' p = node_at w p"
proof -
  note h = orphan_pass_held(1) [OF assms(1-4)]
  have "p \<in> indexed_places roots w" using assms(5,6) by (auto simp: indexed_places_def)
  then show ?thesis using h held_catalog [OF h] assms(5) by (auto simp: held_def)
qed

text \<open>C12. The orphan pass indexes only what is there: every row it adds describes a file of a root that
  was on disk with at least the minimal size, with the size, the start of its name, a positive length of
  at most two segments, its camera's stream and the storage and stage of the root; no key is used twice.\<close>

theorem orphan_pass_adopts_soundly:
  assumes "orphan_pass e k w = (res, roots, st, w')" and "layout e roots" and "\<forall>r \<in> set (catalog w). named e r"
    and "0 < oe_segment_len e" and "distinct (map row_key (catalog w))"
  shows "\<exists>new. catalog w' = catalog w @ new \<and> (\<forall>r \<in> set new. adopted e roots w r) \<and> distinct (map row_key (catalog w'))"
  using orphan_pass_held(1) [OF assms(1-4)] assms(5) by (auto simp: held_def)

text \<open>The orphan pass ends: one read per node of the tree, and one more, is enough for it to return.\<close>

theorem orphan_pass_ends:
  assumes "orphan_pass e k w = (res, roots, st, w')" and "layout e roots" and "\<forall>r \<in> set (catalog w). named e r"
    and "0 < oe_segment_len e" and "Suc (length (tree w)) \<le> k"
  shows "res \<noteq> None"
  by (rule orphan_pass_held(2) [OF assms])

subsection \<open>The prune\<close>

lemma prune_dirs_pruned: "\<exists>ps. pruned base cutoff ps x (prune_dirs e base cutoff stack x)"
proof (induction e base cutoff stack x rule: prune_dirs.induct)
  case (1 e base cutoff x)
  obtain n sz w where "x = (n, sz, w)" by (metis prod_cases3)
  then show ?case using pruned_quiet [of w w base cutoff n sz] by auto
next
  case (2 e base cutoff dir stack n sz w)
  obtain names w1 where rd: "read_dir e dir w = (names, w1)" by force
  have quiet: "pruned base cutoff [] (n, sz, w) (n, sz, w1)"
    by (rule pruned_quiet) (use read_dir_frame [OF rd] in auto)
  show ?case
  proof (cases names)
    case None
    obtain qs where "pruned base cutoff qs (n, sz, w1) (prune_dirs e base cutoff stack (n, sz, w1))"
      using 2(1) [OF rd [symmetric] None] by blast
    from pruned_trans [OF quiet this] show ?thesis using rd None by auto
  next
    case (Some ns)
    obtain stack1 y where pe: "prune_entries e base cutoff dir ns stack (n, sz, w1) = (stack1, y)" by (metis surj_pair)
    obtain qs where "pruned base cutoff qs y (prune_dirs e base cutoff stack1 y)"
      using 2(2) [OF rd [symmetric] Some pe [symmetric]] by blast
    moreover obtain ps where "pruned base cutoff ps (n, sz, w1) y"
      using prune_entries_pruned [of base cutoff n sz w1 e dir ns stack] pe by auto
    ultimately have "pruned base cutoff ([] @ ps @ qs) (n, sz, w) (prune_dirs e base cutoff (dir # stack) (n, sz, w))"
      using pruned_trans [OF quiet pruned_trans] rd Some pe by simp
    then show ?thesis by blast
  qed
qed

text \<open>The directory a prune is confined to: the quarantine, or what the operator made of it.\<close>

definition quarantine_base :: "depot \<Rightarrow> path \<Rightarrow> path \<Rightarrow> bool" where
  "quarantine_base w storage_root base \<longleftrightarrow>
     node_at w (storage_root @ [''_quarantine'']) = Some (Symlink base) \<or>
     (\<forall>t. node_at w (storage_root @ [''_quarantine'']) \<noteq> Some (Symlink t)) \<and> base = storage_root @ [''_quarantine'']"

lemma prune_quarantine_pruned:
  assumes "prune_quarantine e storage_root days w = (n, sz, w')"
  shows "\<exists>ps base k. pruned base (oe_now e k - seconds (days * 86400)) ps (0, 0, w) (n, sz, w') \<and>
    (ps \<noteq> [] \<longrightarrow> 0 < days \<and> quarantine_base w storage_root base)"
proof (cases "days \<le> 0")
  case True
  then show ?thesis using assms pruned_quiet [of w w] by (intro exI [of _ "[]"]) (auto simp: prune_quarantine_def)
next
  case False
  obtain c w1 where cn: "canonicalize e (storage_root @ [''_quarantine'']) w = (c, w1)" by force
  note fr = canonicalize_frame [OF cn]
  have quiet: "pruned base cutoff [] (0, 0, w) (0, 0, w1)" for base cutoff
    by (rule pruned_quiet) (use fr in auto)
  show ?thesis
  proof (cases c)
    case None
    then show ?thesis using assms False cn quiet by (intro exI [of _ "[]"]) (auto simp: prune_quarantine_def)
  next
    case (Some base)
    let ?cutoff = "oe_now e (steps w1) - seconds (days * 86400)"
    obtain ps where "pruned base ?cutoff ps (0, 0, w1) (prune_dirs e base ?cutoff [base] (0, 0, w1))"
      using prune_dirs_pruned by blast
    then have "pruned base ?cutoff ps (0, 0, w) (n, sz, w')"
      using pruned_trans [OF quiet] assms False cn Some by (auto simp: prune_quarantine_def)
    moreover have "quarantine_base w storage_root base"
      using cn Some by (auto simp: quarantine_base_def canonicalize_def probe_def fails_def split: if_splits option.splits node.splits)
    ultimately show ?thesis using False by (intro exI [of _ ps] exI [of _ base] exI [of _ "steps w1"]) simp
  qed
qed

text \<open>C13. The prune removes aged junk and nothing else, whatever fails: each file it removes is a regular
  file under the resolved quarantine directory, with a modification time older than the retention and a
  name that is not a collision name; everything else, the index included, is as it was, and the counts it
  returns are those of the removed files. With a retention of zero it removes nothing.\<close>

theorem prune_quarantine_removes_only_aged:
  assumes "prune_quarantine e storage_root days w = (n, sz, w')"
  shows "catalog w' = catalog w \<and>
    (\<exists>ps. distinct ps \<and> n = length ps \<and> sz = (\<Sum>p \<leftarrow> ps. node_size w p) \<and>
       (\<forall>q. node_at w' q = (if q \<in> set ps then None else node_at w q)) \<and>
       (\<forall>p \<in> set ps. 0 < days \<and> \<not> is_collision_disambiguated (last p) \<and>
          (\<exists>base. quarantine_base w storage_root base \<and> starts_with p base) \<and>
          (\<exists>b m k. node_at w p = Some (Regular b (Some m)) \<and> m < oe_now e k - seconds (days * 86400))))"
proof -
  obtain ps base k where p: "pruned base (oe_now e k - seconds (days * 86400)) ps (0, 0, w) (n, sz, w')"
    "ps \<noteq> [] \<longrightarrow> 0 < days \<and> quarantine_base w storage_root base"
    using prune_quarantine_pruned [OF assms] by blast
  have "0 < days \<and> \<not> is_collision_disambiguated (last q) \<and>
      (\<exists>base. quarantine_base w storage_root base \<and> starts_with q base) \<and>
      (\<exists>b m k. node_at w q = Some (Regular b (Some m)) \<and> m < oe_now e k - seconds (days * 86400))" if "q \<in> set ps" for q
  proof -
    have "aged base (oe_now e k - seconds (days * 86400)) w q" using p(1) that by (simp add: pruned_def)
    moreover have "0 < days" "quarantine_base w storage_root base" using p(2) that by auto
    ultimately show ?thesis unfolding aged_def by blast
  qed
  then show ?thesis using p(1) unfolding pruned_def by (intro conjI exI [of _ ps]) auto
qed

subsection \<open>The prune misses nothing\<close>

lemma prune_file_removes:
  assumes "\<forall>k. \<not> oe_fails e k" and "node_at w p = Some (Regular b m)" and "aged base cutoff w p"
    and "prune_file e base cutoff p b m (n, sz, w) = (n', sz', w')"
  shows "node_at w' p = None"
  using assms
  by (auto simp: prune_file_def aged_def canonicalize_def probe_def unlink_node_def fails_def cut_node_at)

text \<open>A directory a walk from \<open>d\<close> reaches, and the effect of a part of a prune on what is still to do.\<close>

definition chain :: "depot \<Rightarrow> path \<Rightarrow> string list \<Rightarrow> bool" where
  "chain w d x \<longleftrightarrow> (\<forall>k < length x. node_at w (d @ take k x) = Some Folder)"

lemma chain_same: "same_folders w w' \<Longrightarrow> chain w' d x = chain w d x"
  by (simp add: chain_def same_folders_def)

lemma chain_tail: "chain w d (y # x) \<Longrightarrow> chain w (d @ [y]) x"
  unfolding chain_def
proof (intro allI impI)
  fix k assume h: "\<forall>j < length (y # x). node_at w (d @ take j (y # x)) = Some Folder" and k: "k < length x"
  show "node_at w ((d @ [y]) @ take k x) = Some Folder" using h [rule_format, of "Suc k"] k by simp
qed

lemma pruned_aged:
  assumes "pruned base cutoff ps (n, sz, w) (n', sz', w')" and "aged base cutoff w p"
  shows "aged base cutoff w' p \<or> node_at w' p = None"
  using assms by (auto simp: pruned_def aged_def)

lemma pruned_gone:
  "pruned base cutoff ps (n, sz, w) (n', sz', w') \<Longrightarrow> node_at w p = None \<Longrightarrow> node_at w' p = None"
  by (simp add: pruned_def)

lemma prune_entries_calm:
  assumes "\<forall>k. \<not> oe_fails e k"
    and "prune_entries e base cutoff dir names stack (n, sz, w) = (stack', n', sz', w')"
  shows "set stack \<subseteq> set stack' \<and>
    (\<forall>m \<in> set names. (node_at w (dir @ [m]) = Some Folder \<longrightarrow> dir @ [m] \<in> set stack') \<and>
       (aged base cutoff w (dir @ [m]) \<longrightarrow> node_at w' (dir @ [m]) = None))"
  using assms(2)
proof (induction names arbitrary: stack n sz w)
  case (Cons name names)
  show ?case
  proof (cases rule: prune_entries_step [of e base cutoff dir name names stack n sz w])
    case (halt w1)
    then show ?thesis using assms(1) by blast
  next
    case (push w1)
    then have "prune_entries e base cutoff dir names ((dir @ [name]) # stack) (n, sz, w1) = (stack', n', sz', w')"
      using Cons.prems by simp
    from Cons.IH [OF this] show ?thesis using push(2,4) by (auto simp: aged_def)
  next
    case (skip w1)
    then have "prune_entries e base cutoff dir names stack (n, sz, w1) = (stack', n', sz', w')"
      using Cons.prems by simp
    from Cons.IH [OF this] show ?thesis using skip(2,4) assms(1) by (auto simp: aged_def)
  next
    case (regular b m w1)
    obtain n2 sz2 w2 where x: "prune_file e base cutoff (dir @ [name]) b m (n, sz, w1) = (n2, sz2, w2)" by (metis prod_cases3)
    have rest: "prune_entries e base cutoff dir names stack (n2, sz2, w2) = (stack', n', sz', w')"
      using Cons.prems regular x by simp
    have here: "node_at w1 (dir @ [name]) = Some (Regular b m)" using regular by simp
    obtain ps where ps: "pruned base cutoff ps (n, sz, w1) (n2, sz2, w2)"
      using prune_file_pruned [OF here, of base cutoff n sz e] x by auto
    obtain qs where qs: "pruned base cutoff qs (n2, sz2, w2) (n', sz', w')"
      using prune_entries_pruned [of base cutoff n2 sz2 w2 e dir names stack] rest by auto
    have same: "aged base cutoff w1 q = aged base cutoff w q" for q using regular(2) by (simp add: aged_def)
    have folders: "node_at w2 q = Some Folder" if "node_at w q = Some Folder" for q
      using pruned_folders [OF ps] regular(2) that by (simp add: same_folders_def)
    have later: "node_at w' q = None" if q: "aged base cutoff w q" "aged base cutoff w2 q \<Longrightarrow> node_at w' q = None" for q
      using pruned_aged [OF ps, of q] pruned_gone [OF qs, of q] q same by blast
    have "node_at w' (dir @ [name]) = None" if "aged base cutoff w (dir @ [name])"
      using prune_file_removes [OF assms(1) here _ x] that same pruned_gone [OF qs] by blast
    then show ?thesis using Cons.IH [OF rest] folders later regular(4) by auto
  qed
qed simp

lemma entry_listed:
  assumes "node_at w (d @ [y]) \<noteq> None"
  shows "y \<in> set (entries_of w d)"
proof -
  have "d @ [y] \<in> set (map fst (tree w))" using assms by (simp add: node_at_def map_of_eq_None_iff)
  then have "d @ [y] \<in> set (filter (\<lambda>p. p \<noteq> [] \<and> butlast p = d) (remdups (map fst (tree w))))" by simp
  from imageI [OF this, of last] show ?thesis by (simp add: entries_of_def)
qed

lemma prune_dirs_calm:
  assumes "\<forall>k. \<not> oe_fails e k"
  shows "prune_dirs e base cutoff stack (n, sz, w) = (n', sz', w') \<Longrightarrow> d \<in> set stack \<Longrightarrow> x \<noteq> [] \<Longrightarrow>
    chain w d x \<Longrightarrow> aged base cutoff w (d @ x) \<Longrightarrow> node_at w' (d @ x) = None"
  using assms
proof (induction e base cutoff stack "(n, sz, w)" arbitrary: n sz w d x rule: prune_dirs.induct)
  case (2 e base cutoff dir stack n sz w)
  obtain names w1 where rd: "read_dir e dir w = (names, w1)" by force
  have w1: "node_at w1 q = node_at w q" for q using read_dir_frame [OF rd] by blast
  have sf: "same_folders w w1" by (rule same_folders_nodes) (rule w1)
  have a1: "aged base cutoff w1 (d @ x)" using 2(7) w1 by (simp add: aged_def)
  have c1: "chain w1 d x" using 2(6) chain_same [OF sf] by simp
  have calm: "names = (if node_at w dir = Some Folder then Some (entries_of w dir) else None)"
    using rd 2(8) by (auto simp: read_dir_def fails_def Let_def)
  have top: "node_at w d = Some Folder" using 2(5,6) by (auto simp: chain_def dest: spec [of _ 0])
  show ?case
  proof (cases names)
    case None
    then have "d \<in> set stack" using calm top 2(4) by (auto split: if_splits)
    moreover have "prune_dirs e base cutoff stack (n, sz, w1) = (n', sz', w')" using 2(3) rd None by simp
    ultimately show ?thesis using 2(1) [OF rd [symmetric] None _ _ 2(5) c1 a1 2(8)] by blast
  next
    case (Some ns)
    obtain stack1 n1 sz1 w2 where pe: "prune_entries e base cutoff dir ns stack (n, sz, w1) = (stack1, n1, sz1, w2)"
      by (metis prod_cases4)
    note ec = prune_entries_calm [OF 2(8) pe]
    obtain ps where ps: "pruned base cutoff ps (n, sz, w1) (n1, sz1, w2)"
      using prune_entries_pruned [of base cutoff n sz w1 e dir ns stack] pe by auto
    have go: "prune_dirs e base cutoff stack1 (n1, sz1, w2) = (n', sz', w')" using 2(3) rd Some pe by simp
    obtain qs where qs: "pruned base cutoff qs (n1, sz1, w2) (n', sz', w')"
      using prune_dirs_pruned [of base cutoff "(n1, sz1, w2)" e stack1] go by auto
    note IH = 2(2) [OF rd [symmetric] Some pe [symmetric] go _ _ _ _ 2(8)]
    have below: "node_at w' (c @ y) = None" if c: "c \<in> set stack1" "y \<noteq> []" "chain w1 c y" "c @ y = d @ x" for c y
      using pruned_aged [OF ps a1] IH [of c y] pruned_gone [OF qs] c chain_same [OF pruned_folders [OF ps]] by metis
    show ?thesis
    proof (cases "d = dir")
      case False
      then show ?thesis using below [of d x] 2(4,5) c1 ec by auto
    next
      case True
      obtain y ys where x: "x = y # ys" using 2(5) by (cases x) auto
      have "node_at w (dir @ [y]) \<noteq> None"
      proof (cases ys)
        case Nil
        then show ?thesis using 2(7) x True by (auto simp: aged_def)
      next
        case (Cons z zs)
        then have "Suc 0 < length x" using x by simp
        then have "node_at w (d @ take (Suc 0) x) = Some Folder" using 2(6) unfolding chain_def by blast
        then show ?thesis using x True by simp
      qed
      then have "y \<in> set (entries_of w dir)" by (rule entry_listed)
      then have y: "y \<in> set ns" using calm Some by (simp split: if_splits)
      show ?thesis
      proof (cases ys)
        case Nil
        then show ?thesis using ec y a1 x True pruned_gone [OF qs] by auto
      next
        case (Cons z zs)
        then have "Suc 0 < length x" using x by simp
        then have "node_at w1 (d @ take (Suc 0) x) = Some Folder" using c1 unfolding chain_def by blast
        then have "node_at w1 (dir @ [y]) = Some Folder" using x True by simp
        then have "dir @ [y] \<in> set stack1" using ec y by blast
        then show ?thesis using below [of "dir @ [y]" ys] chain_tail c1 x True Cons by simp
      qed
    qed
  qed
qed simp

text \<open>The prune misses nothing when nothing fails: every regular file the quarantine holds at any depth
  that is older than the retention, a collision name apart, is gone.\<close>

theorem prune_quarantine_removes_all_aged:
  assumes "prune_quarantine e storage_root days w = (n, sz, w')" and "\<forall>k. \<not> oe_fails e k" and "0 < days"
    and "base = storage_root @ [''_quarantine'']" and "x \<noteq> []" and "chain w base x"
    and "node_at w (base @ x) = Some (Regular b (Some m))" and "\<forall>k. m < oe_now e k - seconds (days * 86400)"
    and "\<not> is_collision_disambiguated (last x)"
  shows "node_at w' (base @ x) = None"
proof -
  have top: "node_at w base = Some Folder" using assms(5,6) by (auto simp: chain_def dest: spec [of _ 0])
  obtain c w1 where cn: "canonicalize e base w = (c, w1)" by force
  have c: "c = Some base" using cn top assms(2) by (auto simp: canonicalize_def probe_def fails_def)
  have w1: "node_at w1 q = node_at w q" for q using canonicalize_frame(1) [OF cn] by blast
  let ?cutoff = "oe_now e (steps w1) - seconds (days * 86400)"
  have "prune_dirs e base ?cutoff [base] (0, 0, w1) = (n, sz, w')"
    using assms(1,3) cn c by (simp add: prune_quarantine_def assms(4))
  then show ?thesis
  proof (rule prune_dirs_calm [OF assms(2)])
    show "chain w1 base x" using assms(6) w1 by (simp add: chain_def)
    show "aged base ?cutoff w1 (base @ x)"
      using assms(5,7-9) w1 by (auto simp: aged_def starts_with_append)
  qed (use assms(5) in simp_all)
qed

subsection \<open>The two passes together\<close>

lemma prune_roots_pruned:
  assumes "prune_roots e days srs (n, sz, w) = (n', sz', w')"
  shows "catalog w' = catalog w \<and> links_kept w w' \<and>
    (\<forall>p. node_at w' p = node_at w p \<or>
       (\<exists>sr \<in> set srs. \<exists>base v. quarantine_base v (sr_canonical sr) base \<and> links_kept w v \<and> starts_with p base))"
  using assms
proof (induction srs arbitrary: n sz w)
  case Nil
  then show ?case by (simp add: links_same)
next
  case (Cons sr srs)
  show ?case
  proof (cases "oe_stopped e (steps w)")
    case True
    then show ?thesis using Cons.prems by (simp add: links_same)
  next
    case False
    obtain n1 sz1 w1 where pq: "prune_quarantine e (sr_canonical sr) days w = (n1, sz1, w1)" by (metis prod_cases3)
    obtain ps base k where p: "pruned base (oe_now e k - seconds (days * 86400)) ps (0, 0, w) (n1, sz1, w1)"
      "ps \<noteq> [] \<longrightarrow> 0 < days \<and> quarantine_base w (sr_canonical sr) base"
      using prune_quarantine_pruned [OF pq] by blast
    have l: "links_kept w w1" using p(1) by (auto simp: pruned_def links_kept_def split: if_splits)
    have here: "node_at w1 q = node_at w q \<or> quarantine_base w (sr_canonical sr) base \<and> starts_with q base" for q
      using p by (auto simp: pruned_def aged_def)
    have c: "catalog w1 = catalog w" using p(1) by (simp add: pruned_def)
    have "prune_roots e days srs (n + n1, sz + sz1, w1) = (n', sz', w')" using Cons.prems False pq by simp
    note ih = Cons.IH [OF this]
    have "node_at w' q = node_at w q \<or>
        (\<exists>s \<in> set (sr # srs). \<exists>base v. quarantine_base v (sr_canonical s) base \<and> links_kept w v \<and> starts_with q base)" for q
      using here [of q] ih links_trans [OF l] links_same [of w w] by (metis list.set_intros)
    moreover have "catalog w' = catalog w" "links_kept w w'" using ih c links_trans [OF l] by auto
    ultimately show ?thesis by blast
  qed
qed

lemma quarantine_base_plain:
  assumes "quarantine_base v (sr_canonical sr) base" and "links_kept w v" and "sr \<in> set roots"
    and "\<And>t. node_at w (place sr [''_quarantine'']) \<noteq> Some (Symlink t)" and "starts_with p base"
  shows "p \<in> quarantined roots"
proof -
  have "base = place sr [''_quarantine'']"
    using assms(1,2,4) by (auto simp: quarantine_base_def place_def links_kept_def)
  then show ?thesis using assms(3,5) by (auto simp: quarantined_def place_def starts_with_iff)
qed

text \<open>C11. A whole disk pass, adoption, quarantine and prune together, never loses a file the index knows:
  whatever fails and wherever it stops, every row is still there and its file untouched, provided that the
  quarantine of a root is not a symlink.\<close>

theorem background_disks_keeps_footage:
  assumes "background_disks e k w = (res, w')" and "fst (snd (orphan_pass e k w)) = roots" and "layout e roots"
    and "\<forall>r \<in> set (catalog w). named e r" and "0 < oe_segment_len e"
    and "\<forall>sr \<in> set roots. \<forall>t. node_at w (place sr [''_quarantine'']) \<noteq> Some (Symlink t)"
    and "r \<in> set (catalog w)" and "row_place roots r p"
  shows "r \<in> set (catalog w') \<and> node_at w' p = node_at w p"
proof -
  obtain ores rs st w1 where op: "orphan_pass e k w = (ores, rs, st, w1)" by (metis prod_cases4)
  have rs: "rs = roots" using assms(2) op by simp
  note h = orphan_pass_held(1) [OF op [unfolded rs] assms(3-5)]
  have mem: "p \<in> indexed_places roots w" using assms(7,8) by (auto simp: indexed_places_def)
  have first: "r \<in> set (catalog w1) \<and> node_at w1 p = node_at w p"
    using h held_catalog [OF h] assms(7) mem by (auto simp: held_def)
  obtain days w2 where gd: "get_quarantine_retention_days e w1 = (days, w2)" by force
  have w2: "node_at w2 q = node_at w1 q" "catalog w2 = catalog w1" for q
    using gd by (auto simp: get_quarantine_retention_days_def fails_def)
  define d where "d = (case days of Some d \<Rightarrow> d | None \<Rightarrow> 0)"
  obtain n sz w3 where pr: "prune_roots e d roots (0, 0, w2) = (n, sz, w3)" by (metis prod_cases3)
  note fr = prune_roots_pruned [OF pr]
  have lk: "links_kept w w2"
    using h links_trans [OF _ links_same [of w2 w1]] w2(1) by (simp add: held_def)
  have "p \<notin> quarantined roots" using indexed_not_quarantined [OF assms(3,4) mem] .
  then have "node_at w3 p = node_at w2 p"
    using fr quarantine_base_plain [of _ _ _ w roots p] links_trans [OF lk] assms(6) by metis
  then have "r \<in> set (catalog w3) \<and> node_at w3 p = node_at w p" using first w2 fr by simp
  moreover have "w' \<in> {w1, w2, w3}"
    using assms(1) op rs gd pr unfolding background_disks_def d_def
    by (auto simp: Let_def split: option.splits bool.splits if_splits)
  ultimately show ?thesis using first w2 by auto
qed

subsection \<open>Collision names\<close>

lemma rsplit_dot_append:
  assumes "CHR ''.'' \<notin> set b"
  shows "rsplit_dot (a @ CHR ''.'' # b) = Some (a, b)"
proof -
  have "takeWhile (\<lambda>c. c \<noteq> CHR ''.'') (rev b @ CHR ''.'' # rev a) = rev b"
    using assms by (subst takeWhile_append2) auto
  then show ?thesis by (simp add: rsplit_dot_def Let_def)
qed

lemma rsplit_dot_ext: "rsplit_dot s = Some (stem, ext) \<Longrightarrow> CHR ''.'' \<notin> set ext"
  by (auto simp: rsplit_dot_def Let_def split: if_splits dest: set_takeWhileD)

lemma rsplit_dot_none: "rsplit_dot s = None \<longleftrightarrow> CHR ''.'' \<notin> set s"
  by (simp add: rsplit_dot_def Let_def)

lemma no_dash: "CHR ''-'' \<notin> set ys \<Longrightarrow> after_last_dash_r ys = None"
  by (induction ys) auto

lemma dash_prefix: "after_last_dash_r zs = Some t \<Longrightarrow> after_last_dash_r (xs @ zs) = Some t"
  by (induction xs) auto

lemma after_dash: "CHR ''-'' \<notin> set ys \<Longrightarrow> after_last_dash_r (xs @ CHR ''-'' # CHR ''r'' # ys) = Some ys"
  by (rule dash_prefix) (simp add: no_dash)

lemma show_nat_digits: "show_nat n \<noteq> [] \<and> list_all is_digit (show_nat n)"
proof (induction n rule: show_nat.induct)
  case (1 n)
  have d: "is_digit (char_of (48 + k))" if "k < 10" for k :: nat
    using that by (simp add: is_digit_def)
  show ?case
  proof (cases "n < 10")
    case True
    then show ?thesis using d [OF True] by (simp add: show_nat.simps [of n])
  next
    case False
    then show ?thesis using 1 d [of "n mod 10"] by (simp add: show_nat.simps [of n])
  qed
qed

lemma digits_plain: "list_all is_digit s \<Longrightarrow> CHR ''-'' \<notin> set s \<and> CHR ''.'' \<notin> set s"
  by (auto simp: list_all_iff is_digit_def)

lemma disambiguated_exempt: "is_collision_disambiguated (disambiguated_name filename n)"
proof (cases "rsplit_dot filename")
  case None
  have d: "list_all is_digit (show_nat n)" "show_nat n \<noteq> []" using show_nat_digits by auto
  then have "rsplit_dot (filename @ ''-r'' @ show_nat n) = None"
    using None digits_plain [OF d(1)] by (simp add: rsplit_dot_none)
  then show ?thesis
    using None d after_dash [of "show_nat n" filename] digits_plain [OF d(1)]
    by (simp add: disambiguated_name_def is_collision_disambiguated_def)
next
  case (Some x)
  obtain stem ext where x: "x = (stem, ext)" by force
  have d: "list_all is_digit (show_nat n)" "show_nat n \<noteq> []" using show_nat_digits by auto
  have "rsplit_dot ((stem @ ''-r'' @ show_nat n) @ CHR ''.'' # ext) = Some (stem @ ''-r'' @ show_nat n, ext)"
    by (rule rsplit_dot_append) (use rsplit_dot_ext Some x in simp)
  then show ?thesis
    using Some x d after_dash [of "show_nat n" stem] digits_plain [OF d(1)]
    by (simp add: disambiguated_name_def is_collision_disambiguated_def)
qed

lemma underscore_survives:
  assumes "CHR ''-'' \<notin> set ys"
  shows "after_last_dash_r (xs @ CHR ''_'' # ys) = Some t \<Longrightarrow> CHR ''_'' \<in> set t"
proof (induction xs arbitrary: t)
  case Nil
  then show ?case using no_dash [of "CHR ''_'' # ys"] assms by simp
next
  case (Cons c xs)
  show ?case
  proof (cases "after_last_dash_r (xs @ CHR ''_'' # ys)")
    case None
    then have t: "t = tl (xs @ CHR ''_'' # ys)" "hd (xs @ CHR ''_'' # ys) = CHR ''r''"
      using Cons.prems by (simp_all split: if_splits)
    then have "xs \<noteq> []" by auto
    then show ?thesis using t(1) by (cases xs) simp_all
  next
    case (Some u)
    then show ?thesis using Cons by simp
  qed
qed

lemma stamped_name_form:
  obtains stem ext where "stamped_name e name now = (stem @ CHR ''_'' # oe_stamp e now) @ CHR ''.'' # ext"
    "CHR ''.'' \<notin> set ext"
proof -
  obtain stem x where se: "stem_ext name = (stem, x)" by force
  have "x = Some ext \<Longrightarrow> CHR ''.'' \<notin> set ext" for ext
    using se rsplit_dot_ext by (auto simp: stem_ext_def split: option.splits prod.splits if_splits)
  then show thesis
    using that [of stem "case x of Some x \<Rightarrow> x | None \<Rightarrow> []"] se by (cases x) (simp_all add: stamped_name_def)
qed

text \<open>C38. A flaw the model shows: when the quarantine already holds a file of the same name,
  \<open>quarantine_file\<close> appends its entry time to the stem, and a collision name, which the prune is meant to
  keep for ever, is no longer recognised as one. The hypothesis is what chrono prints for
  \<open>%Y%m%dT%H%M%S%.3fZ\<close>: no dash.\<close>

theorem quarantine_rename_loses_exemption:
  assumes "CHR ''-'' \<notin> set (oe_stamp e now)"
  shows "is_collision_disambiguated (disambiguated_name filename n) \<and>
    \<not> is_collision_disambiguated (stamped_name e (disambiguated_name filename n) now)"
proof -
  have known: "is_collision_disambiguated (disambiguated_name filename n)" by (rule disambiguated_exempt)
  obtain stem ext where f: "stamped_name e (disambiguated_name filename n) now = (stem @ CHR ''_'' # oe_stamp e now) @ CHR ''.'' # ext"
    "CHR ''.'' \<notin> set ext" by (rule stamped_name_form)
  have "\<not> is_digit CHR ''_''" by (simp add: is_digit_def)
  then have "\<not> is_collision_disambiguated (stamped_name e (disambiguated_name filename n) now)"
    using underscore_survives [OF assms, of stem] unfolding f(1) is_collision_disambiguated_def rsplit_dot_append [OF f(2)]
    by (auto simp: list_all_iff split: option.split)
  then show ?thesis using known by blast
qed

subsection \<open>Concrete runs\<close>

definition demo_orphans :: "(nat \<Rightarrow> bool) \<Rightarrow> orphan_env" where
  "demo_orphans faults =
     \<lparr>oe_fails = faults, oe_cross = (\<lambda>_. False), oe_now = (\<lambda>_. seconds 10000000), oe_stopped = (\<lambda>_. False),
      oe_segment_len = seconds 60,
      oe_chrono = (\<lambda>s. if s = ''s100'' then Some (seconds 100) else if s = ''s300'' then Some (seconds 300) else None),
      oe_uuid = (\<lambda>s. if s = ''cam'' then Some 7 else None), oe_stamp = (\<lambda>_. ''20260101T000000.000Z''),
      oe_storages = [\<lparr>st_id = 1, st_path = [''srv''], st_name = ''live'', st_created = 0\<rparr>],
      oe_config_archive = (''archive'', [''old'']), oe_config_live = (''live'', [''srv'']), oe_policies = [],
      oe_camera = (\<lambda>c. if c = 7 then Some MainStream else None), oe_retention = Some 14\<rparr>"

definition demo_row :: seg_row where
  "demo_row = \<lparr>r_camera = 7, r_storage = 1, r_stage = LiveStage, r_path = [''cam'', ''s100.mp4''],
     r_stream = MainStream, r_start = seconds 100, r_end = seconds 160, r_duration_ms = 60000,
     r_has_motion = False, r_score = 0, r_size = 600, r_bbox = None, r_shadow_keep = None\<rparr>"

definition demo_depot :: depot where
  "demo_depot = \<lparr>tree =
       [([''srv''], Folder), ([''srv'', ''cam''], Folder),
        ([''srv'', ''cam'', ''s100.mp4''], Regular (replicate 600 1) (Some (seconds 160))),
        ([''srv'', ''cam'', ''s300.mp4''], Regular (replicate 600 2) (Some (seconds 340))),
        ([''srv'', ''cam'', ''x.mp4''], Regular [3] (Some (seconds 400))),
        ([''srv'', ''_quarantine''], Folder), ([''srv'', ''_quarantine'', ''cam''], Folder),
        ([''srv'', ''_quarantine'', ''cam'', ''y.mp4''], Regular [4, 4] (Some (seconds 500))),
        ([''srv'', ''_quarantine'', ''cam'', ''y-r1.mp4''], Regular [5] (Some (seconds 500)))],
     catalog = [demo_row], steps = 0\<rparr>"

definition demo_root :: scan_root where
  "demo_root = \<lparr>sr_canonical = [''srv''], sr_storage_ids = [1], sr_adopt = 1, sr_stage = LiveStage\<rparr>"

lemma demo_scan:
  "fst (scan_roots_for_orphan_pass (demo_orphans (\<lambda>n. n = 12)) demo_depot) = Some [demo_root]"
  by code_simp

lemma demo_pass:
  assumes "orphan_pass (demo_orphans (\<lambda>n. n = 12)) 20 demo_depot = (res, roots, st, w')"
  shows "roots = [demo_root]"
  using assms demo_scan
  by (cases "scan_roots_for_orphan_pass (demo_orphans (\<lambda>n. n = 12)) demo_depot") (auto simp: orphan_pass_def split: prod.splits)

lemma demo_site:
  "layout (demo_orphans f) [demo_root]" "\<forall>r \<in> set (catalog demo_depot). named (demo_orphans f) r"
  "0 < oe_segment_len (demo_orphans f)" "demo_row \<in> set (catalog demo_depot)"
  "row_place [demo_root] demo_row [''srv'', ''cam'', ''s100.mp4'']" "distinct (map row_key (catalog demo_depot))"
  "length (tree demo_depot) = 9"
  "node_at demo_depot [''srv'', ''cam'', ''s100.mp4''] = Some (Regular (replicate 600 1) (Some (seconds 160)))"
  by (simp_all add: layout_def demo_orphans_def demo_root_def named_def demo_depot_def demo_row_def seconds_def
      parse_segment_timestamp_def strip_suffix_def orphan_lookup_margin_secs_def row_place_def place_def node_at_def)

theorem orphan_pass_spares_indexed_witness:
  "let (res, roots, st, w') = orphan_pass (demo_orphans (\<lambda>n. n = 12)) 20 demo_depot
   in demo_row \<in> set (catalog w') \<and>
      node_at w' [''srv'', ''cam'', ''s100.mp4''] = Some (Regular (replicate 600 1) (Some (seconds 160)))"
proof -
  obtain res roots st w' where r: "orphan_pass (demo_orphans (\<lambda>n. n = 12)) 20 demo_depot = (res, roots, st, w')"
    by (metis prod_cases4)
  show ?thesis
    using orphan_pass_spares_indexed [OF r _ demo_site(2-4)] demo_pass [OF r] demo_site r by (simp add: Let_def)
qed

theorem orphan_pass_adopts_soundly_witness:
  "let (res, roots, st, w') = orphan_pass (demo_orphans (\<lambda>n. n = 12)) 20 demo_depot
   in \<exists>new. catalog w' = demo_row # new \<and> distinct (map row_key (catalog w'))"
proof -
  obtain res roots st w' where r: "orphan_pass (demo_orphans (\<lambda>n. n = 12)) 20 demo_depot = (res, roots, st, w')"
    by (metis prod_cases4)
  show ?thesis
    using orphan_pass_adopts_soundly [OF r _ demo_site(2,3)] demo_pass [OF r] demo_site r by (auto simp: demo_depot_def)
qed

theorem orphan_pass_ends_witness: "fst (orphan_pass (demo_orphans (\<lambda>n. n = 12)) 20 demo_depot) \<noteq> None"
proof -
  obtain res roots st w' where r: "orphan_pass (demo_orphans (\<lambda>n. n = 12)) 20 demo_depot = (res, roots, st, w')"
    by (metis prod_cases4)
  show ?thesis
    using orphan_pass_ends [OF r _ demo_site(2,3)] demo_pass [OF r] demo_site(1,7) r by simp
qed

theorem prune_quarantine_removes_only_aged_witness:
  "let (n, sz, w') = prune_quarantine (demo_orphans (\<lambda>n. n = 5)) [''srv''] 14 demo_depot
   in catalog w' = [demo_row] \<and> node_at w' [''srv'', ''_quarantine'', ''cam'', ''y-r1.mp4''] = Some (Regular [5] (Some (seconds 500)))"
proof -
  obtain n sz w' where r: "prune_quarantine (demo_orphans (\<lambda>n. n = 5)) [''srv''] 14 demo_depot = (n, sz, w')"
    by (metis prod_cases3)
  define p where "p = [''srv'', ''_quarantine'', ''cam'', ''y-r1.mp4'']"
  have "is_collision_disambiguated ''y-r1.mp4''" by code_simp
  then have kept: "is_collision_disambiguated (last p)" by (simp add: p_def)
  obtain ps where ps: "catalog w' = catalog demo_depot"
    "\<forall>q. node_at w' q = (if q \<in> set ps then None else node_at demo_depot q)"
    "\<forall>q \<in> set ps. \<not> is_collision_disambiguated (last q)"
    using prune_quarantine_removes_only_aged [OF r] by auto
  have "p \<notin> set ps" using ps(3) kept by blast
  then have "node_at w' p = node_at demo_depot p" using ps(2) by simp
  then show ?thesis using ps(1) r by (simp add: p_def demo_depot_def node_at_def)
qed

theorem prune_quarantine_removes_all_aged_witness:
  "let (n, sz, w') = prune_quarantine (demo_orphans (\<lambda>_. False)) [''srv''] 14 demo_depot
   in node_at w' [''srv'', ''_quarantine'', ''cam'', ''y.mp4''] = None"
proof -
  obtain n sz w' where r: "prune_quarantine (demo_orphans (\<lambda>_. False)) [''srv''] 14 demo_depot = (n, sz, w')"
    by (metis prod_cases3)
  have "\<not> is_collision_disambiguated (last [''cam'', ''y.mp4''])" by code_simp
  moreover have "chain demo_depot ([''srv''] @ [''_quarantine'']) [''cam'', ''y.mp4'']"
    by (simp add: chain_def node_at_def demo_depot_def less_Suc_eq)
  moreover have "node_at demo_depot (([''srv''] @ [''_quarantine'']) @ [''cam'', ''y.mp4'']) = Some (Regular [4, 4] (Some (seconds 500)))"
    by (simp add: node_at_def demo_depot_def)
  moreover have "\<forall>k. \<not> oe_fails (demo_orphans (\<lambda>_. False)) k"
    "\<forall>k. seconds 500 < oe_now (demo_orphans (\<lambda>_. False)) k - seconds (14 * 86400)"
    by (simp_all add: demo_orphans_def seconds_def)
  ultimately show ?thesis
    using prune_quarantine_removes_all_aged [OF r, of "[''srv''] @ [''_quarantine'']" "[''cam'', ''y.mp4'']"] r by simp
qed

theorem background_disks_keeps_footage_witness:
  "let (res, w') = background_disks (demo_orphans (\<lambda>n. n = 12)) 20 demo_depot
   in demo_row \<in> set (catalog w') \<and>
      node_at w' [''srv'', ''cam'', ''s100.mp4''] = Some (Regular (replicate 600 1) (Some (seconds 160)))"
proof -
  obtain ores roots st w1 where r: "orphan_pass (demo_orphans (\<lambda>n. n = 12)) 20 demo_depot = (ores, roots, st, w1)"
    by (metis prod_cases4)
  obtain res w' where b: "background_disks (demo_orphans (\<lambda>n. n = 12)) 20 demo_depot = (res, w')" by force
  have roots: "fst (snd (orphan_pass (demo_orphans (\<lambda>n. n = 12)) 20 demo_depot)) = [demo_root]"
    using r demo_pass [OF r] by simp
  have "\<forall>sr \<in> set [demo_root]. \<forall>t. node_at demo_depot (place sr [''_quarantine'']) \<noteq> Some (Symlink t)"
    by (simp add: demo_root_def place_def node_at_def demo_depot_def)
  from background_disks_keeps_footage [OF b roots demo_site(1-3) this demo_site(4,5)] show ?thesis
    using b demo_site(8) by simp
qed

theorem quarantine_rename_loses_exemption_witness:
  "is_collision_disambiguated (disambiguated_name ''y.mp4'' 1) \<and>
   \<not> is_collision_disambiguated (stamped_name (demo_orphans (\<lambda>_. False)) (disambiguated_name ''y.mp4'' 1) 0)"
  by (rule quarantine_rename_loses_exemption) (simp add: demo_orphans_def)

end
