(* ===== verification/Migration.thy ===== *)
theory Migration
  imports Eviction
begin

text \<open>
  The drain that follows a change of storage (\<open>run_storage_migration\<close> of
  \<open>services/recorder/src/archive.rs\<close>): batches of a policy's segments are copied from the old storage to
  the new one under the same relative path, their rows are flipped by one guarded \<open>UPDATE\<close>, and only
  then are the sources deleted. The job table and its states are in \<open>services/common/src/db.rs\<close>, the
  worker in \<open>services/recorder/src/main.rs\<close>, the requests in \<open>services/api/src/config_routes.rs\<close>.

  \<^item> The copies of a batch, which run four at a time, run here in the order of the batch: each touches
    its own destination only. A batch runs under the lock of the archiver from the flip on;
    \<open>de_meanwhile\<close> is what the other loops did to disks and index until the lock was free. The code
    holds that lock for the flip only; what the other loops may do between the flip and the end of the
    clean-up of the same batch, or between two copies, is not modelled (it is all moved to the one point
    before the flip).
  \<^item> \<open>de_requests\<close> are the requests the API has served when the drain looks at its job again.
  \<^item> A copy leaves \<open>synced\<close> alone: it fsyncs the file, and the directory is fsynced once per batch.
\<close>

datatype job_status = Pending | Running | DoneJob | FailedJob | Cancelled

record storage_migration =
  mj_id :: uuid
  mj_policy :: uuid
  mj_from :: uuid
  mj_to :: uuid
  mj_status :: job_status
  mj_moved :: int
  mj_bytes :: int
  mj_error :: "string option"
  mj_created :: instant
  mj_updated :: instant

datatype migration_request = Retry uuid | Cancel uuid

record drain_env =
  de_meanwhile :: "nat \<Rightarrow> vault \<Rightarrow> vault"
  de_requests :: "nat \<Rightarrow> migration_request list"
  de_now :: "nat \<Rightarrow> instant"

subsection \<open>One segment\<close>

record copied_seg =
  cp_id :: uuid
  cp_src :: path
  cp_dst :: path
  cp_size :: i64
  cp_in_place :: bool

datatype migration_outcome = MigCopied copied_seg | MigSkipped | MigFailed

definition fsync_file_only :: "vault_env \<Rightarrow> path \<Rightarrow> vault \<Rightarrow> bool \<times> vault" where
  "fsync_file_only e p w = (let (f, w1) = draw e w in (\<not> broken f \<and> disk w (ve_canon e p) \<noteq> None, w1))"

definition copy_segment_for_migration ::
  "vault_env \<Rightarrow> segment \<Rightarrow> path \<Rightarrow> path \<Rightarrow> vault \<Rightarrow> migration_outcome \<times> vault" where
  "copy_segment_for_migration e seg src_root dst_root w =
     (let src = src_root @ sg_path seg; dst = dst_root @ sg_path seg;
          copied = (\<lambda>in_place. MigCopied \<lparr>cp_id = sg_id seg, cp_src = src, cp_dst = dst, cp_size = sg_size seg,
                                        cp_in_place = in_place\<rparr>);
          discard = (\<lambda>v. (MigFailed, snd (unlink e dst v)));
          (there, w1) = file_exists e src w in
      if there \<noteq> Some True then (MigSkipped, w1)
      else let (same, w2) = same_file e src dst w1 in
        if same then (copied True, w2)
        else case copy_with_crc32 e src dst w2 of
               (Inl er, w3) \<Rightarrow>
                 (let (again, w4) = same_file e src dst w3 in if again then (MigFailed, w4) else discard w4)
             | (Inr (n, crc), w3) \<Rightarrow>
                 (case metadata_len e dst w3 of
                    (None, w4) \<Rightarrow> discard w4
                  | (Some k, w4) \<Rightarrow>
                      if k \<noteq> n \<or> k \<noteq> as_u64 (sg_size seg) then discard w4
                      else let (ok, w5) = fsync_file_only e dst w4 in
                        if ok then (copied False, w5) else discard w5))"

subsection \<open>The phases of a batch\<close>

definition migration_batch :: nat where "migration_batch = 256"

definition list_policy_segments_on_storage ::
  "vault_env \<Rightarrow> uuid \<Rightarrow> uuid \<Rightarrow> nat \<Rightarrow> vault \<Rightarrow> (move_error + segment list) \<times> vault" where
  "list_policy_segments_on_storage e pid from n w =
     query e n (\<lambda>s. sg_storage s = from \<and> under_policy e pid s) w"

definition batch_dirs :: "path \<Rightarrow> segment list \<Rightarrow> path list" where
  "batch_dirs base batch = remdups (map (\<lambda>s. butlast (base @ sg_path s)) (filter (\<lambda>s. base @ sg_path s \<noteq> []) batch))"

fun create_dirs :: "vault_env \<Rightarrow> path list \<Rightarrow> vault \<Rightarrow> (move_error + unit) \<times> vault" where
  "create_dirs e [] w = (Inr (), w)"
| "create_dirs e (d # ds) w =
     (case create_dir_all e w of
        (Inl er, w1) \<Rightarrow> (Inl er, w1)
      | (Inr _, w1) \<Rightarrow> create_dirs e ds w1)"

type_synonym copy_tally = "copied_seg list \<times> nat \<times> nat"

definition tally_outcome :: "migration_outcome \<Rightarrow> copy_tally \<Rightarrow> copy_tally" where
  "tally_outcome r t =
     (case (r, t) of
        (MigCopied c, copied, skipped, failed) \<Rightarrow> (copied @ [c], skipped, failed)
      | (MigSkipped, copied, skipped, failed) \<Rightarrow> (copied, skipped + 1, failed)
      | (MigFailed, copied, skipped, failed) \<Rightarrow> (copied, skipped, failed + 1))"

fun copy_each ::
  "vault_env \<Rightarrow> path \<Rightarrow> path \<Rightarrow> segment list \<Rightarrow> copy_tally \<times> vault \<Rightarrow> copy_tally \<times> vault" where
  "copy_each e src_root dst_root [] x = x"
| "copy_each e src_root dst_root (seg # segs) (t, w) =
     (let (r, w1) = copy_segment_for_migration e seg src_root dst_root w
      in copy_each e src_root dst_root segs (tally_outcome r t, w1))"

text \<open>\<open>fsync_dir\<close> of every directory of the batch; an error is logged and the batch goes on.\<close>

fun fsync_dirs :: "vault_env \<Rightarrow> copied_seg list \<Rightarrow> path list \<Rightarrow> vault \<Rightarrow> vault" where
  "fsync_dirs e copied [] w = w"
| "fsync_dirs e copied (d # ds) w =
     (let (f, w1) = draw e w in
      fsync_dirs e copied ds
        (if broken f then w1
         else w1\<lparr>synced := synced w1 \<union>
                set (map (\<lambda>c. ve_canon e (cp_dst c))
                  (filter (\<lambda>c. \<not> cp_in_place c \<and> butlast (cp_dst c) = d) copied))\<rparr>))"

definition flips :: "uuid list \<Rightarrow> uuid \<Rightarrow> segment \<Rightarrow> bool" where
  "flips ids from s \<longleftrightarrow> sg_id s \<in> set ids \<and> sg_storage s = from"

definition bulk_update_segment_storage ::
  "vault_env \<Rightarrow> uuid list \<Rightarrow> uuid \<Rightarrow> uuid \<Rightarrow> vault \<Rightarrow> (move_error + uuid list) \<times> vault" where
  "bulk_update_segment_storage e ids to from w =
     (if ids = [] then (Inr [], w)
      else let (f, w1) = draw e w in
        if broken f then (Inl OtherError, w1)
        else (Inr (map sg_id (filter (flips ids from) (index w))),
              w1\<lparr>index := map (\<lambda>s. if flips ids from s then s\<lparr>sg_storage := to\<rparr> else s) (index w)\<rparr>))"

fun clean_each :: "vault_env \<Rightarrow> uuid list \<Rightarrow> copied_seg list \<Rightarrow> int \<times> int \<times> vault \<Rightarrow> int \<times> int \<times> vault" where
  "clean_each e flipped [] x = x"
| "clean_each e flipped (c # cs) (moved, bytes, w) =
     (let hit = cp_id c \<in> set flipped;
          counted = (if hit then (moved + 1, bytes + cp_size c) else (moved, bytes));
          w1 = (if cp_in_place c then w else snd (unlink e (if hit then cp_src c else cp_dst c) w))
      in clean_each e flipped cs (fst counted, snd counted, w1))"

subsection \<open>The job table\<close>

definition set_migration_status ::
  "instant \<Rightarrow> uuid \<Rightarrow> job_status \<Rightarrow> string option \<Rightarrow> storage_migration list \<Rightarrow> storage_migration list" where
  "set_migration_status now i st err jobs =
     map (\<lambda>m. if mj_id m = i then m\<lparr>mj_status := st, mj_error := err, mj_updated := now\<rparr> else m) jobs"

definition set_migration_status_if ::
  "instant \<Rightarrow> uuid \<Rightarrow> job_status \<Rightarrow> job_status \<Rightarrow> string option \<Rightarrow> storage_migration list \<Rightarrow>
     bool \<times> storage_migration list" where
  "set_migration_status_if now i st expected err jobs =
     (list_ex (\<lambda>m. mj_id m = i \<and> mj_status m = expected) jobs,
      map (\<lambda>m. if mj_id m = i \<and> mj_status m = expected
               then m\<lparr>mj_status := st, mj_error := err, mj_updated := now\<rparr> else m) jobs)"

definition get_storage_migration :: "uuid \<Rightarrow> storage_migration list \<Rightarrow> storage_migration option" where
  "get_storage_migration i jobs = find (\<lambda>m. mj_id m = i) jobs"

definition add_migration_progress ::
  "instant \<Rightarrow> uuid \<Rightarrow> int \<Rightarrow> int \<Rightarrow> storage_migration list \<Rightarrow> storage_migration list" where
  "add_migration_progress now i n bytes jobs =
     map (\<lambda>m. if mj_id m = i
              then m\<lparr>mj_moved := mj_moved m + n, mj_bytes := mj_bytes m + bytes, mj_updated := now\<rparr> else m) jobs"

definition retry_migration :: "instant \<Rightarrow> uuid \<Rightarrow> storage_migration list \<Rightarrow> storage_migration list" where
  "retry_migration now i jobs =
     (case get_storage_migration i jobs of
        None \<Rightarrow> jobs
      | Some m \<Rightarrow> if mj_status m \<in> {FailedJob, Cancelled, Running}
                  then set_migration_status now i Pending None jobs else jobs)"

definition cancel_migration :: "instant \<Rightarrow> uuid \<Rightarrow> storage_migration list \<Rightarrow> storage_migration list" where
  "cancel_migration now i jobs =
     (case get_storage_migration i jobs of
        None \<Rightarrow> jobs
      | Some m \<Rightarrow>
          if mj_status m = DoneJob \<or> mj_status m = Cancelled then jobs
          else snd (set_migration_status_if now i Cancelled
                 (if mj_status m = Running then Running else Pending) (Some ''cancelled by operator'') jobs))"

fun serve_request :: "instant \<Rightarrow> migration_request \<Rightarrow> storage_migration list \<Rightarrow> storage_migration list" where
  "serve_request now (Retry i) jobs = retry_migration now i jobs"
| "serve_request now (Cancel i) jobs = cancel_migration now i jobs"

definition serve_requests :: "drain_env \<Rightarrow> vault \<Rightarrow> storage_migration list \<Rightarrow> storage_migration list" where
  "serve_requests de w jobs = fold (serve_request (de_now de (draws w))) (de_requests de (draws w)) jobs"

subsection \<open>The drain\<close>

datatype drain_error = StorageGone | Unconfirmed | Stalled nat nat | CallFailed move_error

type_synonym drain_world = "storage_migration list \<times> vault"

text \<open>One round: \<open>None\<close> goes on with the next batch.\<close>

definition drain_batch ::
  "vault_env \<Rightarrow> drain_env \<Rightarrow> storage_migration \<Rightarrow> path \<Rightarrow> storage_row \<Rightarrow> drain_world \<Rightarrow>
     (drain_error + unit) option \<times> drain_world" where
  "drain_batch e de mig from_root to x =
     (let jobs = serve_requests de (snd x) (fst x);
          (f, w0) = draw e (snd x) in
      if \<not> broken f \<and> (case get_storage_migration (mj_id mig) jobs of None \<Rightarrow> True | Some m \<Rightarrow> mj_status m \<noteq> Running)
      then (Some (Inr ()), jobs, w0)
      else case list_policy_segments_on_storage e (mj_policy mig) (mj_from mig) migration_batch w0 of
        (Inl er, w1) \<Rightarrow> (Some (Inl (CallFailed er)), jobs, w1)
      | (Inr [], w1) \<Rightarrow> (Some (Inr ()), jobs, w1)
      | (Inr batch, w1) \<Rightarrow>
          (case destination_confirmed e to w1 of
             (Inl er, w2) \<Rightarrow> (Some (Inl (CallFailed er)), jobs, w2)
           | (Inr False, w2) \<Rightarrow> (Some (Inl Unconfirmed), jobs, raise_storage_event e w2)
           | (Inr True, w2) \<Rightarrow>
               (let dirs = batch_dirs (st_path to) batch in
                case create_dirs e dirs w2 of
                  (Inl er, w3) \<Rightarrow> (Some (Inl (CallFailed er)), jobs, w3)
                | (Inr _, w3) \<Rightarrow>
                    let ((copied, skipped, failed), w4) = copy_each e from_root (st_path to) batch (([], 0, 0), w3);
                        w5 = fsync_dirs e copied dirs w4;
                        w6 = de_meanwhile de (draws w5) w5 in
                    case bulk_update_segment_storage e (map cp_id copied) (mj_to mig) (mj_from mig) w6 of
                      (Inl er, w7) \<Rightarrow> (Some (Inl (CallFailed er)), jobs, w7)
                    | (Inr flipped, w7) \<Rightarrow>
                        let (moved, bytes, w8) = clean_each e flipped copied (0, 0, w7) in
                        if 0 < moved then
                          (let w9 = ensure_marker e (st_path to) w8; (g, w10) = draw e w9 in
                           if broken g then (Some (Inl (CallFailed OtherError)), jobs, w10)
                           else (None, add_migration_progress (de_now de (draws w9)) (mj_id mig) moved bytes jobs, w10))
                        else if failed = 0 \<and> 0 < skipped then (Some (Inr ()), jobs, w8)
                        else (Some (Inl (Stalled failed skipped)), jobs, w8))))"

fun drain_loop ::
  "vault_env \<Rightarrow> drain_env \<Rightarrow> storage_migration \<Rightarrow> path \<Rightarrow> storage_row \<Rightarrow> nat \<Rightarrow> drain_world \<Rightarrow>
     (drain_error + unit) option \<times> drain_world" where
  "drain_loop e de mig from_root to 0 x = (None, x)"
| "drain_loop e de mig from_root to (Suc k) x =
     (case drain_batch e de mig from_root to x of
        (None, y) \<Rightarrow> drain_loop e de mig from_root to k y
      | (r, y) \<Rightarrow> (r, y))"

definition run_storage_migration ::
  "vault_env \<Rightarrow> drain_env \<Rightarrow> nat \<Rightarrow> storage_migration \<Rightarrow> drain_world \<Rightarrow> (drain_error + unit) option \<times> drain_world"
where
  "run_storage_migration e de k mig x =
     (case get_storage e (mj_from mig) (snd x) of
        (Inl er, w1) \<Rightarrow> (Some (Inl (CallFailed er)), fst x, w1)
      | (Inr None, w1) \<Rightarrow> (Some (Inl StorageGone), fst x, w1)
      | (Inr (Some from), w1) \<Rightarrow>
          (case get_storage e (mj_to mig) w1 of
             (Inl er, w2) \<Rightarrow> (Some (Inl (CallFailed er)), fst x, w2)
           | (Inr None, w2) \<Rightarrow> (Some (Inl StorageGone), fst x, w2)
           | (Inr (Some to), w2) \<Rightarrow> drain_loop e de mig (st_path from) to k (fst x, w2)))"

end
