(* ===== verification/MigrationSafety.thy ===== *)
theory MigrationSafety
  imports Migration
begin

text \<open>
  What the drain keeps. A row is followed through the batches: it is where it was with its bytes, or on
  the new storage with a copy. \<open>roam\<close> are the files a row may have under any root with its relative path,
  \<open>apart\<close> the index in which no two rows can meet, and \<open>leaves_alone\<close> what the other loops do to the row
  that is followed while the drain does not hold the lock: nothing (the others are theirs).
\<close>

definition roam :: "vault_env \<Rightarrow> segment \<Rightarrow> path set" where
  "roam e s = (\<lambda>st. ve_canon e (st_path st @ sg_path s)) ` set (ve_storages e)"

definition apart :: "vault_env \<Rightarrow> segment list \<Rightarrow> bool" where
  "apart e ss \<longleftrightarrow> distinct (map sg_id ss) \<and> (\<forall>s \<in> set ss. roam e s \<inter> marker_files e = {}) \<and>
     (\<forall>s \<in> set ss. \<forall>t \<in> set ss. sg_id s \<noteq> sg_id t \<longrightarrow> roam e s \<inter> roam e t = {})"

definition no_mangle :: "vault_env \<Rightarrow> bool" where
  "no_mangle e \<longleftrightarrow> (\<forall>n m. ve_fault e n \<noteq> Mangled m)"

definition forms_of :: "uuid \<Rightarrow> segment \<Rightarrow> segment set" where
  "forms_of to s = {s, s\<lparr>sg_storage := to\<rparr>}"

definition copy_of :: "vault_env \<Rightarrow> bytes \<Rightarrow> bytes \<Rightarrow> bool" where
  "copy_of e b b' \<longleftrightarrow> length b' = length b \<and> (no_mangle e \<longrightarrow> b' = b)"

definition drained :: "vault_env \<Rightarrow> uuid \<Rightarrow> segment \<Rightarrow> bytes \<Rightarrow> vault \<Rightarrow> bool" where
  "drained e to s b v \<longleftrightarrow>
     (\<exists>t \<in> forms_of to s. t \<in> set (index v) \<and>
        (\<exists>q b'. spot e t = Some q \<and> disk v q = Some b' \<and> copy_of e b b' \<and> (t = s \<longrightarrow> b' = b)))"

definition leaves_alone :: "vault_env \<Rightarrow> drain_env \<Rightarrow> uuid \<Rightarrow> segment \<Rightarrow> bool" where
  "leaves_alone e de to s \<longleftrightarrow>
     (\<forall>n v. (\<forall>t \<in> forms_of to s. t \<in> set (index v) \<longrightarrow> t \<in> set (index (de_meanwhile de n v))) \<and>
        (\<forall>q \<in> roam e s. disk (de_meanwhile de n v) q = disk v q) \<and>
        (apart e (index v) \<longrightarrow> apart e (index (de_meanwhile de n v))))"

lemma copy_of_refl [simp]: "copy_of e b b"
  by (simp add: copy_of_def)

lemma copy_of_trans: "copy_of e a b \<Longrightarrow> copy_of e b c \<Longrightarrow> copy_of e a c"
  by (simp add: copy_of_def)

lemma forms_simps:
  "t \<in> forms_of to s \<Longrightarrow> sg_id t = sg_id s \<and> sg_path t = sg_path s \<and> roam e t = roam e s \<and> t\<lparr>sg_storage := to\<rparr> \<in> forms_of to s"
  by (auto simp: forms_of_def roam_def)

lemma spot_roam: "spot e t = Some q \<Longrightarrow> q \<in> roam e t"
  using storage_of_mem by (auto simp: spot_def roam_def)

lemma root_roam: "storage_of e i = Some st \<Longrightarrow> ve_canon e (st_path st @ sg_path s) \<in> roam e s"
  using storage_of_mem by (auto simp: roam_def)

lemma drained_frame:
  assumes "drained e to s b v" and "\<And>t. t \<in> forms_of to s \<Longrightarrow> t \<in> set (index v) \<Longrightarrow> t \<in> set (index v')"
    and "\<And>q. q \<in> roam e s \<Longrightarrow> disk v' q = disk v q"
  shows "drained e to s b v'"
proof -
  obtain t q b' where t: "t \<in> forms_of to s" "t \<in> set (index v)" "spot e t = Some q" "disk v q = Some b'" "copy_of e b b'"
    "t = s \<longrightarrow> b' = b" using assms(1) by (auto simp: drained_def)
  have "q \<in> roam e s" using spot_roam [OF t(3)] forms_simps [OF t(1)] by simp
  then show ?thesis using t assms(2) [OF t(1,2)] assms(3) unfolding drained_def by metis
qed

subsection \<open>One segment\<close>

lemma copy_content:
  assumes "copy_with_crc32 e src dst w = (Inr (n, c), w')" and "ve_canon e src \<noteq> ve_canon e dst" and "no_mangle e"
  shows "disk w' (ve_canon e dst) = disk w (ve_canon e src)"
  using assms
  by (auto simp: copy_with_crc32_def draw_def put_file_def Let_def no_mangle_def case_prod_beta
      split: option.splits disk_fault.splits if_splits)

lemma fsync_only_frame [simp]:
  "disk (snd (fsync_file_only e p w)) = disk w" "index (snd (fsync_file_only e p w)) = index w"
  by (simp_all add: fsync_file_only_def draw_def)

lemma copy_segment_frame:
  assumes "copy_segment_for_migration e seg from_root to_root w = (r, w')"
  shows "index w' = index w" "q \<noteq> ve_canon e (to_root @ sg_path seg) \<Longrightarrow> disk w' q = disk w q"
  using assms
  by (auto simp: copy_segment_for_migration_def Let_def case_prod_beta prod_eq_iff unlink_other copy_other
      split: if_splits sum.splits option.splits)

definition copied_as :: "segment \<Rightarrow> path \<Rightarrow> path \<Rightarrow> copied_seg \<Rightarrow> bool" where
  "copied_as s from_root to_root c \<longleftrightarrow>
     cp_id c = sg_id s \<and> cp_src c = from_root @ sg_path s \<and> cp_dst c = to_root @ sg_path s"

lemma copy_segment_copied:
  assumes "copy_segment_for_migration e seg from_root to_root w = (r, w')"
    and "src = ve_canon e (from_root @ sg_path seg)" and "dst = ve_canon e (to_root @ sg_path seg)"
    and "src \<noteq> dst \<or> (\<forall>n. \<not> ve_stat_fails e n)"
  shows "disk w' src = disk w src"
    "r = MigCopied c \<Longrightarrow> copied_as seg from_root to_root c \<and> (cp_in_place c \<longrightarrow> src = dst) \<and>
       (\<not> cp_in_place c \<longrightarrow> src \<noteq> dst \<and> (\<exists>b b'. disk w src = Some b \<and> disk w' dst = Some b' \<and> copy_of e b b'))"
proof -
  let ?s = "from_root @ sg_path seg" let ?d = "to_root @ sg_path seg"
  obtain there w1 where fe: "file_exists e ?s w = (there, w1)" by force
  have w1: "disk w1 = disk w" using file_exists_frame(1) [of e ?s w] fe by simp
  obtain same w2 where sf: "same_file e ?s ?d w1 = (same, w2)" by force
  have w2: "disk w2 = disk w" using same_file_frame(1) [of e ?s ?d w1] sf w1 by simp
  have main: "disk w' src = disk w src \<and> (\<forall>c. r = MigCopied c \<longrightarrow> copied_as seg from_root to_root c \<and> (cp_in_place c \<longrightarrow> src = dst) \<and>
       (\<not> cp_in_place c \<longrightarrow> src \<noteq> dst \<and> (\<exists>b b'. disk w src = Some b \<and> disk w' dst = Some b' \<and> copy_of e b b')))"
  proof (cases "there = Some True")
    case False
    then show ?thesis using assms(1) fe w1 by (simp add: copy_segment_for_migration_def Let_def)
  next
    case there: True
    then have here: "disk w src \<noteq> None" using fe assms(2) by (auto simp: file_exists_def draw_def split: if_splits)
    show ?thesis
    proof (cases same)
      case True
      then have "src = dst" using same_file_sound [of e ?s ?d w1 w2] sf assms(2,3) by simp
      then show ?thesis
        using assms(1) fe there sf True w2 by (auto simp: copy_segment_for_migration_def Let_def copied_as_def)
    next
      case False
      have ne: "src \<noteq> dst"
        using assms(4) same_file_complete [of e ?s ?d w1 w2] sf False here w1 assms(2,3) by auto
      have kept: "disk w' src = disk w src" using copy_segment_frame(2) [OF assms(1), of src] ne assms(3) by simp
      obtain x w3 where cp: "copy_with_crc32 e ?s ?d w2 = (x, w3)" by force
      show ?thesis
      proof (cases x)
        case (Inl er)
        then have "fst (copy_segment_for_migration e seg from_root to_root w) = MigFailed"
          using fe there sf False cp by (simp add: copy_segment_for_migration_def Let_def case_prod_beta)
        then show ?thesis using kept assms(1) by simp
      next
        case (Inr y)
        obtain n crc where y: "y = (n, crc)" by force
        obtain b where b: "disk w src = Some b" "n = length b"
          using copy_ok [of e ?s ?d w2 n crc w3] cp Inr y ne w2 assms(2,3) by auto
        obtain k w4 where ml: "metadata_len e ?d w3 = (k, w4)" by force
        have w4: "disk w4 = disk w3" using metadata_len_frame(1) [of e ?d w3] ml by simp
        obtain ok w5 where fs: "fsync_file_only e ?d w4 = (ok, w5)" by force
        have w5: "disk w5 = disk w3" using fsync_only_frame(1) [of e ?d w4] fs w4 by simp
        show ?thesis
        proof (cases "k = Some n \<and> n = as_u64 (sg_size seg) \<and> ok")
          case False
          then have "fst (copy_segment_for_migration e seg from_root to_root w) = MigFailed"
            using fe there sf \<open>\<not> same\<close> cp Inr y ml fs
            by (auto simp: copy_segment_for_migration_def Let_def case_prod_beta split: option.splits)
          then show ?thesis using kept assms(1) by simp
        next
          case True
          then have r: "r = MigCopied \<lparr>cp_id = sg_id seg, cp_src = ?s, cp_dst = ?d, cp_size = sg_size seg, cp_in_place = False\<rparr>" "w' = w5"
            using assms(1) fe there sf \<open>\<not> same\<close> cp Inr y ml fs by (auto simp: copy_segment_for_migration_def Let_def)
          obtain b' where b': "disk w3 dst = Some b'" "length b' = n"
            using metadata_len_some [of e ?d w3 n] ml True assms(3) by auto
          have "no_mangle e \<longrightarrow> b' = b"
            using copy_content [of e ?s ?d w2 n crc w3] cp Inr y ne b(1) b'(1) w2 assms(2,3) by simp
          then have "copy_of e b b'" using b' b by (simp add: copy_of_def)
          then show ?thesis using r kept b(1) b'(1) w5 ne by (auto simp: copied_as_def)
        qed
      qed
    qed
  qed
  show "disk w' src = disk w src" using main by blast
  show "r = MigCopied c \<Longrightarrow> copied_as seg from_root to_root c \<and> (cp_in_place c \<longrightarrow> src = dst) \<and>
       (\<not> cp_in_place c \<longrightarrow> src \<noteq> dst \<and> (\<exists>b b'. disk w src = Some b \<and> disk w' dst = Some b' \<and> copy_of e b b'))"
    using main by blast
qed

subsection \<open>The copies of a batch\<close>

lemma tally_copied: "fst (tally_outcome r t) = (case r of MigCopied c \<Rightarrow> fst t @ [c] | _ \<Rightarrow> fst t)"
  by (cases t) (auto simp: tally_outcome_def split: migration_outcome.split)

lemma copy_each_step:
  assumes "copy_segment_for_migration e x F T w = (r, w1)"
  shows "copy_each e F T (x # segs) (t, w) = copy_each e F T segs (tally_outcome r t, w1)"
  using assms by simp

lemma copy_each_frame:
  assumes "copy_each e F T segs (t, w) = (t', w')"
  shows "index w' = index w" "(\<And>x. x \<in> set segs \<Longrightarrow> q \<noteq> ve_canon e (T @ sg_path x)) \<Longrightarrow> disk w' q = disk w q"
proof -
  have "index w' = index w \<and> ((\<forall>x \<in> set segs. q \<noteq> ve_canon e (T @ sg_path x)) \<longrightarrow> disk w' q = disk w q)"
    using assms
  proof (induction segs arbitrary: t w)
    case (Cons x segs)
    obtain r w1 where r: "copy_segment_for_migration e x F T w = (r, w1)" by force
    have "copy_each e F T segs (tally_outcome r t, w1) = (t', w')"
      using Cons.prems unfolding copy_each_step [OF r] .
    from Cons.IH [OF this] show ?case using copy_segment_frame [OF r] by auto
  qed simp
  then show "index w' = index w" "(\<And>x. x \<in> set segs \<Longrightarrow> q \<noteq> ve_canon e (T @ sg_path x)) \<Longrightarrow> disk w' q = disk w q"
    by blast+
qed

lemma copy_each_copied:
  assumes "copy_each e F T segs (t, w) = (t', w')"
    and "\<And>x. x \<in> set segs \<Longrightarrow> ve_canon e (F @ sg_path x) \<noteq> ve_canon e (T @ sg_path x) \<or> (\<forall>n. \<not> ve_stat_fails e n)"
  shows "\<exists>new. fst t' = fst t @ new \<and> (\<forall>c \<in> set new. \<exists>x \<in> set segs. copied_as x F T c)"
  using assms
proof (induction segs arbitrary: t w)
  case (Cons x segs)
  obtain r w1 where r: "copy_segment_for_migration e x F T w = (r, w1)" by force
  have "copy_each e F T segs (tally_outcome r t, w1) = (t', w')"
    using Cons.prems(1) unfolding copy_each_step [OF r] .
  from Cons.IH [OF this] obtain new where new: "fst t' = fst (tally_outcome r t) @ new" "\<forall>c \<in> set new. \<exists>x \<in> set segs. copied_as x F T c"
    using Cons.prems(2) by auto
  have here: "copied_as x F T c" if "r = MigCopied c" for c
    using copy_segment_copied(2) [OF r refl refl] Cons.prems(2) [of x] that by simp
  show ?case
  proof (cases "\<exists>c. r = MigCopied c")
    case True
    then obtain c where "r = MigCopied c" by blast
    then show ?thesis using new here by (intro exI [of _ "c # new"]) (auto simp: tally_copied)
  next
    case False
    then show ?thesis using new by (intro exI [of _ new]) (auto simp: tally_copied split: migration_outcome.splits)
  qed
qed (auto intro: exI [of _ "[]"])

text \<open>The copy of one segment of the batch, at the end of the copy phase.\<close>

definition copy_good :: "vault_env \<Rightarrow> path \<Rightarrow> path \<Rightarrow> bytes option \<Rightarrow> vault \<Rightarrow> copied_seg \<Rightarrow> bool" where
  "copy_good e src dst content v c \<longleftrightarrow> (cp_in_place c \<longrightarrow> src = dst) \<and>
     (\<not> cp_in_place c \<longrightarrow> src \<noteq> dst \<and> (\<exists>b b'. content = Some b \<and> disk v dst = Some b' \<and> copy_of e b b'))"

lemma copy_each_tracked:
  assumes "copy_each e F T segs (tl0, w) = (tl1, w')" and "distinct (map sg_id segs)" and "t \<in> set segs"
    and "src = ve_canon e (F @ sg_path t)" and "dst = ve_canon e (T @ sg_path t)"
    and "\<And>x. x \<in> set segs \<Longrightarrow> sg_id x \<noteq> sg_id t \<Longrightarrow> ve_canon e (T @ sg_path x) \<notin> {src, dst}"
    and "src \<noteq> dst \<or> (\<forall>n. \<not> ve_stat_fails e n)"
    and "\<And>x. x \<in> set segs \<Longrightarrow> ve_canon e (F @ sg_path x) \<noteq> ve_canon e (T @ sg_path x) \<or> (\<forall>n. \<not> ve_stat_fails e n)"
    and "\<forall>c \<in> set (fst tl0). cp_id c \<noteq> sg_id t"
  shows "disk w' src = disk w src \<and> (\<forall>c \<in> set (fst tl1). cp_id c = sg_id t \<longrightarrow> copied_as t F T c \<and> copy_good e src dst (disk w src) w' c)"
  using assms(1-3,6,8,9)
proof (induction segs arbitrary: tl0 w)
  case (Cons x segs)
  obtain r w1 where r: "copy_segment_for_migration e x F T w = (r, w1)" by force
  have rest: "copy_each e F T segs (tally_outcome r tl0, w1) = (tl1, w')"
    using Cons.prems(1) unfolding copy_each_step [OF r] .
  note fr = copy_each_frame [OF rest]
  show ?case
  proof (cases "sg_id x = sg_id t")
    case True
    then have x: "x = t" and notin: "\<And>y. y \<in> set segs \<Longrightarrow> sg_id y \<noteq> sg_id t"
      using Cons.prems(2,3) by (auto simp: image_iff)
    have later: "disk w' q = disk w1 q" if "q \<in> {src, dst}" for q
      by (rule fr(2)) (use Cons.prems(4) notin that in auto)
    note cs = copy_segment_copied [OF r [unfolded x] assms(4,5,7)]
    obtain new where new: "fst tl1 = fst (tally_outcome r tl0) @ new" "\<forall>c \<in> set new. \<exists>y \<in> set segs. copied_as y F T c"
      using copy_each_copied [OF rest] Cons.prems(5) by auto
    have "copied_as t F T c \<and> copy_good e src dst (disk w src) w' c" if c: "c \<in> set (fst tl1)" "cp_id c = sg_id t" for c
    proof -
      have "c \<notin> set new" using new(2) notin c(2) by (auto simp: copied_as_def)
      then have "r = MigCopied c"
        using c new(1) Cons.prems(6) by (auto simp: tally_copied split: migration_outcome.splits)
      then show ?thesis using cs(2) [of c] later by (auto simp: copy_good_def)
    qed
    then show ?thesis using cs(1) later by simp
  next
    case False
    have same: "disk w1 q = disk w q" if "q \<in> {src, dst}" for q
      by (rule copy_segment_frame(2) [OF r]) (use Cons.prems(4) [of x] False that in auto)
    have "\<forall>c \<in> set (fst (tally_outcome r tl0)). cp_id c \<noteq> sg_id t"
      using Cons.prems(6) False copy_segment_copied(2) [OF r refl refl] Cons.prems(5) [of x]
      by (auto simp: tally_copied copied_as_def split: migration_outcome.splits)
    from Cons.IH [OF rest _ _ _ _ this] show ?thesis using Cons.prems False same by auto
  qed
qed simp

subsection \<open>Flip and clean-up\<close>

lemma fsync_dirs_frame [simp]:
  "disk (fsync_dirs e copied ds w) = disk w" "index (fsync_dirs e copied ds w) = index w"
proof -
  have "disk (fsync_dirs e copied ds w) = disk w \<and> index (fsync_dirs e copied ds w) = index w"
    by (induction ds arbitrary: w) (auto simp: draw_def Let_def)
  then show "disk (fsync_dirs e copied ds w) = disk w" "index (fsync_dirs e copied ds w) = index w" by simp_all
qed

lemma clean_each_frame:
  assumes "clean_each e flipped cs (m, b, w) = (m', b', w')"
  shows "index w' = index w"
    "(\<And>c. c \<in> set cs \<Longrightarrow> \<not> cp_in_place c \<Longrightarrow>
        q \<noteq> ve_canon e (if cp_id c \<in> set flipped then cp_src c else cp_dst c)) \<Longrightarrow> disk w' q = disk w q"
proof -
  have "index w' = index w \<and>
      ((\<forall>c \<in> set cs. \<not> cp_in_place c \<longrightarrow> q \<noteq> ve_canon e (if cp_id c \<in> set flipped then cp_src c else cp_dst c)) \<longrightarrow>
        disk w' q = disk w q)"
    using assms
  proof (induction cs arbitrary: m b w)
    case (Cons c cs)
    define w1 where "w1 = (if cp_in_place c then w else snd (unlink e (if cp_id c \<in> set flipped then cp_src c else cp_dst c) w))"
    obtain m1 b1 where st: "clean_each e flipped (c # cs) (m, b, w) = clean_each e flipped cs (m1, b1, w1)"
      by (simp add: Let_def w1_def)
    have "clean_each e flipped cs (m1, b1, w1) = (m', b', w')" using Cons.prems unfolding st .
    from Cons.IH [OF this] show ?case by (auto simp: w1_def unlink_other split: if_splits)
  qed simp
  then show "index w' = index w"
    "(\<And>c. c \<in> set cs \<Longrightarrow> \<not> cp_in_place c \<Longrightarrow>
        q \<noteq> ve_canon e (if cp_id c \<in> set flipped then cp_src c else cp_dst c)) \<Longrightarrow> disk w' q = disk w q"
    by blast+
qed

lemma bulk_update_cases:
  assumes "bulk_update_segment_storage e ids to from w = (r, w')"
  obtains er where "r = Inl er" "disk w' = disk w" "index w' = index w"
    | "r = Inr (map sg_id (filter (flips ids from) (index w)))" "disk w' = disk w"
      "index w' = map (\<lambda>s. if flips ids from s then s\<lparr>sg_storage := to\<rparr> else s) (index w)"
proof (cases "ids = []")
  case True
  then have "filter (flips ids from) (index w) = []" "map (\<lambda>s. if flips ids from s then s\<lparr>sg_storage := to\<rparr> else s) (index w) = index w"
    by (simp_all add: flips_def)
  then show thesis using that(2) assms True by (simp add: bulk_update_segment_storage_def)
next
  case False
  obtain f w1 where d: "draw e w = (f, w1)" by force
  have w1: "disk w1 = disk w" "index w1 = index w" using draw_frame [of e w] d by simp_all
  show thesis
  proof (cases "broken f")
    case True
    then show thesis using that(1) [of OtherError] assms False d w1 by (simp add: bulk_update_segment_storage_def)
  next
    case ok: False
    then show thesis using that(2) assms False d w1 by (auto simp: bulk_update_segment_storage_def)
  qed
qed

subsection \<open>One batch\<close>

lemma create_dirs_frame:
  "create_dirs e ds w = (r, w') \<Longrightarrow> disk w' = disk w \<and> index w' = index w"
proof (induction ds arbitrary: w)
  case (Cons d ds)
  obtain x w1 where c: "create_dir_all e w = (x, w1)" by force
  have "disk w1 = disk w" "index w1 = index w" using create_dir_all_frame [of e w] c by simp_all
  then show ?case using Cons c by (cases x) auto
qed simp

definition on_old_storage :: "vault_env \<Rightarrow> storage_migration \<Rightarrow> segment \<Rightarrow> bool" where
  "on_old_storage e mig s \<longleftrightarrow> sg_storage s = mj_from mig \<and> under_policy e (mj_policy mig) s"

text \<open>What a batch did when it cleaned up: nothing moved, or the marker of the new storage is written.\<close>

definition cleaned_up ::
  "vault_env \<Rightarrow> path \<Rightarrow> uuid list \<Rightarrow> copied_seg list \<Rightarrow> vault \<Rightarrow> (drain_error + unit) option \<Rightarrow> vault \<Rightarrow> bool" where
  "cleaned_up e to_root flipped copied w7 r w' \<longleftrightarrow>
     (\<exists>moved bytes w8. clean_each e flipped copied (0, 0, w7) = (moved, bytes, w8) \<and> index w' = index w8 \<and>
        (moved \<le> 0 \<and> r \<noteq> None \<and> disk w' = disk w8 \<or> 0 < moved \<and> disk w' = disk (ensure_marker e to_root w8)))"

lemma drain_batch_cases:
  assumes run: "drain_batch e de mig F to (jobs, w) = (r, jobs', w')"
  obtains
    (quiet) "disk w' = disk w" "index w' = index w" "r \<noteq> None"
  | (work) batch w3 copied sk fl w4 w5 x w7 where
      "disk w3 = disk w" "index w3 = index w" "batch = oldest_first migration_batch (on_old_storage e mig) (index w)" "batch \<noteq> []"
      "copy_each e F (st_path to) batch (([], 0, 0), w3) = ((copied, sk, fl), w4)"
      "disk w5 = disk w4" "index w5 = index w4"
      "bulk_update_segment_storage e (map cp_id copied) (mj_to mig) (mj_from mig) (de_meanwhile de (draws w5) w5) = (x, w7)"
      "\<And>er. x = Inl er \<Longrightarrow> w' = w7 \<and> r \<noteq> None"
      "\<And>flipped. x = Inr flipped \<Longrightarrow> cleaned_up e (st_path to) flipped copied w7 r w'"
proof -
  define jobs1 where "jobs1 = serve_requests de w jobs"
  obtain f w0 where d: "draw e w = (f, w0)" by force
  have w0: "disk w0 = disk w" "index w0 = index w" using draw_frame [of e w] d by simp_all
  define off where "off \<longleftrightarrow> \<not> broken f \<and> (case get_storage_migration (mj_id mig) jobs1 of None \<Rightarrow> True | Some m \<Rightarrow> mj_status m \<noteq> Running)"
  obtain l w1 where ls: "list_policy_segments_on_storage e (mj_policy mig) (mj_from mig) migration_batch w0 = (l, w1)" by force
  have w1: "disk w1 = disk w" "index w1 = index w"
    using ls w0 by (auto simp: list_policy_segments_on_storage_def query_def draw_def)
  note start = run [unfolded drain_batch_def fst_conv snd_conv jobs1_def [symmetric] d, unfolded Let_def prod.case, folded off_def]
  show thesis
  proof (cases "off \<or> (\<forall>b bs. l \<noteq> Inr (b # bs))")
    case True
    have "w' \<in> {w0, w1}" "r \<noteq> None"
      using start ls True by (auto split: if_splits sum.splits list.splits)
    then show thesis using quiet w0 w1 by auto
  next
    case False
    then obtain b bs where l: "l = Inr (b # bs)" and on: "\<not> off" by auto
    have batch: "b # bs = oldest_first migration_batch (on_old_storage e mig) (index w)"
      using query_ok(1) [of e migration_batch _ w0 "b # bs" w1] ls l w0
      unfolding list_policy_segments_on_storage_def on_old_storage_def by auto
    obtain c w2 where dc: "destination_confirmed e to w1 = (c, w2)" by force
    note w2 = destination_frame [OF dc]
    show thesis
    proof (cases "c = Inr True")
      case False
      have "(r, jobs', w') \<in> {(Some (Inl (CallFailed er)), jobs1, w2) | er. True} \<union> {(Some (Inl Unconfirmed), jobs1, raise_storage_event e w2)}"
        using start ls l on dc False by (auto split: sum.splits bool.splits)
      then show thesis using quiet w1 w2 by auto
    next
      case True
      obtain y w3 where cr: "create_dirs e (batch_dirs (st_path to) (b # bs)) w2 = (y, w3)" by force
      have w3: "disk w3 = disk w" "index w3 = index w" using create_dirs_frame [OF cr] w2 w1 by simp_all
      show thesis
      proof (cases y)
        case (Inl er)
        have "(r, jobs', w') = (Some (Inl (CallFailed er)), jobs1, w3)"
          using start ls l on dc True cr Inl by simp
        then show thesis using quiet w3 by simp
      next
        case (Inr u)
        obtain copied sk fl w4 where ce: "copy_each e F (st_path to) (b # bs) (([], 0, 0), w3) = ((copied, sk, fl), w4)"
          by (metis prod_cases4 surj_pair)
        define w5 where "w5 = fsync_dirs e copied (batch_dirs (st_path to) (b # bs)) w4"
        obtain x w7 where bu: "bulk_update_segment_storage e (map cp_id copied) (mj_to mig) (mj_from mig)
            (de_meanwhile de (draws w5) w5) = (x, w7)" by force
        have tail: "(r, jobs', w') = (case (x, w7) of
              (Inl er, w7) \<Rightarrow> (Some (Inl (CallFailed er)), jobs1, w7)
            | (Inr flipped, w7) \<Rightarrow>
                (case clean_each e flipped copied (0, 0, w7) of (moved, bytes, w8) \<Rightarrow>
                   if 0 < moved then
                     (case draw e (ensure_marker e (st_path to) w8) of (g, w10) \<Rightarrow>
                        if broken g then (Some (Inl (CallFailed OtherError)), jobs1, w10)
                        else (None, add_migration_progress (de_now de (draws (ensure_marker e (st_path to) w8))) (mj_id mig) moved bytes jobs1, w10))
                   else if fl = 0 \<and> 0 < sk then (Some (Inr ()), jobs1, w8)
                   else (Some (Inl (Stalled fl sk)), jobs1, w8)))"
          using start ls l on dc True cr Inr ce bu unfolding w5_def by (simp cong: if_cong)
        show thesis
        proof (rule work [OF w3 batch _ ce _ _ bu])
          show "b # bs \<noteq> []" by simp
          show "disk w5 = disk w4" "index w5 = index w4" by (simp_all add: w5_def)
          show "w' = w7 \<and> r \<noteq> None" if "x = Inl er" for er using tail that by simp
          show "cleaned_up e (st_path to) flipped copied w7 r w'" if x: "x = Inr flipped" for flipped
          proof -
            obtain moved bytes w8 where cl: "clean_each e flipped copied (0, 0, w7) = (moved, bytes, w8)" by (metis prod_cases3)
            obtain g w10 where dr: "draw e (ensure_marker e (st_path to) w8) = (g, w10)" by force
            have w10: "disk w10 = disk (ensure_marker e (st_path to) w8)" "index w10 = index w8"
              using draw_frame [of e "ensure_marker e (st_path to) w8"] dr by simp_all
            show ?thesis
              using tail x cl dr w10 unfolding cleaned_up_def by (auto split: if_splits)
          qed
        qed
      qed
    qed
  qed
qed

text \<open>Source and destination of a segment are two files, or the same-file guard can be relied on.\<close>

definition guard_works :: "vault_env \<Rightarrow> path \<Rightarrow> path \<Rightarrow> bool" where
  "guard_works e F T \<longleftrightarrow> (\<forall>p. ve_canon e (F @ p) \<noteq> ve_canon e (T @ p)) \<or> (\<forall>n. \<not> ve_stat_fails e n)"

lemma flip_apart:
  assumes "apart e ss"
  shows "apart e (map (\<lambda>s. if flips ids from s then s\<lparr>sg_storage := to\<rparr> else s) ss)"
proof -
  define f where "f = (\<lambda>s. if flips ids from s then s\<lparr>sg_storage := to\<rparr> else s)"
  have f: "sg_id (f s) = sg_id s" "roam e (f s) = roam e s" for s by (simp_all add: f_def roam_def)
  then have "sg_id \<circ> f = sg_id" by auto
  then have "apart e (map f ss)" using assms unfolding apart_def by (auto simp: f)
  then show ?thesis by (simp add: f_def)
qed

lemma drain_batch_keeps:
  assumes run: "drain_batch e de mig (st_path from) to (jobs, w) = (r, jobs', w')"
    and old: "storage_of e (mj_from mig) = Some from" and new: "storage_of e (mj_to mig) = Some to"
    and ap: "apart e (index w)" and alone: "leaves_alone e de (mj_to mig) s"
    and guard: "guard_works e (st_path from) (st_path to)" and dr: "drained e (mj_to mig) s b w"
  shows "drained e (mj_to mig) s b w' \<and> apart e (index w')"
  using run
proof (cases rule: drain_batch_cases)
  case quiet
  then show ?thesis using drained_frame [OF dr] ap by simp
next
  case (work batch w3 copied sk fl w4 w5 x w7)
  let ?F = "st_path from" and ?T = "st_path to"
  define w6 where "w6 = de_meanwhile de (draws w5) w5"
  have g: "ve_canon e (?F @ sg_path y) \<noteq> ve_canon e (?T @ sg_path y) \<or> (\<forall>n. \<not> ve_stat_fails e n)" for y
    using guard by (auto simp: guard_works_def)
  obtain t q b' where t: "t \<in> forms_of (mj_to mig) s" "t \<in> set (index w)" "spot e t = Some q" "disk w q = Some b'"
    "copy_of e b b'" "t = s \<longrightarrow> b' = b" using dr by (auto simp: drained_def)
  note tf = forms_simps [OF t(1)]
  have ids: "distinct (map sg_id (index w))" using ap by (simp add: apart_def)
  have batch: "set batch \<subseteq> set (index w)" "\<And>y. y \<in> set batch \<Longrightarrow> sg_storage y = mj_from mig" "distinct (map sg_id batch)"
    using work(3) oldest_first_subset [of migration_batch "on_old_storage e mig" "index w"] oldest_first_distinct [OF ids]
    by (auto simp: on_old_storage_def)
  have same: "y = t" if "y \<in> set batch" "sg_id y = sg_id s" for y
    using id_unique [OF ids, of y t] that batch(1) t(2) tf by auto
  have far: "roam e y \<inter> roam e s = {}" if "y \<in> set batch" "sg_id y \<noteq> sg_id s" for y
    using ap that batch(1) t(2) tf unfolding apart_def by (metis subsetD)
  have mark: "ve_canon e (storage_marker_path ?T) \<notin> roam e s"
    using ap t(2) tf storage_of_mem [OF new] unfolding apart_def marker_files_def by (metis disjoint_iff image_eqI)
  have cps: "\<exists>y \<in> set batch. copied_as y ?F ?T c" if "c \<in> set copied" for c
    using copy_each_copied [OF work(5) g] that by auto
  have away: "ve_canon e (cp_src c) \<notin> roam e s \<and> ve_canon e (cp_dst c) \<notin> roam e s"
    if c: "c \<in> set copied" "cp_id c \<noteq> sg_id s" for c
  proof -
    obtain y where y: "y \<in> set batch" "copied_as y ?F ?T c" using cps c(1) by blast
    then have "ve_canon e (cp_src c) \<in> roam e y" "ve_canon e (cp_dst c) \<in> roam e y"
      using root_roam [OF old, of y] root_roam [OF new, of y] by (simp_all add: copied_as_def)
    then show ?thesis using far [OF y(1)] y(2) c(2) by (auto simp: copied_as_def)
  qed
  have ix: "index w5 = index w" using work(2,7) copy_each_frame(1) [OF work(5)] by simp
  have hook: "\<And>u. u \<in> forms_of (mj_to mig) s \<Longrightarrow> u \<in> set (index w5) \<Longrightarrow> u \<in> set (index w6)"
    "\<And>p. p \<in> roam e s \<Longrightarrow> disk w6 p = disk w5 p" "apart e (index w6)"
    using alone ap ix unfolding leaves_alone_def w6_def by simp_all
  have t6: "t \<in> set (index w6)" using hook(1) [OF t(1)] t(2) ix by simp
  have q: "q \<in> roam e s" using spot_roam [OF t(3)] tf by simp
  note bulk = work(8) [folded w6_def]
  have fin: "disk w' p = disk w8 p" if "cleaned_up e ?T flipped copied w7 r w'" "p \<in> roam e s"
      "clean_each e flipped copied (0, 0, w7) = (m8, b8, w8)" for p flipped m8 b8 w8
    using that mark ensure_vault_marker_other [of p e ?T w8] unfolding cleaned_up_def by fastforce
  have ap': "apart e (index w')"
    using bulk
  proof (cases rule: bulk_update_cases)
    case (1 er)
    then show ?thesis using work(9) [OF 1(1)] hook(3) by simp
  next
    case 2
    have "index w' = index w7"
      using work(10) [OF 2(1)] clean_each_frame(1) unfolding cleaned_up_def by metis
    then show ?thesis using 2(3) flip_apart [OF hook(3)] by simp
  qed
  show ?thesis
  proof (cases "t \<in> set batch")
    case False
    have other: "sg_id y \<noteq> sg_id s" if "y \<in> set batch" for y using same that False by blast
    have oc: "cp_id c \<noteq> sg_id s" if "c \<in> set copied" for c
      using cps [OF that] other unfolding copied_as_def by metis
    then have noid: "sg_id s \<notin> cp_id ` set copied" by (metis imageE)
    have d4: "disk w4 p = disk w p" if "p \<in> roam e s" for p
    proof -
      have "p \<noteq> ve_canon e (?T @ sg_path y)" if "y \<in> set batch" for y
        using far [OF that other [OF that]] root_roam [OF new, of y] \<open>p \<in> roam e s\<close> by blast
      then show ?thesis using copy_each_frame(2) [OF work(5), of p] work(1) by simp
    qed
    have "disk w' p = disk w p" if p: "p \<in> roam e s" for p
      using bulk
    proof (cases rule: bulk_update_cases)
      case (1 er)
      then show ?thesis using work(9) [OF 1(1)] hook(2) work(6) d4 p by simp
    next
      case 2
      obtain m8 b8 w8 where cl: "clean_each e (map sg_id (filter (flips (map cp_id copied) (mj_from mig)) (index w6))) copied (0, 0, w7) = (m8, b8, w8)"
        by (metis prod_cases3)
      have "disk w' p = disk w8 p" by (rule fin [OF work(10) [OF 2(1)] p cl])
      also have "\<dots> = disk w7 p" by (rule clean_each_frame(2) [OF cl]) (use away oc p in auto)
      finally show ?thesis using 2(2) hook(2) work(6) d4 p by simp
    qed
    moreover have "u \<in> set (index w')" if u: "u \<in> forms_of (mj_to mig) s" "u \<in> set (index w)" for u
      using bulk
    proof (cases rule: bulk_update_cases)
      case (1 er)
      then show ?thesis using work(9) [OF 1(1)] hook(1) u ix by simp
    next
      case 2
      have "u \<in> set (index w6)" using hook(1) u ix by simp
      moreover have "\<not> flips (map cp_id copied) (mj_from mig) u"
        using noid forms_simps [OF u(1)] by (simp add: flips_def)
      ultimately have "u \<in> set (index w7)" unfolding 2(3) by force
      moreover have "index w' = index w7" using work(10) [OF 2(1)] clean_each_frame(1) unfolding cleaned_up_def by metis
      ultimately show ?thesis by simp
    qed
    ultimately show ?thesis using drained_frame [OF dr] ap' by blast
  next
    case True
    define src dst where "src = ve_canon e (?F @ sg_path t)" and "dst = ve_canon e (?T @ sg_path t)"
    have mine: "sg_storage t = mj_from mig" using batch(2) True by simp
    have q_src: "q = src" using t(3) mine old by (simp add: spot_def src_def)
    have in_roam: "src \<in> roam e s" "dst \<in> roam e s"
      using root_roam [OF old, of t] root_roam [OF new, of t] tf by (simp_all add: src_def dst_def)
    have nohit: "ve_canon e (?T @ sg_path y) \<notin> {src, dst}" if "y \<in> set batch" "sg_id y \<noteq> sg_id t" for y
    proof -
      have "roam e y \<inter> roam e s = {}" using far that tf by simp
      then show ?thesis using root_roam [OF new, of y] in_roam by auto
    qed
    have tr: "disk w4 src = disk w src"
      "\<And>c. c \<in> set copied \<Longrightarrow> cp_id c = sg_id t \<Longrightarrow> copied_as t ?F ?T c \<and> copy_good e src dst (disk w src) w4 c"
      using copy_each_tracked [OF work(5) batch(3) True src_def dst_def nohit _ g] g [of t] work(1)
      by (simp_all add: src_def dst_def)
    have keep: "disk w6 src = Some b'" "disk w6 dst = disk w4 dst"
      using hook(2) in_roam work(6) tr(1) t(4) q_src by simp_all
    have stay: "drained e (mj_to mig) s b w'" if "t \<in> set (index w')" "disk w' src = Some b'"
      using t that q_src unfolding drained_def by blast
    show ?thesis
      using bulk
    proof (cases rule: bulk_update_cases)
      case (1 er)
      then show ?thesis using work(9) [OF 1(1)] stay t6 keep ap' by simp
    next
      case 2
      define hits where "hits = map sg_id (filter (flips (map cp_id copied) (mj_from mig)) (index w6))"
      obtain m8 b8 w8 where cl: "clean_each e hits copied (0, 0, w7) = (m8, b8, w8)" by (metis prod_cases3)
      note up = work(10) [OF 2(1), folded hits_def]
      have ix': "index w' = index w7" using up clean_each_frame(1) unfolding cleaned_up_def by metis
      have end8: "disk w' p = disk w8 p" if "p \<in> roam e s" for p by (rule fin [OF up that cl])
      show ?thesis
      proof (cases "\<exists>c \<in> set copied. cp_id c = sg_id t")
        case False
        then have "\<not> flips (map cp_id copied) (mj_from mig) t" by (auto simp: flips_def)
        then have "t \<in> set (index w')" using t6 unfolding ix' 2(3) by force
        moreover have "disk w8 src = disk w7 src"
          by (rule clean_each_frame(2) [OF cl]) (use away False tf in_roam in auto)
        ultimately show ?thesis using stay end8 in_roam 2(2) keep ap' by simp
      next
        case hit: True
        then obtain c where c: "c \<in> set copied" "cp_id c = sg_id t" by blast
        have fl: "flips (map cp_id copied) (mj_from mig) t" using c mine by (force simp: flips_def)
        let ?t' = "t\<lparr>sg_storage := mj_to mig\<rparr>"
        have t': "?t' \<in> set (index w')" using t6 fl unfolding ix' 2(3) by force
        have hits: "sg_id t \<in> set hits" using t6 fl by (auto simp: hits_def)
        have target: "dst \<noteq> ve_canon e (if cp_id d \<in> set hits then cp_src d else cp_dst d)"
          if d: "d \<in> set copied" "\<not> cp_in_place d" for d
        proof (cases "cp_id d = sg_id t")
          case True
          then show ?thesis using tr(2) [OF d(1) True] d(2) hits by (auto simp: copy_good_def copied_as_def src_def)
        next
          case False
          then show ?thesis using away [OF d(1)] tf in_roam by auto
        qed
        have "disk w8 dst = disk w7 dst" by (rule clean_each_frame(2) [OF cl target])
        then have now: "disk w' dst = disk w4 dst" using end8 in_roam 2(2) keep by simp
        have good: "copy_good e src dst (disk w src) w4 c" using tr(2) [OF c] by blast
        obtain b2 where b2: "disk w4 dst = Some b2" "copy_of e b' b2" "cp_in_place c \<longrightarrow> b2 = b'"
          using good tr(1) t(4) q_src by (cases "cp_in_place c") (auto simp: copy_good_def)
        have "?t' = s \<longrightarrow> b2 = b"
        proof
          assume s: "?t' = s"
          then have ts: "t = s" using t(1) by (auto simp: forms_of_def)
          then have "mj_from mig = mj_to mig" using s mine by (metis segment.select_convs(3) segment.surjective segment.update_convs(3))
          then have "src = dst" using old new by (simp add: src_def dst_def)
          then have "cp_in_place c" using good by (auto simp: copy_good_def)
          then show "b2 = b" using b2(3) t(6) ts by simp
        qed
        then have "\<exists>q b'. spot e ?t' = Some q \<and> disk w' q = Some b' \<and> copy_of e b b' \<and> (?t' = s \<longrightarrow> b' = b)"
          using now b2(1) copy_of_trans [OF t(5) b2(2)] new
          by (intro exI [of _ dst] exI [of _ b2] conjI) (simp_all add: spot_def dst_def)
        then have "drained e (mj_to mig) s b w'"
          using t' tf unfolding drained_def by metis
        then show ?thesis using ap' by blast
      qed
    qed
  qed
qed

subsection \<open>The whole drain\<close>

lemma drain_loop_keeps:
  assumes "storage_of e (mj_from mig) = Some from" and "storage_of e (mj_to mig) = Some to"
    and "leaves_alone e de (mj_to mig) s" and "guard_works e (st_path from) (st_path to)"
  shows "drain_loop e de mig (st_path from) to k (jobs, w) = (r, jobs', w') \<Longrightarrow> apart e (index w) \<Longrightarrow>
    drained e (mj_to mig) s b w \<Longrightarrow> drained e (mj_to mig) s b w' \<and> apart e (index w')"
proof (induction k arbitrary: jobs w)
  case (Suc k)
  obtain x jobs1 w1 where b: "drain_batch e de mig (st_path from) to (jobs, w) = (x, jobs1, w1)" by (metis prod_cases3)
  note kept = drain_batch_keeps [OF b assms(1,2) Suc.prems(2) assms(3,4) Suc.prems(3)]
  show ?case
  proof (cases x)
    case None
    then show ?thesis using Suc.IH [of jobs1 w1] Suc.prems(1) b kept by simp
  next
    case (Some y)
    then show ?thesis using Suc.prems(1) b kept by simp
  qed
qed simp

lemma run_migration_cases:
  assumes "run_storage_migration e de k mig (jobs, w) = (r, jobs', w')"
  obtains "r \<noteq> None" "disk w' = disk w" "index w' = index w"
    | old new w2 where "storage_of e (mj_from mig) = Some old" "storage_of e (mj_to mig) = Some new"
      "disk w2 = disk w" "index w2 = index w" "drain_loop e de mig (st_path old) new k (jobs, w2) = (r, jobs', w')"
proof -
  obtain a w1 where a: "get_storage e (mj_from mig) w = (a, w1)" by force
  have w1: "disk w1 = disk w" "index w1 = index w" using get_storage_frame [of e "mj_from mig" w] a by simp_all
  obtain c w2 where c: "get_storage e (mj_to mig) w1 = (c, w2)" by force
  have w2: "disk w2 = disk w" "index w2 = index w" using get_storage_frame [of e "mj_to mig" w1] c w1 by simp_all
  show thesis
  proof (cases "\<exists>old new. a = Inr (Some old) \<and> c = Inr (Some new)")
    case True
    then obtain old new where ft: "a = Inr (Some old)" "c = Inr (Some new)" by blast
    have "storage_of e (mj_from mig) = Some old" "storage_of e (mj_to mig) = Some new"
      using a c ft by (auto simp: get_storage_def draw_def split: if_splits)
    then show thesis using that(2) [of old new w2] w2 assms a c ft by (simp add: run_storage_migration_def)
  next
    case False
    then have "r \<noteq> None" "w' = w1 \<or> w' = w2"
      using assms a c by (auto simp: run_storage_migration_def split: sum.splits option.splits)
    then show thesis using that(1) w1 w2 by auto
  qed
qed

text \<open>C14. Changing the storage of a policy loses no footage. Whatever calls of the drain fail or stop short,
  however often its job is retried or cancelled, and whatever the other loops meanwhile do to other
  segments, a segment with its file on disk is afterwards where it was with the same bytes, or on the new
  storage under the same path with a file of the same length, which has the same bytes unless a
  write was silently corrupted. The hypotheses: no two segments share a file or a path under two roots, and
  old and new file differ or the same-file guard can stat them.\<close>

theorem drain_keeps_every_segment:
  assumes "run_storage_migration e de k mig (jobs, w) = (r, jobs', w')" and "apart e (index w)"
    and "\<And>from to. storage_of e (mj_from mig) = Some from \<Longrightarrow> storage_of e (mj_to mig) = Some to \<Longrightarrow>
           guard_works e (st_path from) (st_path to)"
    and "leaves_alone e de (mj_to mig) s" and "s \<in> set (index w)" and "spot e s = Some q" and "disk w q = Some b"
  shows "(s \<in> set (index w') \<and> disk w' q = Some b) \<or>
    (s\<lparr>sg_storage := mj_to mig\<rparr> \<in> set (index w') \<and>
     (\<exists>q' b'. spot e (s\<lparr>sg_storage := mj_to mig\<rparr>) = Some q' \<and> disk w' q' = Some b' \<and> length b' = length b \<and>
        (no_mangle e \<longrightarrow> b' = b)))"
proof -
  have start: "drained e (mj_to mig) s b w" using assms(5-7) by (auto simp: drained_def forms_of_def)
  have "drained e (mj_to mig) s b w'"
    using assms(1)
  proof (cases rule: run_migration_cases)
    case 1
    then show ?thesis using drained_frame [OF start] by simp
  next
    case (2 old new w2)
    have "drained e (mj_to mig) s b w2" using drained_frame [OF start] 2(3,4) by simp
    then show ?thesis
      using drain_loop_keeps [OF 2(1,2) assms(4) assms(3) [OF 2(1,2)] 2(5)] assms(2) 2(4) by simp
  qed
  then show ?thesis using assms(6) by (auto simp: drained_def forms_of_def copy_of_def)
qed

subsection \<open>The drain ends\<close>

definition waiting :: "storage_migration \<Rightarrow> vault \<Rightarrow> nat" where
  "waiting mig w = length (filter (\<lambda>s. sg_storage s = mj_from mig) (index w))"

lemma clean_each_moved:
  assumes "clean_each e flipped cs (m, b, w) = (m', b', w')" and "m < m'"
  shows "\<exists>c \<in> set cs. cp_id c \<in> set flipped"
  using assms
proof (induction cs arbitrary: m b w)
  case (Cons c cs)
  show ?case
  proof (cases "cp_id c \<in> set flipped")
    case False
    then show ?thesis using Cons.IH [of m b] Cons.prems by (simp add: Let_def)
  qed simp
qed simp

lemma flip_fewer:
  assumes "to \<noteq> from" and "x \<in> set ss" and "flips ids from x"
  shows "length (filter (\<lambda>s. sg_storage s = from) (map (\<lambda>s. if flips ids from s then s\<lparr>sg_storage := to\<rparr> else s) ss)) <
    length (filter (\<lambda>s. sg_storage s = from) ss)"
proof -
  have le: "length (filter (\<lambda>s. sg_storage s = from) (map (\<lambda>s. if flips ids from s then s\<lparr>sg_storage := to\<rparr> else s) ts)) \<le>
      length (filter (\<lambda>s. sg_storage s = from) ts)" for ts
    using assms(1) by (induction ts) auto
  show ?thesis
    using assms(2)
  proof (induction ss)
    case (Cons y ss)
    show ?case
    proof (cases "x = y")
      case True
      then show ?thesis using assms(1,3) le [of ss] by (auto simp: flips_def less_Suc_eq_le)
    next
      case False
      then show ?thesis using Cons assms(1) by (auto simp: flips_def)
    qed
  qed simp
qed

lemma drain_batch_progress:
  assumes "drain_batch e de mig F to (jobs, w) = (None, jobs', w')" and "mj_to mig \<noteq> mj_from mig"
    and "\<And>n v. waiting mig (de_meanwhile de n v) \<le> waiting mig v"
  shows "waiting mig w' < waiting mig w"
  using assms(1)
proof (cases rule: drain_batch_cases)
  case quiet
  then show ?thesis by simp
next
  case (work batch w3 copied sk fl w4 w5 x w7)
  define w6 where "w6 = de_meanwhile de (draws w5) w5"
  have "waiting mig w6 \<le> waiting mig w5" unfolding w6_def by (rule assms(3))
  moreover have "index w5 = index w" using work(2,7) copy_each_frame(1) [OF work(5)] by simp
  ultimately have le: "waiting mig w6 \<le> waiting mig w" by (simp add: waiting_def)
  show ?thesis
    using work(8) [folded w6_def]
  proof (cases rule: bulk_update_cases)
    case (1 er)
    then show ?thesis using work(9) by simp
  next
    case 2
    obtain moved bytes w8 where c: "clean_each e (map sg_id (filter (flips (map cp_id copied) (mj_from mig)) (index w6))) copied (0, 0, w7) = (moved, bytes, w8)"
      "index w' = index w8" "0 < moved"
      using work(10) [OF 2(1)] by (auto simp: cleaned_up_def)
    obtain y where y: "y \<in> set (index w6)" "flips (map cp_id copied) (mj_from mig) y"
      using clean_each_moved [OF c(1,3)] by auto
    have "index w' = index w7" using c(2) clean_each_frame(1) [OF c(1)] by simp
    then have "waiting mig w' < waiting mig w6"
      using flip_fewer [OF assms(2) y] by (simp add: waiting_def 2(3))
    then show ?thesis using le by simp
  qed
qed

text \<open>C16. The drain ends. As long as the other loops bring no rows back to the old storage, every batch that is
  followed by another one moves at least one row off it, so as many batches as there are rows on the old
  storage, and one more, are enough for an answer, success or error.\<close>

theorem drain_ends:
  assumes "run_storage_migration e de k mig (jobs, w) = (r, jobs', w')" and "mj_to mig \<noteq> mj_from mig"
    and "\<And>n v. waiting mig (de_meanwhile de n v) \<le> waiting mig v" and "waiting mig w < k"
  shows "r \<noteq> None"
proof -
  have loop: "r \<noteq> None" if "drain_loop e de mig F to k (jobs, v) = (r, jobs', w')" "waiting mig v < k" for F to jobs v k
    using that
  proof (induction k arbitrary: jobs v)
    case (Suc k)
    obtain x jobs1 w1 where b: "drain_batch e de mig F to (jobs, v) = (x, jobs1, w1)" by (metis prod_cases3)
    show ?case
    proof (cases x)
      case None
      then have "waiting mig w1 < k" using drain_batch_progress [OF b [unfolded None] assms(2,3)] Suc.prems(2) by simp
      then show ?thesis using Suc.IH [of jobs1 w1] Suc.prems(1) b None by simp
    next
      case (Some y)
      then show ?thesis using Suc.prems(1) b by auto
    qed
  qed simp
  show ?thesis
    using assms(1)
  proof (cases rule: run_migration_cases)
    case (2 old new w2)
    then show ?thesis using loop [OF 2(5)] assms(4) by (simp add: waiting_def)
  qed
qed

end
