(* ===== verification/MigrationJobs.thy ===== *)
theory MigrationJobs
  imports MigrationSafety
begin

text \<open>
  The worker that runs the drains (\<open>run_migration_worker\<close> of \<open>services/recorder/src/main.rs\<close>) and its job
  table, and what a drain achieves when nothing fails. A round is one pass of the worker's loop; the
  pauses between rounds are not modelled. The tracked requests of the API are served before the claim
  and before the final status is written (and at every batch, in \<open>drain_batch\<close>).
\<close>

subsection \<open>The worker\<close>

definition claim_pending_migration ::
  "instant \<Rightarrow> storage_migration list \<Rightarrow> storage_migration option \<times> storage_migration list" where
  "claim_pending_migration now jobs =
     (case sort_key mj_created (filter (\<lambda>m. mj_status m = Pending) jobs) of
        [] \<Rightarrow> (None, jobs)
      | m # _ \<Rightarrow>
          (Some (m\<lparr>mj_status := Running, mj_updated := now\<rparr>),
           map (\<lambda>j. if mj_id j = mj_id m then j\<lparr>mj_status := Running, mj_updated := now\<rparr> else j) jobs))"

definition reset_stale_migrations :: "instant \<Rightarrow> storage_migration list \<Rightarrow> nat \<times> storage_migration list" where
  "reset_stale_migrations now jobs =
     (let stale = (\<lambda>m. mj_status m = Running \<and> mj_updated m < now - seconds 120)
      in (length (filter stale jobs),
          map (\<lambda>m. if stale m then m\<lparr>mj_status := Pending, mj_updated := now\<rparr> else m) jobs))"

definition finish_migration ::
  "drain_env \<Rightarrow> vault_env \<Rightarrow> storage_migration \<Rightarrow> drain_error + unit \<Rightarrow> drain_world \<Rightarrow> drain_world" where
  "finish_migration de e mig r x =
     (let jobs = serve_requests de (snd x) (fst x);
          now = de_now de (draws (snd x));
          (f, w1) = draw e (snd x) in
      if broken f then (jobs, w1)
      else case r of
             Inr _ \<Rightarrow> (snd (set_migration_status_if now (mj_id mig) DoneJob Running None jobs), w1)
           | Inl _ \<Rightarrow> (set_migration_status now (mj_id mig) FailedJob (Some ''drain failed'') jobs, w1))"

text \<open>\<open>None\<close> is running out of fuel; otherwise whether the worker goes straight to the next round.\<close>

definition migration_worker_round ::
  "vault_env \<Rightarrow> drain_env \<Rightarrow> nat \<Rightarrow> drain_world \<Rightarrow> bool option \<times> drain_world" where
  "migration_worker_round e de k x =
     (let jobs = serve_requests de (snd x) (fst x);
          now = de_now de (draws (snd x));
          (f, w1) = draw e (snd x) in
      if broken f then (Some False, jobs, w1)
      else case claim_pending_migration now jobs of
             (Some mig, jobs1) \<Rightarrow>
               (case run_storage_migration e de k mig (jobs1, w1) of
                  (None, y) \<Rightarrow> (None, y)
                | (Some r, y) \<Rightarrow> (Some True, finish_migration de e mig r y))
           | (None, jobs1) \<Rightarrow>
               (let (g, w2) = draw e w1 in
                if broken g then (Some False, jobs1, w2)
                else let (n, jobs2) = reset_stale_migrations (de_now de (draws w1)) jobs1
                     in (Some (0 < n), jobs2, w2)))"

subsection \<open>Jobs that are over\<close>

definition over :: "job_status \<Rightarrow> bool" where
  "over st \<longleftrightarrow> st = DoneJob \<or> st = FailedJob \<or> st = Cancelled"

text \<open>A change of the table that leaves the job \<open>i\<close> alone.\<close>

definition job_kept :: "uuid \<Rightarrow> storage_migration list \<Rightarrow> storage_migration list \<Rightarrow> bool" where
  "job_kept i jobs jobs' \<longleftrightarrow> map mj_id jobs' = map mj_id jobs \<and> get_storage_migration i jobs' = get_storage_migration i jobs"

lemma job_kept_refl: "job_kept i jobs jobs"
  by (simp add: job_kept_def)

lemma job_kept_trans: "job_kept i a b \<Longrightarrow> job_kept i b c \<Longrightarrow> job_kept i a c"
  by (simp add: job_kept_def)

lemma job_kept_map:
  assumes "\<And>m. mj_id (f m) = mj_id m" and "\<And>m. mj_id m = i \<Longrightarrow> f m = m"
  shows "job_kept i jobs (map f jobs)"
proof -
  have "get_storage_migration i (map f jobs) = get_storage_migration i jobs"
    by (induction jobs) (auto simp: get_storage_migration_def assms)
  then show ?thesis by (simp add: job_kept_def comp_def assms(1))
qed

text \<open>The same when \<open>f\<close> spares the one row with the id \<open>i\<close> because of what it holds.\<close>

lemma job_kept_found:
  assumes "\<And>m. mj_id (f m) = mj_id m" and "get_storage_migration i jobs = Some m" and "f m = m"
    and "distinct (map mj_id jobs)"
  shows "job_kept i jobs (map f jobs)"
proof -
  have "get_storage_migration i (map f jobs) = get_storage_migration i jobs"
    using assms(2-4) by (induction jobs) (auto simp: get_storage_migration_def assms(1) split: if_splits)
  then show ?thesis by (simp add: job_kept_def comp_def assms(1))
qed

lemma get_migration_some: "get_storage_migration i jobs = Some m \<Longrightarrow> m \<in> set jobs \<and> mj_id m = i"
  by (auto simp: get_storage_migration_def find_Some_iff)

lemma serve_request_over:
  assumes "get_storage_migration i jobs = Some m" and "over (mj_status m)" and "req \<noteq> Retry i" and "distinct (map mj_id jobs)"
  shows "job_kept i jobs (serve_request now req jobs)"
proof (cases req)
  case (Retry j)
  then have "j \<noteq> i" using assms(3) by auto
  then show ?thesis
    using Retry by (auto simp: retry_migration_def set_migration_status_def job_kept_refl split: option.split
        intro!: job_kept_map)
next
  case (Cancel j)
  show ?thesis
  proof (cases "j = i")
    case False
    then show ?thesis
      using Cancel by (auto simp: cancel_migration_def set_migration_status_if_def job_kept_refl split: option.split
          intro!: job_kept_map)
  next
    case True
    let ?f = "\<lambda>m. if mj_id m = i \<and> mj_status m = Pending
        then m\<lparr>mj_status := Cancelled, mj_error := Some ''cancelled by operator'', mj_updated := now\<rparr> else m"
    have "job_kept i jobs (map ?f jobs)"
      by (rule job_kept_found [OF _ assms(1) _ assms(4)]) (use assms(2) in \<open>auto simp: over_def\<close>)
    then show ?thesis
      using Cancel True assms(1,2) by (auto simp: cancel_migration_def set_migration_status_if_def job_kept_refl over_def)
  qed
qed

lemma serve_requests_over:
  assumes "get_storage_migration i jobs = Some m" and "over (mj_status m)" and "\<And>n. Retry i \<notin> set (de_requests de n)"
    and "distinct (map mj_id jobs)"
  shows "job_kept i jobs (serve_requests de w jobs)"
proof -
  have "job_kept i jobs (fold (serve_request now) reqs jobs)"
    if "Retry i \<notin> set reqs" "get_storage_migration i jobs = Some m" "distinct (map mj_id jobs)" for reqs now jobs
    using that
  proof (induction reqs arbitrary: jobs)
    case Nil
    then show ?case by (simp add: job_kept_refl)
  next
    case (Cons req reqs)
    have step: "job_kept i jobs (serve_request now req jobs)"
      by (rule serve_request_over [OF Cons.prems(2) assms(2) _ Cons.prems(3)]) (use Cons.prems(1) in auto)
    then have "get_storage_migration i (serve_request now req jobs) = Some m" "distinct (map mj_id (serve_request now req jobs))"
      using Cons.prems by (simp_all add: job_kept_def)
    then show ?case using job_kept_trans [OF step] Cons.IH Cons.prems(1) by simp
  qed
  then show ?thesis using assms by (simp add: serve_requests_def)
qed

lemma drain_batch_jobs:
  assumes "drain_batch e de mig F to (jobs, w) = (r, jobs', w')"
  shows "\<exists>n bytes now. jobs' = serve_requests de w jobs \<or>
    jobs' = add_migration_progress now (mj_id mig) n bytes (serve_requests de w jobs)"
  using assms by (auto simp: drain_batch_def Let_def split: prod.splits sum.splits list.splits bool.splits if_splits)

lemma progress_kept:
  "mj_id mig \<noteq> i \<Longrightarrow> job_kept i jobs (add_migration_progress now (mj_id mig) n bytes jobs)"
  unfolding add_migration_progress_def by (rule job_kept_map) auto

lemma drain_batch_over:
  assumes "drain_batch e de mig F to (jobs, w) = (r, jobs', w')" and "get_storage_migration i jobs = Some m"
    and "over (mj_status m)" and "\<And>n. Retry i \<notin> set (de_requests de n)" and "distinct (map mj_id jobs)" and "mj_id mig \<noteq> i"
  shows "job_kept i jobs jobs'"
proof -
  have "job_kept i jobs (serve_requests de w jobs)" by (rule serve_requests_over [OF assms(2-5)])
  then show ?thesis using drain_batch_jobs [OF assms(1)] progress_kept [OF assms(6)] job_kept_trans by blast
qed

lemma drain_loop_over:
  assumes "over (mj_status m)" and "\<And>n. Retry i \<notin> set (de_requests de n)" and "mj_id mig \<noteq> i"
  shows "drain_loop e de mig F to k (jobs, w) = (r, jobs', w') \<Longrightarrow> get_storage_migration i jobs = Some m \<Longrightarrow>
    distinct (map mj_id jobs) \<Longrightarrow> job_kept i jobs jobs'"
proof (induction k arbitrary: jobs w)
  case (Suc k)
  obtain x jobs1 w1 where b: "drain_batch e de mig F to (jobs, w) = (x, jobs1, w1)" by (metis prod_cases3)
  have k1: "job_kept i jobs jobs1" by (rule drain_batch_over [OF b Suc.prems(2) assms(1,2) Suc.prems(3) assms(3)])
  then have j1: "get_storage_migration i jobs1 = Some m" "distinct (map mj_id jobs1)" using Suc.prems by (simp_all add: job_kept_def)
  show ?case
  proof (cases x)
    case None
    then have "job_kept i jobs1 jobs'" using Suc.IH [OF _ j1] Suc.prems(1) b by simp
    then show ?thesis by (rule job_kept_trans [OF k1])
  next
    case (Some y)
    then show ?thesis using Suc.prems(1) b k1 by simp
  qed
qed (simp add: job_kept_refl)

lemma run_migration_over:
  assumes "run_storage_migration e de k mig (jobs, w) = (r, jobs', w')" and "over (mj_status m)"
    and "\<And>n. Retry i \<notin> set (de_requests de n)" and "mj_id mig \<noteq> i"
    and "get_storage_migration i jobs = Some m" and "distinct (map mj_id jobs)"
  shows "job_kept i jobs jobs'"
proof -
  have "jobs' = jobs \<or> (\<exists>F to v. drain_loop e de mig F to k (jobs, v) = (r, jobs', w'))"
    using assms(1) by (auto simp: run_storage_migration_def split: prod.splits sum.splits option.splits)
  then show ?thesis using drain_loop_over [OF assms(2-4) _ assms(5,6)] job_kept_refl by blast
qed

text \<open>C17. A job that is over stays as it is. Through any round of the worker, a job that is done, failed or cancelled
  is not claimed, not changed by the drain of another job, not reset and not marked again, whatever else
  the API requests, unless the operator retries it.\<close>

theorem finished_jobs_stay:
  assumes "migration_worker_round e de k (jobs, w) = (r, jobs', w')" and "distinct (map mj_id jobs)"
    and "get_storage_migration i jobs = Some m" and "over (mj_status m)" and "\<And>n. Retry i \<notin> set (de_requests de n)"
  shows "get_storage_migration i jobs' = Some m"
proof -
  define jobs0 where "jobs0 = serve_requests de w jobs"
  have k0: "job_kept i jobs jobs0" unfolding jobs0_def by (rule serve_requests_over [OF assms(3,4,5,2)])
  then have j0: "get_storage_migration i jobs0 = Some m" "distinct (map mj_id jobs0)" using assms(2,3) by (simp_all add: job_kept_def)
  obtain f w1 where d: "draw e w = (f, w1)" by force
  obtain c jobs1 where cl: "claim_pending_migration (de_now de (draws w)) jobs0 = (c, jobs1)" by force
  have k1: "job_kept i jobs0 jobs1 \<and> (\<forall>mig. c = Some mig \<longrightarrow> mj_id mig \<noteq> i)"
  proof (cases "sort_key mj_created (filter (\<lambda>m. mj_status m = Pending) jobs0)")
    case Nil
    then show ?thesis using cl by (auto simp: claim_pending_migration_def job_kept_refl)
  next
    case (Cons p ps)
    have "p \<in> set (sort_key mj_created (filter (\<lambda>m. mj_status m = Pending) jobs0))" using Cons by simp
    then have p: "p \<in> set jobs0" "mj_status p = Pending" by simp_all
    have "mj_id p \<noteq> i"
    proof
      assume "mj_id p = i"
      then have "p = m" using p(1) j0 get_migration_some [OF j0(1)] by (auto simp: distinct_map inj_on_def)
      then show False using p(2) assms(4) by (simp add: over_def)
    qed
    then show ?thesis using cl Cons by (auto simp: claim_pending_migration_def intro!: job_kept_map)
  qed
  have j1: "get_storage_migration i jobs1 = Some m" "distinct (map mj_id jobs1)"
    using k1 j0 by (simp_all add: job_kept_def)
  show ?thesis
  proof (cases "broken f")
    case True
    then show ?thesis using assms(1) d j0(1) by (simp add: migration_worker_round_def jobs0_def)
  next
    case ok: False
    show ?thesis
    proof (cases c)
      case None
      let ?f = "\<lambda>j. if mj_status j = Running \<and> mj_updated j < de_now de (draws w1) - seconds 120
          then j\<lparr>mj_status := Pending, mj_updated := de_now de (draws w1)\<rparr> else j"
      have "job_kept i jobs1 (map ?f jobs1)"
        by (rule job_kept_found [OF _ j1(1) _ j1(2)]) (use assms(4) in \<open>auto simp: over_def\<close>)
      then show ?thesis
        using assms(1) d ok cl None j1(1)
        by (auto simp: migration_worker_round_def jobs0_def reset_stale_migrations_def Let_def job_kept_def
            split: prod.splits if_splits)
    next
      case (Some mig)
      have ne: "mj_id mig \<noteq> i" using k1 Some by blast
      obtain x jobs2 w2 where rn: "run_storage_migration e de k mig (jobs1, w1) = (x, jobs2, w2)" by (metis prod_cases3)
      have "job_kept i jobs1 jobs2" by (rule run_migration_over [OF rn assms(4,5) ne j1])
      then have j2: "get_storage_migration i jobs2 = Some m" "distinct (map mj_id jobs2)" using j1 by (simp_all add: job_kept_def)
      show ?thesis
      proof (cases x)
        case None
        then show ?thesis using assms(1) d ok cl Some rn j2(1) by (simp add: migration_worker_round_def jobs0_def)
      next
        case x: (Some y)
        have "(jobs', w') = finish_migration de e mig y (jobs2, w2)"
          using assms(1) d ok cl Some rn x by (simp add: migration_worker_round_def jobs0_def)
        moreover have k3: "job_kept i jobs2 (serve_requests de w2 jobs2)" by (rule serve_requests_over [OF j2(1) assms(4,5) j2(2)])
        moreover have "job_kept i js (snd (set_migration_status_if now (mj_id mig) DoneJob Running None js))"
          "job_kept i js (set_migration_status now (mj_id mig) FailedJob err js)" for js now err
          using ne by (auto simp: set_migration_status_if_def set_migration_status_def intro!: job_kept_map)
        ultimately have "job_kept i jobs2 jobs'"
          by (auto simp: finish_migration_def Let_def split: prod.splits if_splits sum.splits intro: job_kept_trans)
        then show ?thesis using j2(1) by (simp add: job_kept_def)
      qed
    qed
  qed
qed

subsection \<open>A drain when nothing fails\<close>

definition undisturbed :: "drain_env \<Rightarrow> bool" where
  "undisturbed de \<longleftrightarrow> (\<forall>n v. de_meanwhile de n v = v) \<and> (\<forall>n. de_requests de n = [])"

text \<open>The files of the rows to move are there with their size, and the new storage is confirmed by its marker.\<close>

definition ready :: "vault_env \<Rightarrow> storage_migration \<Rightarrow> path \<Rightarrow> storage_row \<Rightarrow> vault \<Rightarrow> bool" where
  "ready e mig F to w \<longleftrightarrow> apart e (index w) \<and>
     (\<forall>s \<in> set (index w). on_old_storage e mig s \<longrightarrow>
        (\<exists>b. disk w (ve_canon e (F @ sg_path s)) = Some b \<and> length b = as_u64 (sg_size s))) \<and>
     disk w (ve_canon e (storage_marker_path (st_path to))) \<noteq> None \<and> st_path to \<notin> set (tripped w) \<and>
     \<not> ve_reconcile_tripped e (st_path to)"

lemma calm_copy_segment:
  assumes "calm e" and "ve_canon e (F @ sg_path seg) \<noteq> ve_canon e (T @ sg_path seg)"
    and "disk w (ve_canon e (F @ sg_path seg)) = Some b" and "length b = as_u64 (sg_size seg)"
  shows "\<exists>c w'. copy_segment_for_migration e seg F T w = (MigCopied c, w') \<and> cp_id c = sg_id seg"
  using assms
  by (simp add: copy_segment_for_migration_def file_exists_def metadata_len_def fsync_file_only_def calm_draw
      calm_same_file calm_copy put_file_def Let_def)

lemma copy_each_grows:
  assumes "copy_each e F T segs (t, w) = (t', w')"
  shows "set (fst t) \<subseteq> set (fst t')"
  using assms
proof (induction segs arbitrary: t w)
  case (Cons x segs)
  obtain r w1 where r: "copy_segment_for_migration e x F T w = (r, w1)" by force
  have "copy_each e F T segs (tally_outcome r t, w1) = (t', w')"
    using Cons.prems unfolding copy_each_step [OF r] .
  from Cons.IH [OF this] show ?case by (auto simp: tally_copied split: migration_outcome.splits)
qed simp

lemma clean_each_counts:
  assumes "clean_each e flipped cs (m, b, w) = (m', b', w')"
  shows "m \<le> m'" "c \<in> set cs \<Longrightarrow> cp_id c \<in> set flipped \<Longrightarrow> m < m'"
proof -
  have "m \<le> m' \<and> (c \<in> set cs \<longrightarrow> cp_id c \<in> set flipped \<longrightarrow> m < m')"
    using assms
  proof (induction cs arbitrary: m b w)
    case (Cons d cs)
    define w1 where "w1 = (if cp_in_place d then w else snd (unlink e (if cp_id d \<in> set flipped then cp_src d else cp_dst d) w))"
    define m1 b1 where "m1 = (if cp_id d \<in> set flipped then m + 1 else m)" and "b1 = (if cp_id d \<in> set flipped then b + cp_size d else b)"
    have "clean_each e flipped (d # cs) (m, b, w) = clean_each e flipped cs (m1, b1, w1)"
      by (simp add: Let_def w1_def m1_def b1_def)
    then have "clean_each e flipped cs (m1, b1, w1) = (m', b', w')" using Cons.prems by simp
    note ih = Cons.IH [OF this]
    have le: "m \<le> m1" by (simp add: m1_def)
    show ?case
    proof (intro conjI impI)
      show "m \<le> m'" using ih le by linarith
      assume c: "c \<in> set (d # cs)" "cp_id c \<in> set flipped"
      show "m < m'"
      proof (cases "c = d")
        case True
        then have "m < m1" using c(2) by (simp add: m1_def)
        then show ?thesis using ih by linarith
      next
        case False
        then have "m1 < m'" using ih c by simp
        then show ?thesis using le by linarith
      qed
    qed
  qed simp
  then show "m \<le> m'" "c \<in> set cs \<Longrightarrow> cp_id c \<in> set flipped \<Longrightarrow> m < m'" by blast+
qed

lemma calm_create_dirs: "calm e \<Longrightarrow> \<exists>w'. create_dirs e ds w = (Inr (), w')"
  by (induction ds arbitrary: w) (auto simp: create_dir_all_def calm_draw)

lemma calm_bulk:
  assumes "calm e" and "ids \<noteq> []"
  shows "fst (bulk_update_segment_storage e ids to from w) = Inr (map sg_id (filter (flips ids from) (index w)))"
  using assms by (simp add: bulk_update_segment_storage_def calm_draw)

lemma calm_confirmed:
  assumes "calm e" and "ready e mig F to w"
  shows "\<exists>w'. destination_confirmed e to w = (Inr True, w')"
proof -
  obtain b where "disk w (ve_canon e (storage_marker_path (st_path to))) = Some b" using assms(2) by (auto simp: ready_def)
  then show ?thesis
    using assms by (simp add: destination_confirmed_def marker_present_def metadata_len_def calm_draw ready_def sweep_breaker_latched_def)
qed

lemma no_requests: "undisturbed de \<Longrightarrow> serve_requests de w jobs = jobs"
  by (simp add: undisturbed_def serve_requests_def)

lemma on_old_batch:
  assumes "s \<in> set (index w)" and "on_old_storage e mig s"
  shows "oldest_first migration_batch (on_old_storage e mig) (index w) \<noteq> []"
proof -
  define xs where "xs = filter (on_old_storage e mig) (index w)"
  have "xs \<noteq> []" using assms by (auto simp: xs_def filter_empty_conv)
  then have "sort_key sg_start xs \<noteq> []" by (metis length_sort length_0_conv)
  then show ?thesis by (simp add: oldest_first_def migration_batch_def xs_def)
qed

lemma calm_listing:
  assumes "calm e"
  shows "\<exists>w'. list_policy_segments_on_storage e (mj_policy mig) (mj_from mig) migration_batch w =
    (Inr (oldest_first migration_batch (on_old_storage e mig) (index w)), w') \<and> index w' = index w \<and> disk w' = disk w \<and> tripped w' = tripped w"
  using assms
  by (simp add: list_policy_segments_on_storage_def query_def calm_draw on_old_storage_def [abs_def])

text \<open>With rows left the drain goes on, with none it is done.\<close>

lemma calm_batch_result:
  assumes calm: "calm e" and quiet: "undisturbed de" and ready: "ready e mig F to w"
    and job: "get_storage_migration (mj_id mig) jobs = Some m" "mj_status m = Running"
    and two: "\<And>p. ve_canon e (F @ p) \<noteq> ve_canon e (st_path to @ p)"
    and run: "drain_batch e de mig F to (jobs, w) = (r, jobs', w')"
  shows "if \<exists>s \<in> set (index w). on_old_storage e mig s then r = None else r = Some (Inr ())"
proof -
  define w0 where "w0 = w\<lparr>draws := draws w + 1\<rparr>"
  have d: "draw e w = (Good, w0)" using calm by (simp add: calm_draw w0_def)
  have w0: "index w0 = index w" "disk w0 = disk w" "tripped w0 = tripped w" by (simp_all add: w0_def)
  let ?batch = "oldest_first migration_batch (on_old_storage e mig) (index w)"
  obtain w1 where ls: "list_policy_segments_on_storage e (mj_policy mig) (mj_from mig) migration_batch w0 = (Inr ?batch, w1)"
    and w1: "index w1 = index w" "disk w1 = disk w" "tripped w1 = tripped w"
    using calm_listing [OF calm, of mig w0] w0 by auto
  note start = run [unfolded drain_batch_def fst_conv snd_conv no_requests [OF quiet] d, unfolded Let_def prod.case]
  show ?thesis
  proof (cases "\<exists>s \<in> set (index w). on_old_storage e mig s")
    case False
    then have "?batch = []" by (auto simp: oldest_first_def filter_empty_conv)
    then have "r = Some (Inr ())" using start job ls by simp
    then show ?thesis using False by simp
  next
    case True
    then obtain x xs where b: "?batch = x # xs" using on_old_batch by (metis neq_Nil_conv)
    have x: "x \<in> set (index w)" "on_old_storage e mig x"
      using oldest_first_subset [of migration_batch "on_old_storage e mig" "index w"] b by auto
    have ready1: "ready e mig F to w1" using ready w1 by (simp add: ready_def)
    obtain w2 where dc: "destination_confirmed e to w1 = (Inr True, w2)" using calm_confirmed [OF calm ready1] by blast
    obtain w3 where cr: "create_dirs e (batch_dirs (st_path to) (x # xs)) w2 = (Inr (), w3)"
      using calm_create_dirs [OF calm] by blast
    have w3: "disk w3 = disk w" "index w3 = index w"
      using create_dirs_frame [OF cr] destination_frame [OF dc] w1 by simp_all
    obtain bx where bx: "disk w3 (ve_canon e (F @ sg_path x)) = Some bx" "length bx = as_u64 (sg_size x)"
      using ready x w3 by (auto simp: ready_def)
    obtain c w4 where c: "copy_segment_for_migration e x F (st_path to) w3 = (MigCopied c, w4)" "cp_id c = sg_id x"
      using calm_copy_segment [OF calm two bx] by blast
    obtain copied sk fl w5 where ce: "copy_each e F (st_path to) (x # xs) (([], 0, 0), w3) = ((copied, sk, fl), w5)"
      by (metis prod_cases4 surj_pair)
    have "copy_each e F (st_path to) xs (([c], 0, 0), w4) = ((copied, sk, fl), w5)"
      using ce c by (simp add: tally_outcome_def)
    from copy_each_grows [OF this] have cin: "c \<in> set copied" by simp
    have ids: "map cp_id copied \<noteq> []" using cin by auto
    define w6 where "w6 = fsync_dirs e copied (batch_dirs (st_path to) (x # xs)) w5"
    have ix: "index w6 = index w" using copy_each_frame(1) [OF ce] w3 by (simp add: w6_def)
    have hook: "de_meanwhile de (draws w6) w6 = w6" using quiet by (simp add: undisturbed_def)
    let ?flipped = "map sg_id (filter (flips (map cp_id copied) (mj_from mig)) (index w6))"
    obtain w7 where bu: "bulk_update_segment_storage e (map cp_id copied) (mj_to mig) (mj_from mig) w6 = (Inr ?flipped, w7)"
      using calm_bulk [OF calm ids] by (metis prod.collapse)
    obtain moved bytes w8 where cl: "clean_each e ?flipped copied (0, 0, w7) = (moved, bytes, w8)" by (metis prod_cases3)
    have "flips (map cp_id copied) (mj_from mig) x" using cin c(2) x(2) by (force simp: flips_def on_old_storage_def)
    then have "cp_id c \<in> set ?flipped" using x(1) ix c(2) by auto
    then have "0 < moved" using clean_each_counts(2) [OF cl cin] by simp
    then have "r = None"
      using start job ls b dc cr ce hook bu cl unfolding w6_def [symmetric]
      by (auto simp: calm_draw [OF calm] w6_def [symmetric])
    then show ?thesis using True by simp
  qed
qed

text \<open>The batches keep the world ready for the next one.\<close>

lemma copy_segment_tripped: "copy_segment_for_migration e x F T w = (r, w') \<Longrightarrow> tripped w' = tripped w"
  by (auto simp: copy_segment_for_migration_def Let_def case_prod_beta prod_eq_iff fsync_file_only_def
      split: if_splits sum.splits option.splits)

lemma copy_each_tripped: "tripped (snd (copy_each e F T segs x)) = tripped (snd x)"
proof (induction segs arbitrary: x)
  case (Cons s segs)
  obtain t w where x: "x = (t, w)" by (metis surj_pair)
  obtain r w1 where r: "copy_segment_for_migration e s F T w = (r, w1)" by force
  then have "tripped w1 = tripped w" by (rule copy_segment_tripped)
  then show ?case using Cons.IH unfolding x copy_each_step [OF r] by simp
qed simp

lemma create_dirs_tripped: "tripped (snd (create_dirs e ds w)) = tripped w"
  by (induction ds arbitrary: w) (auto simp: create_dir_all_def draw_def Let_def split: if_splits)

lemma fsync_dirs_tripped: "tripped (fsync_dirs e copied ds w) = tripped w"
  by (induction ds arbitrary: w) (auto simp: draw_def Let_def)

lemma bulk_tripped: "tripped (snd (bulk_update_segment_storage e ids to from w)) = tripped w"
  by (simp add: bulk_update_segment_storage_def draw_def Let_def)

lemma clean_each_tripped: "tripped (snd (snd (clean_each e flipped cs x))) = tripped (snd (snd x))"
proof (induction cs arbitrary: x)
  case (Cons c cs)
  then show ?case by (cases x) (simp add: Let_def unlink_def draw_def)
qed simp

lemma ensure_marker_tripped: "tripped (ensure_marker e base w) = tripped w"
  by (simp add: ensure_marker_def vault_prims)

lemma listing_tripped: "tripped (snd (list_policy_segments_on_storage e pid i n w)) = tripped w"
  by (simp add: list_policy_segments_on_storage_def query_def draw_def Let_def)

lemma calm_batch_tripped:
  assumes quiet: "undisturbed de" and run: "drain_batch e de mig F to (jobs, w) = (r, jobs', w')"
  shows "tripped w' = tripped w"
proof -
  obtain f w0 where d: "draw e w = (f, w0)" by force
  have w0: "tripped w0 = tripped w" using draw_frame(4) [of e w] d by simp
  obtain l w1 where ls: "list_policy_segments_on_storage e (mj_policy mig) (mj_from mig) migration_batch w0 = (l, w1)" by force
  have w1: "tripped w1 = tripped w" using listing_tripped [of e "mj_policy mig" "mj_from mig" migration_batch w0] ls w0 by simp
  obtain c w2 where dc: "destination_confirmed e to w1 = (c, w2)" by force
  have w2: "tripped w2 = tripped w" using destination_frame(3) [OF dc] w1 by simp
  have w2': "tripped (raise_storage_event e w2) = tripped w" using w2 by (simp add: raise_storage_event_def raise_event_def draw_def)
  note start = run [unfolded drain_batch_def fst_conv snd_conv d, unfolded Let_def prod.case ls]
  show ?thesis
  proof (cases "\<exists>b bs. l = Inr (b # bs) \<and> c = Inr True")
    case False
    then have "w' \<in> {w0, w1, w2, raise_storage_event e w2}"
      using start dc by (auto split: if_splits sum.splits list.splits bool.splits)
    then show ?thesis using w0 w1 w2 w2' by auto
  next
    case True
    then obtain b bs where l: "l = Inr (b # bs)" and c: "c = Inr True" by blast
    obtain y w3 where cr: "create_dirs e (batch_dirs (st_path to) (b # bs)) w2 = (y, w3)" by force
    have w3: "tripped w3 = tripped w" using create_dirs_tripped [of e _ w2] cr w2 by (metis snd_conv)
    obtain copied sk fl w4 where ce: "copy_each e F (st_path to) (b # bs) (([], 0, 0), w3) = ((copied, sk, fl), w4)"
      by (metis prod_cases4 surj_pair)
    have w4: "tripped w4 = tripped w" using copy_each_tripped [of e F "st_path to" "b # bs" "(([], 0, 0), w3)"] ce w3 by simp
    define w5 where "w5 = fsync_dirs e copied (batch_dirs (st_path to) (b # bs)) w4"
    have w5: "tripped w5 = tripped w" using w4 by (simp add: w5_def fsync_dirs_tripped)
    have hook: "de_meanwhile de (draws w5) w5 = w5" using quiet by (simp add: undisturbed_def)
    obtain x w7 where bu: "bulk_update_segment_storage e (map cp_id copied) (mj_to mig) (mj_from mig) w5 = (x, w7)" by force
    have w7: "tripped w7 = tripped w" using bulk_tripped [of e _ _ _ w5] bu w5 by (metis snd_conv)
    have "w' = w0 \<or> w' = w3 \<or> w' = w7 \<or> (\<exists>flipped. w' = snd (snd (clean_each e flipped copied (0, 0, w7))) \<or>
        w' = snd (draw e (ensure_marker e (st_path to) (snd (snd (clean_each e flipped copied (0, 0, w7)))))))"
      using start dc l c cr ce bu hook unfolding w5_def [symmetric]
      by (auto simp: w5_def [symmetric] case_prod_beta split: if_splits sum.splits)
    then show ?thesis using w0 w3 w7 by (auto simp: clean_each_tripped ensure_marker_tripped)
  qed
qed

lemma batch_keeps_marker:
  assumes run: "drain_batch e de mig (st_path from) to (jobs, w) = (r, jobs', w')"
    and old: "storage_of e (mj_from mig) = Some from" and new: "storage_of e (mj_to mig) = Some to"
    and quiet: "undisturbed de" and ap: "apart e (index w)" and guard: "guard_works e (st_path from) (st_path to)"
    and m: "m \<in> marker_files e" "disk w m \<noteq> None"
  shows "disk w' m \<noteq> None"
  using run
proof (cases rule: drain_batch_cases)
  case quiet
  then show ?thesis using m by simp
next
  case (work batch w3 copied sk fl w4 w5 x w7)
  have hook: "de_meanwhile de (draws w5) w5 = w5" using quiet by (simp add: undisturbed_def)
  have g: "ve_canon e (st_path from @ sg_path y) \<noteq> ve_canon e (st_path to @ sg_path y) \<or> (\<forall>n. \<not> ve_stat_fails e n)" for y
    using guard by (auto simp: guard_works_def)
  have off: "m \<noteq> ve_canon e (st_path st @ sg_path y)" if "y \<in> set batch" "storage_of e i = Some st" for y i st
    using root_roam [OF that(2), of y] that(1) ap m(1) oldest_first_subset [of migration_batch "on_old_storage e mig" "index w"]
    unfolding work(3) apart_def by blast
  have "disk w4 m = disk w3 m" by (rule copy_each_frame(2) [OF work(5)]) (rule off [OF _ new])
  then have w5: "disk w5 m = disk w m" using work(1,6) by simp
  have away: "m \<noteq> ve_canon e (cp_src c)" "m \<noteq> ve_canon e (cp_dst c)" if "c \<in> set copied" for c
  proof -
    have "\<exists>y \<in> set batch. copied_as y (st_path from) (st_path to) c"
      using copy_each_copied [OF work(5) g] that by auto
    then obtain y where "y \<in> set batch" "copied_as y (st_path from) (st_path to) c" by blast
    then show "m \<noteq> ve_canon e (cp_src c)" "m \<noteq> ve_canon e (cp_dst c)" using off old new by (auto simp: copied_as_def)
  qed
  show ?thesis
    using work(8) [unfolded hook]
  proof (cases rule: bulk_update_cases)
    case (1 er)
    then show ?thesis using work(9) w5 m by simp
  next
    case 2
    define hits where "hits = map sg_id (filter (flips (map cp_id copied) (mj_from mig)) (index w5))"
    obtain moved bytes w8 where cl: "clean_each e hits copied (0, 0, w7) = (moved, bytes, w8)"
      and fin: "disk w' = disk w8 \<or> disk w' = disk (ensure_marker e (st_path to) w8)"
      using work(10) [OF 2(1), folded hits_def] unfolding cleaned_up_def by blast
    have "disk w8 m = disk w7 m" by (rule clean_each_frame(2) [OF cl]) (use away in auto)
    then have "disk w8 m \<noteq> None" using 2(2) w5 m by simp
    then show ?thesis using fin by (auto simp: ensure_marker_def vault_prims)
  qed
qed

text \<open>A row that leaves the old storage leaves no file there.\<close>

lemma clean_each_none: "disk (snd (snd x)) q = None \<Longrightarrow> disk (snd (snd (clean_each e flipped cs x))) q = None"
proof (induction cs arbitrary: x)
  case (Cons c cs)
  show ?case by (cases x) (use Cons in \<open>simp add: Let_def unlink_def draw_def\<close>)
qed simp

lemma clean_each_removes:
  assumes "calm e" and "c \<in> set cs" and "cp_id c \<in> set flipped" and "\<not> cp_in_place c"
  shows "disk (snd (snd (clean_each e flipped cs x))) (ve_canon e (cp_src c)) = None"
  using assms(2)
proof (induction cs arbitrary: x)
  case (Cons d cs)
  obtain m b w where x: "x = (m, b, w)" by (metis prod_cases3)
  show ?case
  proof (cases "d = c")
    case True
    have "clean_each e flipped (d # cs) x = clean_each e flipped cs (m + 1, b + cp_size c, snd (unlink e (cp_src c) w))"
      using True assms(3,4) by (simp add: x)
    then show ?thesis using clean_each_none calm_unlink [OF assms(1)] by simp
  next
    case False
    then show ?thesis using Cons by (simp add: x Let_def)
  qed
qed simp

lemma copy_each_moves:
  assumes "copy_each e F T segs (t, w) = (t', w')" and "\<And>p. ve_canon e (F @ p) \<noteq> ve_canon e (T @ p)"
    and "\<forall>c \<in> set (fst t). \<not> cp_in_place c"
  shows "\<forall>c \<in> set (fst t'). \<not> cp_in_place c"
  using assms(1,3)
proof (induction segs arbitrary: t w)
  case (Cons x segs)
  obtain r w1 where r: "copy_segment_for_migration e x F T w = (r, w1)" by force
  have rest: "copy_each e F T segs (tally_outcome r t, w1) = (t', w')"
    using Cons.prems(1) unfolding copy_each_step [OF r] .
  have "\<forall>c \<in> set (fst (tally_outcome r t)). \<not> cp_in_place c"
    using Cons.prems(2) copy_segment_copied(2) [OF r refl refl] assms(2)
    by (auto simp: tally_copied split: migration_outcome.splits)
  then show ?case by (rule Cons.IH [OF rest])
qed simp

lemma batch_clears:
  assumes run: "drain_batch e de mig (st_path from) to (jobs, w) = (r, jobs', w')"
    and old: "storage_of e (mj_from mig) = Some from" and new: "storage_of e (mj_to mig) = Some to"
    and calm: "calm e" and quiet: "undisturbed de" and ap: "apart e (index w)"
    and two: "\<And>p. ve_canon e (st_path from @ p) \<noteq> ve_canon e (st_path to @ p)"
    and src: "src = ve_canon e (st_path from @ sg_path s)"
    and s: "s \<in> set (index w) \<and> sg_storage s = mj_from mig \<or> s\<lparr>sg_storage := mj_to mig\<rparr> \<in> set (index w) \<and> disk w src = None"
    and ne: "mj_to mig \<noteq> mj_from mig"
  shows "s \<in> set (index w') \<or> disk w' src = None"
  using run
proof (cases rule: drain_batch_cases)
  case quiet
  then show ?thesis using s by auto
next
  case (work batch w3 copied sk fl w4 w5 x w7)
  have hook: "de_meanwhile de (draws w5) w5 = w5" using quiet by (simp add: undisturbed_def)
  have batch: "y \<in> set (index w)" "sg_storage y = mj_from mig" if "y \<in> set batch" for y
    using oldest_first_subset [of migration_batch "on_old_storage e mig" "index w"] that
    unfolding work(3) by (auto simp: on_old_storage_def)
  obtain u where u: "u \<in> set (index w)" "u \<in> forms_of (mj_to mig) s" using s by (auto simp: forms_of_def)
  note uf = forms_simps [OF u(2)]
  have mine: "src \<in> roam e s" using root_roam [OF old, of s] by (simp add: src)
  have nomark: "src \<noteq> ve_canon e (storage_marker_path (st_path to))"
  proof -
    have "ve_canon e (storage_marker_path (st_path to)) \<in> marker_files e"
      using storage_of_mem [OF new] by (auto simp: marker_files_def)
    moreover have "roam e s \<inter> marker_files e = {}" using ap u(1) uf by (auto simp: apart_def)
    ultimately show ?thesis using mine by auto
  qed
  have ix5: "index w5 = index w" using copy_each_frame(1) [OF work(5)] work(2,7) by simp
  have gone: "disk w5 src = None" if away: "s \<notin> set (index w)"
  proof -
    have m: "s\<lparr>sg_storage := mj_to mig\<rparr> \<in> set (index w)" "disk w src = None" using s away by blast+
    have "src \<noteq> ve_canon e (st_path to @ sg_path y)" if y: "y \<in> set batch" for y
    proof -
      have "sg_id y \<noteq> sg_id s"
      proof
        assume i: "sg_id y = sg_id s"
        have "y = s\<lparr>sg_storage := mj_to mig\<rparr>"
          using ap batch(1) [OF y] m i by (auto simp: apart_def distinct_map inj_on_def)
        then show False using batch(2) [OF y] ne by simp
      qed
      then have "roam e y \<inter> roam e s = {}" using ap batch(1) [OF y] u(1) uf by (metis apart_def)
      then show ?thesis using mine root_roam [OF new, of y] by auto
    qed
    then have "disk w4 src = disk w3 src" using copy_each_frame(2) [OF work(5)] by metis
    then show ?thesis using work(1,6) m(2) by simp
  qed
  show ?thesis
    using work(8) [unfolded hook]
  proof (cases rule: bulk_update_cases)
    case (1 er)
    then have "index w' = index w" "disk w' = disk w5" using work(9) ix5 by simp_all
    then show ?thesis using gone by (cases "s \<in> set (index w)") simp_all
  next
    case 2
    define hits where "hits = map sg_id (filter (flips (map cp_id copied) (mj_from mig)) (index w5))"
    obtain moved bytes w8 where cl: "clean_each e hits copied (0, 0, w7) = (moved, bytes, w8)"
      and ix: "index w' = index w8" and fin: "disk w' = disk w8 \<or> disk w' = disk (ensure_marker e (st_path to) w8)"
      using work(10) [OF 2(1), folded hits_def] unfolding cleaned_up_def by blast
    have same: "disk w' src = disk w8 src"
      using fin nomark by (auto simp: ensure_marker_def vault_prims)
    have ix7: "index w' = index w7" using ix clean_each_frame(1) [OF cl] by simp
    consider "s \<notin> set (index w)" | "s \<in> set (index w)" "sg_id s \<notin> cp_id ` set copied"
      | c where "s \<in> set (index w)" "c \<in> set copied" "cp_id c = sg_id s" by force
    then show ?thesis
    proof cases
      case 1
      then show ?thesis using gone 2(2) clean_each_none [of "(0, 0, w7)" src e hits copied] cl same by simp
    next
      case staying: 2
      then have "\<not> flips (map cp_id copied) (mj_from mig) s" by (auto simp: flips_def)
      then show ?thesis using staying(1) ix5 unfolding ix7 2(3) by force
    next
      case 3
      have here: "sg_storage s = mj_from mig"
      proof (rule ccontr)
        assume "sg_storage s \<noteq> mj_from mig"
        then have m: "s\<lparr>sg_storage := mj_to mig\<rparr> \<in> set (index w)" using s by blast
        have "\<forall>c \<in> set copied. \<exists>y \<in> set batch. copied_as y (st_path from) (st_path to) c"
          using copy_each_copied [OF work(5)] two by auto
        then obtain y where y: "y \<in> set batch" "copied_as y (st_path from) (st_path to) c" using 3(2) by blast
        then have "y = s"
          using ap batch(1) 3(1,3) by (auto simp: apart_def distinct_map inj_on_def copied_as_def)
        then show False using batch(2) [OF y(1)] \<open>sg_storage s \<noteq> mj_from mig\<close> by simp
      qed
      have "\<forall>c \<in> set copied. \<exists>y \<in> set batch. copied_as y (st_path from) (st_path to) c"
        using copy_each_copied [OF work(5)] two by auto
      then obtain y where y: "y \<in> set batch" "copied_as y (st_path from) (st_path to) c" using 3(2) by blast
      then have "y = s" using ap batch(1) 3(1,3) by (auto simp: apart_def distinct_map inj_on_def copied_as_def)
      then have cs: "cp_src c = st_path from @ sg_path s" using y by (simp add: copied_as_def)
      have np: "\<not> cp_in_place c" using copy_each_moves [OF work(5) two] 3(2) by simp
      have "cp_id c \<in> set hits"
        using 3 here ix5 by (force simp: hits_def flips_def)
      then have "disk w8 src = None"
        using clean_each_removes [OF calm 3(2) _ np, of hits "(0, 0, w7)"] cl cs by (simp add: src)
      then show ?thesis using same by simp
    qed
  qed
qed

lemma batch_brings_none:
  assumes run: "drain_batch e de mig F to (jobs, w) = (r, jobs', w')" and quiet: "undisturbed de"
    and ne: "mj_to mig \<noteq> mj_from mig" and s: "s \<in> set (index w')" "sg_storage s = mj_from mig"
  shows "s \<in> set (index w)"
  using run
proof (cases rule: drain_batch_cases)
  case quiet
  then show ?thesis using s by simp
next
  case (work batch w3 copied sk fl w4 w5 x w7)
  have ix5: "index w5 = index w" using copy_each_frame(1) [OF work(5)] work(2,7) by simp
  have hook: "de_meanwhile de (draws w5) w5 = w5" using quiet by (simp add: undisturbed_def)
  show ?thesis
    using work(8) [unfolded hook]
  proof (cases rule: bulk_update_cases)
    case (1 er)
    then show ?thesis using work(9) ix5 s by simp
  next
    case 2
    have "index w' = index w7" using work(10) [OF 2(1)] clean_each_frame(1) unfolding cleaned_up_def by metis
    then show ?thesis using s ne ix5 unfolding 2(3) by (auto split: if_splits)
  qed
qed

lemma batch_apart:
  assumes run: "drain_batch e de mig F to (jobs, w) = (r, jobs', w')" and quiet: "undisturbed de" and ap: "apart e (index w)"
  shows "apart e (index w')"
  using run
proof (cases rule: drain_batch_cases)
  case quiet
  then show ?thesis using ap by simp
next
  case (work batch w3 copied sk fl w4 w5 x w7)
  have ix5: "index w5 = index w" using copy_each_frame(1) [OF work(5)] work(2,7) by simp
  have hook: "de_meanwhile de (draws w5) w5 = w5" using quiet by (simp add: undisturbed_def)
  show ?thesis
    using work(8) [unfolded hook]
  proof (cases rule: bulk_update_cases)
    case (1 er)
    then show ?thesis using work(9) ix5 ap by simp
  next
    case 2
    have "index w' = index w7" using work(10) [OF 2(1)] clean_each_frame(1) unfolding cleaned_up_def by metis
    then show ?thesis using flip_apart ap ix5 unfolding 2(3) by simp
  qed
qed

definition runs :: "storage_migration \<Rightarrow> storage_migration list \<Rightarrow> bool" where
  "runs mig jobs \<longleftrightarrow> (\<exists>m. get_storage_migration (mj_id mig) jobs = Some m \<and> mj_status m = Running)"

lemma batch_runs:
  assumes "drain_batch e de mig F to (jobs, w) = (r, jobs', w')" and "undisturbed de" and "runs mig jobs"
  shows "runs mig jobs'"
proof -
  have "runs mig (add_migration_progress now (mj_id mig) n bytes js)" if "runs mig js" for n bytes now js
    using that by (induction js) (auto simp: runs_def add_migration_progress_def get_storage_migration_def)
  then show ?thesis using drain_batch_jobs [OF assms(1)] assms(2,3) by (auto simp: no_requests)
qed

lemma batch_ready:
  assumes run: "drain_batch e de mig (st_path from) to (jobs, w) = (r, jobs', w')"
    and old: "storage_of e (mj_from mig) = Some from" and new: "storage_of e (mj_to mig) = Some to"
    and quiet: "undisturbed de" and two: "\<And>p. ve_canon e (st_path from @ p) \<noteq> ve_canon e (st_path to @ p)"
    and ne: "mj_to mig \<noteq> mj_from mig" and ready: "ready e mig (st_path from) to w"
  shows "ready e mig (st_path from) to w'"
proof -
  have guard: "guard_works e (st_path from) (st_path to)" using two by (simp add: guard_works_def)
  have ap: "apart e (index w)" using ready by (simp add: ready_def)
  have alone: "leaves_alone e de (mj_to mig) s" for s using quiet by (simp add: leaves_alone_def undisturbed_def)
  note keeps = drain_batch_keeps [OF run old new ap alone guard]
  have rows: "s \<in> set (index w) \<and> disk w' (ve_canon e (st_path from @ sg_path s)) = disk w (ve_canon e (st_path from @ sg_path s))"
    if s: "s \<in> set (index w')" "on_old_storage e mig s" for s
  proof -
    have here: "sg_storage s = mj_from mig" using s(2) by (simp add: on_old_storage_def)
    have in_w: "s \<in> set (index w)" by (rule batch_brings_none [OF run quiet ne s(1) here])
    obtain b where b: "disk w (ve_canon e (st_path from @ sg_path s)) = Some b" using ready in_w s(2) by (auto simp: ready_def)
    have sp: "spot e s = Some (ve_canon e (st_path from @ sg_path s))" using old here by (simp add: spot_def)
    have "drained e (mj_to mig) s b w" using in_w sp b by (auto simp: drained_def forms_of_def)
    then have dr: "drained e (mj_to mig) s b w'" "apart e (index w')" using keeps by blast+
    have "s\<lparr>sg_storage := mj_to mig\<rparr> \<notin> set (index w')"
    proof
      assume m: "s\<lparr>sg_storage := mj_to mig\<rparr> \<in> set (index w')"
      have "s = s\<lparr>sg_storage := mj_to mig\<rparr>"
        using dr(2) s(1) m unfolding apart_def distinct_map inj_on_def by (metis segment.select_convs(1) segment.surjective segment.update_convs(3))
      then have "sg_storage s = mj_to mig" by (metis segment.select_convs(3) segment.surjective segment.update_convs(3))
      then show False using here ne by simp
    qed
    then have "disk w' (ve_canon e (st_path from @ sg_path s)) = Some b"
      using dr(1) sp by (auto simp: drained_def forms_of_def)
    then show ?thesis using in_w b by simp
  qed
  have ap': "apart e (index w')" by (rule batch_apart [OF run quiet ap])
  have "ve_canon e (storage_marker_path (st_path to)) \<in> marker_files e"
    using storage_of_mem [OF new] by (auto simp: marker_files_def)
  then have "disk w' (ve_canon e (storage_marker_path (st_path to))) \<noteq> None"
    using batch_keeps_marker [OF run old new quiet ap guard] ready by (simp add: ready_def)
  moreover have "\<exists>b. disk w' (ve_canon e (st_path from @ sg_path s)) = Some b \<and> length b = as_u64 (sg_size s)"
    if "s \<in> set (index w')" "on_old_storage e mig s" for s
    using rows [OF that] ready that(2) by (auto simp: ready_def)
  ultimately show ?thesis using ap' ready calm_batch_tripped [OF quiet run] unfolding ready_def by metis
qed

lemma loop_completes:
  assumes old: "storage_of e (mj_from mig) = Some from" and new: "storage_of e (mj_to mig) = Some to"
    and calm: "calm e" and quiet: "undisturbed de" and two: "\<And>p. ve_canon e (st_path from @ p) \<noteq> ve_canon e (st_path to @ p)"
    and ne: "mj_to mig \<noteq> mj_from mig"
  shows "drain_loop e de mig (st_path from) to k (jobs, w) = (r, jobs', w') \<Longrightarrow> ready e mig (st_path from) to w \<Longrightarrow>
    runs mig jobs \<Longrightarrow> waiting mig w < k \<Longrightarrow> r = Some (Inr ()) \<and> (\<forall>s \<in> set (index w'). \<not> on_old_storage e mig s) \<and> runs mig jobs'"
proof (induction k arbitrary: jobs w)
  case (Suc k)
  obtain x jobs1 w1 where b: "drain_batch e de mig (st_path from) to (jobs, w) = (x, jobs1, w1)" by (metis prod_cases3)
  obtain m where m: "get_storage_migration (mj_id mig) jobs = Some m" "mj_status m = Running"
    using Suc.prems(3) by (auto simp: runs_def)
  note res = calm_batch_result [OF calm quiet Suc.prems(2) m two b]
  have runs1: "runs mig jobs1" by (rule batch_runs [OF b quiet Suc.prems(3)])
  show ?case
  proof (cases x)
    case None
    have "waiting mig w1 < waiting mig w"
      by (rule drain_batch_progress [OF b [unfolded None] ne]) (use quiet in \<open>simp add: undisturbed_def\<close>)
    then have "waiting mig w1 < k" using Suc.prems(4) by simp
    then show ?thesis
      using Suc.IH [of jobs1 w1] Suc.prems(1) b None batch_ready [OF b old new quiet two ne Suc.prems(2)] runs1 by simp
  next
    case (Some y)
    then have none: "\<not> (\<exists>s \<in> set (index w). on_old_storage e mig s)" "x = Some (Inr ())" using res by (auto split: if_splits)
    have "\<not> on_old_storage e mig s" if "s \<in> set (index w1)" for s
      using batch_brings_none [OF b quiet ne that] none(1) by (auto simp: on_old_storage_def)
    then show ?thesis using Suc.prems(1) b none(2) runs1 by simp
  qed
qed simp

lemma loop_clears:
  assumes old: "storage_of e (mj_from mig) = Some from" and new: "storage_of e (mj_to mig) = Some to"
    and calm: "calm e" and quiet: "undisturbed de" and two: "\<And>p. ve_canon e (st_path from @ p) \<noteq> ve_canon e (st_path to @ p)"
    and ne: "mj_to mig \<noteq> mj_from mig" and src: "src = ve_canon e (st_path from @ sg_path s)" and s: "sg_storage s = mj_from mig"
  shows "drain_loop e de mig (st_path from) to k (jobs, w) = (r, jobs', w') \<Longrightarrow> apart e (index w) \<Longrightarrow>
    drained e (mj_to mig) s b w \<Longrightarrow> s \<in> set (index w) \<or> disk w src = None \<Longrightarrow>
    s \<in> set (index w') \<or> disk w' src = None"
proof (induction k arbitrary: jobs w)
  case (Suc k)
  obtain x jobs1 w1 where b: "drain_batch e de mig (st_path from) to (jobs, w) = (x, jobs1, w1)" by (metis prod_cases3)
  have alone: "leaves_alone e de (mj_to mig) s" using quiet by (simp add: leaves_alone_def undisturbed_def)
  have guard: "guard_works e (st_path from) (st_path to)" using two by (simp add: guard_works_def)
  note kept = drain_batch_keeps [OF b old new Suc.prems(2) alone guard Suc.prems(3)]
  have "s \<in> set (index w) \<and> sg_storage s = mj_from mig \<or> s\<lparr>sg_storage := mj_to mig\<rparr> \<in> set (index w) \<and> disk w src = None"
    using Suc.prems(3,4) s by (auto simp: drained_def forms_of_def)
  then have gone: "s \<in> set (index w1) \<or> disk w1 src = None"
    by (rule batch_clears [OF b old new calm quiet Suc.prems(2) two src _ ne])
  show ?case
  proof (cases x)
    case None
    then show ?thesis using Suc.IH [of jobs1 w1] Suc.prems(1) b kept gone by simp
  next
    case (Some y)
    then show ?thesis using Suc.prems(1) b gone by simp
  qed
qed simp

text \<open>C15. The drain does its job. When no call fails, nobody interferes, the new storage is confirmed by its marker
  and every row's file is on the old storage with the recorded size, the drain returns success after at
  most as many batches as there are rows there, and one more: every row of the policy is then on the
  new storage with its bytes under the same path, and its file on the old storage is gone.\<close>

theorem drain_completes:
  assumes run: "run_storage_migration e de k mig (jobs, w) = (r, jobs', w')" and calm: "calm e" and quiet: "undisturbed de"
    and old: "storage_of e (mj_from mig) = Some from" and new: "storage_of e (mj_to mig) = Some to"
    and ready: "ready e mig (st_path from) to w" and runs: "runs mig jobs" and enough: "waiting mig w < k"
    and two: "\<And>p. ve_canon e (st_path from @ p) \<noteq> ve_canon e (st_path to @ p)" and ne: "mj_to mig \<noteq> mj_from mig"
  shows "r = Some (Inr ()) \<and> (\<forall>s \<in> set (index w). on_old_storage e mig s \<longrightarrow>
      s\<lparr>sg_storage := mj_to mig\<rparr> \<in> set (index w') \<and>
      disk w' (ve_canon e (st_path to @ sg_path s)) = disk w (ve_canon e (st_path from @ sg_path s)) \<and>
      disk w' (ve_canon e (st_path from @ sg_path s)) = None)"
proof -
  define v where "v = w\<lparr>draws := draws w + 2\<rparr>"
  have v: "disk v = disk w" "index v = index w" "tripped v = tripped w" by (simp_all add: v_def)
  have loop: "drain_loop e de mig (st_path from) to k (jobs, v) = (r, jobs', w')"
    using run calm old new by (simp add: run_storage_migration_def get_storage_def calm_draw v_def)
  have ready': "ready e mig (st_path from) to v" using ready v by (simp add: ready_def)
  have "waiting mig v < k" using enough v by (simp add: waiting_def)
  note fin = loop_completes [OF old new calm quiet two ne loop ready' runs this]
  have ap: "apart e (index v)" using ready' by (simp add: ready_def)
  have guard: "guard_works e (st_path from) (st_path to)" using two by (simp add: guard_works_def)
  have clean: "calm e \<Longrightarrow> no_mangle e" by (simp add: calm_def no_mangle_def)
  have "s\<lparr>sg_storage := mj_to mig\<rparr> \<in> set (index w') \<and>
      disk w' (ve_canon e (st_path to @ sg_path s)) = disk w (ve_canon e (st_path from @ sg_path s)) \<and>
      disk w' (ve_canon e (st_path from @ sg_path s)) = None"
    if s: "s \<in> set (index w)" "on_old_storage e mig s" for s
  proof -
    have here: "sg_storage s = mj_from mig" using s(2) by (simp add: on_old_storage_def)
    obtain b where b: "disk w (ve_canon e (st_path from @ sg_path s)) = Some b" using ready s by (auto simp: ready_def)
    have alone: "leaves_alone e de (mj_to mig) s" using quiet by (simp add: leaves_alone_def undisturbed_def)
    have "drained e (mj_to mig) s b v" using s old here b v by (auto simp: drained_def forms_of_def spot_def)
    note kept = drain_loop_keeps [OF old new alone guard loop ap this] loop_clears [OF old new calm quiet two ne refl here loop ap this]
    have "s \<notin> set (index w')" using fin s(2) by blast
    then show ?thesis
      using kept s(1) v b clean [OF calm] new by (auto simp: drained_def forms_of_def spot_def copy_of_def)
  qed
  then show ?thesis using fin by blast
qed

subsection \<open>Two limits of the drain\<close>

text \<open>C38. The clean-up of a batch can delete the only copy of a segment. The copies of a batch are made
  without the lock of the archiver. If the archiver moves a copied segment to the storage and path the
  drain copied it to (its path already has the form of an archive path, as after an adoption by the orphan
  pass), the guarded update of the drain finds the row changed and the clean-up takes the archived file
  for its own superfluous copy and removes it: the row stays without a file.\<close>

theorem drain_can_delete_an_archived_segment:
  assumes calm: "calm e" and old: "storage_of e (mj_from mig) = Some from" and new: "storage_of e (mj_to mig) = Some to"
    and ready: "ready e mig (st_path from) to w" and runs: "runs mig jobs" and none: "\<And>n. de_requests de n = []"
    and two: "\<And>p. ve_canon e (st_path from @ p) \<noteq> ve_canon e (st_path to @ p)" and ne: "mj_to mig \<noteq> mj_from mig"
    and one: "index w = [s]" "on_old_storage e mig s"
    and rel: "archive_relative_path e (sg_camera s) (sg_start s) (sg_path s) = Some (sg_path s)"
    and race: "\<And>n v. de_meanwhile de n v = snd (move_segment_to_archive e s (st_path from) (st_path to) (mj_to mig) v)"
    and run: "drain_batch e de mig (st_path from) to (jobs, w) = (r, jobs', w')"
  shows "index w' = [archived (mj_to mig) (sg_path s) s] \<and> disk w' (ve_canon e (st_path to @ sg_path s)) = None \<and>
    disk w' (ve_canon e (st_path from @ sg_path s)) = None"
proof -
  let ?F = "st_path from" and ?T = "st_path to"
  let ?src = "ve_canon e (?F @ sg_path s)" and ?dst = "ve_canon e (?T @ sg_path s)"
  obtain m where m: "get_storage_migration (mj_id mig) jobs = Some m" "mj_status m = Running" using runs by (auto simp: runs_def)
  have serve: "serve_requests de w jobs = jobs" using none by (simp add: serve_requests_def)
  define w0 where "w0 = w\<lparr>draws := draws w + 1\<rparr>"
  have d: "draw e w = (Good, w0)" using calm by (simp add: calm_draw w0_def)
  have w0: "index w0 = index w" "disk w0 = disk w" "tripped w0 = tripped w" by (simp_all add: w0_def)
  have batch: "oldest_first migration_batch (on_old_storage e mig) (index w) = [s]"
    using one by (simp add: oldest_first_def migration_batch_def)
  obtain w1 where ls: "list_policy_segments_on_storage e (mj_policy mig) (mj_from mig) migration_batch w0 = (Inr [s], w1)"
    and w1: "index w1 = index w" "disk w1 = disk w" "tripped w1 = tripped w"
    using calm_listing [OF calm, of mig w0] w0 batch by auto
  have ready1: "ready e mig ?F to w1" using ready w1 by (simp add: ready_def)
  obtain w2 where dc: "destination_confirmed e to w1 = (Inr True, w2)" using calm_confirmed [OF calm ready1] by blast
  obtain w3 where cr: "create_dirs e (batch_dirs ?T [s]) w2 = (Inr (), w3)" using calm_create_dirs [OF calm] by blast
  have w3: "disk w3 = disk w" "index w3 = [s]"
    using create_dirs_frame [OF cr] destination_frame [OF dc] w1 one by simp_all
  obtain b where b: "disk w3 ?src = Some b" "length b = as_u64 (sg_size s)" using ready one w3 by (auto simp: ready_def)
  obtain c w4 where c: "copy_segment_for_migration e s ?F ?T w3 = (MigCopied c, w4)"
    using calm_copy_segment [OF calm two b] by blast
  note cs = copy_segment_frame [OF c] copy_segment_copied [OF c refl refl]
  have cc: "cp_id c = sg_id s" "cp_dst c = ?T @ sg_path s" "\<not> cp_in_place c" "disk w4 ?src = Some b"
    using cs(3,4) two b by (auto simp: copied_as_def)
  have ce: "copy_each e ?F ?T [s] (([], 0, 0), w3) = (([c], 0, 0), w4)" using c by (simp add: tally_outcome_def)
  define w5 where "w5 = fsync_dirs e [c] (batch_dirs ?T [s]) w4"
  have w5: "disk w5 ?src = Some b" "index w5 = [s]" using cc(4) cs(1) w3 by (simp_all add: w5_def)
  obtain x w6 where mv: "move_segment_to_archive e s ?F ?T (mj_to mig) w5 = (x, w6)" by force
  have w6: "index w6 = [archived (mj_to mig) (sg_path s) s]" "disk w6 ?src = None"
    using archive_move_owns_destination [of e s "sg_path s" ?F ?T w5 "mj_to mig" x w6] calm rel two mv w5 b(2)
    by (simp_all add: calm_def flip_row_def)
  have hook: "de_meanwhile de (draws w5) w5 = w6" using race mv by simp
  obtain w7 where bu: "bulk_update_segment_storage e [cp_id c] (mj_to mig) (mj_from mig) w6 = (Inr [], w7)"
      "index w7 = index w6" "disk w7 = disk w6"
    using ne by (simp add: bulk_update_segment_storage_def calm_draw [OF calm] w6 flips_def archived_def)
  define w8 where "w8 = snd (unlink e (cp_dst c) w7)"
  have cl: "clean_each e [] [c] (0, 0, w7) = (0, 0, w8)" using cc(3) by (simp add: w8_def)
  have w8: "index w8 = index w6" "disk w8 = (disk w6)(?dst := None)"
    using bu by (simp_all add: w8_def calm_unlink [OF calm] cc(2))
  have "w' = w8"
    using run [unfolded drain_batch_def fst_conv snd_conv serve d, unfolded Let_def prod.case] m ls dc cr ce
    by (simp add: w5_def [symmetric] w8_def cc(3) hook bu(1) cl)
  then show ?thesis using w8 w6 two by simp
qed

text \<open>The copy of the drain does not compare checksums. A copy of the right length with other bytes on the
  disk is accepted, so the row is moved to it and the source deleted.\<close>

theorem migration_accepts_same_length_corruption:
  assumes "disk w (ve_canon e (F @ sg_path seg)) = Some b" and "length b = as_u64 (sg_size seg)"
    and "ve_canon e (F @ sg_path seg) \<noteq> ve_canon e (T @ sg_path seg)" and "\<And>n. \<not> ve_stat_fails e n"
    and "ve_fault e (draws w + 5) = Mangled m" and "length m = length b" and "\<And>n. n \<noteq> draws w + 5 \<Longrightarrow> ve_fault e n = Good"
  shows "let (r, w') = copy_segment_for_migration e seg F T w in
    (\<exists>c. r = MigCopied c \<and> cp_id c = sg_id seg) \<and> disk w' (ve_canon e (T @ sg_path seg)) = Some m"
  using assms
  by (simp add: copy_segment_for_migration_def copy_with_crc32_def file_exists_def same_file_def stat_def
      metadata_len_def fsync_file_only_def draw_def put_file_def Let_def eval_nat_numeral)


subsection \<open>Concrete runs\<close>

definition demo_job :: storage_migration where
  "demo_job = \<lparr>mj_id = 1, mj_policy = 5, mj_from = 1, mj_to = 2, mj_status = Running, mj_moved = 0, mj_bytes = 0,
     mj_error = None, mj_created = 0, mj_updated = 0\<rparr>"

definition demo_drain :: "(nat \<Rightarrow> vault \<Rightarrow> vault) \<Rightarrow> drain_env" where
  "demo_drain f = \<lparr>de_meanwhile = f, de_requests = (\<lambda>_. []), de_now = (\<lambda>_. 0)\<rparr>"

definition demo_adopted :: segment where
  "demo_adopted = (demo_segment 11)\<lparr>sg_path := [''cam'', ''2026'', ''01'', ''02'', ''a.mp4'']\<rparr>"

definition demo_two_disks :: vault where
  "demo_two_disks = demo_vault\<lparr>index := [demo_adopted],
     disk := [[''live'', ''cam'', ''2026'', ''01'', ''02'', ''a.mp4''] \<mapsto> [1, 2, 3],
              storage_marker_path [''archive''] \<mapsto> []]\<rparr>"

lemma demo_apart: "apart (demo_vault_env f g) [demo_segment 11]"
  by (simp add: apart_def roam_def marker_files_def demo_vault_simps storage_marker_path_def)

lemma demo_files:
  "storage_of (demo_vault_env f g) 1 = Some \<lparr>st_id = 1, st_path = [''live'']\<rparr>"
  "storage_of (demo_vault_env f g) 2 = Some \<lparr>st_id = 2, st_path = [''archive'']\<rparr>"
  "spot (demo_vault_env f g) (demo_segment 11) = Some [''live'', ''cam'', ''a.mp4'']"
  "disk demo_vault [''live'', ''cam'', ''a.mp4''] = Some [1, 2, 3]"
  by (simp_all add: spot_def storage_of_def demo_vault_simps)

lemma demo_ids: "mj_id demo_job = 1" "mj_from demo_job = 1" "mj_to demo_job = 2" "mj_policy demo_job = 5"
  by (simp_all add: demo_job_def)

theorem drain_keeps_every_segment_witness:
  "let e = demo_vault_env (\<lambda>n. if n = 13 then Broken True None else Good) (\<lambda>_. False);
       (r, jobs, w) = run_storage_migration e (demo_drain (\<lambda>_ v. v)) 2 demo_job ([demo_job], demo_vault)
   in (demo_segment 11 \<in> set (index w) \<and> disk w [''live'', ''cam'', ''a.mp4''] = Some [1, 2, 3]) \<or>
      (\<exists>q b'. spot e ((demo_segment 11)\<lparr>sg_storage := 2\<rparr>) = Some q \<and> disk w q = Some b' \<and> length b' = 3)"
proof -
  let ?e = "demo_vault_env (\<lambda>n. if n = 13 then Broken True None else Good) (\<lambda>_. False)"
  obtain r jobs w where run: "run_storage_migration ?e (demo_drain (\<lambda>_ v. v)) 2 demo_job ([demo_job], demo_vault) = (r, jobs, w)"
    by (metis prod_cases3)
  have h: "apart ?e (index demo_vault)" "demo_segment 11 \<in> set (index demo_vault)"
    using demo_apart by (simp_all add: demo_vault_def)
  have g: "guard_works ?e F T" for F T by (simp add: guard_works_def demo_vault_env_def)
  have a: "leaves_alone ?e (demo_drain (\<lambda>_ v. v)) (mj_to demo_job) (demo_segment 11)" by (simp add: leaves_alone_def demo_drain_def)
  show ?thesis
    using drain_keeps_every_segment [OF run h(1) g a h(2) demo_files(3,4)]
    by (auto simp: run demo_ids)
qed

theorem drain_ends_witness:
  "fst (run_storage_migration (demo_vault_env (\<lambda>_. Good) (\<lambda>_. False)) (demo_drain (\<lambda>_ v. v)) 2 demo_job ([demo_job], demo_vault)) \<noteq> None"
proof -
  let ?e = "demo_vault_env (\<lambda>_. Good) (\<lambda>_. False)"
  obtain r jobs w where run: "run_storage_migration ?e (demo_drain (\<lambda>_ v. v)) 2 demo_job ([demo_job], demo_vault) = (r, jobs, w)"
    by (metis prod_cases3)
  have "waiting demo_job demo_vault < 2" by (simp add: waiting_def demo_job_def demo_vault_simps)
  then show ?thesis
    using drain_ends [OF run] unfolding run by (simp add: demo_ids demo_drain_def)
qed

theorem finished_jobs_stay_witness:
  "get_storage_migration 3 (fst (snd (migration_worker_round (demo_vault_env (\<lambda>_. Good) (\<lambda>_. False))
      ((demo_drain (\<lambda>_ v. v))\<lparr>de_requests := (\<lambda>_. [Retry 1, Cancel 3])\<rparr>) 2
      ([demo_job\<lparr>mj_status := FailedJob\<rparr>, demo_job\<lparr>mj_id := 3, mj_status := DoneJob\<rparr>], demo_vault)))) =
   Some (demo_job\<lparr>mj_id := 3, mj_status := DoneJob\<rparr>)"
proof -
  let ?e = "demo_vault_env (\<lambda>_. Good) (\<lambda>_. False)"
  let ?de = "(demo_drain (\<lambda>_ v. v))\<lparr>de_requests := (\<lambda>_. [Retry 1, Cancel 3])\<rparr>"
  let ?jobs = "[demo_job\<lparr>mj_status := FailedJob\<rparr>, demo_job\<lparr>mj_id := 3, mj_status := DoneJob\<rparr>]"
  obtain r jobs w where run: "migration_worker_round ?e ?de 2 (?jobs, demo_vault) = (r, jobs, w)" by (metis prod_cases3)
  have "get_storage_migration 3 ?jobs = Some (demo_job\<lparr>mj_id := 3, mj_status := DoneJob\<rparr>)" "distinct (map mj_id ?jobs)"
    by (simp_all add: get_storage_migration_def demo_job_def)
  then show ?thesis
    using finished_jobs_stay [OF run, of 3 "demo_job\<lparr>mj_id := 3, mj_status := DoneJob\<rparr>"] unfolding run by (simp add: over_def demo_drain_def)
qed

theorem drain_completes_witness:
  "let w = snd (snd (run_storage_migration (demo_vault_env (\<lambda>_. Good) (\<lambda>_. False)) (demo_drain (\<lambda>_ v. v)) 2 demo_job
       ([demo_job], demo_vault\<lparr>disk := (disk demo_vault)(storage_marker_path [''archive''] \<mapsto> [])\<rparr>)))
   in disk w [''archive'', ''cam'', ''a.mp4''] = Some [1, 2, 3] \<and> disk w [''live'', ''cam'', ''a.mp4''] = None"
proof -
  let ?e = "demo_vault_env (\<lambda>_. Good) (\<lambda>_. False)" let ?T = "\<lparr>st_id = 2, st_path = [''archive'']\<rparr>"
  let ?w = "demo_vault\<lparr>disk := (disk demo_vault)(storage_marker_path [''archive''] \<mapsto> [])\<rparr>"
  obtain r jobs w where run: "run_storage_migration ?e (demo_drain (\<lambda>_ v. v)) 2 demo_job ([demo_job], ?w) = (r, jobs, w)"
    by (metis prod_cases3)
  have calm: "calm ?e" by (simp add: calm_def demo_vault_env_def)
  have quiet: "undisturbed (demo_drain (\<lambda>_ v. v))" by (simp add: undisturbed_def demo_drain_def)
  have old: "storage_of ?e (mj_from demo_job) = Some \<lparr>st_id = 1, st_path = [''live'']\<rparr>"
    and new: "storage_of ?e (mj_to demo_job) = Some ?T" using demo_files by (simp_all add: demo_job_def)
  have ready: "ready ?e demo_job (st_path \<lparr>st_id = 1, st_path = [''live'']\<rparr>) ?T ?w"
    using demo_apart by (auto simp: ready_def demo_vault_simps storage_marker_path_def as_u64_def)
  have runs: "runs demo_job [demo_job]" by (simp add: runs_def get_storage_migration_def demo_job_def)
  have enough: "waiting demo_job ?w < 2" by (simp add: waiting_def demo_job_def demo_vault_simps)
  have two: "ve_canon ?e (st_path \<lparr>st_id = 1, st_path = [''live'']\<rparr> @ p) \<noteq> ve_canon ?e (st_path ?T @ p)" for p
    by (simp add: demo_vault_env_def)
  have ne: "mj_to demo_job \<noteq> mj_from demo_job" by (simp add: demo_job_def)
  have "demo_segment 11 \<in> set (index ?w)" "on_old_storage ?e demo_job (demo_segment 11)"
    by (simp_all add: demo_vault_simps on_old_storage_def under_policy_def demo_job_def demo_policy_def)
  then show ?thesis
    using drain_completes [OF run calm quiet old new ready runs enough two ne] unfolding Let_def run
    by (auto simp: demo_ids demo_vault_simps storage_marker_path_def)
qed

theorem migration_accepts_same_length_corruption_witness:
  "disk (snd (copy_segment_for_migration (demo_vault_env (\<lambda>n. if n = 5 then Mangled [9, 9, 9] else Good) (\<lambda>_. False))
     (demo_segment 11) [''live''] [''archive''] demo_vault)) [''archive'', ''cam'', ''a.mp4''] = Some [9, 9, 9]"
proof -
  let ?e = "demo_vault_env (\<lambda>n. if n = 5 then Mangled [9, 9, 9] else Good) (\<lambda>_. False)"
  have "let (r, w') = copy_segment_for_migration ?e (demo_segment 11) [''live''] [''archive''] demo_vault in
    (\<exists>c. r = MigCopied c \<and> cp_id c = sg_id (demo_segment 11)) \<and>
    disk w' (ve_canon ?e ([''archive''] @ sg_path (demo_segment 11))) = Some [9, 9, 9]"
    by (rule migration_accepts_same_length_corruption [of _ _ _ _ "[1, 2, 3]"]) (simp_all add: demo_vault_simps as_u64_def)
  then show ?thesis by (simp add: demo_vault_simps case_prod_beta Let_def)
qed

theorem drain_can_delete_an_archived_segment_witness:
  "let e = demo_vault_env (\<lambda>_. Good) (\<lambda>_. False);
       de = demo_drain (\<lambda>_ v. snd (move_segment_to_archive e demo_adopted [''live''] [''archive''] 2 v));
       w = snd (snd (drain_batch e de demo_job [''live''] \<lparr>st_id = 2, st_path = [''archive'']\<rparr> ([demo_job], demo_two_disks)))
   in index w = [archived 2 (sg_path demo_adopted) demo_adopted] \<and>
      disk w [''archive'', ''cam'', ''2026'', ''01'', ''02'', ''a.mp4''] = None"
proof -
  let ?e = "demo_vault_env (\<lambda>_. Good) (\<lambda>_. False)"
  let ?S = "\<lparr>st_id = 1, st_path = [''live'']\<rparr>" let ?T = "\<lparr>st_id = 2, st_path = [''archive'']\<rparr>"
  let ?de = "demo_drain (\<lambda>_ v. snd (move_segment_to_archive ?e demo_adopted [''live''] [''archive''] 2 v))"
  obtain r jobs w where run: "drain_batch ?e ?de demo_job (st_path ?S) ?T ([demo_job], demo_two_disks) = (r, jobs, w)"
    by (metis prod_cases3)
  have calm: "calm ?e" by (simp add: calm_def demo_vault_env_def)
  have old: "storage_of ?e (mj_from demo_job) = Some ?S" and new: "storage_of ?e (mj_to demo_job) = Some ?T"
    using demo_files by (simp_all add: demo_job_def)
  have "apart ?e [demo_adopted]"
    by (simp add: apart_def roam_def marker_files_def demo_vault_simps storage_marker_path_def demo_adopted_def)
  then have ready: "ready ?e demo_job (st_path ?S) ?T demo_two_disks"
    by (auto simp: ready_def demo_two_disks_def demo_adopted_def demo_vault_simps storage_marker_path_def as_u64_def)
  have runs: "runs demo_job [demo_job]" by (simp add: runs_def get_storage_migration_def demo_job_def)
  have two: "ve_canon ?e (st_path ?S @ p) \<noteq> ve_canon ?e (st_path ?T @ p)" for p by (simp add: demo_vault_env_def)
  have one: "index demo_two_disks = [demo_adopted]" "on_old_storage ?e demo_job demo_adopted"
    by (simp_all add: demo_two_disks_def demo_adopted_def demo_vault_simps on_old_storage_def under_policy_def demo_job_def demo_policy_def)
  have rel: "archive_relative_path ?e (sg_camera demo_adopted) (sg_start demo_adopted) (sg_path demo_adopted) = Some (sg_path demo_adopted)"
    by (simp add: demo_adopted_def demo_vault_simps)
  have none: "de_requests ?de n = []" for n by (simp add: demo_drain_def)
  have race: "de_meanwhile ?de n v = snd (move_segment_to_archive ?e demo_adopted (st_path ?S) (st_path ?T) (mj_to demo_job) v)" for n v
    by (simp add: demo_drain_def demo_ids)
  have ne: "mj_to demo_job \<noteq> mj_from demo_job" by (simp add: demo_job_def)
  have "index w = [archived (mj_to demo_job) (sg_path demo_adopted) demo_adopted]"
      "disk w (ve_canon ?e (st_path ?T @ sg_path demo_adopted)) = None"
    using drain_can_delete_an_archived_segment [OF calm old new ready runs none two ne one rel race run] by blast+
  then show ?thesis
    using run by (simp add: Let_def demo_ids demo_vault_env_def demo_adopted_def)
qed

end
