(* ===== verification/LoginBackoff.thy ===== *)
theory LoginBackoff
  imports Prelude
begin

text \<open>
  The brakes on repeated failed logins (\<open>services/api/src/state.rs\<close>, used by \<open>login\<close> of \<open>auth.rs\<close>): one per
  pair of account and client, one per account over all clients. A \<open>DashMap\<close> is an association list.
  A login checks the brakes, verifies the password (the argument \<open>valid\<close>, \<open>None\<close> when the database
  failed) and records the outcome. \<open>try_login\<close> does the three in one step, which is what a login does that no
  other one overlaps; \<open>LoginRace\<close> has the two halves as steps that overlap. Also here: the window on channel test-fires.
\<close>

subsection \<open>The schedules\<close>

definition login_fail_threshold :: nat where "login_fail_threshold = 5"
definition login_backoff_base_secs :: nat where "login_backoff_base_secs = 2"
definition login_backoff_cap_secs :: nat where "login_backoff_cap_secs = 900"
definition login_failures_max_entries :: nat where "login_failures_max_entries = 10000"
definition account_fail_ceiling :: nat where "account_fail_ceiling = 30"
definition account_fail_window :: int where "account_fail_window = seconds (15 * 60)"
definition account_backoff_base_secs :: nat where "account_backoff_base_secs = 30"
definition account_quiet_reset :: int where "account_quiet_reset = seconds (30 * 60)"

text \<open>\<open>1_u64.checked_shl(n).unwrap_or(u64::MAX)\<close>.\<close>

definition checked_shl_one :: "nat \<Rightarrow> nat" where
  "checked_shl_one n = (if n < 64 then 2 ^ n else u64_max)"

definition login_backoff_secs :: "nat \<Rightarrow> nat option" where
  "login_backoff_secs failures =
     (if failures < login_fail_threshold then None
      else let factor = checked_shl_one (failures - login_fail_threshold)
           in Some (min (sat_mul_u64 login_backoff_base_secs factor) login_backoff_cap_secs))"

definition account_backoff_secs :: "nat \<Rightarrow> nat" where
  "account_backoff_secs strikes =
     min (sat_mul_u64 account_backoff_base_secs (checked_shl_one (strikes - 1))) login_backoff_cap_secs"

subsection \<open>The state\<close>

record fail_state =
  fs_failures :: nat
  fs_blocked_until :: instant

record account_fail_state =
  ac_recent :: "instant list"
  ac_strikes :: nat
  ac_blocked_until :: instant

record login_state =
  login_failures :: "(string \<times> fail_state) list"
  login_account_failures :: "(string \<times> account_fail_state) list"

definition login_key_sep :: char where "login_key_sep = CHR 0x1F"

definition login_key :: "string \<Rightarrow> string \<Rightarrow> string" where
  "login_key username client = username @ login_key_sep # client"

definition last_failure :: "account_fail_state \<Rightarrow> instant option" where
  "last_failure a = (if ac_recent a = [] then None else Some (last (ac_recent a)))"

text \<open>\<open>saturating_duration_since\<close>.\<close>

definition since :: "instant \<Rightarrow> instant \<Rightarrow> int" where
  "since later earlier = max (later - earlier) 0"

definition over_ceiling :: "account_fail_state \<Rightarrow> bool" where
  "over_ceiling a \<longleftrightarrow> account_fail_ceiling \<le> length (ac_recent a) \<and>
     ac_recent a \<noteq> [] \<and> since (last (ac_recent a)) (hd (ac_recent a)) \<le> account_fail_window"

subsection \<open>Operations\<close>

definition login_retry_after :: "string \<Rightarrow> string \<Rightarrow> instant \<Rightarrow> login_state \<Rightarrow> nat option" where
  "login_retry_after username client now st =
     (let pair = map_option fs_blocked_until (map_of (login_failures st) (login_key username client));
          account = map_option ac_blocked_until (map_of (login_account_failures st) username) in
      case (pair, account) of
        (None, None) \<Rightarrow> None
      | _ \<Rightarrow>
          (let until = (case (pair, account) of
                          (Some a, Some b) \<Rightarrow> max a b
                        | (Some a, None) \<Rightarrow> a
                        | (None, Some b) \<Rightarrow> b
                        | (None, None) \<Rightarrow> now) in
           if until \<le> now then None
           else Some (max (nat (since until now div seconds 1)) 1)))"

definition still_pressed :: "instant \<Rightarrow> account_fail_state \<Rightarrow> bool" where
  "still_pressed now a \<longleftrightarrow> now < ac_blocked_until a \<or>
     (0 < ac_strikes a \<and>
      (case last_failure a of None \<Rightarrow> False | Some t \<Rightarrow> since now t < account_quiet_reset))"

definition count_account_failure :: "instant \<Rightarrow> account_fail_state \<Rightarrow> account_fail_state" where
  "count_account_failure now a =
     (let quiet = (case last_failure a of None \<Rightarrow> False | Some t \<Rightarrow> account_quiet_reset \<le> since now t);
          a1 = (if quiet then a\<lparr>ac_recent := [], ac_strikes := 0\<rparr> else a);
          recent = ac_recent a1 @ [now];
          a2 = a1\<lparr>ac_recent := drop (length recent - account_fail_ceiling) recent\<rparr> in
      if 0 < ac_strikes a2 \<or> over_ceiling a2
      then let strikes = min (ac_strikes a2 + 1) u32_max
           in a2\<lparr>ac_strikes := strikes, ac_blocked_until := now + seconds (int (account_backoff_secs strikes))\<rparr>
      else a2)"

definition record_account_failure :: "string \<Rightarrow> instant \<Rightarrow> login_state \<Rightarrow> login_state" where
  "record_account_failure username now st =
     (let accounts = (if login_failures_max_entries < length (login_account_failures st)
                      then filter (\<lambda>(_, a). still_pressed now a) (login_account_failures st)
                      else login_account_failures st);
          a = (case map_of accounts username of
                 Some a \<Rightarrow> a
               | None \<Rightarrow> \<lparr>ac_recent = [], ac_strikes = 0, ac_blocked_until = now\<rparr>)
      in st\<lparr>login_account_failures := AList.update username (count_account_failure now a) accounts\<rparr>)"

definition count_failure :: "instant \<Rightarrow> fail_state \<Rightarrow> fail_state" where
  "count_failure now f =
     (let n = min (fs_failures f + 1) u32_max in
      case login_backoff_secs n of
        None \<Rightarrow> f\<lparr>fs_failures := n\<rparr>
      | Some secs \<Rightarrow> f\<lparr>fs_failures := n, fs_blocked_until := now + seconds (int secs)\<rparr>)"

definition record_login_failure :: "string \<Rightarrow> string \<Rightarrow> instant \<Rightarrow> login_state \<Rightarrow> login_state" where
  "record_login_failure username client now st =
     (let pairs = (if login_failures_max_entries < length (login_failures st)
                   then filter (\<lambda>(_, f). now < fs_blocked_until f) (login_failures st)
                   else login_failures st);
          key = login_key username client;
          f = (case map_of pairs key of
                 Some f \<Rightarrow> f
               | None \<Rightarrow> \<lparr>fs_failures = 0, fs_blocked_until = now\<rparr>)
      in record_account_failure username now
           (st\<lparr>login_failures := AList.update key (count_failure now f) pairs\<rparr>))"

definition record_login_success :: "string \<Rightarrow> string \<Rightarrow> login_state \<Rightarrow> login_state" where
  "record_login_success username client st =
     st\<lparr>login_failures := AList.delete (login_key username client) (login_failures st)\<rparr>"

datatype login_outcome = Blocked nat | LookupFailed | BadCredentials | SignedIn

record login_attempt =
  at_user :: string
  at_client :: string
  at_valid :: "bool option"
  at_time :: instant

definition try_login :: "login_state \<Rightarrow> login_attempt \<Rightarrow> login_outcome \<times> login_state" where
  "try_login st a =
     (case login_retry_after (at_user a) (at_client a) (at_time a) st of
        Some secs \<Rightarrow> (Blocked secs, st)
      | None \<Rightarrow>
          (case at_valid a of
             None \<Rightarrow> (LookupFailed, st)
           | Some False \<Rightarrow> (BadCredentials, record_login_failure (at_user a) (at_client a) (at_time a) st)
           | Some True \<Rightarrow> (SignedIn, record_login_success (at_user a) (at_client a) st)))"

definition no_logins :: login_state where
  "no_logins = \<lparr>login_failures = [], login_account_failures = []\<rparr>"

subsection \<open>Channel test-fires\<close>

definition channel_test_limit :: nat where "channel_test_limit = 6"
definition channel_test_window :: int where "channel_test_window = seconds 60"
definition channel_test_max_entries :: nat where "channel_test_max_entries = 10000"

record test_window =
  tw_started :: instant
  tw_hits :: nat

definition count_channel_test ::
  "uuid \<Rightarrow> instant \<Rightarrow> (uuid \<times> test_window) list \<Rightarrow> (nat + unit) \<times> (uuid \<times> test_window) list" where
  "count_channel_test user now hits =
     (let kept = (if channel_test_max_entries < length hits
                  then filter (\<lambda>(_, w). since now (tw_started w) < channel_test_window) hits else hits);
          w = (case map_of kept user of Some w \<Rightarrow> w | None \<Rightarrow> \<lparr>tw_started = now, tw_hits = 0\<rparr>);
          entries = AList.update user w kept;
          elapsed = since now (tw_started w) in
      if channel_test_window \<le> elapsed
      then (Inr (), AList.update user \<lparr>tw_started = now, tw_hits = 1\<rparr> kept)
      else if channel_test_limit \<le> tw_hits w
      then (Inl (max (nat ((channel_test_window - elapsed) div seconds 1)) 1), entries)
      else (Inr (), AList.update user (w\<lparr>tw_hits := tw_hits w + 1\<rparr>) kept))"

end
