(* ===== verification/LoginSafety.thy ===== *)
theory LoginSafety
  imports LoginBackoff
begin

text \<open>
  How many passwords can be tried. The state of a brake is a function of the times of the failures it has
  counted (\<open>pair_run\<close>, \<open>account_run\<close>), and every counted failure comes no earlier than the brake
  allowed (\<open>spaced\<close>); the bounds then follow from the schedules alone.
\<close>

subsection \<open>A brake as a function of the failures it has seen\<close>

definition pair_run :: "instant list \<Rightarrow> fail_state option" where
  "pair_run h = fold (\<lambda>t f. Some (count_failure t
     (case f of Some f \<Rightarrow> f | None \<Rightarrow> \<lparr>fs_failures = 0, fs_blocked_until = t\<rparr>))) h None"

definition account_run :: "instant list \<Rightarrow> account_fail_state option" where
  "account_run h = fold (\<lambda>t a. Some (count_account_failure t
     (case a of Some a \<Rightarrow> a | None \<Rightarrow> \<lparr>ac_recent = [], ac_strikes = 0, ac_blocked_until = t\<rparr>))) h None"

lemma pair_run_snoc:
  "pair_run (h @ [t]) = Some (count_failure t
     (case pair_run h of Some f \<Rightarrow> f | None \<Rightarrow> \<lparr>fs_failures = 0, fs_blocked_until = t\<rparr>))"
  by (simp add: pair_run_def)

lemma account_run_snoc:
  "account_run (h @ [t]) = Some (count_account_failure t
     (case account_run h of Some a \<Rightarrow> a | None \<Rightarrow> \<lparr>ac_recent = [], ac_strikes = 0, ac_blocked_until = t\<rparr>))"
  by (simp add: account_run_def)

lemma run_nil [simp]: "pair_run [] = None" "account_run [] = None"
  by (simp_all add: pair_run_def account_run_def)

definition spaced :: "(instant list \<Rightarrow> instant option) \<Rightarrow> instant list \<Rightarrow> bool" where
  "spaced f h \<longleftrightarrow> (\<forall>n < length h. \<forall>b. f (take n h) = Some b \<longrightarrow> b \<le> h ! n)"

lemma spaced_snoc: "spaced f (h @ [t]) \<longleftrightarrow> spaced f h \<and> (\<forall>b. f h = Some b \<longrightarrow> b \<le> t)"
proof
  assume a: "spaced f (h @ [t])"
  have "\<forall>n < length h. \<forall>b. f (take n h) = Some b \<longrightarrow> b \<le> h ! n"
  proof (intro allI impI)
    fix n b assume "n < length h" "f (take n h) = Some b"
    then show "b \<le> h ! n" using a [unfolded spaced_def, rule_format, of n b] by (simp add: nth_append)
  qed
  moreover have "\<forall>b. f h = Some b \<longrightarrow> b \<le> t" using a [unfolded spaced_def, rule_format, of "length h"] by simp
  ultimately show "spaced f h \<and> (\<forall>b. f h = Some b \<longrightarrow> b \<le> t)" by (simp add: spaced_def)
next
  assume a: "spaced f h \<and> (\<forall>b. f h = Some b \<longrightarrow> b \<le> t)"
  show "spaced f (h @ [t])"
    unfolding spaced_def
  proof (intro allI impI)
    fix n b assume n: "n < length (h @ [t])" and b: "f (take n (h @ [t])) = Some b"
    show "b \<le> (h @ [t]) ! n"
    proof (cases "n < length h")
      case True
      then show ?thesis using a b by (auto simp: spaced_def nth_append)
    next
      case False
      then have "n = length h" using n by simp
      then show ?thesis using a b by simp
    qed
  qed
qed

subsection \<open>Runs of the login handler\<close>

definition failed_times :: "(login_attempt \<Rightarrow> bool) \<Rightarrow> login_outcome list \<Rightarrow> login_attempt list \<Rightarrow> instant list" where
  "failed_times P outs es = map (\<lambda>(r, a). at_time a) (filter (\<lambda>(r, a). r = BadCredentials \<and> P a) (zip outs es))"

definition of_pair :: "string \<Rightarrow> string \<Rightarrow> login_attempt \<Rightarrow> bool" where
  "of_pair u c a \<longleftrightarrow> at_user a = u \<and> at_client a = c"

definition of_user :: "string \<Rightarrow> login_attempt \<Rightarrow> bool" where
  "of_user u a \<longleftrightarrow> at_user a = u"

lemma failed_times_snoc:
  assumes "length outs = length es"
  shows "failed_times P (outs @ [r]) (es @ [a]) = failed_times P outs es @ (if r = BadCredentials \<and> P a then [at_time a] else [])"
  using assms by (simp add: failed_times_def)

lemma split_at_first:
  "s \<notin> set xs \<Longrightarrow> takeWhile (\<lambda>x. x \<noteq> s) (xs @ s # ys) = xs \<and> dropWhile (\<lambda>x. x \<noteq> s) (xs @ s # ys) = s # ys"
  by (induction xs) auto

lemma login_key_inj:
  assumes "login_key u c = login_key u' c'" and "login_key_sep \<notin> set c" and "login_key_sep \<notin> set c'"
  shows "u = u' \<and> c = c'"
proof -
  have k: "takeWhile (\<lambda>x. x \<noteq> login_key_sep) (rev (login_key v d)) = rev d \<and>
      dropWhile (\<lambda>x. x \<noteq> login_key_sep) (rev (login_key v d)) = login_key_sep # rev v"
    if "login_key_sep \<notin> set d" for v d
    using split_at_first [of login_key_sep "rev d" "rev v"] that by (simp add: login_key_def)
  have "rev c = rev c'" "login_key_sep # rev u = login_key_sep # rev u'"
    using k [OF assms(2), of u, unfolded assms(1)] k [OF assms(3), of u'] by (metis, metis)
  then show ?thesis by simp
qed

lemma not_blocked:
  assumes "login_retry_after u c now st = None"
  shows "map_of (login_failures st) (login_key u c) = Some f \<Longrightarrow> fs_blocked_until f \<le> now"
    "map_of (login_account_failures st) u = Some a \<Longrightarrow> ac_blocked_until a \<le> now"
  using assms by (auto simp: login_retry_after_def Let_def split: option.splits if_splits)

lemma update_length_le: "length xs \<le> n \<Longrightarrow> length (AList.update k v xs) \<le> Suc n"
proof (induction xs arbitrary: n)
  case (Cons x xs)
  then show ?case by (cases x; cases n) auto
qed simp

lemma delete_length_le: "length xs \<le> n \<Longrightarrow> length (AList.delete k xs) \<le> Suc n"
  by (rule le_SucI) (rule le_trans [OF length_delete_le])

definition small :: "nat \<Rightarrow> login_state \<Rightarrow> bool" where
  "small n st \<longleftrightarrow> length (login_failures st) \<le> n \<and> length (login_account_failures st) \<le> n"

lemma record_failure_maps:
  assumes "small n st" and "n \<le> login_failures_max_entries"
  shows "map_of (login_failures (record_login_failure u c now st)) k =
      (if k = login_key u c
       then Some (count_failure now (case map_of (login_failures st) k of Some f \<Rightarrow> f | None \<Rightarrow> \<lparr>fs_failures = 0, fs_blocked_until = now\<rparr>))
       else map_of (login_failures st) k)"
    "map_of (login_account_failures (record_login_failure u c now st)) v =
      (if v = u
       then Some (count_account_failure now (case map_of (login_account_failures st) v of Some a \<Rightarrow> a
              | None \<Rightarrow> \<lparr>ac_recent = [], ac_strikes = 0, ac_blocked_until = now\<rparr>))
       else map_of (login_account_failures st) v)"
    "small (n + 1) (record_login_failure u c now st)"
proof -
  have keep: "\<not> login_failures_max_entries < length (login_failures st)" "\<not> login_failures_max_entries < length (login_account_failures st)"
    using assms by (auto simp: small_def)
  note unfold = record_login_failure_def record_account_failure_def Let_def keep if_False
  show "map_of (login_failures (record_login_failure u c now st)) k =
      (if k = login_key u c
       then Some (count_failure now (case map_of (login_failures st) k of Some f \<Rightarrow> f | None \<Rightarrow> \<lparr>fs_failures = 0, fs_blocked_until = now\<rparr>))
       else map_of (login_failures st) k)"
    by (simp add: unfold update_conv)
  show "map_of (login_account_failures (record_login_failure u c now st)) v =
      (if v = u
       then Some (count_account_failure now (case map_of (login_account_failures st) v of Some a \<Rightarrow> a
              | None \<Rightarrow> \<lparr>ac_recent = [], ac_strikes = 0, ac_blocked_until = now\<rparr>))
       else map_of (login_account_failures st) v)"
    by (simp add: unfold keep update_conv)
  show "small (n + 1) (record_login_failure u c now st)"
    using assms(1) by (simp add: small_def unfold keep update_length_le)
qed

text \<open>What a run leaves in the state.\<close>

definition tracked :: "login_outcome list \<Rightarrow> login_attempt list \<Rightarrow> login_state \<Rightarrow> bool" where
  "tracked outs es st \<longleftrightarrow> small (length es) st \<and>
     (\<forall>u c. login_key_sep \<notin> set c \<longrightarrow> (\<forall>(r, a) \<in> set (zip outs es). of_pair u c a \<longrightarrow> r \<noteq> SignedIn) \<longrightarrow>
        map_of (login_failures st) (login_key u c) = pair_run (failed_times (of_pair u c) outs es) \<and>
        spaced (\<lambda>h. map_option fs_blocked_until (pair_run h)) (failed_times (of_pair u c) outs es)) \<and>
     (\<forall>u. map_of (login_account_failures st) u = account_run (failed_times (of_user u) outs es) \<and>
        spaced (\<lambda>h. map_option ac_blocked_until (account_run h)) (failed_times (of_user u) outs es))"

lemma try_login_tracked:
  assumes tr: "tracked outs es st" and len: "length outs = length es" and few: "length es < login_failures_max_entries"
    and clients: "login_key_sep \<notin> set (at_client a)" and step: "try_login st a = (r, st')"
  shows "tracked (outs @ [r]) (es @ [a]) st'"
proof -
  let ?u = "at_user a" and ?c = "at_client a" and ?t = "at_time a"
  have sm: "small (length es) st" using tr by (simp add: tracked_def)
  show ?thesis
  proof (cases "r = BadCredentials")
    case True
    then have free: "login_retry_after ?u ?c ?t st = None" and st': "st' = record_login_failure ?u ?c ?t st"
      using step by (auto simp: try_login_def split: option.splits bool.splits)
    note maps = record_failure_maps [OF sm less_imp_le [OF few], of ?u ?c ?t]
    have "small (length (es @ [a])) st'" using maps(3) by (simp add: st')
    moreover have "map_of (login_failures st') (login_key u c) = pair_run (failed_times (of_pair u c) (outs @ [r]) (es @ [a])) \<and>
        spaced (\<lambda>h. map_option fs_blocked_until (pair_run h)) (failed_times (of_pair u c) (outs @ [r]) (es @ [a]))"
      if c: "login_key_sep \<notin> set c" and quiet: "\<forall>(r, a) \<in> set (zip (outs @ [r]) (es @ [a])). of_pair u c a \<longrightarrow> r \<noteq> SignedIn" for u c
    proof -
      have old: "map_of (login_failures st) (login_key u c) = pair_run (failed_times (of_pair u c) outs es)"
        "spaced (\<lambda>h. map_option fs_blocked_until (pair_run h)) (failed_times (of_pair u c) outs es)"
        using tr c quiet len unfolding tracked_def by auto
      show ?thesis
      proof (cases "u = ?u \<and> c = ?c")
        case here: True
        then show ?thesis
          using old maps(1) [of "login_key u c"] not_blocked(1) [OF free] True
          by (auto simp: failed_times_snoc [OF len] of_pair_def st' pair_run_snoc spaced_snoc)
      next
        case False
        then have "login_key u c \<noteq> login_key ?u ?c" using login_key_inj c clients by blast
        then show ?thesis
          using old maps(1) [of "login_key u c"] False by (auto simp: failed_times_snoc [OF len] of_pair_def st')
      qed
    qed
    moreover have "map_of (login_account_failures st') u = account_run (failed_times (of_user u) (outs @ [r]) (es @ [a])) \<and>
        spaced (\<lambda>h. map_option ac_blocked_until (account_run h)) (failed_times (of_user u) (outs @ [r]) (es @ [a]))" for u
    proof -
      have old: "map_of (login_account_failures st) u = account_run (failed_times (of_user u) outs es)"
        "spaced (\<lambda>h. map_option ac_blocked_until (account_run h)) (failed_times (of_user u) outs es)"
        using tr unfolding tracked_def by blast+
      show ?thesis
        using old maps(2) [of u] not_blocked(2) [OF free] True
        by (cases "u = ?u") (auto simp: failed_times_snoc [OF len] of_user_def st' account_run_snoc spaced_snoc)
    qed
    ultimately show ?thesis by (simp add: tracked_def)
  next
    case False
    have same: "failed_times P (outs @ [r]) (es @ [a]) = failed_times P outs es" for P
      using False by (simp add: failed_times_snoc [OF len])
    have st': "st' = st \<or> (r = SignedIn \<and> st' = record_login_success ?u ?c st)"
      using step False by (auto simp: try_login_def split: option.splits bool.splits)
    have sm': "small (length (es @ [a])) st'"
      using st' sm by (auto simp: small_def record_login_success_def delete_length_le)
    have acc: "login_account_failures st' = login_account_failures st"
      using st' by (auto simp: record_login_success_def)
    have "map_of (login_failures st') (login_key u c) = map_of (login_failures st) (login_key u c)"
      if c: "login_key_sep \<notin> set c" and quiet: "\<forall>(r, a) \<in> set (zip (outs @ [r]) (es @ [a])). of_pair u c a \<longrightarrow> r \<noteq> SignedIn" for u c
      using st'
    proof (elim disjE)
      assume s: "r = SignedIn \<and> st' = record_login_success ?u ?c st"
      then have "\<not> of_pair u c a" using quiet len by auto
      then have "login_key u c \<noteq> login_key ?u ?c"
        using login_key_inj [OF _ c clients, of u ?u] by (auto simp only: of_pair_def)
      then show ?thesis using s by (simp add: record_login_success_def delete_conv)
    qed simp
    then show ?thesis
      using tr sm' len unfolding tracked_def same acc by auto
  qed
qed

lemma run_tracked:
  assumes "run_machine try_login no_logins es = (outs, st)" and "length es \<le> login_failures_max_entries"
    and "\<And>a. a \<in> set es \<Longrightarrow> login_key_sep \<notin> set (at_client a)"
  shows "tracked outs es st"
  using assms
proof (induction es arbitrary: outs st rule: rev_induct)
  case Nil
  then have "outs = []" "st = no_logins" by simp_all
  then show ?case by (simp add: tracked_def small_def no_logins_def failed_times_def spaced_def)
next
  case (snoc a es)
  obtain o1 s1 where r: "run_machine try_login no_logins es = (o1, s1)" by force
  obtain x s2 where st: "try_login s1 a = (x, s2)" by force
  have "outs = o1 @ [x]" "st = s2" using snoc.prems(1) r st by (simp_all add: run_machine_append)
  moreover have "length o1 = length es" using run_machine_length [of try_login no_logins es] r by simp
  ultimately show ?case
    using try_login_tracked [OF snoc.IH [OF r] _ _ _ st] snoc.prems(2,3) by simp
qed

subsection \<open>Windows over sorted lists\<close>

lemma filter_upto: "sorted xs \<Longrightarrow> filter (\<lambda>x. x \<le> u) xs = takeWhile (\<lambda>x. x \<le> (u::int)) xs"
proof (induction xs)
  case (Cons x xs)
  show ?case
  proof (cases "x \<le> u")
    case False
    then have "filter (\<lambda>x. x \<le> u) xs = []" using Cons.prems by (force simp: filter_empty_conv)
    then show ?thesis using False by simp
  qed (use Cons in simp)
qed simp

lemma filter_window:
  "sorted xs \<Longrightarrow> filter (\<lambda>x. t \<le> x \<and> x \<le> u) xs = takeWhile (\<lambda>x. x \<le> u) (dropWhile (\<lambda>x. x < (t::int)) xs)"
proof (induction xs)
  case (Cons x xs)
  show ?case
  proof (cases "x < t")
    case False
    then have "filter (\<lambda>x. t \<le> x \<and> x \<le> u) (x # xs) = filter (\<lambda>x. x \<le> u) (x # xs)"
      using Cons.prems by (intro filter_cong) auto
    then show ?thesis using False filter_upto [OF Cons.prems] by simp
  qed (use Cons in simp)
qed simp

lemma window_block:
  assumes "sorted h" and "m < length (filter (\<lambda>x. t \<le> x \<and> x \<le> u) h)"
  shows "\<exists>i. i + m < length h \<and> t \<le> h ! i \<and> h ! (i + m) \<le> (u::int)"
proof -
  define i where "i = length (takeWhile (\<lambda>x. x < t) h)"
  define k where "k = length (takeWhile (\<lambda>x. x \<le> u) (drop i h))"
  have f: "filter (\<lambda>x. t \<le> x \<and> x \<le> u) h = take k (drop i h)"
  proof -
    have "dropWhile (\<lambda>x. x < t) h = drop i h" unfolding i_def by (rule dropWhile_eq_drop)
    moreover have "takeWhile (\<lambda>x. x \<le> u) (drop i h) = take k (drop i h)" unfolding k_def by (rule takeWhile_eq_take)
    ultimately show ?thesis using filter_window [OF assms(1), of t u] by simp
  qed
  have m: "m < k" "i + m < length h" using assms(2) unfolding f by auto
  have in_f: "h ! (i + j) \<in> set (filter (\<lambda>x. t \<le> x \<and> x \<le> u) h)" if "j \<le> m" for j
  proof -
    have "take k (drop i h) ! j = h ! (i + j)" "j < length (take k (drop i h))" using m that by simp_all
    then show ?thesis unfolding f by (metis nth_mem)
  qed
  show ?thesis using in_f [of 0] in_f [of m] m(2) by auto
qed

lemma failed_times_mem: "t \<in> set (failed_times P outs es) \<Longrightarrow> \<exists>a \<in> set es. t = at_time a"
  by (auto simp: failed_times_def dest: set_zip_rightD)

lemma failed_times_sorted:
  assumes "length outs = length es" and "sorted (map at_time es)"
  shows "sorted (failed_times P outs es)"
  using assms
proof (induction outs es rule: list_induct2)
  case (Cons r outs a es)
  have "\<forall>t \<in> set (failed_times P outs es). at_time a \<le> t"
    using Cons.prems failed_times_mem by fastforce
  moreover have "failed_times P (r # outs) (a # es) = (if r = BadCredentials \<and> P a then [at_time a] else []) @ failed_times P outs es"
    by (simp add: failed_times_def)
  ultimately show ?case using Cons by simp
qed (simp add: failed_times_def)

lemma failed_times_mono:
  assumes "\<And>a. P a \<Longrightarrow> Q a"
  shows "length (filter R (failed_times P outs es)) \<le> length (filter R (failed_times Q outs es))"
  using assms by (induction outs es rule: list_induct2') (auto simp: failed_times_def)

lemma failed_times_two:
  "length (filter R (failed_times (\<lambda>a. P a \<or> Q a) outs es)) \<le>
     length (filter R (failed_times P outs es)) + length (filter R (failed_times Q outs es))"
  by (induction outs es rule: list_induct2') (auto simp: failed_times_def)

lemma failed_times_length: "length (failed_times P outs es) \<le> length es"
  by (induction outs es rule: list_induct2') (auto simp: failed_times_def)

subsection \<open>One client\<close>

lemma checked_shl_ge: "k \<le> n \<Longrightarrow> k \<le> 20 \<Longrightarrow> 2 ^ k \<le> checked_shl_one n"
proof (cases "n < 64")
  case False
  assume "k \<le> n" "k \<le> 20"
  then have "(2::nat) ^ k \<le> 2 ^ 20" by (intro power_increasing) auto
  then show ?thesis using False by (simp add: checked_shl_one_def u64_max_def)
qed (simp add: checked_shl_one_def)

lemma login_backoff_ge:
  assumes "5 + k \<le> n" and "k \<le> 8"
  shows "2 * 2 ^ k \<le> the (login_backoff_secs n)"
proof -
  have s: "2 ^ k \<le> checked_shl_one (n - 5)" using assms by (intro checked_shl_ge) auto
  have "(2::nat) ^ k \<le> 2 ^ 8" using assms(2) by (intro power_increasing) auto
  then show ?thesis
    using assms s by (auto simp: login_backoff_secs_def login_fail_threshold_def Let_def sat_mul_u64_def
        login_backoff_base_secs_def login_backoff_cap_secs_def u64_max_def)
qed

lemma pair_run_state:
  assumes "h \<noteq> []" and "length h \<le> u32_max"
  shows "\<exists>f. pair_run h = Some f \<and> fs_failures f = length h \<and>
    (5 \<le> length h \<longrightarrow> fs_blocked_until f = last h + seconds (int (the (login_backoff_secs (length h)))))"
  using assms
proof (induction h rule: rev_induct)
  case (snoc t h)
  define g where "g = (case pair_run h of Some f \<Rightarrow> f | None \<Rightarrow> \<lparr>fs_failures = 0, fs_blocked_until = t\<rparr>)"
  have "fs_failures g = length h" using snoc by (cases "h = []") (auto simp: g_def)
  then show ?case
    using snoc.prems unfolding pair_run_snoc g_def [symmetric]
    by (auto simp: count_failure_def Let_def login_backoff_secs_def login_fail_threshold_def split: option.splits)
qed simp

lemma pair_gap:
  assumes "spaced (\<lambda>h. map_option fs_blocked_until (pair_run h)) h" and "length h \<le> u32_max"
    and "5 \<le> n" and "n < length h"
  shows "h ! (n - 1) + seconds (int (the (login_backoff_secs n))) \<le> h ! n"
proof -
  have "take n h \<noteq> []" "length (take n h) \<le> u32_max" "length (take n h) = n" using assms by auto
  then obtain f where f: "pair_run (take n h) = Some f"
    "fs_blocked_until f = last (take n h) + seconds (int (the (login_backoff_secs n)))"
    using pair_run_state [of "take n h"] assms(3) by auto
  have "last (take n h) = h ! (n - 1)" using assms last_conv_nth [of "take n h"] \<open>take n h \<noteq> []\<close> by (auto simp: min_absorb2)
  then show ?thesis using assms(1,4) f by (auto simp: spaced_def)
qed

lemma pair_window:
  assumes "spaced (\<lambda>h. map_option fs_blocked_until (pair_run h)) h" and "length h \<le> u32_max" and "sorted h"
  shows "length (filter (\<lambda>x. t \<le> x \<and> x \<le> t + seconds 900) h) \<le> 13"
proof (rule ccontr)
  assume "\<not> ?thesis"
  then obtain i where i: "i + 13 < length h" "t \<le> h ! i" "h ! (i + 13) \<le> t + seconds 900"
    using window_block [OF assms(3), of 13 t "t + seconds 900"] by auto
  have gap: "h ! (i + 4 + k) + seconds (2 * 2 ^ k) \<le> h ! (i + 5 + k)" if "k \<le> 8" for k
  proof -
    have e: "i + 5 + k - 1 = i + 4 + k" by simp
    have "h ! (i + 4 + k) + seconds (int (the (login_backoff_secs (i + 5 + k)))) \<le> h ! (i + 5 + k)"
      using pair_gap [OF assms(1,2), of "i + 5 + k"] i that unfolding e by simp
    moreover have "2 * 2 ^ k \<le> the (login_backoff_secs (i + 5 + k))" by (rule login_backoff_ge) (use that in auto)
    then have "seconds (2 * 2 ^ k) \<le> seconds (int (the (login_backoff_secs (i + 5 + k))))"
      by (metis of_nat_le_iff of_nat_mult of_nat_numeral of_nat_power seconds_mono)
    ultimately show ?thesis by linarith
  qed
  have "h ! i \<le> h ! (i + 9)" using assms(3) i(1) by (simp add: sorted_nth_mono)
  then show False
    using i(2,3) gap [of 5] gap [of 6] gap [of 7] gap [of 8] by (simp add: seconds_def add.assoc)
qed

subsection \<open>One account\<close>

text \<open>What the account remembers of its failures: a suffix of them, at most thirty.\<close>

lemma account_run_state:
  assumes "h \<noteq> []"
  shows "\<exists>a k. account_run h = Some a \<and> ac_recent a = drop k h \<and> k < length h \<and> length (ac_recent a) \<le> account_fail_ceiling"
  using assms
proof (induction h rule: rev_induct)
  case (snoc t h)
  define a where "a = (case account_run h of Some a \<Rightarrow> a | None \<Rightarrow> \<lparr>ac_recent = [], ac_strikes = 0, ac_blocked_until = t\<rparr>)"
  obtain k where k: "ac_recent a = drop k h" "k \<le> length h" "length (ac_recent a) \<le> account_fail_ceiling"
  proof (cases "h = []")
    case True
    then show ?thesis using that [of 0] by (simp add: a_def)
  next
    case False
    then show ?thesis using snoc.IH that by (auto simp: a_def)
  qed
  define r where "r = ac_recent (count_account_failure t a)"
  have "r = drop (length (ac_recent a @ [t]) - account_fail_ceiling) (ac_recent a @ [t]) \<or> r = [t]"
    by (auto simp: r_def count_account_failure_def Let_def account_fail_ceiling_def split: option.splits)
  then obtain j where j: "r = drop j (h @ [t])" "j \<le> length h"
  proof
    assume "r = drop (length (ac_recent a @ [t]) - account_fail_ceiling) (ac_recent a @ [t])"
    moreover have "ac_recent a @ [t] = drop k (h @ [t])" using k(1,2) by simp
    ultimately show ?thesis
      using that [of "length (ac_recent a @ [t]) - account_fail_ceiling + k"] k
      by (auto simp: account_fail_ceiling_def)
  next
    assume "r = [t]"
    then show ?thesis using that [of "length h"] by simp
  qed
  moreover have "length r \<le> account_fail_ceiling"
    using \<open>r = _ \<or> r = [t]\<close> by (auto simp: account_fail_ceiling_def)
  ultimately show ?case unfolding account_run_snoc a_def [symmetric] r_def by (auto intro!: exI [of _ j])
qed simp

text \<open>Below the ceiling in every window, the account is never under pressure.\<close>

lemma account_at_rest:
  assumes "sorted h" and "\<And>i. i + 29 < length h \<Longrightarrow> account_fail_window < h ! (i + 29) - h ! i" and "h \<noteq> []"
  shows "\<exists>a. account_run h = Some a \<and> ac_strikes a = 0 \<and> ac_blocked_until a \<le> last h"
  using assms
proof (induction h rule: rev_induct)
  case (snoc t h)
  define a where "a = (case account_run h of Some a \<Rightarrow> a | None \<Rightarrow> \<lparr>ac_recent = [], ac_strikes = 0, ac_blocked_until = t\<rparr>)"
  have sorted: "sorted h" "\<forall>x \<in> set h. x \<le> t" using snoc.prems(1) by (auto simp: sorted_append)
  have below: "account_fail_window < h ! (i + 29) - h ! i" if "i + 29 < length h" for i
    using snoc.prems(2) [of i] that by (simp add: nth_append)
  have a: "ac_strikes a = 0" "ac_blocked_until a \<le> t"
  proof -
    have "ac_strikes a = 0 \<and> ac_blocked_until a \<le> t"
    proof (cases "h = []")
      case False
      then have "last h \<le> t" using sorted(2) by simp
      then show ?thesis using snoc.IH [OF sorted(1) below False] by (auto simp: a_def)
    qed (simp add: a_def)
    then show "ac_strikes a = 0" "ac_blocked_until a \<le> t" by simp_all
  qed
  define b where "b = count_account_failure t a"
  have run: "account_run (h @ [t]) = Some b" by (simp add: account_run_snoc a_def b_def)
  obtain k where k: "ac_recent b = drop k (h @ [t])" "k < length (h @ [t])"
    using account_run_state [of "h @ [t]"] run by auto
  have "\<not> over_ceiling b"
  proof
    assume o: "over_ceiling b"
    have len: "length (ac_recent b) = 30"
      using o account_run_state [of "h @ [t]"] run by (auto simp: over_ceiling_def account_fail_ceiling_def)
    then have k29: "k + 29 = length h" using k by simp
    have "hd (ac_recent b) = (h @ [t]) ! k" unfolding k(1) by (rule hd_drop_conv_nth [OF k(2)])
    moreover have "last (ac_recent b) = t" using k by simp
    ultimately have "t - (h @ [t]) ! k \<le> account_fail_window" using o by (simp add: over_ceiling_def since_def)
    moreover have "account_fail_window < (h @ [t]) ! (k + 29) - (h @ [t]) ! k" using snoc.prems(2) [of k] k29 by simp
    ultimately show False using k29 by simp
  qed
  moreover have "\<not> over_ceiling b \<Longrightarrow> ac_strikes b = 0 \<and> ac_blocked_until b = ac_blocked_until a"
    using a(1) by (auto simp: b_def count_account_failure_def Let_def over_ceiling_def split: if_splits)
  ultimately show ?case using run a(2) by auto
qed simp

text \<open>Once thirty failures lie in a window, each further one has to wait for twice the time.\<close>

lemma account_backoff_ge:
  assumes "j < s" and "j \<le> 4"
  shows "30 * 2 ^ j \<le> account_backoff_secs s"
proof -
  have c: "2 ^ j \<le> checked_shl_one (s - 1)" using assms by (intro checked_shl_ge) auto
  have "(2::nat) ^ j \<le> 2 ^ 4" using assms(2) by (intro power_increasing) auto
  then show ?thesis
    using c by (auto simp: account_backoff_secs_def sat_mul_u64_def account_backoff_base_secs_def
        login_backoff_cap_secs_def u64_max_def)
qed

lemma account_pressed:
  assumes "sorted h" and "i + m < length h" and "h ! (i + m) - h ! i \<le> account_fail_window" and "m < 100"
  shows "\<exists>a. account_run (take (i + m + 1) h) = Some a \<and> min 30 (m + 1) \<le> length (ac_recent a) \<and>
    (29 \<le> m \<longrightarrow> m - 28 \<le> ac_strikes a \<and> ac_blocked_until a = h ! (i + m) + seconds (int (account_backoff_secs (ac_strikes a))))"
  using assms(2-4)
proof (induction m)
  case 0
  then have "take (i + 0 + 1) h \<noteq> []" by auto
  then obtain a k where "account_run (take (i + 0 + 1) h) = Some a" "ac_recent a = drop k (take (i + 0 + 1) h)" "k < length (take (i + 0 + 1) h)"
    using account_run_state [of "take (i + 0 + 1) h"] by blast
  then show ?case by auto
next
  case (Suc m)
  define g where "g = take (i + m + 1) h" define t where "t = h ! (i + m + 1)"
  have tk: "take (i + Suc m + 1) h = g @ [t]" using Suc.prems by (simp add: g_def t_def take_Suc_conv_app_nth)
  have le: "h ! (i + m) \<le> t" using assms(1) Suc.prems by (simp add: t_def sorted_nth_mono)
  have base: "h ! i \<le> h ! (i + m)" using assms(1) Suc.prems by (simp add: sorted_nth_mono)
  have win: "t - h ! i \<le> account_fail_window" using Suc.prems by (simp add: t_def)
  obtain a where a: "account_run g = Some a" "min 30 (m + 1) \<le> length (ac_recent a)" "29 \<le> m \<longrightarrow> m - 28 \<le> ac_strikes a"
    using Suc.IH Suc.prems le win by (auto simp: g_def t_def)
  have "g \<noteq> []" using Suc.prems by (auto simp: g_def)
  then obtain k where k: "ac_recent a = drop k g" "k < length g" "length (ac_recent a) \<le> 30"
    using account_run_state [of g] a(1) by (auto simp: account_fail_ceiling_def)
  have lastg: "last g = h ! (i + m)" using Suc.prems last_conv_nth [OF \<open>g \<noteq> []\<close>] by (simp add: g_def)
  have "last (ac_recent a) = h ! (i + m)" "ac_recent a \<noteq> []" using k lastg by auto
  then have quiet: "\<not> (case last_failure a of None \<Rightarrow> False | Some x \<Rightarrow> account_quiet_reset \<le> since t x)"
    using win base le by (simp add: last_failure_def since_def account_quiet_reset_def account_fail_window_def seconds_def)
  define b where "b = count_account_failure t a"
  have run: "account_run (g @ [t]) = Some b" using a(1) by (simp add: account_run_snoc b_def)
  have rb: "ac_recent b = drop (length (ac_recent a @ [t]) - 30) (ac_recent a @ [t])"
    using quiet by (auto simp: b_def count_account_failure_def Let_def account_fail_ceiling_def)
  have len: "min 30 (Suc m + 1) \<le> length (ac_recent b)" using rb a(2) k(3) by simp
  have "Suc m - 28 \<le> ac_strikes b \<and> ac_blocked_until b = t + seconds (int (account_backoff_secs (ac_strikes b)))" if m: "29 \<le> Suc m"
  proof -
    have len30: "length (ac_recent b) = 30" using len m rb k(3) by simp
    define j where "j = length (ac_recent a @ [t]) - 30"
    have ab: "ac_recent a @ [t] = drop k (g @ [t])" using k by simp
    have kl: "k + j + 29 = i + m + 1" using len30 rb ab k(2) Suc.prems by (simp add: j_def g_def)
    have rbk: "ac_recent b = drop (k + j) (g @ [t])"
      using rb unfolding j_def [symmetric] unfolding ab by (simp only: drop_drop add.commute)
    have "hd (ac_recent b) = (g @ [t]) ! (k + j)"
      unfolding rbk by (rule hd_drop_conv_nth) (use kl Suc.prems in \<open>simp add: g_def\<close>)
    moreover have "k + j < length g" "i \<le> k + j" using kl m Suc.prems by (auto simp: g_def)
    then have "(g @ [t]) ! (k + j) = h ! (k + j)" "h ! i \<le> h ! (k + j)"
      using Suc.prems assms(1) kl by (auto simp: g_def nth_append sorted_nth_mono)
    moreover have "last (ac_recent b) = t" using rb k(3) by (simp add: last_drop)
    ultimately have over: "over_ceiling b"
      using len30 win le base by (auto simp: over_ceiling_def account_fail_ceiling_def since_def account_fail_window_def seconds_def)
    have sa: "m - 28 \<le> ac_strikes a" using a(3) by (cases "29 \<le> m") auto
    define a2 where "a2 = a\<lparr>ac_recent := ac_recent b\<rparr>"
    have o2: "over_ceiling a2" using over by (simp add: a2_def over_ceiling_def)
    have bq: "b = a2\<lparr>ac_strikes := min (ac_strikes a + 1) u32_max,
        ac_blocked_until := t + seconds (int (account_backoff_secs (min (ac_strikes a + 1) u32_max)))\<rparr>"
    proof -
      have "count_account_failure t a = (if 0 < ac_strikes a2 \<or> over_ceiling a2
          then a2\<lparr>ac_strikes := min (ac_strikes a2 + 1) u32_max,
              ac_blocked_until := t + seconds (int (account_backoff_secs (min (ac_strikes a2 + 1) u32_max)))\<rparr> else a2)"
        using quiet unfolding count_account_failure_def Let_def a2_def rb account_fail_ceiling_def by simp
      then show ?thesis using o2 by (simp add: b_def a2_def)
    qed
    have "Suc m - 28 \<le> min (ac_strikes a + 1) u32_max" using sa Suc.prems by (auto simp: u32_max_def)
    then show ?thesis by (simp add: bq)
  qed
  then show ?case unfolding tk using run len by (simp add: t_def)
qed

lemma account_window:
  assumes sp: "spaced (\<lambda>h. map_option ac_blocked_until (account_run h)) h" and "sorted h"
  shows "length (filter (\<lambda>x. t \<le> x \<and> x \<le> t + seconds 900) h) \<le> 34"
proof (rule ccontr)
  assume "\<not> ?thesis"
  then obtain i where i: "i + 34 < length h" "t \<le> h ! i" "h ! (i + 34) \<le> t + seconds 900"
    using window_block [OF assms(2), of 34 t "t + seconds 900"] by auto
  have gap: "h ! (i + 29 + j) + seconds (30 * 2 ^ j) \<le> h ! (i + 30 + j)" if j: "j \<le> 4" for j
  proof -
    have "h ! (i + (29 + j)) \<le> h ! (i + 34)" using assms(2) i(1) j by (intro sorted_nth_mono) auto
    then have "h ! (i + (29 + j)) - h ! i \<le> account_fail_window"
      using i by (simp add: account_fail_window_def)
    then obtain a where a: "account_run (take (i + (29 + j) + 1) h) = Some a" "j < ac_strikes a"
      "ac_blocked_until a = h ! (i + (29 + j)) + seconds (int (account_backoff_secs (ac_strikes a)))"
      using account_pressed [OF assms(2), of i "29 + j"] i(1) j by auto
    have "ac_blocked_until a \<le> h ! (i + (29 + j) + 1)"
      using sp [unfolded spaced_def, rule_format, of "i + (29 + j) + 1"] a(1) i(1) j by auto
    moreover have "30 * 2 ^ j \<le> account_backoff_secs (ac_strikes a)" by (rule account_backoff_ge [OF a(2) j])
    then have "seconds (30 * 2 ^ j) \<le> seconds (int (account_backoff_secs (ac_strikes a)))"
      by (metis of_nat_le_iff of_nat_mult of_nat_numeral of_nat_power seconds_mono)
    moreover have "i + (29 + j) = i + 29 + j" "i + (29 + j) + 1 = i + 30 + j" by simp_all
    ultimately show ?thesis using a(3) by (metis add_left_mono order_trans)
  qed
  define f where "f n = h ! (i + n)" for n
  have gap': "f (29 + j) + seconds (30 * 2 ^ j) \<le> f (30 + j)" if "j \<le> 4" for j
    using gap [OF that] by (simp add: f_def add.assoc)
  have "f 0 \<le> f 29" using assms(2) i(1) by (simp add: f_def sorted_nth_mono)
  moreover have "t \<le> f 0" "f 34 \<le> t + seconds 900" using i by (simp_all add: f_def)
  ultimately show False
    using gap' [of 0] gap' [of 1] gap' [of 2] gap' [of 3] gap' [of 4] by (simp add: seconds_def)
qed

subsection \<open>The bounds\<close>

definition in_window :: "instant \<Rightarrow> instant list \<Rightarrow> nat" where
  "in_window t h = length (filter (\<lambda>x. t \<le> x \<and> x \<le> t + seconds 900) h)"

definition ordered_run :: "login_attempt list \<Rightarrow> login_outcome list \<Rightarrow> login_state \<Rightarrow> bool" where
  "ordered_run es outs st \<longleftrightarrow> run_machine try_login no_logins es = (outs, st) \<and> sorted (map at_time es) \<and>
     length es \<le> login_failures_max_entries \<and> (\<forall>a \<in> set es. login_key_sep \<notin> set (at_client a))"

definition never_signed_in :: "string \<Rightarrow> string \<Rightarrow> login_outcome list \<Rightarrow> login_attempt list \<Rightarrow> bool" where
  "never_signed_in u c outs es \<longleftrightarrow> (\<forall>(r, a) \<in> set (zip outs es). of_pair u c a \<longrightarrow> r \<noteq> SignedIn)"

lemma ordered_run_facts:
  assumes "ordered_run es outs st"
  shows "tracked outs es st" "length outs = length es" "sorted (failed_times P outs es)"
    "length (failed_times P outs es) \<le> u32_max"
proof -
  show tr: "tracked outs es st" using run_tracked assms by (auto simp: ordered_run_def)
  show len: "length outs = length es" using run_machine_length [of try_login no_logins es] assms by (simp add: ordered_run_def)
  show "sorted (failed_times P outs es)" using failed_times_sorted [OF len] assms by (simp add: ordered_run_def)
  show "length (failed_times P outs es) \<le> u32_max"
    using failed_times_length [of P outs es] assms by (simp add: ordered_run_def login_failures_max_entries_def u32_max_def)
qed

lemma client_window:
  assumes "ordered_run es outs st" and "never_signed_in u c outs es" and "login_key_sep \<notin> set c"
  shows "in_window t (failed_times (of_pair u c) outs es) \<le> 13"
  unfolding in_window_def
  by (rule pair_window)
    (use ordered_run_facts [OF assms(1)] assms(2,3) in \<open>auto simp: tracked_def never_signed_in_def\<close>)

text \<open>One client gets at most thirteen guesses at an account in any quarter of an hour, as long as it never
  guesses right: whatever the other clients and accounts do, however the attempts are timed, and
  counting attempts in which the password was really compared. The history is bounded by the size at which
  the table is pruned.\<close>

theorem client_guesses_bounded:
  assumes "ordered_run es outs st" and "never_signed_in u c outs es" and "login_key_sep \<notin> set c"
  shows "in_window t (failed_times (of_pair u c) outs es) \<le> 13"
  by (rule client_window [OF assms])

text \<open>All clients together get at most thirty-four guesses at an account in any quarter of an hour when no two
  logins overlap and at most ten thousand are made, even when some of them sign in between: the
  account-wide brake engages at the thirtieth failure and then doubles. For logins that overlap see
  \<open>LoginRace\<close>.\<close>

theorem account_guesses_bounded_in_turn:
  assumes "ordered_run es outs st"
  shows "in_window t (failed_times (of_user u) outs es) \<le> 34"
  unfolding in_window_def
  by (rule account_window) (use ordered_run_facts [OF assms] in \<open>auto simp: tracked_def\<close>)

text \<open>Two clients cannot lock the owner out. If all attempts on an account come from two other addresses that
  never sign in, then however they fail, at no later time is an attempt of the owner from a third address
  rejected by a brake.\<close>

theorem two_clients_cannot_lock_owner_out:
  assumes run: "ordered_run es outs st" and two: "\<And>a. a \<in> set es \<Longrightarrow> at_user a = u \<Longrightarrow> at_client a = c1 \<or> at_client a = c2"
    and quiet: "never_signed_in u c1 outs es" "never_signed_in u c2 outs es"
    and seps: "login_key_sep \<notin> set c1" "login_key_sep \<notin> set c2" "login_key_sep \<notin> set c"
    and owner: "c \<noteq> c1" "c \<noteq> c2" and later: "\<And>a. a \<in> set es \<Longrightarrow> at_time a \<le> now"
  shows "login_retry_after u c now st = None"
proof -
  note facts = ordered_run_facts [OF run]
  define h where "h = failed_times (of_user u) outs es"
  have same: "h = failed_times (\<lambda>a. of_pair u c1 a \<or> of_pair u c2 a) outs es"
    unfolding h_def failed_times_def
    by (rule arg_cong [where f = "map _"], rule filter_cong) (use two in \<open>auto simp: of_user_def of_pair_def dest: set_zip_rightD\<close>)
  have few: "length (filter (\<lambda>x. t \<le> x \<and> x \<le> t + seconds 900) h) \<le> 26" for t
  proof -
    have "length (filter (\<lambda>x. t \<le> x \<and> x \<le> t + seconds 900) h) \<le>
        in_window t (failed_times (of_pair u c1) outs es) + in_window t (failed_times (of_pair u c2) outs es)"
      unfolding same in_window_def by (rule failed_times_two)
    then show ?thesis using client_window [OF run quiet(1) seps(1), of t] client_window [OF run quiet(2) seps(2), of t] by simp
  qed
  have sorted: "sorted h" using facts(3) by (simp add: h_def)
  have rest: "account_fail_window < h ! (i + 29) - h ! i" if "i + 29 < length h" for i
  proof (rule ccontr)
    assume n: "\<not> account_fail_window < h ! (i + 29) - h ! i"
    have "set (take 30 (drop i h)) \<subseteq> {x. h ! i \<le> x \<and> x \<le> h ! i + seconds 900}"
    proof
      fix x assume "x \<in> set (take 30 (drop i h))"
      then obtain j where "j < 30" "x = h ! (i + j)" using that by (auto simp: in_set_conv_nth)
      moreover have "h ! i \<le> h ! (i + j)" "h ! (i + j) \<le> h ! (i + 29)"
        using sorted that \<open>j < 30\<close> by (auto intro: sorted_nth_mono)
      ultimately show "x \<in> {x. h ! i \<le> x \<and> x \<le> h ! i + seconds 900}" using n by (simp add: account_fail_window_def)
    qed
    then have "filter (\<lambda>x. h ! i \<le> x \<and> x \<le> h ! i + seconds 900) (take 30 (drop i h)) = take 30 (drop i h)"
      by (auto simp: filter_id_conv)
    moreover have "h = take i h @ take 30 (drop i h) @ drop 30 (drop i h)" by (metis append_take_drop_id)
    then have "length (filter (\<lambda>x. h ! i \<le> x \<and> x \<le> h ! i + seconds 900) (take 30 (drop i h))) \<le>
        length (filter (\<lambda>x. h ! i \<le> x \<and> x \<le> h ! i + seconds 900) h)"
      by (metis (no_types, lifting) filter_append length_append le_add1 le_add2 le_trans)
    ultimately show False using few [of "h ! i"] that by simp
  qed
  have none: "failed_times (of_pair u c) outs es = []"
    using two owner by (fastforce simp: failed_times_def filter_empty_conv of_pair_def dest: set_zip_rightD)
  have pair: "map_of (login_failures st) (login_key u c) = None"
  proof -
    have "never_signed_in u c outs es"
      using two owner by (fastforce simp: never_signed_in_def of_pair_def dest: set_zip_rightD)
    then show ?thesis using facts(1) seps(3) none by (simp add: tracked_def never_signed_in_def)
  qed
  have account: "map_of (login_account_failures st) u = account_run h" using facts(1) by (simp add: tracked_def h_def)
  show ?thesis
  proof (cases "h = []")
    case True
    then show ?thesis using pair account by (simp add: login_retry_after_def)
  next
    case False
    obtain a where a: "account_run h = Some a" "ac_blocked_until a \<le> last h"
      using account_at_rest [OF sorted rest False] by blast
    have "last h \<in> set h" using False by simp
    then obtain x where "x \<in> set es" "last h = at_time x" unfolding h_def using failed_times_mem by blast
    then have "ac_blocked_until a \<le> now" using a(2) later by fastforce
    then show ?thesis using pair account a(1) by (simp add: login_retry_after_def)
  qed
qed

subsection \<open>Concrete runs\<close>

definition guess :: "string \<Rightarrow> int \<Rightarrow> login_attempt" where
  "guess c t = \<lparr>at_user = ''root'', at_client = c, at_valid = Some False, at_time = seconds t\<rparr>"

definition guesses :: "login_attempt list" where
  "guesses = map (guess ''10.0.0.9'') [0, 0, 0, 0, 0, 1, 2, 5, 6]"

lemma wrong_never_signed_in:
  assumes "run_machine try_login s es = (outs, st)" and "\<And>a. a \<in> set es \<Longrightarrow> at_valid a \<noteq> Some True"
  shows "never_signed_in u c outs es"
  using assms
proof (induction es arbitrary: s outs st)
  case (Cons a es)
  obtain r s1 where r: "try_login s a = (r, s1)" by force
  obtain o1 s2 where rest: "run_machine try_login s1 es = (o1, s2)" by force
  have "r \<noteq> SignedIn" using r Cons.prems(2) [of a] by (auto simp: try_login_def split: option.splits bool.splits)
  then show ?case using Cons.IH [OF rest] Cons.prems r rest by (auto simp: never_signed_in_def)
qed (simp add: never_signed_in_def)

lemma guesses_ordered: "ordered_run guesses (fst (run_machine try_login no_logins guesses)) (snd (run_machine try_login no_logins guesses))"
  by (auto simp: ordered_run_def guesses_def guess_def login_failures_max_entries_def login_key_sep_def seconds_def)

lemma guesses_wrong: "never_signed_in u c (fst (run_machine try_login no_logins guesses)) guesses"
  by (rule wrong_never_signed_in [OF prod.collapse [symmetric]]) (auto simp: guesses_def guess_def)

theorem client_guesses_bounded_witness:
  "in_window 0 (failed_times (of_pair ''root'' ''10.0.0.9'') (fst (run_machine try_login no_logins guesses)) guesses) \<le> 13"
  by (rule client_guesses_bounded [OF guesses_ordered])
    (simp_all add: guesses_wrong login_key_sep_def)

theorem account_guesses_bounded_in_turn_witness:
  "in_window 0 (failed_times (of_user ''root'') (fst (run_machine try_login no_logins guesses)) guesses) \<le> 34"
  by (rule account_guesses_bounded_in_turn [OF guesses_ordered])

theorem two_clients_cannot_lock_owner_out_witness:
  "login_retry_after ''root'' ''10.0.0.7'' (seconds 6) (snd (run_machine try_login no_logins guesses)) = None"
  proof (rule two_clients_cannot_lock_owner_out [OF guesses_ordered, of _ "''10.0.0.9''" "''10.0.0.8''"])
  show "at_client a = ''10.0.0.9'' \<or> at_client a = ''10.0.0.8''" if "a \<in> set guesses" for a
    using that by (auto simp: guesses_def guess_def)
  show "at_time a \<le> seconds 6" if "a \<in> set guesses" for a
    using that by (auto simp: guesses_def guess_def seconds_def)
qed (simp_all add: guesses_wrong login_key_sep_def)

end
