(* ===== verification/LoginRace.thy ===== *)
theory LoginRace
  imports LoginSafety
begin

text \<open>
  Logins that overlap. The handler \<open>login\<close> (\<open>services/api/src/auth.rs\<close>) consults the brakes, then awaits the
  database and the password hash, and only then records the outcome, so any number of requests can be
  between the two at once. Here a login is two steps: it arrives and is rejected or let in, and later it
  finishes. The steps of all requests interleave freely; each step is atomic, at the instant it reads.
\<close>

subsection \<open>The two halves of a login\<close>

record login_service =
  ls_brakes :: login_state
  ls_in_flight :: "(string \<times> string) list"

datatype login_event =
  Arrive string string instant
| Finish nat "bool option" instant

text \<open>\<open>Arrive\<close> is the part of the handler up to the first await, \<open>Finish k\<close> the rest of the \<open>k\<close>-th request that
  is in flight: the database failed (\<open>None\<close>), or the password did or did not verify.\<close>

fun login_step :: "login_service \<Rightarrow> login_event \<Rightarrow> (string \<times> login_outcome) option \<times> login_service" where
  "login_step s (Arrive u c now) =
     (case login_retry_after u c now (ls_brakes s) of
        Some secs \<Rightarrow> (Some (u, Blocked secs), s)
      | None \<Rightarrow> (None, s\<lparr>ls_in_flight := ls_in_flight s @ [(u, c)]\<rparr>))"
| "login_step s (Finish k valid now) =
     (if length (ls_in_flight s) \<le> k then (None, s)
      else let (u, c) = ls_in_flight s ! k;
               s1 = s\<lparr>ls_in_flight := take k (ls_in_flight s) @ drop (Suc k) (ls_in_flight s)\<rparr>
           in (case valid of
                 None \<Rightarrow> (Some (u, LookupFailed), s1)
               | Some False \<Rightarrow> (Some (u, BadCredentials), s1\<lparr>ls_brakes := record_login_failure u c now (ls_brakes s)\<rparr>)
               | Some True \<Rightarrow> (Some (u, SignedIn), s1\<lparr>ls_brakes := record_login_success u c (ls_brakes s)\<rparr>)))"

definition idle_service :: login_service where
  "idle_service = \<lparr>ls_brakes = no_logins, ls_in_flight = []\<rparr>"

text \<open>A login that no other one overlaps is a run of the two steps in a row.\<close>

lemma try_login_as_steps:
  assumes "ls_in_flight s = []" and "login_step s (Arrive (at_user a) (at_client a) (at_time a)) = (o1, s1)"
    and "login_step s1 (Finish 0 (at_valid a) (at_time a)) = (o2, s2)"
  shows "try_login (ls_brakes s) a = (case o1 of Some (_, r) \<Rightarrow> r | None \<Rightarrow> snd (the o2), ls_brakes s2) \<and> ls_in_flight s2 = []"
  using assms
  by (auto simp: try_login_def Let_def split: option.splits bool.splits)

subsection \<open>Counting guesses\<close>

primrec event_time :: "login_event \<Rightarrow> instant" where
  "event_time (Arrive u c now) = now"
| "event_time (Finish k v now) = now"

definition in_flight :: "string \<Rightarrow> login_service \<Rightarrow> nat" where
  "in_flight u s = length (filter (\<lambda>(v, _). v = u) (ls_in_flight s))"

definition guesses_at :: "string \<Rightarrow> (string \<times> login_outcome) option list \<Rightarrow> login_event list \<Rightarrow> instant list" where
  "guesses_at u outs es = map (\<lambda>(r, x). event_time x) (filter (\<lambda>(r, x). r = Some (u, BadCredentials)) (zip outs es))"

definition names_tried :: "login_event list \<Rightarrow> string set" where
  "names_tried es = {u. \<exists>c t. Arrive u c t \<in> set es}"

lemma guesses_at_snoc:
  "length outs = length es \<Longrightarrow>
     guesses_at u (outs @ [r]) (es @ [x]) = guesses_at u outs es @ (if r = Some (u, BadCredentials) then [event_time x] else [])"
  by (simp add: guesses_at_def)

lemma guesses_at_mem: "t \<in> set (guesses_at u outs es) \<Longrightarrow> \<exists>x \<in> set es. t = event_time x"
  by (auto simp: guesses_at_def dest: set_zip_rightD)

text \<open>The account table of the brakes while at most as many names were tried as it may hold.\<close>

definition accounts_within :: "string set \<Rightarrow> login_service \<Rightarrow> bool" where
  "accounts_within names s \<longleftrightarrow>
     distinct (map fst (login_account_failures (ls_brakes s))) \<and>
     fst ` set (login_account_failures (ls_brakes s)) \<subseteq> names \<and> fst ` set (ls_in_flight s) \<subseteq> names"

lemma record_failure_account:
  assumes "length (login_account_failures st) \<le> login_failures_max_entries"
  shows "login_account_failures (record_login_failure u c now st) =
    AList.update u (count_account_failure now (case map_of (login_account_failures st) u of Some a \<Rightarrow> a
      | None \<Rightarrow> \<lparr>ac_recent = [], ac_strikes = 0, ac_blocked_until = now\<rparr>)) (login_account_failures st)"
  using assms by (simp add: record_login_failure_def record_account_failure_def Let_def)

lemma within_short:
  assumes "accounts_within names s" and "finite names" and "card names \<le> login_failures_max_entries"
  shows "length (login_account_failures (ls_brakes s)) \<le> login_failures_max_entries"
proof -
  have "length (login_account_failures (ls_brakes s)) = card (fst ` set (login_account_failures (ls_brakes s)))"
    using assms(1) distinct_card [of "map fst (login_account_failures (ls_brakes s))"] by (simp add: accounts_within_def)
  also have "\<dots> \<le> card names" using assms(1,2) by (intro card_mono) (auto simp: accounts_within_def)
  finally show ?thesis using assms(3) by simp
qed

lemma login_step_cases:
  assumes "login_step s x = (r, s')"
  obtains (quiet) "login_account_failures (ls_brakes s') = login_account_failures (ls_brakes s)"
      "\<forall>u. r \<noteq> Some (u, BadCredentials)" "\<forall>u. in_flight u s' \<le> in_flight u s" "set (ls_in_flight s') \<subseteq> set (ls_in_flight s)"
  | (admit) u c where "x = Arrive u c (event_time x)" "login_retry_after u c (event_time x) (ls_brakes s) = None"
      "r = None" "s' = s\<lparr>ls_in_flight := ls_in_flight s @ [(u, c)]\<rparr>"
  | (guess) u c where "(u, c) \<in> set (ls_in_flight s)" "r = Some (u, BadCredentials)"
      "ls_brakes s' = record_login_failure u c (event_time x) (ls_brakes s)"
      "\<forall>v. in_flight v s = in_flight v s' + (if v = u then 1 else 0)" "set (ls_in_flight s') \<subseteq> set (ls_in_flight s)"
proof (cases x)
  case (Arrive u c now)
  then show ?thesis using assms that by (auto split: option.splits)
next
  case (Finish k valid now)
  show ?thesis
  proof (cases "length (ls_in_flight s) \<le> k")
    case True
    then show ?thesis using assms that(1) Finish by auto
  next
    case False
    obtain u c where uc: "ls_in_flight s ! k = (u, c)" by force
    let ?rest = "take k (ls_in_flight s) @ drop (Suc k) (ls_in_flight s)"
    have split: "ls_in_flight s = take k (ls_in_flight s) @ (u, c) # drop (Suc k) (ls_in_flight s)"
      using False uc id_take_nth_drop [of k "ls_in_flight s"] by simp
    have sub: "set ?rest \<subseteq> set (ls_in_flight s)" "(u, c) \<in> set (ls_in_flight s)" by (subst split, auto)+
    have fewer: "length (filter (\<lambda>(w, _). w = v) (ls_in_flight s)) =
        length (filter (\<lambda>(w, _). w = v) ?rest) + (if v = u then 1 else 0)" for v
      by (subst split) auto
    show ?thesis
    proof (cases "valid = Some False")
      case True
      then have "r = Some (u, BadCredentials)" "ls_brakes s' = record_login_failure u c (event_time x) (ls_brakes s)"
        "ls_in_flight s' = ?rest" using assms False Finish uc by (auto simp: Let_def)
      then show ?thesis using that(3) [of u c] sub fewer by (simp add: in_flight_def)
    next
      case ok: False
      then have "login_account_failures (ls_brakes s') = login_account_failures (ls_brakes s)"
        "\<forall>v. r \<noteq> Some (v, BadCredentials)" "ls_in_flight s' = ?rest"
        using assms False Finish uc
        by (auto simp: Let_def record_login_success_def split: option.splits bool.splits)
      then show ?thesis using that(1) sub fewer by (simp add: in_flight_def)
    qed
  qed
qed

lemma step_within:
  assumes "accounts_within names s" and "login_step s x = (r, s')" and "names_tried [x] \<subseteq> names"
    and "length (login_account_failures (ls_brakes s)) \<le> login_failures_max_entries"
  shows "accounts_within names s'"
  using assms(2)
proof (cases rule: login_step_cases)
  case quiet
  then have "fst ` set (ls_in_flight s') \<subseteq> fst ` set (ls_in_flight s)" by (intro image_mono)
  then show ?thesis using assms(1) quiet(1) by (simp add: accounts_within_def) (meson order_trans)
next
  case (admit u c)
  obtain now where "x = Arrive u c now" using admit(1) by blast
  then have "u \<in> names" using assms(3) by (auto simp: names_tried_def)
  then show ?thesis using assms(1) admit by (auto simp: accounts_within_def)
next
  case (guess u c)
  have "fst ` set (ls_in_flight s') \<subseteq> fst ` set (ls_in_flight s)" by (intro image_mono guess(5))
  moreover have "u \<in> names" using assms(1) guess(1) by (force simp: accounts_within_def)
  moreover have "distinct (map fst (login_account_failures (ls_brakes s')))"
    using assms(1) by (simp add: guess(3) record_failure_account [OF assms(4)] accounts_within_def distinct_update)
  moreover have "fst ` set (login_account_failures (ls_brakes s')) = insert u (fst ` set (login_account_failures (ls_brakes s)))"
    by (simp add: guess(3) record_failure_account [OF assms(4)] dom_update)
  ultimately show ?thesis using assms(1) by (simp add: accounts_within_def) (meson order_trans)
qed

text \<open>After thirty-five counted failures in a quarter of an hour the account is blocked for all of it.\<close>

lemma account_backoff_full:
  assumes "5 < s"
  shows "account_backoff_secs s = 900"
proof -
  have "2 ^ 5 \<le> checked_shl_one (s - 1)" using assms by (intro checked_shl_ge) auto
  then show ?thesis
    by (auto simp: account_backoff_secs_def sat_mul_u64_def account_backoff_base_secs_def login_backoff_cap_secs_def
        u64_max_def)
qed

definition guesses_from :: "instant \<Rightarrow> instant list \<Rightarrow> nat" where
  "guesses_from t h = length (filter (\<lambda>x. t \<le> x \<and> x < t + seconds 900) h)"

lemma blocked_after_35:
  assumes "sorted h" and "\<forall>x \<in> set h. x < t + seconds 900" and "34 < guesses_from t h"
  shows "\<exists>a. account_run h = Some a \<and> t + seconds 900 \<le> ac_blocked_until a"
proof -
  have "(\<lambda>x. t \<le> x \<and> x < t + seconds 900) = (\<lambda>x. t \<le> x \<and> x \<le> t + seconds 900 - 1)" by auto
  then obtain i where i: "i + 34 < length h" "t \<le> h ! i"
    using window_block [OF assms(1), of 34 t "t + seconds 900 - 1"] assms(3) by (auto simp: guesses_from_def)
  define j where "j = length h - 35"
  have j: "j + 34 < length h" "i \<le> j" "j + 34 + 1 = length h" using i(1) by (auto simp: j_def)
  have "t \<le> h ! j" using i assms(1) j by (meson le_trans sorted_nth_mono less_le_trans le_add1 le_less_trans order_trans)
  moreover have "h ! (j + 34) < t + seconds 900" using assms(2) j(1) by simp
  ultimately have "h ! (j + 34) - h ! j \<le> account_fail_window" by (simp add: account_fail_window_def)
  then obtain a where a: "account_run h = Some a" "6 \<le> ac_strikes a"
    "ac_blocked_until a = h ! (j + 34) + seconds (int (account_backoff_secs (ac_strikes a)))"
    using account_pressed [OF assms(1) j(1)] j(3) by auto
  have "h ! j \<le> h ! (j + 34)" using assms(1) j(1) by (simp add: sorted_nth_mono)
  then show ?thesis using a \<open>t \<le> h ! j\<close> account_backoff_full [of "ac_strikes a"] by auto
qed

subsection \<open>The bound\<close>

definition braked :: "nat \<Rightarrow> instant \<Rightarrow> string \<Rightarrow> (string \<times> login_outcome) option list \<Rightarrow> login_event list \<Rightarrow> login_service \<Rightarrow> bool"
where
  "braked n t u outs es s \<longleftrightarrow>
     (let h = guesses_at u outs es in
      sorted h \<and> map_of (login_account_failures (ls_brakes s)) u = account_run h \<and> guesses_from t h \<le> 34 + n \<and>
      ((\<forall>x \<in> set es. event_time x < t + seconds 900) \<and> 34 < guesses_from t h \<longrightarrow>
         guesses_from t h + in_flight u s \<le> 34 + n \<and>
         (\<exists>a. account_run h = Some a \<and> t + seconds 900 \<le> ac_blocked_until a)))"

lemma guesses_from_snoc:
  "guesses_from t (h @ [x]) = guesses_from t h + (if t \<le> x \<and> x < t + seconds 900 then 1 else 0)"
  by (simp add: guesses_from_def)

lemma step_braked:
  assumes inv: "braked n t u outs es s" and len: "length outs = length es" and step: "login_step s x = (r, s')"
    and later: "\<forall>y \<in> set es. event_time y \<le> event_time x" and few: "in_flight u s \<le> n"
    and short: "length (login_account_failures (ls_brakes s)) \<le> login_failures_max_entries"
  shows "braked n t u (outs @ [r]) (es @ [x]) s'"
proof -
  define h where "h = guesses_at u outs es"
  note old = inv [unfolded braked_def Let_def, folded h_def]
  note snoc = guesses_at_snoc [OF len, of u r x, folded h_def]
  from step show ?thesis
  proof (cases rule: login_step_cases)
    case quiet
    then have "guesses_at u (outs @ [r]) (es @ [x]) = h" by (simp add: snoc)
    moreover have "in_flight u s' \<le> in_flight u s" using quiet(3) by blast
    ultimately show ?thesis using old quiet(1) by (auto simp: braked_def Let_def)
  next
    case (admit v c)
    have same: "guesses_at u (outs @ [r]) (es @ [x]) = h" using snoc admit(3) by simp
    have "False" if "v = u" "event_time x < t + seconds 900" "\<exists>a. account_run h = Some a \<and> t + seconds 900 \<le> ac_blocked_until a"
      using not_blocked(2) [OF admit(2)] that old by auto
    moreover have "in_flight u s' = in_flight u s + (if v = u then 1 else 0)" by (simp add: admit(4) in_flight_def)
    ultimately show ?thesis using old admit(4) unfolding braked_def Let_def same by auto
  next
    case (guess v c)
    note acc = record_failure_account [OF short, of v c "event_time x"]
    show ?thesis
    proof (cases "v = u")
      case False
      then have "guesses_at u (outs @ [r]) (es @ [x]) = h" "in_flight u s' = in_flight u s"
        using guess(2,4) snoc by auto
      then show ?thesis using old False guess(3) acc by (auto simp: braked_def Let_def update_conv)
    next
      case True
      let ?h = "h @ [event_time x]"
      have same: "guesses_at u (outs @ [r]) (es @ [x]) = ?h" using guess(2) True snoc by simp
      have srt: "sorted ?h" using old later guesses_at_mem by (fastforce simp: sorted_append h_def)
      have run: "map_of (login_account_failures (ls_brakes s')) u = account_run ?h"
        using old guess(3) acc True by (simp add: update_conv account_run_snoc)
      have fl: "in_flight u s = in_flight u s' + 1" using guess(4) True by simp
      show ?thesis
      proof (cases "event_time x < t + seconds 900")
        case late: False
        then show ?thesis using old srt run unfolding braked_def Let_def same by (simp add: guesses_from_snoc)
      next
        case soon: True
        then have all: "\<forall>y \<in> set es. event_time y < t + seconds 900" using later by fastforce
        have count: "guesses_from t ?h \<le> guesses_from t h + 1" by (simp add: guesses_from_snoc)
        have "\<forall>y \<in> set ?h. y < t + seconds 900" using all soon guesses_at_mem by (fastforce simp: h_def)
        then have blk: "34 < guesses_from t ?h \<Longrightarrow> \<exists>a. account_run ?h = Some a \<and> t + seconds 900 \<le> ac_blocked_until a"
          using blocked_after_35 [OF srt] by blast
        have sum: "guesses_from t ?h + in_flight u s' \<le> 34 + n" if "34 < guesses_from t ?h"
        proof (cases "34 < guesses_from t h")
          case True
          then show ?thesis using old all count fl by auto
        next
          case False
          then have "guesses_from t ?h \<le> 35" using count by simp
          then show ?thesis using fl few by simp
        qed
        then have "guesses_from t ?h \<le> 34 + n" by (cases "34 < guesses_from t ?h") auto
        then show ?thesis using srt run blk sum unfolding braked_def Let_def same by blast
      qed
    qed
  qed
qed

definition never_more_in_flight :: "string \<Rightarrow> nat \<Rightarrow> login_event list \<Rightarrow> bool" where
  "never_more_in_flight u n es \<longleftrightarrow>
     (\<forall>k \<le> length es. in_flight u (snd (run_machine login_step idle_service (take k es))) \<le> n)"

lemma never_more_prefix: "never_more_in_flight u n (es @ [x]) \<Longrightarrow> never_more_in_flight u n es"
  unfolding never_more_in_flight_def
proof (intro allI impI)
  fix k assume a: "\<forall>k \<le> length (es @ [x]). in_flight u (snd (run_machine login_step idle_service (take k (es @ [x])))) \<le> n"
    and "k \<le> length es"
  then show "in_flight u (snd (run_machine login_step idle_service (take k es))) \<le> n"
    using a [rule_format, of k] by simp
qed

lemma run_braked:
  assumes "run_machine login_step idle_service es = (outs, s)" and "sorted (map event_time es)"
    and "never_more_in_flight u n es" and "names_tried es \<subseteq> names" and "finite names"
    and "card names \<le> login_failures_max_entries"
  shows "braked n t u outs es s \<and> accounts_within names s"
  using assms(1-4)
proof (induction es arbitrary: outs s rule: rev_induct)
  case Nil
  then show ?case
    by (auto simp: braked_def Let_def guesses_at_def idle_service_def no_logins_def guesses_from_def accounts_within_def)
next
  case (snoc x es)
  obtain o1 s1 where r: "run_machine login_step idle_service es = (o1, s1)" by force
  obtain y s2 where st: "login_step s1 x = (y, s2)" by force
  have eq: "outs = o1 @ [y]" "s = s2" using snoc.prems(1) r st by (simp_all add: run_machine_append)
  have len: "length o1 = length es" using run_machine_length [of login_step idle_service es] r by simp
  have names: "names_tried es \<subseteq> names" "names_tried [x] \<subseteq> names" using snoc.prems(4) by (auto simp: names_tried_def)
  have ih: "braked n t u o1 es s1" "accounts_within names s1"
    using snoc.IH [OF r] snoc.prems(2,3) names(1) never_more_prefix by (auto simp: sorted_append)
  have short: "length (login_account_failures (ls_brakes s1)) \<le> login_failures_max_entries"
    by (rule within_short [OF ih(2) assms(5,6)])
  have few: "in_flight u s1 \<le> n"
    using snoc.prems(3) r by (auto simp: never_more_in_flight_def dest: spec [where x = "length es"])
  have "\<forall>y \<in> set es. event_time y \<le> event_time x" using snoc.prems(2) by (auto simp: sorted_append)
  then show ?case
    using step_braked [OF ih(1) len st _ few short] step_within [OF ih(2) st names(2) short] eq by blast
qed

text \<open>C23. However the logins at an account overlap, and whichever clients they come from, fewer than
  \<open>35 + n\<close> wrong passwords are compared and counted in any quarter of an hour, where \<open>n\<close> is the most
  logins at that account that are ever between the check of the brakes and the record of the outcome:
  the account-wide brake engages at the thirtieth failure and then doubles, and what it cannot stop are
  the requests that were let in before. The bound assumes that no more than 10,000 different names were
  submitted since the service started (beyond that the table of the brakes drops counts that are not yet
  blocked), that each check and each record is atomic, and that the clock does not run backwards from one
  step to the next. Successful sign-ins in between do not reset the count.\<close>

theorem account_guesses_bounded:
  assumes "run_machine login_step idle_service es = (outs, s)" and "sorted (map event_time es)"
    and "never_more_in_flight u n es" and "card (names_tried es) \<le> login_failures_max_entries"
  shows "length (filter (\<lambda>x. t \<le> x \<and> x < t + seconds 900) (guesses_at u outs es)) \<le> 34 + n"
proof -
  have "finite (names_tried es)"
  proof (rule finite_subset)
    show "names_tried es \<subseteq> (\<lambda>x. case x of Arrive u c t \<Rightarrow> u | Finish k v t \<Rightarrow> []) ` set es"
      by (force simp: names_tried_def)
  qed simp
  from run_braked [OF assms(1-3) order_refl this assms(4), of t] show ?thesis
    by (simp add: braked_def Let_def guesses_from_def)
qed

subsection \<open>A burst of overlapping guesses\<close>

primrec arrives :: "login_event \<Rightarrow> bool" where
  "arrives (Arrive u c t) = True"
| "arrives (Finish k v t) = False"

lemma step_in_flight:
  "length (ls_in_flight (snd (login_step s x))) \<le> length (ls_in_flight s) + (if arrives x then 1 else 0)"
  by (cases x) (auto simp: Let_def case_prod_beta split: option.splits bool.splits)

lemma run_in_flight:
  "in_flight u (snd (run_machine login_step idle_service es)) \<le> length (filter arrives es)"
proof -
  have "length (ls_in_flight (snd (run_machine login_step s es))) \<le>
      length (ls_in_flight s) + length (filter arrives es)" for s
  proof (induction es arbitrary: s)
    case (Cons x es)
    show ?case
      using Cons.IH [of "snd (login_step s x)"] step_in_flight [of s x]
      by (simp add: run_machine_snd del: run_machine.simps login_step.simps split: if_splits)
  qed simp
  from this [of idle_service]
  have "length (ls_in_flight (snd (run_machine login_step idle_service es))) \<le> length (filter arrives es)"
    by (simp add: idle_service_def)
  then show ?thesis unfolding in_flight_def by (rule le_trans [OF length_filter_le])
qed

text \<open>Forty wrong passwords are sent at once, and all are let in before the first one is counted.\<close>

definition burst :: "login_event list" where
  "burst = replicate 40 (Arrive ''root'' ''10.0.0.9'' (seconds 0)) @ replicate 40 (Finish 0 (Some False) (seconds 1))"

lemma arrivals:
  "login_retry_after u c now (ls_brakes s) = None \<Longrightarrow>
     run_machine login_step s (replicate k (Arrive u c now)) =
     (replicate k None, s\<lparr>ls_in_flight := ls_in_flight s @ replicate k (u, c)\<rparr>)"
  by (induction k arbitrary: s) (simp_all add: replicate_append_same)

lemma finishes:
  "ls_in_flight s = replicate k (u, c) \<Longrightarrow>
     fst (run_machine login_step s (replicate k (Finish 0 (Some False) now))) = replicate k (Some (u, BadCredentials))"
  by (induction k arbitrary: s) (simp_all add: case_prod_beta)

lemma burst_counted:
  "guesses_at ''root'' (fst (run_machine login_step idle_service burst)) burst = replicate 40 (seconds 1)"
proof -
  let ?s = "idle_service\<lparr>ls_in_flight := replicate 40 (''root'', ''10.0.0.9'')\<rparr>"
  have "run_machine login_step idle_service (replicate 40 (Arrive ''root'' ''10.0.0.9'' (seconds 0))) = (replicate 40 None, ?s)"
    by (subst arrivals) (simp_all add: idle_service_def no_logins_def login_retry_after_def)
  then have "fst (run_machine login_step idle_service burst) = replicate 40 None @ replicate 40 (Some (''root'', BadCredentials))"
    using finishes [of ?s 40 "''root''" "''10.0.0.9''" "seconds 1"]
    by (simp add: burst_def run_machine_append Let_def case_prod_beta)
  then show ?thesis
    by (simp add: guesses_at_def burst_def zip_append1 zip_replicate map_replicate_const [symmetric])
qed

theorem account_guesses_bounded_witness:
  "(40::nat) = length (filter (\<lambda>x. seconds 0 \<le> x \<and> x < seconds 0 + seconds 900)
      (guesses_at ''root'' (fst (run_machine login_step idle_service burst)) burst)) \<and> (40::nat) \<le> 34 + 40"
proof -
  have short: "length (filter arrives (take k burst)) \<le> 40" for k
    by (auto simp: burst_def)
  have names: "names_tried burst = {''root''}" by (auto simp: names_tried_def burst_def)
  have "never_more_in_flight ''root'' 40 burst"
    unfolding never_more_in_flight_def using run_in_flight short le_trans by blast
  then have "length (filter (\<lambda>x. seconds 0 \<le> x \<and> x < seconds 0 + seconds 900)
      (guesses_at ''root'' (fst (run_machine login_step idle_service burst)) burst)) \<le> 34 + 40"
    by (intro account_guesses_bounded [OF prod.collapse [symmetric]])
      (simp_all add: names login_failures_max_entries_def, simp add: burst_def seconds_def sorted_append)
  then show ?thesis unfolding burst_counted by (simp add: seconds_def)
qed

end
