(* ===== verification/Accounts.thy ===== *)
theory Accounts
  imports LoginBackoff
begin

text \<open>
  Users, permission roles and sessions: the rows, the statements of \<open>services/common/src/db.rs\<close> over them,
  and the three caches of \<open>services/api/src/state.rs\<close> that stand between a request and the database.

  \<^item> A statement is answered, refused, or executed with its answer lost (\<open>ae_reply\<close>, indexed by the number of
    the statement); the clock is read at a statement number (\<open>ae_now\<close>), so time passes inside a handler.
  \<^item> Random identifiers come from \<open>ae_uuid\<close>; Argon2 is \<open>ae_hash\<close> (of a password and a salt) and \<open>ae_verify\<close>. Error messages are dropped, except the context string of a
    database error, which two handlers look at.
  \<^item> The primary keys, the unique names and the foreign keys of the tables are checked by the statements.
  \<^item> Listings are not ordered; only the rows they contain are used.
\<close>

subsection \<open>Rows\<close>

datatype user_role = Admin | Viewer

definition role_as_str :: "user_role \<Rightarrow> string" where
  "role_as_str r = (case r of Admin \<Rightarrow> ''admin'' | Viewer \<Rightarrow> ''viewer'')"

definition role_from_str :: "string \<Rightarrow> user_role option" where
  "role_from_str s = (if s = ''admin'' then Some Admin else if s = ''viewer'' then Some Viewer else None)"

datatype bookmark_scope = No_Bookmarks | Own | View_All | All_Bookmarks

record capabilities =
  cap_export :: bool
  cap_playback :: bool
  cap_clips :: bool
  cap_ptz :: bool
  cap_bookmarks :: bookmark_scope
  cap_manage_views :: bool
  cap_view_plates :: bool
  cap_actuators :: bool
  cap_manage_channels :: bool

definition all_caps :: capabilities where
  "all_caps = \<lparr>cap_export = True, cap_playback = True, cap_clips = True, cap_ptz = True, cap_bookmarks = All_Bookmarks,
     cap_manage_views = True, cap_view_plates = True, cap_actuators = True, cap_manage_channels = True\<rparr>"

record role =
  ro_id :: uuid
  ro_name :: string
  ro_is_admin :: bool
  ro_capabilities :: capabilities
  ro_camera_ids :: "uuid list"
  ro_created :: instant

definition effective_caps :: "role \<Rightarrow> capabilities" where
  "effective_caps r = (if ro_is_admin r then all_caps else ro_capabilities r)"

record user =
  us_id :: uuid
  us_username :: string
  us_password_hash :: string
  us_role :: user_role
  us_camera_ids :: "uuid list"
  us_role_id :: "uuid option"

record session =
  se_jti :: uuid
  se_user :: uuid
  se_label :: "string option"
  se_ip :: "string option"
  se_long_lived :: bool
  se_created :: instant
  se_last_seen :: instant
  se_expires :: instant
  se_revoked :: "instant option"

subsection \<open>The world of the API\<close>

record handoff_entry =
  he_user :: uuid
  he_jti :: "uuid option"
  he_expires :: instant

record auth_world =
  aw_users :: "user list"
  aw_roles :: "role list"
  aw_sessions :: "session list"
  aw_calls :: nat
  aw_uuids :: nat
  aw_revoked :: "uuid list"
  aw_revoked_at :: int
  aw_session_cache :: "(uuid \<times> uuid list option \<times> int) list"
  aw_roles_cache :: "(uuid \<times> role) list"
  aw_handoffs :: "(string \<times> handoff_entry) list"
  aw_logins :: login_state

datatype reply = Answered | Refused | Answer_Lost

record account_env =
  ae_reply :: "nat \<Rightarrow> reply"
  ae_now :: "nat \<Rightarrow> instant"
  ae_uuid :: "nat \<Rightarrow> uuid"
  ae_hash :: "string \<Rightarrow> uuid \<Rightarrow> string option"
  ae_verify :: "string \<Rightarrow> string \<Rightarrow> bool"

record db_error =
  de_context :: string
  de_unique :: bool

datatype api_error = Bad_Request | Unauthorized | Forbidden | Not_Found | Conflict | Too_Many_Requests nat | Internal

type_synonym ('e, 'a) call = "auth_world \<Rightarrow> ('e + 'a) \<times> auth_world"

text \<open>Sequencing with early return (\<open>?\<close>), \<open>map_err\<close>, and a value or an error returned at once.\<close>

definition give :: "'a \<Rightarrow> ('e, 'a) call" where "give x w = (Inr x, w)"
definition fail :: "'e \<Rightarrow> ('e, 'a) call" where "fail x w = (Inl x, w)"

definition andthen :: "('e, 'a) call \<Rightarrow> ('a \<Rightarrow> ('e, 'b) call) \<Rightarrow> ('e, 'b) call" where
  "andthen m f w = (case m w of (Inl x, w1) \<Rightarrow> (Inl x, w1) | (Inr a, w1) \<Rightarrow> f a w1)"

definition map_err :: "('e \<Rightarrow> 'f) \<Rightarrow> ('e, 'a) call \<Rightarrow> ('f, 'a) call" where
  "map_err g m w = (case m w of (Inl x, w1) \<Rightarrow> (Inl (g x), w1) | (Inr a, w1) \<Rightarrow> (Inr a, w1))"

definition doing :: "(auth_world \<Rightarrow> auth_world) \<Rightarrow> ('e, unit) call" where
  "doing f w = (Inr (), f w)"

definition internal :: "db_error \<Rightarrow> api_error" where "internal x = Internal"

text \<open>One statement on one connection of the pool. The body returns a constraint violation (\<open>True\<close> for a unique
  one), or its result and the new rows.\<close>

definition statement :: "account_env \<Rightarrow> string \<Rightarrow> (auth_world \<Rightarrow> bool + 'a \<times> auth_world) \<Rightarrow> (db_error, 'a) call" where
  "statement e context body w =
     (let w1 = w\<lparr>aw_calls := Suc (aw_calls w)\<rparr>; lost = \<lparr>de_context = context, de_unique = False\<rparr> in
      case ae_reply e (aw_calls w) of
        Refused \<Rightarrow> (Inl lost, w1)
      | Answered \<Rightarrow>
          (case body w1 of
             Inl unique \<Rightarrow> (Inl \<lparr>de_context = context, de_unique = unique\<rparr>, w1)
           | Inr (a, w2) \<Rightarrow> (Inr a, w2))
      | Answer_Lost \<Rightarrow> (Inl lost, case body w1 of Inl unique \<Rightarrow> w1 | Inr (a, w2) \<Rightarrow> w2))"

definition query :: "account_env \<Rightarrow> string \<Rightarrow> (auth_world \<Rightarrow> 'a) \<Rightarrow> (db_error, 'a) call" where
  "query e context f = statement e context (\<lambda>w. Inr (f w, w))"

definition now_at :: "account_env \<Rightarrow> auth_world \<Rightarrow> instant" where
  "now_at e w = ae_now e (aw_calls w)"

definition timestamp :: "instant \<Rightarrow> int" where
  "timestamp t = t div 1000000000"

definition new_uuid :: "account_env \<Rightarrow> auth_world \<Rightarrow> uuid \<times> auth_world" where
  "new_uuid e w = (ae_uuid e (aw_uuids w), w\<lparr>aw_uuids := Suc (aw_uuids w)\<rparr>)"

definition coalesce :: "'a option \<Rightarrow> 'a \<Rightarrow> 'a" where
  "coalesce new old = (case new of Some x \<Rightarrow> x | None \<Rightarrow> old)"

subsection \<open>Users\<close>

definition list_users :: "account_env \<Rightarrow> (db_error, user list) call" where
  "list_users e = query e ''list_users'' aw_users"

definition get_user_by_username :: "account_env \<Rightarrow> string \<Rightarrow> (db_error, user option) call" where
  "get_user_by_username e name = query e ''get_user_by_username'' (\<lambda>w. List.find (\<lambda>u. us_username u = name) (aw_users w))"

definition get_user_by_id :: "account_env \<Rightarrow> uuid \<Rightarrow> (db_error, user option) call" where
  "get_user_by_id e i = query e ''get_user_by_id'' (\<lambda>w. List.find (\<lambda>u. us_id u = i) (aw_users w))"

definition role_exists :: "uuid option \<Rightarrow> auth_world \<Rightarrow> bool" where
  "role_exists i w = (case i of None \<Rightarrow> True | Some r \<Rightarrow> r \<in> ro_id ` set (aw_roles w))"

definition db_create_user ::
  "account_env \<Rightarrow> string \<Rightarrow> string \<Rightarrow> user_role \<Rightarrow> uuid list \<Rightarrow> uuid option \<Rightarrow> (db_error, user) call"
where
  "db_create_user e name hash role cams rid = statement e ''create_user''
     (\<lambda>w. if name \<in> us_username ` set (aw_users w) then Inl True
          else if \<not> role_exists rid w then Inl False
          else (let (i, w1) = new_uuid e w;
                    u = \<lparr>us_id = i, us_username = name, us_password_hash = hash, us_role = role, us_camera_ids = cams, us_role_id = rid\<rparr>
                in if i \<in> us_id ` set (aw_users w) then Inl True
                   else Inr (u, w1\<lparr>aw_users := aw_users w1 @ [u]\<rparr>)))"

definition db_update_user ::
  "account_env \<Rightarrow> uuid \<Rightarrow> string option \<Rightarrow> string option \<Rightarrow> user_role option \<Rightarrow> uuid list option \<Rightarrow> uuid option \<Rightarrow> (db_error, user) call"
where
  "db_update_user e i name hash role cams rid = statement e ''update_user''
     (\<lambda>w. case List.find (\<lambda>u. us_id u = i) (aw_users w) of
            None \<Rightarrow> Inl False
          | Some u \<Rightarrow>
              (let u' = \<lparr>us_id = us_id u, us_username = coalesce name (us_username u),
                         us_password_hash = coalesce hash (us_password_hash u), us_role = coalesce role (us_role u),
                         us_camera_ids = coalesce cams (us_camera_ids u),
                         us_role_id = (case rid of Some r \<Rightarrow> Some r | None \<Rightarrow> us_role_id u)\<rparr> in
               if \<exists>v\<in>set (aw_users w). us_id v \<noteq> i \<and> us_username v = us_username u' then Inl True
               else if \<not> role_exists rid w then Inl False
               else Inr (u', w\<lparr>aw_users := map (\<lambda>v. if us_id v = i then u' else v) (aw_users w)\<rparr>)))"

text \<open>Deleting a user deletes its sessions (\<open>ON DELETE CASCADE\<close>).\<close>

definition db_delete_user :: "account_env \<Rightarrow> uuid \<Rightarrow> (db_error, unit) call" where
  "db_delete_user e i = statement e ''delete_user''
     (\<lambda>w. Inr ((), w\<lparr>aw_users := filter (\<lambda>u. us_id u \<noteq> i) (aw_users w),
                     aw_sessions := filter (\<lambda>s. se_user s \<noteq> i) (aw_sessions w)\<rparr>))"

subsection \<open>Roles\<close>

definition db_get_role :: "account_env \<Rightarrow> uuid \<Rightarrow> (db_error, role option) call" where
  "db_get_role e i = query e ''get_role'' (\<lambda>w. List.find (\<lambda>r. ro_id r = i) (aw_roles w))"

fun oldest :: "role list \<Rightarrow> role option" where
  "oldest [] = None"
| "oldest (r # rs) = (case oldest rs of None \<Rightarrow> Some r | Some s \<Rightarrow> if ro_created s < ro_created r then Some s else Some r)"

definition get_admin_role_id :: "account_env \<Rightarrow> (db_error, uuid option) call" where
  "get_admin_role_id e = query e ''get_admin_role_id'' (\<lambda>w. map_option ro_id (oldest (filter ro_is_admin (aw_roles w))))"

definition db_create_role :: "account_env \<Rightarrow> string \<Rightarrow> capabilities \<Rightarrow> uuid list \<Rightarrow> (db_error, role) call" where
  "db_create_role e name caps cams = statement e ''create_role''
     (\<lambda>w. if name \<in> ro_name ` set (aw_roles w) then Inl True
          else (let (i, w1) = new_uuid e w;
                    r = \<lparr>ro_id = i, ro_name = name, ro_is_admin = False, ro_capabilities = caps, ro_camera_ids = cams, ro_created = now_at e w\<rparr>
                in if i \<in> ro_id ` set (aw_roles w) then Inl True
                   else Inr (r, w1\<lparr>aw_roles := aw_roles w1 @ [r]\<rparr>)))"

definition db_update_role ::
  "account_env \<Rightarrow> uuid \<Rightarrow> string option \<Rightarrow> capabilities option \<Rightarrow> uuid list option \<Rightarrow> (db_error, role option) call"
where
  "db_update_role e i name caps cams = statement e ''update_role''
     (\<lambda>w. case List.find (\<lambda>r. ro_id r = i \<and> \<not> ro_is_admin r) (aw_roles w) of
            None \<Rightarrow> Inr (None, w)
          | Some r \<Rightarrow>
              (let r' = r\<lparr>ro_name := coalesce name (ro_name r), ro_capabilities := coalesce caps (ro_capabilities r),
                          ro_camera_ids := coalesce cams (ro_camera_ids r)\<rparr> in
               if \<exists>s\<in>set (aw_roles w). ro_id s \<noteq> i \<and> ro_name s = ro_name r' then Inl True
               else Inr (Some r', w\<lparr>aw_roles := map (\<lambda>s. if ro_id s = i \<and> \<not> ro_is_admin s then r' else s) (aw_roles w)\<rparr>)))"

text \<open>A role a user refers to cannot be deleted (\<open>users.role_id REFERENCES roles\<close>).\<close>

definition db_delete_role :: "account_env \<Rightarrow> uuid \<Rightarrow> (db_error, nat) call" where
  "db_delete_role e i = statement e ''delete_role''
     (\<lambda>w. (let hit = filter (\<lambda>r. ro_id r = i \<and> \<not> ro_is_admin r) (aw_roles w) in
           if hit \<noteq> [] \<and> Some i \<in> us_role_id ` set (aw_users w) then Inl False
           else Inr (length hit, w\<lparr>aw_roles := filter (\<lambda>r. \<not> (ro_id r = i \<and> \<not> ro_is_admin r)) (aw_roles w)\<rparr>)))"

definition count_users_with_role :: "account_env \<Rightarrow> uuid \<Rightarrow> (db_error, nat) call" where
  "count_users_with_role e i = query e ''count_users_with_role''
     (\<lambda>w. length (filter (\<lambda>u. us_role_id u = Some i) (aw_users w)))"

subsection \<open>Sessions\<close>

definition create_session ::
  "account_env \<Rightarrow> uuid \<Rightarrow> uuid \<Rightarrow> string option \<Rightarrow> string option \<Rightarrow> bool \<Rightarrow> instant \<Rightarrow> (db_error, unit) call"
where
  "create_session e jti user label ip long_lived expires = statement e ''create_session''
     (\<lambda>w. if jti \<in> se_jti ` set (aw_sessions w) then Inl True
          else if user \<notin> us_id ` set (aw_users w) then Inl False
          else Inr ((), w\<lparr>aw_sessions := aw_sessions w @
                 [\<lparr>se_jti = jti, se_user = user, se_label = label, se_ip = ip, se_long_lived = long_lived, se_created = now_at e w,
                   se_last_seen = now_at e w, se_expires = expires, se_revoked = None\<rparr>]\<rparr>))"

definition list_sessions_for_user :: "account_env \<Rightarrow> uuid \<Rightarrow> (db_error, session list) call" where
  "list_sessions_for_user e user = query e ''list_sessions_for_user'' (\<lambda>w. filter (\<lambda>s. se_user s = user) (aw_sessions w))"

definition get_session :: "account_env \<Rightarrow> uuid \<Rightarrow> (db_error, session option) call" where
  "get_session e jti = query e ''get_session'' (\<lambda>w. List.find (\<lambda>s. se_jti s = jti) (aw_sessions w))"

definition list_revoked_jtis :: "account_env \<Rightarrow> (db_error, uuid list) call" where
  "list_revoked_jtis e = query e ''list_revoked_jtis''
     (\<lambda>w. map se_jti (filter (\<lambda>s. se_revoked s \<noteq> None \<and> now_at e w < se_expires s) (aw_sessions w)))"

text \<open>The join of \<open>sessions\<close> and \<open>users\<close>.\<close>

definition live_row :: "uuid \<Rightarrow> uuid \<Rightarrow> auth_world \<Rightarrow> uuid list option" where
  "live_row jti user w =
     (case List.find (\<lambda>s. se_jti s = jti \<and> se_user s = user \<and> se_revoked s = None) (aw_sessions w) of
        None \<Rightarrow> None
      | Some s \<Rightarrow> map_option us_camera_ids (List.find (\<lambda>u. us_id u = se_user s) (aw_users w)))"

definition resolve_live_session :: "account_env \<Rightarrow> uuid \<Rightarrow> uuid \<Rightarrow> (db_error, uuid list option) call" where
  "resolve_live_session e jti user = query e ''resolve_live_session'' (live_row jti user)"

definition revoke_where :: "account_env \<Rightarrow> string \<Rightarrow> (session \<Rightarrow> bool) \<Rightarrow> (db_error, nat) call" where
  "revoke_where e context P = statement e context
     (\<lambda>w. Inr (length (filter (\<lambda>s. P s \<and> se_revoked s = None) (aw_sessions w)),
               w\<lparr>aw_sessions := map (\<lambda>s. if P s \<and> se_revoked s = None then s\<lparr>se_revoked := Some (now_at e w)\<rparr> else s) (aw_sessions w)\<rparr>))"

definition revoke_session :: "account_env \<Rightarrow> uuid \<Rightarrow> uuid option \<Rightarrow> (db_error, nat) call" where
  "revoke_session e jti user =
     (case user of
        Some u \<Rightarrow> revoke_where e ''revoke_session (scoped)'' (\<lambda>s. se_jti s = jti \<and> se_user s = u)
      | None \<Rightarrow> revoke_where e ''revoke_session (admin)'' (\<lambda>s. se_jti s = jti))"

definition revoke_all_sessions_for_user :: "account_env \<Rightarrow> uuid \<Rightarrow> (db_error, nat) call" where
  "revoke_all_sessions_for_user e user = revoke_where e ''revoke_all_sessions_for_user'' (\<lambda>s. se_user s = user)"

definition revoke_other_sessions_for_user :: "account_env \<Rightarrow> uuid \<Rightarrow> uuid \<Rightarrow> (db_error, nat) call" where
  "revoke_other_sessions_for_user e user keep =
     revoke_where e ''revoke_other_sessions_for_user'' (\<lambda>s. se_user s = user \<and> se_jti s \<noteq> keep)"

definition touch_session :: "account_env \<Rightarrow> uuid \<Rightarrow> (db_error, unit) call" where
  "touch_session e jti = statement e ''touch_session''
     (\<lambda>w. Inr ((), w\<lparr>aw_sessions := map (\<lambda>s. if se_jti s = jti then s\<lparr>se_last_seen := now_at e w\<rparr> else s) (aw_sessions w)\<rparr>))"

definition prune_expired_sessions :: "account_env \<Rightarrow> (db_error, nat) call" where
  "prune_expired_sessions e = statement e ''prune_expired_sessions''
     (\<lambda>w. Inr (length (filter (\<lambda>s. se_expires s \<le> now_at e w) (aw_sessions w)),
               w\<lparr>aw_sessions := filter (\<lambda>s. \<not> se_expires s \<le> now_at e w) (aw_sessions w)\<rparr>))"

subsection \<open>The caches\<close>

definition revocation_cache_ttl_secs :: int where "revocation_cache_ttl_secs = 15"
definition session_cache_ttl_secs :: int where "session_cache_ttl_secs = 30"
definition session_cache_max_entries :: nat where "session_cache_max_entries = 10000"

text \<open>A failure to read a role is treated like a role that does not exist.\<close>

definition role_by_id :: "account_env \<Rightarrow> uuid \<Rightarrow> auth_world \<Rightarrow> role option \<times> auth_world" where
  "role_by_id e i w =
     (case map_of (aw_roles_cache w) i of
        Some r \<Rightarrow> (Some r, w)
      | None \<Rightarrow>
          (case db_get_role e i w of
             (Inr (Some r), w1) \<Rightarrow> (Some r, w1\<lparr>aw_roles_cache := AList.update i r (aw_roles_cache w1)\<rparr>)
           | (_, w1) \<Rightarrow> (None, w1)))"

definition invalidate_roles_cache :: "auth_world \<Rightarrow> auth_world" where
  "invalidate_roles_cache w = w\<lparr>aw_roles_cache := []\<rparr>"

definition refresh_revoked_jtis :: "account_env \<Rightarrow> auth_world \<Rightarrow> auth_world" where
  "refresh_revoked_jtis e w =
     (case list_revoked_jtis e w of
        (Inr jtis, w1) \<Rightarrow> w1\<lparr>aw_revoked := jtis, aw_revoked_at := timestamp (now_at e w1)\<rparr>
      | (Inl _, w1) \<Rightarrow> w1)"

definition is_jti_revoked :: "account_env \<Rightarrow> uuid \<Rightarrow> auth_world \<Rightarrow> bool \<times> auth_world" where
  "is_jti_revoked e jti w =
     (let now = timestamp (now_at e w);
          w1 = (if aw_revoked_at w = 0 \<or> revocation_cache_ttl_secs \<le> now - aw_revoked_at w then refresh_revoked_jtis e w else w)
      in (jti \<in> set (aw_revoked w1), w1))"

text \<open>\<open>resolve_session\<close>: the cached answer, the database, and the entry made for its answer.\<close>

definition cached_session :: "uuid \<Rightarrow> int \<Rightarrow> auth_world \<Rightarrow> uuid list option option" where
  "cached_session jti now w =
     (case map_of (aw_session_cache w) jti of
        Some (grants, checked) \<Rightarrow> if now - checked < session_cache_ttl_secs then Some grants else None
      | None \<Rightarrow> None)"

definition cache_session :: "uuid \<Rightarrow> uuid list option \<Rightarrow> int \<Rightarrow> auth_world \<Rightarrow> auth_world" where
  "cache_session jti grants now w =
     (let kept = (if session_cache_max_entries < length (aw_session_cache w) then [] else aw_session_cache w)
      in w\<lparr>aw_session_cache := AList.update jti (grants, now) kept\<rparr>)"

definition resolve_session :: "account_env \<Rightarrow> uuid \<Rightarrow> uuid \<Rightarrow> (db_error, uuid list option) call" where
  "resolve_session e jti user w =
     (let now = timestamp (now_at e w) in
      case cached_session jti now w of
        Some grants \<Rightarrow> (Inr grants, w)
      | None \<Rightarrow>
          andthen (resolve_live_session e jti user)
            (\<lambda>grants. andthen (doing (cache_session jti grants now)) (\<lambda>_. give grants)) w)"

definition invalidate_session_cache :: "auth_world \<Rightarrow> auth_world" where
  "invalidate_session_cache w = w\<lparr>aw_session_cache := []\<rparr>"

end
