(* ===== verification/UserAdmin.thy ===== *)
theory UserAdmin
  imports Accounts
begin

text \<open>
  The administration of users and roles (\<open>services/api/src/config_routes.rs\<close>, \<open>roles.rs\<close>).

  \<^item> A handler that looks at the rows first and then changes them is composed of the two parts, because other
    requests run in between: \<open>delete_user_check\<close> and \<open>delete_user_act\<close>, \<open>update_user_check\<close> and \<open>update_user_act\<close>.
\<close>

text \<open>The principal of a request (\<open>AuthUser\<close>).\<close>

record auth_user =
  au_user_id :: uuid
  au_role :: user_role
  au_camera_ids :: "uuid list"
  au_capabilities :: capabilities
  au_role_id :: "uuid option"
  au_jti :: "uuid option"
  au_media_scoped :: bool

definition ensure :: "bool \<Rightarrow> 'e \<Rightarrow> ('e, unit) call" where
  "ensure ok x = (if ok then give () else fail x)"

definition or_else_fail :: "'e \<Rightarrow> 'a option \<Rightarrow> ('e, 'a) call" where
  "or_else_fail x a = (case a of None \<Rightarrow> fail x | Some y \<Rightarrow> give y)"

definition validate_username :: "string \<Rightarrow> (api_error, unit) call" where
  "validate_username name =
     (if trim name = [] then fail Bad_Request else if 128 < length name then fail Bad_Request else give ())"

definition validate_password :: "string \<Rightarrow> (api_error, unit) call" where
  "validate_password pw = (if length pw < 8 then fail Bad_Request else give ())"

definition hash_password :: "account_env \<Rightarrow> string \<Rightarrow> (api_error, string) call" where
  "hash_password e pw w = (let (salt, w1) = new_uuid e w in or_else_fail Internal (ae_hash e pw salt) w1)"

text \<open>\<open>validate_password(pw)?\<close> and \<open>hash_password(pw)?\<close> of an optional password.\<close>

definition if_given :: "('a \<Rightarrow> ('e, 'b) call) \<Rightarrow> 'a option \<Rightarrow> ('e, 'b option) call" where
  "if_given f a = (case a of None \<Rightarrow> give None | Some x \<Rightarrow> andthen (f x) (\<lambda>y. give (Some y)))"

definition unique_conflict :: "db_error \<Rightarrow> api_error" where
  "unique_conflict x = (if de_unique x then Conflict else Internal)"

definition require_user :: "account_env \<Rightarrow> uuid \<Rightarrow> (api_error, user) call" where
  "require_user e i = andthen (map_err internal (get_user_by_id e i)) (or_else_fail Not_Found)"

definition role_or_bad_request :: "account_env \<Rightarrow> uuid \<Rightarrow> (api_error, role) call" where
  "role_or_bad_request e i = andthen (map_err internal (db_get_role e i)) (or_else_fail Bad_Request)"

definition mirror_of :: "role \<Rightarrow> user_role" where
  "mirror_of r = (if ro_is_admin r then Admin else Viewer)"

subsection \<open>Creating a user\<close>

record create_user_request =
  cu_username :: string
  cu_password :: string
  cu_role_id :: "uuid option"
  cu_role :: "user_role option"
  cu_camera_ids :: "uuid list"

definition created_role :: "account_env \<Rightarrow> create_user_request \<Rightarrow> (api_error, user_role \<times> uuid option \<times> uuid list) call" where
  "created_role e body =
     (case cu_role_id body of
        Some rid \<Rightarrow>
          andthen (role_or_bad_request e rid)
            (\<lambda>r. give (mirror_of r, Some rid, if ro_is_admin r then [] else cu_camera_ids body))
      | None \<Rightarrow>
          (let ur = (case cu_role body of Some ur \<Rightarrow> ur | None \<Rightarrow> Viewer)
           in give (ur, None, if ur = Admin then [] else cu_camera_ids body)))"

definition create_user_route :: "account_env \<Rightarrow> create_user_request \<Rightarrow> (api_error, user) call" where
  "create_user_route e body =
     andthen (validate_username (cu_username body)) (\<lambda>_.
     andthen (validate_password (cu_password body)) (\<lambda>_.
     andthen (hash_password e (cu_password body)) (\<lambda>hash.
     andthen (created_role e body) (\<lambda>(ur, rid, cams).
       map_err unique_conflict (db_create_user e (cu_username body) hash ur cams rid)))))"

subsection \<open>The last administrator\<close>

definition last_admin_guard :: "account_env \<Rightarrow> (api_error, unit) call" where
  "last_admin_guard e =
     andthen (map_err internal (list_users e))
       (\<lambda>us. if length (filter (\<lambda>u. us_role u = Admin) us) \<le> 1 then fail Conflict else give ())"

subsection \<open>Changing a user\<close>

record update_user_request =
  uu_username :: "string option"
  uu_password :: "string option"
  uu_role_id :: "uuid option"
  uu_role :: "user_role option"
  uu_camera_ids :: "uuid list option"

record user_plan =
  up_existing :: user
  up_hash :: "string option"
  up_role :: "user_role option"
  up_role_id :: "uuid option"
  up_camera_ids :: "uuid list option"

definition planned_role ::
  "account_env \<Rightarrow> update_user_request \<Rightarrow> user \<Rightarrow> (api_error, user_role option \<times> uuid option \<times> uuid list option) call"
where
  "planned_role e body existing =
     (case uu_role_id body of
        Some rid \<Rightarrow>
          andthen (role_or_bad_request e rid)
            (\<lambda>r. give (Some (mirror_of r), Some rid, if ro_is_admin r then Some [] else uu_camera_ids body))
      | None \<Rightarrow>
          give (uu_role body, None,
                case coalesce (uu_role body) (us_role existing) of Admin \<Rightarrow> Some [] | Viewer \<Rightarrow> uu_camera_ids body))"

definition update_user_check :: "account_env \<Rightarrow> uuid \<Rightarrow> update_user_request \<Rightarrow> (api_error, user_plan) call" where
  "update_user_check e i body =
     andthen (require_user e i) (\<lambda>existing.
     andthen (if_given validate_username (uu_username body)) (\<lambda>_.
     andthen (if_given validate_password (uu_password body)) (\<lambda>_.
     andthen (if_given (hash_password e) (uu_password body)) (\<lambda>hash.
     andthen (planned_role e body existing) (\<lambda>(ur, rid, cams).
     andthen (if us_role existing = Admin \<and> coalesce ur (us_role existing) = Viewer
              then last_admin_guard e else give ()) (\<lambda>_.
       give \<lparr>up_existing = existing, up_hash = hash, up_role = ur, up_role_id = rid, up_camera_ids = cams\<rparr>))))))"

definition account_changed :: "user_plan \<Rightarrow> bool" where
  "account_changed p \<longleftrightarrow> up_hash p \<noteq> None
     \<or> (case up_role p of None \<Rightarrow> False | Some r \<Rightarrow> r \<noteq> us_role (up_existing p))
     \<or> (case up_role_id p of None \<Rightarrow> False | Some rid \<Rightarrow> Some rid \<noteq> us_role_id (up_existing p))"

definition end_sessions :: "account_env \<Rightarrow> auth_user \<Rightarrow> uuid \<Rightarrow> (api_error, unit) call" where
  "end_sessions e admin i =
     (let keep = (if au_user_id admin = i then au_jti admin else None) in
      andthen (map_err internal
                 (case keep of Some jti \<Rightarrow> revoke_other_sessions_for_user e i jti
                             | None \<Rightarrow> revoke_all_sessions_for_user e i))
        (\<lambda>_. doing (refresh_revoked_jtis e)))"

definition update_user_act :: "account_env \<Rightarrow> auth_user \<Rightarrow> uuid \<Rightarrow> update_user_request \<Rightarrow> user_plan \<Rightarrow> (api_error, user) call" where
  "update_user_act e admin i body p =
     andthen (map_err unique_conflict
                (db_update_user e i (uu_username body) (up_hash p) (up_role p) (up_camera_ids p) (up_role_id p))) (\<lambda>u.
     andthen (if account_changed p then end_sessions e admin i else give ()) (\<lambda>_.
     andthen (doing invalidate_session_cache) (\<lambda>_.
       give u)))"

definition update_user_route :: "account_env \<Rightarrow> auth_user \<Rightarrow> uuid \<Rightarrow> update_user_request \<Rightarrow> (api_error, user) call" where
  "update_user_route e admin i body = andthen (update_user_check e i body) (update_user_act e admin i body)"

subsection \<open>Deleting a user\<close>

definition delete_user_check :: "account_env \<Rightarrow> uuid \<Rightarrow> (api_error, unit) call" where
  "delete_user_check e i =
     andthen (require_user e i)
       (\<lambda>existing. if us_role existing = Admin then last_admin_guard e else give ())"

definition delete_user_act :: "account_env \<Rightarrow> uuid \<Rightarrow> (api_error, unit) call" where
  "delete_user_act e i =
     andthen (map_err internal (revoke_all_sessions_for_user e i)) (\<lambda>_.
     andthen (doing (refresh_revoked_jtis e)) (\<lambda>_.
     andthen (map_err internal (db_delete_user e i)) (\<lambda>_.
       doing invalidate_session_cache)))"

definition delete_user_route :: "account_env \<Rightarrow> uuid \<Rightarrow> (api_error, unit) call" where
  "delete_user_route e i = andthen (delete_user_check e i) (\<lambda>_. delete_user_act e i)"

subsection \<open>Roles\<close>

fun contains :: "string \<Rightarrow> string \<Rightarrow> bool" where
  "contains needle [] = (needle = [])"
| "contains needle (c # cs) = (take (length needle) (c # cs) = needle \<or> contains needle cs)"

text \<open>\<open>to_string\<close> of an \<open>anyhow\<close> error is its outermost context.\<close>

definition duplicate_by_message :: "db_error \<Rightarrow> api_error" where
  "duplicate_by_message x =
     (let m = de_context x in
      if contains ''23505'' m \<or> contains ''unique'' m \<or> contains ''duplicate'' m then Conflict else Internal)"

record create_role_request =
  cr_name :: string
  cr_capabilities :: capabilities
  cr_camera_ids :: "uuid list"

record update_role_request =
  ur_name :: "string option"
  ur_capabilities :: "capabilities option"
  ur_camera_ids :: "uuid list option"

definition create_role_route :: "account_env \<Rightarrow> create_role_request \<Rightarrow> (api_error, role) call" where
  "create_role_route e body =
     (let name = trim (cr_name body) in
      andthen (ensure (name \<noteq> []) Bad_Request) (\<lambda>_.
      andthen (map_err duplicate_by_message (db_create_role e name (cr_capabilities body) (cr_camera_ids body))) (\<lambda>r.
      andthen (doing invalidate_roles_cache) (\<lambda>_. give r))))"

definition update_role_route :: "account_env \<Rightarrow> uuid \<Rightarrow> update_role_request \<Rightarrow> (api_error, role) call" where
  "update_role_route e i body =
     andthen (case ur_name body of Some n \<Rightarrow> ensure (trim n \<noteq> []) Bad_Request | None \<Rightarrow> give ()) (\<lambda>_.
     andthen (map_err duplicate_by_message
                (db_update_role e i (map_option trim (ur_name body)) (ur_capabilities body) (ur_camera_ids body))) (\<lambda>found.
     andthen (or_else_fail Not_Found found) (\<lambda>r.
     andthen (doing invalidate_roles_cache) (\<lambda>_. give r))))"

definition delete_role_route :: "account_env \<Rightarrow> uuid \<Rightarrow> (api_error, unit) call" where
  "delete_role_route e i =
     andthen (map_err internal (count_users_with_role e i)) (\<lambda>n.
     andthen (ensure (\<not> 0 < n) Conflict) (\<lambda>_.
     andthen (map_err internal (db_delete_role e i)) (\<lambda>rows.
     andthen (ensure (rows \<noteq> 0) Not_Found) (\<lambda>_.
       doing invalidate_roles_cache))))"

end
