(* ===== verification/RateLimit.thy ===== *)
theory RateLimit
  imports Prelude "HOL-Library.Word"
begin

text \<open>
  Who a request comes from, and how many requests a client gets
  (\<open>services/api/src/rate_limit.rs\<close>).

  \<^item> The address grammar of the standard library (\<open>IpAddr::from_str\<close>, \<open>SocketAddr::from_str\<close>) and name
    resolution are arguments (\<open>net_env\<close>); everything the code does with addresses is here.
  \<^item> Tokens are exact rationals: the rounding of \<open>f64\<close> sums is not modelled in this component.
\<close>

unbundle bit_operations_syntax

datatype ip = V4 "32 word" | V6 "128 word"

text \<open>\<open>to_canonical\<close>: an IPv4 address mapped into IPv6 is the IPv4 address.\<close>

fun to_canonical :: "ip \<Rightarrow> ip" where
  "to_canonical (V4 a) = V4 a"
| "to_canonical (V6 a) = (if drop_bit 32 a = 0xFFFF then V4 (ucast a) else V6 a)"

record net_env =
  ne_parse_ip :: "string \<Rightarrow> ip option"
  ne_parse_socket :: "string \<Rightarrow> ip option"
  ne_lookup :: "string \<Rightarrow> ip list option"

fun split_on :: "char \<Rightarrow> string \<Rightarrow> string list" where
  "split_on d [] = [[]]"
| "split_on d (c # cs) =
     (if c = d then [] # split_on d cs
      else (case split_on d cs of [] \<Rightarrow> [[c]] | p # ps \<Rightarrow> (c # p) # ps))"

text \<open>\<open>u8::from_str\<close>: decimal digits after an optional plus sign.\<close>

definition digit :: "char \<Rightarrow> nat option" where
  "digit c = (if 48 \<le> (of_char c :: nat) \<and> (of_char c :: nat) \<le> 57 then Some (of_char c - 48) else None)"

fun parse_digits :: "nat \<Rightarrow> string \<Rightarrow> nat option" where
  "parse_digits n [] = Some n"
| "parse_digits n (c # cs) = (case digit c of None \<Rightarrow> None | Some d \<Rightarrow> parse_digits (10 * n + d) cs)"

definition parse_u8 :: "string \<Rightarrow> nat option" where
  "parse_u8 s =
     (let t = (case s of c # cs \<Rightarrow> if c = CHR ''+'' then cs else s | [] \<Rightarrow> s) in
      if t = [] then None
      else case parse_digits 0 t of None \<Rightarrow> None | Some n \<Rightarrow> if n \<le> 255 then Some n else None)"

subsection \<open>Trusted proxies\<close>

record ip_net =
  in_addr :: ip
  in_prefix :: nat

definition same_prefix :: "128 word \<Rightarrow> 128 word \<Rightarrow> nat \<Rightarrow> nat \<Rightarrow> bool" where
  "same_prefix a b bits pre =
     (let shift = bits - pre in 128 \<le> shift \<or> drop_bit shift a = drop_bit shift b)"

definition net_contains :: "ip_net \<Rightarrow> ip \<Rightarrow> bool" where
  "net_contains n i =
     (case (in_addr n, to_canonical i) of
        (V4 net, V4 a) \<Rightarrow> same_prefix (ucast net) (ucast a) 32 (in_prefix n)
      | (V6 net, V6 a) \<Rightarrow> same_prefix net a 128 (in_prefix n)
      | _ \<Rightarrow> False)"

definition parse_net :: "net_env \<Rightarrow> string \<Rightarrow> ip_net option" where
  "parse_net e s =
     (let addr = takeWhile (\<lambda>c. c \<noteq> CHR ''/'') s;
          tail = dropWhile (\<lambda>c. c \<noteq> CHR ''/'') s in
      case ne_parse_ip e (trim addr) of
        None \<Rightarrow> None
      | Some i \<Rightarrow>
          (let a = to_canonical i; most = (case a of V4 _ \<Rightarrow> 32 | V6 _ \<Rightarrow> 128) in
           case tail of
             [] \<Rightarrow> Some \<lparr>in_addr = a, in_prefix = most\<rparr>
           | _ # p \<Rightarrow>
               (case parse_u8 (trim p) of
                  None \<Rightarrow> None
                | Some k \<Rightarrow> if k \<le> most then Some \<lparr>in_addr = a, in_prefix = k\<rparr> else None)))"

record proxy_trust =
  pt_enabled :: bool
  pt_nets :: "ip_net list"
  pt_hosts :: "string list"
  pt_resolved :: "ip list"

definition default_trusted_proxies :: string where "default_trusted_proxies = ''caddy''"

fun add_entry :: "net_env \<Rightarrow> string \<Rightarrow> ip_net list \<times> string list \<Rightarrow> ip_net list \<times> string list" where
  "add_entry e s (nets, hosts) =
     (case parse_net e s of
        Some n \<Rightarrow> (nets @ [n], hosts)
      | None \<Rightarrow> if CHR ''/'' \<in> set s \<or> CHR '':'' \<in> set s then (nets, hosts) else (nets, hosts @ [s]))"

definition proxy_trust_new :: "net_env \<Rightarrow> bool \<Rightarrow> string \<Rightarrow> proxy_trust" where
  "proxy_trust_new e enabled trusted =
     (let spec = (if trim trusted = [] then default_trusted_proxies else trusted);
          entries = filter (\<lambda>s. s \<noteq> []) (map trim (split_on (CHR '','') spec));
          (nets, hosts) = fold (add_entry e) entries ([], [])
      in \<lparr>pt_enabled = enabled, pt_nets = nets, pt_hosts = hosts, pt_resolved = []\<rparr>)"

definition is_trusted :: "proxy_trust \<Rightarrow> ip \<Rightarrow> bool" where
  "is_trusted t i =
     (let a = to_canonical i in list_ex (\<lambda>n. net_contains n a) (pt_nets t) \<or> a \<in> set (pt_resolved t))"

text \<open>The sorting of the resolved addresses only serves the comparison that decides about the log line.\<close>

definition refresh_proxies :: "net_env \<Rightarrow> proxy_trust \<Rightarrow> proxy_trust" where
  "refresh_proxies e t =
     (if \<not> pt_enabled t \<or> pt_hosts t = [] then t
      else t\<lparr>pt_resolved := remdups (concat (map (\<lambda>h. case ne_lookup e h of
               None \<Rightarrow> [] | Some found \<Rightarrow> map to_canonical found) (pt_hosts t)))\<rparr>)"

subsection \<open>The client of a request\<close>

definition strip_brackets :: "string \<Rightarrow> string option" where
  "strip_brackets s =
     (case s of
        c # cs \<Rightarrow> if c = CHR ''['' \<and> cs \<noteq> [] \<and> last cs = CHR '']'' then Some (butlast cs) else None
      | [] \<Rightarrow> None)"

definition parse_hop :: "net_env \<Rightarrow> string \<Rightarrow> ip option" where
  "parse_hop e hop =
     (let h = trim hop in
      map_option to_canonical
        (case ne_parse_ip e h of
           Some i \<Rightarrow> Some i
         | None \<Rightarrow>
             (case ne_parse_socket e h of
                Some i \<Rightarrow> Some i
              | None \<Rightarrow> (case strip_brackets h of None \<Rightarrow> None | Some b \<Rightarrow> ne_parse_ip e b))))"

text \<open>The walk over the hops, last one first.\<close>

fun walk_hops :: "net_env \<Rightarrow> proxy_trust \<Rightarrow> string list \<Rightarrow> ip \<Rightarrow> ip" where
  "walk_hops e t [] client = client"
| "walk_hops e t (hop # hops) client =
     (case parse_hop e hop of
        None \<Rightarrow> client
      | Some i \<Rightarrow> if \<not> is_trusted t i then i else walk_hops e t hops i)"

text \<open>A header value that is not a string (\<open>to_str\<close> fails) is \<open>None\<close>.\<close>

definition forwarded_hops :: "string option list \<Rightarrow> string list" where
  "forwarded_hops headers = concat (map (split_on (CHR '','')) (List.map_filter id headers))"

definition client_ip :: "net_env \<Rightarrow> proxy_trust \<Rightarrow> string option list \<Rightarrow> ip \<Rightarrow> ip" where
  "client_ip e t headers peer =
     (let p = to_canonical peer in
      if \<not> pt_enabled t \<or> \<not> is_trusted t p then p
      else walk_hops e t (rev (forwarded_hops headers)) p)"

definition client_key :: "(ip \<Rightarrow> string) \<Rightarrow> net_env \<Rightarrow> proxy_trust \<Rightarrow> string option list \<Rightarrow> ip option \<Rightarrow> string" where
  "client_key show_ip e t headers peer =
     (case peer of None \<Rightarrow> ''unknown-peer'' | Some p \<Rightarrow> show_ip (client_ip e t headers p))"

subsection \<open>The token bucket\<close>

record bucket =
  bk_tokens :: rat
  bk_last :: instant

record rate_limiter =
  rl_buckets :: "(string \<times> bucket) list"
  rl_capacity :: rat
  rl_refill_per_sec :: rat

definition secs_of :: "int \<Rightarrow> rat" where
  "secs_of d = of_int d / 1000000000"

definition check_bucket :: "string \<Rightarrow> instant \<Rightarrow> rate_limiter \<Rightarrow> bool \<times> rate_limiter" where
  "check_bucket key now l =
     (let b = (case map_of (rl_buckets l) key of
                 Some b \<Rightarrow> b | None \<Rightarrow> \<lparr>bk_tokens = rl_capacity l, bk_last = now\<rparr>);
          elapsed = secs_of (max (now - bk_last b) 0);
          tokens = min (bk_tokens b + elapsed * rl_refill_per_sec l) (rl_capacity l);
          ok = (1 \<le> tokens)
      in (ok, l\<lparr>rl_buckets := AList.update key
                  \<lparr>bk_tokens = (if ok then tokens - 1 else tokens), bk_last = now\<rparr> (rl_buckets l)\<rparr>))"

datatype response = Forwarded | TooManyRequests

definition rate_limit_mw ::
  "(ip \<Rightarrow> string) \<Rightarrow> net_env \<Rightarrow> proxy_trust \<Rightarrow> rate_limiter \<Rightarrow> string option list \<times> ip \<times> instant \<Rightarrow> response \<times> rate_limiter"
where
  "rate_limit_mw show_ip e t l req =
     (case req of (headers, peer, now) \<Rightarrow>
        (let (ok, l1) = check_bucket (client_key show_ip e t headers (Some peer)) now l
         in (if ok then Forwarded else TooManyRequests, l1)))"

subsection \<open>The client cannot choose its address\<close>

lemma walk_hops_proxies:
  assumes "\<And>h. h \<in> set hops \<Longrightarrow> \<exists>i. parse_hop e h = Some i \<and> is_trusted t i"
    and "parse_hop e origin = Some i" and "\<not> is_trusted t i"
  shows "walk_hops e t (hops @ origin # junk) client = i"
  using assms(1)
proof (induction hops arbitrary: client)
  case (Cons h hops)
  then obtain j where "parse_hop e h = Some j" "is_trusted t j" by force
  then show ?case using Cons by simp
qed (use assms(2,3) in simp)

lemma to_canonical_idem: "to_canonical (to_canonical i) = to_canonical i"
  by (cases i) auto

lemma walk_hops_garbage:
  assumes "\<And>h. h \<in> set hops \<Longrightarrow> \<exists>i. parse_hop e h = Some i \<and> is_trusted t i"
    and "parse_hop e bad = None"
  shows "walk_hops e t (hops @ bad # junk) client = (if hops = [] then client else the (parse_hop e (last hops)))"
  using assms(1)
proof (induction hops arbitrary: client)
  case (Cons h hops)
  then obtain j where "parse_hop e h = Some j" "is_trusted t j" by force
  then show ?case using Cons by simp
qed (use assms(2) in simp)

text \<open>C24. A client cannot choose the address it is counted under. When the proxy trust is off, or the
  connection does not come from a trusted proxy, it is counted under the address the connection came
  from, whatever forwarding headers it sent (none, garbage, or the address of a trusted proxy). Behind a
  chain of trusted proxies, each of which appends the address it was contacted from, it is counted under
  the address the first proxy saw, whatever it put into the headers before that. Where the walk back
  along the trusted proxies meets an entry that is no address, it is counted under the last trusted
  proxy before that entry (the connection's own address when there is none), again whatever precedes.\<close>

theorem client_address_not_forgeable:
  shows "(\<not> pt_enabled t \<or> \<not> is_trusted t peer \<longrightarrow> client_ip e t headers peer = to_canonical peer) \<and>
     (\<forall>junk origin proxies. pt_enabled t \<and> is_trusted t peer \<and> forwarded_hops headers = junk @ origin # proxies \<and>
        (\<forall>h \<in> set proxies. \<exists>j. parse_hop e h = Some j \<and> is_trusted t j) \<longrightarrow>
        (\<forall>i. parse_hop e origin = Some i \<and> \<not> is_trusted t i \<longrightarrow> client_ip e t headers peer = i) \<and>
        (parse_hop e origin = None \<longrightarrow>
           client_ip e t headers peer = (case proxies of [] \<Rightarrow> to_canonical peer | p # _ \<Rightarrow> the (parse_hop e p))))"
proof -
  have canon: "is_trusted t (to_canonical peer) = is_trusted t peer"
    by (simp add: is_trusted_def to_canonical_idem)
  have seen: "client_ip e t headers peer = i"
    if "pt_enabled t" "is_trusted t peer" "forwarded_hops headers = junk @ origin # proxies"
      "\<forall>h \<in> set proxies. \<exists>j. parse_hop e h = Some j \<and> is_trusted t j" "parse_hop e origin = Some i" "\<not> is_trusted t i"
    for junk origin proxies i
    using walk_hops_proxies [of "rev proxies" e t origin i "rev junk"] that canon by (simp add: client_ip_def Let_def)
  have garbage: "client_ip e t headers peer = (case proxies of [] \<Rightarrow> to_canonical peer | p # _ \<Rightarrow> the (parse_hop e p))"
    if "pt_enabled t" "is_trusted t peer" "forwarded_hops headers = junk @ bad # proxies"
      "\<forall>h \<in> set proxies. \<exists>j. parse_hop e h = Some j \<and> is_trusted t j" "parse_hop e bad = None"
    for junk bad proxies
    using walk_hops_garbage [of "rev proxies" e t bad "rev junk"] that canon
    by (cases proxies) (simp_all add: client_ip_def Let_def)
  show ?thesis
    using seen garbage canon by (auto simp: client_ip_def Let_def)
qed

text \<open>A client behind one trusted proxy that forges a hop is still the address the proxy saw.\<close>

definition sample_net :: net_env where
  "sample_net = \<lparr>ne_parse_ip = map_of [(''1.1.1.1'', V4 0x01010101), (''8.8.4.4'', V4 0x08080404), (''10.0.0.2'', V4 0x0A000002)],
     ne_parse_socket = (\<lambda>_. None), ne_lookup = (\<lambda>_. None)\<rparr>"

lemma client_address_not_forgeable_witness:
  "client_ip sample_net (proxy_trust_new sample_net True ''10.0.0.2'') [Some ''1.1.1.1, 8.8.4.4, 10.0.0.2''] (V4 0x0A000002) = V4 0x08080404"
proof -
  let ?t = "proxy_trust_new sample_net True ''10.0.0.2''"
  have "forwarded_hops [Some ''1.1.1.1, 8.8.4.4, 10.0.0.2''] = [''1.1.1.1''] @ '' 8.8.4.4'' # ['' 10.0.0.2'']"
    by code_simp
  moreover have "parse_hop sample_net '' 8.8.4.4'' = Some (V4 0x08080404)" by code_simp
  moreover have "\<not> is_trusted ?t (V4 0x08080404)" by code_simp
  moreover have "\<exists>j. parse_hop sample_net h = Some j \<and> is_trusted ?t j" if "h \<in> set ['' 10.0.0.2'']" for h
  proof -
    have "parse_hop sample_net '' 10.0.0.2'' = Some (V4 0x0A000002)" "is_trusted ?t (V4 0x0A000002)" by code_simp+
    then show ?thesis using that by simp
  qed
  moreover have "pt_enabled ?t" "is_trusted ?t (V4 0x0A000002)" by code_simp+
  ultimately show ?thesis
    using client_address_not_forgeable [THEN conjunct2, rule_format, of ?t "V4 0x0A000002"
        "[Some ''1.1.1.1, 8.8.4.4, 10.0.0.2'']" "[''1.1.1.1'']" "'' 8.8.4.4''" "['' 10.0.0.2'']" sample_net]
    by blast
qed

subsection \<open>Requests per client\<close>

definition check_step :: "rate_limiter \<Rightarrow> string \<times> instant \<Rightarrow> bool \<times> rate_limiter" where
  "check_step l ev = check_bucket (fst ev) (snd ev) l"

definition allowed :: "string \<Rightarrow> instant \<Rightarrow> instant \<Rightarrow> bool list \<Rightarrow> (string \<times> instant) list \<Rightarrow> nat" where
  "allowed k t u outs es = length (filter (\<lambda>(ok, k', x). ok \<and> k' = k \<and> t \<le> x \<and> x \<le> u) (zip outs es))"

text \<open>The tokens the client \<open>k\<close> would find at time \<open>s\<close>.\<close>

definition tokens_at :: "string \<Rightarrow> instant \<Rightarrow> rate_limiter \<Rightarrow> rat" where
  "tokens_at k s l = (case map_of (rl_buckets l) k of
     None \<Rightarrow> rl_capacity l
   | Some b \<Rightarrow> min (bk_tokens b + secs_of (max (s - bk_last b) 0) * rl_refill_per_sec l) (rl_capacity l))"

definition seen_by :: "instant \<Rightarrow> rate_limiter \<Rightarrow> bool" where
  "seen_by s l \<longleftrightarrow> 0 \<le> rl_refill_per_sec l \<and> 0 \<le> rl_capacity l \<and> (\<forall>k b. map_of (rl_buckets l) k = Some b \<longrightarrow> bk_last b \<le> s)"

lemma tokens_le: "tokens_at k s l \<le> rl_capacity l"
  by (auto simp: tokens_at_def split: option.split)

lemma tokens_later:
  assumes "seen_by s l" and "s \<le> x"
  shows "tokens_at k x l \<le> tokens_at k s l + secs_of (x - s) * rl_refill_per_sec l"
proof (cases "map_of (rl_buckets l) k")
  case None
  then show ?thesis using assms by (simp add: tokens_at_def seen_by_def secs_of_def)
next
  case (Some b)
  then have b: "bk_last b \<le> s" "0 \<le> rl_refill_per_sec l" using assms by (auto simp: seen_by_def)
  have "secs_of (x - bk_last b) = secs_of (s - bk_last b) + secs_of (x - s)" by (simp add: secs_of_def field_simps)
  then have split: "secs_of (x - bk_last b) * r = secs_of (s - bk_last b) * r + secs_of (x - s) * r" for r
    by (simp add: distrib_right)
  have more: "0 \<le> secs_of (x - s) * rl_refill_per_sec l" using b assms(2) by (simp add: secs_of_def)
  have m: "max (x - bk_last b) 0 = x - bk_last b" "max (s - bk_last b) 0 = s - bk_last b" using b assms(2) by simp_all
  have capped: "min (a + (p + q)) c \<le> min (a + p) c + q" if "0 \<le> q" for a p q c :: rat
    using that by (simp add: min_def)
  show ?thesis unfolding tokens_at_def Some option.case m split by (rule capped [OF more])
qed

lemma check_bucket_eq:
  "check_bucket k x l = (1 \<le> tokens_at k x l,
     l\<lparr>rl_buckets := AList.update k \<lparr>bk_tokens = (if 1 \<le> tokens_at k x l then tokens_at k x l - 1 else tokens_at k x l), bk_last = x\<rparr> (rl_buckets l)\<rparr>)"
proof (cases "map_of (rl_buckets l) k")
  case None
  have "min (rl_capacity l + secs_of (max (x - x) 0) * rl_refill_per_sec l) (rl_capacity l) = rl_capacity l"
    by (simp add: secs_of_def)
  then show ?thesis by (simp only: check_bucket_def tokens_at_def Let_def None option.case bucket.simps)
next
  case (Some b)
  show ?thesis by (simp only: check_bucket_def tokens_at_def Let_def Some option.case)
qed

lemma tokens_update:
  assumes "bk_tokens b \<le> rl_capacity l" and "bk_last b = x"
  shows "tokens_at k x (l\<lparr>rl_buckets := AList.update k' b (rl_buckets l)\<rparr>) = (if k = k' then bk_tokens b else tokens_at k x l)"
proof (cases "k = k'")
  case True
  have "max (x - x) (0::int) = 0" by simp
  then show ?thesis using True assms
    by (simp add: tokens_at_def update_conv secs_of_def min_absorb1)
next
  case False
  then have "map_of (AList.update k' b (rl_buckets l)) k = map_of (rl_buckets l) k" by (simp add: update_conv)
  then show ?thesis
    using False by (cases "map_of (rl_buckets l) k") (simp_all add: tokens_at_def)
qed

lemma check_step_facts:
  assumes "check_step l (k', x) = (ok, l')" and "seen_by s l" and "s \<le> x"
  shows "seen_by x l'" "rl_refill_per_sec l' = rl_refill_per_sec l" "rl_capacity l' = rl_capacity l"
    "ok \<longleftrightarrow> 1 \<le> tokens_at k' x l"
    "tokens_at k x l' = (if k = k' then (if ok then tokens_at k x l - 1 else tokens_at k x l) else tokens_at k x l)"
proof -
  define b where "b = \<lparr>bk_tokens = (if 1 \<le> tokens_at k' x l then tokens_at k' x l - 1 else tokens_at k' x l), bk_last = x\<rparr>"
  have l': "ok = (1 \<le> tokens_at k' x l)" "l' = l\<lparr>rl_buckets := AList.update k' b (rl_buckets l)\<rparr>"
    using assms(1) unfolding check_step_def check_bucket_eq b_def fst_conv snd_conv prod.inject by blast+
  show "rl_refill_per_sec l' = rl_refill_per_sec l" "rl_capacity l' = rl_capacity l" "ok \<longleftrightarrow> 1 \<le> tokens_at k' x l"
    using l' by simp_all
  show "seen_by x l'"
    using l'(2) assms(2,3) by (auto simp: seen_by_def update_conv b_def split: if_splits intro: order_trans)
  show "tokens_at k x l' = (if k = k' then (if ok then tokens_at k x l - 1 else tokens_at k x l) else tokens_at k x l)"
    using tokens_update [of b l x k k'] tokens_le [of k' x l] l' by (auto simp: b_def)
qed

lemma allowed_from:
  assumes "run_machine check_step l es = (outs, l')" and "seen_by s l" and "sorted (map snd es)" and "\<And>ev. ev \<in> set es \<Longrightarrow> s \<le> snd ev"
    and "t \<le> s"
  shows "rat_of_nat (allowed k t u outs es) \<le> tokens_at k s l + secs_of (max (u - s) 0) * rl_refill_per_sec l \<or> allowed k t u outs es = 0"
  using assms
proof (induction es arbitrary: l outs s)
  case (Cons ev es)
  obtain k' x where ev: "ev = (k', x)" by force
  obtain ok l1 where st: "check_step l (k', x) = (ok, l1)" by force
  obtain o1 l2 where rest: "run_machine check_step l1 es = (o1, l2)" by force
  have outs: "outs = ok # o1" "l2 = l'" using Cons.prems(1) ev st rest by simp_all
  have sx: "s \<le> x" using Cons.prems(4) ev by force
  note facts = check_step_facts [OF st Cons.prems(2) sx]
  have later: "x \<le> snd y" if "y \<in> set es" for y using Cons.prems(3) ev that by auto
  define n where "n = allowed k t u o1 es"
  have ih: "rat_of_nat n \<le> tokens_at k x l1 + secs_of (max (u - x) 0) * rl_refill_per_sec l \<or> n = 0"
    unfolding n_def facts(2) [symmetric]
    by (rule Cons.IH [OF rest [unfolded outs(2)] facts(1)]) (use Cons.prems(3,5) later sx in auto)
  have all: "allowed k t u outs (ev # es) = (if ok \<and> k' = k \<and> t \<le> x \<and> x \<le> u then n + 1 else n)"
    by (simp add: outs(1) ev n_def allowed_def)
  have move: "tokens_at k x l \<le> tokens_at k s l + secs_of (x - s) * rl_refill_per_sec l"
    by (rule tokens_later [OF Cons.prems(2) sx])
  show ?case
  proof (cases "u < x")
    case True
    then have "allowed k t u o1 es = 0"
      using later by (fastforce simp: allowed_def filter_empty_conv dest: set_zip_rightD)
    then show ?thesis using all True by (simp add: n_def)
  next
    case False
    have refill: "0 \<le> rl_refill_per_sec l" using Cons.prems(2) by (simp add: seen_by_def)
    have span: "secs_of (max (u - s) 0) * rl_refill_per_sec l = secs_of (x - s) * rl_refill_per_sec l + secs_of (max (u - x) 0) * rl_refill_per_sec l"
      using False sx by (simp add: secs_of_def field_simps)
    have left: "0 \<le> secs_of (max (u - x) 0) * rl_refill_per_sec l" using refill by (simp add: secs_of_def)
    show ?thesis
    proof (cases "ok \<and> k' = k \<and> t \<le> x \<and> x \<le> u")
      case True
      then have "1 \<le> tokens_at k x l" "tokens_at k x l1 = tokens_at k x l - 1" using facts(4,5) by auto
      then show ?thesis using ih all True move span left by auto
    next
      case off: False
      have "tokens_at k x l1 \<le> tokens_at k x l" using facts(5) by auto
      then show ?thesis using ih all off move span by auto
    qed
  qed
qed (simp add: allowed_def)

text \<open>C27. A client gets no more than its burst plus its sustained rate. In any interval the number of requests of one
  client that are let through is at most the capacity of the bucket plus the refill rate times
  the length of the interval, whatever other clients do.\<close>

theorem requests_bounded:
  assumes "run_machine check_step l es = (outs, l')" and "seen_by s l" and "sorted (map snd es)" and "\<And>ev. ev \<in> set es \<Longrightarrow> s \<le> snd ev"
    and "t \<le> u"
  shows "rat_of_nat (allowed k t u outs es) \<le> rl_capacity l + secs_of (u - t) * rl_refill_per_sec l"
  using assms(1-4)
proof (induction es arbitrary: l outs s)
  case Nil
  have "0 \<le> secs_of (u - t) * rl_refill_per_sec l" using Nil.prems(2) assms(5) by (simp add: seen_by_def secs_of_def)
  then show ?case using Nil.prems(2) by (simp add: allowed_def seen_by_def)
next
  case (Cons ev es)
  obtain k' x where ev: "ev = (k', x)" by force
  have pos: "0 \<le> secs_of (u - t) * rl_refill_per_sec l" "0 \<le> rl_capacity l"
    using Cons.prems(2) assms(5) by (simp_all add: seen_by_def secs_of_def)
  show ?case
  proof (cases "x < t")
    case True
    obtain ok l1 where st: "check_step l (k', x) = (ok, l1)" by force
    obtain o1 l2 where rest: "run_machine check_step l1 es = (o1, l2)" by force
    have outs: "outs = ok # o1" "l2 = l'" using Cons.prems(1) ev st rest by simp_all
    have "s \<le> x" using Cons.prems(4) ev by force
    note facts = check_step_facts [OF st Cons.prems(2) this]
    have "rat_of_nat (allowed k t u o1 es) \<le> rl_capacity l1 + secs_of (u - t) * rl_refill_per_sec l1"
      by (rule Cons.IH [OF rest [unfolded outs(2)] facts(1)]) (use Cons.prems(3) ev in auto)
    then show ?thesis using True facts(2,3) by (simp add: outs(1) ev allowed_def)
  next
    case False
    have first: "x \<le> snd y" if "y \<in> set (ev # es)" for y using Cons.prems(3) ev that by auto
    have "seen_by x l" using Cons.prems(2,4) ev by (fastforce simp: seen_by_def)
    then have "rat_of_nat (allowed k t u outs (ev # es)) \<le> tokens_at k x l + secs_of (max (u - x) 0) * rl_refill_per_sec l \<or>
        allowed k t u outs (ev # es) = 0"
      using allowed_from [OF Cons.prems(1) _ Cons.prems(3)] first False by auto
    moreover have "secs_of (max (u - x) 0) * rl_refill_per_sec l \<le> secs_of (u - t) * rl_refill_per_sec l"
      using False assms(5) Cons.prems(2) by (intro mult_right_mono) (auto simp: secs_of_def seen_by_def divide_right_mono)
    ultimately show ?thesis using tokens_le [of k x l] pos by (auto simp del: of_nat_0_eq_iff)
  qed
qed

lemma requests_bounded_witness:
  "let l = \<lparr>rl_buckets = [], rl_capacity = 1, rl_refill_per_sec = 1\<rparr>; es = [(''a'', 0), (''b'', 0), (''a'', 0)]
   in allowed ''a'' 0 0 (fst (run_machine check_step l es)) es = 1 \<and>
      rat_of_nat (allowed ''a'' 0 0 (fst (run_machine check_step l es)) es) \<le> rl_capacity l + secs_of (0 - 0) * rl_refill_per_sec l"
proof -
  let ?l = "\<lparr>rl_buckets = [], rl_capacity = 1, rl_refill_per_sec = 1\<rparr>"
  let ?es = "[(''a'', 0), (''b'', 0), (''a'', 0)]"
  have "run_machine check_step ?l ?es = (fst (run_machine check_step ?l ?es), snd (run_machine check_step ?l ?es))" by simp
  then have "rat_of_nat (allowed ''a'' 0 0 (fst (run_machine check_step ?l ?es)) ?es) \<le> rl_capacity ?l + secs_of (0 - 0) * rl_refill_per_sec ?l"
    by (rule requests_bounded [where s = 0]) (auto simp: seen_by_def)
  moreover have "allowed ''a'' 0 0 (fst (run_machine check_step ?l ?es)) ?es = 1" by code_simp
  ultimately show ?thesis by (simp add: Let_def)
qed

end
