(* ===== verification/Sessions.thy ===== *)
theory Sessions
  imports UserAdmin RateLimit "HOL-Library.Monad_Syntax"
begin

text \<open>
  Tokens, the extractors that turn a request into a principal (\<open>services/api/src/auth_mw.rs\<close>), and the
  handlers that issue and revoke sessions (\<open>services/api/src/auth.rs\<close>).

  \<^item> Signing and checking a JWT (signature, expiry), and the text form of a UUID, are arguments
    (\<open>token_env\<close>); what is signed, and how a signed JSON object is read as one kind of claims or the other, is here.
  \<^item> The configuration (token lifetime, trusted proxies, metrics token) is part of the environment.
\<close>

subsection \<open>Claims\<close>

datatype json = J_Null | J_Bool bool | J_Num nat | J_Str string | J_Strs "string list" | J_Other

type_synonym json_object = "(string \<times> json) list"

definition str_field :: "string \<Rightarrow> json_object \<Rightarrow> string option" where
  "str_field k j = (case map_of j k of Some (J_Str s) \<Rightarrow> Some s | _ \<Rightarrow> None)"

definition strs_field :: "string \<Rightarrow> json_object \<Rightarrow> string list option" where
  "strs_field k j = (case map_of j k of Some (J_Strs s) \<Rightarrow> Some s | _ \<Rightarrow> None)"

definition num_field :: "string \<Rightarrow> json_object \<Rightarrow> nat option" where
  "num_field k j = (case map_of j k of Some (J_Num n) \<Rightarrow> if n \<le> u64_max then Some n else None | _ \<Rightarrow> None)"

text \<open>\<open>#[serde(default)]\<close> on an optional string and on a flag.\<close>

definition opt_str_field :: "string \<Rightarrow> json_object \<Rightarrow> string option option" where
  "opt_str_field k j =
     (case map_of j k of None \<Rightarrow> Some None | Some J_Null \<Rightarrow> Some None | Some (J_Str s) \<Rightarrow> Some (Some s) | _ \<Rightarrow> None)"

definition flag_field :: "string \<Rightarrow> json_object \<Rightarrow> bool option" where
  "flag_field k j = (case map_of j k of None \<Rightarrow> Some False | Some (J_Bool b) \<Rightarrow> Some b | _ \<Rightarrow> None)"

definition opt_json :: "string option \<Rightarrow> json" where
  "opt_json s = (case s of None \<Rightarrow> J_Null | Some x \<Rightarrow> J_Str x)"

record claims =
  cl_sub :: string
  cl_exp :: nat
  cl_iat :: nat
  cl_role :: string
  cl_camera_ids :: "string list"
  cl_role_id :: "string option"
  cl_jti :: "string option"

definition json_of_claims :: "claims \<Rightarrow> json_object" where
  "json_of_claims c =
     [(''sub'', J_Str (cl_sub c)), (''exp'', J_Num (cl_exp c)), (''iat'', J_Num (cl_iat c)), (''role'', J_Str (cl_role c)),
      (''camera_ids'', J_Strs (cl_camera_ids c)), (''role_id'', opt_json (cl_role_id c)), (''jti'', opt_json (cl_jti c))]"

definition claims_of_json :: "json_object \<Rightarrow> claims option" where
  "claims_of_json j = do {
     sub \<leftarrow> str_field ''sub'' j; exp \<leftarrow> num_field ''exp'' j; iat \<leftarrow> num_field ''iat'' j;
     role \<leftarrow> str_field ''role'' j; cams \<leftarrow> strs_field ''camera_ids'' j;
     rid \<leftarrow> opt_str_field ''role_id'' j; jti \<leftarrow> opt_str_field ''jti'' j;
     Some \<lparr>cl_sub = sub, cl_exp = exp, cl_iat = iat, cl_role = role, cl_camera_ids = cams, cl_role_id = rid, cl_jti = jti\<rparr> }"

record media_claims =
  mc_sub :: string
  mc_typ :: string
  mc_cam :: string
  mc_export :: bool
  mc_playback :: bool
  mc_clips :: bool
  mc_view_plates :: bool
  mc_exp :: nat
  mc_iat :: nat

definition json_of_media_claims :: "media_claims \<Rightarrow> json_object" where
  "json_of_media_claims c =
     [(''sub'', J_Str (mc_sub c)), (''typ'', J_Str (mc_typ c)), (''cam'', J_Str (mc_cam c)), (''export'', J_Bool (mc_export c)),
      (''playback'', J_Bool (mc_playback c)), (''clips'', J_Bool (mc_clips c)), (''view_plates'', J_Bool (mc_view_plates c)),
      (''exp'', J_Num (mc_exp c)), (''iat'', J_Num (mc_iat c))]"

definition media_claims_of_json :: "json_object \<Rightarrow> media_claims option" where
  "media_claims_of_json j = do {
     sub \<leftarrow> str_field ''sub'' j; typ \<leftarrow> str_field ''typ'' j; cam \<leftarrow> str_field ''cam'' j;
     export \<leftarrow> flag_field ''export'' j; playback \<leftarrow> flag_field ''playback'' j; clips \<leftarrow> flag_field ''clips'' j;
     plates \<leftarrow> flag_field ''view_plates'' j; exp \<leftarrow> num_field ''exp'' j; iat \<leftarrow> num_field ''iat'' j;
     Some \<lparr>mc_sub = sub, mc_typ = typ, mc_cam = cam, mc_export = export, mc_playback = playback, mc_clips = clips,
           mc_view_plates = plates, mc_exp = exp, mc_iat = iat\<rparr> }"

definition media_token_typ :: string where "media_token_typ = ''media''"

record token_env =
  te_db :: account_env
  te_sign :: "json_object \<Rightarrow> string option"
  te_open :: "string \<Rightarrow> instant \<Rightarrow> json_object option"
  te_show_uuid :: "uuid \<Rightarrow> string"
  te_parse_uuid :: "string \<Rightarrow> uuid option"
  te_simple_uuid :: "uuid \<Rightarrow> string"
  te_jwt_expiry_seconds :: nat
  te_max_utc :: instant
  te_metrics_token :: "string option"
  te_net :: net_env
  te_trust :: proxy_trust
  te_show_ip :: "ip \<Rightarrow> string"

subsection \<open>What a principal may do\<close>

definition is_admin :: "auth_user \<Rightarrow> bool" where "is_admin u \<longleftrightarrow> au_role u = Admin"

definition can_access_camera :: "auth_user \<Rightarrow> uuid \<Rightarrow> bool" where
  "can_access_camera u cam \<longleftrightarrow> is_admin u \<or> cam \<in> set (au_camera_ids u)"

definition assert_camera_access :: "auth_user \<Rightarrow> uuid \<Rightarrow> (api_error, unit) call" where
  "assert_camera_access u cam = (if can_access_camera u cam then give () else fail Forbidden)"

definition filter_camera_ids :: "auth_user \<Rightarrow> uuid list \<Rightarrow> uuid list" where
  "filter_camera_ids u ids = (if is_admin u then ids else filter (\<lambda>i. i \<in> set (au_camera_ids u)) ids)"

definition can_export :: "auth_user \<Rightarrow> bool" where "can_export u \<longleftrightarrow> is_admin u \<or> cap_export (au_capabilities u)"
definition can_playback :: "auth_user \<Rightarrow> bool" where "can_playback u \<longleftrightarrow> is_admin u \<or> cap_playback (au_capabilities u)"
definition can_clips :: "auth_user \<Rightarrow> bool" where "can_clips u \<longleftrightarrow> is_admin u \<or> cap_clips (au_capabilities u)"
definition can_ptz :: "auth_user \<Rightarrow> bool" where "can_ptz u \<longleftrightarrow> is_admin u \<or> cap_ptz (au_capabilities u)"
definition can_manage_views :: "auth_user \<Rightarrow> bool" where
  "can_manage_views u \<longleftrightarrow> is_admin u \<or> cap_manage_views (au_capabilities u)"
definition can_view_plates :: "auth_user \<Rightarrow> bool" where
  "can_view_plates u \<longleftrightarrow> is_admin u \<or> cap_view_plates (au_capabilities u)"
definition can_actuators :: "auth_user \<Rightarrow> bool" where
  "can_actuators u \<longleftrightarrow> is_admin u \<or> cap_actuators (au_capabilities u)"
definition can_manage_channels :: "auth_user \<Rightarrow> bool" where
  "can_manage_channels u \<longleftrightarrow> is_admin u \<or> cap_manage_channels (au_capabilities u)"

definition bookmarks_scope :: "auth_user \<Rightarrow> bookmark_scope" where
  "bookmarks_scope u = (if is_admin u then All_Bookmarks else cap_bookmarks (au_capabilities u))"

definition fallback_caps :: "user_role \<Rightarrow> capabilities" where
  "fallback_caps r =
     (case r of
        Admin \<Rightarrow> all_caps
      | Viewer \<Rightarrow> \<lparr>cap_export = False, cap_playback = True, cap_clips = True, cap_ptz = False, cap_bookmarks = Own,
                   cap_manage_views = True, cap_view_plates = False, cap_actuators = False, cap_manage_channels = False\<rparr>)"

subsection \<open>From a request to a principal\<close>

record request =
  rq_authorization :: "string option"
  rq_query :: "string option"
  rq_user_agent :: "string option"
  rq_forwarded :: "string option list"
  rq_peer :: "ip option"

definition strip_prefix :: "string \<Rightarrow> string \<Rightarrow> string option" where
  "strip_prefix p s = (if take (length p) s = p then Some (drop (length p) s) else None)"

fun first_token :: "string list \<Rightarrow> string option" where
  "first_token [] = None"
| "first_token (pair # pairs) =
     (case strip_prefix ''token='' pair of
        Some v \<Rightarrow> if v \<noteq> [] then Some v else first_token pairs
      | None \<Rightarrow> first_token pairs)"

definition token_from_query :: "string option \<Rightarrow> string option" where
  "token_from_query q = (case q of None \<Rightarrow> None | Some s \<Rightarrow> first_token (split_on (CHR ''&'') s))"

definition media_capabilities_from_claims :: "media_claims \<Rightarrow> capabilities" where
  "media_capabilities_from_claims c =
     \<lparr>cap_export = mc_export c, cap_playback = mc_playback c, cap_clips = mc_clips c, cap_ptz = False,
      cap_bookmarks = No_Bookmarks, cap_manage_views = False, cap_view_plates = mc_view_plates c,
      cap_actuators = False, cap_manage_channels = False\<rparr>"

definition try_media_token :: "token_env \<Rightarrow> string \<Rightarrow> auth_world \<Rightarrow> auth_user option" where
  "try_media_token t token w = do {
     j \<leftarrow> te_open t token (now_at (te_db t) w);
     c \<leftarrow> media_claims_of_json j;
     if mc_typ c \<noteq> media_token_typ then None
     else do {
       user \<leftarrow> te_parse_uuid t (mc_sub c);
       cam \<leftarrow> te_parse_uuid t (mc_cam c);
       Some \<lparr>au_user_id = user, au_role = Viewer, au_camera_ids = [cam], au_capabilities = media_capabilities_from_claims c,
             au_role_id = None, au_jti = None, au_media_scoped = True\<rparr> } }"

text \<open>Step 1 of \<open>authenticate\<close>: the token, and whether it came from the query.\<close>

definition presented_token :: "request \<Rightarrow> (api_error, string \<times> bool) call" where
  "presented_token rq =
     (case rq_authorization rq of
        Some h \<Rightarrow> (case strip_prefix ''Bearer '' h of Some tok \<Rightarrow> give (tok, False) | None \<Rightarrow> fail Unauthorized)
      | None \<Rightarrow> (case token_from_query (rq_query rq) of Some tok \<Rightarrow> give (tok, True) | None \<Rightarrow> fail Unauthorized))"

definition decode_claims :: "token_env \<Rightarrow> string \<Rightarrow> (api_error, claims) call" where
  "decode_claims t token w =
     or_else_fail Unauthorized (Option.bind (te_open t token (now_at (te_db t) w)) claims_of_json) w"

definition session_of_claims :: "token_env \<Rightarrow> claims \<Rightarrow> (api_error, uuid) call" where
  "session_of_claims t c =
     (case cl_jti c of
        None \<Rightarrow> fail Unauthorized
      | Some s \<Rightarrow>
          andthen (or_else_fail Unauthorized (te_parse_uuid t s))
            (\<lambda>jti w. case is_jti_revoked (te_db t) jti w of
                      (revoked, w1) \<Rightarrow> (if revoked then fail Unauthorized else give jti) w1))"

fun merge_cameras :: "uuid list \<Rightarrow> uuid list \<Rightarrow> uuid list" where
  "merge_cameras c [] = c"
| "merge_cameras c (i # is) = merge_cameras (if i \<in> set c then c else c @ [i]) is"

text \<open>Step 6: the role, the cameras and the capabilities.\<close>

definition effective_role ::
  "token_env \<Rightarrow> uuid option \<Rightarrow> user_role \<Rightarrow> uuid list \<Rightarrow> (api_error, user_role \<times> uuid list \<times> capabilities) call"
where
  "effective_role t rid legacy own w =
     (case rid of
        None \<Rightarrow> (Inr (legacy, own, fallback_caps legacy), w)
      | Some i \<Rightarrow>
          (case role_by_id (te_db t) i w of
             (Some r, w1) \<Rightarrow>
               (Inr (mirror_of r, if ro_is_admin r then [] else merge_cameras (ro_camera_ids r) own, effective_caps r), w1)
           | (None, w1) \<Rightarrow> (Inr (legacy, own, fallback_caps legacy), w1)))"

definition full_session :: "token_env \<Rightarrow> string \<Rightarrow> (api_error, auth_user) call" where
  "full_session t token =
     andthen (decode_claims t token) (\<lambda>c.
     andthen (session_of_claims t c) (\<lambda>jti.
     andthen (or_else_fail Unauthorized (te_parse_uuid t (cl_sub c))) (\<lambda>user.
     andthen (map_err internal (resolve_session (te_db t) jti user)) (\<lambda>grants.
     andthen (or_else_fail Unauthorized grants) (\<lambda>own.
     andthen (or_else_fail Unauthorized (role_from_str (cl_role c))) (\<lambda>legacy.
     andthen (if_given (\<lambda>s. or_else_fail Unauthorized (te_parse_uuid t s)) (cl_role_id c)) (\<lambda>rid.
     andthen (effective_role t rid legacy own) (\<lambda>(role, cams, caps).
       give \<lparr>au_user_id = user, au_role = role, au_camera_ids = cams, au_capabilities = caps,
             au_role_id = rid, au_jti = Some jti, au_media_scoped = False\<rparr>))))))))"

definition authenticate :: "token_env \<Rightarrow> request \<Rightarrow> (api_error, auth_user) call" where
  "authenticate t rq =
     andthen (presented_token rq) (\<lambda>(token, from_query) w.
       if from_query
       then (case try_media_token t token w of Some u \<Rightarrow> give u w | None \<Rightarrow> fail Unauthorized w)
       else full_session t token w)"

text \<open>The extractors \<open>AuthUser\<close>, \<open>MediaOrFullUser\<close>, \<open>AdminUser\<close> and \<open>MetricsAuth\<close>; \<open>FullSessionUser\<close> is the first.\<close>

definition auth_user_extractor :: "token_env \<Rightarrow> request \<Rightarrow> (api_error, auth_user) call" where
  "auth_user_extractor t rq =
     andthen (authenticate t rq) (\<lambda>u. if au_media_scoped u then fail Forbidden else give u)"

definition media_or_full_extractor :: "token_env \<Rightarrow> request \<Rightarrow> (api_error, auth_user) call" where
  "media_or_full_extractor t rq = authenticate t rq"

definition admin_extractor :: "token_env \<Rightarrow> request \<Rightarrow> (api_error, auth_user) call" where
  "admin_extractor t rq =
     andthen (auth_user_extractor t rq) (\<lambda>u. if au_role u = Admin then give u else fail Forbidden)"

definition metrics_extractor :: "token_env \<Rightarrow> request \<Rightarrow> (api_error, unit) call" where
  "metrics_extractor t rq =
     (if te_metrics_token t \<noteq> None \<and>
         map_option trim (Option.bind (rq_authorization rq) (strip_prefix ''Bearer '')) = te_metrics_token t
      then give () else andthen (admin_extractor t rq) (\<lambda>_. give ()))"

end
