(* ===== verification/SessionRoutes.thy ===== *)
theory SessionRoutes
  imports Sessions
begin

text \<open>
  The handlers that issue, trade and revoke sessions (\<open>services/api/src/auth.rs\<close>, and the handoff codes of
  \<open>state.rs\<close>).
\<close>

definition media_token_expiry_seconds :: int where "media_token_expiry_seconds = 900"
definition remember_expiry_seconds :: nat where "remember_expiry_seconds = 3650 * 24 * 3600"
definition handoff_expiry_seconds :: int where "handoff_expiry_seconds = 60"
definition handoff_max_entries :: nat where "handoff_max_entries = 1000"
definition i64_max :: nat where "i64_max = 9223372036854775807"

text \<open>\<open>checked_add_signed\<close>, with the caller's \<open>unwrap_or(now)\<close>.\<close>

definition expiry_after :: "token_env \<Rightarrow> instant \<Rightarrow> int \<Rightarrow> instant" where
  "expiry_after t now secs = (if now + seconds secs \<le> te_max_utc t then now + seconds secs else now)"

text \<open>\<open>u64::try_from(ts).unwrap_or(0)\<close>.\<close>

definition unix_u64 :: "instant \<Rightarrow> nat" where
  "unix_u64 i = nat (timestamp i)"

record login_response =
  lr_token :: string
  lr_expires_at :: instant

definition minted_claims :: "token_env \<Rightarrow> user \<Rightarrow> uuid \<Rightarrow> instant \<Rightarrow> instant \<Rightarrow> claims" where
  "minted_claims t u jti now until =
     \<lparr>cl_sub = te_show_uuid t (us_id u), cl_exp = unix_u64 until, cl_iat = unix_u64 now, cl_role = role_as_str (us_role u),
      cl_camera_ids = map (te_show_uuid t) (us_camera_ids u), cl_role_id = map_option (te_show_uuid t) (us_role_id u),
      cl_jti = Some (te_show_uuid t jti)\<rparr>"

definition mint_token ::
  "token_env \<Rightarrow> user \<Rightarrow> bool \<Rightarrow> string option \<Rightarrow> string option \<Rightarrow> (api_error, login_response) call"
where
  "mint_token t u long_lived label ip w =
     (let now = now_at (te_db t) w;
          secs = (if long_lived then remember_expiry_seconds else te_jwt_expiry_seconds t);
          until = expiry_after t now (if secs \<le> i64_max then int secs else 86400);
          (jti, w1) = new_uuid (te_db t) w
      in andthen (or_else_fail Internal (te_sign t (json_of_claims (minted_claims t u jti now until)))) (\<lambda>token.
         andthen (map_err internal (create_session (te_db t) jti (us_id u) label ip long_lived until)) (\<lambda>_.
           give \<lparr>lr_token = token, lr_expires_at = until\<rparr>)) w1)"

definition device_label :: "request \<Rightarrow> string option" where
  "device_label rq =
     (case rq_user_agent rq of None \<Rightarrow> None | Some s \<Rightarrow> (let l = take 200 s in if l = [] then None else Some l))"

definition advisory_ip :: "request \<Rightarrow> string option" where
  "advisory_ip rq =
     (case rq_forwarded rq of
        Some s # _ \<Rightarrow> (let i = trim (hd (split_on (CHR '','') s)) in if i = [] then None else Some i)
      | _ \<Rightarrow> None)"

definition mint_for :: "token_env \<Rightarrow> request \<Rightarrow> user \<Rightarrow> bool \<Rightarrow> (api_error, login_response) call" where
  "mint_for t rq u long_lived = mint_token t u long_lived (device_label rq) (advisory_ip rq)"

subsection \<open>The first administrator\<close>

definition any_admin :: "user list \<Rightarrow> bool" where
  "any_admin us \<longleftrightarrow> list_ex (\<lambda>u. us_role u = Admin) us"

definition needs_bootstrap :: "token_env \<Rightarrow> (api_error, bool) call" where
  "needs_bootstrap t = andthen (map_err internal (list_users (te_db t))) (\<lambda>us. give (\<not> any_admin us))"

definition bootstrap_check :: "token_env \<Rightarrow> string \<Rightarrow> string \<Rightarrow> (api_error, string) call" where
  "bootstrap_check t name pw =
     (let username = trim name in
      andthen (ensure (username \<noteq> []) Bad_Request) (\<lambda>_.
      andthen (ensure (\<not> length pw < 8) Bad_Request) (\<lambda>_.
      andthen (map_err internal (list_users (te_db t))) (\<lambda>us.
        if any_admin us then fail Conflict else give username))))"

definition bootstrap_act :: "token_env \<Rightarrow> request \<Rightarrow> string \<Rightarrow> string \<Rightarrow> (api_error, login_response) call" where
  "bootstrap_act t rq pw username =
     andthen (hash_password (te_db t) pw) (\<lambda>hash.
     andthen (map_err internal (get_admin_role_id (te_db t))) (\<lambda>rid.
     andthen (map_err duplicate_by_message (db_create_user (te_db t) username hash Admin [] rid)) (\<lambda>u.
       mint_for t rq u False)))"

definition bootstrap_admin :: "token_env \<Rightarrow> request \<Rightarrow> string \<Rightarrow> string \<Rightarrow> (api_error, login_response) call" where
  "bootstrap_admin t rq name pw = andthen (bootstrap_check t name pw) (bootstrap_act t rq pw)"

text \<open>The administrator seeded from the environment at start-up.\<close>

definition seed_admin_if_absent :: "token_env \<Rightarrow> string \<Rightarrow> string \<Rightarrow> (db_error, unit) call" where
  "seed_admin_if_absent t name pw =
     (if name = [] \<or> pw = [] then give ()
      else andthen (list_users (te_db t)) (\<lambda>us.
        if any_admin us then give ()
        else andthen (map_err (\<lambda>_. \<lparr>de_context = ''seed: argon2 hash failed'', de_unique = False\<rparr>) (hash_password (te_db t) pw)) (\<lambda>hash.
             andthen (get_admin_role_id (te_db t)) (\<lambda>rid w.
               (case db_create_user (te_db t) name hash Admin [] rid w of
                  (Inr u, w1) \<Rightarrow> (Inr (), w1)
                | (Inl x, w1) \<Rightarrow> (if duplicate_by_message x = Conflict then Inr () else Inl x, w1))))))"

subsection \<open>Signing in\<close>

definition dummy_hash :: string where
  "dummy_hash = ''$argon2id$v=19$m=19456,t=2,p=1$AAAAAAAAAAAAAAAAAAAAAA$AAAAAAAAAAAAAAAAAAAAAAAAAAAAAAAAAAAAAAAAAAA''"

definition login :: "token_env \<Rightarrow> request \<Rightarrow> string \<Rightarrow> string \<Rightarrow> bool \<Rightarrow> (api_error, login_response) call" where
  "login t rq name pw remember =
     andthen (ensure (trim name \<noteq> []) Bad_Request) (\<lambda>_.
     andthen (ensure (pw \<noteq> []) Bad_Request) (\<lambda>_.
       (let username = trim name;
            client = client_key (te_show_ip t) (te_net t) (te_trust t) (rq_forwarded rq) (rq_peer rq) in
        andthen (\<lambda>w. case login_retry_after username client (now_at (te_db t) w) (aw_logins w) of
                       Some secs \<Rightarrow> fail (Too_Many_Requests secs) w
                     | None \<Rightarrow> give () w) (\<lambda>_.
        andthen (map_err internal (get_user_by_username (te_db t) username)) (\<lambda>found.
          (case (case found of Some u \<Rightarrow> if ae_verify (te_db t) pw (us_password_hash u) then Some u else None | None \<Rightarrow> None) of
             None \<Rightarrow>
               andthen (doing (\<lambda>w. w\<lparr>aw_logins := record_login_failure username client (now_at (te_db t) w) (aw_logins w)\<rparr>))
                 (\<lambda>_. fail Unauthorized)
           | Some u \<Rightarrow>
               andthen (doing (\<lambda>w. w\<lparr>aw_logins := record_login_success username client (aw_logins w)\<rparr>))
                 (\<lambda>_. mint_for t rq u remember)))))))"

definition refresh :: "token_env \<Rightarrow> request \<Rightarrow> auth_user \<Rightarrow> (api_error, login_response) call" where
  "refresh t rq user =
     andthen (map_err internal (get_user_by_id (te_db t) (au_user_id user))) (\<lambda>found.
     andthen (or_else_fail Not_Found found) (\<lambda>u.
     andthen (mint_for t rq u False) (\<lambda>resp.
       (case au_jti user of
          None \<Rightarrow> give resp
        | Some old \<Rightarrow>
            (\<lambda>w. case revoke_session (te_db t) old (Some (us_id u)) w of
                   (Inr _, w1) \<Rightarrow> (Inr resp, refresh_revoked_jtis (te_db t) w1)
                 | (Inl _, w1) \<Rightarrow> (Inr resp, w1))))))"

subsection \<open>Media tokens\<close>

definition media_claims_for :: "token_env \<Rightarrow> auth_user \<Rightarrow> uuid \<Rightarrow> instant \<Rightarrow> instant \<Rightarrow> media_claims" where
  "media_claims_for t user cam now until =
     \<lparr>mc_sub = te_show_uuid t (au_user_id user), mc_typ = media_token_typ, mc_cam = te_show_uuid t cam,
      mc_export = cap_export (au_capabilities user), mc_playback = cap_playback (au_capabilities user),
      mc_clips = cap_clips (au_capabilities user), mc_view_plates = cap_view_plates (au_capabilities user),
      mc_exp = unix_u64 until, mc_iat = unix_u64 now\<rparr>"

definition media_token :: "token_env \<Rightarrow> auth_user \<Rightarrow> uuid \<Rightarrow> (api_error, string \<times> uuid \<times> instant) call" where
  "media_token t user cam =
     andthen (assert_camera_access user cam) (\<lambda>_ w.
       (let now = now_at (te_db t) w; until = expiry_after t now media_token_expiry_seconds in
        andthen (or_else_fail Internal (te_sign t (json_of_media_claims (media_claims_for t user cam now until))))
          (\<lambda>token. give (token, cam, until)) w))"

subsection \<open>Handoff codes\<close>

definition issue_handoff_code :: "token_env \<Rightarrow> uuid \<Rightarrow> uuid option \<Rightarrow> int \<Rightarrow> auth_world \<Rightarrow> string \<times> auth_world" where
  "issue_handoff_code t user jti ttl w =
     (let now = now_at (te_db t) w;
          kept = (if handoff_max_entries < length (aw_handoffs w)
                  then filter (\<lambda>(_, h). now < he_expires h) (aw_handoffs w) else aw_handoffs w);
          (a, w1) = new_uuid (te_db t) w;
          (b, w2) = new_uuid (te_db t) w1;
          code = te_simple_uuid t a @ te_simple_uuid t b
      in (code, w2\<lparr>aw_handoffs := AList.update code \<lparr>he_user = user, he_jti = jti, he_expires = now + ttl\<rparr> kept\<rparr>))"

definition consume_handoff_code :: "token_env \<Rightarrow> string \<Rightarrow> auth_world \<Rightarrow> (uuid \<times> uuid option) option \<times> auth_world" where
  "consume_handoff_code t code w =
     (case map_of (aw_handoffs w) code of
        None \<Rightarrow> (None, w)
      | Some h \<Rightarrow>
          (if he_expires h \<le> now_at (te_db t) w then None else Some (he_user h, he_jti h),
           w\<lparr>aw_handoffs := AList.delete code (aw_handoffs w)\<rparr>))"

definition create_handoff :: "token_env \<Rightarrow> auth_user \<Rightarrow> (api_error, string) call" where
  "create_handoff t user w =
     (let (code, w1) = issue_handoff_code t (au_user_id user) (au_jti user) (seconds handoff_expiry_seconds) w
      in (Inr code, w1))"

definition exchange_handoff :: "token_env \<Rightarrow> request \<Rightarrow> string \<Rightarrow> (api_error, login_response) call" where
  "exchange_handoff t rq code w =
     (case consume_handoff_code t (trim code) w of
        (None, w1) \<Rightarrow> fail Unauthorized w1
      | (Some (user, issued_by), w1) \<Rightarrow>
          andthen (or_else_fail Unauthorized issued_by) (\<lambda>jti.
          andthen (\<lambda>w. case is_jti_revoked (te_db t) jti w of
                         (revoked, w2) \<Rightarrow> (if revoked then fail Unauthorized else give ()) w2) (\<lambda>_.
          andthen (map_err internal (resolve_session (te_db t) jti user)) (\<lambda>grants.
          andthen (ensure (grants \<noteq> None) Unauthorized) (\<lambda>_.
          andthen (map_err internal (get_user_by_id (te_db t) user)) (\<lambda>found.
          andthen (or_else_fail Not_Found found) (\<lambda>u.
            mint_for t rq u False)))))) w1)"

subsection \<open>Listing and revoking sessions\<close>

definition list_my_sessions :: "token_env \<Rightarrow> auth_user \<Rightarrow> (api_error, (session \<times> bool) list) call" where
  "list_my_sessions t user =
     andthen (map_err internal (list_sessions_for_user (te_db t) (au_user_id user)))
       (\<lambda>ss. give (map (\<lambda>s. (s, au_jti user = Some (se_jti s))) ss))"

definition revoke_my_session :: "token_env \<Rightarrow> auth_user \<Rightarrow> uuid \<Rightarrow> (api_error, unit) call" where
  "revoke_my_session t user jti =
     andthen (map_err internal (revoke_session (te_db t) jti (Some (au_user_id user)))) (\<lambda>n.
     andthen (doing (refresh_revoked_jtis (te_db t))) (\<lambda>_.
       ensure (n \<noteq> 0) Not_Found))"

definition revoke_all_my_sessions :: "token_env \<Rightarrow> auth_user \<Rightarrow> (api_error, nat) call" where
  "revoke_all_my_sessions t user =
     andthen (map_err internal (revoke_all_sessions_for_user (te_db t) (au_user_id user))) (\<lambda>n.
     andthen (doing (refresh_revoked_jtis (te_db t))) (\<lambda>_. give n))"

definition admin_revoke_user_sessions :: "token_env \<Rightarrow> uuid \<Rightarrow> (api_error, nat) call" where
  "admin_revoke_user_sessions t user =
     andthen (map_err internal (revoke_all_sessions_for_user (te_db t) user)) (\<lambda>n.
     andthen (doing (refresh_revoked_jtis (te_db t))) (\<lambda>_. give n))"

end
