(* ===== verification/AccountRules.thy ===== *)
theory AccountRules
  imports SessionRoutes
begin

text \<open>
  Rules for the calls of the API: what holds after a call, and which calls leave the users alone.

  \<^item> \<open>post P m Q E\<close>: from \<open>P\<close>, the call ends in \<open>Q\<close> when it succeeds and in \<open>E\<close> when it fails.
\<close>

definition post :: "(auth_world \<Rightarrow> bool) \<Rightarrow> ('e, 'a) call \<Rightarrow> ('a \<Rightarrow> auth_world \<Rightarrow> bool) \<Rightarrow> (auth_world \<Rightarrow> bool) \<Rightarrow> bool" where
  "post P m Q E \<longleftrightarrow> (\<forall>w. P w \<longrightarrow> (case m w of (Inr a, w') \<Rightarrow> Q a w' | (Inl x, w') \<Rightarrow> E w'))"

lemma post_andthen:
  assumes "post P m R E" and "\<And>a. post (R a) (f a) Q E"
  shows "post P (andthen m f) Q E"
  unfolding post_def
proof (intro allI impI)
  fix w assume "P w"
  obtain r w1 where m: "m w = (r, w1)" by force
  show "case andthen m f w of (Inl x, w') \<Rightarrow> E w' | (Inr a, w') \<Rightarrow> Q a w'"
  proof (cases r)
    case (Inl x)
    then show ?thesis using assms(1) \<open>P w\<close> m by (fastforce simp: post_def andthen_def)
  next
    case (Inr a)
    then have "R a w1" using assms(1) \<open>P w\<close> m by (fastforce simp: post_def)
    then show ?thesis using assms(2) [of a] m Inr by (simp add: post_def andthen_def)
  qed
qed

lemma post_map_err: "post P m Q E \<Longrightarrow> post P (map_err g m) Q E"
  by (force simp: post_def map_err_def split: prod.splits sum.splits)

lemma post_give: "(\<And>w. P w \<Longrightarrow> Q x w) \<Longrightarrow> post P (give x) Q E"
  by (simp add: post_def give_def)

lemma post_fail: "(\<And>w. P w \<Longrightarrow> E w) \<Longrightarrow> post P (fail y) Q E"
  by (simp add: post_def fail_def)

lemma post_doing: "(\<And>w. P w \<Longrightarrow> Q () (h w)) \<Longrightarrow> post P (doing h) Q E"
  by (simp add: post_def doing_def)

lemmas post_pure = post_give post_fail post_doing

lemma post_statement:
  assumes "\<And>w n. P w \<Longrightarrow> P (w\<lparr>aw_calls := n\<rparr>)" and "\<And>w. P w \<Longrightarrow> E w"
    and "\<And>w a w'. P w \<Longrightarrow> body w = Inr (a, w') \<Longrightarrow> Q a w' \<and> E w'"
  shows "post P (statement e context body) Q E"
  using assms by (fastforce simp: post_def statement_def Let_def split: reply.split sum.split)

lemma post_mono: "post P m Q E \<Longrightarrow> (\<And>w. P' w \<Longrightarrow> P w) \<Longrightarrow> (\<And>a w. Q a w \<Longrightarrow> Q' a w) \<Longrightarrow> (\<And>w. E w \<Longrightarrow> E' w) \<Longrightarrow> post P' m Q' E'"
  by (fastforce simp: post_def split: prod.splits sum.splits)

lemma post_snd: "post P m (\<lambda>_. E) E \<Longrightarrow> P w \<Longrightarrow> E (snd (m w))"
  unfolding post_def by (cases "m w"; cases "fst (m w)") auto

subsection \<open>Calls that leave part of the world alone\<close>

text \<open>A call that does not change what \<open>view\<close> sees keeps every property of it.\<close>

definition spares :: "(auth_world \<Rightarrow> 'v) \<Rightarrow> ('e, 'a) call \<Rightarrow> bool" where
  "spares view m \<longleftrightarrow> (\<forall>w. view (snd (m w)) = view w)"

named_theorems spared

lemma spares_statement:
  "(\<And>w n. view (w\<lparr>aw_calls := n\<rparr>) = view w) \<Longrightarrow> (\<And>w a w'. body w = Inr (a, w') \<Longrightarrow> view w' = view w) \<Longrightarrow>
    spares view (statement e context body)"
  by (fastforce simp: spares_def statement_def Let_def split: reply.split sum.split)

lemma spares_andthen [spared]: "spares view m \<Longrightarrow> (\<And>a. spares view (f a)) \<Longrightarrow> spares view (andthen m f)"
  unfolding spares_def andthen_def by (auto split: prod.splits sum.splits) (metis snd_conv)+

lemma spares_map_err [spared]: "spares view m \<Longrightarrow> spares view (map_err g m)"
  unfolding spares_def map_err_def by (auto split: prod.splits sum.splits) (metis snd_conv)+

lemma spares_pure [spared]: "spares view (give x)" "spares view (fail y)" "(\<And>w. view (h w) = view w) \<Longrightarrow> spares view (doing h)"
  by (simp_all add: spares_def give_def fail_def doing_def)

lemma spares_cases [spared]:
  "(\<And>x y. spares view (f x y)) \<Longrightarrow> spares view (case p of (x, y) \<Rightarrow> f x y)"
  "(b \<Longrightarrow> spares view m) \<Longrightarrow> (\<not> b \<Longrightarrow> spares view n) \<Longrightarrow> spares view (if b then m else n)"
  "spares view m \<Longrightarrow> (\<And>x. spares view (g x)) \<Longrightarrow> spares view (case a of None \<Rightarrow> m | Some x \<Rightarrow> g x)"
  by (auto split: prod.split option.split)

lemma post_spares:
  "spares view m \<Longrightarrow> post (\<lambda>w. P (view w)) m (\<lambda>_ w. P (view w)) (\<lambda>w. P (view w))"
  by (auto simp: post_def spares_def split: prod.splits sum.splits) (metis snd_conv)+

lemma spares_call: "spares view m \<Longrightarrow> m w = (r, w') \<Longrightarrow> view w' = view w"
  by (metis spares_def snd_conv)

lemma spares_via:
  assumes "\<And>w. view (snd (f w)) = view w" and "\<And>a. spares view (g a)"
  shows "spares view (\<lambda>w. case f w of (a, w1) \<Rightarrow> g a w1)"
  unfolding spares_def
proof
  fix w
  obtain a w1 where f: "f w = (a, w1)" by force
  have "view w1 = view w" using assms(1) [of w] f by simp
  then show "view (snd (case f w of (a, w1) \<Rightarrow> g a w1)) = view w"
    using assms(2) [of a] f by (simp add: spares_def)
qed

text \<open>A view of the world that no request but the ones about it changes: it does not see the bookkeeping of the
  environment, the sessions, the roles, the caches and the login counters.\<close>

locale account_view =
  fixes view :: "auth_world \<Rightarrow> 'v"
  assumes view_calls [simp]: "view (w\<lparr>aw_calls := n\<rparr>) = view w"
    and view_uuids [simp]: "view (w\<lparr>aw_uuids := n\<rparr>) = view w"
    and view_sessions [simp]: "view (w\<lparr>aw_sessions := ss\<rparr>) = view w"
    and view_roles [simp]: "view (w\<lparr>aw_roles := rs\<rparr>) = view w"
    and view_revoked [simp]: "view (w\<lparr>aw_revoked := js\<rparr>) = view w"
    and view_revoked_at [simp]: "view (w\<lparr>aw_revoked_at := t\<rparr>) = view w"
    and view_session_cache [simp]: "view (w\<lparr>aw_session_cache := c\<rparr>) = view w"
    and view_roles_cache [simp]: "view (w\<lparr>aw_roles_cache := d\<rparr>) = view w"
    and view_logins [simp]: "view (w\<lparr>aw_logins := l\<rparr>) = view w"
begin

lemma spares_query [spared]: "spares view (query e context f)"
  unfolding query_def by (rule spares_statement [OF view_calls]) simp

lemma spares_small [spared]:
  "spares view (ensure b x)" "spares view (or_else_fail x a)" "spares view (list_users e)" "spares view (get_user_by_id e i)"
  "spares view (get_user_by_username e n)" "spares view (db_get_role e r)" "spares view (get_admin_role_id e)"
  "spares view (count_users_with_role e i)" "spares view (resolve_live_session e j u)" "spares view (list_revoked_jtis e)"
  by (auto simp: ensure_def or_else_fail_def list_users_def get_user_by_id_def get_user_by_username_def db_get_role_def
        get_admin_role_id_def count_users_with_role_def resolve_live_session_def list_revoked_jtis_def spared split: option.split)

lemma spares_revoke [spared]: "spares view (revoke_where e context P)"
  unfolding revoke_where_def by (rule spares_statement [OF view_calls]) auto

lemma spares_sessions [spared]:
  "spares view (revoke_session e j u)" "spares view (revoke_all_sessions_for_user e i)"
  "spares view (revoke_other_sessions_for_user e i k)"
  by (auto simp: revoke_session_def revoke_all_sessions_for_user_def revoke_other_sessions_for_user_def spared split: option.split)

lemma spares_create_session [spared]: "spares view (create_session e j u l i b x)"
  unfolding create_session_def by (rule spares_statement [OF view_calls]) (auto split: if_splits)

lemma spares_roles [spared]:
  "spares view (db_create_role e n c cams)" "spares view (db_update_role e i nm cp cm)" "spares view (db_delete_role e i)"
  unfolding db_create_role_def db_update_role_def db_delete_role_def
  by (rule spares_statement [OF view_calls]; force simp: new_uuid_def Let_def split: if_splits option.splits)+

lemma view_refresh [simp]: "view (refresh_revoked_jtis e w) = view w"
proof -
  obtain r w1 where "list_revoked_jtis e w = (r, w1)" by force
  moreover from this have "view w1 = view w" using spares_small(10) [of e] by (metis spares_def snd_conv)
  ultimately show ?thesis by (simp add: refresh_revoked_jtis_def split: sum.split)
qed

lemma view_caches [simp]: "view (invalidate_session_cache w) = view w" "view (invalidate_roles_cache w) = view w"
    "view (cache_session j g n w) = view w" "view (snd (new_uuid e w)) = view w"
    "view (snd (is_jti_revoked e j w)) = view w"
  by (simp_all add: invalidate_session_cache_def invalidate_roles_cache_def cache_session_def new_uuid_def is_jti_revoked_def Let_def)

lemma spares_hash [spared]: "spares view (hash_password e pw)"
  by (simp add: hash_password_def spares_def new_uuid_def or_else_fail_def give_def fail_def split: option.split)

lemma spares_given [spared]: "(\<And>x. spares view (f x)) \<Longrightarrow> spares view (if_given f a)"
  by (simp add: if_given_def spared split: option.split)

lemma spares_validate [spared]: "spares view (validate_username n)" "spares view (validate_password p)"
  by (simp_all add: validate_username_def validate_password_def spared)

lemma spares_lookup [spared]: "spares view (require_user e i)" "spares view (role_or_bad_request e r)" "spares view (last_admin_guard e)"
  by (simp_all add: require_user_def role_or_bad_request_def last_admin_guard_def spared)

lemma spares_planned [spared]: "spares view (created_role e c)" "spares view (planned_role e body u)"
  by (auto simp: created_role_def planned_role_def spared Let_def split: option.split)

lemma spares_mint [spared]: "spares view (mint_token t u b l i)" "spares view (mint_for t rq u b)"
proof -
  have body: "spares view (andthen (or_else_fail Internal tok) (\<lambda>token. andthen (map_err internal (create_session e j u l i b x)) (\<lambda>_. give (r token))))"
    for tok e j u l i b x and r :: "string \<Rightarrow> login_response"
    by (intro spared)
  show *: "spares view (mint_token t u b l i)" for u b l i
    unfolding spares_def mint_token_def new_uuid_def Let_def prod.case body [unfolded spares_def, rule_format] by simp
  show "spares view (mint_for t rq u b)" unfolding mint_for_def by (rule *)
qed

lemma spares_resolve [spared]: "spares view (resolve_session e j u)"
proof -
  have "spares view (andthen (resolve_live_session e j u) (\<lambda>g. andthen (doing (cache_session j g n)) (\<lambda>_. give g)))" for n
    by (intro spared) simp
  then show ?thesis unfolding resolve_session_def spares_def by (simp add: Let_def split: option.split)
qed

lemma view_role_by_id [simp]: "view (snd (role_by_id e i w)) = view w"
  using spares_small(6) [of e i] by (auto simp: role_by_id_def spares_def split: option.split prod.split sum.split) (metis snd_conv)+

lemma spares_extract [spared]:
  "spares view (presented_token rq)" "spares view (decode_claims t tok)" "spares view (session_of_claims t c)"
  "spares view (effective_role t rid l own)" "spares view (full_session t tok)" "spares view (authenticate t rq)"
proof -
  show 1: "spares view (presented_token rq)" for rq by (auto simp: presented_token_def spared split: option.split)
  show 2: "spares view (decode_claims t tok)" for tok
    by (simp add: decode_claims_def or_else_fail_def give_def fail_def spares_def split: option.split)
  have revoked: "spares view (\<lambda>w. case is_jti_revoked (te_db t) jti w of (r, w1) \<Rightarrow> (if r then fail Unauthorized else give jti) w1)" for jti
    by (rule spares_via) (auto intro: spared)
  show 3: "spares view (session_of_claims t c)" for c
    unfolding session_of_claims_def by (intro spared revoked)
  show 4: "spares view (effective_role t rid l own)" for rid l own
    unfolding spares_def
  proof
    fix w
    obtain r w1 where r: "role_by_id (te_db t) (the rid) w = (r, w1)" by force
    then have "view w1 = view w" using view_role_by_id [of "te_db t" "the rid" w] by simp
    then show "view (snd (effective_role t rid l own w)) = view w"
      using r by (cases rid; cases r) (simp_all add: effective_role_def)
  qed
  show 5: "spares view (full_session t tok)" for tok
    unfolding full_session_def by (intro spared 2 3 4)
  have query: "spares view (\<lambda>w. if q then case try_media_token t tok w of None \<Rightarrow> fail Unauthorized w | Some u \<Rightarrow> give u w else full_session t tok w)" for q tok
    using 5 [of tok] by (auto simp: spares_def give_def fail_def split: option.split)
  show "spares view (authenticate t rq)"
    unfolding authenticate_def by (intro spares_andthen spares_cases(1) 1 query)
qed

lemma spares_login: "spares view (login t rq name pw r)"
proof -
  have blocked: "spares view (\<lambda>w. case login_retry_after u c (now_at (te_db t) w) (aw_logins w) of
      Some secs \<Rightarrow> fail (Too_Many_Requests secs) w | None \<Rightarrow> give () w)" for u c
    by (simp add: spares_def fail_def give_def split: option.split)
  show ?thesis unfolding login_def Let_def by (intro spared blocked) simp_all
qed

lemma spares_refresh: "spares view (refresh t rq u)"
proof -
  have rotate: "spares view (\<lambda>w. case revoke_session (te_db t) old (Some i) w of
      (Inr _, w1) \<Rightarrow> (Inr resp, refresh_revoked_jtis (te_db t) w1) | (Inl _, w1) \<Rightarrow> (Inr resp, w1))" for old i resp
    unfolding spares_def
  proof
    fix w
    obtain r w1 where r: "revoke_session (te_db t) old (Some i) w = (r, w1)" by force
    then show "view (snd (case revoke_session (te_db t) old (Some i) w of
        (Inr _, w1) \<Rightarrow> (Inr resp, refresh_revoked_jtis (te_db t) w1) | (Inl _, w1) \<Rightarrow> (Inr resp, w1))) = view w"
      using spares_call [OF spares_sessions(1) r] by (cases r) simp_all
  qed
  show ?thesis unfolding refresh_def by (intro spared rotate)
qed

lemma spares_media_token: "spares view (media_token t u cam)"
  unfolding media_token_def assert_camera_access_def
  by (auto simp: spares_def andthen_def or_else_fail_def give_def fail_def Let_def split: option.split)

lemma spares_revoking:
  "spares view (revoke_my_session t u j)" "spares view (revoke_all_my_sessions t u)" "spares view (admin_revoke_user_sessions t i)"
  unfolding revoke_my_session_def revoke_all_my_sessions_def admin_revoke_user_sessions_def by (intro spared; simp)+

lemma spares_role_routes:
  "spares view (create_role_route e c)" "spares view (update_role_route e i u)" "spares view (delete_role_route e i)"
  unfolding create_role_route_def update_role_route_def delete_role_route_def Let_def by (intro spared; simp)+

end

interpretation staff: account_view aw_users
  by unfold_locales simp_all

interpretation codes: account_view aw_handoffs
  by unfold_locales simp_all

end
