(* ===== verification/LastAdmin.thy ===== *)
theory LastAdmin
  imports AccountRules
begin

text \<open>
  There is always an administrator, as long as requests run one at a time; two at once can remove the last ones.
\<close>

lemma spares_create_handoff: "spares aw_users (create_handoff t u)"
  by (simp add: spares_def create_handoff_def issue_handoff_code_def new_uuid_def Let_def)

lemma spares_exchange: "spares aw_users (exchange_handoff t rq code)"
proof -
  have revoked: "spares aw_users (\<lambda>w. case is_jti_revoked (te_db t) jti w of (r, w1) \<Rightarrow> (if r then fail Unauthorized else give ()) w1)" for jti
    by (rule spares_via) (auto intro: spared)
  have body: "spares aw_users (case found of None \<Rightarrow> fail Unauthorized
      | Some (user, issued_by) \<Rightarrow>
          andthen (or_else_fail Unauthorized issued_by) (\<lambda>jti.
          andthen (\<lambda>w. case is_jti_revoked (te_db t) jti w of
                         (revoked, w2) \<Rightarrow> (if revoked then fail Unauthorized else give ()) w2) (\<lambda>_.
          andthen (map_err internal (resolve_session (te_db t) jti user)) (\<lambda>grants.
          andthen (ensure (grants \<noteq> None) Unauthorized) (\<lambda>_.
          andthen (map_err internal (get_user_by_id (te_db t) user)) (\<lambda>found.
          andthen (or_else_fail Not_Found found) (\<lambda>u.
            mint_for t rq u False)))))))" for found :: "(uuid \<times> uuid option) option"
    by (intro spared revoked)
  show ?thesis
    unfolding spares_def
  proof
    fix w
    obtain found w1 where c: "consume_handoff_code t (trim code) w = (found, w1)" by force
    then have "aw_users w1 = aw_users w" by (auto simp: consume_handoff_code_def split: option.splits)
    then show "aw_users (snd (exchange_handoff t rq code w)) = aw_users w"
      using body [of found] c unfolding exchange_handoff_def spares_def by (cases found) auto
  qed
qed

subsection \<open>One request at a time\<close>

definition staffed :: "user list \<Rightarrow> bool" where
  "staffed us \<longleftrightarrow> distinct (map us_id us) \<and> any_admin us"

abbreviation staffed_world :: "auth_world \<Rightarrow> bool" where
  "staffed_world w \<equiv> staffed (aw_users w)"

definition several_admins :: "user list \<Rightarrow> bool" where
  "several_admins us \<longleftrightarrow> 1 < length (filter (\<lambda>u. us_role u = Admin) us)"

lemma any_admin_iff: "any_admin us \<longleftrightarrow> (\<exists>u\<in>set us. us_role u = Admin)"
  by (simp add: any_admin_def list_ex_iff)

lemma another_admin:
  assumes "distinct (map us_id us)" and "several_admins us"
  shows "\<exists>u\<in>set us. us_role u = Admin \<and> us_id u \<noteq> i"
proof (rule ccontr)
  assume "\<not> ?thesis"
  then have all: "\<forall>u\<in>set (filter (\<lambda>u. us_role u = Admin) us). us_id u = i" by auto
  have "distinct (map us_id (filter (\<lambda>u. us_role u = Admin) us))" using assms(1) by (rule distinct_map_filter)
  then have "length (filter (\<lambda>u. us_role u = Admin) us) = card (us_id ` set (filter (\<lambda>u. us_role u = Admin) us))"
    by (metis distinct_card length_map list.set_map)
  also have "\<dots> \<le> card {i}" using all by (intro card_mono) auto
  finally show False using assms(2) by (simp add: several_admins_def)
qed

lemma post_query:
  "post (\<lambda>w. P (aw_users w)) (query e c (\<lambda>w. f (aw_users w))) (\<lambda>a w. P (aw_users w) \<and> a = f (aw_users w)) (\<lambda>w. P (aw_users w))"
  unfolding query_def by (rule post_statement) auto

lemma post_require_user:
  "post (\<lambda>w. P (aw_users w)) (require_user e i)
     (\<lambda>u w. P (aw_users w) \<and> List.find (\<lambda>u. us_id u = i) (aw_users w) = Some u) (\<lambda>w. P (aw_users w))"
  unfolding require_user_def get_user_by_id_def
  by (rule post_andthen [OF post_map_err [OF post_query]])
     (auto simp: or_else_fail_def intro!: post_pure split: option.split)

lemma post_guard:
  "post (\<lambda>w. P (aw_users w)) (last_admin_guard e) (\<lambda>_ w. P (aw_users w) \<and> several_admins (aw_users w)) (\<lambda>w. P (aw_users w))"
  unfolding last_admin_guard_def list_users_def
  by (rule post_andthen [OF post_map_err [OF post_query [where f = "\<lambda>us. us"]]])
     (auto simp: several_admins_def intro!: post_pure)

text \<open>Deleting a user.\<close>

definition removable :: "uuid \<Rightarrow> user list \<Rightarrow> bool" where
  "removable i us \<longleftrightarrow> staffed us \<and> staffed (filter (\<lambda>u. us_id u \<noteq> i) us)"

lemma found_user: "List.find (\<lambda>u. us_id u = i) us = Some u \<Longrightarrow> u \<in> set us \<and> us_id u = i"
  by (auto simp: find_Some_iff)

lemma same_user: "distinct (map us_id us) \<Longrightarrow> u \<in> set us \<Longrightarrow> v \<in> set us \<Longrightarrow> us_id u = us_id v \<Longrightarrow> u = v"
  by (auto simp: distinct_map dest: inj_onD)

lemma removableI:
  assumes "staffed us" and "List.find (\<lambda>u. us_id u = i) us = Some u" and "us_role u = Admin \<Longrightarrow> several_admins us"
  shows "removable i us"
proof -
  have d: "distinct (map us_id us)" "any_admin us" using assms(1) by (simp_all add: staffed_def)
  have "\<exists>v\<in>set us. us_role v = Admin \<and> us_id v \<noteq> i"
  proof (cases "us_role u = Admin")
    case True
    then show ?thesis using another_admin d(1) assms(3) by blast
  next
    case False
    then show ?thesis using d same_user [OF d(1)] found_user [OF assms(2)] by (metis any_admin_iff)
  qed
  then show ?thesis using assms(1) d by (auto simp: removable_def staffed_def any_admin_iff distinct_map_filter)
qed

lemma post_delete_check:
  "post staffed_world (delete_user_check e i) (\<lambda>_ w. removable i (aw_users w)) staffed_world"
  unfolding delete_user_check_def
proof (rule post_andthen [OF post_require_user])
  fix u
  let ?found = "\<lambda>us. staffed us \<and> List.find (\<lambda>u. us_id u = i) us = Some u"
  have "post (\<lambda>w. ?found (aw_users w)) (last_admin_guard e) (\<lambda>_ w. removable i (aw_users w)) staffed_world"
    by (rule post_mono [OF post_guard [where P = ?found]]) (auto intro: removableI)
  moreover have "post (\<lambda>w. ?found (aw_users w)) (give ()) (\<lambda>_ w. removable i (aw_users w)) staffed_world" if "us_role u \<noteq> Admin"
    by (rule post_pure) (use that in \<open>auto intro: removableI\<close>)
  ultimately show "post (\<lambda>w. ?found (aw_users w)) (if us_role u = Admin then last_admin_guard e else give ())
      (\<lambda>_ w. removable i (aw_users w)) staffed_world" by (cases "us_role u = Admin") simp_all
qed

lemma post_delete_act:
  "post (\<lambda>w. removable i (aw_users w)) (delete_user_act e i) (\<lambda>_. staffed_world) staffed_world"
proof -
  have still: "post (\<lambda>w. removable i (aw_users w)) m (\<lambda>_ w. removable i (aw_users w)) staffed_world" if "spares aw_users m" for m :: "(api_error, 'a) call"
    by (rule post_mono [OF post_spares [OF that, where P = "removable i"]]) (auto simp: removable_def)
  have "post (\<lambda>w. removable i (aw_users w)) (db_delete_user e i) (\<lambda>_. staffed_world) staffed_world"
    unfolding db_delete_user_def by (rule post_statement) (auto simp: removable_def)
  then have drop: "post (\<lambda>w. removable i (aw_users w)) (andthen (map_err internal (db_delete_user e i)) (\<lambda>_. doing invalidate_session_cache))
      (\<lambda>_. staffed_world) staffed_world"
    by (intro post_andthen [OF post_map_err] post_doing) simp_all
  show ?thesis
    unfolding delete_user_act_def
    by (intro post_andthen [OF still] drop spared) simp_all
qed

text \<open>Changing a user.\<close>

definition changeable :: "uuid \<Rightarrow> user_plan \<Rightarrow> user list \<Rightarrow> bool" where
  "changeable i p us \<longleftrightarrow> staffed us \<and> List.find (\<lambda>u. us_id u = i) us = Some (up_existing p) \<and>
     (us_role (up_existing p) = Admin \<and> coalesce (up_role p) Admin = Viewer \<longrightarrow> several_admins us)"

lemma changeable_result:
  assumes "changeable i p us" and "us_id u' = i" and "us_role u' = coalesce (up_role p) (us_role (up_existing p))"
  shows "staffed (map (\<lambda>v. if us_id v = i then u' else v) us)"
proof -
  let ?us' = "map (\<lambda>v. if us_id v = i then u' else v) us"
  have d: "distinct (map us_id us)" "any_admin us" using assms(1) by (simp_all add: changeable_def staffed_def)
  have f: "up_existing p \<in> set us" "us_id (up_existing p) = i"
    using assms(1) found_user unfolding changeable_def by blast+
  have "map us_id ?us' = map us_id us" using assms(2) by simp
  moreover have "any_admin ?us'"
  proof (cases "us_role u' = Admin")
    case True
    have "u' = (if us_id (up_existing p) = i then u' else up_existing p)" using f by simp
    then have "u' \<in> set ?us'" unfolding set_map using f(1) by (rule image_eqI)
    then show ?thesis using True by (auto simp only: any_admin_iff)
  next
    case False
    have "\<exists>v\<in>set us. us_role v = Admin \<and> us_id v \<noteq> i"
    proof (cases "us_role (up_existing p) = Admin")
      case True
      then have "coalesce (up_role p) Admin = Viewer" using False assms(3) by (metis user_role.exhaust)
      then show ?thesis using True assms(1) another_admin [OF d(1)] by (simp add: changeable_def)
    next
      case False
      then show ?thesis using d f same_user [OF d(1)] by (metis any_admin_iff)
    qed
    then show ?thesis by (force simp: any_admin_iff)
  qed
  ultimately show ?thesis using d(1) unfolding staffed_def by metis
qed

lemma post_update_check:
  "post staffed_world (update_user_check e i body) (\<lambda>p w. changeable i p (aw_users w)) staffed_world"
  unfolding update_user_check_def
proof (rule post_andthen [OF post_require_user])
  fix u
  let ?found = "\<lambda>us. staffed us \<and> List.find (\<lambda>u. us_id u = i) us = Some u"
  have still: "post (\<lambda>w. ?found (aw_users w)) m (\<lambda>_ w. ?found (aw_users w)) staffed_world" if "spares aw_users m" for m :: "(api_error, 'a) call"
    by (rule post_mono [OF post_spares [OF that, where P = ?found]]) auto
  show "post (\<lambda>w. ?found (aw_users w))
     (andthen (if_given validate_username (uu_username body)) (\<lambda>_.
      andthen (if_given validate_password (uu_password body)) (\<lambda>_.
      andthen (if_given (hash_password e) (uu_password body)) (\<lambda>hash.
      andthen (planned_role e body u) (\<lambda>(ur, rid, cams).
      andthen (if us_role u = Admin \<and> coalesce ur (us_role u) = Viewer then last_admin_guard e else give ()) (\<lambda>_.
        give \<lparr>up_existing = u, up_hash = hash, up_role = ur, up_role_id = rid, up_camera_ids = cams\<rparr>))))))
     (\<lambda>p w. changeable i p (aw_users w)) staffed_world"
  proof (intro post_andthen [OF still] spared)
    fix hash and plan :: "user_role option \<times> uuid option \<times> uuid list option"
    obtain ur rid cams where plan: "plan = (ur, rid, cams)" by (cases plan)
    let ?p = "\<lparr>up_existing = u, up_hash = hash, up_role = ur, up_role_id = rid, up_camera_ids = cams\<rparr>"
    have "post (\<lambda>w. ?found (aw_users w)) (if us_role u = Admin \<and> coalesce ur (us_role u) = Viewer then last_admin_guard e else give ())
        (\<lambda>_ w. changeable i ?p (aw_users w)) staffed_world"
    proof (cases "us_role u = Admin \<and> coalesce ur (us_role u) = Viewer")
      case True
      then show ?thesis by (auto intro!: post_mono [OF post_guard [where P = ?found]] simp: changeable_def)
    next
      case False
      then show ?thesis by (auto intro!: post_give simp: changeable_def)
    qed
    then show "post (\<lambda>w. ?found (aw_users w))
        (case plan of (ur, rid, cams) \<Rightarrow>
           andthen (if us_role u = Admin \<and> coalesce ur (us_role u) = Viewer then last_admin_guard e else give ())
             (\<lambda>_. give \<lparr>up_existing = u, up_hash = hash, up_role = ur, up_role_id = rid, up_camera_ids = cams\<rparr>))
        (\<lambda>p w. changeable i p (aw_users w)) staffed_world"
      unfolding plan prod.case by (rule post_andthen) (rule post_give)
  qed
qed

lemma post_update_act:
  "post (\<lambda>w. changeable i p (aw_users w)) (update_user_act e admin i body p) (\<lambda>_. staffed_world) staffed_world"
proof -
  have still: "post staffed_world m (\<lambda>_. staffed_world) staffed_world" if "spares aw_users m" for m :: "(api_error, 'a) call"
    by (rule post_spares [OF that])
  have "post (\<lambda>w. changeable i p (aw_users w)) (db_update_user e i name hash (up_role p) cams rid) (\<lambda>_. staffed_world) staffed_world"
    for name hash cams rid
    unfolding db_update_user_def
  proof (rule post_statement)
    fix w a w'
    assume pre: "changeable i p (aw_users w)"
      and body: "(case List.find (\<lambda>u. us_id u = i) (aw_users w) of None \<Rightarrow> Inl False
          | Some u \<Rightarrow>
              let u' = \<lparr>us_id = us_id u, us_username = coalesce name (us_username u),
                         us_password_hash = coalesce hash (us_password_hash u), us_role = coalesce (up_role p) (us_role u),
                         us_camera_ids = coalesce cams (us_camera_ids u),
                         us_role_id = (case rid of Some r \<Rightarrow> Some r | None \<Rightarrow> us_role_id u)\<rparr> in
               if \<exists>v\<in>set (aw_users w). us_id v \<noteq> i \<and> us_username v = us_username u' then Inl True
               else if \<not> role_exists rid w then Inl False
               else Inr (u', w\<lparr>aw_users := map (\<lambda>v. if us_id v = i then u' else v) (aw_users w)\<rparr>)) = Inr (a, w')"
    have found: "List.find (\<lambda>u. us_id u = i) (aw_users w) = Some (up_existing p)" using pre by (simp add: changeable_def)
    have "us_id (up_existing p) = i" using found_user [OF found] by simp
    then have "us_id a = i" "us_role a = coalesce (up_role p) (us_role (up_existing p))"
        "aw_users w' = map (\<lambda>v. if us_id v = i then a else v) (aw_users w)"
      using body found by (auto simp: Let_def split: if_splits)
    then show "staffed_world w' \<and> staffed_world w'" using changeable_result [OF pre] by simp
  qed (auto simp: changeable_def)
  then have row: "post (\<lambda>w. changeable i p (aw_users w)) (map_err unique_conflict (db_update_user e i name hash (up_role p) cams rid)) (\<lambda>_. staffed_world) staffed_world"
    for name hash cams rid by (rule post_map_err)
  have "spares aw_users (end_sessions e admin i)"
    unfolding end_sessions_def Let_def by (intro spared) (auto intro: spared split: option.split)
  then show ?thesis
    unfolding update_user_act_def
    by (intro post_andthen [OF row] still spared) simp_all
qed

text \<open>Creating users.\<close>

lemma post_create_row: "post staffed_world (db_create_user e n h r c rid) (\<lambda>_. staffed_world) staffed_world"
  unfolding db_create_user_def
  by (rule post_statement) (auto simp: staffed_def any_admin_def new_uuid_def Let_def split: if_splits)

lemma still_staffed: "spares aw_users m \<Longrightarrow> post staffed_world m (\<lambda>_. staffed_world) staffed_world"
  by (rule post_spares)

lemma post_create_user: "post staffed_world (create_user_route e body) (\<lambda>_. staffed_world) staffed_world"
proof -
  have "post staffed_world (case x of (ur, rid, cams) \<Rightarrow> map_err unique_conflict (db_create_user e n h ur cams rid)) (\<lambda>_. staffed_world) staffed_world"
    for x n h by (cases x) (simp add: post_map_err post_create_row)
  then show ?thesis unfolding create_user_route_def by (intro post_andthen [OF still_staffed] spared)
qed

lemma post_bootstrap: "post staffed_world (bootstrap_admin t rq name pw) (\<lambda>_. staffed_world) staffed_world"
proof -
  have "spares aw_users (bootstrap_check t name pw)"
    unfolding bootstrap_check_def Let_def by (intro spared)
  then show ?thesis
    unfolding bootstrap_admin_def bootstrap_act_def
    by (intro post_andthen [OF still_staffed] post_andthen [OF post_map_err [OF post_create_row]] still_staffed [OF staff.spares_mint(2)] spared)
qed

lemma post_seed: "post staffed_world (seed_admin_if_absent t name pw) (\<lambda>_. staffed_world) staffed_world"
proof -
  have row: "post staffed_world
      (\<lambda>w. case db_create_user e n h r c rid w of (Inr u, w1) \<Rightarrow> (Inr (), w1)
          | (Inl x, w1) \<Rightarrow> (if duplicate_by_message x = Conflict then Inr () else Inl x, w1)) (\<lambda>_. staffed_world) staffed_world" for e n h r c rid
    using post_create_row [of e n h r c rid] by (auto simp: post_def split: prod.splits sum.splits)
  show ?thesis
    unfolding seed_admin_if_absent_def
    by (auto intro!: post_give post_andthen [OF still_staffed] row spared)
qed

text \<open>The requests that reach the accounts.\<close>

datatype account_op =
    Create_User create_user_request
  | Update_User auth_user uuid update_user_request
  | Delete_User uuid
  | Create_Role create_role_request
  | Update_Role uuid update_role_request
  | Delete_Role uuid
  | Bootstrap request string string
  | Seed_Admin string string
  | Login request string string bool
  | Refresh request auth_user
  | Create_Handoff auth_user
  | Exchange_Handoff request string
  | Revoke_My_Session auth_user uuid
  | Revoke_All_My_Sessions auth_user
  | Admin_Revoke uuid
  | Authenticate request

fun serve :: "token_env \<Rightarrow> account_op \<Rightarrow> auth_world \<Rightarrow> auth_world" where
  "serve t (Create_User body) w = snd (create_user_route (te_db t) body w)"
| "serve t (Update_User admin i body) w = snd (update_user_route (te_db t) admin i body w)"
| "serve t (Delete_User i) w = snd (delete_user_route (te_db t) i w)"
| "serve t (Create_Role body) w = snd (create_role_route (te_db t) body w)"
| "serve t (Update_Role i body) w = snd (update_role_route (te_db t) i body w)"
| "serve t (Delete_Role i) w = snd (delete_role_route (te_db t) i w)"
| "serve t (Bootstrap rq name pw) w = snd (bootstrap_admin t rq name pw w)"
| "serve t (Seed_Admin name pw) w = snd (seed_admin_if_absent t name pw w)"
| "serve t (Login rq name pw r) w = snd (login t rq name pw r w)"
| "serve t (Refresh rq u) w = snd (refresh t rq u w)"
| "serve t (Create_Handoff u) w = snd (create_handoff t u w)"
| "serve t (Exchange_Handoff rq code) w = snd (exchange_handoff t rq code w)"
| "serve t (Revoke_My_Session u jti) w = snd (revoke_my_session t u jti w)"
| "serve t (Revoke_All_My_Sessions u) w = snd (revoke_all_my_sessions t u w)"
| "serve t (Admin_Revoke i) w = snd (admin_revoke_user_sessions t i w)"
| "serve t (Authenticate rq) w = snd (authenticate t rq w)"

lemma serve_staffed: "staffed_world w \<Longrightarrow> staffed_world (serve t op w)"
proof (cases op)
  case (Update_User admin i body)
  have "post staffed_world (update_user_route (te_db t) admin i body) (\<lambda>_. staffed_world) staffed_world"
    unfolding update_user_route_def by (rule post_andthen [OF post_update_check post_update_act])
  then show "staffed_world w \<Longrightarrow> ?thesis" using Update_User post_snd [of staffed_world _ staffed_world w] by simp
next
  case (Delete_User i)
  have "post staffed_world (delete_user_route (te_db t) i) (\<lambda>_. staffed_world) staffed_world"
    unfolding delete_user_route_def by (rule post_andthen [OF post_delete_check post_delete_act])
  then show "staffed_world w \<Longrightarrow> ?thesis" using Delete_User post_snd [of staffed_world _ staffed_world w] by simp
qed (auto simp: post_snd [OF post_create_user] post_snd [OF post_bootstrap] post_snd [OF post_seed]
      staff.spares_role_routes [unfolded spares_def] staff.spares_login [unfolded spares_def] staff.spares_refresh [unfolded spares_def]
      spares_create_handoff [unfolded spares_def] spares_exchange [unfolded spares_def]
      staff.spares_revoking [unfolded spares_def] staff.spares_extract(6) [unfolded spares_def])

lemma bootstrap_refused: "any_admin (aw_users w) \<Longrightarrow> fst (bootstrap_admin t rq name pw w) \<noteq> Inr resp"
  by (auto simp: bootstrap_admin_def bootstrap_check_def ensure_def andthen_def map_err_def list_users_def query_def statement_def
      give_def fail_def Let_def split: reply.splits sum.splits)

text \<open>C20. The API is never left without an administrator by requests that run one at a time: whatever users, roles and
  sessions are created, changed and deleted, and whatever statements fail, an account with the role of an
  administrator remains, so the unauthenticated bootstrap stays closed.\<close>

theorem an_admin_remains:
  assumes "staffed (aw_users w)"
  shows "staffed (aw_users (fold (serve t) ops w)) \<and> fst (bootstrap_admin t rq name pw (fold (serve t) ops w)) \<noteq> Inr resp"
proof -
  have "staffed (aw_users (fold (serve t) ops w))"
    using assms by (induction ops arbitrary: w) (simp_all add: serve_staffed)
  then show ?thesis using bootstrap_refused by (simp add: staffed_def)
qed

subsection \<open>A sample installation\<close>

text \<open>Two administrators and a viewer role; every statement is answered; UUIDs are written in unary.\<close>

definition calm :: account_env where
  "calm = \<lparr>ae_reply = (\<lambda>_. Answered), ae_now = (\<lambda>_. seconds 1000), ae_uuid = (\<lambda>n. 100 + n),
     ae_hash = (\<lambda>pw _. Some pw), ae_verify = (\<lambda>pw h. pw = h)\<rparr>"

definition unary :: "uuid \<Rightarrow> string" where "unary n = replicate n (CHR ''1'')"

definition of_unary :: "string \<Rightarrow> uuid option" where
  "of_unary s = (if list_all (\<lambda>c. c = CHR ''1'') s then Some (length s) else None)"

definition calm_tokens :: token_env where
  "calm_tokens = \<lparr>te_db = calm, te_sign = (\<lambda>_. Some ''signed''), te_open = (\<lambda>_ _. None), te_show_uuid = unary,
     te_parse_uuid = of_unary, te_simple_uuid = unary, te_jwt_expiry_seconds = 86400, te_max_utc = seconds 10000000000, te_metrics_token = None,
     te_net = sample_net, te_trust = proxy_trust_new sample_net False [], te_show_ip = (\<lambda>_. ''10.0.0.2'')\<rparr>"

definition no_caps :: capabilities where
  "no_caps = \<lparr>cap_export = False, cap_playback = False, cap_clips = False, cap_ptz = False, cap_bookmarks = No_Bookmarks,
     cap_manage_views = False, cap_view_plates = False, cap_actuators = False, cap_manage_channels = False\<rparr>"

definition admin_role :: role where
  "admin_role = \<lparr>ro_id = 1, ro_name = ''Administrator'', ro_is_admin = True, ro_capabilities = no_caps, ro_camera_ids = [], ro_created = 0\<rparr>"

definition live_only :: role where
  "live_only = \<lparr>ro_id = 2, ro_name = ''Live only'', ro_is_admin = False, ro_capabilities = no_caps, ro_camera_ids = [9], ro_created = 0\<rparr>"

definition member :: "uuid \<Rightarrow> string \<Rightarrow> user_role \<Rightarrow> uuid \<Rightarrow> user" where
  "member i name r rid = \<lparr>us_id = i, us_username = name, us_password_hash = ''secret'', us_role = r, us_camera_ids = [], us_role_id = Some rid\<rparr>"

definition office :: auth_world where
  "office = \<lparr>aw_users = [member 1 ''ann'' Admin 1, member 2 ''bob'' Admin 1, member 3 ''eve'' Viewer 2], aw_roles = [admin_role, live_only],
     aw_sessions = [], aw_calls = 0, aw_uuids = 0, aw_revoked = [], aw_revoked_at = 0, aw_session_cache = [], aw_roles_cache = [],
     aw_handoffs = [], aw_logins = no_logins\<rparr>"

definition plain_request :: request where
  "plain_request = \<lparr>rq_authorization = None, rq_query = None, rq_user_agent = None, rq_forwarded = [], rq_peer = None\<rparr>"

definition boss :: auth_user where
  "boss = \<lparr>au_user_id = 1, au_role = Admin, au_camera_ids = [], au_capabilities = all_caps, au_role_id = Some 1, au_jti = Some 50, au_media_scoped = False\<rparr>"

lemma an_admin_remains_witness:
  "staffed (aw_users (fold (serve calm_tokens) [Delete_User 1, Delete_User 2] office)) \<and>
   (\<forall>resp. fst (bootstrap_admin calm_tokens plain_request ''mallory'' ''password''
      (fold (serve calm_tokens) [Delete_User 1, Delete_User 2] office)) \<noteq> Inr resp)"
proof -
  have "staffed (aw_users office)" by code_simp
  from an_admin_remains [OF this] show ?thesis by blast
qed

end
