(* ===== verification/AdminRaces.thy ===== *)
theory AdminRaces
  imports LastAdmin
begin

text \<open>
  What the guard of the last administrator does not cover: two requests at once, and the legacy role of an account
  that has a permission role.
\<close>

definition answering :: "account_env \<Rightarrow> bool" where
  "answering e \<longleftrightarrow> (\<forall>n. ae_reply e n = Answered)"

lemma statement_answered:
  "answering e \<Longrightarrow> statement e c body w =
     (case body (w\<lparr>aw_calls := Suc (aw_calls w)\<rparr>) of
        Inl u \<Rightarrow> (Inl \<lparr>de_context = c, de_unique = u\<rparr>, w\<lparr>aw_calls := Suc (aw_calls w)\<rparr>)
      | Inr (a, w2) \<Rightarrow> (Inr a, w2))"
  by (simp add: statement_def answering_def Let_def)

lemma query_answered:
  "answering e \<Longrightarrow> query e c f w = (Inr (f (w\<lparr>aw_calls := Suc (aw_calls w)\<rparr>)), w\<lparr>aw_calls := Suc (aw_calls w)\<rparr>)"
  by (simp add: query_def statement_answered)

lemmas calls = andthen_def map_err_def give_def fail_def doing_def ensure_def or_else_fail_def

lemma find_by_id: "distinct (map us_id us) \<Longrightarrow> u \<in> set us \<Longrightarrow> List.find (\<lambda>v. us_id v = us_id u) us = Some u"
  by (induction us) (auto simp: image_iff)

lemma users_refreshed: "aw_users (refresh_revoked_jtis e w) = aw_users w"
  by (rule staff.view_refresh)

lemma check_passes:
  assumes "answering e" and "distinct (map us_id (aw_users w))" and "u \<in> set (aw_users w)" and "several_admins (aw_users w)"
  shows "fst (delete_user_check e (us_id u) w) = Inr ()"
  using assms
  by (simp add: delete_user_check_def require_user_def get_user_by_id_def last_admin_guard_def list_users_def query_answered calls
      find_by_id several_admins_def)

lemma act_deletes:
  assumes "answering e"
  shows "fst (delete_user_act e i w) = Inr ()" "aw_users (snd (delete_user_act e i w)) = filter (\<lambda>u. us_id u \<noteq> i) (aw_users w)"
proof -
  obtain n w1 where r: "revoke_all_sessions_for_user e i w = (Inr n, w1)"
    using assms by (auto simp: revoke_all_sessions_for_user_def revoke_where_def statement_answered)
  have "aw_users w1 = aw_users w" by (rule spares_call [OF staff.spares_sessions(2) r])
  then show "fst (delete_user_act e i w) = Inr ()" "aw_users (snd (delete_user_act e i w)) = filter (\<lambda>u. us_id u \<noteq> i) (aw_users w)"
    using assms r by (simp_all add: delete_user_act_def calls db_delete_user_def statement_answered)
qed

lemma spares_delete_check: "aw_users (snd (delete_user_check e i w)) = aw_users w"
proof -
  have "spares aw_users (delete_user_check e i)" unfolding delete_user_check_def by (intro spared)
  then show ?thesis by (simp add: spares_def)
qed

text \<open>C39. The guard is not atomic with the deletion. When the last two administrators are deleted by two
  requests whose checks both run before either deletion, both succeed, and the API then offers the
  unauthenticated bootstrap to anyone.\<close>

theorem concurrent_deletes_leave_no_admin:
  assumes "answering (te_db t)" and "distinct (map us_id (aw_users w))" and "filter (\<lambda>u. us_role u = Admin) (aw_users w) = [a, b]"
  shows "let (ca, w1) = delete_user_check (te_db t) (us_id a) w;
             (cb, w2) = delete_user_check (te_db t) (us_id b) w1;
             (da, w3) = delete_user_act (te_db t) (us_id a) w2;
             (db, w4) = delete_user_act (te_db t) (us_id b) w3
         in ca = Inr () \<and> cb = Inr () \<and> da = Inr () \<and> db = Inr () \<and> fst (needs_bootstrap t w4) = Inr True"
proof -
  let ?e = "te_db t"
  have ab: "a \<in> set (aw_users w)" "b \<in> set (aw_users w)"
    using assms(3) by (metis filter_is_subset list.set_intros subsetD)+
  have admin_ids: "us_id u = us_id a \<or> us_id u = us_id b" if "u \<in> set (aw_users w)" "us_role u = Admin" for u
  proof -
    have "u \<in> set [a, b]" unfolding assms(3) [symmetric] using that by simp
    then show ?thesis by auto
  qed
  obtain ca w1 where s1: "delete_user_check ?e (us_id a) w = (ca, w1)" by force
  obtain cb w2 where s2: "delete_user_check ?e (us_id b) w1 = (cb, w2)" by force
  obtain da w3 where s3: "delete_user_act ?e (us_id a) w2 = (da, w3)" by force
  obtain db w4 where s4: "delete_user_act ?e (us_id b) w3 = (db, w4)" by force
  have several: "several_admins (aw_users w)" by (simp add: several_admins_def assms(3))
  have u1: "aw_users w1 = aw_users w" using spares_delete_check [of ?e "us_id a" w] s1 by simp
  have u2: "aw_users w2 = aw_users w" using spares_delete_check [of ?e "us_id b" w1] s2 u1 by simp
  have "ca = Inr ()" using check_passes [OF assms(1,2) ab(1) several] s1 by simp
  moreover have "cb = Inr ()" using check_passes [OF assms(1), of w1 b] assms(2) ab(2) several u1 s2 by simp
  moreover have "da = Inr ()" "aw_users w3 = filter (\<lambda>u. us_id u \<noteq> us_id a) (aw_users w)"
    using act_deletes [OF assms(1), of "us_id a" w2] s3 u2 by simp_all
  moreover from this have "db = Inr ()" "aw_users w4 = filter (\<lambda>u. us_id u \<noteq> us_id b) (filter (\<lambda>u. us_id u \<noteq> us_id a) (aw_users w))"
    using act_deletes [OF assms(1), of "us_id b" w3] s4 by simp_all
  moreover from this have "\<not> any_admin (aw_users w4)" using admin_ids by (auto simp: any_admin_iff)
  then have "fst (needs_bootstrap t w4) = Inr True"
    using assms(1) by (simp add: needs_bootstrap_def list_users_def query_answered calls)
  ultimately show ?thesis using s1 s2 s3 s4 by simp
qed

lemma concurrent_deletes_leave_no_admin_witness:
  "fst (needs_bootstrap calm_tokens
     (snd (delete_user_act calm 2 (snd (delete_user_act calm 1 (snd (delete_user_check calm 2 (snd (delete_user_check calm 1 office))))))))) = Inr True"
proof -
  have "answering (te_db calm_tokens)" by (simp add: answering_def calm_tokens_def calm_def)
  moreover have "distinct (map us_id (aw_users office))" by code_simp
  moreover have "filter (\<lambda>u. us_role u = Admin) (aw_users office) = [member 1 ''ann'' Admin 1, member 2 ''bob'' Admin 1]" by code_simp
  ultimately show ?thesis
    using concurrent_deletes_leave_no_admin [of calm_tokens office "member 1 ''ann'' Admin 1" "member 2 ''bob'' Admin 1"]
    by (simp add: calm_tokens_def member_def Let_def split: prod.splits)
qed

subsection \<open>The legacy role\<close>

definition legacy_demotion :: update_user_request where
  "legacy_demotion = \<lparr>uu_username = None, uu_password = None, uu_role_id = None, uu_role = Some Viewer, uu_camera_ids = None\<rparr>"

lemma demotion_planned:
  assumes "answering e" and "distinct (map us_id (aw_users w))" and "u \<in> set (aw_users w)" and "several_admins (aw_users w)"
  shows "\<exists>w1. update_user_check e (us_id u) legacy_demotion w =
           (Inr \<lparr>up_existing = u, up_hash = None, up_role = Some Viewer, up_role_id = None, up_camera_ids = None\<rparr>, w1)
         \<and> aw_users w1 = aw_users w \<and> aw_roles w1 = aw_roles w \<and> aw_roles_cache w1 = aw_roles_cache w"
  using assms
  by (simp add: update_user_check_def require_user_def get_user_by_id_def last_admin_guard_def list_users_def query_answered calls
      find_by_id several_admins_def legacy_demotion_def if_given_def planned_role_def coalesce_def)

definition same_roles :: "auth_world \<Rightarrow> auth_world \<Rightarrow> bool" where
  "same_roles w w' \<longleftrightarrow> aw_roles w' = aw_roles w \<and> aw_roles_cache w' = aw_roles_cache w"

lemma end_sessions_answered:
  assumes "answering e"
  shows "\<exists>w1. end_sessions e admin i w = (Inr (), w1) \<and> same_roles w w1"
  using assms
  by (auto simp: end_sessions_def revoke_other_sessions_for_user_def revoke_all_sessions_for_user_def revoke_where_def statement_answered
      calls refresh_revoked_jtis_def list_revoked_jtis_def query_answered same_roles_def Let_def split: option.split)

text \<open>Taking the administrator role away through the legacy field does not take it away. The request
  succeeds and answers with a viewer, but the account keeps its permission role, and the role of the
  next session is still administrator, with every capability.\<close>

theorem legacy_demotion_keeps_admin:
  assumes "answering (te_db t)" and "distinct (map us_id (aw_users w))" and "u \<in> set (aw_users w)" and "several_admins (aw_users w)"
    and "us_role_id u = Some i" and "List.find (\<lambda>r. ro_id r = i) (aw_roles w) = Some r" and "ro_is_admin r"
    and "map_of (aw_roles_cache w) i = None" and "distinct (map us_username (aw_users w))" and admin: "us_role u = Admin"
  shows "\<exists>u' w'. update_user_route (te_db t) admin (us_id u) legacy_demotion w = (Inr u', w') \<and> us_role u' = Viewer \<and>
           fst (effective_role t (us_role_id u') (us_role u') own w') = Inr (Admin, [], all_caps)"
proof -
  let ?e = "te_db t"
  let ?p = "\<lparr>up_existing = u, up_hash = None, up_role = Some Viewer, up_role_id = None, up_camera_ids = None\<rparr>"
  obtain w1 where chk: "update_user_check ?e (us_id u) legacy_demotion w = (Inr ?p, w1)"
    and w1: "aw_users w1 = aw_users w" "same_roles w w1"
    using demotion_planned [OF assms(1-4)] by (auto simp: same_roles_def)
  define u' where "u' = u\<lparr>us_role := Viewer\<rparr>"
  have "\<not> (\<exists>v\<in>set (aw_users w1). us_id v \<noteq> us_id u \<and> us_username v = us_username u)"
    using assms(3,9) w1(1) by (metis (no_types, lifting) distinct_map inj_onD)
  moreover have "List.find (\<lambda>v. us_id v = us_id u) (aw_users w1) = Some u" using find_by_id assms(2,3) w1(1) by metis
  ultimately obtain w2 where row: "db_update_user ?e (us_id u) None None (Some Viewer) None None w1 = (Inr u', w2)" and w2: "same_roles w1 w2"
    using assms(1) by (auto simp: db_update_user_def statement_answered coalesce_def Let_def role_exists_def same_roles_def u'_def)
  obtain w3 where fin: "end_sessions ?e admin (us_id u) w2 = (Inr (), w3)" and w3: "same_roles w2 w3"
    using end_sessions_answered [OF assms(1)] by blast
  have changed: "account_changed ?p" using admin by (simp add: account_changed_def)
  let ?w4 = "invalidate_session_cache w3"
  have "update_user_route ?e admin (us_id u) legacy_demotion w = (Inr u', ?w4)"
    using chk row fin changed by (simp add: update_user_route_def update_user_act_def calls legacy_demotion_def)
  moreover have "same_roles w ?w4" using w1(2) w2 w3 by (simp add: same_roles_def invalidate_session_cache_def)
  then have "fst (effective_role t (us_role_id u') (us_role u') own ?w4) = Inr (Admin, [], all_caps)"
    using assms(1,5-8) by (simp add: effective_role_def role_by_id_def db_get_role_def query_answered same_roles_def u'_def
        mirror_of_def effective_caps_def)
  ultimately show ?thesis by (auto simp: u'_def)
qed

lemma legacy_demotion_keeps_admin_witness:
  "\<exists>u' w'. update_user_route calm boss 1 legacy_demotion office = (Inr u', w') \<and> us_role u' = Viewer \<and>
     fst (effective_role calm_tokens (us_role_id u') (us_role u') [] w') = Inr (Admin, [], all_caps)"
proof -
  let ?u = "member 1 ''ann'' Admin 1"
  have "answering (te_db calm_tokens)" by (simp add: answering_def calm_tokens_def calm_def)
  moreover have "distinct (map us_id (aw_users office))" "?u \<in> set (aw_users office)" "several_admins (aw_users office)"
      "us_role_id ?u = Some 1" "List.find (\<lambda>r. ro_id r = 1) (aw_roles office) = Some admin_role" "ro_is_admin admin_role"
      "map_of (aw_roles_cache office) 1 = None" "distinct (map us_username (aw_users office))" "us_role ?u = Admin"
    by (simp_all add: office_def member_def several_admins_def admin_role_def)
  ultimately show ?thesis
    using legacy_demotion_keeps_admin [of calm_tokens office ?u 1 admin_role boss "[]"] by (simp add: calm_tokens_def member_def)
qed

subsection \<open>Duplicate names\<close>

lemma statement_context: "statement e c body w = (Inl x, w') \<Longrightarrow> de_context x = c"
  by (auto simp: statement_def Let_def split: reply.splits sum.splits prod.splits)

lemma not_duplicate:
  "de_context x = ''create_role'' \<Longrightarrow> duplicate_by_message x = Internal"
  "de_context x = ''update_role'' \<Longrightarrow> duplicate_by_message x = Internal"
  "de_context x = ''create_user'' \<Longrightarrow> duplicate_by_message x = Internal"
  by (simp_all add: duplicate_by_message_def)

lemma mapped_duplicate:
  assumes "c \<in> {''create_role'', ''update_role'', ''create_user''}"
  shows "fst (map_err duplicate_by_message (statement e c body) w) \<noteq> Inl Conflict"
proof (cases "statement e c body w")
  case (Pair r w')
  show ?thesis
  proof (cases r)
    case (Inl x)
    then have "duplicate_by_message x = Internal" using statement_context [of e c body w x w'] assms Pair not_duplicate by auto
    then show ?thesis using Pair Inl by (simp add: map_err_def)
  next
    case (Inr a)
    then show ?thesis using Pair by (simp add: map_err_def)
  qed
qed

lemma never_andthen:
  assumes "\<And>w. fst (m w) \<noteq> Inl x" and "\<And>a w. fst (f a w) \<noteq> Inl x"
  shows "fst (andthen m f w) \<noteq> Inl x"
  using assms(1) [of w] assms(2) by (auto simp: andthen_def split: prod.split sum.split)

text \<open>A name that is already taken is never reported as such. The handlers that create and rename roles look for
  the duplicate in the text of the error, which holds only the context of the outermost layer, so the promised
  conflict never comes back and the caller gets an internal error.\<close>

theorem duplicate_role_never_conflicts:
  "fst (create_role_route e body w) \<noteq> Inl Conflict \<and> fst (update_role_route e i changes w) \<noteq> Inl Conflict"
proof -
  have "fst (create_role_route e body w) \<noteq> Inl Conflict"
    unfolding create_role_route_def Let_def db_create_role_def
    by (intro never_andthen mapped_duplicate) (simp_all add: ensure_def give_def fail_def doing_def)
  moreover have "fst (update_role_route e i changes w) \<noteq> Inl Conflict"
    unfolding update_role_route_def db_update_role_def
    by (intro never_andthen mapped_duplicate) (simp_all add: ensure_def or_else_fail_def give_def fail_def doing_def split: option.split)
  ultimately show ?thesis ..
qed

end
