(* ===== verification/TokenSafety.thy ===== *)
theory TokenSafety
  imports AdminRaces
begin

text \<open>
  What the two kinds of token are worth: a login token is the account it was issued to, a media token is one
  camera, and neither can be used as the other.
\<close>

lemma claims_roundtrip:
  "cl_exp c \<le> u64_max \<Longrightarrow> cl_iat c \<le> u64_max \<Longrightarrow> claims_of_json (json_of_claims c) = Some c"
  by (cases c) (auto simp: claims_of_json_def json_of_claims_def str_field_def strs_field_def num_field_def opt_str_field_def opt_json_def
      split: option.split)

lemma media_claims_roundtrip:
  "mc_exp c \<le> u64_max \<Longrightarrow> mc_iat c \<le> u64_max \<Longrightarrow> media_claims_of_json (json_of_media_claims c) = Some c"
  by (cases c) (auto simp: media_claims_of_json_def json_of_media_claims_def str_field_def num_field_def flag_field_def)

lemma not_media: "media_claims_of_json (json_of_claims c) = None"
  by (simp add: media_claims_of_json_def json_of_claims_def str_field_def)

lemma not_login: "claims_of_json (json_of_media_claims c) = None"
  by (auto simp: claims_of_json_def json_of_media_claims_def str_field_def num_field_def)

lemma bearer_token: "rq_authorization rq = Some (''Bearer '' @ tok) \<Longrightarrow> presented_token rq = give (tok, False)"
  by (simp add: presented_token_def strip_prefix_def)

lemma query_token: "rq_authorization rq = None \<Longrightarrow> token_from_query (rq_query rq) = Some tok \<Longrightarrow> presented_token rq = give (tok, True)"
  by (simp add: presented_token_def)

text \<open>C25. The two kinds of token are never confused. A login token in a URL is refused, and a media token in the
  \<open>Authorization\<close> header is refused, whatever claims they carry.\<close>

theorem tokens_never_confused:
  assumes "rq_authorization in_url = None" and "token_from_query (rq_query in_url) = Some login_token"
    and "te_open t login_token (now_at (te_db t) w) = Some (json_of_claims c)"
    and "rq_authorization in_header = Some (''Bearer '' @ media_tok)"
    and "te_open t media_tok (now_at (te_db t) w) = Some (json_of_media_claims m)"
  shows "authenticate t in_url w = (Inl Unauthorized, w) \<and> authenticate t in_header w = (Inl Unauthorized, w)"
proof -
  have "try_media_token t login_token w = None" by (simp add: try_media_token_def assms(3) not_media)
  then have "authenticate t in_url w = (Inl Unauthorized, w)"
    using query_token [OF assms(1,2)] by (simp add: authenticate_def andthen_def give_def fail_def)
  moreover have "authenticate t in_header w = (Inl Unauthorized, w)"
    using bearer_token [OF assms(4)] assms(5)
    by (simp add: authenticate_def andthen_def give_def fail_def full_session_def decode_claims_def or_else_fail_def not_login)
  ultimately show ?thesis ..
qed

subsection \<open>Media tokens\<close>

definition no_more_than :: "auth_user \<Rightarrow> auth_user \<Rightarrow> bool" where
  "no_more_than p u \<longleftrightarrow>
     (can_export p \<longrightarrow> cap_export (au_capabilities u)) \<and> (can_playback p \<longrightarrow> cap_playback (au_capabilities u)) \<and>
     (can_clips p \<longrightarrow> cap_clips (au_capabilities u)) \<and> (can_view_plates p \<longrightarrow> cap_view_plates (au_capabilities u)) \<and>
     \<not> can_ptz p \<and> \<not> can_manage_views p \<and> \<not> can_actuators p \<and> \<not> can_manage_channels p \<and> bookmarks_scope p = No_Bookmarks"

text \<open>C19. A media token grants one camera of its minter and nothing its minter did not have. Whoever presents it
  gets a viewer of that one camera with at most the minter's media capabilities, and only on the routes that ask for
  it: the other extractors refuse it.\<close>

theorem media_token_grants_no_more:
  assumes "media_token t u cam w = (Inr (tok, cam', expires), w1)"
    and sealed: "\<And>j x. te_sign t j = Some tok \<Longrightarrow> te_open t tok x \<in> {None, Some j}"
    and uuids: "\<And>i. te_parse_uuid t (te_show_uuid t i) = Some i"
    and "rq_authorization rq = None" and "token_from_query (rq_query rq) = Some tok"
    and auth: "media_or_full_extractor t rq w2 = (Inr p, w3)"
  shows "can_access_camera u cam \<and> au_user_id p = au_user_id u \<and> (\<forall>c. can_access_camera p c \<longleftrightarrow> c = cam) \<and> no_more_than p u
    \<and> auth_user_extractor t rq w2 = (Inl Forbidden, w3) \<and> admin_extractor t rq w2 = (Inl Forbidden, w3)"
proof -
  have access: "can_access_camera u cam"
    using assms(1) by (auto simp: media_token_def assert_camera_access_def andthen_def fail_def split: if_splits)
  obtain now x where "te_sign t (json_of_media_claims (media_claims_for t u cam now x)) = Some tok"
    using assms(1) access
    by (auto simp: media_token_def assert_camera_access_def andthen_def give_def or_else_fail_def fail_def Let_def split: option.splits)
  then have opened: "te_open t tok y \<in> {None, Some (json_of_media_claims (media_claims_for t u cam now x))}" for y
    by (rule sealed)
  have tried: "try_media_token t tok w2 = Some p" "w3 = w2"
    using auth query_token [OF assms(4,5)]
    by (auto simp: media_or_full_extractor_def authenticate_def andthen_def give_def fail_def split: option.splits)
  have p: "p = \<lparr>au_user_id = au_user_id u, au_role = Viewer, au_camera_ids = [cam],
      au_capabilities = media_capabilities_from_claims (media_claims_for t u cam now x), au_role_id = None, au_jti = None, au_media_scoped = True\<rparr>"
  proof -
    have "media_claims_of_json (json_of_media_claims m) = None \<or> media_claims_of_json (json_of_media_claims m) = Some m" for m
      by (cases m) (auto simp: media_claims_of_json_def json_of_media_claims_def str_field_def num_field_def flag_field_def)
    from this [of "media_claims_for t u cam now x"] show ?thesis
      using tried(1) opened [of "now_at (te_db t) w2"] uuids
      by (auto simp: try_media_token_def media_claims_for_def media_token_typ_def split: option.splits bind_splits)
  qed
  have "auth_user_extractor t rq w2 = (Inl Forbidden, w3)"
    using auth p by (simp add: auth_user_extractor_def media_or_full_extractor_def andthen_def fail_def)
  then show ?thesis
    using access p
    by (simp add: admin_extractor_def andthen_def can_access_camera_def no_more_than_def is_admin_def can_export_def can_playback_def
        can_clips_def can_view_plates_def can_ptz_def can_manage_views_def can_actuators_def can_manage_channels_def bookmarks_scope_def
        media_capabilities_from_claims_def media_claims_for_def)
qed

subsection \<open>Login tokens\<close>

lemma new_session:
  assumes "mint_token t u long_lived label ip w = (Inr resp, w1)"
  shows "\<exists>s. aw_sessions w1 = aw_sessions w @ [s] \<and> se_jti s = ae_uuid (te_db t) (aw_uuids w) \<and> se_user s = us_id u \<and> se_revoked s = None
      \<and> se_jti s \<notin> se_jti ` set (aw_sessions w) \<and> aw_users w1 = aw_users w \<and> aw_roles w1 = aw_roles w
      \<and> aw_revoked w1 = aw_revoked w \<and> aw_session_cache w1 = aw_session_cache w \<and> aw_roles_cache w1 = aw_roles_cache w"
    and "te_sign t (json_of_claims (minted_claims t u (ae_uuid (te_db t) (aw_uuids w)) (now_at (te_db t) w) (lr_expires_at resp))) = Some (lr_token resp)"
  using assms
  by (auto simp: mint_token_def new_uuid_def Let_def calls create_session_def statement_def split: option.splits reply.splits if_splits sum.splits)

lemma not_revoked:
  assumes "jti \<notin> set (aw_revoked w)" and "\<And>s. s \<in> set (aw_sessions w) \<Longrightarrow> se_jti s = jti \<Longrightarrow> se_revoked s = None"
  shows "\<not> fst (is_jti_revoked e jti w)"
proof -
  have "jti \<notin> set (aw_revoked (refresh_revoked_jtis e w))"
    using assms by (auto simp: refresh_revoked_jtis_def list_revoked_jtis_def query_def statement_def Let_def split: reply.split)
  then show ?thesis using assms(1) by (simp add: is_jti_revoked_def Let_def)
qed

lemma check_keeps_rows:
  "aw_sessions (snd (is_jti_revoked e jti w)) = aw_sessions w \<and> aw_roles (snd (is_jti_revoked e jti w)) = aw_roles w \<and>
   aw_session_cache (snd (is_jti_revoked e jti w)) = aw_session_cache w \<and> aw_roles_cache (snd (is_jti_revoked e jti w)) = aw_roles_cache w"
  by (auto simp: is_jti_revoked_def refresh_revoked_jtis_def list_revoked_jtis_def query_def statement_def Let_def split: reply.split)

lemma live_new_row:
  assumes "aw_sessions w = ss @ [s]" and "se_jti s \<notin> se_jti ` set ss" and "se_revoked s = None"
    and "se_user s = us_id u" and "u \<in> set (aw_users w)" and "distinct (map us_id (aw_users w))"
  shows "live_row (se_jti s) (us_id u) w = Some (us_camera_ids u)"
proof -
  have "List.find (\<lambda>x. se_jti x = se_jti s \<and> se_user x = us_id u \<and> se_revoked x = None) (ss @ [s]) = Some s"
    using assms(2-4) by (induction ss) auto
  then show ?thesis using find_by_id [OF assms(6,5)] assms(1,4) by (simp add: live_row_def)
qed

text \<open>C21. A login token is the account it was minted for, while the database answers. Presented right
  after it was issued and before it expires, with every statement answered, it gives a principal with
  that user, that session, the role and the capabilities of the user's permission role, and the cameras
  of the role together with those of the user. The permission role is the one in the roles cache when
  the cache holds it (the usual case), else the row that the database has; the session id is fresh (not
  yet cached or revoked) and the token's instants fit in the claims' 64 bits.\<close>

theorem login_token_round_trip:
  assumes mint: "mint_token t u long_lived label ip w = (Inr resp, w1)"
    and sealed: "\<And>j x. te_sign t j = Some (lr_token resp) \<Longrightarrow> x < lr_expires_at resp \<Longrightarrow> te_open t (lr_token resp) x = Some j"
    and uuids: "\<And>i. te_parse_uuid t (te_show_uuid t i) = Some i"
    and up: "answering (te_db t)" and user: "u \<in> set (aw_users w)" "distinct (map us_id (aw_users w))"
    and role: "us_role_id u = Some i"
      "map_of (aw_roles_cache w) i = Some r \<or>
       map_of (aw_roles_cache w) i = None \<and> List.find (\<lambda>r. ro_id r = i) (aw_roles w) = Some r"
    and fresh: "ae_uuid (te_db t) (aw_uuids w) \<notin> set (aw_revoked w)" "map_of (aw_session_cache w) (ae_uuid (te_db t) (aw_uuids w)) = None"
    and times: "unix_u64 (lr_expires_at resp) \<le> u64_max" "unix_u64 (now_at (te_db t) w) \<le> u64_max" "now_at (te_db t) w1 < lr_expires_at resp"
    and header: "rq_authorization rq = Some (''Bearer '' @ lr_token resp)"
  shows "fst (auth_user_extractor t rq w1) = Inr
     \<lparr>au_user_id = us_id u, au_role = mirror_of r,
      au_camera_ids = (if ro_is_admin r then [] else merge_cameras (ro_camera_ids r) (us_camera_ids u)),
      au_capabilities = effective_caps r, au_role_id = Some i, au_jti = Some (ae_uuid (te_db t) (aw_uuids w)), au_media_scoped = False\<rparr>"
proof -
  let ?e = "te_db t" and ?jti = "ae_uuid (te_db t) (aw_uuids w)"
  let ?c = "minted_claims t u ?jti (now_at ?e w) (lr_expires_at resp)"
  obtain s where s: "aw_sessions w1 = aw_sessions w @ [s]" "se_jti s = ?jti" "se_user s = us_id u" "se_revoked s = None"
      "se_jti s \<notin> se_jti ` set (aw_sessions w)" "aw_users w1 = aw_users w" "aw_roles w1 = aw_roles w" "aw_revoked w1 = aw_revoked w"
      "aw_session_cache w1 = aw_session_cache w" "aw_roles_cache w1 = aw_roles_cache w"
    using new_session(1) [OF mint] by blast
  have "te_open t (lr_token resp) (now_at ?e w1) = Some (json_of_claims ?c)"
    by (rule sealed [OF new_session(2) [OF mint] times(3)])
  moreover have "claims_of_json (json_of_claims ?c) = Some ?c"
    by (rule claims_roundtrip) (simp_all add: minted_claims_def times)
  ultimately have decoded: "decode_claims t (lr_token resp) w1 = (Inr ?c, w1)" by (simp add: decode_claims_def calls)
  obtain revoked w2 where chk: "is_jti_revoked ?e ?jti w1 = (revoked, w2)" by force
  have "se_revoked x = None" if "x \<in> set (aw_sessions w1)" "se_jti x = ?jti" for x
    using that s(1,2,4,5) by (auto simp: image_iff)
  then have "\<not> revoked"
    using not_revoked [of ?jti w1 ?e] chk fresh(1) s(8) by simp
  then have jti: "session_of_claims t ?c w1 = (Inr ?jti, w2)"
    using chk uuids by (simp add: session_of_claims_def minted_claims_def calls)
  have w2: "aw_users w2 = aw_users w1" "aw_sessions w2 = aw_sessions w1" "aw_roles w2 = aw_roles w1" "aw_session_cache w2 = aw_session_cache w1"
      "aw_roles_cache w2 = aw_roles_cache w1"
    using staff.view_caches(5) [of ?e ?jti w1] check_keeps_rows [of ?e ?jti w1] chk by simp_all
  have live: "live_row ?jti (us_id u) (w2\<lparr>aw_calls := n\<rparr>) = Some (us_camera_ids u)" for n
    using live_new_row [of "w2\<lparr>aw_calls := n\<rparr>" "aw_sessions w" s u] s user w2 by simp
  obtain w3 where own: "resolve_session ?e ?jti (us_id u) w2 = (Inr (Some (us_camera_ids u)), w3)"
      and w3: "aw_roles w3 = aw_roles w2" "aw_roles_cache w3 = aw_roles_cache w2"
    using live fresh(2) s(9) w2(4) up
    by (auto simp: resolve_session_def cached_session_def resolve_live_session_def query_answered calls cache_session_def Let_def)
  have "effective_role t (Some i) (us_role u) (us_camera_ids u) w3 = (Inr (mirror_of r,
      if ro_is_admin r then [] else merge_cameras (ro_camera_ids r) (us_camera_ids u), effective_caps r), snd (role_by_id ?e i w3))"
    using up role s(7,10) w2 w3
    by (auto simp: effective_role_def role_by_id_def db_get_role_def query_answered split: option.split)
  moreover have "role_from_str (role_as_str (us_role u)) = Some (us_role u)"
    by (cases "us_role u") (simp_all add: role_as_str_def role_from_str_def)
  ultimately have "fst (full_session t (lr_token resp) w1) = Inr
     \<lparr>au_user_id = us_id u, au_role = mirror_of r,
      au_camera_ids = (if ro_is_admin r then [] else merge_cameras (ro_camera_ids r) (us_camera_ids u)),
      au_capabilities = effective_caps r, au_role_id = Some i, au_jti = Some ?jti, au_media_scoped = False\<rparr>"
    using decoded jti own role(1) uuids
    by (simp add: full_session_def andthen_def [abs_def] or_else_fail_def map_err_def if_given_def give_def minted_claims_def)
  then show ?thesis
    using bearer_token [OF header]
    by (auto simp: auth_user_extractor_def authenticate_def andthen_def give_def split: prod.splits sum.splits)
qed

subsection \<open>Names that cannot sign in\<close>

lemma dropWhile_idem: "dropWhile P (dropWhile P xs) = dropWhile P xs"
  by (induction xs) auto

lemma trim_idem: "trim (trim s) = trim s"
proof -
  define a where "a = dropWhile is_space s"
  define b where "b = dropWhile is_space (rev a)"
  have "a = rev b @ rev (takeWhile is_space (rev a))"
    unfolding b_def by (metis rev_append rev_rev_ident takeWhile_dropWhile_id)
  moreover have "a \<noteq> [] \<Longrightarrow> \<not> is_space (hd a)" unfolding a_def by (rule hd_dropWhile)
  ultimately have "rev b \<noteq> [] \<Longrightarrow> \<not> is_space (hd (rev b))" by (metis append_is_Nil_conv hd_append2)
  then have "dropWhile is_space (rev b) = rev b" by (cases "rev b") auto
  moreover have "dropWhile is_space b = b" unfolding b_def by (rule dropWhile_idem)
  ultimately show ?thesis by (simp add: trim_def a_def [symmetric] b_def [symmetric])
qed

lemma login_sessions:
  "aw_sessions (snd (login t rq name pw r w)) = aw_sessions w \<or>
   (\<exists>u s. u \<in> set (aw_users w) \<and> us_username u = trim name \<and> aw_sessions (snd (login t rq name pw r w)) = aw_sessions w @ [s] \<and> se_user s = us_id u)"
proof (cases "aw_sessions (snd (login t rq name pw r w)) = aw_sessions w")
  case False
  let ?client = "client_key (te_show_ip t) (te_net t) (te_trust t) (rq_forwarded rq) (rq_peer rq)"
  let ?found = "List.find (\<lambda>u. us_username u = trim name) (aw_users w)"
  define w1 where "w1 = w\<lparr>aw_calls := Suc (aw_calls w), aw_logins := record_login_success (trim name) ?client (aw_logins w)\<rparr>"
  have same: "aw_sessions w1 = aw_sessions w" by (simp add: w1_def)
  have asked: "trim name \<noteq> []" "pw \<noteq> []" "login_retry_after (trim name) ?client (now_at (te_db t) w) (aw_logins w) = None"
      "ae_reply (te_db t) (aw_calls w) = Answered"
    using False by (auto simp: login_def calls get_user_by_username_def query_def statement_def Let_def split: option.splits reply.splits if_splits)
  obtain u where u: "?found = Some u" "ae_verify (te_db t) pw (us_password_hash u)"
    using False asked by (auto simp: login_def calls get_user_by_username_def query_def statement_def Let_def split: option.splits if_splits)
  have out: "aw_sessions (snd (login t rq name pw r w)) = aw_sessions (snd (mint_for t rq u r w1))"
    using asked u by (simp add: login_def calls get_user_by_username_def query_def statement_def Let_def w1_def)
  obtain res w2 where m: "mint_for t rq u r w1 = (res, w2)" by force
  have "aw_sessions w2 = aw_sessions w1 \<or> (\<exists>s. aw_sessions w2 = aw_sessions w1 @ [s] \<and> se_user s = us_id u)"
    using m by (auto simp: mint_for_def mint_token_def new_uuid_def Let_def calls create_session_def statement_def
        split: option.splits reply.splits if_splits sum.splits)
  moreover have "u \<in> set (aw_users w)" "us_username u = trim name" using u by (auto simp: find_Some_iff)
  ultimately show ?thesis using m out same False by auto
qed simp

text \<open>An account whose name has outer white space cannot sign in. Creating such an account succeeds (only the check for
  an empty name trims it), but signing in looks up the trimmed name, so no sign-in ever opens a session for it.\<close>

theorem untrimmed_account_cannot_sign_in:
  assumes "u \<in> set (aw_users w)" and "distinct (map us_id (aw_users w))" and "trim (us_username u) \<noteq> us_username u"
    and "s \<in> set (aw_sessions (snd (login t rq name pw r w)))" and "se_user s = us_id u"
  shows "s \<in> set (aw_sessions w)"
proof -
  have "u' \<noteq> u" if "us_username u' = trim name" for u' using that assms(3) trim_idem by metis
  then have "us_id u' \<noteq> us_id u" if "u' \<in> set (aw_users w)" "us_username u' = trim name" for u'
    using that assms(1) same_user [OF assms(2)] by blast
  then show ?thesis using login_sessions [of t rq name pw r w] assms(4,5) by auto
qed

end
