(* ===== verification/TokenSamples.thy ===== *)
theory TokenSamples
  imports TokenSafety
begin

text \<open>
  The token properties on a sample installation, and what a failed role lookup gives to a restricted viewer.
\<close>

definition eve :: user where "eve = member 3 ''eve'' Viewer 2"

definition eve_claims :: claims where
  "eve_claims = minted_claims calm_tokens eve 100 (seconds 1000) (seconds 87400)"

definition eve_principal :: auth_user where
  "eve_principal = \<lparr>au_user_id = 3, au_role = Viewer, au_camera_ids = [9], au_capabilities = no_caps, au_role_id = Some 2,
     au_jti = Some 100, au_media_scoped = False\<rparr>"

definition eve_media :: media_claims where
  "eve_media = media_claims_for calm_tokens eve_principal 9 (seconds 1000) (seconds 1900)"

definition sealing :: token_env where
  "sealing = calm_tokens\<lparr>
     te_sign := (\<lambda>j. if j = json_of_claims eve_claims then Some ''L'' else if j = json_of_media_claims eve_media then Some ''M'' else None),
     te_open := (\<lambda>tok x. if x < seconds 1900 \<and> tok = ''M'' then Some (json_of_media_claims eve_media)
                       else if x < seconds 87400 \<and> tok = ''L'' then Some (json_of_claims eve_claims) else None)\<rparr>"

definition bearer :: "string \<Rightarrow> request" where
  "bearer tok = plain_request\<lparr>rq_authorization := Some (''Bearer '' @ tok)\<rparr>"

definition in_query :: "string \<Rightarrow> request" where
  "in_query tok = plain_request\<lparr>rq_query := Some (''w=320&token='' @ tok)\<rparr>"

lemma distinct_kinds: "json_of_claims c \<noteq> json_of_media_claims m"
  by (simp add: json_of_claims_def json_of_media_claims_def)

lemma unary_roundtrip: "of_unary (unary i) = Some i"
  by (simp add: of_unary_def unary_def list_all_iff)

lemma queried: "token_from_query (rq_query (in_query ''L'')) = Some ''L''" "token_from_query (rq_query (in_query ''M'')) = Some ''M''"
  by code_simp+

lemma sealing_simps [simp]:
  "te_db sealing = calm" "te_show_uuid sealing = unary" "te_parse_uuid sealing = of_unary" "te_jwt_expiry_seconds sealing = 86400"
  by (simp_all add: sealing_def calm_tokens_def)

lemma calm_answers: "answering calm"
  by (simp add: answering_def calm_def)

lemma tokens_never_confused_witness:
  "authenticate sealing (in_query ''L'') office = (Inl Unauthorized, office) \<and> authenticate sealing (bearer ''M'') office = (Inl Unauthorized, office)"
proof (rule tokens_never_confused)
  show "rq_authorization (in_query ''L'') = None" by (simp add: in_query_def plain_request_def)
  show "token_from_query (rq_query (in_query ''L'')) = Some ''L''" by (rule queried)
  show "te_open sealing ''L'' (now_at (te_db sealing) office) = Some (json_of_claims eve_claims)"
    by (simp add: sealing_def now_at_def calm_tokens_def calm_def)
  show "rq_authorization (bearer ''M'') = Some (''Bearer '' @ ''M'')" by (simp add: bearer_def)
  show "te_open sealing ''M'' (now_at (te_db sealing) office) = Some (json_of_media_claims eve_media)"
    by (simp add: sealing_def now_at_def calm_tokens_def calm_def)
qed

lemma media_minted: "media_token sealing eve_principal 9 office = (Inr (''M'', 9, seconds 1900), office)"
proof -
  have "media_claims_for sealing eve_principal 9 (now_at calm office) (seconds 1900) = eve_media"
    by (simp add: eve_media_def media_claims_for_def now_at_def calm_def calm_tokens_def)
  moreover have "expiry_after sealing (now_at calm office) media_token_expiry_seconds = seconds 1900"
    by (simp add: expiry_after_def sealing_def calm_tokens_def now_at_def calm_def media_token_expiry_seconds_def seconds_def)
  moreover have "te_sign sealing (json_of_media_claims eve_media) = Some ''M''"
    using distinct_kinds [of eve_claims eve_media] by (auto simp: sealing_def)
  moreover have "can_access_camera eve_principal 9" by (simp add: can_access_camera_def eve_principal_def)
  ultimately show ?thesis by (simp add: media_token_def assert_camera_access_def calls Let_def)
qed

lemma media_token_grants_no_more_witness:
  "\<exists>p. media_or_full_extractor sealing (in_query ''M'') office = (Inr p, office) \<and> no_more_than p eve_principal \<and>
     auth_user_extractor sealing (in_query ''M'') office = (Inl Forbidden, office)"
proof -
  let ?p = "\<lparr>au_user_id = 3, au_role = Viewer, au_camera_ids = [9], au_capabilities = media_capabilities_from_claims eve_media,
     au_role_id = None, au_jti = None, au_media_scoped = True\<rparr>"
  have "media_claims_of_json (json_of_media_claims eve_media) = Some eve_media"
    by (rule media_claims_roundtrip)
      (simp_all add: eve_media_def media_claims_for_def unix_u64_def timestamp_def seconds_def u64_max_def)
  then have "try_media_token sealing ''M'' office = Some ?p"
    by (simp add: try_media_token_def sealing_def now_at_def calm_tokens_def calm_def eve_media_def media_claims_for_def
        unary_roundtrip eve_principal_def)
  then have auth: "media_or_full_extractor sealing (in_query ''M'') office = (Inr ?p, office)"
    using query_token [OF _ queried(2)]
    by (simp add: media_or_full_extractor_def authenticate_def calls in_query_def plain_request_def)
  have "te_open sealing ''M'' x \<in> {None, Some j}" if "te_sign sealing j = Some ''M''" for j x
    using that by (auto simp: sealing_def split: if_splits)
  from media_token_grants_no_more [OF media_minted this _ _ queried(2) auth] show ?thesis
    using auth by (simp add: unary_roundtrip in_query_def plain_request_def)
qed

lemma login_token_round_trip_witness:
  "\<exists>resp w1. mint_token sealing eve False None None office = (Inr resp, w1) \<and>
     fst (auth_user_extractor sealing (bearer (lr_token resp)) w1) = Inr eve_principal"
proof -
  have now: "now_at calm w = seconds 1000" for w by (simp add: now_at_def calm_def)
  have "expiry_after sealing (seconds 1000) 86400 = seconds 87400"
    by (simp add: expiry_after_def sealing_def calm_tokens_def seconds_def)
  moreover have "te_sign sealing (json_of_claims (minted_claims sealing eve 100 (seconds 1000) (seconds 87400))) = Some ''L''"
    by (simp add: sealing_def eve_claims_def minted_claims_def calm_tokens_def)
  moreover have "3 \<in> us_id ` set (aw_users office)" by (simp add: office_def member_def)
  ultimately obtain w1 where mint: "mint_token sealing eve False None None office = (Inr \<lparr>lr_token = ''L'', lr_expires_at = seconds 87400\<rparr>, w1)"
    using calm_answers now
    by (simp add: mint_token_def new_uuid_def calls create_session_def statement_answered office_def eve_def member_def calm_def i64_max_def Let_def)
  have sealed: "te_open sealing ''L'' x = Some j" if "te_sign sealing j = Some ''L''" "x < seconds 87400" for j x
    using that by (auto simp: sealing_def split: if_splits)
  have "fst (auth_user_extractor sealing (bearer ''L'') w1) = Inr
     \<lparr>au_user_id = us_id eve, au_role = mirror_of live_only,
      au_camera_ids = (if ro_is_admin live_only then [] else merge_cameras (ro_camera_ids live_only) (us_camera_ids eve)),
      au_capabilities = effective_caps live_only, au_role_id = Some 2, au_jti = Some (ae_uuid (te_db sealing) (aw_uuids office)), au_media_scoped = False\<rparr>"
  proof (rule login_token_round_trip [OF mint], goal_cases)
    case (1 j x)
    then show ?case using sealed [of j x] by simp
  qed (simp_all add: unary_roundtrip answering_def now_at_def unix_u64_def timestamp_def seconds_def u64_max_def bearer_def
      office_def eve_def member_def admin_role_def live_only_def calm_def)
  then show ?thesis
    using mint by (auto simp: eve_principal_def eve_def member_def live_only_def mirror_of_def effective_caps_def office_def calm_def)
qed

lemma untrimmed_account_cannot_sign_in_witness:
  "\<exists>u w. create_user_route calm \<lparr>cu_username = '' bob'', cu_password = ''password'', cu_role_id = None, cu_role = None, cu_camera_ids = []\<rparr> office
       = (Inr u, w) \<and> us_username u = '' bob'' \<and>
     (\<forall>t rq pw r s. s \<in> set (aw_sessions (snd (login t rq '' bob'' pw r w))) \<longrightarrow> se_user s \<noteq> us_id u)"
proof -
  let ?body = "\<lparr>cu_username = '' bob'', cu_password = ''password'', cu_role_id = None, cu_role = None, cu_camera_ids = []\<rparr>"
  let ?u = "\<lparr>us_id = 101, us_username = '' bob'', us_password_hash = ''password'', us_role = Viewer, us_camera_ids = [], us_role_id = None\<rparr>"
  obtain w where made: "create_user_route calm ?body office = (Inr ?u, w)" and w: "aw_users w = aw_users office @ [?u]" "aw_sessions w = []"
    using calm_answers
    by (simp add: create_user_route_def validate_username_def validate_password_def hash_password_def created_role_def calls
        db_create_user_def statement_answered role_exists_def new_uuid_def office_def member_def calm_def trim_def is_space_def Let_def)
  have "s \<notin> set (aw_sessions (snd (login t rq '' bob'' pw r w)))" if "se_user s = us_id ?u" for t rq pw r s
  proof
    assume "s \<in> set (aw_sessions (snd (login t rq '' bob'' pw r w)))"
    then have "s \<in> set (aw_sessions w)"
      using that by (intro untrimmed_account_cannot_sign_in [of ?u w]) (auto simp: w office_def member_def trim_def is_space_def)
    then show False by (simp add: w(2))
  qed
  then show ?thesis using made by (intro exI [of _ ?u] exI [of _ w]) auto
qed

subsection \<open>A role that cannot be read\<close>

definition eve_signed_in :: auth_world where
  "eve_signed_in = office\<lparr>aw_sessions := [\<lparr>se_jti = 100, se_user = 3, se_label = None, se_ip = None, se_long_lived = False,
     se_created = seconds 1000, se_last_seen = seconds 1000, se_expires = seconds 87400, se_revoked = None\<rparr>]\<rparr>"

text \<open>The same installation with one statement of the request refused, counted from 0; all others are answered.\<close>

definition refusing :: "nat \<Rightarrow> token_env \<Rightarrow> token_env" where
  "refusing n t = t\<lparr>te_db := (te_db t)\<lparr>ae_reply := (\<lambda>k. if k = n then Refused else Answered)\<rparr>\<rparr>"

lemma refusing_simps [simp]:
  "te_sign (refusing n t) = te_sign t" "te_open (refusing n t) = te_open t" "te_show_uuid (refusing n t) = te_show_uuid t"
  "te_parse_uuid (refusing n t) = te_parse_uuid t"
  "te_db (refusing n t) = (te_db t)\<lparr>ae_reply := (\<lambda>k. if k = n then Refused else Answered)\<rparr>"
  by (simp_all add: refusing_def)

lemma eve_claims_parse: "claims_of_json (json_of_claims eve_claims) = Some eve_claims"
  by (rule claims_roundtrip) (simp_all add: eve_claims_def minted_claims_def unix_u64_def timestamp_def seconds_def u64_max_def)

lemmas eve_request = auth_user_extractor_def authenticate_def full_session_def decode_claims_def session_of_claims_def
  is_jti_revoked_def refresh_revoked_jtis_def list_revoked_jtis_def resolve_session_def cached_session_def
  resolve_live_session_def live_row_def effective_role_def role_by_id_def db_get_role_def query_def statement_def calls
  if_given_def cache_session_def map_err_def or_else_fail_def now_at_def

lemmas eve_world = calm_tokens_def calm_def bearer_def plain_request_def eve_signed_in_def office_def member_def unary_roundtrip
  eve_claims_def minted_claims_def role_as_str_def role_from_str_def eve_def eve_principal_def sealing_def

lemma eve_unhindered:
  "n \<notin> {1, 2} \<Longrightarrow> fst (auth_user_extractor (refusing n sealing) (bearer ''L'') eve_signed_in) = Inr eve_principal"
  using bearer_token [of "bearer ''L''" "''L''"] eve_claims_parse
  by (auto simp: eve_request eve_world Let_def live_only_def mirror_of_def effective_caps_def admin_role_def)

lemma eve_role_unread:
  "fst (auth_user_extractor (refusing 2 sealing) (bearer ''L'') eve_signed_in) =
     Inr (eve_principal\<lparr>au_camera_ids := [], au_capabilities := fallback_caps Viewer\<rparr>)"
  using bearer_token [of "bearer ''L''" "''L''"] eve_claims_parse
  by (simp add: eve_request eve_world Let_def)

lemma eve_session_unread:
  "\<exists>er. fst (auth_user_extractor (refusing 1 sealing) (bearer ''L'') eve_signed_in) = Inl er"
  using bearer_token [of "bearer ''L''" "''L''"] eve_claims_parse
  by (simp add: eve_request eve_world Let_def)

text \<open>C40. A role that cannot be read is treated like a role that was deleted. There is a signed-in viewer
  whose permission role, the only one with its id, withholds recorded playback and clips, such that with
  every statement answered the request's principal has the capabilities of that role, with exactly one
  statement of the request refused (the third, the one that reads the role) the same request gives a
  principal of the same role id that has playback and clips, and no other refused statement has that
  effect.\<close>

theorem failed_role_read_grants_capabilities:
  "\<exists>t rq w r p0 p. let outcome = (\<lambda>t. fst (auth_user_extractor t rq w)) in
     answering (te_db t) \<and> distinct (map ro_id (aw_roles w)) \<and> r \<in> set (aw_roles w) \<and>
     \<not> ro_is_admin r \<and> \<not> cap_playback (ro_capabilities r) \<and> \<not> cap_clips (ro_capabilities r) \<and>
     outcome t = Inr p0 \<and> au_role_id p0 = Some (ro_id r) \<and> \<not> can_playback p0 \<and> \<not> can_clips p0 \<and>
     outcome (refusing 2 t) = Inr p \<and> au_role_id p = Some (ro_id r) \<and> can_playback p \<and> can_clips p \<and>
     (\<forall>n. n = 2 \<or> outcome (refusing n t) = Inr p0 \<or> (\<exists>er. outcome (refusing n t) = Inl er))"
proof -
  let ?run = "\<lambda>t. fst (auth_user_extractor t (bearer ''L'') eve_signed_in)"
  let ?p = "eve_principal\<lparr>au_camera_ids := [], au_capabilities := fallback_caps Viewer\<rparr>"
  have up: "?run sealing = Inr eve_principal"
    using bearer_token [of "bearer ''L''" "''L''"] eve_claims_parse
    by (simp add: eve_request eve_world Let_def live_only_def mirror_of_def effective_caps_def admin_role_def)
  have other: "\<forall>n. n = 2 \<or> ?run (refusing n sealing) = Inr eve_principal \<or> (\<exists>er. ?run (refusing n sealing) = Inl er)"
    using eve_unhindered eve_session_unread by (metis insert_iff empty_iff)
  have withheld: "\<not> can_playback eve_principal" "\<not> can_clips eve_principal" "can_playback ?p" "can_clips ?p"
    "au_role_id eve_principal = Some (ro_id live_only)" "au_role_id ?p = Some (ro_id live_only)"
    by (simp_all add: can_playback_def can_clips_def is_admin_def fallback_caps_def eve_principal_def live_only_def no_caps_def)
  have role: "live_only \<in> set (aw_roles eve_signed_in)" "distinct (map ro_id (aw_roles eve_signed_in))" "\<not> ro_is_admin live_only"
    "\<not> cap_playback (ro_capabilities live_only)" "\<not> cap_clips (ro_capabilities live_only)"
    by (simp_all add: eve_signed_in_def office_def live_only_def admin_role_def no_caps_def)
  show ?thesis
    unfolding Let_def
    by (intro exI [of _ sealing] exI [of _ "bearer ''L''"] exI [of _ eve_signed_in] exI [of _ live_only]
        exI [of _ eve_principal] exI [of _ ?p] conjI up eve_role_unread other withheld role)
      (simp add: calm_answers)
qed

end
