(* ===== verification/LoginRefines.thy ===== *)
theory LoginRefines
  imports TokenSamples LoginSafety
begin

text \<open>
  The sign-in handler runs the brakes the way \<open>try_login\<close> does, so the bounds on guesses hold of the handler.
\<close>

definition verdict :: "token_env \<Rightarrow> string \<Rightarrow> string \<Rightarrow> auth_world \<Rightarrow> bool option" where
  "verdict t name pw w =
     (if ae_reply (te_db t) (aw_calls w) = Answered
      then Some (case List.find (\<lambda>u. us_username u = trim name) (aw_users w) of
                   Some u \<Rightarrow> ae_verify (te_db t) pw (us_password_hash u) | None \<Rightarrow> False)
      else None)"

definition attempt_of :: "token_env \<Rightarrow> request \<Rightarrow> string \<Rightarrow> string \<Rightarrow> auth_world \<Rightarrow> login_attempt" where
  "attempt_of t rq name pw w =
     \<lparr>at_user = trim name, at_client = client_key (te_show_ip t) (te_net t) (te_trust t) (rq_forwarded rq) (rq_peer rq),
      at_valid = verdict t name pw w, at_time = now_at (te_db t) w\<rparr>"

definition shown_as :: "login_outcome \<Rightarrow> api_error + login_response \<Rightarrow> bool" where
  "shown_as out r =
     (case out of
        Blocked secs \<Rightarrow> r = Inl (Too_Many_Requests secs)
      | LookupFailed \<Rightarrow> r = Inl Internal
      | BadCredentials \<Rightarrow> r = Inl Unauthorized
      | SignedIn \<Rightarrow> r \<noteq> Inl Unauthorized)"

lemma mint_keeps_logins: "aw_logins (snd (mint_for t rq u r w)) = aw_logins w"
  by (auto simp: mint_for_def mint_token_def new_uuid_def Let_def calls create_session_def statement_def
      split: option.split reply.split sum.split)

lemma mint_not_unauthorized: "fst (mint_for t rq u r w) \<noteq> Inl Unauthorized"
  by (auto simp: mint_for_def mint_token_def new_uuid_def Let_def calls create_session_def statement_def internal_def
      split: option.split reply.split sum.split)

text \<open>C22. The sign-in handler is the machine the guess bounds are about. With a name and a password, and a clock that does not
  move during the query, it consults and updates the failure counters exactly as \<open>try_login\<close> does for the submitted
  name, the client and the verdict on the password, and answers accordingly.\<close>

theorem login_runs_the_brakes:
  assumes "trim name \<noteq> []" and "pw \<noteq> []" and "ae_now (te_db t) (Suc (aw_calls w)) = ae_now (te_db t) (aw_calls w)"
  shows "let (out, counters) = try_login (aw_logins w) (attempt_of t rq name pw w)
         in shown_as out (fst (login t rq name pw r w)) \<and> aw_logins (snd (login t rq name pw r w)) = counters"
proof -
  let ?client = "client_key (te_show_ip t) (te_net t) (te_trust t) (rq_forwarded rq) (rq_peer rq)"
  show ?thesis
  proof (cases "login_retry_after (trim name) ?client (now_at (te_db t) w) (aw_logins w)")
    case (Some secs)
    then show ?thesis
      using assms(1,2) by (simp add: try_login_def attempt_of_def login_def calls Let_def shown_as_def)
  next
    case None
    have now: "now_at (te_db t) (w\<lparr>aw_calls := Suc (aw_calls w)\<rparr>) = now_at (te_db t) w" using assms(3) by (simp add: now_at_def)
    show ?thesis
    proof (cases "ae_reply (te_db t) (aw_calls w) = Answered")
      case False
      then have "ae_reply (te_db t) (aw_calls w) = Refused \<or> ae_reply (te_db t) (aw_calls w) = Answer_Lost"
        by (cases "ae_reply (te_db t) (aw_calls w)") simp_all
      then show ?thesis
        using None assms(1,2) by (auto simp: try_login_def attempt_of_def login_def calls Let_def verdict_def shown_as_def
            get_user_by_username_def query_def statement_def internal_def)
    next
      case True
      then show ?thesis
        using None assms(1,2) now
        by (auto simp: try_login_def attempt_of_def login_def calls Let_def verdict_def shown_as_def mint_keeps_logins mint_not_unauthorized
            get_user_by_username_def query_def statement_def split: option.split)
    qed
  qed
qed

lemma login_runs_the_brakes_witness:
  "let (out, counters) = try_login (aw_logins office) (attempt_of sealing plain_request '' eve '' ''wrong'' office)
   in shown_as out (fst (login sealing plain_request '' eve '' ''wrong'' False office)) \<and>
      aw_logins (snd (login sealing plain_request '' eve '' ''wrong'' False office)) = counters"
  by (rule login_runs_the_brakes) (simp_all add: trim_def is_space_def calm_def)

end
