(* ===== verification/SignOut.thy ===== *)
theory SignOut
  imports TokenSamples
begin

text \<open>
  How long a session that was signed out can still be used, with any number of requests in flight.

  \<^item> \<open>resolve_session\<close> is three steps with other requests in between: the look into the cache, the
    query, and the entry for its answer. \<open>race_step\<close> interleaves them with changes of the rows, cleared
    caches and the passage of time. The revoked set, which only refuses more, is left out.
  \<^item> A session is gone when no unrevoked row is left for it: revoked, pruned, or deleted with its user.
    \<open>rc_gone\<close> remembers since when.
\<close>

datatype row_change =
    Issue uuid uuid instant
  | Revoke uuid "uuid option"
  | Revoke_All uuid
  | Revoke_Others uuid uuid
  | Prune_Expired
  | Drop_User uuid
  | Touch uuid

fun change_rows :: "account_env \<Rightarrow> row_change \<Rightarrow> auth_world \<Rightarrow> auth_world" where
  "change_rows e (Issue jti user expires) w = snd (create_session e jti user None None False expires w)"
| "change_rows e (Revoke jti user) w = snd (revoke_session e jti user w)"
| "change_rows e (Revoke_All user) w = snd (revoke_all_sessions_for_user e user w)"
| "change_rows e (Revoke_Others user keep) w = snd (revoke_other_sessions_for_user e user keep w)"
| "change_rows e Prune_Expired w = snd (prune_expired_sessions e w)"
| "change_rows e (Drop_User user) w = snd (db_delete_user e user w)"
| "change_rows e (Touch jti) w = snd (touch_session e jti w)"

definition dead :: "uuid \<Rightarrow> auth_world \<Rightarrow> bool" where
  "dead jti w \<longleftrightarrow> (\<forall>s\<in>set (aw_sessions w). se_jti s = jti \<longrightarrow> se_revoked s \<noteq> None)"

record race =
  rc_time :: instant
  rc_world :: auth_world
  rc_asked :: "(uuid \<times> uuid \<times> instant) set"
  rc_fetched :: "(uuid \<times> instant \<times> uuid list option) set"
  rc_accepted :: "(uuid \<times> instant) set"
  rc_gone :: "uuid \<Rightarrow> instant option"

definition note_gone :: "race \<Rightarrow> auth_world \<Rightarrow> uuid \<Rightarrow> instant option" where
  "note_gone s w' j = (if rc_gone s j = None \<and> \<not> dead j (rc_world s) \<and> dead j w' then Some (rc_time s) else rc_gone s j)"

inductive race_step :: "account_env \<Rightarrow> race \<Rightarrow> race \<Rightarrow> bool" for e where
  time: "rc_time s \<le> t \<Longrightarrow> race_step e s (s\<lparr>rc_time := t\<rparr>)"
| hit: "cached_session jti (timestamp (rc_time s)) (rc_world s) = Some (Some grants) \<Longrightarrow>
    race_step e s (s\<lparr>rc_accepted := insert (jti, rc_time s) (rc_accepted s)\<rparr>)"
| miss: "cached_session jti (timestamp (rc_time s)) (rc_world s) = None \<Longrightarrow>
    race_step e s (s\<lparr>rc_asked := insert (jti, user, rc_time s) (rc_asked s)\<rparr>)"
| fetch: "(jti, user, t) \<in> rc_asked s \<Longrightarrow> resolve_live_session e jti user (rc_world s) = (Inr grants, w') \<Longrightarrow>
    race_step e s (s\<lparr>rc_world := w', rc_fetched := insert (jti, t, grants) (rc_fetched s)\<rparr>)"
| store: "(jti, t, grants) \<in> rc_fetched s \<Longrightarrow>
    race_step e s (s\<lparr>rc_world := cache_session jti grants (timestamp t) (rc_world s),
      rc_accepted := (if grants = None then rc_accepted s else insert (jti, t) (rc_accepted s))\<rparr>)"
| clear: "race_step e s (s\<lparr>rc_world := invalidate_session_cache (rc_world s)\<rparr>)"
| change: "(\<And>jti user x. c = Issue jti user x \<Longrightarrow> rc_gone s jti = None) \<Longrightarrow> w' = change_rows e c (rc_world s) \<Longrightarrow>
    race_step e s (s\<lparr>rc_world := w', rc_gone := note_gone s w'\<rparr>)"
| elsewhere: "aw_sessions w' = aw_sessions (rc_world s) \<Longrightarrow> aw_session_cache w' = aw_session_cache (rc_world s) \<Longrightarrow>
    race_step e s (s\<lparr>rc_world := w'\<rparr>)"

definition calm_start :: "race \<Rightarrow> bool" where
  "calm_start s \<longleftrightarrow> rc_asked s = {} \<and> rc_fetched s = {} \<and> rc_accepted s = {} \<and> rc_gone s = (\<lambda>_. None) \<and> aw_session_cache (rc_world s) = []"

lemma live_not_dead: "live_row jti user w \<noteq> None \<Longrightarrow> \<not> dead jti w"
  by (auto simp: live_row_def dead_def find_Some_iff split: option.splits)

lemma dead_stays:
  assumes "dead j w" and "\<And>user x. c \<noteq> Issue j user x"
  shows "dead j (change_rows e c w)"
  using assms
  by (cases c) (auto simp: dead_def create_session_def revoke_session_def revoke_all_sessions_for_user_def revoke_other_sessions_for_user_def
      revoke_where_def prune_expired_sessions_def db_delete_user_def touch_session_def statement_def Let_def
      split: reply.split option.split sum.splits if_splits)

lemma change_keeps_cache: "aw_session_cache (change_rows e c w) = aw_session_cache w"
  by (cases c) (auto simp: create_session_def revoke_session_def revoke_all_sessions_for_user_def revoke_other_sessions_for_user_def
      revoke_where_def prune_expired_sessions_def db_delete_user_def touch_session_def statement_def Let_def
      split: reply.split option.split sum.splits if_splits)

lemma fetched_row:
  assumes "resolve_live_session e jti user w = (Inr grants, w')"
  shows "aw_sessions w' = aw_sessions w" "aw_session_cache w' = aw_session_cache w" "grants \<noteq> None \<Longrightarrow> \<not> dead jti w"
proof -
  have "grants = live_row jti user (w\<lparr>aw_calls := Suc (aw_calls w)\<rparr>)" and w': "w' = w\<lparr>aw_calls := Suc (aw_calls w)\<rparr>"
    using assms by (auto simp: resolve_live_session_def query_def statement_def Let_def split: reply.splits)
  then show "grants \<noteq> None \<Longrightarrow> \<not> dead jti w"
    using live_not_dead [of jti user "w\<lparr>aw_calls := Suc (aw_calls w)\<rparr>"] by (simp add: dead_def)
  show "aw_sessions w' = aw_sessions w" "aw_session_cache w' = aw_session_cache w" by (simp_all add: w')
qed

subsection \<open>The invariant\<close>

definition stamped :: "race \<Rightarrow> bool" where
  "stamped s \<longleftrightarrow> (\<forall>j u t. (j, u, t) \<in> rc_asked s \<longrightarrow> t \<le> rc_time s) \<and> (\<forall>j t g. (j, t, g) \<in> rc_fetched s \<longrightarrow> t \<le> rc_time s) \<and>
     (\<forall>j t. (j, t) \<in> rc_accepted s \<longrightarrow> t \<le> rc_time s) \<and>
     (\<forall>j g c. map_of (aw_session_cache (rc_world s)) j = Some (g, c) \<longrightarrow> c \<le> timestamp (rc_time s))"

definition honest :: "race \<Rightarrow> bool" where
  "honest s \<longleftrightarrow> (\<forall>j r. rc_gone s j = Some r \<longrightarrow> r \<le> rc_time s \<and> dead j (rc_world s) \<and>
     (\<forall>t g. (j, t, Some g) \<in> rc_fetched s \<longrightarrow> t \<le> r) \<and>
     (\<forall>g c. map_of (aw_session_cache (rc_world s)) j = Some (Some g, c) \<longrightarrow> c \<le> timestamp r) \<and>
     (\<forall>t. (j, t) \<in> rc_accepted s \<longrightarrow> timestamp t - timestamp r < session_cache_ttl_secs))"

lemma timestamp_mono: "a \<le> b \<Longrightarrow> timestamp a \<le> timestamp b"
  by (simp add: timestamp_def zdiv_mono1)

lemma cache_session_lookup:
  "map_of (aw_session_cache (cache_session j g n w)) i = Some x \<Longrightarrow> (i = j \<and> x = (g, n)) \<or> map_of (aw_session_cache w) i = Some x"
  by (auto simp: cache_session_def Let_def update_conv split: if_splits)

lemma step_stamped: "race_step e s s' \<Longrightarrow> stamped s \<Longrightarrow> stamped s'"
proof (induction rule: race_step.induct)
  case (time s t)
  then have "timestamp (rc_time s) \<le> timestamp t" by (simp add: timestamp_mono)
  then show ?case using time by (fastforce simp: stamped_def intro: order_trans)
next
  case (fetch jti user t s grants w')
  then show ?case using fetched_row [OF fetch(2)] by (auto simp: stamped_def)
next
  case (store jti t grants s)
  then have begun: "t \<le> rc_time s" unfolding stamped_def by blast
  then have "timestamp t \<le> timestamp (rc_time s)" by (rule timestamp_mono)

  with begun show ?case using store(2) by (auto simp: stamped_def dest!: cache_session_lookup split: if_splits)
next
  case (change c s w')
  then show ?case by (simp add: stamped_def change_keeps_cache)
qed (auto simp: stamped_def invalidate_session_cache_def)

lemma step_honest: "race_step e s s' \<Longrightarrow> stamped s \<Longrightarrow> honest s \<Longrightarrow> honest s'"
proof (induction rule: race_step.induct)
  case (time s t)
  then show ?case by (force simp: honest_def)
next
  case (hit jti s grants)
  have "timestamp (rc_time s) - timestamp r < session_cache_ttl_secs" if "rc_gone s jti = Some r" for r
  proof -
    obtain c where "map_of (aw_session_cache (rc_world s)) jti = Some (Some grants, c)" "timestamp (rc_time s) - c < session_cache_ttl_secs"
      using hit(1) by (auto simp: cached_session_def split: option.splits if_splits)
    moreover from this have "c \<le> timestamp r" using hit(3) that by (auto simp: honest_def)
    ultimately show ?thesis by simp
  qed
  then show ?case using hit(3) by (auto simp: honest_def)
next
  case (fetch jti user t s grants w')
  have "rc_gone s jti = None" if "grants \<noteq> None"
    using fetched_row(3) [OF fetch(2) that] fetch(4) by (cases "rc_gone s jti") (auto simp: honest_def)
  then have "(j, x, Some g) \<in> insert (jti, t, grants) (rc_fetched s) \<Longrightarrow> rc_gone s j = Some r \<Longrightarrow> x \<le> r" for j x g r
    using fetch(4) unfolding honest_def by fastforce
  then show ?case
    using fetched_row(1,2) [OF fetch(2)] fetch(4) unfolding honest_def dead_def by simp
next
  case (store jti t grants s)
  have old: "t \<le> r" if "rc_gone s jti = Some r" "grants \<noteq> None" for r
    using store(1,3) that unfolding honest_def by fastforce
  have "timestamp t \<le> timestamp r" "timestamp t - timestamp r < session_cache_ttl_secs" if "rc_gone s jti = Some r" "grants \<noteq> None" for r
    using timestamp_mono [OF old [OF that]] by (simp_all add: session_cache_ttl_secs_def)
  moreover have "aw_sessions (cache_session jti grants (timestamp t) (rc_world s)) = aw_sessions (rc_world s)"
    by (simp add: cache_session_def Let_def)
  ultimately show ?case using store(3) by (auto simp: honest_def dead_def dest!: cache_session_lookup)
next
  case (change c s w')
  have stays: "dead j w'" if "rc_gone s j = Some r" for j r
  proof -
    have "dead j (rc_world s)" using change(4) that by (simp add: honest_def)
    moreover have "c \<noteq> Issue j user x" for user x using change(1) that by auto
    ultimately show ?thesis using change(2) dead_stays by simp
  qed
  have new: "rc_time s \<ge> t" if "(j, t, g) \<in> rc_fetched s" for j t g using change(3) that unfolding stamped_def by blast
  have acc: "timestamp t - timestamp (rc_time s) < session_cache_ttl_secs" if "(j, t) \<in> rc_accepted s" for j t
  proof -
    have "t \<le> rc_time s" using change(3) that by (auto simp: stamped_def)
    then show ?thesis using timestamp_mono [of t "rc_time s"] by (simp add: session_cache_ttl_secs_def)
  qed
  show ?case
    unfolding honest_def
  proof (intro allI impI)
    fix j r assume "rc_gone (s\<lparr>rc_world := w', rc_gone := note_gone s w'\<rparr>) j = Some r"
    then consider "rc_gone s j = Some r" | "r = rc_time s" "dead j w'" "rc_gone s j = None"
      by (auto simp: note_gone_def split: if_splits)
    then show "r \<le> rc_time (s\<lparr>rc_world := w', rc_gone := note_gone s w'\<rparr>) \<and> dead j (rc_world (s\<lparr>rc_world := w', rc_gone := note_gone s w'\<rparr>)) \<and>
       (\<forall>t g. (j, t, Some g) \<in> rc_fetched (s\<lparr>rc_world := w', rc_gone := note_gone s w'\<rparr>) \<longrightarrow> t \<le> r) \<and>
       (\<forall>g c. map_of (aw_session_cache (rc_world (s\<lparr>rc_world := w', rc_gone := note_gone s w'\<rparr>))) j = Some (Some g, c) \<longrightarrow> c \<le> timestamp r) \<and>
       (\<forall>t. (j, t) \<in> rc_accepted (s\<lparr>rc_world := w', rc_gone := note_gone s w'\<rparr>) \<longrightarrow> timestamp t - timestamp r < session_cache_ttl_secs)"
    proof cases
      case 1
      then show ?thesis using change(2,4) stays by (simp add: honest_def change_keeps_cache)
    next
      case 2
      then show ?thesis using change(2,3) new acc by (auto simp: stamped_def change_keeps_cache)
    qed
  qed
qed (auto simp: honest_def dead_def invalidate_session_cache_def)

lemma reach_honest: "(race_step e)\<^sup>*\<^sup>* s s' \<Longrightarrow> calm_start s \<Longrightarrow> stamped s' \<and> honest s'"
proof (induction rule: rtranclp_induct)
  case base
  then show ?case by (auto simp: calm_start_def stamped_def honest_def)
next
  case (step y z)
  then show ?case using step_stamped step_honest by blast
qed

text \<open>C18. A session that is gone is refused within the lifetime of a cache entry. However requests, sign-outs,
  deletions of accounts, failing statements and cleared caches interleave, every request that was let in with a
  session began less than 30 seconds after the session was gone.\<close>

theorem signed_out_session_dies:
  assumes "(race_step e)\<^sup>*\<^sup>* s s'" and "calm_start s" and "(jti, t) \<in> rc_accepted s'" and "rc_gone s' jti = Some r"
  shows "t < r + seconds session_cache_ttl_secs"
proof -
  have "timestamp t - timestamp r < session_cache_ttl_secs"
    using reach_honest [OF assms(1,2)] assms(3,4) by (auto simp: honest_def)
  moreover have "t < (timestamp t + 1) * 1000000000" "timestamp r * 1000000000 \<le> r"
    by (simp_all add: timestamp_def)
  ultimately show ?thesis by (simp add: seconds_def session_cache_ttl_secs_def)
qed

text \<open>Eve's request at 1000 s fills the cache, her session is revoked at once, and a request 20 seconds later is still let in.\<close>

lemma signed_out_session_dies_witness:
  "\<exists>s. (race_step calm)\<^sup>*\<^sup>* \<lparr>rc_time = seconds 1000, rc_world = eve_signed_in, rc_asked = {}, rc_fetched = {}, rc_accepted = {}, rc_gone = (\<lambda>_. None)\<rparr> s
     \<and> (100, seconds 1020) \<in> rc_accepted s \<and> rc_gone s 100 = Some (seconds 1000) \<and> seconds 1020 < seconds 1000 + seconds session_cache_ttl_secs"
proof -
  let ?s0 = "\<lparr>rc_time = seconds 1000, rc_world = eve_signed_in, rc_asked = {}, rc_fetched = {}, rc_accepted = {}, rc_gone = (\<lambda>_. None)\<rparr>"
  let ?s1 = "?s0\<lparr>rc_asked := insert (100, 3, seconds 1000) (rc_asked ?s0)\<rparr>"
  have 1: "race_step calm ?s0 ?s1"
    using race_step.miss [of 100 ?s0 calm 3] by (simp add: cached_session_def eve_signed_in_def office_def)
  let ?w1 = "eve_signed_in\<lparr>aw_calls := 1\<rparr>"
  let ?s2 = "?s1\<lparr>rc_world := ?w1, rc_fetched := insert (100, seconds 1000, Some []) (rc_fetched ?s1)\<rparr>"
  have "resolve_live_session calm 100 3 (rc_world ?s1) = (Inr (Some []), ?w1)"
    by (simp add: resolve_live_session_def query_answered [OF calm_answers] live_row_def eve_signed_in_def office_def member_def)
  then have 2: "race_step calm ?s1 ?s2" by (intro race_step.fetch [where user = 3]) simp
  let ?s3 = "?s2\<lparr>rc_world := cache_session 100 (Some []) (timestamp (seconds 1000)) (rc_world ?s2),
      rc_accepted := (if Some ([] :: uuid list) = None then rc_accepted ?s2 else insert (100, seconds 1000) (rc_accepted ?s2))\<rparr>"
  have 3: "race_step calm ?s2 ?s3" by (rule race_step.store) simp
  let ?w4 = "change_rows calm (Revoke 100 None) (rc_world ?s3)"
  let ?s4 = "?s3\<lparr>rc_world := ?w4, rc_gone := note_gone ?s3 ?w4\<rparr>"
  have 4: "race_step calm ?s3 ?s4" by (rule race_step.change [where c = "Revoke 100 None"]) simp_all
  let ?s5 = "?s4\<lparr>rc_time := seconds 1020\<rparr>"
  have 5: "race_step calm ?s4 ?s5" by (rule race_step.time) simp
  let ?s6 = "?s5\<lparr>rc_accepted := insert (100, rc_time ?s5) (rc_accepted ?s5)\<rparr>"
  have "cached_session 100 (timestamp (rc_time ?s5)) (rc_world ?s5) = Some (Some [])"
    by (simp add: cached_session_def change_keeps_cache cache_session_def eve_signed_in_def office_def timestamp_def seconds_def
        session_cache_ttl_secs_def update_conv del: change_rows.simps)
  then have 6: "race_step calm ?s5 ?s6" by (rule race_step.hit)
  have run: "(race_step calm)\<^sup>*\<^sup>* ?s0 ?s6"
    using 1 2 3 4 5 6 by (meson converse_rtranclp_into_rtranclp rtranclp.rtrancl_refl)
  have start: "calm_start ?s0" by (simp add: calm_start_def eve_signed_in_def office_def)
  have acc: "(100, seconds 1020) \<in> rc_accepted ?s6" by simp
  have gone: "rc_gone ?s6 100 = Some (seconds 1000)"
    by (simp add: note_gone_def dead_def revoke_session_def revoke_where_def statement_answered [OF calm_answers] cache_session_def Let_def
        eve_signed_in_def office_def)
  show ?thesis using run acc gone signed_out_session_dies [OF run start acc gone] by blast
qed

subsection \<open>A sign-out that is answered\<close>

lemma revoked_in_cache:
  assumes "answering e" and "s \<in> set (aw_sessions w)" and "se_revoked s \<noteq> None" and "\<And>n. ae_now e n < se_expires s"
  shows "se_jti s \<in> set (aw_revoked (refresh_revoked_jtis e w)) \<and> aw_sessions (refresh_revoked_jtis e w) = aw_sessions w"
  using assms by (auto simp: refresh_revoked_jtis_def list_revoked_jtis_def query_answered now_at_def)

text \<open>Signing a session out works at once. When the request that revokes a session is answered, the next request with a
  token of that session is refused, even though its signature and its expiry are still good.\<close>

theorem sign_out_takes_effect:
  assumes up: "answering (te_db t)" and out: "revoke_my_session t user jti w = (Inr (), w1)"
    and fresh: "\<And>s n. s \<in> set (aw_sessions w) \<Longrightarrow> se_jti s = jti \<Longrightarrow> ae_now (te_db t) n < se_expires s"
    and header: "rq_authorization rq = Some (''Bearer '' @ tok)"
    and token: "te_open t tok (now_at (te_db t) w1) = Some (json_of_claims c)" "cl_jti c = Some (te_show_uuid t jti)"
    and uuids: "\<And>i. te_parse_uuid t (te_show_uuid t i) = Some i"
  shows "fst (authenticate t rq w1) = Inl Unauthorized"
proof -
  let ?e = "te_db t" and ?P = "\<lambda>s. se_jti s = jti \<and> se_user s = au_user_id user"
  let ?w0 = "w\<lparr>aw_calls := Suc (aw_calls w)\<rparr>"
  define rows where "rows = map (\<lambda>s. if ?P s \<and> se_revoked s = None then s\<lparr>se_revoked := Some (now_at ?e ?w0)\<rparr> else s) (aw_sessions w)"
  have w1: "w1 = refresh_revoked_jtis ?e (?w0\<lparr>aw_sessions := rows\<rparr>)" and some: "\<exists>s\<in>set (aw_sessions w). ?P s \<and> se_revoked s = None"
    using out up
    by (auto simp: revoke_my_session_def revoke_session_def revoke_where_def statement_answered calls rows_def filter_empty_conv
        split: if_splits)
  obtain s where s: "s \<in> set rows" "se_jti s = jti" "se_revoked s \<noteq> None" "\<And>n. ae_now ?e n < se_expires s"
  proof -
    obtain x where x: "x \<in> set (aw_sessions w)" "?P x" "se_revoked x = None" using some by blast
    then have "x\<lparr>se_revoked := Some (now_at ?e ?w0)\<rparr> \<in> set rows" by (force simp: rows_def)
    then show ?thesis using that [of "x\<lparr>se_revoked := Some (now_at ?e ?w0)\<rparr>"] x fresh by simp
  qed
  have "jti \<in> set (aw_revoked w1)" "aw_sessions w1 = rows"
    using revoked_in_cache [OF up, of s "?w0\<lparr>aw_sessions := rows\<rparr>"] s w1 by simp_all
  then have "fst (is_jti_revoked ?e jti w1)"
    using revoked_in_cache [OF up, of s w1] s by (simp add: is_jti_revoked_def Let_def)
  then have "fst (session_of_claims t c w1) = Inl Unauthorized"
    using token(2) uuids by (auto simp: session_of_claims_def calls split: prod.split)
  moreover have "claims_of_json (json_of_claims c) \<in> {None, Some c}"
    by (cases c) (auto simp: claims_of_json_def json_of_claims_def str_field_def strs_field_def num_field_def opt_str_field_def opt_json_def
        split: option.split)
  ultimately have "fst (full_session t tok w1) = Inl Unauthorized"
    using token(1) by (auto simp: full_session_def decode_claims_def calls split: prod.split sum.split)
  then show ?thesis using bearer_token [OF header] by (simp add: authenticate_def calls)
qed

lemma sign_out_takes_effect_witness:
  "\<exists>w1. revoke_my_session sealing eve_principal 100 eve_signed_in = (Inr (), w1) \<and>
     fst (authenticate sealing (bearer ''L'') w1) = Inl Unauthorized"
proof -
  have now: "now_at calm w = seconds 1000" for w by (simp add: now_at_def calm_def)
  obtain w1 where out: "revoke_my_session sealing eve_principal 100 eve_signed_in = (Inr (), w1)"
    using calm_answers
    by (simp add: revoke_my_session_def revoke_session_def revoke_where_def statement_answered calls eve_signed_in_def office_def eve_principal_def)
  have open_L: "te_open sealing ''L'' (now_at (te_db sealing) w1) = Some (json_of_claims eve_claims)"
    using now [of w1] by (simp add: sealing_def calm_tokens_def)
  have "fst (authenticate sealing (bearer ''L'') w1) = Inl Unauthorized"
    by (rule sign_out_takes_effect [OF _ out _ _ open_L])
      (auto simp: answering_def bearer_def eve_signed_in_def calm_def unary_roundtrip eve_claims_def minted_claims_def calm_tokens_def)
  then show ?thesis using out by blast
qed

subsection \<open>Handoff codes\<close>

lemma spares_user_rows [spared]:
  "spares aw_handoffs (db_create_user e n h r c rid)" "spares aw_handoffs (db_update_user e i nm hs rl cm rid)" "spares aw_handoffs (db_delete_user e i)"
  unfolding db_create_user_def db_update_user_def db_delete_user_def
  by (rule spares_statement; force simp: new_uuid_def Let_def split: if_splits option.splits)+

lemma spares_user_routes:
  "spares aw_handoffs (create_user_route e body)" "spares aw_handoffs (update_user_route e admin i changes)" "spares aw_handoffs (delete_user_route e i)"
  "spares aw_handoffs (bootstrap_admin t rq name pw)"
proof -
  show "spares aw_handoffs (create_user_route e body)" unfolding create_user_route_def by (intro spared)
  have "spares aw_handoffs (end_sessions e admin i)" unfolding end_sessions_def Let_def by (intro spared) simp
  then show "spares aw_handoffs (update_user_route e admin i changes)"
    unfolding update_user_route_def update_user_check_def update_user_act_def by (intro spared) simp_all
  show "spares aw_handoffs (delete_user_route e i)"
    unfolding delete_user_route_def delete_user_check_def delete_user_act_def by (intro spared) simp_all
  show "spares aw_handoffs (bootstrap_admin t rq name pw)"
    unfolding bootstrap_admin_def bootstrap_check_def bootstrap_act_def Let_def by (intro spared)
qed

lemma spares_seed: "spares aw_handoffs (seed_admin_if_absent t name pw)"
proof -
  have "spares aw_handoffs (\<lambda>w. case db_create_user e n h r c rid w of (Inr u, w1) \<Rightarrow> (Inr (), w1)
          | (Inl x, w1) \<Rightarrow> (if duplicate_by_message x = Conflict then Inr () else Inl x, w1))" for e n h r c rid
    unfolding spares_def
  proof
    fix w
    obtain res w1 where "db_create_user e n h r c rid w = (res, w1)" by force
    moreover from this have "aw_handoffs w1 = aw_handoffs w" by (rule spares_call [OF spares_user_rows(1)])
    ultimately show "aw_handoffs (snd (case db_create_user e n h r c rid w of (Inr u, w1) \<Rightarrow> (Inr (), w1)
          | (Inl x, w1) \<Rightarrow> (if duplicate_by_message x = Conflict then Inr () else Inl x, w1))) = aw_handoffs w"
      by (simp split: sum.split)
  qed
  then show ?thesis unfolding seed_admin_if_absent_def by (intro spared)
qed

lemma delete_missing: "map_of al k = None \<Longrightarrow> AList.delete k al = al"
  by (induction al) (auto split: if_splits)

lemma after_exchange:
  assumes "exchange_handoff t rq code w = (r, w')"
  shows "aw_handoffs w' = AList.delete (trim code) (aw_handoffs w) \<and>
    (\<forall>resp. r = Inr resp \<longrightarrow> (\<exists>h jti w2 w3 grants. map_of (aw_handoffs w) (trim code) = Some h \<and> now_at (te_db t) w < he_expires h \<and>
       he_jti h = Some jti \<and> is_jti_revoked (te_db t) jti (w\<lparr>aw_handoffs := AList.delete (trim code) (aw_handoffs w)\<rparr>) = (False, w2) \<and>
       resolve_session (te_db t) jti (he_user h) w2 = (Inr (Some grants), w3)))"
proof (cases "map_of (aw_handoffs w) (trim code)")
  case None
  then have "r = Inl Unauthorized" "w' = w" using assms by (simp_all add: exchange_handoff_def consume_handoff_code_def calls)
  then show ?thesis using None by (simp add: delete_missing)
next
  case (Some h)
  let ?e = "te_db t" and ?w1 = "w\<lparr>aw_handoffs := AList.delete (trim code) (aw_handoffs w)\<rparr>"
  let ?body = "\<lambda>user issued_by. andthen (or_else_fail Unauthorized issued_by) (\<lambda>jti.
          andthen (\<lambda>w. case is_jti_revoked ?e jti w of
                         (revoked, w2) \<Rightarrow> (if revoked then fail Unauthorized else give ()) w2) (\<lambda>_.
          andthen (map_err internal (resolve_session ?e jti user)) (\<lambda>grants.
          andthen (ensure (grants \<noteq> None) Unauthorized) (\<lambda>_.
          andthen (map_err internal (get_user_by_id ?e user)) (\<lambda>found.
          andthen (or_else_fail Not_Found found) (\<lambda>u.
            mint_for t rq u False))))))"
  have revoked: "spares aw_handoffs (\<lambda>w. case is_jti_revoked ?e jti w of (r, w1) \<Rightarrow> (if r then fail Unauthorized else give ()) w1)" for jti
    by (rule spares_via) (auto intro: spared)
  have keeps: "spares aw_handoffs (?body user issued_by)" for user issued_by
    by (intro spared revoked)
  have run: "(r, w') = (if he_expires h \<le> now_at ?e w then fail Unauthorized ?w1 else ?body (he_user h) (he_jti h) ?w1)"
    using assms [symmetric] Some
    by (cases "he_expires h \<le> now_at ?e w") (simp_all add: exchange_handoff_def consume_handoff_code_def)
  then have "w' = ?w1 \<or> w' = snd (?body (he_user h) (he_jti h) ?w1)"
    by (metis (no_types, lifting) fail_def snd_conv)
  moreover have "aw_handoffs (snd (?body (he_user h) (he_jti h) ?w1)) = aw_handoffs ?w1"
    using keeps [of "he_jti h" "he_user h", unfolded spares_def] by (rule spec)
  ultimately have gone: "aw_handoffs w' = AList.delete (trim code) (aw_handoffs w)" by auto
  have "\<exists>jti w2 w3 grants. now_at ?e w < he_expires h \<and> he_jti h = Some jti \<and> is_jti_revoked ?e jti ?w1 = (False, w2) \<and>
      resolve_session ?e jti (he_user h) w2 = (Inr (Some grants), w3)" if "r = Inr resp" for resp
  proof -
    have live: "now_at ?e w < he_expires h" and body: "(Inr resp, w') = ?body (he_user h) (he_jti h) ?w1"
      using run that by (auto simp: fail_def split: if_splits)
    obtain jti where jti: "he_jti h = Some jti" using body by (cases "he_jti h") (simp_all add: calls)
    obtain revoked w2 where rv: "is_jti_revoked ?e jti ?w1 = (revoked, w2)" by force
    have "\<not> revoked" using body jti rv by (auto simp: calls)
    obtain res w3 where rs: "resolve_session ?e jti (he_user h) w2 = (res, w3)" by force
    obtain grants where "res = Inr (Some grants)"
      using body jti rv rs \<open>\<not> revoked\<close> by (auto simp: calls split: sum.splits if_splits)
    then show ?thesis using live jti rv rs \<open>\<not> revoked\<close> by auto
  qed
  then show ?thesis using gone Some by blast
qed


fun reissued :: "token_env \<Rightarrow> string \<Rightarrow> account_op list \<Rightarrow> auth_world \<Rightarrow> bool" where
  "reissued t c [] w = False"
| "reissued t c (op # ops) w =
     ((case op of Create_Handoff u \<Rightarrow> fst (create_handoff t u w) = Inr c | _ \<Rightarrow> False) \<or> reissued t c ops (serve t op w))"

lemma serve_keeps_missing:
  assumes "map_of (aw_handoffs w) c = None" and "\<not> reissued t c [op] w"
  shows "map_of (aw_handoffs (serve t op w)) c = None"
proof (cases op)
  case (Create_Handoff u)
  then show ?thesis
    using assms by (auto simp: create_handoff_def issue_handoff_code_def new_uuid_def Let_def update_conv map_of_eq_None_iff)
next
  case (Exchange_Handoff rq code)
  obtain r w' where "exchange_handoff t rq code w = (r, w')" by force
  from after_exchange [OF this] this show ?thesis
    using assms(1) Exchange_Handoff by (simp add: delete_conv')
next
  case (Seed_Admin name pw)
  then show ?thesis using assms(1) spares_seed [unfolded spares_def] by simp
qed (use assms(1) in \<open>simp_all add: spares_user_routes [unfolded spares_def] codes.spares_role_routes [unfolded spares_def]
      codes.spares_login [unfolded spares_def] codes.spares_refresh [unfolded spares_def] codes.spares_revoking [unfolded spares_def]
      codes.spares_extract(6) [unfolded spares_def]\<close>)

lemma missing_stays:
  "map_of (aw_handoffs w) c = None \<Longrightarrow> \<not> reissued t c ops w \<Longrightarrow> map_of (aw_handoffs (fold (serve t) ops w)) c = None"
proof (induction ops arbitrary: w)
  case (Cons op ops)
  then have "map_of (aw_handoffs (serve t op w)) c = None" by (intro serve_keeps_missing) simp_all
  then show ?case using Cons by simp
qed simp

text \<open>C26. A handoff code is traded at most once, in time, and never for the session of someone who signed out. Trading it
  opens a session only if it was outstanding, had not expired, and the session that asked for it resolved as live;
  and whatever requests follow, as long as they do not issue the same code again, whoever presents it again is refused.\<close>

theorem handoff_code_single_use:
  assumes "exchange_handoff t rq code w = (r, w')" and "\<not> reissued t (trim code) ops w'"
  shows "fst (exchange_handoff t rq' code (fold (serve t) ops w')) = Inl Unauthorized \<and>
    (\<forall>resp. r = Inr resp \<longrightarrow> (\<exists>h jti w2 w3 grants. map_of (aw_handoffs w) (trim code) = Some h \<and> now_at (te_db t) w < he_expires h \<and>
       he_jti h = Some jti \<and> is_jti_revoked (te_db t) jti (w\<lparr>aw_handoffs := AList.delete (trim code) (aw_handoffs w)\<rparr>) = (False, w2) \<and>
       resolve_session (te_db t) jti (he_user h) w2 = (Inr (Some grants), w3)))"
proof -
  have "map_of (aw_handoffs w') (trim code) = None" using after_exchange [OF assms(1)] by (simp add: delete_conv')
  then have "map_of (aw_handoffs (fold (serve t) ops w')) (trim code) = None" using assms(2) by (rule missing_stays)
  then show ?thesis using after_exchange [OF assms(1)] by (simp add: exchange_handoff_def consume_handoff_code_def calls)
qed

definition eve_handoff :: auth_world where
  "eve_handoff = eve_signed_in\<lparr>aw_handoffs := [(''abc'', \<lparr>he_user = 3, he_jti = Some 100, he_expires = seconds 1060\<rparr>)]\<rparr>"

lemma handoff_code_single_use_witness:
  "\<exists>r w'. exchange_handoff sealing plain_request ''abc'' eve_handoff = (r, w') \<and>
     fst (exchange_handoff sealing plain_request ''abc'' (fold (serve sealing) [Create_Handoff eve_principal, Revoke_All_My_Sessions eve_principal] w')) = Inl Unauthorized"
proof -
  obtain r w' where x: "exchange_handoff sealing plain_request ''abc'' eve_handoff = (r, w')" by force
  have unary_codes: "te_simple_uuid sealing i @ te_simple_uuid sealing j \<noteq> ''abc''" for i j
  proof
    assume "te_simple_uuid sealing i @ te_simple_uuid sealing j = ''abc''"
    then have "CHR ''a'' \<in> set (unary i @ unary j)" by (simp add: sealing_def calm_tokens_def del: set_append)
    then show False by (simp add: unary_def)
  qed
  have "trim ''abc'' = ''abc''" by (simp add: trim_def is_space_def)
  then have "\<not> reissued sealing (trim ''abc'') [Create_Handoff eve_principal, Revoke_All_My_Sessions eve_principal] w'"
    using unary_codes by (simp add: create_handoff_def issue_handoff_code_def new_uuid_def Let_def)
  from handoff_code_single_use [OF x this] x show ?thesis by blast
qed

end
