(* ===== verification/Spec2Isabelle.thy ===== *)
theory Spec2Isabelle
  imports CacheSafety CaptureLoop Scheduler SourceHealth SourceDelivery DanglingComplete QuarantineSafety MigrationJobs LoginRace LoginRefines SignOut
begin

text \<open>
  Verification of the Crumb VMS recorder and of the accounts of its API.

  Crumb records IP cameras. One worker per camera runs ffmpeg, which writes segments; sources of motion
  (the pixel detector, Frigate over MQTT, Home Assistant over HTTP) send signals to the worker, which
  decides which segments are kept; kept segments go to a live storage and into the \<open>segments\<close> table.
  Background loops then move segments to archive storages, delete what the retention allows, free space
  under pressure, and reconcile the table with the disks after a crash. The theories model these parts
  (\<open>services/recorder/src\<close>, and the queries of \<open>services/common/src/db.rs\<close> they rest on). What the recorder
  promises above all is that footage is not lost: no operation, whatever fails under it, deletes a
  recording the policy still covers, and no row of the index outlives or loses its file without reason.
  The API (\<open>services/api/src\<close>) lets people see the footage; its accounts, sessions and brakes are modelled too.

  \<^bold>\<open>From a camera to storage\<close> (\<open>recording.rs\<close>)

  \<^item> \<open>Signals\<close>: motion signals, their overlap with a segment, the motion columns of a row.
  \<^item> \<open>MotionBuffer\<close>: the ring of segments before an event, its states and edges (\<open>MotionBuffer\<close>).
  \<^item> \<open>MotionUnion\<close>: several sources folded into one event stream (\<open>MotionUnion\<close>, the drains of the
    channel), with freeze and replay while nothing may be decided.
  \<^item> \<open>SegmentDecision\<close> over \<open>F64\<close>: the verdict for one completed segment (\<open>decide_persist_for_segment\<close>) and
    the valve that spills the ring before the cache fills up.
  \<^item> \<open>CaptureLoop\<close>: an ffmpeg run as a machine over the lines it prints (\<open>run_ffmpeg_loop\<close>).
  \<^item> \<open>Supervisor\<close>: retries, backoff, stall alerts, the watchdog, the choice of the live storage (\<open>run\<close>).
  \<^item> \<open>FileStore\<close>, \<open>CacheStore\<close>, \<open>CacheSafety\<close>: the files and rows a worker touches: indexing, the copy from
    the cache, the retry queue, the clean-up of the cache, the storage marker.
  \<^item> \<open>SourceHealth\<close> (\<open>source_health.rs\<close>): the gate that makes a camera record everything when its
    detectors are down. \<open>SignalChannel\<close> (\<open>main.rs\<close>): the bounded channel and what a lost signal does.
    \<open>EventSources\<close> (\<open>frigate_motion.rs\<close>, \<open>ha_motion.rs\<close>): the trackers that turn reports into events.
    \<open>SourceDelivery\<close>: a tracker, its handle and the channel together.

  \<^bold>\<open>From storage to archive and out\<close> (\<open>archive.rs\<close>)

  \<^item> \<open>Vault\<close>: disks, the index, bookmarks and policies; the move of one segment
    (\<open>move_segment_to_archive\<close>).
  \<^item> \<open>FreeFloor\<close>: the free-space floor of a disk. \<open>Sweeps\<close>, \<open>SweepSafety\<close>, \<open>Retention\<close>: file-then-row deletion,
    the guard against missing files and the retention sweeps.
  \<^item> \<open>Eviction\<close>: size caps and the floor rescue (\<open>policy_size_eviction_sweep\<close>).
  \<^item> \<open>Scheduler\<close>: cron windows and one tick over all cameras (\<open>tick\<close>).

  \<^item> \<open>Migration\<close>, \<open>MigrationSafety\<close>, \<open>MigrationJobs\<close>: the drain that moves every segment of a policy to another
    storage (\<open>run_storage_migration\<close>), and the life of its job under the worker, the API and restarts.

  \<^bold>\<open>Reconciliation\<close> (\<open>reconcile.rs\<close>, \<open>run_background\<close>)

  \<^item> \<open>Dangling\<close>, \<open>DanglingSafety\<close>, \<open>DanglingComplete\<close>: the seeding of the storage markers and the pass
    over the rows, which removes those whose file is gone.
  \<^item> \<open>Depot\<close>, \<open>Orphans\<close>, \<open>OrphanSafety\<close>: the pass over the disks, which adopts files no row refers to and
    quarantines junk. \<open>Quarantine\<close>, \<open>QuarantineSafety\<close>: the retention of the quarantine, and both together.

  \<^bold>\<open>Accounts of the API\<close> (\<open>config_routes.rs\<close>, \<open>roles.rs\<close>, \<open>auth.rs\<close>, \<open>auth_mw.rs\<close>, \<open>state.rs\<close>, \<open>rate_limit.rs\<close>)

  \<^item> \<open>Accounts\<close>: users, roles and sessions as rows, the statements over them, and the caches of the API process.
    \<open>UserAdmin\<close>: the handlers that change users and roles. \<open>Sessions\<close>: claims, and the extractors that make a principal of
    a request. \<open>SessionRoutes\<close>: signing in and out, refresh, media tokens, handoff codes, the first administrator.
  \<^item> \<open>AccountRules\<close>, \<open>LastAdmin\<close>, \<open>AdminRaces\<close>: the last administrator, one request at a time and two at once.
    \<open>TokenSafety\<close>, \<open>TokenSamples\<close>: what the tokens are worth. \<open>SignOut\<close>: how long a session that is gone can be used,
    with requests interleaved, and the handoff codes.
  \<^item> \<open>LoginBackoff\<close>, \<open>LoginSafety\<close>, \<open>LoginRace\<close>, \<open>LoginRefines\<close>: the two brakes on guessing passwords, the
    guesses they allow, one login after the other and overlapping, and that the sign-in handler runs them. \<open>RateLimit\<close>: the client of a request behind proxies, and its bucket.

  \<^bold>\<open>How the code is modelled.\<close> A definition carries the name of the function or type it translates where
  HOL allows it. State is passed explicitly: a worker, a store (\<open>files\<close>, \<open>rows\<close>, the retry queue), a vault (\<open>disk\<close>,
  \<open>index\<close>), a depot (\<open>tree\<close>, \<open>catalog\<close>), an \<open>auth_world\<close> (rows and caches; handlers compose with \<open>andthen\<close>, the \<open>?\<close> of the code). Every call to the disk or the database draws an answer from an oracle of
  the environment, indexed by the number of calls so far; the oracle says whether the call fails and, for a
  copy, what it leaves behind. A theorem without a hypothesis on the oracle therefore holds for every
  pattern of failures, and one with \<open>calm\<close> (or \<open>\<not> oe_fails e k\<close>) says what happens when nothing fails. Signals,
  clocks and cancellation are oracles or events in the same way. Errors are \<open>Inl\<close> or \<open>None\<close>, and an early
  return is a branch. Signed 64-bit arithmetic that can overflow is written out (\<open>as_i64\<close>, \<open>as_i32\<close>, \<open>u64_max\<close>,
  saturation); 64-bit floats that the code only scales byte counts with are rationals rounded by \<open>F64\<close>.

  What is not in the repository is a parameter: ffmpeg, the parser and the formatter of time stamps (chrono), uuid
  parsing, cron expressions, \<open>statvfs\<close>, canonical paths, checksums, the tables outside \<open>segments\<close>; JWT signatures, Argon2, the syntax of IP addresses, name resolution.

  \<^bold>\<open>What the lemmas show.\<close> Frames say what an operation leaves alone; invariants (\<open>capture_agrees\<close>, \<open>placed\<close>,
  \<open>spares\<close>, \<open>held\<close>) are kept by each operation and lifted to runs by the locales \<open>conserving_machine\<close> and
  \<open>guarded_machine\<close> of \<open>Prelude\<close>, to sweeps by \<open>sweep_body\<close> of \<open>Retention\<close>, to event sources by
  \<open>event_source\<close> of \<open>EventSources\<close>, and over the handlers of the API by \<open>account_view\<close> of \<open>AccountRules\<close>; each locale is
  interpreted on the components it speaks of. The properties
  then compose: the archive move is safe, so the sweeps are, so the eviction is, so a whole tick is.

  \<^bold>\<open>Fuel and termination.\<close> \<open>dangling_pages\<close> and \<open>prune_dirs\<close> are total: the first advances its cursor, the
  second reads each directory once and removes none. \<open>walk_root\<close> takes the number of directories it may read;
  \<open>orphan_pass_ends\<close> shows that one per node of the tree, and one more, is enough, although the walk
  itself changes the tree. \<open>drain_loop\<close> takes the number of batches it may run; \<open>drain_ends\<close> shows that one per row on the
  old storage, and one more, is enough.

  \<^bold>\<open>Not modelled.\<close> ffmpeg and its arguments, the RTSP and MQTT connections, the pixel detector's image processing,
  the HTTP handlers outside the accounts, notifications, clients and media derivatives; the pacing of the
  reconciliation and the lock that orders archive batches. An operation of the recorder runs alone here: what a
  second background loop does between two of its steps is outside the model. Of the API, \<open>SignOut\<close> interleaves the
  steps of requests, \<open>LoginRace\<close> the two halves of logins and \<open>AdminRaces\<close> two deletions; elsewhere a handler runs alone.
\<close>

end
